(* ===== verification/Prelude.thy ===== *)
theory Prelude
  imports Main "HOL-Library.Word" "HOL-Library.Multiset" "HOL-Library.Signed_Division"
begin

text \<open>
  Shared vocabulary of the development: the widths of the machine integers of the i386 kernel,
  the arithmetic of C on signed 32-bit values (truncating division, two's complement
  wrap-around), the error numbers the system calls return, sequencing of fallible steps, and the
  generic lemmas on lists and words that the component theories use.
\<close>

unbundle bit_operations_syntax

section \<open>Machine types\<close>

type_synonym u8 = "8 word"
type_synonym u16 = "16 word"
type_synonym u32 = "32 word"

text \<open>
  A C \<^verbatim>\<open>int\<close> or \<^verbatim>\<open>long\<close> of the i386 is kept as an \<open>int\<close>; \<open>wrap32\<close> is the value that remains
  in the 32-bit register after an operation that leaves the range.
\<close>

definition wrap32 :: "int \<Rightarrow> int" where
  "wrap32 x = (x + 2147483648) mod 4294967296 - 2147483648"

definition in32 :: "int \<Rightarrow> bool" where
  "in32 x \<longleftrightarrow> -2147483648 \<le> x \<and> x < 2147483648"

section \<open>Error numbers\<close>

text \<open>The values of \<^verbatim>\<open>include/sys/errno.h\<close> that the modelled routines return.\<close>

datatype errno =
    EPERM | ESRCH | EINTR | ENXIO | EBADF | ECHILD | EACCES | EFAULT | ENODEV | EINVAL | ENOTTY | ENFILE | EMFILE
  | EAGAIN | EBUSY | EDEADLK | ENOLCK | ENOMEM | EOPNOTSUPP | EWOULDBLOCK | ERESTART

section \<open>Signal numbers\<close>

text \<open>The numbers of \<^verbatim>\<open>include/sys/signal.h\<close> that the modelled code names.\<close>

abbreviation SIGHUP :: nat where "SIGHUP \<equiv> 1"
abbreviation SIGILL :: nat where "SIGILL \<equiv> 4"
abbreviation SIGKILL :: nat where "SIGKILL \<equiv> 9"
abbreviation SIGSYS :: nat where "SIGSYS \<equiv> 12"
abbreviation SIGALRM :: nat where "SIGALRM \<equiv> 14"
abbreviation SIGURG :: nat where "SIGURG \<equiv> 16"
abbreviation SIGSTOP :: nat where "SIGSTOP \<equiv> 17"
abbreviation SIGTSTP :: nat where "SIGTSTP \<equiv> 18"
abbreviation SIGCONT :: nat where "SIGCONT \<equiv> 19"
abbreviation SIGCHLD :: nat where "SIGCHLD \<equiv> 20"
abbreviation SIGTTIN :: nat where "SIGTTIN \<equiv> 21"
abbreviation SIGTTOU :: nat where "SIGTTOU \<equiv> 22"
abbreviation SIGXCPU :: nat where "SIGXCPU \<equiv> 24"
abbreviation SIGUSR1 :: nat where "SIGUSR1 \<equiv> 30"
abbreviation NSIG :: nat where "NSIG \<equiv> 32"

section \<open>Proof collections\<close>

named_theorems kern_defs \<open>definitions that the evaluation of a concrete run unfolds\<close>
named_theorems kern_inv \<open>operations that keep their component's invariant\<close>

section \<open>Arithmetic\<close>

lemma wrap32_id [simp]: "in32 x \<Longrightarrow> wrap32 x = x"
  by (simp add: wrap32_def in32_def)

lemma in32_wrap32 [simp]: "in32 (wrap32 x)"
proof -
  have "0 \<le> (x + 2147483648) mod 4294967296" "(x + 2147483648) mod 4294967296 < 4294967296"
    by (simp_all add: pos_mod_sign pos_mod_bound)
  then show ?thesis by (simp add: wrap32_def in32_def)
qed

section \<open>Lists\<close>

lemma sorted_wrt_Cons_append:
  "sorted_wrt P (xs @ y # ys) \<longleftrightarrow>
     sorted_wrt P xs \<and> sorted_wrt P ys \<and> (\<forall>x\<in>set xs. P x y \<and> (\<forall>z\<in>set ys. P x z)) \<and>
     (\<forall>z\<in>set ys. P y z)"
  by (auto simp: sorted_wrt_append)

lemma takeWhile_split_first:
  "takeWhile P xs = xs \<or> (\<exists>y ys. xs = takeWhile P xs @ y # ys \<and> \<not> P y)"
  by (induction xs) auto

section \<open>Sequences of calls\<close>

text \<open>
  A component is driven by a sequence of calls; a call may fault (a panic of the kernel or an access through a bad
  pointer or index), and the sequence then stops. The interface \<open>safe_calls\<close> says that a call on a state with room for
  one more call does not fault and leaves room for the rest; its consequence is that no sequence of allowed calls faults.
\<close>

primrec run_calls :: "('c \<Rightarrow> 's \<Rightarrow> 'f + 's) \<Rightarrow> 'c list \<Rightarrow> 's \<Rightarrow> 'f + 's" where
  "run_calls step [] s = Inr s"
| "run_calls step (c # cs) s = (case step c s of Inl f \<Rightarrow> Inl f | Inr s' \<Rightarrow> run_calls step cs s')"

locale safe_calls =
  fixes step :: "'c \<Rightarrow> 's \<Rightarrow> 'f + 's"
    and ok :: "nat \<Rightarrow> 's \<Rightarrow> bool"
    and allowed :: "'c \<Rightarrow> bool"
  assumes step_safe: "ok (Suc n) s \<Longrightarrow> allowed c \<Longrightarrow> \<exists>s'. step c s = Inr s' \<and> ok n s'"
begin

lemma run_safe:
  "ok (length cs + n) s \<Longrightarrow> \<forall>c\<in>set cs. allowed c \<Longrightarrow> \<exists>s'. run_calls step cs s = Inr s' \<and> ok n s'"
proof (induction cs arbitrary: s)
  case (Cons c cs)
  then obtain s1 where "step c s = Inr s1" "ok (length cs + n) s1" using step_safe [of "length cs + n" s c] by auto
  then show ?case using Cons by auto
qed simp

end

end
