(* ===== verification/Rlist.thy ===== *)
theory Rlist
  imports Prelude
begin

text \<open>
  The resource lists of \<^verbatim>\<open>kern/subr/rlist.c\<close>: a chain of disjoint extents of a number space, kept
  in ascending order and coalesced, from which the swap code takes space first fit
  (\<open>rlist_alloc\<close>) and to which it returns space (\<open>rlist_free\<close>). The chain of \<^verbatim>\<open>rl_next\<close> pointers
  is a list; the two bounds are the unsigned 32-bit words of the C structure, both inclusive.
\<close>

section \<open>The model\<close>

record rlist =
  rl_start :: u32
  rl_end :: u32

text \<open>
  The ways the routines stop: the three panics of \<open>rlist_free\<close>, and the write through the null
  pointer that \<^verbatim>\<open>malloc(..., M_NOWAIT)\<close> returns when no memory is free, which the code does not
  test.
\<close>

datatype rlist_fault = Overlap_front | Overlap_tail | Cant_happen | Null_store

definition new_ent :: "u32 \<Rightarrow> u32 \<Rightarrow> rlist" where
  [kern_defs]: "new_ent s e = \<lparr>rl_start = s, rl_end = e\<rparr>"

text \<open>
  The loop at label \<^verbatim>\<open>loop\<close>. The flag of the result tells whether the code goes on to label
  \<^verbatim>\<open>scan\<close>. \<open>nowait\<close> is the outcome of the \<^verbatim>\<open>M_NOWAIT\<close> allocation at the tail of the list; the
  allocation in front of an element is \<^verbatim>\<open>M_WAITOK\<close> and sleeps until it succeeds.
\<close>

fun rlist_free_loop :: "bool \<Rightarrow> rlist list \<Rightarrow> u32 \<Rightarrow> u32 \<Rightarrow> rlist_fault + (bool \<times> rlist list)"
where
  "rlist_free_loop nowait [] start end =
     (if nowait then Inr (False, [new_ent start end]) else Inl Null_store)"
| "rlist_free_loop nowait (r # rs) start end =
     (if rl_start r \<le> start \<and> start \<le> rl_end r then Inl Overlap_front
      else if rl_start r \<le> end \<and> end \<le> rl_end r then Inl Overlap_tail
      else if end + 1 = rl_start r then Inr (True, r\<lparr>rl_start := start\<rparr> # rs)
      else if end < rl_start r then Inr (False, new_ent start end # r # rs)
      else if rl_end r + 1 = start then Inr (True, r\<lparr>rl_end := end\<rparr> # rs)
      else if rl_end r < start then
        (case rlist_free_loop nowait rs start end of
           Inl f \<Rightarrow> Inl f
         | Inr (scan, rs') \<Rightarrow> Inr (scan, r # rs'))
      else Inl Cant_happen)"

text \<open>The pass at label \<^verbatim>\<open>scan\<close>, which runs over the whole list from its head.\<close>

fun rlist_scan :: "rlist list \<Rightarrow> rlist list" where
  "rlist_scan (r # r' # rs) =
     (if rl_end r + 1 = rl_start r' then rlist_scan (r\<lparr>rl_end := rl_end r'\<rparr> # rs)
      else r # rlist_scan (r' # rs))"
| "rlist_scan rs = rs"

definition rlist_free :: "bool \<Rightarrow> rlist list \<Rightarrow> u32 \<Rightarrow> u32 \<Rightarrow> rlist_fault + rlist list" where
  [kern_defs]: "rlist_free nowait rl start end =
     (case rlist_free_loop nowait rl start end of
        Inl f \<Rightarrow> Inl f
      | Inr (scan, rl') \<Rightarrow> Inr (if scan then rlist_scan rl' else rl'))"

text \<open>
  \<open>rlist_alloc\<close> returns 0 (\<open>None\<close>) or 1 with the location it stores through \<^verbatim>\<open>loc\<close> (\<open>Some\<close>). The
  arithmetic is that of the unsigned words: \<^verbatim>\<open>rl_end - rl_start + 1\<close> and \<^verbatim>\<open>rl_start += size\<close> wrap.
\<close>

fun rlist_alloc :: "rlist list \<Rightarrow> u32 \<Rightarrow> u32 option \<times> rlist list" where
  "rlist_alloc [] sz = (None, [])"
| "rlist_alloc (r # rs) sz =
     (if sz \<le> rl_end r - rl_start r + 1 then
        (let r' = r\<lparr>rl_start := rl_start r + sz\<rparr>
         in (Some (rl_start r), if rl_end r' < rl_start r' then rs else r' # rs))
      else (case rlist_alloc rs sz of (loc, rs') \<Rightarrow> (loc, r # rs')))"

definition rlist_destroy :: "rlist list \<Rightarrow> rlist list" where
  [kern_defs]: "rlist_destroy rl = []"

section \<open>Well-formed lists and the space they hold\<close>

text \<open>
  \<open>rl_ok g\<close>: every extent is non-empty and ends below the last word, and consecutive extents are
  more than \<open>g\<close> apart. \<open>rl_ok 1\<close> is the invariant between calls (ascending, disjoint, coalesced);
  \<open>rl_ok 0\<close> holds between the loop and the scan, where neighbours may touch.
\<close>

definition ext_ok :: "rlist \<Rightarrow> bool" where
  "ext_ok r \<longleftrightarrow> unat (rl_start r) \<le> unat (rl_end r) \<and> unat (rl_end r) < 4294967295"

definition rl_ok :: "nat \<Rightarrow> rlist list \<Rightarrow> bool" where
  "rl_ok g rl \<longleftrightarrow> (\<forall>r\<in>set rl. ext_ok r) \<and>
     sorted_wrt (\<lambda>r r'. unat (rl_end r) + g < unat (rl_start r')) rl"

definition rlist_wf :: "rlist list \<Rightarrow> bool" where
  "rlist_wf rl = rl_ok 1 rl"

definition ext_units :: "rlist \<Rightarrow> nat set" where
  "ext_units r = {unat (rl_start r)..unat (rl_end r)}"

definition rl_units :: "rlist list \<Rightarrow> nat set" where
  "rl_units rl = (\<Union>r\<in>set rl. ext_units r)"

lemma rl_units_simps [simp]:
  "rl_units [] = {}"
  "rl_units (r # rs) = ext_units r \<union> rl_units rs"
  by (simp_all add: rl_units_def)

lemma ext_units_new [simp]: "ext_units (new_ent s e) = {unat s..unat e}"
  by (simp add: ext_units_def new_ent_def)

lemma rl_ok_Nil [simp]: "rl_ok g []"
  by (simp add: rl_ok_def)

lemma rl_ok_Cons:
  "rl_ok g (r # rs) \<longleftrightarrow>
     ext_ok r \<and> rl_ok g rs \<and> (\<forall>r'\<in>set rs. unat (rl_end r) + g < unat (rl_start r'))"
  by (auto simp: rl_ok_def)

lemma rl_ok_mono: "rl_ok 1 rl \<Longrightarrow> rl_ok 0 rl"
  by (induction rl) (auto simp: rl_ok_Cons)

lemma succ_eq_iff: "unat (e::u32) < 4294967295 \<Longrightarrow> e + 1 = s \<longleftrightarrow> unat e + 1 = unat s"
proof -
  assume e: "unat e < 4294967295"
  then have "unat (e + 1) = unat e + 1" by (simp add: unat_word_ariths)
  then show ?thesis by (metis word_unat_eq_iff)
qed

section \<open>Freeing\<close>

lemma rl_units_above:
  "rl_ok g (r # rs) \<Longrightarrow> x \<in> rl_units rs \<Longrightarrow> unat (rl_end r) + g < x"
  by (fastforce simp: rl_ok_Cons rl_units_def ext_units_def)

lemma in_rl_units_start: "ext_ok r \<Longrightarrow> r \<in> set rl \<Longrightarrow> unat (rl_start r) \<in> rl_units rl"
  by (auto simp: rl_units_def ext_units_def ext_ok_def)

text \<open>
  The loop on a region disjoint from the list: it does not fault, adds exactly the region, leaves
  the extents ordered, and every extent of the result starts at the new region or at an old extent.
\<close>


lemma disjoint_intervals:
  fixes S E a b :: nat
  assumes "S \<le> E" "a \<le> b" "{S..E} \<inter> {a..b} = {}"
  shows "E < a \<or> b < S"
proof (rule ccontr)
  assume "\<not> (E < a \<or> b < S)"
  then have "max S a \<in> {S..E} \<inter> {a..b}" using assms(1,2) by auto
  then show False using assms(3) by blast
qed

lemma interval_join:
  fixes a b S E :: nat
  shows "b + 1 = S \<Longrightarrow> a \<le> b \<Longrightarrow> S \<le> E \<Longrightarrow> {a..E} = {a..b} \<union> {S..E}"
  by auto

lemma rlist_free_loop_ok:
  assumes "rl_ok 1 rl" "unat s \<le> unat e" "unat e < 4294967295"
    "{unat s..unat e} \<inter> rl_units rl = {}"
  shows "\<exists>b rl'. rlist_free_loop True rl s e = Inr (b, rl') \<and> rl_ok 0 rl' \<and>
    (\<not> b \<longrightarrow> rl_ok 1 rl') \<and> rl_units rl' = rl_units rl \<union> {unat s..unat e} \<and>
    (\<forall>r\<in>set rl'. unat s \<le> unat (rl_start r) \<or> rl_start r \<in> rl_start ` set rl)"
  using assms(1,4)
proof (induction rl)
  case Nil
  show ?case
    using assms(2,3) by (auto simp: rl_ok_Cons ext_ok_def new_ent_def ext_units_def)
next
  case (Cons r rs)
  note ok = Cons.prems(1)
  have r: "unat (rl_start r) \<le> unat (rl_end r)" "unat (rl_end r) < 4294967295" and rs: "rl_ok 1 rs"
    using ok by (auto simp: rl_ok_Cons ext_ok_def)
  have dj: "{unat s..unat e} \<inter> rl_units rs = {}"
    and "{unat s..unat e} \<inter> {unat (rl_start r)..unat (rl_end r)} = {}"
    using Cons.prems(2) by (simp_all add: ext_units_def Int_Un_distrib)
  then consider (adj) "unat e + 1 = unat (rl_start r)" | (before) "unat e + 1 < unat (rl_start r)"
    | (tail) "unat (rl_end r) + 1 = unat s" | (after) "unat (rl_end r) + 1 < unat s"
    using disjoint_intervals [OF assms(2) r(1)] by linarith
  then show ?case
  proof cases
    case adj
    then show ?thesis
      using assms(2,3) r rl_ok_mono [OF ok]
      by (auto simp: word_le_nat_alt succ_eq_iff rl_ok_Cons ext_ok_def ext_units_def)
  next
    case before
    have eq: "rlist_free_loop True (r # rs) s e = Inr (False, new_ent s e # r # rs)"
      using before assms(2,3) r by (auto simp: word_le_nat_alt word_less_nat_alt succ_eq_iff)
    have "unat e + 1 < unat (rl_start r')" if "r' \<in> set (r # rs)" for r'
      using that before r ok by (force simp: rl_ok_Cons)
    then have "rl_ok 1 (new_ent s e # r # rs)"
      using ok assms(2,3) by (subst rl_ok_Cons) (auto simp: ext_ok_def new_ent_def)
    with eq show ?thesis
      using rl_ok_mono by (auto simp: new_ent_def ext_units_def)
  next
    case tail
    have "unat e < unat (rl_start r')" if "r' \<in> set rs" for r'
    proof -
      have in_rs: "unat (rl_start r') \<in> rl_units rs"
        using that rs by (auto simp: rl_ok_def intro: in_rl_units_start)
      then have "unat (rl_end r) + 1 < unat (rl_start r')"
        by (rule rl_units_above [OF ok])
      moreover have "unat (rl_start r') \<notin> {unat s..unat e}"
        using in_rs dj by blast
      ultimately show ?thesis using tail by simp
    qed
    then have "rl_ok 0 (r\<lparr>rl_end := e\<rparr> # rs)"
      using tail assms(2,3) r rl_ok_mono [OF rs] by (simp add: rl_ok_Cons ext_ok_def)
    moreover have "rlist_free_loop True (r # rs) s e = Inr (True, r\<lparr>rl_end := e\<rparr> # rs)"
      using tail assms(2,3) r by (auto simp: word_le_nat_alt word_less_nat_alt succ_eq_iff)
    moreover have "ext_units (r\<lparr>rl_end := e\<rparr>) = ext_units r \<union> {unat s..unat e}"
      using interval_join [OF tail r(1) assms(2)] by (simp add: ext_units_def)
    ultimately show ?thesis
      by (intro exI [of _ True] exI [of _ "r\<lparr>rl_end := e\<rparr> # rs"]) auto
  next
    case after
    from Cons.IH [OF rs dj] obtain b rs' where
      IH: "rlist_free_loop True rs s e = Inr (b, rs')" "rl_ok 0 rs'" "\<not> b \<Longrightarrow> rl_ok 1 rs'"
        "rl_units rs' = rl_units rs \<union> {unat s..unat e}"
        "\<forall>r\<in>set rs'. unat s \<le> unat (rl_start r) \<or> rl_start r \<in> rl_start ` set rs"
      by auto
    have "unat (rl_end r) + 1 < unat (rl_start r')" if "r' \<in> set rs'" for r'
      using IH(5) that after ok by (fastforce simp: rl_ok_Cons)
    then have "rl_ok 0 (r # rs')" "\<not> b \<Longrightarrow> rl_ok 1 (r # rs')"
      using IH(2,3) r by (fastforce simp: rl_ok_Cons ext_ok_def)+
    with IH after assms(2,3) r show ?thesis
      by (auto simp: word_le_nat_alt word_less_nat_alt succ_eq_iff)
  qed
qed

lemma rlist_scan_ok:
  "rl_ok 0 rl \<Longrightarrow> rl_ok 1 (rlist_scan rl) \<and> rl_units (rlist_scan rl) = rl_units rl \<and>
     (\<forall>r\<in>set (rlist_scan rl). rl_start r \<in> rl_start ` set rl)"
proof (induction rl rule: rlist_scan.induct)
  case (1 r r' rs)
  show ?case
  proof (cases "rl_end r + 1 = rl_start r'")
    case True
    with 1(3) have "rl_ok 0 (r\<lparr>rl_end := rl_end r'\<rparr> # rs)"
      and "ext_units (r\<lparr>rl_end := rl_end r'\<rparr>) = ext_units r \<union> ext_units r'"
      by (auto simp: rl_ok_Cons ext_ok_def ext_units_def succ_eq_iff)
    with True 1(1) show ?thesis by (auto simp: Un_assoc)
  next
    case False
    with 1(2,3) have IH: "rl_ok 1 (rlist_scan (r' # rs))"
      "rl_units (rlist_scan (r' # rs)) = rl_units (r' # rs)"
      "\<forall>x\<in>set (rlist_scan (r' # rs)). rl_start x \<in> rl_start ` set (r' # rs)"
      by (auto simp: rl_ok_Cons)
    have r: "ext_ok r" and gap: "\<forall>x\<in>set (r' # rs). unat (rl_end r) + 1 < unat (rl_start x)"
      using 1(3) False by (fastforce simp: rl_ok_Cons ext_ok_def succ_eq_iff)+
    have "unat (rl_end r) + 1 < unat (rl_start x)" if "x \<in> set (rlist_scan (r' # rs))" for x
      using IH(3) gap that by (metis (no_types, lifting) image_iff)
    with IH r False show ?thesis by (auto simp: rl_ok_Cons)
  qed
qed (auto simp: rl_ok_Cons)

lemma rlist_free_ok:
  assumes "rlist_wf rl" "s \<le> e" "e < 4294967295" "{unat s..unat e} \<inter> rl_units rl = {}"
  shows "\<exists>rl'. rlist_free True rl s e = Inr rl' \<and> rlist_wf rl' \<and>
    rl_units rl' = rl_units rl \<union> {unat s..unat e}"
proof -
  have "unat e < 4294967295" using assms(3) by (simp add: word_less_nat_alt)
  then show ?thesis
    using rlist_free_loop_ok [of rl s e] assms(1,2,4) rlist_scan_ok
    by (fastforce simp: rlist_wf_def rlist_free_def word_le_nat_alt)
qed

section \<open>Allocating\<close>

lemma ext_size:
  assumes "ext_ok r"
  shows "unat (rl_end r - rl_start r + 1) = unat (rl_end r) - unat (rl_start r) + 1"
proof -
  have "unat (rl_end r - rl_start r) = unat (rl_end r) - unat (rl_start r)"
    using assms by (simp add: ext_ok_def unat_sub word_le_nat_alt)
  then have "unat (rl_end r - rl_start r + 1) = Suc (unat (rl_end r) - unat (rl_start r)) mod 4294967296"
    by (simp add: unat_word_ariths)
  also have "\<dots> = Suc (unat (rl_end r) - unat (rl_start r))"
    using assms by (intro mod_less) (auto simp: ext_ok_def)
  finally show ?thesis by simp
qed

lemma rlist_alloc_ok:
  assumes "rlist_wf rl" "0 < sz"
  shows "case rlist_alloc rl sz of
      (None, rl') \<Rightarrow> rl' = rl \<and> (\<forall>r\<in>set rl. card (ext_units r) < unat sz)
    | (Some loc, rl') \<Rightarrow> rlist_wf rl' \<and> {unat loc..<unat loc + unat sz} \<subseteq> rl_units rl \<and>
        rl_units rl' = rl_units rl - {unat loc..<unat loc + unat sz} \<and>
        (\<forall>r\<in>set rl'. \<exists>r0\<in>set rl. unat (rl_start r0) \<le> unat (rl_start r))"
  using assms(1)
proof (induction rl)
  case Nil
  then show ?case by simp
next
  case (Cons r rs)
  have r: "ext_ok r" and rs: "rlist_wf rs"
    and gap: "\<And>r'. r' \<in> set rs \<Longrightarrow> unat (rl_end r) + 1 < unat (rl_start r')"
    using Cons.prems by (auto simp: rlist_wf_def rl_ok_Cons)
  have above: "\<And>x. x \<in> rl_units rs \<Longrightarrow> unat (rl_end r) + 1 < x"
    using rl_units_above [OF Cons.prems [unfolded rlist_wf_def]] .
  have szp: "0 < unat sz" using assms(2) by (simp add: word_less_nat_alt)
  have fits: "sz \<le> rl_end r - rl_start r + 1 \<longleftrightarrow>
      unat (rl_start r) + unat sz \<le> unat (rl_end r) + 1"
    using r ext_size [OF r] by (auto simp: word_le_nat_alt ext_ok_def)
  show ?case
  proof (cases "sz \<le> rl_end r - rl_start r + 1")
    case True
    then have le: "unat (rl_start r) + unat sz \<le> unat (rl_end r) + 1" using fits by simp
    have st: "unat (rl_start r + sz) = unat (rl_start r) + unat sz"
      using le r by (simp add: ext_ok_def unat_word_ariths)
    show ?thesis
      using True le st r rs gap szp
      by (auto simp: Let_def word_less_nat_alt rlist_wf_def rl_ok_Cons ext_ok_def ext_units_def
          dest: above)
  next
    case False
    then have lt: "card (ext_units r) < unat sz"
      using False fits r by (auto simp: ext_units_def ext_ok_def)
    show ?thesis
    proof (cases "rlist_alloc rs sz")
      case (Pair loc rs')
      note IH = Cons.IH [OF rs, unfolded Pair]
      show ?thesis
      proof (cases loc)
        case None
        with False lt IH Pair show ?thesis by auto
      next
        case (Some l)
        let ?A = "{unat l..<unat l + unat sz}"
        have A: "?A \<subseteq> rl_units rs" "rl_units rs' = rl_units rs - ?A" "rlist_wf rs'"
          "\<forall>r\<in>set rs'. \<exists>r0\<in>set rs. unat (rl_start r0) \<le> unat (rl_start r)"
          using IH Some by auto
        have "rlist_wf (r # rs')"
          using A(3,4) r gap by (fastforce simp: rlist_wf_def rl_ok_Cons)
        moreover have "ext_units r \<inter> ?A = {}"
          using A(1) by (force simp: ext_units_def dest: above)
        ultimately show ?thesis
          using False Pair Some A by auto
      qed
    qed
  qed
qed


lemma rlist_alloc_Some:
  assumes "rlist_wf rl" "0 < sz" "rlist_alloc rl sz = (Some loc, rl')"
  shows "rlist_wf rl'" "{unat loc..<unat loc + unat sz} \<subseteq> rl_units rl"
    "rl_units rl' = rl_units rl - {unat loc..<unat loc + unat sz}"
  using rlist_alloc_ok [OF assms(1,2)] assms(3) by auto

section \<open>One list per set\<close>

text \<open>
  A well-formed list is determined by the space it holds, so that an operation that restores the
  space restores the list itself.
\<close>

lemma rl_units_Cons_bounds:
  assumes "rl_ok 1 (r # rs)"
  shows "unat (rl_start r) \<in> rl_units (r # rs)"
    "x \<in> rl_units (r # rs) \<Longrightarrow> unat (rl_start r) \<le> x"
    "Suc (unat (rl_end r)) \<notin> rl_units (r # rs)"
    "rl_units rs = rl_units (r # rs) - ext_units r"
proof -
  have r: "unat (rl_start r) \<le> unat (rl_end r)"
    using assms by (simp add: rl_ok_Cons ext_ok_def)
  have above: "Suc (unat (rl_end r)) < y" if "y \<in> rl_units rs" for y
    using rl_units_above [OF assms that] by simp
  show "unat (rl_start r) \<in> rl_units (r # rs)"
    using r by (simp add: ext_units_def)
  show "unat (rl_start r) \<le> x" if "x \<in> rl_units (r # rs)"
    using that r above [of x] by (auto simp: ext_units_def)
  show "Suc (unat (rl_end r)) \<notin> rl_units (r # rs)"
    using above [of "Suc (unat (rl_end r))"] by (auto simp: ext_units_def)
  have "ext_units r \<inter> rl_units rs = {}"
    using above by (force simp: ext_units_def)
  then show "rl_units rs = rl_units (r # rs) - ext_units r" by auto
qed

lemma rl_end_le:
  assumes "rl_ok 1 (r # rs)" "rl_ok 1 (r' # rs')" "rl_units (r # rs) = rl_units (r' # rs')"
    "rl_start r = rl_start r'"
  shows "unat (rl_end r') \<le> unat (rl_end r)"
proof (rule ccontr)
  assume "\<not> ?thesis"
  moreover have "unat (rl_start r') \<le> unat (rl_end r)"
    using assms(1,4) by (simp add: rl_ok_Cons ext_ok_def)
  ultimately have "Suc (unat (rl_end r)) \<in> ext_units r'"
    by (simp add: ext_units_def)
  with assms(3) rl_units_Cons_bounds(3) [OF assms(1)] show False by simp
qed

lemma rl_units_inject:
  "rl_ok 1 rl \<Longrightarrow> rl_ok 1 rl' \<Longrightarrow> rl_units rl = rl_units rl' \<Longrightarrow> rl = rl'"
proof (induction rl arbitrary: rl')
  case Nil
  have "False" if "rl' = r # rs" for r rs
    using Nil rl_units_Cons_bounds(1) [of r rs] that by auto
  then show ?case by (cases rl') auto
next
  case (Cons r rs)
  have "rl' \<noteq> []"
    using Cons.prems(3) rl_units_Cons_bounds(1) [OF Cons.prems(1)] by auto
  then obtain r' rs' where rl': "rl' = r' # rs'"
    by (cases rl') auto
  note ok = Cons.prems(1) Cons.prems(2) [unfolded rl'] and eq = Cons.prems(3) [unfolded rl']
  have "unat (rl_start r) = unat (rl_start r')"
    using rl_units_Cons_bounds(1,2) [OF ok(1)] rl_units_Cons_bounds(1,2) [OF ok(2)] eq
    by (metis le_antisym)
  then have st: "rl_start r = rl_start r'" by (simp add: word_unat_eq_iff)
  have "unat (rl_end r) = unat (rl_end r')"
    using rl_end_le [OF ok eq st] rl_end_le [OF ok(2,1) eq [symmetric] st [symmetric]] by simp
  then have "r = r'" using st by (cases r, cases r') (simp add: word_unat_eq_iff)
  have "rl_units rs = rl_units rs'"
    using rl_units_Cons_bounds(4) [OF ok(1)] rl_units_Cons_bounds(4) [OF ok(2)] eq \<open>r = r'\<close>
    by metis
  then have "rs = rs'"
    using Cons.IH [of rs'] ok by (simp add: rl_ok_Cons)
  with \<open>r = r'\<close> show ?case using rl' by simp
qed

lemma rl_units_bound: "rlist_wf rl \<Longrightarrow> rl_units rl \<subseteq> {..<4294967295}"
  by (force simp: rlist_wf_def rl_ok_def rl_units_def ext_units_def ext_ok_def)

section \<open>The interface of an extent pool\<close>

text \<open>
  What the swap code relies on: an allocation takes its region out of the free space, a release of
  a region that is not free puts it back, and the representation is canonical.
\<close>

locale extent_pool =
  fixes alloc :: "'s \<Rightarrow> u32 \<Rightarrow> u32 option \<times> 's"
    and release :: "'s \<Rightarrow> u32 \<Rightarrow> u32 \<Rightarrow> 'f + 's"
    and space :: "'s \<Rightarrow> nat set"
    and invar :: "'s \<Rightarrow> bool"
  assumes alloc_invar: "invar s \<Longrightarrow> 0 < n \<Longrightarrow> alloc s n = (Some l, s') \<Longrightarrow> invar s'"
    and alloc_sub: "invar s \<Longrightarrow> 0 < n \<Longrightarrow> alloc s n = (Some l, s') \<Longrightarrow>
      {unat l..<unat l + unat n} \<subseteq> space s"
    and alloc_space: "invar s \<Longrightarrow> 0 < n \<Longrightarrow> alloc s n = (Some l, s') \<Longrightarrow>
      space s' = space s - {unat l..<unat l + unat n}"
    and release_ok: "invar s \<Longrightarrow> a \<le> b \<Longrightarrow> b < 4294967295 \<Longrightarrow> {unat a..unat b} \<inter> space s = {} \<Longrightarrow>
      \<exists>s'. release s a b = Inr s' \<and> invar s' \<and> space s' = space s \<union> {unat a..unat b}"
    and canonical: "invar s \<Longrightarrow> invar s' \<Longrightarrow> space s = space s' \<Longrightarrow> s = s'"
    and bounded: "invar s \<Longrightarrow> space s \<subseteq> {..<4294967295}"
begin

lemma granted_last:
  assumes "invar s" "0 < n" "alloc s n = (Some l, s')"
  shows "unat (l + (n - 1)) = unat l + unat n - 1" "unat l + unat n \<le> 4294967295"
proof -
  have n: "0 < unat n" using assms(2) by (simp add: word_less_nat_alt)
  then have "unat l + unat n - 1 \<in> {unat l..<unat l + unat n}" by auto
  then have b: "unat l + unat n - 1 < 4294967295"
    using alloc_sub [OF assms] bounded [OF assms(1)] by blast
  then show "unat l + unat n \<le> 4294967295" by simp
  have "unat (n - 1) = unat n - 1"
    using n by (simp add: unat_sub word_le_nat_alt)
  then show "unat (l + (n - 1)) = unat l + unat n - 1"
    using b n by (simp add: unat_word_ariths)
qed

lemma alloc_release:
  assumes "invar s" "0 < n" "alloc s n = (Some l, s')"
  shows "release s' l (l + (n - 1)) = Inr s"
proof -
  note gl = granted_last [OF assms]
  have n: "0 < unat n" using assms(2) by (simp add: word_less_nat_alt)
  have seg: "{unat l..unat (l + (n - 1))} = {unat l..<unat l + unat n}"
    using gl(1) n by auto
  have "l \<le> l + (n - 1)" "l + (n - 1) < 4294967295"
    using gl n by (simp_all add: word_le_nat_alt word_less_nat_alt)
  moreover have "{unat l..unat (l + (n - 1))} \<inter> space s' = {}"
    using alloc_space [OF assms] seg by auto
  ultimately obtain s'' where s'': "release s' l (l + (n - 1)) = Inr s''" "invar s''"
    "space s'' = space s' \<union> {unat l..unat (l + (n - 1))}"
    using release_ok [OF alloc_invar [OF assms]] by blast
  have "space s'' = space s"
    using s''(3) alloc_space [OF assms] alloc_sub [OF assms] seg by auto
  then show ?thesis using canonical [OF s''(2) assms(1)] s''(1) by simp
qed

lemma alloc_disjoint:
  assumes "invar s" "0 < n" "alloc s n = (Some l, s')" "0 < m" "alloc s' m = (Some l', s'')"
  shows "{unat l..<unat l + unat n} \<inter> {unat l'..<unat l' + unat m} = {}"
  using alloc_sub [OF alloc_invar [OF assms(1-3)] assms(4,5)] alloc_space [OF assms(1-3)] by blast

end

interpretation rl: extent_pool rlist_alloc "rlist_free True" rl_units rlist_wf
proof unfold_locales
  fix rl rl'
  assume "rlist_wf rl" "rlist_wf rl'" "rl_units rl = rl_units rl'"
  then show "rl = rl'" by (auto simp: rlist_wf_def intro: rl_units_inject)
qed (auto simp: rlist_alloc_Some rlist_free_ok rl_units_bound dest!: rl_units_bound
    intro: rlist_alloc_Some)

section \<open>Properties\<close>

text \<open>
  C13. Returning a region that is not free, is not empty and ends below the largest number, when the list element can be
  allocated, does not panic, keeps
  the list ascending, disjoint and coalesced, and adds exactly the region to the free space.
\<close>

theorem rlist_free_adds_region:
  assumes "rlist_wf rl" "s \<le> e" "e < 4294967295" "{unat s..unat e} \<inter> rl_units rl = {}"
  shows "\<exists>rl'. rlist_free True rl s e = Inr rl' \<and> rlist_wf rl' \<and>
    rl_units rl' = rl_units rl \<union> {unat s..unat e}"
  using assms by (rule rl.release_ok)

theorem rlist_free_adds_region_witness:
  "\<exists>rl'. rlist_free True [\<lparr>rl_start = 1, rl_end = 5\<rparr>, \<lparr>rl_start = 10, rl_end = 20\<rparr>] 6 9 = Inr rl' \<and>
     rlist_wf rl' \<and> rl_units rl' =
       rl_units [\<lparr>rl_start = 1, rl_end = 5\<rparr>, \<lparr>rl_start = 10, rl_end = 20\<rparr>] \<union> {unat (6::u32)..unat (9::u32)}"
  by (rule rlist_free_adds_region)
    (auto simp: rlist_wf_def rl_ok_def ext_ok_def rl_units_def ext_units_def)

text \<open>
  C16. A request of positive size either fails, with the list unchanged and every extent too small,
  or is granted a region that was free; the region leaves the free space, nothing else does, and
  the list stays well-formed.
\<close>

theorem rlist_alloc_takes_region:
  assumes "rlist_wf rl" "0 < sz"
  shows "case rlist_alloc rl sz of
      (None, rl') \<Rightarrow> rl' = rl \<and> (\<forall>r\<in>set rl. card (ext_units r) < unat sz)
    | (Some loc, rl') \<Rightarrow> rlist_wf rl' \<and> {unat loc..<unat loc + unat sz} \<subseteq> rl_units rl \<and>
        rl_units rl' = rl_units rl - {unat loc..<unat loc + unat sz}"
  using rlist_alloc_ok [OF assms] by (auto split: option.splits prod.splits)

theorem rlist_alloc_takes_region_witness:
  "case rlist_alloc [\<lparr>rl_start = 1, rl_end = 5\<rparr>, \<lparr>rl_start = 10, rl_end = 20\<rparr>] 8 of
      (None, rl') \<Rightarrow> False
    | (Some loc, rl') \<Rightarrow> loc = 10 \<and> rlist_wf rl' \<and> rl' = [\<lparr>rl_start = 1, rl_end = 5\<rparr>, \<lparr>rl_start = 18, rl_end = 20\<rparr>]"
  using rlist_alloc_takes_region [of "[\<lparr>rl_start = 1, rl_end = 5\<rparr>, \<lparr>rl_start = 10, rl_end = 20\<rparr>]" 8]
  by (simp add: rlist_wf_def rl_ok_def ext_ok_def Let_def)

text \<open>
  Giving back what was just allocated restores the very list there was before: the same
  extents, coalesced in the same way.
\<close>

theorem rlist_alloc_free_roundtrip:
  assumes "rlist_wf rl" "0 < sz" "rlist_alloc rl sz = (Some loc, rl')"
  shows "rlist_free True rl' loc (loc + (sz - 1)) = Inr rl"
  using assms by (rule rl.alloc_release)

theorem rlist_alloc_free_roundtrip_witness:
  "rlist_free True [\<lparr>rl_start = 1, rl_end = 5\<rparr>, \<lparr>rl_start = 18, rl_end = 20\<rparr>] 10 (10 + (8 - 1)) =
     Inr [\<lparr>rl_start = 1, rl_end = 5\<rparr>, \<lparr>rl_start = 10, rl_end = 20\<rparr>]"
  by (rule rlist_alloc_free_roundtrip) (auto simp: rlist_wf_def rl_ok_def ext_ok_def Let_def)

text \<open>
  A region whose first unit is already free is always reported: the code panics with
  ``overlapping front''.
\<close>

theorem rlist_double_free_panics:
  assumes "rlist_wf rl" "s \<le> e" "e < 4294967295" "unat s \<in> rl_units rl"
  shows "rlist_free nowait rl s e = Inl Overlap_front"
proof -
  have e: "unat s \<le> unat e" "unat e < 4294967295"
    using assms(2,3) by (simp_all add: word_le_nat_alt word_less_nat_alt)
  have "rlist_free_loop nowait rl s e = Inl Overlap_front"
    using assms(1,4)
  proof (induction rl)
    case (Cons r rs)
    have r: "unat (rl_start r) \<le> unat (rl_end r)"
      using Cons.prems(1) by (simp add: rlist_wf_def rl_ok_Cons ext_ok_def)
    show ?case
    proof (cases "unat s \<in> ext_units r")
      case False
      with Cons.prems have "unat s \<in> rl_units rs" by simp
      moreover from this have "Suc (unat (rl_end r)) < unat s"
        using rl_units_above [of 1 r rs "unat s"] Cons.prems(1) by (simp add: rlist_wf_def)
      ultimately show ?thesis
        using Cons e r by (auto simp: rlist_wf_def rl_ok_Cons ext_ok_def word_le_nat_alt
            word_less_nat_alt succ_eq_iff)
    qed (simp add: ext_units_def word_le_nat_alt)
  qed simp
  then show ?thesis by (simp add: rlist_free_def)
qed

theorem rlist_double_free_panics_witness:
  "rlist_free True [\<lparr>rl_start = 1, rl_end = 5\<rparr>, \<lparr>rl_start = 10, rl_end = 20\<rparr>] 12 30 = Inl Overlap_front"
  by (rule rlist_double_free_panics)
    (auto simp: rlist_wf_def rl_ok_def ext_ok_def rl_units_def ext_units_def)

text \<open>
  An overlap that begins right behind an extent is not reported: on the list 1-5, 10-20 the
  release of 6-12 coalesces with 1-5 before the extent 10-20 is looked at. The list that results
  overlaps itself, and two allocations then hand out the units 10-12 twice.
\<close>

theorem rlist_free_misses_overlap:
  "rlist_wf [\<lparr>rl_start = 1, rl_end = 5\<rparr>, \<lparr>rl_start = 10, rl_end = 20\<rparr>] \<and>
   rlist_free True [\<lparr>rl_start = 1, rl_end = 5\<rparr>, \<lparr>rl_start = 10, rl_end = 20\<rparr>] 6 12 =
     Inr [\<lparr>rl_start = 1, rl_end = 12\<rparr>, \<lparr>rl_start = 10, rl_end = 20\<rparr>] \<and>
   rlist_alloc [\<lparr>rl_start = 1, rl_end = 12\<rparr>, \<lparr>rl_start = 10, rl_end = 20\<rparr>] 12 =
     (Some 1, [\<lparr>rl_start = 10, rl_end = 20\<rparr>]) \<and>
   rlist_alloc [\<lparr>rl_start = 10, rl_end = 20\<rparr>] 11 = (Some 10, [])"
  by (simp add: rlist_wf_def rl_ok_def ext_ok_def rlist_free_def Let_def)

end
