(* ===== verification/Disksort.thy ===== *)
theory Disksort
  imports Prelude
begin

text \<open>
  The seek sort of \<^verbatim>\<open>kern/subr/disksort.c\<close>: the routine a disk driver calls to put a request into
  its activity queue. The queue serves one ascending sweep of the cylinders and, behind it, the
  ascending sweep of the requests that came in after their cylinder was passed; requests marked
  \<^verbatim>\<open>B_ORDER\<close> are served in the order of arrival.
\<close>

section \<open>The model\<close>

text \<open>
  The fields of \<^verbatim>\<open>struct buf\<close> that \<open>disksort\<close> reads and writes. \<open>b_addr\<close> is the identity of the
  buffer (its address); \<^verbatim>\<open>b_cylin\<close> is the name the file gives to \<^verbatim>\<open>b_resid\<close>; \<open>b_order\<close> is the bit
  \<^verbatim>\<open>B_ORDER\<close> of \<^verbatim>\<open>b_flags\<close>. The chain of \<^verbatim>\<open>av_forw\<close> pointers from \<^verbatim>\<open>b_actf\<close> is a list, and \<open>b_actl\<close>
  the tail pointer of the queue header.
\<close>

record buf =
  b_addr :: nat
  b_cylin :: int
  b_blkno :: int
  b_order :: bool

record diskq =
  b_actf :: "buf list"
  b_actl :: "nat option"

text \<open>
  A search ends with a buffer \<open>ap\<close> behind which the request goes. Its result is the chain up to and
  including \<open>ap\<close>, and the chain behind it; \<open>pass\<close> is the step \<^verbatim>\<open>ap = ap->av_forw\<close>.
\<close>

fun pass :: "buf \<Rightarrow> buf list \<times> buf list \<Rightarrow> buf list \<times> buf list" where
  "pass ap (pre, suf) = (ap # pre, suf)"

definition goes_before :: "buf \<Rightarrow> buf \<Rightarrow> bool" where
  [kern_defs]: "goes_before bp nx \<longleftrightarrow>
     b_cylin bp < b_cylin nx \<or> (b_cylin bp = b_cylin nx \<and> b_blkno bp < b_blkno nx)"

text \<open>The \<^verbatim>\<open>do ... while\<close> search of the second request list.\<close>

fun sort_second :: "buf \<Rightarrow> buf list \<Rightarrow> buf list \<times> buf list" where
  "sort_second bp (ap # nx # rest) =
     (if goes_before bp nx then ([ap], nx # rest) else pass ap (sort_second bp (nx # rest)))"
| "sort_second bp chain = (chain, [])"

text \<open>The search for the inversion that starts the second request list.\<close>

fun find_second :: "buf \<Rightarrow> buf list \<Rightarrow> buf list \<times> buf list" where
  "find_second bp (ap # nx # rest) =
     (if b_cylin nx < b_cylin ap then sort_second bp (ap # nx # rest)
      else pass ap (find_second bp (nx # rest)))"
| "find_second bp chain = (chain, [])"

text \<open>The search of the first request list.\<close>

fun sort_first :: "buf \<Rightarrow> buf list \<Rightarrow> buf list \<times> buf list" where
  "sort_first bp (ap # nx # rest) =
     (if b_cylin nx < b_cylin ap \<or> goes_before bp nx then ([ap], nx # rest)
      else pass ap (sort_first bp (nx # rest)))"
| "sort_first bp chain = (chain, [])"

text \<open>
  An ordered transfer makes a sequence of the queue: the loop marks every buffer it leaves, which
  is every buffer but the last, and the transfer goes in behind the last.
\<close>

fun order_all :: "buf \<Rightarrow> buf list \<Rightarrow> buf list \<times> buf list" where
  "order_all bp (ap # nx # rest) = pass (ap\<lparr>b_order := True\<rparr>) (order_all bp (nx # rest))"
| "order_all bp chain = (chain, [])"

text \<open>The code behind the check for an ordered sequence, with \<open>ap\<close> the first buffer of the chain.\<close>

definition sort_from :: "buf \<Rightarrow> buf list \<Rightarrow> buf list \<times> buf list" where
  [kern_defs]: "sort_from bp chain =
     (if b_order bp then order_all bp chain
      else if b_cylin bp < b_cylin (hd chain) then find_second bp chain
      else sort_first bp chain)"

text \<open>
  The skip over an ordered sequence at the head of the queue. When it ends at the last buffer and
  that is ordered too, the request goes in behind it.
\<close>

fun skip_ordered :: "buf \<Rightarrow> buf list \<Rightarrow> buf list \<times> buf list" where
  "skip_ordered bp (ap # nx # rest) =
     (if b_order ap then pass ap (skip_ordered bp (nx # rest)) else sort_from bp (ap # nx # rest))"
| "skip_ordered bp (ap # []) = (if b_order ap then ([ap], []) else sort_from bp [ap])"
| "skip_ordered bp [] = ([], [])"

text \<open>\<open>disksort\<close>: the empty queue, the search, and the insertion at label \<^verbatim>\<open>insert\<close>.\<close>

definition disksort :: "diskq \<Rightarrow> buf \<Rightarrow> diskq" where
  [kern_defs]: "disksort dp bp =
     (if b_actf dp = [] then \<lparr>b_actf = [bp], b_actl = Some (b_addr bp)\<rparr>
      else (case skip_ordered bp (b_actf dp) of (pre, suf) \<Rightarrow>
        \<lparr>b_actf = pre @ bp # suf,
         b_actl = (if b_actl dp = Some (b_addr (last pre)) then Some (b_addr bp) else b_actl dp)\<rparr>))"

section \<open>The searches split the queue\<close>

text \<open>\<open>splits bp c\<close>: the search found a place behind the active request and moved no buffer.\<close>

definition splits :: "buf list \<times> buf list \<Rightarrow> buf list \<Rightarrow> bool" where
  "splits ps chain \<longleftrightarrow> fst ps \<noteq> [] \<and> map b_addr (fst ps @ snd ps) = map b_addr chain"

lemma splits_pass:
  "splits ps (c # cs) \<Longrightarrow> b_addr ap = b_addr ap' \<Longrightarrow> splits (pass ap' ps) (ap # c # cs)"
  by (cases ps) (simp add: splits_def)

lemma splits_here: "splits ([ap], rest) (ap # rest)"
  by (simp add: splits_def)

lemma sort_second_splits: "c \<noteq> [] \<Longrightarrow> splits (sort_second bp c) c"
  by (induction bp c rule: sort_second.induct) (auto simp: splits_here splits_pass)

lemma find_second_splits: "c \<noteq> [] \<Longrightarrow> splits (find_second bp c) c"
  by (induction bp c rule: find_second.induct)
    (auto simp: splits_here splits_pass sort_second_splits simp del: sort_second.simps)

lemma sort_first_splits: "c \<noteq> [] \<Longrightarrow> splits (sort_first bp c) c"
  by (induction bp c rule: sort_first.induct) (auto simp: splits_here splits_pass)

lemma order_all_splits: "c \<noteq> [] \<Longrightarrow> splits (order_all bp c) c"
  by (induction bp c rule: order_all.induct) (auto simp: splits_here splits_pass)

lemmas search_splits = sort_second_splits find_second_splits sort_first_splits order_all_splits

lemma sort_from_splits: "c \<noteq> [] \<Longrightarrow> splits (sort_from bp c) c"
  by (simp add: sort_from_def search_splits)

lemma skip_ordered_splits: "c \<noteq> [] \<Longrightarrow> splits (skip_ordered bp c) c"
  by (induction bp c rule: skip_ordered.induct)
    (auto simp: splits_here splits_pass sort_from_splits)

lemma disksort_splits:
  assumes "b_actf dp \<noteq> []"
  obtains pre suf where "b_actf (disksort dp bp) = pre @ bp # suf" "pre \<noteq> []"
    "map b_addr (pre @ suf) = map b_addr (b_actf dp)"
    "b_actl (disksort dp bp) =
      (if b_actl dp = Some (b_addr (last pre)) then Some (b_addr bp) else b_actl dp)"
proof (cases "skip_ordered bp (b_actf dp)")
  case (Pair pre suf)
  then show ?thesis
    using that [of pre suf] skip_ordered_splits [OF assms, of bp] assms
    by (simp add: disksort_def splits_def)
qed

section \<open>The two sweeps\<close>

text \<open>
  \<open>before\<close>: the order of a sweep, by cylinder and then block. \<open>sweeps c\<close>: the queue \<open>c\<close> is a sweep \<open>xs\<close> that
  starts at the active request (whose block number no longer counts), followed by a sweep \<open>ys\<close> of
  requests whose cylinder lies before the active one.
\<close>

definition before :: "buf \<Rightarrow> buf \<Rightarrow> bool" where
  "before x y \<longleftrightarrow> \<not> goes_before y x"

definition sweeps_at :: "buf list \<Rightarrow> buf list \<Rightarrow> bool" where
  "sweeps_at xs ys \<longleftrightarrow> xs \<noteq> [] \<and> sorted_wrt before (tl xs) \<and> sorted_wrt before ys \<and>
     (\<forall>x\<in>set xs. b_cylin (hd xs) \<le> b_cylin x) \<and> (\<forall>y\<in>set ys. b_cylin y < b_cylin (hd xs))"

definition sweeps :: "buf list \<Rightarrow> bool" where
  "sweeps c \<longleftrightarrow> c = [] \<or> (\<exists>xs ys. c = xs @ ys \<and> sweeps_at xs ys)"

lemma before_trans: "before x y \<Longrightarrow> before y z \<Longrightarrow> before x z"
  by (auto simp: before_def goes_before_def)

lemma before_cylin: "before x y \<Longrightarrow> b_cylin x \<le> b_cylin y"
  by (auto simp: before_def goes_before_def)

lemma goes_before_before: "goes_before x y \<Longrightarrow> before x y"
  by (auto simp: before_def goes_before_def)

lemma set_insert_at:
  "set (takeWhile P zs @ bp # dropWhile P zs) = insert bp (set zs)"
proof -
  have "set (takeWhile P zs) \<union> set (dropWhile P zs) = set zs"
    by (metis set_append takeWhile_dropWhile_id)
  then show ?thesis by auto
qed

lemma before_insert:
  assumes "sorted_wrt before zs"
  shows "sorted_wrt before
    (takeWhile (\<lambda>z. \<not> goes_before bp z) zs @ bp # dropWhile (\<lambda>z. \<not> goes_before bp z) zs)"
  using assms
proof (induction zs)
  case (Cons z zs)
  show ?case
  proof (cases "goes_before bp z")
    case True
    then have "before bp z" by (rule goes_before_before)
    with Cons.prems True show ?thesis
      by (auto intro: before_trans)
  next
    case False
    then have "before z bp" by (simp add: before_def)
    with Cons False show ?thesis
      using set_insert_at [of "\<lambda>z. \<not> goes_before bp z" zs bp] by simp
  qed
qed simp

lemma sort_second_eq:
  "sort_second bp (ap # ys) =
     (ap # takeWhile (\<lambda>y. \<not> goes_before bp y) ys, dropWhile (\<lambda>y. \<not> goes_before bp y) ys)"
  by (induction ys arbitrary: ap) auto

lemma find_second_eq:
  assumes "sorted_wrt before (tl xs)" "xs \<noteq> []" "\<forall>x\<in>set xs. b_cylin (hd xs) \<le> b_cylin x"
    "\<forall>x\<in>set xs. \<forall>y\<in>set ys. b_cylin y < b_cylin x"
  shows "find_second bp (xs @ ys) =
     (xs @ takeWhile (\<lambda>y. \<not> goes_before bp y) ys, dropWhile (\<lambda>y. \<not> goes_before bp y) ys)"
  using assms
proof (induction xs)
  case (Cons x xs)
  show ?case
  proof (cases xs)
    case Nil
    then show ?thesis
      using Cons.prems(4) by (cases ys) (auto simp: sort_second_eq simp del: sort_second.simps)
  next
    case (Cons x' xs')
    then have "\<forall>z\<in>set xs. b_cylin (hd xs) \<le> b_cylin z"
      using Cons.prems(1) by (auto dest: before_cylin)
    then have "find_second bp (xs @ ys) =
       (xs @ takeWhile (\<lambda>y. \<not> goes_before bp y) ys, dropWhile (\<lambda>y. \<not> goes_before bp y) ys)"
      using Cons.IH Cons.prems Cons by simp
    then show ?thesis
      using Cons Cons.prems(3) by simp
  qed
qed simp

lemma sort_first_eq:
  assumes "sorted_wrt before xs" "\<forall>x\<in>set xs. b_cylin ap \<le> b_cylin x"
    "\<forall>x\<in>set (ap # xs). \<forall>y\<in>set ys. b_cylin y < b_cylin x"
  shows "sort_first bp (ap # xs @ ys) =
     (ap # takeWhile (\<lambda>x. \<not> goes_before bp x) xs, dropWhile (\<lambda>x. \<not> goes_before bp x) xs @ ys)"
  using assms
proof (induction xs arbitrary: ap)
  case Nil
  then show ?case by (cases ys) auto
next
  case (Cons x xs)
  have "\<forall>z\<in>set xs. b_cylin x \<le> b_cylin z"
    using Cons.prems(1) by (auto dest: before_cylin)
  then show ?case using Cons.IH [of x] Cons.prems by simp
qed

lemma sweeps_at_disksort:
  assumes "sweeps_at xs ys" "\<not> b_order bp"
  shows "\<exists>xs' ys' pre suf. sort_from bp (xs @ ys) = (pre, suf) \<and> pre @ bp # suf = xs' @ ys' \<and>
    sweeps_at xs' ys' \<and> hd xs' = hd xs"
proof -
  let ?t = "takeWhile (\<lambda>y. \<not> goes_before bp y)" and ?d = "dropWhile (\<lambda>y. \<not> goes_before bp y)"
  obtain ap xs' where xs: "xs = ap # xs'" using assms(1) by (cases xs) (auto simp: sweeps_at_def)
  have lt: "\<forall>x\<in>set (ap # xs'). \<forall>y\<in>set ys. b_cylin y < b_cylin x"
    using assms(1) by (fastforce simp: sweeps_at_def xs)
  show ?thesis
  proof (cases "b_cylin bp < b_cylin ap")
    case True
    then have "sort_from bp (xs @ ys) = (xs @ ?t ys, ?d ys)"
      using assms lt find_second_eq [of xs ys bp] by (simp add: sort_from_def sweeps_at_def xs)
    moreover have "sweeps_at xs (?t ys @ bp # ?d ys)"
      using assms(1) True before_insert [of ys bp] unfolding sweeps_at_def set_insert_at xs by simp
    ultimately show ?thesis by fastforce
  next
    case False
    then have "sort_from bp (xs @ ys) = (ap # ?t xs', ?d xs' @ ys)"
      using assms lt sort_first_eq [of xs' ap ys bp] by (simp add: sort_from_def sweeps_at_def xs)
    moreover have "sweeps_at (ap # ?t xs' @ bp # ?d xs') ys"
      using assms(1) False before_insert [of xs' bp]
      unfolding sweeps_at_def list.set list.sel set_insert_at xs by simp
    ultimately show ?thesis
      using xs by (intro exI [of _ "ap # ?t xs'"] exI [of _ "?d xs' @ ys"]
        exI [where x = "ap # ?t xs' @ bp # ?d xs'"] exI [where x = ys]) simp
  qed
qed

lemma skip_ordered_none: "c \<noteq> [] \<Longrightarrow> \<not> b_order (hd c) \<Longrightarrow> skip_ordered bp c = sort_from bp c"
  by (cases "(bp, c)" rule: skip_ordered.cases) auto

lemma sweeps_tl: "sweeps c \<Longrightarrow> sweeps (tl c)"
proof (cases c)
  case (Cons ap c')
  assume "sweeps c"
  then obtain xs ys where c: "c = xs @ ys" and at: "sweeps_at xs ys"
    using Cons by (auto simp: sweeps_def)
  then obtain xs' where xs: "xs = ap # xs'" using Cons by (cases xs) (auto simp: sweeps_at_def)
  show ?thesis
  proof (cases xs')
    case Nil
    have "sweeps ys"
    proof (cases ys)
      case (Cons y ys')
      then have "sweeps_at ys []"
        using at by (auto simp: sweeps_at_def dest: before_cylin)
      then show ?thesis by (auto simp: sweeps_def)
    qed (simp add: sweeps_def)
    then show ?thesis using c xs Nil by simp
  next
    case (Cons x xs'')
    then have "sweeps_at xs' ys"
      using at by (fastforce simp: sweeps_at_def xs dest: before_cylin)
    then show ?thesis using c xs by (auto simp: sweeps_def)
  qed
qed (simp add: sweeps_def)

section \<open>The interface to the driver\<close>

text \<open>
  What a driver relies on when it queues buffers it owns: none is lost or duplicated, and the
  header stays consistent.
\<close>

locale request_queue =
  fixes enq :: "'q \<Rightarrow> 'a \<Rightarrow> 'q" and bag :: "'q \<Rightarrow> 'k multiset" and key :: "'a \<Rightarrow> 'k"
    and invar :: "'q \<Rightarrow> bool"
  assumes enq_invar: "invar q \<Longrightarrow> key a \<notin># bag q \<Longrightarrow> invar (enq q a)"
    and enq_bag: "invar q \<Longrightarrow> bag (enq q a) = add_mset (key a) (bag q)"
begin

lemma enq_all:
  assumes "invar q" "distinct (map key as)" "\<forall>a\<in>set as. key a \<notin># bag q"
  shows "invar (foldl enq q as)" "bag (foldl enq q as) = bag q + mset (map key as)"
proof -
  have "invar (foldl enq q as) \<and> bag (foldl enq q as) = bag q + mset (map key as)"
    using assms
  proof (induction as arbitrary: q)
    case (Cons a as)
    then have "invar (enq q a)" "bag (enq q a) = add_mset (key a) (bag q)"
      by (simp_all add: enq_invar enq_bag)
    moreover have "key x \<noteq> key a" if "x \<in> set as" for x
      using Cons.prems(2) that by (metis distinct.simps(2) imageI list.set_map list.simps(9))
    ultimately have "\<forall>x\<in>set as. key x \<notin># bag (enq q a)"
      using Cons.prems(3) by simp
    with \<open>invar (enq q a)\<close> \<open>bag (enq q a) = _\<close> Cons show ?case by simp
  qed simp
  then show "invar (foldl enq q as)" "bag (foldl enq q as) = bag q + mset (map key as)" by auto
qed

end

definition diskq_ok :: "diskq \<Rightarrow> bool" where
  "diskq_ok dp \<longleftrightarrow> distinct (map b_addr (b_actf dp)) \<and>
     (b_actf dp \<noteq> [] \<longrightarrow> b_actl dp = Some (b_addr (last (b_actf dp))))"

definition diskq_bag :: "diskq \<Rightarrow> nat multiset" where
  "diskq_bag dp = mset (map b_addr (b_actf dp))"

lemma disksort_bag: "diskq_bag (disksort dp bp) = add_mset (b_addr bp) (diskq_bag dp)"
proof (cases "b_actf dp = []")
  case False
  then obtain pre suf where *: "b_actf (disksort dp bp) = pre @ bp # suf"
    "map b_addr (pre @ suf) = map b_addr (b_actf dp)"
    by (rule disksort_splits) blast
  have "mset (map b_addr (b_actf dp)) = mset (map b_addr (pre @ suf))" using *(2) by simp
  then show ?thesis by (simp add: diskq_bag_def *(1))
qed (simp add: diskq_bag_def disksort_def)

lemma disksort_ok:
  assumes "diskq_ok dp" "b_addr bp \<notin># diskq_bag dp"
  shows "diskq_ok (disksort dp bp)"
proof (cases "b_actf dp = []")
  case False
  then obtain pre suf where *: "b_actf (disksort dp bp) = pre @ bp # suf" "pre \<noteq> []"
    "map b_addr (pre @ suf) = map b_addr (b_actf dp)"
    "b_actl (disksort dp bp) =
      (if b_actl dp = Some (b_addr (last pre)) then Some (b_addr bp) else b_actl dp)"
    by (rule disksort_splits)
  have d: "distinct (map b_addr (pre @ suf))" "b_addr bp \<notin> set (map b_addr (pre @ suf))"
    using assms unfolding *(3) by (simp_all add: diskq_ok_def diskq_bag_def)
  have l: "b_addr (last (b_actf dp)) = b_addr (last (pre @ suf))"
    using *(2,3) False by (metis append_is_Nil_conv last_map)
  have "b_addr (last pre) \<noteq> b_addr (last suf)" if "suf \<noteq> []"
    using d(1) *(2) that by (auto dest: last_in_set)
  then have "b_actl (disksort dp bp) = Some (b_addr (last (b_actf (disksort dp bp))))"
    using *(1,2,4) l assms(1) False by (auto simp: diskq_ok_def)
  moreover have "distinct (map b_addr (b_actf (disksort dp bp)))"
    using d *(1) by auto
  ultimately show ?thesis by (simp add: diskq_ok_def)
qed (simp add: diskq_ok_def disksort_def)

interpretation dq: request_queue disksort diskq_bag b_addr diskq_ok
  by unfold_locales (simp_all add: disksort_ok disksort_bag)

section \<open>Properties\<close>

text \<open>
  Queueing a list of distinct buffers on an empty or consistent queue loses and duplicates
  none of them, and leaves the tail pointer at the last buffer.
\<close>

theorem disksort_keeps_all_requests:
  assumes "diskq_ok dp" "distinct (map b_addr bps)" "\<forall>bp\<in>set bps. b_addr bp \<notin># diskq_bag dp"
  shows "diskq_ok (foldl disksort dp bps) \<and>
    diskq_bag (foldl disksort dp bps) = diskq_bag dp + mset (map b_addr bps)"
  using dq.enq_all [OF assms] by simp

theorem disksort_keeps_all_requests_witness:
  "diskq_ok (foldl disksort \<lparr>b_actf = [], b_actl = None\<rparr>
     [\<lparr>b_addr = 1, b_cylin = 9, b_blkno = 0, b_order = False\<rparr>,
      \<lparr>b_addr = 2, b_cylin = 4, b_blkno = 0, b_order = True\<rparr>]) \<and>
   diskq_bag (foldl disksort \<lparr>b_actf = [], b_actl = None\<rparr>
     [\<lparr>b_addr = 1, b_cylin = 9, b_blkno = 0, b_order = False\<rparr>,
      \<lparr>b_addr = 2, b_cylin = 4, b_blkno = 0, b_order = True\<rparr>]) = {#1, 2#}"
  using disksort_keeps_all_requests [of "\<lparr>b_actf = [], b_actl = None\<rparr>"
      "[\<lparr>b_addr = 1, b_cylin = 9, b_blkno = 0, b_order = False\<rparr>,
        \<lparr>b_addr = 2, b_cylin = 4, b_blkno = 0, b_order = True\<rparr>]"]
  by (simp add: diskq_ok_def diskq_bag_def)

text \<open>
  C14. As long as neither the new nor any queued request is ordered, \<open>disksort\<close> and the driver's removal of the active request
  keep the queue in the shape the comment describes: an ascending sweep from the active request,
  then an ascending sweep of the requests whose cylinder was already passed; the active request
  stays at the head.
\<close>

theorem disksort_keeps_sweeps:
  assumes "sweeps (b_actf dp)" "\<forall>b\<in>set (b_actf dp). \<not> b_order b" "\<not> b_order bp"
  shows "sweeps (b_actf (disksort dp bp)) \<and> sweeps (tl (b_actf (disksort dp bp))) \<and>
    (b_actf dp \<noteq> [] \<longrightarrow> hd (b_actf (disksort dp bp)) = hd (b_actf dp))"
proof -
  have "sweeps (b_actf (disksort dp bp)) \<and>
    (b_actf dp \<noteq> [] \<longrightarrow> hd (b_actf (disksort dp bp)) = hd (b_actf dp))"
  proof (cases "b_actf dp = []")
    case True
    have "sweeps_at [bp] []" by (simp add: sweeps_at_def)
    then show ?thesis using True by (auto simp: disksort_def sweeps_def)
  next
    case False
    then obtain xs ys where c: "b_actf dp = xs @ ys" and at: "sweeps_at xs ys"
      using assms(1) by (auto simp: sweeps_def)
    then obtain xs' ys' pre suf where *: "sort_from bp (b_actf dp) = (pre, suf)"
      "pre @ bp # suf = xs' @ ys'" "sweeps_at xs' ys'" "hd xs' = hd xs"
      using sweeps_at_disksort [OF at assms(3)] by auto
    have "b_actf (disksort dp bp) = pre @ bp # suf"
      using False assms(2) *(1) skip_ordered_none [OF False, of bp]
      by (simp add: disksort_def)
    moreover have "xs' \<noteq> []" "xs \<noteq> []" using *(3) at by (simp_all add: sweeps_at_def)
    ultimately show ?thesis
      using * c by (auto simp: sweeps_def)
  qed
  then show ?thesis by (auto intro: sweeps_tl)
qed

theorem disksort_keeps_sweeps_witness:
  "sweeps (b_actf (disksort \<lparr>b_actf = [\<lparr>b_addr = 1, b_cylin = 9, b_blkno = 0, b_order = False\<rparr>],
     b_actl = Some 1\<rparr> \<lparr>b_addr = 2, b_cylin = 4, b_blkno = 0, b_order = False\<rparr>))"
proof -
  have "sweeps_at [\<lparr>b_addr = 1, b_cylin = 9, b_blkno = 0, b_order = False\<rparr>] []"
    by (simp add: sweeps_at_def)
  then have "sweeps [\<lparr>b_addr = 1, b_cylin = 9, b_blkno = 0, b_order = False\<rparr>]"
    by (auto simp: sweeps_def)
  then show ?thesis
    using disksort_keeps_sweeps [of "\<lparr>b_actf = [\<lparr>b_addr = 1, b_cylin = 9, b_blkno = 0,
      b_order = False\<rparr>], b_actl = Some 1\<rparr>" "\<lparr>b_addr = 2, b_cylin = 4, b_blkno = 0, b_order = False\<rparr>"]
    by simp
qed

text \<open>
  An ordered transfer does not order what is behind it: queued behind a single active request it
  leaves that request unmarked, so that the next request is sorted in front of the ordered transfer
  although it arrived later (cylinder 7 before cylinder 9).
\<close>

theorem disksort_order_overtaken:
  "map b_addr (b_actf (foldl disksort \<lparr>b_actf = [], b_actl = None\<rparr>
     [\<lparr>b_addr = 1, b_cylin = 5, b_blkno = 0, b_order = False\<rparr>,
      \<lparr>b_addr = 2, b_cylin = 9, b_blkno = 0, b_order = True\<rparr>,
      \<lparr>b_addr = 3, b_cylin = 7, b_blkno = 0, b_order = False\<rparr>])) = [1, 3, 2]"
  by (simp add: disksort_def sort_from_def goes_before_def)

end
