(* ===== verification/Bpf.thy ===== *)
theory Bpf
  imports Prelude
begin

text \<open>
  The packet filter machine of \<^verbatim>\<open>kern/net/bpf_filter.c\<close>: the interpreter \<open>bpf_filter\<close> that the
  network interfaces run on every packet, the readers \<open>m_xword\<close> and \<open>m_xhalf\<close> of words that lie in
  a chain of mbufs, and the check \<open>bpf_validate\<close> that a program passes before it is installed. The
  code is modelled as it is compiled into the kernel (\<^verbatim>\<open>KERNEL\<close> defined, \<^verbatim>\<open>BPF_ALIGN\<close> not: i386).
  An access outside the program, the scratch memory or the packet is a fault of the model: C leaves
  open what it does.
\<close>

section \<open>Instructions\<close>

record bpf_insn =
  code :: u16
  jt :: u8
  jf :: u8
  k :: u32

text \<open>The instruction encodings of \<^verbatim>\<open>net/bpf.h\<close>.\<close>

abbreviation BPF_LD :: u16 where "BPF_LD \<equiv> 0x00"
abbreviation BPF_LDX :: u16 where "BPF_LDX \<equiv> 0x01"
abbreviation BPF_ST :: u16 where "BPF_ST \<equiv> 0x02"
abbreviation BPF_STX :: u16 where "BPF_STX \<equiv> 0x03"
abbreviation BPF_ALU :: u16 where "BPF_ALU \<equiv> 0x04"
abbreviation BPF_JMP :: u16 where "BPF_JMP \<equiv> 0x05"
abbreviation BPF_RET :: u16 where "BPF_RET \<equiv> 0x06"
abbreviation BPF_MISC :: u16 where "BPF_MISC \<equiv> 0x07"
abbreviation BPF_W :: u16 where "BPF_W \<equiv> 0x00"
abbreviation BPF_H :: u16 where "BPF_H \<equiv> 0x08"
abbreviation BPF_B :: u16 where "BPF_B \<equiv> 0x10"
abbreviation BPF_IMM :: u16 where "BPF_IMM \<equiv> 0x00"
abbreviation BPF_ABS :: u16 where "BPF_ABS \<equiv> 0x20"
abbreviation BPF_IND :: u16 where "BPF_IND \<equiv> 0x40"
abbreviation BPF_MEM :: u16 where "BPF_MEM \<equiv> 0x60"
abbreviation BPF_LEN :: u16 where "BPF_LEN \<equiv> 0x80"
abbreviation BPF_MSH :: u16 where "BPF_MSH \<equiv> 0xa0"
abbreviation BPF_ADD :: u16 where "BPF_ADD \<equiv> 0x00"
abbreviation BPF_SUB :: u16 where "BPF_SUB \<equiv> 0x10"
abbreviation BPF_MUL :: u16 where "BPF_MUL \<equiv> 0x20"
abbreviation BPF_DIV :: u16 where "BPF_DIV \<equiv> 0x30"
abbreviation BPF_OR :: u16 where "BPF_OR \<equiv> 0x40"
abbreviation BPF_AND :: u16 where "BPF_AND \<equiv> 0x50"
abbreviation BPF_LSH :: u16 where "BPF_LSH \<equiv> 0x60"
abbreviation BPF_RSH :: u16 where "BPF_RSH \<equiv> 0x70"
abbreviation BPF_NEG :: u16 where "BPF_NEG \<equiv> 0x80"
abbreviation BPF_JA :: u16 where "BPF_JA \<equiv> 0x00"
abbreviation BPF_JEQ :: u16 where "BPF_JEQ \<equiv> 0x10"
abbreviation BPF_JGT :: u16 where "BPF_JGT \<equiv> 0x20"
abbreviation BPF_JGE :: u16 where "BPF_JGE \<equiv> 0x30"
abbreviation BPF_JSET :: u16 where "BPF_JSET \<equiv> 0x40"
abbreviation BPF_K :: u16 where "BPF_K \<equiv> 0x00"
abbreviation BPF_X :: u16 where "BPF_X \<equiv> 0x08"
abbreviation BPF_A :: u16 where "BPF_A \<equiv> 0x10"
abbreviation BPF_TAX :: u16 where "BPF_TAX \<equiv> 0x00"
abbreviation BPF_TXA :: u16 where "BPF_TXA \<equiv> 0x80"

definition BPF_CLASS :: "u16 \<Rightarrow> u16" where [kern_defs]: "BPF_CLASS c = c AND 0x07"
definition BPF_OP :: "u16 \<Rightarrow> u16" where [kern_defs]: "BPF_OP c = c AND 0xf0"

abbreviation BPF_MEMWORDS :: nat where "BPF_MEMWORDS \<equiv> 16"

text \<open>
  The labels of the \<^verbatim>\<open>switch\<close> in \<open>bpf_filter\<close>. \<open>bpf_decode\<close> names the label an instruction code
  selects, \<open>None\<close> for \<^verbatim>\<open>default\<close>.
\<close>

datatype bpf_size = Word | Half | Byte
datatype bpf_src = SrcK | SrcX
datatype bpf_cmp = Jgt | Jge | Jeq | Jset
datatype bpf_alu = Add | Sub | Mul | Div | And | Or | Lsh | Rsh

datatype bpf_op =
    RetK | RetA
  | LdAbs bpf_size | LdLen | LdxLen | LdInd bpf_size | LdxMsh
  | LdImm | LdxImm | LdMem | LdxMem | St | Stx
  | Ja | Jmp bpf_cmp bpf_src
  | Alu bpf_alu bpf_src | Neg | Tax | Txa

definition bpf_decode :: "u16 \<Rightarrow> bpf_op option" where
  [kern_defs]: "bpf_decode c =
     map_of [(BPF_RET OR BPF_K, RetK), (BPF_RET OR BPF_A, RetA),
       (BPF_LD OR BPF_W OR BPF_ABS, LdAbs Word), (BPF_LD OR BPF_H OR BPF_ABS, LdAbs Half),
       (BPF_LD OR BPF_B OR BPF_ABS, LdAbs Byte),
       (BPF_LD OR BPF_W OR BPF_LEN, LdLen), (BPF_LDX OR BPF_W OR BPF_LEN, LdxLen),
       (BPF_LD OR BPF_W OR BPF_IND, LdInd Word), (BPF_LD OR BPF_H OR BPF_IND, LdInd Half),
       (BPF_LD OR BPF_B OR BPF_IND, LdInd Byte),
       (BPF_LDX OR BPF_MSH OR BPF_B, LdxMsh),
       (BPF_LD OR BPF_IMM, LdImm), (BPF_LDX OR BPF_IMM, LdxImm),
       (BPF_LD OR BPF_MEM, LdMem), (BPF_LDX OR BPF_MEM, LdxMem),
       (BPF_ST, St), (BPF_STX, Stx),
       (BPF_JMP OR BPF_JA, Ja),
       (BPF_JMP OR BPF_JGT OR BPF_K, Jmp Jgt SrcK), (BPF_JMP OR BPF_JGE OR BPF_K, Jmp Jge SrcK),
       (BPF_JMP OR BPF_JEQ OR BPF_K, Jmp Jeq SrcK), (BPF_JMP OR BPF_JSET OR BPF_K, Jmp Jset SrcK),
       (BPF_JMP OR BPF_JGT OR BPF_X, Jmp Jgt SrcX), (BPF_JMP OR BPF_JGE OR BPF_X, Jmp Jge SrcX),
       (BPF_JMP OR BPF_JEQ OR BPF_X, Jmp Jeq SrcX), (BPF_JMP OR BPF_JSET OR BPF_X, Jmp Jset SrcX),
       (BPF_ALU OR BPF_ADD OR BPF_X, Alu Add SrcX), (BPF_ALU OR BPF_SUB OR BPF_X, Alu Sub SrcX),
       (BPF_ALU OR BPF_MUL OR BPF_X, Alu Mul SrcX), (BPF_ALU OR BPF_DIV OR BPF_X, Alu Div SrcX),
       (BPF_ALU OR BPF_AND OR BPF_X, Alu And SrcX), (BPF_ALU OR BPF_OR OR BPF_X, Alu Or SrcX),
       (BPF_ALU OR BPF_LSH OR BPF_X, Alu Lsh SrcX), (BPF_ALU OR BPF_RSH OR BPF_X, Alu Rsh SrcX),
       (BPF_ALU OR BPF_ADD OR BPF_K, Alu Add SrcK), (BPF_ALU OR BPF_SUB OR BPF_K, Alu Sub SrcK),
       (BPF_ALU OR BPF_MUL OR BPF_K, Alu Mul SrcK), (BPF_ALU OR BPF_DIV OR BPF_K, Alu Div SrcK),
       (BPF_ALU OR BPF_AND OR BPF_K, Alu And SrcK), (BPF_ALU OR BPF_OR OR BPF_K, Alu Or SrcK),
       (BPF_ALU OR BPF_LSH OR BPF_K, Alu Lsh SrcK), (BPF_ALU OR BPF_RSH OR BPF_K, Alu Rsh SrcK),
       (BPF_ALU OR BPF_NEG, Neg),
       (BPF_MISC OR BPF_TAX, Tax), (BPF_MISC OR BPF_TXA, Txa)] c"

section \<open>Packets\<close>

text \<open>
  \<^verbatim>\<open>bpf_tap\<close> passes a buffer and its length, \<^verbatim>\<open>bpf_mtap\<close> a chain of mbufs and \<^verbatim>\<open>buflen\<close> 0. A buffer of
  length 0 is read as if it were an mbuf; the model faults there.
\<close>

datatype pkt = Buffer "u8 list" | Chain "u8 list list"

datatype bpf_fault = Bad_pc | Bad_mem | Bad_packet | Div_zero

fun buflen :: "pkt \<Rightarrow> u32" where
  "buflen (Buffer bs) = of_nat (length bs)"
| "buflen (Chain ms) = 0"

text \<open>\<^verbatim>\<open>cp[i]\<close> for a pointer into the data \<open>bs\<close> of a buffer or of one mbuf.\<close>

definition peek :: "u8 list \<Rightarrow> int \<Rightarrow> bpf_fault + u8" where
  [kern_defs]: "peek bs i =
     (if 0 \<le> i \<and> i < int (length bs) then Inr (bs ! nat i) else Inl Bad_packet)"

text \<open>The bytes \<^verbatim>\<open>cp[i], cp[i+1], ...\<close>, most significant first, as \<^verbatim>\<open>ntohs\<close> and \<^verbatim>\<open>ntohl\<close> put them.\<close>

fun be_value :: "u8 list \<Rightarrow> u32" where
  "be_value bs = foldl (\<lambda>v b. push_bit 8 v OR ucast b) 0 bs"

fun peeks :: "(u8 list \<times> int) list \<Rightarrow> bpf_fault + u8 list" where
  "peeks [] = Inr []"
| "peeks ((bs, i) # ps) =
     (case peek bs i of Inl f \<Rightarrow> Inl f
      | Inr b \<Rightarrow> (case peeks ps of Inl f \<Rightarrow> Inl f | Inr vs \<Rightarrow> Inr (b # vs)))"

definition read_be :: "(u8 list \<times> int) list \<Rightarrow> bpf_fault + u32" where
  [kern_defs]: "read_be ps = (case peeks ps of Inl f \<Rightarrow> Inl f | Inr vs \<Rightarrow> Inr (be_value vs))"

text \<open>The walk \<^verbatim>\<open>while (k >= len)\<close> of \<open>m_xword\<close>, \<open>m_xhalf\<close> and the macro \<^verbatim>\<open>MINDEX\<close>, on signed integers.\<close>

fun m_walk :: "u8 list list \<Rightarrow> int \<Rightarrow> (u8 list \<times> u8 list list \<times> int) option" where
  "m_walk [] i = None"
| "m_walk (m # ms) i =
     (if int (length m) \<le> i then m_walk ms (i - int (length m)) else Some (m, ms, i))"

text \<open>
  \<open>m_xword\<close> and \<open>m_xhalf\<close>: \<open>None\<close> is \<^verbatim>\<open>*err = 1\<close>. The pointer \<open>cp\<close> already points at offset \<open>k\<close>
  when the code reads \<^verbatim>\<open>cp[k]\<close>.
\<close>

definition m_xword :: "u8 list list \<Rightarrow> int \<Rightarrow> bpf_fault + u32 option" where
  [kern_defs]: "m_xword chain i0 =
     (case m_walk chain i0 of
        None \<Rightarrow> Inr None
      | Some (m, rest, i) \<Rightarrow>
          if 4 \<le> int (length m) - i then
            map_sum id Some (read_be [(m, i), (m, i + 1), (m, i + 2), (m, i + 3)])
          else (case rest of
              [] \<Rightarrow> Inr None
            | np # _ \<Rightarrow>
                if int (length np) + int (length m) - i < 4 then Inr None
                else map_sum id Some (read_be
                  (if int (length m) - i = 1 then [(m, i + i), (np, 0), (np, 1), (np, 2)]
                   else if int (length m) - i = 2 then [(m, i + i), (m, i + i + 1), (np, 0), (np, 1)]
                   else [(m, i + i), (m, i + i + 1), (m, i + i + 2), (np, 0)]))))"

definition m_xhalf :: "u8 list list \<Rightarrow> int \<Rightarrow> bpf_fault + u32 option" where
  [kern_defs]: "m_xhalf chain i0 =
     (case m_walk chain i0 of
        None \<Rightarrow> Inr None
      | Some (m, rest, i) \<Rightarrow>
          if 2 \<le> int (length m) - i then map_sum id Some (read_be [(m, i), (m, i + 1)])
          else (case rest of
              [] \<Rightarrow> Inr None
            | np # _ \<Rightarrow> map_sum id Some (read_be [(m, i + i), (np, 0)])))"

section \<open>The interpreter\<close>

text \<open>
  The loads. \<open>None\<close> is the \<^verbatim>\<open>return 0\<close> of \<open>bpf_filter\<close> for an offset outside the packet. The comparison
  with \<^verbatim>\<open>buflen\<close> is on unsigned words, and \<^verbatim>\<open>k + sizeof(long)\<close> wraps; the address \<^verbatim>\<open>p + k\<close> takes
  \<open>k\<close> as signed. The half-word load at an absolute offset ignores the error of \<open>m_xhalf\<close> and goes on
  with 0; the byte load at an indirect offset reads a chain through a signed \<^verbatim>\<open>char\<close>.
\<close>

definition load_word :: "pkt \<Rightarrow> u32 \<Rightarrow> bpf_fault + u32 option" where
  [kern_defs]: "load_word p i =
     (if buflen p < i + 4 then
        (if buflen p \<noteq> 0 then Inr None
         else (case p of Chain ms \<Rightarrow> m_xword ms (sint i) | Buffer _ \<Rightarrow> Inl Bad_packet))
      else (case p of
          Buffer bs \<Rightarrow> map_sum id Some (read_be
            [(bs, sint i), (bs, sint i + 1), (bs, sint i + 2), (bs, sint i + 3)])
        | Chain _ \<Rightarrow> Inl Bad_packet))"

definition load_half :: "bool \<Rightarrow> pkt \<Rightarrow> u32 \<Rightarrow> bpf_fault + u32 option" where
  [kern_defs]: "load_half ind p i =
     (if buflen p < i + 2 then
        (if buflen p \<noteq> 0 then Inr None
         else (case p of
             Chain ms \<Rightarrow> map_sum id (\<lambda>v. if v = None \<and> \<not> ind then Some 0 else v) (m_xhalf ms (sint i))
           | Buffer _ \<Rightarrow> Inl Bad_packet))
      else (case p of
          Buffer bs \<Rightarrow> map_sum id Some (read_be [(bs, sint i), (bs, sint i + 1)])
        | Chain _ \<Rightarrow> Inl Bad_packet))"

definition load_byte :: "bool \<Rightarrow> pkt \<Rightarrow> u32 \<Rightarrow> bpf_fault + u32 option" where
  [kern_defs]: "load_byte ind p i =
     (if buflen p \<le> i then
        (if buflen p \<noteq> 0 then Inr None
         else (case p of
             Chain ms \<Rightarrow> (case m_walk ms (sint i) of
                 None \<Rightarrow> Inr None
               | Some (m, _, j) \<Rightarrow> map_sum id (\<lambda>b. Some (if ind then scast b else ucast b)) (peek m j))
           | Buffer _ \<Rightarrow> Inl Bad_packet))
      else (case p of
          Buffer bs \<Rightarrow> map_sum id (\<lambda>b. Some (ucast b)) (peek bs (sint i))
        | Chain _ \<Rightarrow> Inl Bad_packet))"

fun bpf_load :: "bool \<Rightarrow> bpf_size \<Rightarrow> pkt \<Rightarrow> u32 \<Rightarrow> bpf_fault + u32 option" where
  "bpf_load ind Word p i = load_word p i"
| "bpf_load ind Half p i = load_half ind p i"
| "bpf_load ind Byte p i = load_byte ind p i"

fun cmp_holds :: "bpf_cmp \<Rightarrow> u32 \<Rightarrow> u32 \<Rightarrow> bool" where
  "cmp_holds Jgt a b = (b < a)"
| "cmp_holds Jge a b = (b \<le> a)"
| "cmp_holds Jeq a b = (a = b)"
| "cmp_holds Jset a b = (a AND b \<noteq> 0)"

text \<open>The shifts take their count modulo 32, as the shift instructions of the i386 do.\<close>

fun alu_val :: "bpf_alu \<Rightarrow> u32 \<Rightarrow> u32 \<Rightarrow> u32" where
  "alu_val Add a b = a + b"
| "alu_val Sub a b = a - b"
| "alu_val Mul a b = a * b"
| "alu_val Div a b = a div b"
| "alu_val And a b = a AND b"
| "alu_val Or a b = a OR b"
| "alu_val Lsh a b = push_bit (unat (b AND 31)) a"
| "alu_val Rsh a b = drop_bit (unat (b AND 31)) a"

record bpf_st =
  bA :: u32
  bX :: u32
  bmem :: "u32 list"

datatype bpf_res = Done u32 | Cont int bpf_st | Fault bpf_fault

fun loaded :: "bpf_fault + u32 option \<Rightarrow> (u32 \<Rightarrow> bpf_res) \<Rightarrow> bpf_res" where
  "loaded (Inl f) c = Fault f"
| "loaded (Inr None) c = Done 0"
| "loaded (Inr (Some v)) c = c v"

definition mem_get :: "bpf_st \<Rightarrow> u32 \<Rightarrow> (u32 \<Rightarrow> bpf_res) \<Rightarrow> bpf_res" where
  [kern_defs]: "mem_get st i c = (if unat i < BPF_MEMWORDS then c (bmem st ! unat i) else Fault Bad_mem)"

definition mem_put :: "bpf_st \<Rightarrow> u32 \<Rightarrow> u32 \<Rightarrow> (bpf_st \<Rightarrow> bpf_res) \<Rightarrow> bpf_res" where
  [kern_defs]: "mem_put st i v c =
     (if unat i < BPF_MEMWORDS then c (st\<lparr>bmem := (bmem st)[unat i := v]\<rparr>) else Fault Bad_mem)"

definition operand :: "bpf_src \<Rightarrow> bpf_insn \<Rightarrow> bpf_st \<Rightarrow> u32" where
  [kern_defs]: "operand src ins st = (case src of SrcK \<Rightarrow> k ins | SrcX \<Rightarrow> bX st)"

text \<open>
  One pass through the \<^verbatim>\<open>switch\<close>. The program counter is an index; \<^verbatim>\<open>continue\<close> reaches the \<^verbatim>\<open>++pc\<close> at the
  head of the loop. Division by the constant 0 traps; division by \<open>X = 0\<close> rejects the packet.
\<close>

fun bpf_exec :: "bpf_op \<Rightarrow> bpf_insn \<Rightarrow> pkt \<Rightarrow> u32 \<Rightarrow> int \<Rightarrow> bpf_st \<Rightarrow> bpf_res" where
  "bpf_exec RetK ins p wl pc st = Done (k ins)"
| "bpf_exec RetA ins p wl pc st = Done (bA st)"
| "bpf_exec (LdAbs sz) ins p wl pc st =
     loaded (bpf_load False sz p (k ins)) (\<lambda>v. Cont (pc + 1) (st\<lparr>bA := v\<rparr>))"
| "bpf_exec LdLen ins p wl pc st = Cont (pc + 1) (st\<lparr>bA := wl\<rparr>)"
| "bpf_exec LdxLen ins p wl pc st = Cont (pc + 1) (st\<lparr>bX := wl\<rparr>)"
| "bpf_exec (LdInd sz) ins p wl pc st =
     loaded (bpf_load True sz p (bX st + k ins)) (\<lambda>v. Cont (pc + 1) (st\<lparr>bA := v\<rparr>))"
| "bpf_exec LdxMsh ins p wl pc st =
     loaded (load_byte True p (k ins)) (\<lambda>v. Cont (pc + 1) (st\<lparr>bX := push_bit 2 (v AND 0xf)\<rparr>))"
| "bpf_exec LdImm ins p wl pc st = Cont (pc + 1) (st\<lparr>bA := k ins\<rparr>)"
| "bpf_exec LdxImm ins p wl pc st = Cont (pc + 1) (st\<lparr>bX := k ins\<rparr>)"
| "bpf_exec LdMem ins p wl pc st = mem_get st (k ins) (\<lambda>v. Cont (pc + 1) (st\<lparr>bA := v\<rparr>))"
| "bpf_exec LdxMem ins p wl pc st = mem_get st (k ins) (\<lambda>v. Cont (pc + 1) (st\<lparr>bX := v\<rparr>))"
| "bpf_exec St ins p wl pc st = mem_put st (k ins) (bA st) (\<lambda>st'. Cont (pc + 1) st')"
| "bpf_exec Stx ins p wl pc st = mem_put st (k ins) (bX st) (\<lambda>st'. Cont (pc + 1) st')"
| "bpf_exec Ja ins p wl pc st = Cont (pc + 1 + sint (k ins)) st"
| "bpf_exec (Jmp cmp src) ins p wl pc st =
     Cont (pc + 1 + uint (if cmp_holds cmp (bA st) (operand src ins st) then jt ins else jf ins)) st"
| "bpf_exec (Alu Div SrcX) ins p wl pc st =
     (if bX st = 0 then Done 0 else Cont (pc + 1) (st\<lparr>bA := bA st div bX st\<rparr>))"
| "bpf_exec (Alu Div SrcK) ins p wl pc st =
     (if k ins = 0 then Fault Div_zero else Cont (pc + 1) (st\<lparr>bA := bA st div k ins\<rparr>))"
| "bpf_exec (Alu f src) ins p wl pc st =
     Cont (pc + 1) (st\<lparr>bA := alu_val f (bA st) (operand src ins st)\<rparr>)"
| "bpf_exec Neg ins p wl pc st = Cont (pc + 1) (st\<lparr>bA := - bA st\<rparr>)"
| "bpf_exec Tax ins p wl pc st = Cont (pc + 1) (st\<lparr>bX := bA st\<rparr>)"
| "bpf_exec Txa ins p wl pc st = Cont (pc + 1) (st\<lparr>bA := bX st\<rparr>)"

text \<open>
  The loop, with one unit of fuel per instruction: \<open>None\<close> when the fuel runs out, and a fault when
  the program counter leaves the program. A, X and the scratch memory start with whatever the stack
  holds, an argument here.
\<close>

fun bpf_run :: "nat \<Rightarrow> bpf_insn list \<Rightarrow> pkt \<Rightarrow> u32 \<Rightarrow> int \<Rightarrow> bpf_st \<Rightarrow> (bpf_fault + u32) option" where
  "bpf_run 0 f p wl pc st = None"
| "bpf_run (Suc n) f p wl pc st =
     (if pc < 0 \<or> int (length f) \<le> pc then Some (Inl Bad_pc)
      else (case bpf_decode (code (f ! nat pc)) of
          None \<Rightarrow> Some (Inr 0)
        | Some opn \<Rightarrow> (case bpf_exec opn (f ! nat pc) p wl pc st of
              Done v \<Rightarrow> Some (Inr v)
            | Fault e \<Rightarrow> Some (Inl e)
            | Cont pc' st' \<Rightarrow> bpf_run n f p wl pc' st')))"

definition bpf_filter ::
  "nat \<Rightarrow> bpf_insn list option \<Rightarrow> pkt \<Rightarrow> u32 \<Rightarrow> bpf_st \<Rightarrow> (bpf_fault + u32) option" where
  [kern_defs]: "bpf_filter n fo p wl st =
     (case fo of None \<Rightarrow> Some (Inr (-1)) | Some f \<Rightarrow> bpf_run n f p wl 0 st)"

section \<open>The check\<close>

text \<open>
  The body of the loop of \<open>bpf_validate\<close> for instruction \<open>i\<close> of \<open>len\<close>: \<open>False\<close> is \<^verbatim>\<open>return 0\<close>. The sum
  \<^verbatim>\<open>from + p->k\<close> is a signed 32-bit sum.
\<close>

definition insn_ok :: "int \<Rightarrow> nat \<Rightarrow> bpf_insn \<Rightarrow> bool" where
  [kern_defs]: "insn_ok len i p \<longleftrightarrow>
     (BPF_CLASS (code p) = BPF_JMP \<longrightarrow>
        (if BPF_OP (code p) = BPF_JA then wrap32 (int i + 1 + sint (k p)) < len
         else int i + 1 + uint (jt p) < len \<and> int i + 1 + uint (jf p) < len)) \<and>
     (BPF_CLASS (code p) = BPF_ST \<or> (BPF_CLASS (code p) = BPF_LD \<and> code p AND 0xe0 = BPF_MEM) \<longrightarrow>
        0 \<le> sint (k p) \<and> sint (k p) < 16) \<and>
     \<not> (code p = BPF_ALU OR BPF_DIV OR BPF_K \<and> k p = 0)"

text \<open>For an empty program the final test reads \<^verbatim>\<open>f[-1]\<close>.\<close>

definition bpf_validate :: "bpf_insn list \<Rightarrow> bpf_fault + bool" where
  [kern_defs]: "bpf_validate f =
     (if f = [] then Inl Bad_pc
      else Inr (list_all (\<lambda>(i, p). insn_ok (int (length f)) i p) (enumerate 0 f) \<and>
                BPF_CLASS (code (last f)) = BPF_RET))"

section \<open>What the check gives\<close>

fun op_class :: "bpf_op \<Rightarrow> u16" where
  "op_class RetK = BPF_RET" | "op_class RetA = BPF_RET"
| "op_class (LdAbs _) = BPF_LD" | "op_class LdLen = BPF_LD" | "op_class (LdInd _) = BPF_LD"
| "op_class LdImm = BPF_LD" | "op_class LdMem = BPF_LD"
| "op_class LdxLen = BPF_LDX" | "op_class LdxMsh = BPF_LDX" | "op_class LdxImm = BPF_LDX"
| "op_class LdxMem = BPF_LDX"
| "op_class St = BPF_ST" | "op_class Stx = BPF_STX"
| "op_class Ja = BPF_JMP" | "op_class (Jmp _ _) = BPF_JMP"
| "op_class (Alu _ _) = BPF_ALU" | "op_class Neg = BPF_ALU"
| "op_class Tax = BPF_MISC" | "op_class Txa = BPF_MISC"

lemma decode_class: "bpf_decode c = Some opn \<Longrightarrow> BPF_CLASS c = op_class opn"
  by (auto simp: bpf_decode_def BPF_CLASS_def split: if_splits)

lemma decode_op:
  "bpf_decode c = Some Ja \<Longrightarrow> c = BPF_JMP OR BPF_JA"
  "bpf_decode c = Some (Jmp cmp src) \<Longrightarrow> BPF_OP c \<noteq> BPF_JA"
  "bpf_decode c = Some LdMem \<Longrightarrow> c AND 0xe0 = BPF_MEM"
  "bpf_decode c = Some LdxMem \<Longrightarrow> c = BPF_LDX OR BPF_MEM"
  "bpf_decode c = Some Stx \<Longrightarrow> c = BPF_STX"
  "bpf_decode c = Some (Alu Div SrcK) \<Longrightarrow> c = BPF_ALU OR BPF_DIV OR BPF_K"
  by (auto simp: bpf_decode_def BPF_OP_def split: if_splits)

lemma sint_small_unat: "0 \<le> sint (i::u32) \<Longrightarrow> sint i < 16 \<Longrightarrow> unat i < 16"
proof -
  assume a: "0 \<le> sint i" "sint i < 16"
  have "uint (word_of_int (sint i) :: u32) = sint i mod 2 ^ 32"
    by (subst uint_word_of_int) simp
  also have "\<dots> = sint i" using a by simp
  finally have "uint i = sint i" by simp
  then show "unat i < 16" using a by (simp add: unat_eq_nat_uint)
qed

text \<open>
  What \<open>bpf_validate\<close> does not check: that an unconditional jump goes forward and its sum does not
  overflow, and that the two loads and stores of X stay in the scratch memory.
\<close>

definition ja_sane :: "bpf_insn list \<Rightarrow> bool" where
  "ja_sane f \<longleftrightarrow> (\<forall>ins\<in>set f. code ins = BPF_JMP OR BPF_JA \<longrightarrow>
     0 \<le> sint (k ins) \<and> sint (k ins) < 2147483648 - 513)"

definition xmem_sane :: "bpf_insn list \<Rightarrow> bool" where
  "xmem_sane f \<longleftrightarrow> (\<forall>ins\<in>set f. code ins = BPF_LDX OR BPF_MEM \<or> code ins = BPF_STX \<longrightarrow> unat (k ins) < 16)"

lemma validate_insn:
  assumes "bpf_validate f = Inr True" "i < length f"
  shows "insn_ok (int (length f)) i (f ! i)"
  using assms by (auto simp: bpf_validate_def list_all_iff in_set_enumerate_eq split: if_splits)

lemma validate_last:
  assumes "bpf_validate f = Inr True"
  shows "f \<noteq> []" "BPF_CLASS (code (f ! (length f - 1))) = BPF_RET"
  using assms by (auto simp: bpf_validate_def last_conv_nth split: if_splits)

lemma exec_Cont_cases:
  assumes "bpf_exec opn ins p wl pc st = Cont pc' st'"
  shows "pc' = pc + 1 \<or> (opn = Ja \<and> pc' = pc + 1 + sint (k ins)) \<or>
    (\<exists>cmp src j. opn = Jmp cmp src \<and> j \<in> {jt ins, jf ins} \<and> pc' = pc + 1 + uint j)"
    "op_class opn \<noteq> BPF_RET"
proof -
  have ld: "loaded r (\<lambda>v. Cont (pc + 1) (g v)) = Cont pc' st' \<Longrightarrow> pc' = pc + 1" for r g
    by (cases "(r, \<lambda>v. Cont (pc + 1) (g v))" rule: loaded.cases) auto
  show "pc' = pc + 1 \<or> (opn = Ja \<and> pc' = pc + 1 + sint (k ins)) \<or>
    (\<exists>cmp src j. opn = Jmp cmp src \<and> j \<in> {jt ins, jf ins} \<and> pc' = pc + 1 + uint j)"
    using assms
    by (cases "(opn, ins, p, wl, pc, st)" rule: bpf_exec.cases)
      (auto dest!: ld simp: mem_get_def mem_put_def split: if_splits)
  show "op_class opn \<noteq> BPF_RET"
    using assms by (cases opn) auto
qed

lemma valid_step:
  assumes "bpf_validate f = Inr True" "length f \<le> 512" "ja_sane f" "0 \<le> pc" "pc < int (length f)"
    "bpf_decode (code (f ! nat pc)) = Some opn" "bpf_exec opn (f ! nat pc) p wl pc st = Cont pc' st'"
  shows "pc < pc' \<and> pc' < int (length f)"
proof -
  let ?ins = "f ! nat pc"
  have i: "nat pc < length f" "int (nat pc) = pc" using assms(4,5) by auto
  have ok: "insn_ok (int (length f)) (nat pc) ?ins" using validate_insn assms(1) i(1) by blast
  have cls: "BPF_CLASS (code ?ins) = op_class opn" using decode_class assms(6) by blast
  have notlast: "pc + 1 < int (length f)"
  proof (rule ccontr)
    assume "\<not> ?thesis"
    then have "nat pc = length f - 1" using i assms(5) by linarith
    then show False using validate_last(2) [OF assms(1)] cls exec_Cont_cases(2) [OF assms(7)] by simp
  qed
  from exec_Cont_cases(1) [OF assms(7)] consider (next_) "pc' = pc + 1"
    | (ja) "opn = Ja" "pc' = pc + 1 + sint (k ?ins)"
    | (jmp) cmp src j where "opn = Jmp cmp src" "j \<in> {jt ?ins, jf ?ins}" "pc' = pc + 1 + uint j"
    by blast
  then show ?thesis
  proof cases
    case next_
    then show ?thesis using notlast by simp
  next
    case ja
    then have c: "code ?ins = BPF_JMP OR BPF_JA" using decode_op(1) assms(6) by blast
    then have kk: "0 \<le> sint (k ?ins)" "sint (k ?ins) < 2147483648 - 513"
      using assms(3) i(1) by (auto simp: ja_sane_def)
    have "wrap32 (pc + 1 + sint (k ?ins)) = pc + 1 + sint (k ?ins)"
      using kk assms(2,4,5) by (intro wrap32_id) (simp add: in32_def)
    then have "pc + 1 + sint (k ?ins) < int (length f)"
      using ok c i(2) by (simp add: insn_ok_def BPF_CLASS_def BPF_OP_def)
    then show ?thesis using ja kk by simp
  next
    case jmp
    then have "BPF_OP (code ?ins) \<noteq> BPF_JA" "BPF_CLASS (code ?ins) = BPF_JMP"
      using decode_op(2) assms(6) cls by auto
    then have "pc + 1 + uint (jt ?ins) < int (length f)" "pc + 1 + uint (jf ?ins) < int (length f)"
      using ok i(2) by (simp_all add: insn_ok_def)
    then have "pc' < int (length f)" using jmp(2,3) by auto
    moreover have "0 \<le> uint j" by (rule uint_ge_0)
    ultimately show ?thesis using jmp(3) by linarith
  qed
qed

text \<open>Where a fault of one instruction comes from.\<close>

lemma peeks_fault: "peeks ps = Inl e \<Longrightarrow> e = Bad_packet"
  by (induction ps) (auto simp: peek_def split: if_splits sum.splits)

lemma read_be_fault: "read_be ps = Inl e \<Longrightarrow> e = Bad_packet"
  by (auto simp: read_be_def dest: peeks_fault split: sum.splits)

lemma map_sum_Inl: "map_sum id g r = Inl e \<longleftrightarrow> r = Inl e"
  by (cases r) auto

lemma xword_fault: "m_xword ms i = Inl e \<Longrightarrow> e = Bad_packet"
  unfolding m_xword_def
  by (auto simp: map_sum_Inl dest: read_be_fault split: option.splits list.splits if_split_asm)

lemma xhalf_fault: "m_xhalf ms i = Inl e \<Longrightarrow> e = Bad_packet"
  unfolding m_xhalf_def
  by (auto simp: map_sum_Inl dest: read_be_fault split: option.splits list.splits if_split_asm)

lemma load_fault: "bpf_load ind z p x = Inl e \<Longrightarrow> e = Bad_packet"
  by (cases z) (auto simp: load_word_def load_half_def load_byte_def peek_def map_sum_Inl
      dest: read_be_fault xword_fault xhalf_fault split: pkt.splits option.splits if_splits)

lemma loaded_Fault: "loaded r c = Fault e \<Longrightarrow> r = Inl e \<or> (\<exists>v. c v = Fault e)"
  by (cases "(r, c)" rule: loaded.cases) auto

lemma exec_Fault_cases:
  assumes "bpf_exec opn ins p wl pc st = Fault e"
  shows "e = Bad_packet \<or> (e = Bad_mem \<and> opn \<in> {LdMem, LdxMem, St, Stx} \<and> 16 \<le> unat (k ins)) \<or>
    (e = Div_zero \<and> opn = Alu Div SrcK \<and> k ins = 0)"
  using assms by (cases "(opn, ins, p, wl, pc, st)" rule: bpf_exec.cases)
    (auto simp: mem_get_def mem_put_def dest!: loaded_Fault
      dest: load_fault load_fault [of True Byte, simplified] split: if_splits)

lemma valid_no_Fault:
  assumes "bpf_validate f = Inr True" "0 \<le> pc" "pc < int (length f)"
    "bpf_decode (code (f ! nat pc)) = Some opn" "bpf_exec opn (f ! nat pc) p wl pc st = Fault e"
  shows "e \<noteq> Bad_pc" "e \<noteq> Div_zero" "xmem_sane f \<Longrightarrow> e \<noteq> Bad_mem"
proof -
  let ?ins = "f ! nat pc"
  have i: "nat pc < length f" using assms(2,3) by auto
  have ok: "insn_ok (int (length f)) (nat pc) ?ins" using validate_insn assms(1) i by blast
  have cls: "BPF_CLASS (code ?ins) = op_class opn" using decode_class assms(4) by blast
  note ex = exec_Fault_cases [OF assms(5)]
  show "e \<noteq> Bad_pc" using ex by auto
  show "e \<noteq> Div_zero"
    using ex ok decode_op(6) [of "code ?ins"] assms(4) by (auto simp: insn_ok_def)
  assume x: "xmem_sane f"
  show "e \<noteq> Bad_mem"
  proof
    assume "e = Bad_mem"
    with ex have o: "opn \<in> {LdMem, LdxMem, St, Stx}" "16 \<le> unat (k ?ins)" by auto
    from o(1) consider "opn \<in> {LdMem, St}" | "opn \<in> {LdxMem, Stx}" by auto
    then show False
    proof cases
      case 1
      then have "0 \<le> sint (k ?ins) \<and> sint (k ?ins) < 16"
        using ok cls decode_op(3) [of "code ?ins"] assms(4) by (auto simp: insn_ok_def)
      then show False using sint_small_unat o(2) by fastforce
    next
      case 2
      then have "code ?ins = BPF_LDX OR BPF_MEM \<or> code ?ins = BPF_STX"
        using decode_op(4,5) [of "code ?ins"] assms(4) by auto
      then show False using x i o(2) by (auto simp: xmem_sane_def dest: nth_mem)
    qed
  qed
qed

text \<open>Every step goes forward, so as many steps as instructions remain are enough.\<close>

lemma valid_run:
  assumes "bpf_validate f = Inr True" "length f \<le> 512" "ja_sane f"
  shows "0 \<le> pc \<Longrightarrow> pc < int (length f) \<Longrightarrow> int (length f) - pc \<le> int n \<Longrightarrow>
    \<exists>r. bpf_run n f p wl pc st = Some r \<and>
      r \<noteq> Inl Bad_pc \<and> r \<noteq> Inl Div_zero \<and> (xmem_sane f \<longrightarrow> r \<noteq> Inl Bad_mem)"
proof (induction n arbitrary: pc st)
  case 0
  then show ?case by simp
next
  case (Suc n)
  show ?case
  proof (cases "bpf_decode (code (f ! nat pc))")
    case None
    then show ?thesis using Suc.prems by simp
  next
    case (Some opn)
    show ?thesis
    proof (cases "bpf_exec opn (f ! nat pc) p wl pc st")
      case (Done v)
      then show ?thesis using Some Suc.prems by simp
    next
      case (Cont pc' st')
      have "pc < pc' \<and> pc' < int (length f)"
        using valid_step [OF assms Suc.prems(1,2) Some Cont] .
      then show ?thesis using Suc.IH [of pc' st'] Suc.prems Some Cont by simp
    next
      case (Fault e)
      then show ?thesis
        using valid_no_Fault [OF assms(1) Suc.prems(1,2) Some Fault] Some Suc.prems by simp
    qed
  qed
qed

section \<open>What the loads read\<close>

fun bpf_bytes :: "bpf_size \<Rightarrow> nat" where
  "bpf_bytes Word = 4" | "bpf_bytes Half = 2" | "bpf_bytes Byte = 1"

lemma take_Suc_drop: "i < length bs \<Longrightarrow> take (Suc n) (drop i bs) = bs ! i # take n (drop (Suc i) bs)"
  by (simp add: Cons_nth_drop_Suc [symmetric])

lemma peek_at: "i < length bs \<Longrightarrow> peek bs (int i) = Inr (bs ! i)"
  by (simp add: peek_def)

lemma read_be_word:
  assumes "i + 4 \<le> length bs"
  shows "read_be [(bs, int i), (bs, int i + 1), (bs, int i + 2), (bs, int i + 3)] =
    Inr (be_value (take 4 (drop i bs)))"
proof -
  have "take 4 (drop i bs) = [bs ! i, bs ! (i + 1), bs ! (i + 2), bs ! (i + 3)]"
    using assms by (simp add: take_Suc_drop numeral_eq_Suc)
  moreover have "peek bs (int i) = Inr (bs ! i)" "peek bs (int i + 1) = Inr (bs ! (i + 1))"
    "peek bs (int i + 2) = Inr (bs ! (i + 2))" "peek bs (int i + 3) = Inr (bs ! (i + 3))"
    using assms peek_at [of i bs] peek_at [of "i + 1" bs] peek_at [of "i + 2" bs] peek_at [of "i + 3" bs]
    by (simp_all add: add.commute)
  ultimately show ?thesis by (simp add: read_be_def)
qed

lemma read_be_half:
  assumes "i + 2 \<le> length bs"
  shows "read_be [(bs, int i), (bs, int i + 1)] = Inr (be_value (take 2 (drop i bs)))"
proof -
  have "take 2 (drop i bs) = [bs ! i, bs ! (i + 1)]"
    using assms by (simp add: take_Suc_drop numeral_eq_Suc)
  moreover have "peek bs (int i) = Inr (bs ! i)" "peek bs (int i + 1) = Inr (bs ! (i + 1))"
    using assms peek_at [of i bs] peek_at [of "i + 1" bs] by (simp_all add: add.commute)
  ultimately show ?thesis by (simp add: read_be_def)
qed

text \<open>The unsigned comparisons of the code agree with those of the naturals while nothing wraps.\<close>

lemma sint_of_small: "unat (i :: u32) < 2147483648 \<Longrightarrow> sint i = int (unat i)"
proof -
  assume a: "unat i < 2147483648"
  have "sint i = signed_take_bit 31 (int (unat i))" by (simp add: sint_uint)
  also have "\<dots> = int (unat i)"
  proof -
    have "signed_take_bit 31 (int m) = int m" if "m < 2147483648" for m :: nat
      using that by (intro signed_take_bit_int_eq_self) simp_all
    then show ?thesis using a by blast
  qed
  finally show ?thesis .
qed

lemma buflen_unat: "length bs < 2147483648 \<Longrightarrow> unat (buflen (Buffer bs)) = length bs"
  by (simp add: unat_of_nat take_bit_nat_eq_self)

lemma unat_plus_small:
  "unat (i :: u32) + n < 4294967296 \<Longrightarrow> unat (i + of_nat n) = unat i + n"
  by (simp add: unat_word_ariths unat_of_nat take_bit_nat_eq_self)

lemma load_buffer:
  assumes "bs \<noteq> []" "length bs < 2147483648" "unat i + 4 < 4294967296"
  shows "bpf_load ind z (Buffer bs) i =
    (if unat i + bpf_bytes z \<le> length bs then Inr (Some (be_value (take (bpf_bytes z) (drop (unat i) bs))))
     else Inr None)"
proof -
  have b: "unat (buflen (Buffer bs)) = length bs" using buflen_unat assms(2) .
  then have nz: "buflen (Buffer bs) \<noteq> 0" using assms(1) by auto
  have s: "unat i < length bs \<Longrightarrow> sint i = int (unat i)" using sint_of_small assms(2) by simp
  show ?thesis
  proof (cases z)
    case Word
    have "(buflen (Buffer bs) < i + 4) = (length bs < unat i + 4)"
      unfolding word_less_nat_alt b using unat_plus_small [of i 4] assms(3) by simp
    then show ?thesis using Word nz s read_be_word [of "unat i" bs]
      by (simp add: load_word_def del: buflen.simps nat_uint_eq unsigned_of_nat)
  next
    case Half
    have "(buflen (Buffer bs) < i + 2) = (length bs < unat i + 2)"
      unfolding word_less_nat_alt b using unat_plus_small [of i 2] assms(3) by simp
    then show ?thesis using Half nz s read_be_half [of "unat i" bs]
      by (simp add: load_half_def del: buflen.simps)
  next
    case Byte
    have "(buflen (Buffer bs) \<le> i) = (length bs \<le> unat i)"
      unfolding word_le_nat_alt b by simp
    moreover have "unat i < length bs \<Longrightarrow> take 1 (drop (unat i) bs) = [bs ! unat i]"
      by (simp add: take_Suc_drop)
    ultimately show ?thesis using Byte nz s peek_at [of "unat i" bs]
      by (simp add: load_byte_def del: buflen.simps)
  qed
qed

text \<open>A chain of mbufs is read like the concatenation of their data, for what lies in one mbuf.\<close>

lemma m_walk_Some:
  "m_walk ms (int i) = Some (m, rest, j) \<Longrightarrow>
     \<exists>pre n. ms = pre @ m # rest \<and> j = int n \<and> n < length m \<and> i = length (concat pre) + n"
proof (induction ms arbitrary: i)
  case Nil
  then show ?case by simp
next
  case (Cons x ms)
  show ?case
  proof (cases "length x \<le> i")
    case True
    then have "int i - int (length x) = int (i - length x)" by simp
    then have "m_walk ms (int (i - length x)) = Some (m, rest, j)" using Cons.prems True by simp
    from Cons.IH [OF this] obtain pre n where
      "ms = pre @ m # rest" "j = int n" "n < length m" "i - length x = length (concat pre) + n" by blast
    then show ?thesis using True by (intro exI [of _ "x # pre"] exI [of _ n]) simp
  next
    case False
    then show ?thesis using Cons.prems by (intro exI [of _ "[]"] exI [of _ i]) auto
  qed
qed

lemma m_walk_None: "m_walk ms (int i) = None \<longleftrightarrow> length (concat ms) \<le> i"
proof (induction ms arbitrary: i)
  case (Cons x ms)
  have "length x \<le> i \<Longrightarrow> int i - int (length x) = int (i - length x)" by simp
  then show ?case using Cons [of "i - length x"] by auto
qed simp

lemma chain_word:
  assumes "m_walk ms (int i) = Some (m, rest, j)" "4 \<le> int (length m) - j"
  shows "m_xword ms (int i) = Inr (Some (be_value (take 4 (drop i (concat ms)))))"
proof -
  obtain pre n where m: "ms = pre @ m # rest" "j = int n" "i = length (concat pre) + n"
    using m_walk_Some [OF assms(1)] by blast
  then have l: "n + 4 \<le> length m" using assms(2) by simp
  then have "take 4 (drop i (concat ms)) = take 4 (drop n m)" using m by simp
  then show ?thesis
    using assms l read_be_word [of n m] by (simp add: m_xword_def m(2))
qed

section \<open>Properties\<close>

text \<open>C5. A program of at most \<^verbatim>\<open>BPF_MAXINSNS\<close> instructions that \<open>bpf_validate\<close> accepts and whose
  unconditional jumps go forward ends on every packet within as many steps as it has instructions;
  the program counter never leaves the program, and no division traps.\<close>

theorem bpf_valid_terminates:
  assumes "bpf_validate f = Inr True" "length f \<le> 512" "ja_sane f"
  shows "\<exists>r. bpf_filter (length f) (Some f) p wl st = Some r \<and> r \<noteq> Inl Bad_pc \<and> r \<noteq> Inl Div_zero"
  using valid_run [OF assms, of 0 "length f" p wl st] validate_last(1) [OF assms(1)]
  by (auto simp: bpf_filter_def)

definition ip_tcp_prog :: "bpf_insn list" where
  "ip_tcp_prog =
     [\<lparr>code = 0x28, jt = 0, jf = 0, k = 12\<rparr>, \<lparr>code = 0x15, jt = 0, jf = 3, k = 0x800\<rparr>,
      \<lparr>code = 0x30, jt = 0, jf = 0, k = 23\<rparr>, \<lparr>code = 0x15, jt = 0, jf = 1, k = 6\<rparr>,
      \<lparr>code = 0x06, jt = 0, jf = 0, k = 96\<rparr>, \<lparr>code = 0x06, jt = 0, jf = 0, k = 0\<rparr>]"

lemma ip_tcp_valid: "bpf_validate ip_tcp_prog = Inr True" "ja_sane ip_tcp_prog" "xmem_sane ip_tcp_prog"
  "length ip_tcp_prog = 6"
  by (simp_all add: bpf_validate_def ip_tcp_prog_def insn_ok_def BPF_CLASS_def BPF_OP_def
      ja_sane_def xmem_sane_def)

theorem bpf_valid_terminates_witness:
  "\<exists>r. bpf_filter 6 (Some ip_tcp_prog) (Chain [[1, 2, 3], [4]]) 4 \<lparr>bA = 0, bX = 0, bmem = replicate 16 0\<rparr>
     = Some r \<and> r \<noteq> Inl Bad_pc \<and> r \<noteq> Inl Div_zero"
  using bpf_valid_terminates [OF ip_tcp_valid(1) _ ip_tcp_valid(2)] ip_tcp_valid(4) by simp

text \<open>C15. A validated program of at most \<^verbatim>\<open>BPF_MAXINSNS\<close> instructions whose unconditional jumps go forward and whose loads
  and stores of X also stay below \<^verbatim>\<open>BPF_MEMWORDS\<close> never reads or writes outside the scratch memory and never leaves the
  program: the only fault left is an access outside the packet.\<close>

theorem bpf_valid_memory_safe:
  assumes "bpf_validate f = Inr True" "length f \<le> 512" "ja_sane f" "xmem_sane f"
    "bpf_filter (length f) (Some f) p wl st = Some (Inl e)"
  shows "e = Bad_packet"
proof -
  obtain r where "bpf_run (length f) f p wl 0 st = Some r"
    "r \<noteq> Inl Bad_pc \<and> r \<noteq> Inl Div_zero \<and> r \<noteq> Inl Bad_mem"
    using valid_run [OF assms(1-3), of 0 "length f" p wl st] validate_last(1) [OF assms(1)] assms(4)
    by auto
  then show ?thesis using assms(5) by (cases e) (auto simp: bpf_filter_def)
qed

definition far_prog :: "bpf_insn list" where
  "far_prog = [\<lparr>code = 0x30, jt = 0, jf = 0, k = 0xffffffff\<rparr>, \<lparr>code = 0x06, jt = 0, jf = 0, k = 0\<rparr>]"

theorem bpf_valid_memory_safe_witness:
  "bpf_filter 2 (Some far_prog) (Chain [[1, 2]]) 2 \<lparr>bA = 0, bX = 0, bmem = replicate 16 0\<rparr>
     = Some (Inl Bad_packet) \<and> Bad_packet = Bad_packet"
proof -
  let ?st = "\<lparr>bA = 0, bX = 0, bmem = replicate 16 (0 :: u32)\<rparr>"
  have v: "bpf_validate far_prog = Inr True" "ja_sane far_prog" "xmem_sane far_prog"
    "length far_prog = 2"
    by (simp_all add: bpf_validate_def far_prog_def insn_ok_def BPF_CLASS_def BPF_OP_def
        ja_sane_def xmem_sane_def)
  have r: "bpf_filter 2 (Some far_prog) (Chain [[1, 2]]) 2 ?st = Some (Inl Bad_packet)"
    unfolding numeral_2_eq_2
    by (simp add: bpf_filter_def far_prog_def bpf_decode_def load_byte_def peek_def)
  have "Bad_packet = Bad_packet"
    by (rule bpf_valid_memory_safe [OF v(1) _ v(2,3)]) (use v(4) r in simp_all)
  with r show ?thesis by blast
qed

text \<open>The loads of words, half words and bytes from a packet in one buffer give the bytes at the
  offset, most significant first, and reject the packet when they do not all lie in it, for every
  offset whose sum with the size does not wrap.\<close>

theorem bpf_load_exact:
  assumes "bs \<noteq> []" "length bs < 2147483648" "unat i + 4 < 4294967296"
  shows "bpf_load ind z (Buffer bs) i =
    (if unat i + bpf_bytes z \<le> length bs
     then Inr (Some (be_value (take (bpf_bytes z) (drop (unat i) bs)))) else Inr None)"
  by (rule load_buffer [OF assms])

theorem bpf_load_exact_witness:
  "bpf_load False Half (Buffer [1, 2, 3]) 1 = Inr (Some 0x203)"
proof -
  have "bpf_load False Half (Buffer [1, 2, 3]) 1 =
    (if unat (1 :: u32) + bpf_bytes Half \<le> length [1, 2, 3 :: u8]
     then Inr (Some (be_value (take (bpf_bytes Half) (drop (unat (1 :: u32)) [1, 2, 3])))) else Inr None)"
    by (rule bpf_load_exact) simp_all
  then show ?thesis by simp
qed

text \<open>In a chain of mbufs \<open>m_xword\<close> finds the word at an offset of the whole packet: past the end
  it reports an error, and a word that lies in one mbuf is the word of the concatenated data.\<close>

theorem m_xword_in_one_mbuf:
  "(length (concat ms) \<le> i \<longrightarrow> m_xword ms (int i) = Inr None) \<and>
   (\<forall>m rest j. m_walk ms (int i) = Some (m, rest, j) \<and> 4 \<le> int (length m) - j \<longrightarrow>
      m_xword ms (int i) = Inr (Some (be_value (take 4 (drop i (concat ms))))))"
  using m_walk_None [of ms i] chain_word by (auto simp: m_xword_def)

theorem m_xword_in_one_mbuf_witness:
  "m_xword [[9, 9], [1, 2, 3, 4, 5]] 3 = Inr (Some 0x02030405) \<and> m_xword [[9, 9]] 2 = Inr None"
  using m_xword_in_one_mbuf [of "[[9, 9], [1, 2, 3, 4, 5]]" 3] m_xword_in_one_mbuf [of "[[9, 9]]" 2]
  by simp

text \<open>\<open>bpf_validate\<close> accepts a program that stores X outside the scratch memory: its first test covers
  \<^verbatim>\<open>BPF_ST\<close> and \<^verbatim>\<open>BPF_LD|BPF_MEM\<close>, not \<^verbatim>\<open>BPF_STX\<close> and \<^verbatim>\<open>BPF_LDX|BPF_MEM\<close>.\<close>

theorem bpf_validate_misses_stx:
  "\<exists>f. bpf_validate f = Inr True \<and>
     (\<forall>p wl st. bpf_filter (length f) (Some f) p wl st = Some (Inl Bad_mem))"
  by (rule exI [of _ "[\<lparr>code = 0x03, jt = 0, jf = 0, k = 100\<rparr>, \<lparr>code = 0x06, jt = 0, jf = 0, k = 0\<rparr>]"])
    (simp add: bpf_validate_def insn_ok_def BPF_CLASS_def BPF_OP_def bpf_filter_def bpf_decode_def
      mem_put_def)

lemma ja_self_loops:
  "bpf_run n [\<lparr>code = 0x05, jt = 0, jf = 0, k = 0xffffffff\<rparr>, \<lparr>code = 0x06, jt = 0, jf = 0, k = 0\<rparr>]
     p wl 0 st = None"
  by (induction n) (simp_all add: bpf_decode_def)

text \<open>C18. \<open>bpf_validate\<close> accepts a program that jumps back to itself and runs forever on every packet: the
  target of \<^verbatim>\<open>BPF_JA\<close> is only compared with the length.\<close>

theorem bpf_validate_accepts_endless_loop:
  "\<exists>f. bpf_validate f = Inr True \<and> (\<forall>n p wl st. bpf_filter n (Some f) p wl st = None)"
  by (rule exI [of _ "[\<lparr>code = 0x05, jt = 0, jf = 0, k = 0xffffffff\<rparr>, \<lparr>code = 0x06, jt = 0, jf = 0, k = 0\<rparr>]"])
    (simp add: bpf_validate_def insn_ok_def BPF_CLASS_def BPF_OP_def bpf_filter_def ja_self_loops
      wrap32_def)

text \<open>Two loads leave the packet although it is long enough to be tested: at offset \<open>-1\<close> the sum
  \<^verbatim>\<open>k + sizeof(long)\<close> wraps below the length of the buffer, and a word that crosses from one mbuf into the
  next is read at twice its offset.\<close>

theorem bpf_loads_leave_packet:
  "load_word (Buffer [1, 2, 3, 4, 5, 6, 7, 8]) 0xffffffff = Inl Bad_packet \<and>
   m_xword [[1, 2, 3], [4, 5, 6]] 2 = Inl Bad_packet \<and>
   m_xhalf [[1, 2, 3], [4, 5, 6]] 2 = Inl Bad_packet"
  by (simp add: load_word_def m_xword_def m_xhalf_def read_be_def peek_def)

end
