(* ===== verification/Bpfdev.thy ===== *)
theory Bpfdev
  imports Bpf "HOL-Library.Sublist"
begin

text \<open>
  The packet filter device of \<^verbatim>\<open>kern/net/bpf.c\<close>: the descriptor of an open device with its three buffer
  slots, the capture of packets at interrupt time (\<open>catchpacket\<close>, \<open>bpf_tap\<close>, \<open>bpf_mtap\<close>), the read
  that empties the buffers, the control operations, and the binding of descriptors to interfaces.
  Buffers are addresses into a heap of byte arrays, so that the slots can share or lose a buffer.
  The main result is that a descriptor is a bounded queue of packets: what a read returns parses
  into exactly the packets captured, in order.
\<close>

section \<open>The contract of a capture device\<close>

text \<open>
  What the clients of a descriptor rely on: a capture appends one item or none, a read takes items from the
  front. The run of any sequence of captures (\<open>Some\<close>) and reads (\<open>None\<close>) then delivers, in order and
  without duplicates, what was accepted.
\<close>

fun dev_run :: "('a \<Rightarrow> 's \<Rightarrow> 'f + 's) \<Rightarrow> ('s \<Rightarrow> 'f + ('r list \<times> 's)) \<Rightarrow> 'a option list \<Rightarrow> 's \<Rightarrow> 'f + ('r list \<times> 's)" where
  "dev_run put get [] s = Inr ([], s)"
| "dev_run put get (Some a # evs) s =
     (case put a s of Inl f \<Rightarrow> Inl f | Inr s' \<Rightarrow> dev_run put get evs s')"
| "dev_run put get (None # evs) s =
     (case get s of Inl f \<Rightarrow> Inl f
      | Inr (out, s') \<Rightarrow> map_sum id (\<lambda>(out', s''). (out @ out', s'')) (dev_run put get evs s'))"

fun puts :: "'a option list \<Rightarrow> 'a list" where
  "puts [] = []"
| "puts (Some a # evs) = a # puts evs"
| "puts (None # evs) = puts evs"

locale capture_device =
  fixes inv :: "'s \<Rightarrow> bool" and contents :: "'s \<Rightarrow> 'r list" and good :: "'a \<Rightarrow> bool"
    and item :: "'s \<Rightarrow> 'a \<Rightarrow> 'r" and put :: "'a \<Rightarrow> 's \<Rightarrow> 'f + 's" and get :: "'s \<Rightarrow> 'f + ('r list \<times> 's)"
  assumes put_appends: "inv s \<Longrightarrow> good a \<Longrightarrow> \<exists>s' new. put a s = Inr s' \<and> inv s' \<and> item s' = item s \<and>
      contents s' = contents s @ new \<and> (new = [] \<or> new = [item s a])"
    and get_front: "inv s \<Longrightarrow> \<exists>out s'. get s = Inr (out, s') \<and> inv s' \<and> item s' = item s \<and>
      contents s = out @ contents s'"
begin

lemma run_stream:
  "inv s \<Longrightarrow> list_all good (puts evs) \<Longrightarrow>
     \<exists>out s' new. dev_run put get evs s = Inr (out, s') \<and> inv s' \<and>
       contents s @ new = out @ contents s' \<and> subseq new (map (item s) (puts evs))"
proof (induction evs arbitrary: s)
  case Nil
  then show ?case by simp
next
  case (Cons e evs)
  show ?case
  proof (cases e)
    case None
    obtain o1 s1 where g: "get s = Inr (o1, s1)" "inv s1" "item s1 = item s" "contents s = o1 @ contents s1"
      using get_front Cons.prems(1) by blast
    obtain o2 s2 new where r: "dev_run put get evs s1 = Inr (o2, s2)" "inv s2"
      "contents s1 @ new = o2 @ contents s2" "subseq new (map (item s1) (puts evs))"
      using Cons.IH [OF g(2)] Cons.prems(2) None by auto
    then show ?thesis using None g
      by (intro exI [of _ "o1 @ o2"] exI [of _ s2] exI [of _ new]) simp
  next
    case (Some a)
    obtain s1 n1 where p: "put a s = Inr s1" "inv s1" "item s1 = item s" "contents s1 = contents s @ n1"
      "n1 = [] \<or> n1 = [item s a]"
      using put_appends [OF Cons.prems(1), of a] Cons.prems(2) Some by auto
    obtain o2 s2 new where r: "dev_run put get evs s1 = Inr (o2, s2)" "inv s2"
      "contents s1 @ new = o2 @ contents s2" "subseq new (map (item s1) (puts evs))"
      using Cons.IH [OF p(2)] Cons.prems(2) Some by auto
    then have "subseq (n1 @ new) (map (item s) (puts (e # evs)))"
      using p(3,5) Some by auto
    then show ?thesis using Some p r
      by (intro exI [of _ o2] exI [of _ s2] exI [of _ "n1 @ new"]) simp
  qed
qed

end

section \<open>State\<close>

record bpf_d =
  bd_free :: bool
  bd_sbuf :: "nat option"
  bd_hbuf :: "nat option"
  bd_fbuf :: "nat option"
  bd_slen :: int
  bd_hlen :: int
  bd_bufsize :: int
  bd_bif :: "nat option"
  bd_rtout :: u32
  bd_filter :: "bpf_insn list option"
  bd_rcount :: u32
  bd_dcount :: u32
  bd_promisc :: bool
  bd_immediate :: u8
  bd_woken :: bool

text \<open>
  \<open>bd_free\<close> is \<^verbatim>\<open>D_ISFREE\<close> (the descriptor points to itself), and \<open>bd_woken\<close> records that \<open>bpf_wakeup\<close> ran
  \<^verbatim>\<open>wakeup\<close> and \<^verbatim>\<open>selwakeup\<close> on the descriptor. The faults: an access outside a buffer or a packet, a null
  buffer, and the three panics.
\<close>

type_synonym bheap = "nat \<Rightarrow> u8 list"
type_synonym dstate = "bpf_d \<times> bheap"

datatype dev_fault = Overrun | Null_buf | Panic_mcopy | Panic_detach | Panic_promisc | Filter_fault bpf_fault

section \<open>Bytes\<close>

definition BPF_WORDALIGN :: "int \<Rightarrow> int" where
  [kern_defs]: "BPF_WORDALIGN x = (x + 3) AND NOT 3"

definition le_bytes :: "nat \<Rightarrow> u32 \<Rightarrow> u8 list" where
  [kern_defs]: "le_bytes n w = map (\<lambda>i. ucast (drop_bit (8 * i) w)) [0..<n]"

definition put_bytes :: "u8 list \<Rightarrow> nat \<Rightarrow> u8 list \<Rightarrow> u8 list" where
  [kern_defs]: "put_bytes b off bs = take off b @ bs @ drop (off + length bs) b"

text \<open>\<^verbatim>\<open>struct bpf_hdr\<close> as it lies in memory: time stamp, captured length, packet length, header length.\<close>

definition hdr_bytes :: "u32 \<times> u32 \<Rightarrow> u32 \<Rightarrow> u32 \<Rightarrow> u32 \<Rightarrow> u8 list" where
  [kern_defs]: "hdr_bytes tv caplen datalen hdrlen =
     le_bytes 4 (fst tv) @ le_bytes 4 (snd tv) @ le_bytes 4 caplen @ le_bytes 4 datalen @ le_bytes 2 hdrlen"

section \<open>Capture\<close>

definition ROTATE_BUFFERS :: "bpf_d \<Rightarrow> bpf_d" where
  [kern_defs]: "ROTATE_BUFFERS d =
     d\<lparr>bd_hbuf := bd_sbuf d, bd_hlen := bd_slen d, bd_sbuf := bd_fbuf d, bd_slen := 0, bd_fbuf := None\<rparr>"

definition bpf_wakeup :: "bpf_d \<Rightarrow> bpf_d" where
  [kern_defs]: "bpf_wakeup d = d\<lparr>bd_woken := True\<rparr>"

fun bpf_mcopy :: "u8 list list \<Rightarrow> nat \<Rightarrow> dev_fault + u8 list" where
  "bpf_mcopy [] len = (if len = 0 then Inr [] else Inl Panic_mcopy)"
| "bpf_mcopy (m # ms) len =
     (if len = 0 then Inr []
      else let count = min (length m) len in
        map_sum id ((@) (take count m)) (bpf_mcopy ms (len - count)))"

text \<open>The routine \<open>catchpacket\<close> is given to copy the packet: \<^verbatim>\<open>bcopy\<close> for a buffer, \<open>bpf_mcopy\<close> for a chain.\<close>

fun cpfn :: "pkt \<Rightarrow> nat \<Rightarrow> dev_fault + u8 list" where
  "cpfn (Buffer bs) len = (if len \<le> length bs then Inr (take len bs) else Inl Overrun)"
| "cpfn (Chain ms) len = bpf_mcopy ms len"

text \<open>The end of \<open>catchpacket\<close>: header and data go to the store buffer at \<open>curlen\<close>.\<close>

definition store_packet ::
  "u32 \<times> u32 \<Rightarrow> u32 \<Rightarrow> pkt \<Rightarrow> u32 \<Rightarrow> int \<Rightarrow> int \<Rightarrow> dstate \<Rightarrow> dev_fault + dstate" where
  [kern_defs]: "store_packet tv hdrlen p pktlen totlen curlen dh =
     (let (d, h) = dh; caplen = word_of_int (totlen - sint hdrlen) :: u32 in
      case bd_sbuf d of
        None \<Rightarrow> Inl Null_buf
      | Some b \<Rightarrow>
          (case cpfn p (unat caplen) of
             Inl f \<Rightarrow> Inl f
           | Inr bs \<Rightarrow>
               if 0 \<le> curlen \<and> nat curlen + 18 \<le> length (h b) \<and>
                  0 \<le> sint hdrlen \<and> nat (curlen + sint hdrlen) + length bs \<le> length (h b)
               then Inr (d\<lparr>bd_slen := curlen + totlen\<rparr>,
                 h(b := put_bytes (put_bytes (h b) (nat curlen) (hdr_bytes tv caplen pktlen hdrlen))
                          (nat (curlen + sint hdrlen)) bs))
               else Inl Overrun))"

definition packet_totlen :: "bpf_d \<Rightarrow> u32 \<Rightarrow> u32 \<Rightarrow> u32 \<Rightarrow> int" where
  [kern_defs]: "packet_totlen d hdrlen pktlen snaplen =
     min (sint (hdrlen + min snaplen pktlen)) (bd_bufsize d)"

definition catchpacket ::
  "u32 \<times> u32 \<Rightarrow> u32 \<Rightarrow> pkt \<Rightarrow> u32 \<Rightarrow> u32 \<Rightarrow> dstate \<Rightarrow> dev_fault + dstate" where
  [kern_defs]: "catchpacket tv hdrlen p pktlen snaplen dh =
     (let (d, h) = dh; totlen = packet_totlen d hdrlen pktlen snaplen; curlen = BPF_WORDALIGN (bd_slen d) in
      if bd_bufsize d < curlen + totlen then
        (if bd_fbuf d = None then Inr (d\<lparr>bd_dcount := bd_dcount d + 1\<rparr>, h)
         else store_packet tv hdrlen p pktlen totlen 0 (bpf_wakeup (ROTATE_BUFFERS d), h))
      else store_packet tv hdrlen p pktlen totlen curlen
             (if bd_immediate d \<noteq> 0 then bpf_wakeup d else d, h))"

section \<open>Reading\<close>

definition reset_d :: "bpf_d \<Rightarrow> bpf_d" where
  [kern_defs]: "reset_d d =
     (if bd_hbuf d \<noteq> None then d\<lparr>bd_fbuf := bd_hbuf d, bd_hbuf := None\<rparr> else d)
       \<lparr>bd_slen := 0, bd_hlen := 0, bd_rcount := 0, bd_dcount := 0\<rparr>"

text \<open>
  What happens while the reader sleeps or copies: packets arrive. A sleep ends with \<open>None\<close> (woken up)
  or the error of \<^verbatim>\<open>tsleep\<close>. The waiting loop runs over the sleeps that end; \<open>Asleep\<close> when it goes on
  sleeping.
\<close>

record arrival =
  a_tv :: "u32 \<times> u32"
  a_pkt :: pkt
  a_len :: u32
  a_snap :: u32

datatype rd_res = Ready | Rd_err errno | Rd_empty | Asleep

fun arrivals :: "u32 \<Rightarrow> arrival list \<Rightarrow> dstate \<Rightarrow> dev_fault + dstate" where
  "arrivals hdrlen [] dh = Inr dh"
| "arrivals hdrlen (a # as) dh =
     (case catchpacket (a_tv a) hdrlen (a_pkt a) (a_len a) (a_snap a) dh of
        Inl f \<Rightarrow> Inl f | Inr dh' \<Rightarrow> arrivals hdrlen as dh')"

fun bpfread_wait ::
  "u32 \<Rightarrow> (arrival list \<times> errno option) list \<Rightarrow> dstate \<Rightarrow> dev_fault + (rd_res \<times> dstate)" where
  "bpfread_wait hdrlen sleeps (d, h) =
     (if bd_hbuf d \<noteq> None then Inr (Ready, (d, h))
      else if bd_immediate d \<noteq> 0 \<and> bd_slen d \<noteq> 0 then Inr (Ready, (ROTATE_BUFFERS d, h))
      else (case sleeps of
          [] \<Rightarrow> Inr (Asleep, (d, h))
        | (as, error) # sleeps' \<Rightarrow>
            (case arrivals hdrlen as (d, h) of
               Inl f \<Rightarrow> Inl f
             | Inr (d', h') \<Rightarrow>
                 if error = Some EINTR \<or> error = Some ERESTART then Inr (Rd_err (the error), (d', h'))
                 else if error = Some EWOULDBLOCK then
                   (if bd_hbuf d' \<noteq> None then Inr (Ready, (d', h'))
                    else if bd_slen d' = 0 then Inr (Rd_empty, (d', h'))
                    else Inr (Ready, (ROTATE_BUFFERS d', h')))
                 else bpfread_wait hdrlen sleeps' (d', h'))))"

text \<open>The end of the read: the hold buffer becomes the free buffer.\<close>

definition bpfread_finish :: "bpf_d \<Rightarrow> bpf_d" where
  [kern_defs]: "bpfread_finish d = d\<lparr>bd_fbuf := bd_hbuf d, bd_hbuf := None, bd_hlen := 0\<rparr>"

text \<open>
  \<open>bpfread\<close>: the error or the bytes moved to the user. \<open>copy\<close> is the packets that arrive while
  \<^verbatim>\<open>uiomove\<close> runs at low priority, and its error.
\<close>

definition bpfread ::
  "u32 \<Rightarrow> int \<Rightarrow> (arrival list \<times> errno option) list \<Rightarrow> arrival list \<times> errno option \<Rightarrow> dstate \<Rightarrow>
     dev_fault + ((errno + u8 list) option \<times> dstate)" where
  [kern_defs]: "bpfread hdrlen resid sleeps copy dh =
     (if resid \<noteq> bd_bufsize (fst dh) then Inr (Some (Inl EINVAL), dh)
      else (case bpfread_wait hdrlen sleeps dh of
          Inl f \<Rightarrow> Inl f
        | Inr (Asleep, dh') \<Rightarrow> Inr (None, dh')
        | Inr (Rd_err e, dh') \<Rightarrow> Inr (Some (Inl e), dh')
        | Inr (Rd_empty, dh') \<Rightarrow> Inr (Some (Inr []), dh')
        | Inr (Ready, (d, h)) \<Rightarrow>
            (case bd_hbuf d of
               None \<Rightarrow> Inl Null_buf
             | Some b \<Rightarrow>
                 (case arrivals hdrlen (fst copy) (d, h) of
                    Inl f \<Rightarrow> Inl f
                  | Inr (d', h') \<Rightarrow>
                      Inr (Some (case snd copy of Some e \<Rightarrow> Inl e | None \<Rightarrow> Inr (take (nat (bd_hlen d)) (h b))),
                        (bpfread_finish d', h'))))))"

section \<open>The layout of a buffer\<close>

text \<open>
  What a reader finds in a buffer: records that begin on word boundaries, each a header followed by the
  captured bytes. \<open>encodes b off rs e\<close>: from \<open>off\<close> on, \<open>b\<close> holds exactly the records \<open>rs\<close>, the last of
  which ends at \<open>e\<close>.
\<close>

record bpf_rec =
  r_tv :: "u32 \<times> u32"
  r_datalen :: u32
  r_hdrlen :: u32
  r_data :: "u8 list"

definition slice :: "u8 list \<Rightarrow> nat \<Rightarrow> nat \<Rightarrow> u8 list" where
  "slice b off n = take n (drop off b)"

abbreviation align4 :: "nat \<Rightarrow> nat" where
  "align4 n \<equiv> (n + 3) div 4 * 4"

definition rec_len :: "bpf_rec \<Rightarrow> nat" where
  "rec_len r = unat (r_hdrlen r) + length (r_data r)"

definition rec_at :: "u8 list \<Rightarrow> nat \<Rightarrow> bpf_rec \<Rightarrow> bool" where
  "rec_at b off r \<longleftrightarrow> 18 \<le> unat (r_hdrlen r) \<and> unat (r_hdrlen r) < 65536 \<and> length (r_data r) < 4294967296 \<and>
     off + rec_len r \<le> length b \<and>
     slice b off 18 = hdr_bytes (r_tv r) (of_nat (length (r_data r))) (r_datalen r) (r_hdrlen r) \<and>
     slice b (off + unat (r_hdrlen r)) (length (r_data r)) = r_data r"

fun encodes :: "u8 list \<Rightarrow> nat \<Rightarrow> bpf_rec list \<Rightarrow> nat \<Rightarrow> bool" where
  "encodes b off [] e \<longleftrightarrow> off = align4 e"
| "encodes b off (r # rs) e \<longleftrightarrow>
     rec_at b off r \<and> off + rec_len r \<le> e \<and> encodes b (align4 (off + rec_len r)) rs e"

text \<open>The reader's loop over a buffer, as its header fields direct it.\<close>

definition le_value :: "u8 list \<Rightarrow> u32" where
  [kern_defs]: "le_value bs = foldr (\<lambda>b v. ucast b OR push_bit 8 v) bs 0"

definition read_rec :: "u8 list \<Rightarrow> nat \<Rightarrow> bpf_rec" where
  [kern_defs]: "read_rec b off =
     (let hl = le_value (slice b (off + 16) 2); cl = le_value (slice b (off + 8) 4) in
      \<lparr>r_tv = (le_value (slice b off 4), le_value (slice b (off + 4) 4)),
       r_datalen = le_value (slice b (off + 12) 4), r_hdrlen = hl,
       r_data = slice b (off + unat hl) (unat cl)\<rparr>)"

function packets :: "u8 list \<Rightarrow> nat \<Rightarrow> nat \<Rightarrow> bpf_rec list" where
  "packets b e off =
     (if e \<le> off then []
      else let r = read_rec b off in
        if rec_len r = 0 then [] else r # packets b e (align4 (off + rec_len r)))"
  by pat_completeness auto
termination
  by (relation "measure (\<lambda>(b, e, off). e - off)") (auto split: if_splits)

declare packets.simps [simp del]

lemma mask_2_eq_3: "mask 2 = (3 :: int)"
  by (simp add: mask_eq_exp_minus_1)

lemma wordalign_nat: "0 \<le> x \<Longrightarrow> BPF_WORDALIGN x = int (align4 (nat x))"
proof -
  assume a: "0 \<le> x"
  have ss: "2 \<le> n \<Longrightarrow> Suc (Suc (n - 2)) = n" for n :: nat by simp
  have "(x + 3) AND NOT 3 = push_bit 2 (drop_bit 2 (x + 3))"
    by (rule bit_eqI) (auto simp: bit_simps ss simp flip: mask_2_eq_3)
  also have "\<dots> = (x + 3) div 4 * 4" by (simp add: push_bit_eq_mult drop_bit_eq_div)
  finally show ?thesis using a by (simp add: BPF_WORDALIGN_def nat_add_distrib zdiv_int)
qed

lemma align4_ge: "n \<le> align4 n" "align4 n < n + 4" "align4 (align4 n) = align4 n"
  by presburger+

lemma length_le_bytes [simp]: "length (le_bytes n w) = n"
  by (simp add: le_bytes_def)

lemma length_hdr_bytes [simp]: "length (hdr_bytes tv c l hl) = 18"
  by (simp add: hdr_bytes_def)

lemma le_value_4: "le_value (le_bytes 4 w) = w"
proof -
  have "[0..<4] = [0, 1, 2, 3 :: nat]" by (simp add: upt_rec)
  then have "le_value (le_bytes 4 w) = ucast (ucast w :: u8) OR push_bit 8 (ucast (ucast (drop_bit 8 w) :: u8)
     OR push_bit 8 (ucast (ucast (drop_bit 16 w) :: u8) OR push_bit 8 (ucast (ucast (drop_bit 24 w) :: u8))))"
    by (simp add: le_value_def le_bytes_def)
  also have "\<dots> = w"
  proof (rule bit_word_eqI)
    fix n assume "n < LENGTH(32)"
    then show "bit (ucast (ucast w :: u8) OR push_bit 8 (ucast (ucast (drop_bit 8 w) :: u8) OR push_bit 8
       (ucast (ucast (drop_bit 16 w) :: u8) OR push_bit 8 (ucast (ucast (drop_bit 24 w) :: u8) :: u32)))) n
       = bit w n"
      by (cases "24 \<le> n"; cases "16 \<le> n") (auto simp: bit_simps not_less)
  qed
  finally show ?thesis .
qed

lemma le_value_2: "unat w < 65536 \<Longrightarrow> le_value (le_bytes 2 w) = w"
proof -
  assume a: "unat w < 65536"
  have "[0..<2] = [0, 1 :: nat]" by (simp add: upt_rec)
  then have "le_value (le_bytes 2 w) = ucast (ucast w :: u8) OR push_bit 8 (ucast (ucast (drop_bit 8 w) :: u8))"
    by (simp add: le_value_def le_bytes_def)
  also have "\<dots> = take_bit 16 w"
    by (rule bit_word_eqI) (auto simp: bit_simps not_less)
  also have "\<dots> = w"
    using a by (simp add: word_unat_eq_iff unsigned_take_bit_eq take_bit_nat_eq_self)
  finally show ?thesis .
qed

text \<open>Slices of a buffer that was written to.\<close>

lemma length_put [simp]: "off + length bs \<le> length b \<Longrightarrow> length (put_bytes b off bs) = length b"
  by (simp add: put_bytes_def)

lemma slice_put_same:
  "off + length bs \<le> length b \<Longrightarrow> n = length bs \<Longrightarrow> slice (put_bytes b off bs) off n = bs"
  by (simp add: slice_def put_bytes_def)

lemma slice_put_before:
  "i + n \<le> off \<Longrightarrow> off + length bs \<le> length b \<Longrightarrow> slice (put_bytes b off bs) i n = slice b i n"
  by (simp add: slice_def put_bytes_def take_drop min_absorb1)

lemma slice_slice: "i + n \<le> m \<Longrightarrow> slice (slice b off m) i n = slice b (off + i) n"
  by (simp add: slice_def take_drop add.commute add.left_commute)

lemma slice_append_left: "i + n \<le> length xs \<Longrightarrow> slice (xs @ ys) i n = slice xs i n"
  by (simp add: slice_def)

lemma slice_append_right: "length xs \<le> i \<Longrightarrow> slice (xs @ ys) i n = slice ys (i - length xs) n"
  by (simp add: slice_def)

lemma hdr_fields:
  "slice (hdr_bytes tv c l hl) 0 4 = le_bytes 4 (fst tv)"
  "slice (hdr_bytes tv c l hl) 4 4 = le_bytes 4 (snd tv)"
  "slice (hdr_bytes tv c l hl) 8 4 = le_bytes 4 c"
  "slice (hdr_bytes tv c l hl) 12 4 = le_bytes 4 l"
  "slice (hdr_bytes tv c l hl) 16 2 = le_bytes 2 hl"
  by (simp_all add: hdr_bytes_def slice_append_left slice_append_right) (simp_all add: slice_def)

lemma read_rec_at: "rec_at b off r \<Longrightarrow> read_rec b off = r"
proof -
  assume a: "rec_at b off r"
  let ?hd = "hdr_bytes (r_tv r) (of_nat (length (r_data r))) (r_datalen r) (r_hdrlen r)"
  have h: "slice b off 18 = ?hd" using a by (simp add: rec_at_def)
  have f: "slice b off 4 = slice ?hd 0 4" "slice b (off + 4) 4 = slice ?hd 4 4"
    "slice b (off + 8) 4 = slice ?hd 8 4" "slice b (off + 12) 4 = slice ?hd 12 4"
    "slice b (off + 16) 2 = slice ?hd 16 2"
    by (simp_all flip: h add: slice_slice)
  have "unat (of_nat (length (r_data r)) :: u32) = length (r_data r)"
    using a by (simp add: rec_at_def unat_of_nat take_bit_nat_eq_self)
  then show ?thesis
    using a unfolding read_rec_def f hdr_fields Let_def
    by (simp add: le_value_4 le_value_2 rec_at_def del: unsigned_of_nat)
qed

lemma encodes_packets: "encodes b off rs e \<Longrightarrow> packets b e off = rs"
proof (induction rs arbitrary: off)
  case Nil
  then show ?case using align4_ge(1) [of e] by (simp add: packets.simps)
next
  case (Cons r rs)
  then have r: "rec_at b off r" "off + rec_len r \<le> e" "packets b e (align4 (off + rec_len r)) = rs" by auto
  moreover have "rec_len r \<noteq> 0" using r(1) by (simp add: rec_len_def rec_at_def)
  ultimately show ?case by (simp add: packets.simps [of b e off] read_rec_at)
qed

text \<open>Only the bytes below the end matter, and a record may be added at the next word boundary.\<close>

lemma rec_at_agree:
  assumes "rec_at b off r" "off + rec_len r \<le> e" "length b = length b'"
    "\<And>i n. i + n \<le> e \<Longrightarrow> slice b' i n = slice b i n"
  shows "rec_at b' off r"
  using assms by (auto simp: rec_at_def rec_len_def)

lemma encodes_agree:
  assumes "encodes b off rs e" "length b = length b'" "\<And>i n. i + n \<le> e \<Longrightarrow> slice b' i n = slice b i n"
  shows "encodes b' off rs e"
  using assms by (induction rs arbitrary: off) (auto intro: rec_at_agree)

lemma encodes_snoc:
  assumes "encodes b off rs e" "rec_at b (align4 e) r" "e' = align4 e + rec_len r"
  shows "encodes b off (rs @ [r]) e'"
  using assms
proof (induction rs arbitrary: off)
  case Nil
  then show ?case by simp
next
  case (Cons a rs)
  then show ?case using align4_ge(1) [of e] by auto
qed

section \<open>The descriptor as a queue of packets\<close>

fun pkt_data :: "pkt \<Rightarrow> u8 list" where
  "pkt_data (Buffer bs) = bs"
| "pkt_data (Chain ms) = concat ms"

lemma bpf_mcopy_concat: "n \<le> length (concat ms) \<Longrightarrow> bpf_mcopy ms n = Inr (take n (concat ms))"
proof (induction ms arbitrary: n)
  case (Cons m ms)
  then have "bpf_mcopy ms (n - min (length m) n) = Inr (take (n - min (length m) n) (concat ms))"
    by (intro Cons.IH) auto
  then show ?case by (simp add: Let_def min_def)
qed simp

lemma cpfn_data: "n \<le> length (pkt_data p) \<Longrightarrow> cpfn p n = Inr (take n (pkt_data p))"
  by (cases p) (simp_all add: bpf_mcopy_concat del: length_concat)

text \<open>
  The invariant of a descriptor with buffers: the store slot is taken, exactly one of the other two is, the
  two buffers are different and of the descriptor's size, and both hold well-formed records up to their
  lengths.
\<close>

definition well_formed :: "u8 list \<Rightarrow> int \<Rightarrow> bool" where
  "well_formed b e \<longleftrightarrow> encodes b 0 (packets b (nat e) 0) (nat e)"

definition slot_ok :: "bpf_d \<Rightarrow> bheap \<Rightarrow> nat \<Rightarrow> int \<Rightarrow> bool" where
  "slot_ok d h b e \<longleftrightarrow> int (length (h b)) = bd_bufsize d \<and> 0 \<le> e \<and> e \<le> bd_bufsize d \<and> well_formed (h b) e"

definition bpf_ok :: "dstate \<Rightarrow> bool" where
  "bpf_ok dh = (case dh of (d, h) \<Rightarrow>
     32 \<le> bd_bufsize d \<and> bd_bufsize d \<le> 32768 \<and>
     (case (bd_sbuf d, bd_hbuf d, bd_fbuf d) of
        (Some s, Some x, None) \<Rightarrow> s \<noteq> x \<and> slot_ok d h s (bd_slen d) \<and> slot_ok d h x (bd_hlen d)
      | (Some s, None, Some x) \<Rightarrow>
          s \<noteq> x \<and> slot_ok d h s (bd_slen d) \<and> int (length (h x)) = bd_bufsize d \<and> bd_hlen d = 0
      | _ \<Rightarrow> False))"

definition held :: "dstate \<Rightarrow> bpf_rec list" where
  "held dh = (case bd_hbuf (fst dh) of Some x \<Rightarrow> packets (snd dh x) (nat (bd_hlen (fst dh))) 0 | None \<Rightarrow> [])"

definition stored :: "dstate \<Rightarrow> bpf_rec list" where
  "stored dh = (case bd_sbuf (fst dh) of Some x \<Rightarrow> packets (snd dh x) (nat (bd_slen (fst dh))) 0 | None \<Rightarrow> [])"

abbreviation pending :: "dstate \<Rightarrow> bpf_rec list" where
  "pending dh \<equiv> held dh @ stored dh"

lemma encodes_empty: "encodes b 0 [] 0"
  by simp

lemma packets_empty [simp]: "packets b 0 0 = []" "well_formed b 0"
  by (simp_all add: packets.simps well_formed_def)

lemma well_formedI: "encodes b 0 rs (nat e) \<Longrightarrow> well_formed b e"
  by (simp add: well_formed_def encodes_packets)

definition captured :: "bpf_d \<Rightarrow> arrival \<Rightarrow> u32 \<Rightarrow> bpf_rec" where
  "captured d a hdrlen =
     \<lparr>r_tv = a_tv a, r_datalen = a_len a, r_hdrlen = hdrlen,
      r_data = take (min (min (unat (a_snap a)) (unat (a_len a))) (nat (bd_bufsize d) - unat hdrlen))
                 (pkt_data (a_pkt a))\<rparr>"

lemma store_packet_ok:
  assumes b: "bd_sbuf d = Some b" "int (length (h b)) = bd_bufsize d" "bd_bufsize d \<le> 32768"
    and rs: "encodes (h b) 0 rs (nat e)" "0 \<le> e" "curlen = int (align4 (nat e))"
    and l: "18 \<le> unat hdrlen" "unat hdrlen < 32"
    and n: "totlen = int (unat hdrlen) + int n" "n \<le> length (pkt_data p)" "curlen + totlen \<le> bd_bufsize d"
  shows "\<exists>b'. store_packet tv hdrlen p pktlen totlen curlen (d, h) =
      Inr (d\<lparr>bd_slen := curlen + totlen\<rparr>, h(b := b')) \<and> length b' = length (h b) \<and>
      encodes b' 0 (rs @ [\<lparr>r_tv = tv, r_datalen = pktlen, r_hdrlen = hdrlen, r_data = take n (pkt_data p)\<rparr>])
        (nat (curlen + totlen))"
proof -
  let ?hl = "unat hdrlen" and ?c = "align4 (nat e)" and ?bs = "take n (pkt_data p)"
  let ?hd = "hdr_bytes tv (of_nat n) pktlen hdrlen"
  let ?b1 = "put_bytes (h b) ?c ?hd"
  let ?b2 = "put_bytes ?b1 (?c + ?hl) ?bs"
  have sl: "sint hdrlen = int ?hl" using l by (intro sint_of_small) simp
  have fit: "?c + ?hl + n \<le> length (h b)" using b(2) n(1,3) rs(3) by linarith
  have cap: "word_of_int (totlen - sint hdrlen) = (of_nat n :: u32)" using n(1) sl by simp
  have un: "unat (of_nat n :: u32) = n"
    using fit b(2,3) by (simp add: unat_of_nat take_bit_nat_eq_self)
  have len1: "length ?b1 = length (h b)" using fit l by (intro length_put) simp
  have len2: "length ?b2 = length (h b)" using fit n(2) len1 by (subst length_put) simp_all
  have pos: "nat curlen = ?c" "nat (curlen + int ?hl) = ?c + ?hl" "0 \<le> curlen" "?c + 18 \<le> length (h b)"
    "?c + ?hl + length ?bs \<le> length (h b)"
    unfolding rs(3) using fit l n(2) by (simp_all only: nat_int_add nat_int) auto
  have store: "store_packet tv hdrlen p pktlen totlen curlen (d, h) =
      Inr (d\<lparr>bd_slen := curlen + totlen\<rparr>, h(b := ?b2))"
    using b(1) n(2) pos unfolding store_packet_def Let_def split cap
    by (simp add: un cpfn_data sl del: unsigned_of_nat)
  let ?r = "\<lparr>r_tv = tv, r_datalen = pktlen, r_hdrlen = hdrlen, r_data = ?bs\<rparr>"
  have "slice ?b2 ?c 18 = slice ?b1 ?c 18"
    using l pos(5) len1 by (intro slice_put_before) simp_all
  also have "\<dots> = ?hd" using pos(4) by (intro slice_put_same) simp_all
  finally have hd: "slice ?b2 ?c 18 = ?hd" .
  have dat: "slice ?b2 (?c + ?hl) (length ?bs) = ?bs"
    using pos(5) len1 by (intro slice_put_same) simp_all
  have "rec_at ?b2 ?c ?r"
    using l fit n(2) len2 hd dat b by (simp add: rec_at_def rec_len_def)
  moreover have "encodes ?b2 0 rs (nat e)"
  proof (rule encodes_agree [OF rs(1)])
    show "length (h b) = length ?b2" using len2 by simp
    fix i m assume "i + m \<le> nat e"
    then have "i + m \<le> ?c" using align4_ge(1) [of "nat e"] by linarith
    then show "slice ?b2 i m = slice (h b) i m"
      using pos(4,5) len1 by (subst slice_put_before, simp, simp, subst slice_put_before) simp_all
  qed
  moreover have "curlen + totlen = int (?c + ?hl + n)"
    unfolding rs(3) n(1) by (simp only: of_nat_add)
  then have "nat (curlen + totlen) = ?c + rec_len ?r"
    using n(2) by (simp only: nat_int) (simp add: rec_len_def)
  ultimately have "encodes ?b2 0 (rs @ [?r]) (nat (curlen + totlen))" by (intro encodes_snoc)
  then show ?thesis using store len2 by blast
qed

text \<open>A packet as the interfaces hand it over: its length is the length of its data.\<close>

definition arrival_ok :: "arrival \<Rightarrow> bool" where
  "arrival_ok a \<longleftrightarrow> unat (a_len a) = length (pkt_data (a_pkt a)) \<and> unat (a_len a) < 2147483600"

definition hdrlen_ok :: "u32 \<Rightarrow> bool" where
  "hdrlen_ok hdrlen \<longleftrightarrow> 18 \<le> unat hdrlen \<and> unat hdrlen < 32"

definition catch :: "u32 \<Rightarrow> arrival \<Rightarrow> dstate \<Rightarrow> dev_fault + dstate" where
  "catch hdrlen a = catchpacket (a_tv a) hdrlen (a_pkt a) (a_len a) (a_snap a)"

definition overflows :: "bpf_d \<Rightarrow> arrival \<Rightarrow> u32 \<Rightarrow> bool" where
  "overflows d a hdrlen \<longleftrightarrow>
     bd_bufsize d < BPF_WORDALIGN (bd_slen d) + packet_totlen d hdrlen (a_len a) (a_snap a)"

lemma totlen_captured:
  assumes "arrival_ok a" "hdrlen_ok hdrlen" "32 \<le> bd_bufsize d"
  shows "packet_totlen d hdrlen (a_len a) (a_snap a) = int (rec_len (captured d a hdrlen))"
    "packet_totlen d hdrlen (a_len a) (a_snap a) =
       int (unat hdrlen) + int (length (r_data (captured d a hdrlen)))"
proof -
  let ?m = "min (a_snap a) (a_len a)"
  have m: "unat ?m = min (unat (a_snap a)) (unat (a_len a))" by (simp add: min_def word_le_nat_alt)
  have "unat ?m \<le> unat (a_len a)" using m by simp
  then have small: "unat hdrlen + unat ?m < 2147483648"
    using assms(1,2) unfolding arrival_ok_def hdrlen_ok_def by simp
  then have s: "unat (hdrlen + ?m) = unat hdrlen + unat ?m" by (subst unat_word_ariths) simp
  then have si: "sint (hdrlen + ?m) = int (unat hdrlen + unat ?m)" using small by (metis sint_of_small)
  have arith: "min (int (h + m)) B = int h + int (min m (nat B - h))" if "h < 32" "32 \<le> B" for h m :: nat and B
    using that by (auto simp: min_def)
  have "length (r_data (captured d a hdrlen)) = min (unat ?m) (nat (bd_bufsize d) - unat hdrlen)"
    using assms(1) unfolding m arrival_ok_def captured_def by (simp add: min_def)
  then show "packet_totlen d hdrlen (a_len a) (a_snap a) =
       int (unat hdrlen) + int (length (r_data (captured d a hdrlen)))"
    unfolding packet_totlen_def si using assms(2,3) arith unfolding hdrlen_ok_def by metis
  then show "packet_totlen d hdrlen (a_len a) (a_snap a) = int (rec_len (captured d a hdrlen))"
    by (simp only: rec_len_def of_nat_add) (simp add: captured_def)
qed

lemma slot_ok_agree: "slot_ok d h b e \<Longrightarrow> bd_bufsize d' = bd_bufsize d \<Longrightarrow> h' b = h b \<Longrightarrow> slot_ok d' h' b e"
  by (simp add: slot_ok_def)

lemma bpf_okE:
  assumes "bpf_ok (d, h)"
  obtains (hold) s x where "bd_sbuf d = Some s" "bd_hbuf d = Some x" "bd_fbuf d = None" "s \<noteq> x"
      "slot_ok d h s (bd_slen d)" "slot_ok d h x (bd_hlen d)" "32 \<le> bd_bufsize d" "bd_bufsize d \<le> 32768"
    | (free) s x where "bd_sbuf d = Some s" "bd_hbuf d = None" "bd_fbuf d = Some x" "s \<noteq> x"
      "slot_ok d h s (bd_slen d)" "int (length (h x)) = bd_bufsize d" "bd_hlen d = 0"
      "32 \<le> bd_bufsize d" "bd_bufsize d \<le> 32768"
  using assms by (auto simp: bpf_ok_def split: option.splits)

text \<open>Storing at the end of the store buffer, whichever buffer that is.\<close>

lemma store_queue:
  assumes ok: "bpf_ok (d, h)" and a: "arrival_ok a" "hdrlen_ok hdrlen"
    and fits: "\<not> overflows d a hdrlen"
  shows "\<exists>d' h'. store_packet (a_tv a) hdrlen (a_pkt a) (a_len a) (packet_totlen d hdrlen (a_len a) (a_snap a))
        (BPF_WORDALIGN (bd_slen d)) (d, h) = Inr (d', h') \<and> bpf_ok (d', h') \<and>
      held (d', h') = held (d, h) \<and> stored (d', h') = stored (d, h) @ [captured d a hdrlen] \<and>
      d' = d\<lparr>bd_slen := bd_slen d'\<rparr> \<and> (\<forall>x. Some x \<noteq> bd_sbuf d \<longrightarrow> h' x = h x)"
proof -
  let ?c = "captured d a hdrlen" and ?t = "packet_totlen d hdrlen (a_len a) (a_snap a)"
    and ?w = "BPF_WORDALIGN (bd_slen d)"
  from ok obtain s where s: "bd_sbuf d = Some s" "slot_ok d h s (bd_slen d)" "32 \<le> bd_bufsize d"
    "bd_bufsize d \<le> 32768" by (cases rule: bpf_okE) auto
  let ?rs = "packets (h s) (nat (bd_slen d)) 0"
  let ?n = "length (r_data ?c)"
  have n: "?n \<le> length (pkt_data (a_pkt a))" "take ?n (pkt_data (a_pkt a)) = r_data ?c"
    by (simp add: captured_def, simp add: captured_def min_def)
  have "\<exists>b'. store_packet (a_tv a) hdrlen (a_pkt a) (a_len a) ?t ?w (d, h) =
      Inr (d\<lparr>bd_slen := ?w + ?t\<rparr>, h(s := b')) \<and> length b' = length (h s) \<and>
      encodes b' 0 (?rs @ [\<lparr>r_tv = a_tv a, r_datalen = a_len a, r_hdrlen = hdrlen,
         r_data = take ?n (pkt_data (a_pkt a))\<rparr>]) (nat (?w + ?t))"
    using s a fits n(1) totlen_captured(2) [OF a s(3)] wordalign_nat [of "bd_slen d"]
    by (intro store_packet_ok [where e = "bd_slen d"])
      (simp_all add: slot_ok_def well_formed_def hdrlen_ok_def overflows_def)
  moreover have "\<lparr>r_tv = a_tv a, r_datalen = a_len a, r_hdrlen = hdrlen,
         r_data = take ?n (pkt_data (a_pkt a))\<rparr> = ?c"
    unfolding n(2) by (simp add: captured_def)
  ultimately obtain b' where b: "store_packet (a_tv a) hdrlen (a_pkt a) (a_len a) ?t ?w (d, h) =
      Inr (d\<lparr>bd_slen := ?w + ?t\<rparr>, h(s := b'))" "length b' = length (h s)"
      "encodes b' 0 (?rs @ [?c]) (nat (?w + ?t))" by metis
  let ?d' = "d\<lparr>bd_slen := ?w + ?t\<rparr>" and ?h' = "h(s := b')"
  have pos: "0 \<le> ?w + ?t" "?w + ?t \<le> bd_bufsize d"
    using fits wordalign_nat [of "bd_slen d"] s(2) totlen_captured(1) [OF a s(3)]
    by (simp_all add: slot_ok_def overflows_def)
  have sl: "slot_ok ?d' ?h' s (?w + ?t)"
    using s(2) b pos by (simp add: slot_ok_def well_formedI)
  have "bpf_ok (?d', ?h') \<and> held (?d', ?h') = held (d, h)"
    using ok
  proof (cases rule: bpf_okE)
    case (hold s' x)
    have "slot_ok ?d' ?h' x (bd_hlen d)"
      by (rule slot_ok_agree [OF hold(6)]) (use hold(1,4) s(1) in simp_all)
    then show ?thesis using hold sl s(1) by (simp add: bpf_ok_def held_def)
  next
    case (free s' x)
    then show ?thesis using sl s(1) by (simp add: bpf_ok_def held_def)
  qed
  moreover have "stored (?d', ?h') = stored (d, h) @ [?c]"
    using s(1) b(3) by (simp add: stored_def encodes_packets)
  ultimately show ?thesis using b(1) s(1) by (intro exI [of _ ?d'] exI [of _ ?h']) simp
qed

lemma rotate_ok:
  assumes "bpf_ok (d, h)" "bd_hbuf d = None"
  shows "bpf_ok (ROTATE_BUFFERS d, h)" "held (ROTATE_BUFFERS d, h) = stored (d, h)"
    "stored (ROTATE_BUFFERS d, h) = []" "held (d, h) = []" "bd_slen (ROTATE_BUFFERS d) = 0"
    "bd_hbuf (ROTATE_BUFFERS d) \<noteq> None"
  using assms(1)
  by (cases rule: bpf_okE;
      use assms(2) in \<open>simp add: bpf_ok_def held_def stored_def ROTATE_BUFFERS_def slot_ok_def\<close>)+

lemma ok_slots: "bpf_ok (d, h) \<Longrightarrow> bd_fbuf d = None \<longleftrightarrow> bd_hbuf d \<noteq> None"
  by (erule bpf_okE) auto

lemma wakeup_ok [simp]:
  "bpf_ok (bpf_wakeup d, h) = bpf_ok (d, h)" "held (bpf_wakeup d, h) = held (d, h)"
  "stored (bpf_wakeup d, h) = stored (d, h)"
  "overflows (bpf_wakeup d) a hl = overflows d a hl" "captured (bpf_wakeup d) a hl = captured d a hl"
  "packet_totlen (bpf_wakeup d) = packet_totlen d" "bd_slen (bpf_wakeup d) = bd_slen d"
  "bd_dcount (bpf_wakeup d) = bd_dcount d" "bd_bufsize (bpf_wakeup d) = bd_bufsize d"
  "bd_hbuf (bpf_wakeup d) = bd_hbuf d" "bd_sbuf (bpf_wakeup d) = bd_sbuf d" "bd_hlen (bpf_wakeup d) = bd_hlen d"
  by (simp_all add: bpf_ok_def held_def stored_def bpf_wakeup_def overflows_def packet_totlen_def
      captured_def slot_ok_def fun_eq_iff split: option.splits)

lemma rotate_same [simp]:
  "captured (ROTATE_BUFFERS d) a hl = captured d a hl"
  "packet_totlen (ROTATE_BUFFERS d) = packet_totlen d"
  by (simp_all add: ROTATE_BUFFERS_def packet_totlen_def captured_def fun_eq_iff)

lemma rotated_fits: "bpf_ok (d, h) \<Longrightarrow> \<not> overflows (ROTATE_BUFFERS d) a hl"
  by (simp add: overflows_def ROTATE_BUFFERS_def packet_totlen_def BPF_WORDALIGN_def)

text \<open>While a buffer is held, captures do not touch it.\<close>

definition hold_kept :: "dstate \<Rightarrow> dstate \<Rightarrow> bool" where
  "hold_kept s s' = (case bd_hbuf (fst s) of None \<Rightarrow> True
     | Some x \<Rightarrow> bd_hbuf (fst s') = Some x \<and> bd_hlen (fst s') = bd_hlen (fst s) \<and> snd s' x = snd s x)"

text \<open>
  A captured packet goes to the end of the queue; it is dropped, and counted, only when it does not fit
  behind the stored ones and the reader has not yet taken the buffer before.
\<close>

lemma catch_queue:
  assumes ok: "bpf_ok (d, h)" and a: "arrival_ok a" "hdrlen_ok hdrlen"
  shows "\<exists>d' h'. catch hdrlen a (d, h) = Inr (d', h') \<and> bpf_ok (d', h') \<and>
    (if overflows d a hdrlen \<and> bd_hbuf d \<noteq> None
     then d' = d\<lparr>bd_dcount := bd_dcount d + 1\<rparr> \<and> h' = h
     else pending (d', h') = pending (d, h) @ [captured d a hdrlen] \<and> bd_dcount d' = bd_dcount d) \<and>
    hold_kept (d, h) (d', h') \<and> bd_bufsize d' = bd_bufsize d"
proof -
  consider (drop) "overflows d a hdrlen" "bd_hbuf d \<noteq> None" | (rotate) "overflows d a hdrlen" "bd_hbuf d = None"
    | (fits) "\<not> overflows d a hdrlen" by blast
  then show ?thesis
  proof cases
    case drop
    then have "bd_fbuf d = None" using ok_slots ok by blast
    then have "catch hdrlen a (d, h) = Inr (d\<lparr>bd_dcount := bd_dcount d + 1\<rparr>, h)"
      using drop(1) by (simp add: catch_def catchpacket_def Let_def overflows_def)
    moreover have "bpf_ok (d\<lparr>bd_dcount := bd_dcount d + 1\<rparr>, h)"
      using ok by (simp add: bpf_ok_def slot_ok_def split: option.splits)
    ultimately show ?thesis using drop by (auto simp: hold_kept_def)
  next
    case rotate
    let ?d = "bpf_wakeup (ROTATE_BUFFERS d)"
    note r = rotate_ok [OF ok rotate(2)]
    obtain f where "bd_fbuf d = Some f" using ok_slots ok rotate(2) by blast
    then have c: "catch hdrlen a (d, h) = store_packet (a_tv a) hdrlen (a_pkt a) (a_len a)
        (packet_totlen ?d hdrlen (a_len a) (a_snap a)) (BPF_WORDALIGN (bd_slen ?d)) (?d, h)"
      using rotate(1) r(5) by (simp add: catch_def catchpacket_def Let_def overflows_def BPF_WORDALIGN_def)
    have eqs: "bpf_ok (?d, h)" "\<not> overflows ?d a hdrlen" "captured ?d a hdrlen = captured d a hdrlen"
      "held (?d, h) = stored (d, h)" "stored (?d, h) = []" "bd_dcount ?d = bd_dcount d"
      using r rotated_fits [OF ok] by (simp_all, simp add: bpf_wakeup_def ROTATE_BUFFERS_def)
    from store_queue [OF eqs(1) a eqs(2)] obtain d' h' where
      s: "catch hdrlen a (d, h) = Inr (d', h')" "bpf_ok (d', h')" "held (d', h') = stored (d, h)"
        "stored (d', h') = [captured d a hdrlen]" "d' = ?d\<lparr>bd_slen := bd_slen d'\<rparr>"
      unfolding c eqs by auto
    have "bd_dcount d' = bd_dcount d" "bd_bufsize d' = bd_bufsize d"
      using arg_cong [OF s(5), of bd_dcount] arg_cong [OF s(5), of bd_bufsize] eqs(6)
      by (simp_all add: ROTATE_BUFFERS_def)
    then show ?thesis using s(1-4) rotate r(4) by (simp add: hold_kept_def)
  next
    case fits
    let ?d = "if bd_immediate d \<noteq> 0 then bpf_wakeup d else d"
    have c: "catch hdrlen a (d, h) = store_packet (a_tv a) hdrlen (a_pkt a) (a_len a)
        (packet_totlen ?d hdrlen (a_len a) (a_snap a)) (BPF_WORDALIGN (bd_slen ?d)) (?d, h)"
      using fits by (simp add: catch_def catchpacket_def Let_def overflows_def)
    have eqs: "bpf_ok (?d, h)" "\<not> overflows ?d a hdrlen" "captured ?d a hdrlen = captured d a hdrlen"
      "held (?d, h) = held (d, h)" "stored (?d, h) = stored (d, h)" "bd_dcount ?d = bd_dcount d"
      using ok fits by simp_all
    from store_queue [OF eqs(1) a eqs(2)] obtain d' h' where
      s: "catch hdrlen a (d, h) = Inr (d', h')" "bpf_ok (d', h')" "held (d', h') = held (d, h)"
        "stored (d', h') = stored (d, h) @ [captured d a hdrlen]" "d' = ?d\<lparr>bd_slen := bd_slen d'\<rparr>"
        "\<forall>x. Some x \<noteq> bd_sbuf ?d \<longrightarrow> h' x = h x"
      unfolding c eqs by blast
    have eq: "bd_dcount d' = bd_dcount d" "bd_bufsize d' = bd_bufsize d" "bd_hbuf d' = bd_hbuf d"
      "bd_hlen d' = bd_hlen d"
      using arg_cong [OF s(5), of bd_dcount] arg_cong [OF s(5), of bd_bufsize]
        arg_cong [OF s(5), of bd_hbuf] arg_cong [OF s(5), of bd_hlen] by (simp_all add: bpf_wakeup_def)
    have "hold_kept (d, h) (d', h')"
      using ok eq s(6) by (cases rule: bpf_okE) (simp_all add: hold_kept_def bpf_wakeup_def)
    then show ?thesis using s(1-4) eq fits by simp
  qed
qed

text \<open>Several arrivals append the accepted ones, in order.\<close>

lemma captured_bufsize: "bd_bufsize d' = bd_bufsize d \<Longrightarrow> captured d' = captured d"
  by (simp add: captured_def fun_eq_iff)

lemma hold_kept_trans: "hold_kept s s' \<Longrightarrow> hold_kept s' s'' \<Longrightarrow> hold_kept s s''"
  by (auto simp: hold_kept_def split: option.splits)

definition all_ok :: "arrival list \<Rightarrow> bool" where
  "all_ok as \<longleftrightarrow> list_all arrival_ok as"

definition grows :: "arrival list \<Rightarrow> u32 \<Rightarrow> dstate \<Rightarrow> dstate \<Rightarrow> bool" where
  "grows as hdrlen s s' \<longleftrightarrow> bd_bufsize (fst s') = bd_bufsize (fst s) \<and>
     (\<exists>new. pending s' = pending s @ new \<and> subseq new (map (\<lambda>a. captured (fst s) a hdrlen) as))"

lemma grows_refl: "grows [] hl s s"
  by (simp add: grows_def)

lemma grows_trans:
  assumes "grows as hl s s'" "grows bs hl s' s''"
  shows "grows (as @ bs) hl s s''"
proof -
  obtain n1 n2 where n: "pending s' = pending s @ n1" "subseq n1 (map (\<lambda>a. captured (fst s) a hl) as)"
    "pending s'' = pending s' @ n2" "subseq n2 (map (\<lambda>a. captured (fst s') a hl) bs)"
    using assms unfolding grows_def by blast
  have c: "captured (fst s') = captured (fst s)"
    by (rule captured_bufsize) (use assms(1) in \<open>simp add: grows_def\<close>)
  have "subseq (n1 @ n2) (map (\<lambda>a. captured (fst s) a hl) (as @ bs))"
    using n(2,4) unfolding c by (simp add: list_emb_append_mono)
  moreover have "pending s'' = pending s @ n1 @ n2" unfolding n(3) n(1) by (rule append_assoc)
  moreover have "bd_bufsize (fst s'') = bd_bufsize (fst s)" using assms by (simp add: grows_def)
  ultimately show ?thesis unfolding grows_def by blast
qed

lemma catch_grows:
  assumes "bpf_ok (d, h)" "arrival_ok a" "hdrlen_ok hdrlen"
  shows "\<exists>s'. catch hdrlen a (d, h) = Inr s' \<and> bpf_ok s' \<and> grows [a] hdrlen (d, h) s' \<and> hold_kept (d, h) s'"
proof -
  obtain d' h' where c: "catch hdrlen a (d, h) = Inr (d', h')" "bpf_ok (d', h')"
    "if overflows d a hdrlen \<and> bd_hbuf d \<noteq> None
     then d' = d\<lparr>bd_dcount := bd_dcount d + 1\<rparr> \<and> h' = h
     else pending (d', h') = pending (d, h) @ [captured d a hdrlen] \<and> bd_dcount d' = bd_dcount d"
    "hold_kept (d, h) (d', h')" "bd_bufsize d' = bd_bufsize d"
    using catch_queue [OF assms] by blast
  have "grows [a] hdrlen (d, h) (d', h')"
  proof (cases "overflows d a hdrlen \<and> bd_hbuf d \<noteq> None")
    case True
    then show ?thesis using c(3) by (simp add: grows_def held_def stored_def split: option.splits)
  next
    case False
    then have "pending (d', h') = pending (d, h) @ [captured d a hdrlen]" using c(3) by simp
    then show ?thesis using c(5) by (auto simp: grows_def)
  qed
  then show ?thesis using c by blast
qed

lemma arrivals_grow:
  "bpf_ok s \<Longrightarrow> all_ok as \<Longrightarrow> hdrlen_ok hdrlen \<Longrightarrow>
     \<exists>s'. arrivals hdrlen as s = Inr s' \<and> bpf_ok s' \<and> grows as hdrlen s s' \<and> hold_kept s s'"
proof (induction as arbitrary: s)
  case Nil
  then show ?case by (auto simp: grows_refl hold_kept_def split: option.splits)
next
  case (Cons a as)
  then have a: "arrival_ok a" "all_ok as" by (simp_all add: all_ok_def)
  obtain s1 where s1: "catch hdrlen a s = Inr s1" "bpf_ok s1" "grows [a] hdrlen s s1" "hold_kept s s1"
    using catch_grows [of "fst s" "snd s", OF _ a(1) Cons.prems(3)] Cons.prems(1) by auto
  obtain s2 where s2: "arrivals hdrlen as s1 = Inr s2" "bpf_ok s2" "grows as hdrlen s1 s2" "hold_kept s1 s2"
    using Cons.IH [OF s1(2) a(2) Cons.prems(3)] by blast
  then show ?case
    using s1 grows_trans [OF s1(3) s2(3)] hold_kept_trans [OF s1(4) s2(4)]
    by (auto simp: catch_def)
qed

lemma slice_take: "i + n \<le> e \<Longrightarrow> slice (take e b) i n = slice b i n"
  by (simp add: slice_def take_drop min_absorb1)

lemma encodes_take: "encodes b off rs e \<Longrightarrow> e \<le> length b \<Longrightarrow> encodes (take e b) off rs e"
proof (induction rs arbitrary: off)
  case (Cons r rs)
  then have "rec_at (take e b) off r"
    by (auto simp: rec_at_def rec_len_def slice_take)
  then show ?case using Cons by simp
qed simp

lemma read_bytes_parse:
  assumes "slot_ok d h x e"
  shows "length (take (nat e) (h x)) = nat e" "packets (take (nat e) (h x)) (nat e) 0 = packets (h x) (nat e) 0"
proof -
  have e: "nat e \<le> length (h x)" using assms unfolding slot_ok_def by linarith
  then show "length (take (nat e) (h x)) = nat e" by simp
  show "packets (take (nat e) (h x)) (nat e) 0 = packets (h x) (nat e) 0"
    using assms encodes_packets [OF encodes_take [OF _ e]] by (simp add: slot_ok_def well_formed_def)
qed

lemma grows_more: "grows as hl s s' \<Longrightarrow> grows (as @ bs) hl s s'"
  by (auto simp: grows_def intro: subseq_order.trans list_emb_prefix)

lemma rotate_grows:
  "bpf_ok (d, h) \<Longrightarrow> bd_hbuf d = None \<Longrightarrow> grows [] hl (d, h) (ROTATE_BUFFERS d, h)"
  using rotate_ok [of d h] by (simp add: grows_def ROTATE_BUFFERS_def)

declare bpfread_wait.simps [simp del]

definition waits :: "u32 \<Rightarrow> arrival list \<Rightarrow> dstate \<Rightarrow> rd_res \<Rightarrow> dstate \<Rightarrow> bool" where
  "waits hl as s res s' \<longleftrightarrow> bpf_ok s' \<and> grows as hl s s' \<and>
     (res = Ready \<longrightarrow> bd_hbuf (fst s') \<noteq> None) \<and> (res = Rd_empty \<longrightarrow> pending s' = [])"

lemma empty_queue: "bpf_ok (d, h) \<Longrightarrow> bd_hbuf d = None \<Longrightarrow> bd_slen d = 0 \<Longrightarrow> pending (d, h) = []"
  by (erule bpf_okE) (simp_all add: held_def stored_def)

lemma wait_step:
  assumes "bpf_ok (d, h)" "all_ok as" "hdrlen_ok hl"
  obtains d' h' where "arrivals hl as (d, h) = Inr (d', h')" "bpf_ok (d', h')" "grows as hl (d, h) (d', h')"
  using arrivals_grow [OF assms] by fastforce

lemma wait_queue:
  "bpf_ok s \<Longrightarrow> hdrlen_ok hl \<Longrightarrow> list_all (\<lambda>x. all_ok (fst x)) sleeps \<Longrightarrow>
     \<exists>res s'. bpfread_wait hl sleeps s = Inr (res, s') \<and> waits hl (concat (map fst sleeps)) s res s'"
proof (induction hl sleeps s rule: bpfread_wait.induct)
  case (1 hl sleeps d h)
  note ok = "1.prems"(1) and hl = "1.prems"(2) and as = "1.prems"(3)
  consider (held) "bd_hbuf d \<noteq> None" | (imm) "bd_hbuf d = None" "bd_immediate d \<noteq> 0 \<and> bd_slen d \<noteq> 0"
    | (none) "bd_hbuf d = None" "\<not> (bd_immediate d \<noteq> 0 \<and> bd_slen d \<noteq> 0)" "sleeps = []"
    | (sleep) as e rest where "bd_hbuf d = None" "\<not> (bd_immediate d \<noteq> 0 \<and> bd_slen d \<noteq> 0)"
        "sleeps = (as, e) # rest"
    by (metis list.exhaust surj_pair)
  then show ?case
  proof cases
    case held
    then show ?thesis using ok grows_more [OF grows_refl [of hl "(d, h)"], of "concat (map fst sleeps)"]
      by (simp add: waits_def bpfread_wait.simps [of hl sleeps])
  next
    case imm
    then show ?thesis
      using rotate_ok [OF ok imm(1)] grows_more [OF rotate_grows [OF ok imm(1), of hl], of "concat (map fst sleeps)"]
      by (simp add: waits_def bpfread_wait.simps [of hl sleeps])
  next
    case none
    then have "bpfread_wait hl sleeps (d, h) = Inr (Asleep, (d, h))"
      by (subst bpfread_wait.simps) auto
    then show ?thesis using none(3) ok grows_refl [of hl "(d, h)"] by (simp add: waits_def)
  next
    case (sleep as e rest)
    have al: "all_ok as" using "1.prems"(3) sleep by simp
    obtain d' h' where a: "arrivals hl as (d, h) = Inr (d', h')" "bpf_ok (d', h')" "grows as hl (d, h) (d', h')"
      using wait_step [OF ok al hl] .
    have more: "grows (concat (map fst sleeps)) hl (d, h) (d', h')"
      using grows_more [OF a(3), of "concat (map fst rest)"] sleep(3) by simp
    have unf: "bpfread_wait hl sleeps (d, h) =
      (if e = Some EINTR \<or> e = Some ERESTART then Inr (Rd_err (the e), (d', h'))
       else if e = Some EWOULDBLOCK then
         (if bd_hbuf d' \<noteq> None then Inr (Ready, (d', h'))
          else if bd_slen d' = 0 then Inr (Rd_empty, (d', h'))
          else Inr (Ready, (ROTATE_BUFFERS d', h')))
       else bpfread_wait hl rest (d', h'))"
      using sleep a(1) by (subst bpfread_wait.simps) auto
    consider (err) "e = Some EINTR \<or> e = Some ERESTART" | (full) "e = Some EWOULDBLOCK" "bd_hbuf d' \<noteq> None"
      | (empty) "e = Some EWOULDBLOCK" "bd_hbuf d' = None" "bd_slen d' = 0"
      | (rot) "e = Some EWOULDBLOCK" "bd_hbuf d' = None" "bd_slen d' \<noteq> 0"
      | (again) "\<not> (e = Some EINTR \<or> e = Some ERESTART)" "e \<noteq> Some EWOULDBLOCK" by blast
    then show ?thesis
    proof cases
      case again
      have eq: "bpfread_wait hl sleeps (d, h) = bpfread_wait hl rest (d', h')"
        using again by (simp add: unf)
      obtain res s' where "bpfread_wait hl rest (d', h') = Inr (res, s')"
        "waits hl (concat (map fst rest)) (d', h') res s'"
        using "1.IH" [OF _ _ sleep(3) refl a(1) refl again a(2) hl] sleep(1,2) as sleep(3) by auto
      moreover have "waits hl (concat (map fst sleeps)) (d, h) res s'"
        using calculation(2) grows_trans [OF a(3)] sleep(3) by (simp add: waits_def)
      ultimately show ?thesis unfolding eq by blast
    next
      case rot
      then have "bpfread_wait hl sleeps (d, h) = Inr (Ready, (ROTATE_BUFFERS d', h'))"
        by (simp add: unf)
      moreover have "grows (concat (map fst sleeps)) hl (d, h) (ROTATE_BUFFERS d', h')"
        using grows_more [OF grows_trans [OF a(3) rotate_grows [OF a(2) rot(2)]]] sleep(3) by simp
      ultimately show ?thesis using rotate_ok [OF a(2) rot(2)] by (simp add: waits_def)
    qed (use a(2) more empty_queue [OF a(2)] in \<open>auto simp: waits_def unf\<close>)
  qed
qed

lemma finish_ok:
  assumes "bpf_ok (d, h)" "bd_hbuf d = Some x"
  shows "bpf_ok (bpfread_finish d, h)" "pending (d, h) = held (d, h) @ pending (bpfread_finish d, h)"
    "slot_ok d h x (bd_hlen d)"
  using assms(1)
  by (cases rule: bpf_okE;
      use assms(2) in \<open>simp add: bpf_ok_def held_def stored_def bpfread_finish_def slot_ok_def\<close>)+

lemma bpfread_queue:
  assumes ok: "bpf_ok dh" "hdrlen_ok hl" "list_all (\<lambda>x. all_ok (fst x)) sleeps" "all_ok (fst copy)"
  shows "\<exists>res dh' new. bpfread hl resid sleeps copy dh = Inr (res, dh') \<and> bpf_ok dh' \<and>
    subseq new (map (\<lambda>a. captured (fst dh) a hl) (concat (map fst sleeps) @ fst copy)) \<and>
    (case res of
       Some (Inr bytes) \<Rightarrow> pending dh @ new = packets bytes (length bytes) 0 @ pending dh'
     | Some (Inl e) \<Rightarrow> snd copy = Some e \<or> pending dh' = pending dh @ new
     | None \<Rightarrow> pending dh' = pending dh @ new)"
proof -
  let ?all = "map (\<lambda>a. captured (fst dh) a hl)"
  let ?P = "\<lambda>res dh' new. bpfread hl resid sleeps copy dh = Inr (res, dh') \<and> bpf_ok dh' \<and>
    subseq new (?all (concat (map fst sleeps) @ fst copy)) \<and>
    (case res of
       Some (Inr bytes) \<Rightarrow> pending dh @ new = packets bytes (length bytes) 0 @ pending dh'
     | Some (Inl e) \<Rightarrow> snd copy = Some e \<or> pending dh' = pending dh @ new
     | None \<Rightarrow> pending dh' = pending dh @ new)"
  obtain res s' where w: "bpfread_wait hl sleeps dh = Inr (res, s')"
    "waits hl (concat (map fst sleeps)) dh res s'" using wait_queue [OF ok(1-3)] by blast
  then have g: "bpf_ok s'" "grows (concat (map fst sleeps)) hl dh s'" by (simp_all add: waits_def)
  obtain new where new: "pending s' = pending dh @ new" "subseq new (?all (concat (map fst sleeps) @ fst copy))"
    using grows_more [OF g(2), of "fst copy"] unfolding grows_def by blast
  show ?thesis
  proof (cases "resid = bd_bufsize (fst dh)")
    case False
    then have "?P (Some (Inl EINVAL)) dh []" using ok(1) by (simp add: bpfread_def)
    then show ?thesis by blast
  next
    case resid: True
    show ?thesis
    proof (cases res)
      case Ready
      obtain d h where s': "s' = (d, h)" by (cases s')
      obtain x where x: "bd_hbuf d = Some x" using w(2) Ready s' by (auto simp: waits_def)
      obtain d' h' where a: "arrivals hl (fst copy) (d, h) = Inr (d', h')" "bpf_ok (d', h')"
        "grows (fst copy) hl (d, h) (d', h')" "hold_kept (d, h) (d', h')"
        using arrivals_grow [OF g(1) [unfolded s'] ok(4,2)] by fastforce
      then have x': "bd_hbuf d' = Some x" "bd_hlen d' = bd_hlen d" "h' x = h x"
        using x by (simp_all add: hold_kept_def)
      note f = finish_ok [OF a(2) x'(1)]
      obtain n2 where n2: "pending (d', h') = pending dh @ n2"
        "subseq n2 (?all (concat (map fst sleeps) @ fst copy))"
        using grows_trans [OF g(2) [unfolded s'] a(3)] unfolding grows_def by blast
      let ?bytes = "take (nat (bd_hlen d)) (h x)"
      have bytes: "packets ?bytes (length ?bytes) 0 = held (d', h')"
        using read_bytes_parse [OF f(3)] x' by (simp add: held_def)
      have eq: "bpfread hl resid sleeps copy dh = Inr (Some (case snd copy of Some e \<Rightarrow> Inl e | None \<Rightarrow> Inr ?bytes),
          (bpfread_finish d', h'))"
        using resid w(1) Ready s' x a(1) by (simp add: bpfread_def)
      have parse: "pending dh @ n2 = packets ?bytes (length ?bytes) 0 @ pending (bpfread_finish d', h')"
        unfolding bytes n2(1) [symmetric] by (rule f(2))
      show ?thesis
      proof (cases "snd copy")
        case None
        then have "?P (Some (Inr ?bytes)) (bpfread_finish d', h') n2"
          using eq f(1) n2(2) parse by simp
        then show ?thesis by blast
      next
        case (Some e)
        then have "?P (Some (Inl e)) (bpfread_finish d', h') n2" using eq f(1) n2(2) by simp
        then show ?thesis by blast
      qed
    next
      case (Rd_err e)
      then have "?P (Some (Inl e)) s' new" using resid w(1) g(1) new by (simp add: bpfread_def)
      then show ?thesis by blast
    next
      case Rd_empty
      then have "pending s' = []" using w(2) by (simp add: waits_def)
      then have "?P (Some (Inr [])) s' new" using Rd_empty resid w(1) g(1) new by (simp add: bpfread_def)
      then show ?thesis by blast
    next
      case Asleep
      then have "?P None s' new" using resid w(1) g(1) new by (simp add: bpfread_def)
      then show ?thesis by blast
    qed
  qed
qed

text \<open>A read whose sleep times out, as a client that polls the device sees it: the packets it parses.\<close>

definition bpf_poll :: "u32 \<Rightarrow> dstate \<Rightarrow> dev_fault + (bpf_rec list \<times> dstate)" where
  "bpf_poll hl dh =
     map_sum id (\<lambda>(res, dh'). (case res of Some (Inr bytes) \<Rightarrow> packets bytes (length bytes) 0 | _ \<Rightarrow> [], dh'))
       (bpfread hl (bd_bufsize (fst dh)) [([], Some EWOULDBLOCK)] ([], None) dh)"

lemma wait_timeout:
  assumes "bpfread_wait hl [([], Some EWOULDBLOCK)] dh = Inr (res, dh')"
  shows "res = Ready \<or> res = Rd_empty" "bd_bufsize (fst dh') = bd_bufsize (fst dh)"
  using assms by (cases dh; auto simp: bpfread_wait.simps ROTATE_BUFFERS_def split: if_splits)+

lemma poll_front:
  assumes "hdrlen_ok hl" "bpf_ok dh"
  shows "\<exists>out dh'. bpf_poll hl dh = Inr (out, dh') \<and> bpf_ok dh' \<and> bd_bufsize (fst dh') = bd_bufsize (fst dh) \<and>
    pending dh = out @ pending dh'"
proof -
  obtain res dh' new where r: "bpfread hl (bd_bufsize (fst dh)) [([], Some EWOULDBLOCK)] ([], None) dh = Inr (res, dh')"
    "bpf_ok dh'" "subseq new (map (\<lambda>a. captured (fst dh) a hl) (concat (map fst [([], Some EWOULDBLOCK)]) @ fst ([], None :: errno option)))"
    "case res of
       Some (Inr bytes) \<Rightarrow> pending dh @ new = packets bytes (length bytes) 0 @ pending dh'
     | Some (Inl e) \<Rightarrow> snd ([] :: arrival list, None) = Some e \<or> pending dh' = pending dh @ new
     | None \<Rightarrow> pending dh' = pending dh @ new"
    using bpfread_queue [OF assms(2,1), of "[([], Some EWOULDBLOCK)]" "([], None)" "bd_bufsize (fst dh)"]
    unfolding all_ok_def by simp blast
  have "bd_bufsize (fst dh') = bd_bufsize (fst dh)"
    using r(1) wait_timeout(2) [of hl dh]
    by (auto simp: bpfread_def bpfread_finish_def split: sum.splits rd_res.splits option.splits)
  moreover have "new = []" using r(3) by simp
  ultimately show ?thesis
    using r unfolding bpf_poll_def by (auto split: option.splits sum.splits)
qed

interpretation bd: capture_device "\<lambda>dh. hdrlen_ok hl \<and> bpf_ok dh" "\<lambda>dh. pending dh" arrival_ok
    "\<lambda>dh a. captured (fst dh) a hl" "catch hl" "bpf_poll hl" for hl
proof (unfold_locales, goal_cases)
  case (1 s a)
  then obtain s' where s': "catch hl a s = Inr s'" "bpf_ok s'" "grows [a] hl s s'"
    using catch_grows [of "fst s" "snd s" a hl] by auto
  then have "captured (fst s') = captured (fst s)" by (intro captured_bufsize) (simp add: grows_def)
  moreover obtain new where "pending s' = pending s @ new" "subseq new [captured (fst s) a hl]"
    using s'(3) by (auto simp: grows_def)
  moreover have "new = [] \<or> new = [captured (fst s) a hl]"
    using calculation(3) by (cases new) (auto split: if_splits)
  ultimately show ?case using s' 1 by auto
next
  case (2 s)
  then obtain out s' where p: "bpf_poll hl s = Inr (out, s')" "bpf_ok s'"
    "bd_bufsize (fst s') = bd_bufsize (fst s)" "pending s = out @ pending s'" using poll_front by blast
  then have "captured (fst s') = captured (fst s)" by (intro captured_bufsize)
  then show ?case using p 2 by auto
qed

section \<open>Properties\<close>

definition empty_d :: bpf_d where
  "empty_d = \<lparr>bd_free = False, bd_sbuf = Some 1, bd_hbuf = None, bd_fbuf = Some 2, bd_slen = 0, bd_hlen = 0,
     bd_bufsize = 32, bd_bif = Some 0, bd_rtout = 0, bd_filter = None, bd_rcount = 0, bd_dcount = 0,
     bd_promisc = False, bd_immediate = 0, bd_woken = False\<rparr>"

definition small_arrival :: "u8 list \<Rightarrow> arrival" where
  "small_arrival bs = \<lparr>a_tv = (7, 8), a_pkt = Buffer bs, a_len = of_nat (length bs), a_snap = 96\<rparr>"

lemma small_ok: "bpf_ok (empty_d, \<lambda>_. replicate 32 0)" "hdrlen_ok 18"
  "arrival_ok (small_arrival [1, 2, 3])" "arrival_ok (small_arrival [4, 5])"
  by (simp_all add: bpf_ok_def empty_d_def slot_ok_def hdrlen_ok_def arrival_ok_def small_arrival_def)

text \<open>C12. \<open>catchpacket\<close> never faults and keeps the three-slot invariant. Either the packet, cut to the snapshot
  length and to what a buffer can take, becomes the last of the packets waiting for the reader, or it does not
  fit, the reader still holds the other buffer, and only the drop count changes.\<close>

theorem catchpacket_enqueues:
  assumes "bpf_ok (d, h)" "arrival_ok a" "hdrlen_ok hdrlen"
  shows "\<exists>d' h'. catchpacket (a_tv a) hdrlen (a_pkt a) (a_len a) (a_snap a) (d, h) = Inr (d', h') \<and>
    bpf_ok (d', h') \<and>
    (if overflows d a hdrlen \<and> bd_hbuf d \<noteq> None
     then d' = d\<lparr>bd_dcount := bd_dcount d + 1\<rparr> \<and> h' = h
     else pending (d', h') = pending (d, h) @ [captured d a hdrlen] \<and> bd_dcount d' = bd_dcount d)"
  using catch_queue [OF assms] unfolding catch_def by blast

theorem catchpacket_enqueues_witness:
  "\<exists>d' h'. catchpacket (7, 8) 18 (Buffer [1, 2, 3]) 3 96 (empty_d, \<lambda>_. replicate 32 0) = Inr (d', h') \<and>
     bpf_ok (d', h') \<and> pending (d', h') = [\<lparr>r_tv = (7, 8), r_datalen = 3, r_hdrlen = 18, r_data = [1, 2, 3]\<rparr>]"
  using catchpacket_enqueues [OF small_ok(1,3,2)]
  by (simp add: small_arrival_def empty_d_def captured_def held_def stored_def) blast

text \<open>C9. A read of a consistent descriptor never faults and keeps the invariant. Whatever packets arrive while
  it sleeps and while it copies, the bytes it returns parse into the oldest packets, and nothing is lost,
  duplicated or reordered: they and the packets still waiting are those that waited before followed by accepted
  arrivals. A read that ends with an error of the sleep takes nothing.\<close>

theorem bpfread_fifo:
  assumes "bpf_ok dh" "hdrlen_ok hl" "list_all (\<lambda>x. all_ok (fst x)) sleeps" "all_ok (fst copy)"
  shows "\<exists>res dh' new. bpfread hl resid sleeps copy dh = Inr (res, dh') \<and> bpf_ok dh' \<and>
    subseq new (map (\<lambda>a. captured (fst dh) a hl) (concat (map fst sleeps) @ fst copy)) \<and>
    (case res of
       Some (Inr bytes) \<Rightarrow> pending dh @ new = packets bytes (length bytes) 0 @ pending dh'
     | Some (Inl e) \<Rightarrow> snd copy = Some e \<or> pending dh' = pending dh @ new
     | None \<Rightarrow> pending dh' = pending dh @ new)"
  by (rule bpfread_queue [OF assms])

theorem bpfread_fifo_witness:
  "\<exists>res dh' new. bpfread 18 32 [([small_arrival [1, 2, 3]], Some EWOULDBLOCK)] ([small_arrival [4, 5]], None)
      (empty_d, \<lambda>_. replicate 32 0) = Inr (res, dh') \<and> bpf_ok dh' \<and>
    subseq new (map (\<lambda>a. captured empty_d a 18) [small_arrival [1, 2, 3], small_arrival [4, 5]]) \<and>
    (case res of
       Some (Inr bytes) \<Rightarrow> new = packets bytes (length bytes) 0 @ pending dh'
     | Some (Inl e) \<Rightarrow> snd ([small_arrival [4, 5]], None) = Some e \<or> pending dh' = new
     | None \<Rightarrow> pending dh' = new)"
proof -
  have p: "pending (empty_d, \<lambda>_. replicate 32 0) = []" by (simp add: empty_d_def held_def stored_def)
  show ?thesis
    using bpfread_fifo [OF small_ok(1,2), of "[([small_arrival [1, 2, 3]], Some EWOULDBLOCK)]"
        "([small_arrival [4, 5]], None)" 32] small_ok(3,4) unfolding p append.simps
    by (simp add: all_ok_def)
qed

text \<open>C17. Any sequence of captures and polling reads on a descriptor runs without a fault, and the packets the
  reads deliver, followed by those still waiting, are the initial ones followed by a subsequence of the captured
  ones.\<close>

theorem bpf_capture_stream:
  assumes "hdrlen_ok hl" "bpf_ok dh" "list_all arrival_ok (puts evs)"
  shows "\<exists>out dh' new. dev_run (catch hl) (bpf_poll hl) evs dh = Inr (out, dh') \<and> bpf_ok dh' \<and>
    pending dh @ new = out @ pending dh' \<and> subseq new (map (\<lambda>a. captured (fst dh) a hl) (puts evs))"
  using bd.run_stream [of hl dh evs] assms by blast

theorem bpf_capture_stream_witness:
  "\<exists>out dh' new. dev_run (catch 18) (bpf_poll 18)
      [Some (small_arrival [1, 2, 3]), None, Some (small_arrival [4, 5]), None] (empty_d, \<lambda>_. replicate 32 0)
        = Inr (out, dh') \<and> bpf_ok dh' \<and>
    pending (empty_d, \<lambda>_. replicate 32 0) @ new = out @ pending dh' \<and>
    subseq new (map (\<lambda>a. captured (fst (empty_d, \<lambda>_ :: nat. replicate 32 (0 :: u8))) a 18)
      (puts [Some (small_arrival [1, 2, 3]), None, Some (small_arrival [4, 5]), None]))"
  by (rule bpf_capture_stream [OF small_ok(2,1)]) (simp add: small_ok)

text \<open>The read copies out at low priority. When the descriptor is flushed in that window (\<^verbatim>\<open>BIOCFLUSH\<close> by a
  process that shares it), the hold buffer moves to the free slot, and the end of the read then overwrites that
  slot with nothing: one of the two buffers is lost, and the descriptor no longer meets its invariant.\<close>

theorem flush_during_read_loses_buffer:
  assumes "bpf_ok (d, h)" "bd_hbuf d \<noteq> None"
  shows "bd_hbuf (bpfread_finish (reset_d d)) = None \<and> bd_fbuf (bpfread_finish (reset_d d)) = None \<and>
    \<not> bpf_ok (bpfread_finish (reset_d d), h)"
  using assms by (simp add: bpfread_finish_def reset_d_def bpf_ok_def split: option.splits)

theorem flush_during_read_loses_buffer_witness:
  "let d = empty_d\<lparr>bd_hbuf := Some 2, bd_fbuf := None\<rparr> in
     \<not> bpf_ok (bpfread_finish (reset_d d), \<lambda>_. replicate 32 0)"
proof -
  have "bpf_ok (empty_d\<lparr>bd_hbuf := Some 2, bd_fbuf := None\<rparr>, \<lambda>_. replicate 32 0)"
    by (simp add: bpf_ok_def empty_d_def slot_ok_def)
  then show ?thesis using flush_during_read_loses_buffer by (simp add: Let_def)
qed

end
