(* ===== verification/Timeval.thy ===== *)
theory Timeval
  imports Prelude
begin

text \<open>
  The arithmetic on times of \<^verbatim>\<open>kern/kern_time.c\<close>: \<open>timevaladd\<close>, \<open>timevalsub\<close>, \<open>timevalfix\<close>, the check and the
  decrement of interval timers (\<open>itimerfix\<close>, \<open>itimerdecr\<close>), and the macros of \<^verbatim>\<open>sys/time.h\<close>. Both fields of
  a \<^verbatim>\<open>timeval\<close> are signed 32-bit longs. The meaning of a time is its number of microseconds.
\<close>

record timeval =
  tv_sec :: int
  tv_usec :: int

record itimerval =
  it_interval :: timeval
  it_value :: timeval

definition timerisset :: "timeval \<Rightarrow> bool" where
  [kern_defs]: "timerisset tv \<longleftrightarrow> tv_sec tv \<noteq> 0 \<or> tv_usec tv \<noteq> 0"

definition timerclear :: timeval where
  [kern_defs]: "timerclear = \<lparr>tv_sec = 0, tv_usec = 0\<rparr>"

text \<open>\<^verbatim>\<open>timercmp(t, u, <)\<close>.\<close>

definition timer_less :: "timeval \<Rightarrow> timeval \<Rightarrow> bool" where
  [kern_defs]: "timer_less t u \<longleftrightarrow> tv_sec t < tv_sec u \<or> (tv_sec t = tv_sec u \<and> tv_usec t < tv_usec u)"

definition timevalfix :: "timeval \<Rightarrow> timeval" where
  [kern_defs]: "timevalfix t1 =
     (let t = (if tv_usec t1 < 0
               then \<lparr>tv_sec = wrap32 (tv_sec t1 - 1), tv_usec = tv_usec t1 + 1000000\<rparr> else t1) in
      if 1000000 \<le> tv_usec t
      then \<lparr>tv_sec = wrap32 (tv_sec t + 1), tv_usec = tv_usec t - 1000000\<rparr> else t)"

definition timevaladd :: "timeval \<Rightarrow> timeval \<Rightarrow> timeval" where
  [kern_defs]: "timevaladd t1 t2 =
     timevalfix \<lparr>tv_sec = wrap32 (tv_sec t1 + tv_sec t2), tv_usec = wrap32 (tv_usec t1 + tv_usec t2)\<rparr>"

definition timevalsub :: "timeval \<Rightarrow> timeval \<Rightarrow> timeval" where
  [kern_defs]: "timevalsub t1 t2 =
     timevalfix \<lparr>tv_sec = wrap32 (tv_sec t1 - tv_sec t2), tv_usec = wrap32 (tv_usec t1 - tv_usec t2)\<rparr>"

text \<open>\<open>None\<close> is \<^verbatim>\<open>EINVAL\<close>. A value below the resolution of the clock is rounded up to it.\<close>

definition itimerfix :: "int \<Rightarrow> timeval \<Rightarrow> timeval option" where
  [kern_defs]: "itimerfix tick tv =
     (if tv_sec tv < 0 \<or> 100000000 < tv_sec tv \<or> tv_usec tv < 0 \<or> 1000000 \<le> tv_usec tv then None
      else if tv_sec tv = 0 \<and> tv_usec tv \<noteq> 0 \<and> tv_usec tv < tick then Some (tv\<lparr>tv_usec := tick\<rparr>)
      else Some tv)"

text \<open>The label \<^verbatim>\<open>expire\<close> of \<open>itimerdecr\<close>, with the \<open>usec\<close> that is left over.\<close>

definition itimer_expire :: "itimerval \<Rightarrow> int \<Rightarrow> itimerval" where
  [kern_defs]: "itimer_expire itp usec =
     (if timerisset (it_interval itp) then
        (let v = (it_interval itp)\<lparr>tv_usec := tv_usec (it_interval itp) - usec\<rparr> in
         itp\<lparr>it_value := (if tv_usec v < 0
           then \<lparr>tv_sec = tv_sec v - 1, tv_usec = tv_usec v + 1000000\<rparr> else v)\<rparr>)
      else itp\<lparr>it_value := (it_value itp)\<lparr>tv_usec := 0\<rparr>\<rparr>)"

text \<open>The result is the value returned (\<open>False\<close> is 0: expired) and the timer.\<close>

definition itimerdecr :: "itimerval \<Rightarrow> int \<Rightarrow> bool \<times> itimerval" where
  [kern_defs]: "itimerdecr itp usec =
     (if tv_usec (it_value itp) < usec \<and> tv_sec (it_value itp) = 0
      then (False, itimer_expire itp (usec - tv_usec (it_value itp)))
      else (let v = (if tv_usec (it_value itp) < usec
                     then \<lparr>tv_sec = tv_sec (it_value itp) - 1, tv_usec = tv_usec (it_value itp) + 1000000\<rparr>
                     else it_value itp);
                itp' = itp\<lparr>it_value := v\<lparr>tv_usec := tv_usec v - usec\<rparr>\<rparr> in
            if timerisset (it_value itp') then (True, itp') else (False, itimer_expire itp' 0)))"

section \<open>Times as microseconds\<close>

definition usecs :: "timeval \<Rightarrow> int" where
  "usecs tv = tv_sec tv * 1000000 + tv_usec tv"

text \<open>A time in normal form.\<close>

definition tv_ok :: "timeval \<Rightarrow> bool" where
  "tv_ok tv \<longleftrightarrow> 0 \<le> tv_usec tv \<and> tv_usec tv < 1000000"

lemma tv_usec_set: "(tv :: timeval)\<lparr>tv_usec := u\<rparr> = \<lparr>tv_sec = tv_sec tv, tv_usec = u\<rparr>"
  by (cases tv) simp

lemma usecs_inj: "tv_ok a \<Longrightarrow> tv_ok b \<Longrightarrow> usecs a = usecs b \<longleftrightarrow> a = b"
proof -
  have eq: "x = x' \<and> y = y'"
    if "x * 1000000 + y = x' * 1000000 + y'" "0 \<le> y" "y < 1000000" "0 \<le> y'" "y' < 1000000" for x y x' y' :: int
    using that by (cases x x' rule: linorder_cases) linarith+
  assume "tv_ok a" "tv_ok b"
  then show ?thesis
    using eq [of "tv_sec a" "tv_usec a" "tv_sec b" "tv_usec b"] by (auto simp: tv_ok_def usecs_def)
qed

lemma timer_less_usecs: "tv_ok a \<Longrightarrow> tv_ok b \<Longrightarrow> timer_less a b \<longleftrightarrow> usecs a < usecs b"
  by (auto simp: tv_ok_def usecs_def timer_less_def)

lemma timerisset_usecs: "tv_ok a \<Longrightarrow> timerisset a \<longleftrightarrow> usecs a \<noteq> 0"
  using usecs_inj [of a "\<lparr>tv_sec = 0, tv_usec = 0\<rparr>"] by (cases a) (auto simp: tv_ok_def usecs_def timerisset_def)

lemma timevaladd_usecs:
  assumes "tv_ok a" "tv_ok b" "in32 (tv_sec a + tv_sec b)" "in32 (tv_sec a + tv_sec b + 1)"
  shows "tv_ok (timevaladd a b)" "usecs (timevaladd a b) = usecs a + usecs b"
proof -
  have "wrap32 (tv_usec a + tv_usec b) = tv_usec a + tv_usec b"
    using assms by (intro wrap32_id) (simp add: in32_def tv_ok_def)
  then show "tv_ok (timevaladd a b)" "usecs (timevaladd a b) = usecs a + usecs b"
    using assms by (auto simp: timevaladd_def timevalfix_def tv_ok_def usecs_def Let_def)
qed

lemma timevalsub_usecs:
  assumes "tv_ok a" "tv_ok b" "in32 (tv_sec a - tv_sec b)" "in32 (tv_sec a - tv_sec b - 1)"
  shows "tv_ok (timevalsub a b)" "usecs (timevalsub a b) = usecs a - usecs b"
proof -
  have "wrap32 (tv_usec a - tv_usec b) = tv_usec a - tv_usec b"
    using assms by (intro wrap32_id) (simp add: in32_def tv_ok_def)
  then show "tv_ok (timevalsub a b)" "usecs (timevalsub a b) = usecs a - usecs b"
    using assms by (auto simp: timevalsub_def timevalfix_def tv_ok_def usecs_def Let_def)
qed

text \<open>A timer as \<open>itimerfix\<close> leaves it.\<close>

definition it_tv_ok :: "int \<Rightarrow> timeval \<Rightarrow> bool" where
  "it_tv_ok tick tv \<longleftrightarrow> tv_ok tv \<and> 0 \<le> tv_sec tv \<and> (usecs tv = 0 \<or> tick \<le> usecs tv)"

definition timer_ok :: "int \<Rightarrow> itimerval \<Rightarrow> bool" where
  "timer_ok tick itv \<longleftrightarrow> it_tv_ok tick (it_interval itv) \<and> tv_ok (it_value itv) \<and> 0 \<le> tv_sec (it_value itv)"

lemma itimerfix_ok:
  assumes "itimerfix tick tv = Some tv'" "0 < tick" "tick < 1000000"
  shows "it_tv_ok tick tv'" "tv_sec tv' \<le> 100000000"
  using assms by (auto simp: itimerfix_def it_tv_ok_def tv_ok_def usecs_def split: if_splits)

lemma expire_usecs:
  assumes "timer_ok tick itp" "tv_sec (it_value itp) = 0" "0 \<le> usec" "usec < tick" "tick < 1000000"
  shows "timer_ok tick (itimer_expire itp usec)" "it_interval (itimer_expire itp usec) = it_interval itp"
    "usecs (it_value (itimer_expire itp usec)) =
      (if usecs (it_interval itp) = 0 then 0 else usecs (it_interval itp) - usec)"
  using assms
  by (auto simp: itimer_expire_def timer_ok_def it_tv_ok_def tv_ok_def usecs_def timerisset_def Let_def)

lemma itimerdecr_usecs:
  assumes "timer_ok tick itp" "0 < usecs (it_value itp)" "0 < tick" "tick < 1000000"
  defines "v \<equiv> usecs (it_value itp)" and "iv \<equiv> usecs (it_interval itp)"
  shows "timer_ok tick (snd (itimerdecr itp tick))" "it_interval (snd (itimerdecr itp tick)) = it_interval itp"
    "fst (itimerdecr itp tick) \<longleftrightarrow> tick < v"
    "usecs (it_value (snd (itimerdecr itp tick))) =
      (if tick < v then v - tick else if iv = 0 then 0 else iv - (tick - v))"
proof -
  let ?u = "tv_usec (it_value itp)" and ?s = "tv_sec (it_value itp)"
  have b: "0 \<le> ?u" "?u < 1000000" "0 \<le> ?s" using assms(1) by (auto simp: timer_ok_def tv_ok_def)
  have vd: "v = ?s * 1000000 + ?u" by (simp add: v_def usecs_def)
  let ?all = "timer_ok tick (snd (itimerdecr itp tick)) \<and> it_interval (snd (itimerdecr itp tick)) = it_interval itp \<and>
    (fst (itimerdecr itp tick) \<longleftrightarrow> tick < v) \<and>
    usecs (it_value (snd (itimerdecr itp tick))) =
      (if tick < v then v - tick else if iv = 0 then 0 else iv - (tick - v))"
  have ?all
  proof (cases "?u < tick \<and> ?s = 0")
    case True
    then have d: "itimerdecr itp tick = (False, itimer_expire itp (tick - ?u))" by (simp add: itimerdecr_def)
    have "0 < ?u" using True assms(2) by (simp add: usecs_def)
    then show ?thesis
      using expire_usecs [OF assms(1), of "tick - ?u"] True b assms(4) vd by (simp add: d iv_def)
  next
    case False
    let ?v = "if ?u < tick then \<lparr>tv_sec = ?s - 1, tv_usec = ?u + 1000000 - tick\<rparr>
      else \<lparr>tv_sec = ?s, tv_usec = ?u - tick\<rparr>"
    let ?itp = "itp\<lparr>it_value := ?v\<rparr>"
    have d: "itimerdecr itp tick =
        (if timerisset ?v then (True, ?itp) else (False, itimer_expire ?itp 0))"
      using False by (simp add: itimerdecr_def Let_def tv_usec_set)
    have ok: "tv_ok ?v" "0 \<le> tv_sec ?v" "usecs ?v = v - tick"
      using False b assms(3,4) vd by (auto simp: tv_ok_def usecs_def)
    then have t: "timer_ok tick ?itp" using assms(1) by (simp add: timer_ok_def)
    have set: "timerisset ?v \<longleftrightarrow> v \<noteq> tick" using timerisset_usecs [OF ok(1)] ok(3) by simp
    have "0 \<le> usecs ?v" using ok(1,2) by (simp add: usecs_def tv_ok_def)
    then have le: "tick \<le> v" using ok(3) by simp
    show ?thesis
    proof (cases "v = tick")
      case True
      have "tv_sec (it_value ?itp) = 0" using set True by (simp add: timerisset_def)
      then show ?thesis using expire_usecs [OF t, of 0] assms(3,4) True set by (simp add: d iv_def)
    next
      case neq: False
      then show ?thesis using set le ok t by (simp add: d)
    qed
  qed
  then show "timer_ok tick (snd (itimerdecr itp tick))" "it_interval (snd (itimerdecr itp tick)) = it_interval itp"
    "fst (itimerdecr itp tick) \<longleftrightarrow> tick < v"
    "usecs (it_value (snd (itimerdecr itp tick))) =
      (if tick < v then v - tick else if iv = 0 then 0 else iv - (tick - v))"
    by blast+
qed

section \<open>Properties\<close>

text \<open>\<open>n\<close> clock ticks of \<open>tick\<close> microseconds on a running timer, as \<open>hardclock\<close> applies them, with the number
  of expirations.\<close>

fun itimer_ticks :: "int \<Rightarrow> nat \<Rightarrow> itimerval \<Rightarrow> nat \<times> itimerval" where
  "itimer_ticks tick 0 itv = (0, itv)"
| "itimer_ticks tick (Suc n) itv =
     (let (alive, itv') = itimerdecr itv tick; (k, itv'') = itimer_ticks tick n itv' in
      (if alive then k else Suc k, itv''))"

lemma itimer_ticks_usecs:
  assumes "0 < tick" "tick < 1000000"
  shows "timer_ok tick itv \<Longrightarrow> 0 < usecs (it_value itv) \<Longrightarrow> usecs (it_interval itv) \<noteq> 0 \<Longrightarrow>
    timer_ok tick (snd (itimer_ticks tick n itv)) \<and> 0 < usecs (it_value (snd (itimer_ticks tick n itv))) \<and>
    usecs (it_value (snd (itimer_ticks tick n itv))) =
      usecs (it_value itv) + int (fst (itimer_ticks tick n itv)) * usecs (it_interval itv) - int n * tick"
proof (induction n arbitrary: itv)
  case 0
  then show ?case by simp
next
  case (Suc n)
  let ?d = "snd (itimerdecr itv tick)"
  note d = itimerdecr_usecs [OF Suc.prems(1,2) assms]
  have "tick \<le> usecs (it_interval itv)" using Suc.prems(1,3) by (simp add: timer_ok_def it_tv_ok_def)
  then have pos: "0 < usecs (it_value ?d)" using d(4) Suc.prems(2,3) by simp
  then have ih: "timer_ok tick (snd (itimer_ticks tick n ?d)) \<and>
     0 < usecs (it_value (snd (itimer_ticks tick n ?d))) \<and>
     usecs (it_value (snd (itimer_ticks tick n ?d))) =
      usecs (it_value ?d) + int (fst (itimer_ticks tick n ?d)) * usecs (it_interval itv) - int n * tick"
    using Suc.IH [of ?d] d(1,2) Suc.prems(3) by simp
  show ?case
    using ih d(3,4) Suc.prems(3) by (simp add: split_beta Let_def algebra_simps)
qed

text \<open>A virtual or profiling timer with an interval does not drift: after \<open>n\<close> ticks in which it expired \<open>k\<close>
  times, the time left is exactly the first value plus \<open>k\<close> intervals minus \<open>n\<close> ticks, it is positive, and the
  timer is in normal form. The overshoot of each expiration is carried into the next interval.\<close>

theorem itimer_no_drift:
  assumes "timer_ok tick itv" "0 < usecs (it_value itv)" "usecs (it_interval itv) \<noteq> 0" "0 < tick" "tick < 1000000"
  shows "let (k, itv') = itimer_ticks tick n itv in
    timer_ok tick itv' \<and> 0 < usecs (it_value itv') \<and>
    usecs (it_value itv') = usecs (it_value itv) + int k * usecs (it_interval itv) - int n * tick"
  using itimer_ticks_usecs [OF assms(4,5,1,2,3), of n] by (simp add: split_beta Let_def)

theorem itimer_no_drift_witness:
  "let (k, itv') = itimer_ticks 10000 5 \<lparr>it_interval = \<lparr>tv_sec = 0, tv_usec = 15000\<rparr>, it_value = \<lparr>tv_sec = 0, tv_usec = 3000\<rparr>\<rparr> in
    timer_ok 10000 itv' \<and> 0 < usecs (it_value itv') \<and>
    usecs (it_value itv') = 3000 + int k * 15000 - int 5 * 10000"
proof -
  let ?itv = "\<lparr>it_interval = \<lparr>tv_sec = 0, tv_usec = 15000\<rparr>, it_value = \<lparr>tv_sec = 0, tv_usec = 3000\<rparr>\<rparr>"
  have "let (k, itv') = itimer_ticks 10000 5 ?itv in
    timer_ok 10000 itv' \<and> 0 < usecs (it_value itv') \<and>
    usecs (it_value itv') = usecs (it_value ?itv) + int k * usecs (it_interval ?itv) - int 5 * 10000"
    by (rule itimer_no_drift) (simp_all add: timer_ok_def it_tv_ok_def tv_ok_def usecs_def)
  moreover have "usecs (it_value ?itv) = 3000" "usecs (it_interval ?itv) = 15000" by (simp_all add: usecs_def)
  ultimately show ?thesis by simp
qed

end
