(* ===== verification/Proc.thy ===== *)
theory Proc
  imports Timeval
begin

text \<open>
  The process structure of \<^verbatim>\<open>include/proc.h\<close>, as far as the scheduling, clock and sleep code reads and writes it,
  and the priority computations of \<^verbatim>\<open>kern/kern_synch.c\<close>: \<open>resetpriority\<close>, the body of \<open>schedcpu\<close> for one process,
  \<open>updatepri\<close>, and the accounting at the start of \<open>mi_switch\<close>.
\<close>

section \<open>The process structure\<close>

datatype pstat = SIDL | SRUN | SSLEEP | SSTOP | SZOMB

text \<open>The bits of \<^verbatim>\<open>p_flag\<close> that the modelled code uses; the word is the set of its bits.\<close>

datatype pflag =
    P_CONTROLT | P_INMEM | P_NOCLDSTOP | P_PPWAIT | P_PROFIL | P_SELECT | P_SINTR | P_SUGID | P_SYSTEM
  | P_TIMEOUT | P_TRACED | P_WAITED | P_WEXIT | P_EXEC | P_OWEUPC

record proc =
  p_stat :: pstat
  p_flag :: "pflag set"
  p_estcpu :: u32
  p_cpticks :: int
  p_pctcpu :: u32
  p_wchan :: "u32 option"
  p_swtime :: u32
  p_slptime :: u32
  p_realtimer :: itimerval
  p_virt :: itimerval
  p_prof :: itimerval
  p_rtime :: timeval
  p_uticks :: nat
  p_sticks :: nat
  p_iticks :: nat
  p_priority :: nat
  p_usrpri :: nat
  p_nice :: int
  p_uid :: nat
  rlim_cpu_cur :: int
  rlim_cpu_max :: int

section \<open>Priorities\<close>

abbreviation PUSER :: nat where "PUSER \<equiv> 50"
abbreviation MAXPRI :: nat where "MAXPRI \<equiv> 127"
abbreviation FSHIFT :: nat where "FSHIFT \<equiv> 11"
abbreviation FSCALE :: u32 where "FSCALE \<equiv> 2048"
abbreviation ccpu :: u32 where "ccpu \<equiv> 1948"

text \<open>The process with its new user priority, and whether \<^verbatim>\<open>need_resched\<close> is called.\<close>

definition resetpriority :: "nat \<Rightarrow> proc \<Rightarrow> proc \<times> bool" where
  [kern_defs]: "resetpriority curpriority p =
     (let newpriority = min (of_nat PUSER + p_estcpu p div 4 + 2 * word_of_int (p_nice p)) (of_nat MAXPRI :: u32) in
      (p\<lparr>p_usrpri := unat newpriority\<rparr>, unat newpriority < curpriority))"

definition loadfactor :: "u32 \<Rightarrow> u32" where
  [kern_defs]: "loadfactor loadav = 2 * loadav"

definition decay_cpu :: "u32 \<Rightarrow> u32 \<Rightarrow> u32" where
  [kern_defs]: "decay_cpu loadfac cpu = (loadfac * cpu) div (loadfac + FSCALE)"

text \<open>
  The body of the loop of \<open>schedcpu\<close> for the process \<open>p\<close>: the process, whether it is to be rescheduled, and whether
  it must change its run queue. \<open>cur\<close> is \<^verbatim>\<open>p == curproc\<close>.
\<close>

definition schedcpu_age :: "proc \<Rightarrow> proc" where
  [kern_defs]: "schedcpu_age p =
     (let p1 = p\<lparr>p_swtime := p_swtime p + 1\<rparr>;
          p2 = (if p_stat p = SSLEEP \<or> p_stat p = SSTOP then p1\<lparr>p_slptime := p_slptime p + 1\<rparr> else p1) in
      p2\<lparr>p_pctcpu := drop_bit FSHIFT (p_pctcpu p * ccpu)\<rparr>)"

definition schedcpu_proc :: "int \<Rightarrow> u32 \<Rightarrow> nat \<Rightarrow> bool \<Rightarrow> proc \<Rightarrow> proc \<times> bool \<times> bool" where
  [kern_defs]: "schedcpu_proc hz loadfac curpriority cur p0 =
     (let p = schedcpu_age p0 in
      if 1 < p_slptime p then (p, False, False)
      else
        let cpt = word_of_int (p_cpticks p) :: u32;
            p1 = p\<lparr>p_pctcpu := p_pctcpu p + (if hz = 100 then cpt else 100 * cpt div word_of_int hz),
                   p_cpticks := 0,
                   p_estcpu := min (decay_cpu loadfac (p_estcpu p) + word_of_int (p_nice p)) 255\<rparr>;
            (p2, resched) = resetpriority curpriority p1 in
        if PUSER \<le> p_priority p2
        then (p2\<lparr>p_priority := p_usrpri p2\<rparr>, resched,
              \<not> cur \<and> p_stat p2 = SRUN \<and> P_INMEM \<in> p_flag p2 \<and> p_priority p2 div 4 \<noteq> p_usrpri p2 div 4)
        else (p2, resched, False))"

lemma unat_minus_1_less: "(s :: u32) \<noteq> 0 \<Longrightarrow> unat (s - 1) < unat s"
  by (metis measure_unat)

text \<open>The loop \<^verbatim>\<open>while (newcpu && --p->p_slptime)\<close> of \<open>updatepri\<close>.\<close>

function updatepri_loop :: "u32 \<Rightarrow> u32 \<Rightarrow> u32 \<Rightarrow> u32 \<times> u32" where
  "updatepri_loop loadfac newcpu slptime =
     (if newcpu = 0 then (newcpu, slptime)
      else if slptime - 1 = 0 then (newcpu, 0)
      else updatepri_loop loadfac (decay_cpu loadfac newcpu) (slptime - 1))"
  by pat_completeness auto

termination
proof (relation "measure (\<lambda>(l, c, s). unat (s - 1))", goal_cases)
  case (2 loadfac newcpu slptime)
  then show ?case using unat_minus_1_less [of "slptime - 1"] by simp
qed simp

declare updatepri_loop.simps [simp del]

definition updatepri :: "u32 \<Rightarrow> nat \<Rightarrow> proc \<Rightarrow> proc \<times> bool" where
  [kern_defs]: "updatepri loadfac curpriority p =
     resetpriority curpriority
       (if 5 * loadfac < p_slptime p then p\<lparr>p_estcpu := 0\<rparr>
        else (case updatepri_loop loadfac (p_estcpu p) (p_slptime p - 1) of
            (c, s) \<Rightarrow> p\<lparr>p_slptime := s, p_estcpu := min c 255\<rparr>))"

text \<open>
  The accounting of \<open>mi_switch\<close> in two parts: the run time since \<open>runtime\<close> and the test of the limit on CPU time, which tells the signal
  that is sent; and, after that signal, the new limit and the penalty for processes that ran for more than ten minutes.
\<close>

datatype xcpu = No_sig | Sig_kill | Sig_xcpu

definition mi_switch_time :: "timeval \<Rightarrow> timeval \<Rightarrow> proc \<Rightarrow> proc \<times> xcpu" where
  [kern_defs]: "mi_switch_time tv runtime p =
     (let u = tv_usec (p_rtime p) + (tv_usec tv - tv_usec runtime);
          s = tv_sec (p_rtime p) + (tv_sec tv - tv_sec runtime);
          (s, u) = (if u < 0 then (s - 1, u + 1000000) else if 1000000 \<le> u then (s + 1, u - 1000000) else (s, u)) in
      (p\<lparr>p_rtime := \<lparr>tv_sec = s, tv_usec = u\<rparr>\<rparr>,
       if rlim_cpu_cur p \<le> s then if rlim_cpu_max p \<le> s then Sig_kill else Sig_xcpu else No_sig))"

definition mi_switch_limit :: "nat \<Rightarrow> xcpu \<Rightarrow> proc \<Rightarrow> proc \<times> bool" where
  [kern_defs]: "mi_switch_limit curpriority sig p =
     (let p1 = (if sig = Sig_xcpu \<and> rlim_cpu_cur p < rlim_cpu_max p then p\<lparr>rlim_cpu_cur := rlim_cpu_cur p + 5\<rparr> else p) in
      if 10 * 60 < tv_sec (p_rtime p1) \<and> p_uid p1 \<noteq> 0 \<and> p_nice p1 = 0 then resetpriority curpriority (p1\<lparr>p_nice := 4\<rparr>) else (p1, False))"

section \<open>What the computations give\<close>

lemma word_div_int: "(a :: u32) div 4 = word_of_int (uint a div 4)"
  by (simp add: word_div_def)

lemma uint_bounds32: "0 \<le> uint (a :: u32)" "uint (a :: u32) < 4294967296"
  using uint_lt2p [of a] by simp_all

lemma resetpriority_exact:
  assumes "- 20 \<le> p_nice p" "p_nice p \<le> 20"
  shows "int (p_usrpri (fst (resetpriority c p))) = min 127 (50 + uint (p_estcpu p) div 4 + 2 * p_nice p)"
proof -
  let ?X = "50 + uint (p_estcpu p) div 4 + 2 * p_nice p"
  have b: "0 \<le> uint (p_estcpu p) div 4" "uint (p_estcpu p) div 4 < 1073741824"
    using uint_bounds32 [of "p_estcpu p"] by (auto intro: pos_imp_zdiv_nonneg_iff [THEN iffD2])
  have w: "of_nat PUSER + p_estcpu p div 4 + 2 * word_of_int (p_nice p) = (word_of_int ?X :: u32)"
    by (simp add: word_div_int)
  have u: "uint (word_of_int ?X :: u32) = ?X"
    using b assms by (subst uint_word_of_int) simp
  have "uint (min W (of_nat MAXPRI :: u32)) = min ?X 127" if "uint W = ?X" for W
    using that by (simp add: min_def word_le_def)
  then have "uint (min (word_of_int ?X) (of_nat MAXPRI :: u32)) = min 127 ?X" using u by (metis min.commute)
  then show ?thesis unfolding resetpriority_def Let_def w by simp
qed

lemma resetpriority_bound: "p_usrpri (fst (resetpriority c p)) \<le> MAXPRI"
proof -
  have "min x (of_nat MAXPRI :: u32) \<le> of_nat MAXPRI" for x by simp
  then have "unat (min x (of_nat MAXPRI :: u32)) \<le> MAXPRI" for x
    using word_le_nat_alt [of "min x (of_nat MAXPRI)" "of_nat MAXPRI"] by simp
  then show ?thesis by (simp add: resetpriority_def Let_def)
qed

lemma resetpriority_only: "fst (resetpriority c p) = p\<lparr>p_usrpri := p_usrpri (fst (resetpriority c p))\<rparr>"
  by (simp add: resetpriority_def Let_def)

text \<open>Below a load average of 2048 the decay of an estimate up to 255 does not overflow.\<close>

lemma decay_exact:
  assumes "unat lf < 8388608" "unat c \<le> 255"
  shows "unat (decay_cpu lf c) = unat lf * unat c div (unat lf + 2048)"
proof -
  have "unat lf * unat c \<le> 8388608 * 255" using assms by (intro mult_mono) simp_all
  then have "unat (lf * c) = unat lf * unat c" by (simp add: unat_word_ariths)
  moreover have "unat (lf + 2048) = unat lf + 2048" using assms(1) by (simp add: unat_word_ariths)
  ultimately show ?thesis by (simp add: decay_cpu_def unat_div)
qed

lemma decay_le:
  assumes "unat lf < 8388608" "unat c \<le> 255"
  shows "unat (decay_cpu lf c) \<le> unat c" "0 < unat c \<Longrightarrow> unat (decay_cpu lf c) < unat c"
proof -
  have "unat lf * unat c \<le> unat c * (unat lf + 2048)" by (simp add: algebra_simps)
  then show "unat (decay_cpu lf c) \<le> unat c"
    unfolding decay_exact [OF assms] by (metis div_le_mono nonzero_mult_div_cancel_right add_is_0 zero_neq_numeral)
  assume "0 < unat c"
  then have "unat lf * unat c < unat c * (unat lf + 2048)" by (simp add: algebra_simps)
  then show "unat (decay_cpu lf c) < unat c" unfolding decay_exact [OF assms]
    by (simp add: div_less_iff_less_mult)
qed

lemma updatepri_loop_iter:
  "slptime \<noteq> 0 \<Longrightarrow> fst (updatepri_loop lf c slptime) = (decay_cpu lf ^^ (unat slptime - 1)) c"
proof (induction lf c slptime rule: updatepri_loop.induct)
  case (1 lf c slptime)
  have zero: "(decay_cpu lf ^^ n) 0 = 0" for n by (induction n) (simp_all add: decay_cpu_def)
  consider "c = 0" | "c \<noteq> 0" "slptime = 1" | "c \<noteq> 0" "slptime - 1 \<noteq> 0" by fastforce
  then show ?case
  proof cases
    case 1
    then show ?thesis by (subst updatepri_loop.simps) (simp add: zero)
  next
    case 2
    then show ?thesis by (subst updatepri_loop.simps) simp
  next
    case 3
    have "unat (slptime - 1) = unat slptime - 1" using 1(2) by (simp add: unat_minus_one)
    moreover have "unat (slptime - 1) \<noteq> 0" using 3(2) by (simp add: unat_eq_0)
    ultimately have "unat slptime - 1 = Suc (unat (slptime - 1) - 1)" by simp
    then show ?thesis
      using 1(1) [OF 3] 3 by (simp add: updatepri_loop.simps [of lf c slptime] funpow_swap1)
  qed
qed

section \<open>Properties\<close>

definition proc_v :: proc where
  "proc_v = \<lparr>p_stat = SRUN, p_flag = {P_INMEM}, p_estcpu = 0, p_cpticks = 0, p_pctcpu = 0, p_wchan = None,
     p_swtime = 0, p_slptime = 0,
     p_realtimer = \<lparr>it_interval = timerclear, it_value = timerclear\<rparr>,
     p_virt = \<lparr>it_interval = timerclear, it_value = timerclear\<rparr>,
     p_prof = \<lparr>it_interval = timerclear, it_value = timerclear\<rparr>,
     p_rtime = timerclear, p_uticks = 0, p_sticks = 0, p_iticks = 0, p_priority = 50, p_usrpri = 50, p_nice = 0,
     p_uid = 0, rlim_cpu_cur = 0x7fffffff, rlim_cpu_max = 0x7fffffff\<rparr>"

text \<open>\<open>updatepri\<close> always ends and charges a process for its sleep: after \<open>n \<ge> 2\<close> seconds asleep its CPU estimate
  is that after \<open>n - 2\<close> further decays (the first was done by \<open>schedcpu\<close>), cut at 255, or 0 after a very long
  sleep, and its user priority is the one \<open>resetpriority\<close> computes from it.\<close>

theorem updatepri_decays:
  assumes "2 \<le> unat (p_slptime p)"
  shows "\<exists>p'. fst (updatepri lf c p) = fst (resetpriority c p') \<and>
    p_estcpu p' = (if 5 * lf < p_slptime p then 0
                   else min ((decay_cpu lf ^^ (unat (p_slptime p) - 2)) (p_estcpu p)) 255) \<and>
    p_nice p' = p_nice p"
proof -
  have nz: "p_slptime p \<noteq> 0" using assms by auto
  then have u: "unat (p_slptime p - 1) = unat (p_slptime p) - 1" by (simp add: unat_minus_one)
  then have "p_slptime p - 1 \<noteq> 0" using assms by (auto simp: unat_eq_0 [symmetric])
  from updatepri_loop_iter [OF this, of lf "p_estcpu p"] u
  have l: "fst (updatepri_loop lf (p_estcpu p) (p_slptime p - 1)) =
      (decay_cpu lf ^^ (unat (p_slptime p) - 2)) (p_estcpu p)" by (simp add: numeral_2_eq_2)
  show ?thesis
  proof (cases "5 * lf < p_slptime p")
    case True
    then show ?thesis by (intro exI [of _ "p\<lparr>p_estcpu := 0\<rparr>"]) (simp add: updatepri_def)
  next
    case False
    obtain e t where et: "updatepri_loop lf (p_estcpu p) (p_slptime p - 1) = (e, t)" by fastforce
    with l False show ?thesis
      by (intro exI [of _ "p\<lparr>p_slptime := t, p_estcpu := min e 255\<rparr>"]) (simp add: updatepri_def)
  qed
qed

theorem updatepri_decays_witness:
  "\<exists>p'. fst (updatepri 4096 127 (proc_v\<lparr>p_slptime := 4, p_estcpu := 90\<rparr>)) = fst (resetpriority 127 p') \<and>
     p_estcpu p' = 40 \<and> p_nice p' = 0"
proof -
  have "(f ^^ 2) x = f (f x)" for f :: "u32 \<Rightarrow> u32" and x by (simp add: numeral_2_eq_2)
  then have "(decay_cpu 4096 ^^ 2) 90 = 40" by (simp add: decay_cpu_def)
  then show ?thesis
    using updatepri_decays [of "proc_v\<lparr>p_slptime := 4, p_estcpu := 90\<rparr>" 4096 127]
    by (simp add: proc_v_def)
qed

text \<open>The priorities stay in range: whatever the estimate and the nice value, \<open>resetpriority\<close> and \<open>schedcpu\<close> leave
  a user priority of at most \<^verbatim>\<open>MAXPRI\<close>, and \<open>schedcpu\<close> an estimate of at most 255 for a process it recomputes.\<close>

theorem priorities_bounded:
  "p_usrpri (fst (resetpriority c p)) \<le> 127 \<and>
   (let (p', r, q) = schedcpu_proc hz lf c cur p in
      1 < p_slptime (schedcpu_age p) \<or>
      (p_usrpri p' \<le> 127 \<and> unat (p_estcpu p') \<le> 255 \<and> p_cpticks p' = 0 \<and>
       p_priority p' = (if 50 \<le> p_priority p then p_usrpri p' else p_priority p)))"
proof -
  let ?p = "schedcpu_age p"
  have age: "p_priority ?p = p_priority p" by (simp add: schedcpu_age_def Let_def)
  have e: "unat (min x 255 :: u32) \<le> 255" for x
    using word_le_nat_alt [of "min x 255" 255] by simp
  obtain p1 where r: "p_estcpu p1 = min (decay_cpu lf (p_estcpu ?p) + word_of_int (p_nice ?p)) 255"
    "p_cpticks p1 = 0" "p_priority p1 = p_priority p"
    "1 < p_slptime ?p \<or> schedcpu_proc hz lf c cur p =
      (if PUSER \<le> p_priority (fst (resetpriority c p1))
       then ((fst (resetpriority c p1))\<lparr>p_priority := p_usrpri (fst (resetpriority c p1))\<rparr>,
             snd (resetpriority c p1), \<not> cur \<and> p_stat (fst (resetpriority c p1)) = SRUN \<and>
               P_INMEM \<in> p_flag (fst (resetpriority c p1)) \<and>
               p_priority (fst (resetpriority c p1)) div 4 \<noteq> p_usrpri (fst (resetpriority c p1)) div 4)
       else (fst (resetpriority c p1), snd (resetpriority c p1), False))"
  proof (rule that)
    let ?q = "?p\<lparr>p_pctcpu := p_pctcpu ?p + (if hz = 100 then word_of_int (p_cpticks ?p)
          else 100 * word_of_int (p_cpticks ?p) div word_of_int hz),
        p_cpticks := 0, p_estcpu := min (decay_cpu lf (p_estcpu ?p) + word_of_int (p_nice ?p)) 255\<rparr>"
    show "p_estcpu ?q = min (decay_cpu lf (p_estcpu ?p) + word_of_int (p_nice ?p)) 255"
      "p_cpticks ?q = 0" "p_priority ?q = p_priority p" by (simp_all add: age)
    show "1 < p_slptime ?p \<or> schedcpu_proc hz lf c cur p =
      (if PUSER \<le> p_priority (fst (resetpriority c ?q))
       then ((fst (resetpriority c ?q))\<lparr>p_priority := p_usrpri (fst (resetpriority c ?q))\<rparr>,
             snd (resetpriority c ?q), \<not> cur \<and> p_stat (fst (resetpriority c ?q)) = SRUN \<and>
               P_INMEM \<in> p_flag (fst (resetpriority c ?q)) \<and>
               p_priority (fst (resetpriority c ?q)) div 4 \<noteq> p_usrpri (fst (resetpriority c ?q)) div 4)
       else (fst (resetpriority c ?q), snd (resetpriority c ?q), False))"
      by (simp add: schedcpu_proc_def Let_def split_beta)
  qed
  have o: "p_estcpu (fst (resetpriority c p1)) = p_estcpu p1" "p_cpticks (fst (resetpriority c p1)) = 0"
    "p_priority (fst (resetpriority c p1)) = p_priority p"
    using r by (simp_all add: resetpriority_def Let_def)
  show ?thesis
    using resetpriority_bound [of c p] resetpriority_bound [of c p1] r(4) o e r(1)
    by (auto simp: split_beta Let_def)
qed

text \<open>\<open>schedcpu\<close> adds the nice value to the decayed estimate in unsigned arithmetic. For an idle process with a
  negative nice value the sum wraps and the estimate becomes the maximum 255, so that raising the priority of a
  process (nice -20) gives it a worse user priority than an ordinary one.\<close>

theorem negative_nice_penalised:
  "let favoured = fst (schedcpu_proc 100 0 127 False (proc_v\<lparr>p_nice := - 20\<rparr>));
       ordinary = fst (schedcpu_proc 100 0 127 False proc_v) in
   p_estcpu favoured = 255 \<and> p_usrpri favoured = 73 \<and> p_estcpu ordinary = 0 \<and> p_usrpri ordinary = 50"
  by (simp add: schedcpu_proc_def schedcpu_age_def proc_v_def decay_cpu_def resetpriority_def Let_def)

end
