(* ===== verification/Clock.thy ===== *)
theory Clock
  imports Proc
begin

text \<open>
  The clock of \<^verbatim>\<open>kern/kern_clock.c\<close>: the callout queue (\<open>timeout\<close>, \<open>untimeout\<close>, the queue part of \<open>hardclock\<close>,
  \<open>softclock\<close>), the advance of the time of day with its slow correction, the statistics clock and its divider for
  profiling, and the conversion \<open>hzto\<close>. The queue keeps differences of times; the theorems read it as a set of
  events with the number of ticks until each is due.
\<close>

section \<open>The contract of a calendar\<close>

text \<open>
  What the users of \<open>timeout\<close> rely on: an event is entered with its delay, and every tick brings all events
  one nearer. Then an event is due after exactly its delay.
\<close>

locale calendar =
  fixes inv :: "'s \<Rightarrow> bool" and events :: "'s \<Rightarrow> ('k \<times> int) multiset"
    and add :: "'k \<Rightarrow> int \<Rightarrow> 's \<Rightarrow> 's" and tick :: "'s \<Rightarrow> 's"
  assumes add_event: "inv s \<Longrightarrow> inv (add x n s) \<and> events (add x n s) = add_mset (x, max 1 n) (events s)"
    and tick_events: "inv s \<Longrightarrow> inv (tick s) \<and> events (tick s) = image_mset (\<lambda>(x, d). (x, d - 1)) (events s)"
begin

lemma ticks_events:
  "inv s \<Longrightarrow> inv ((tick ^^ m) s) \<and> events ((tick ^^ m) s) = image_mset (\<lambda>(x, d). (x, d - int m)) (events s)"
proof (induction m)
  case (Suc m)
  then show ?case using tick_events [of "(tick ^^ m) s"]
    by (simp add: multiset.map_comp o_def split_beta algebra_simps)
qed (simp add: split_def)

lemma due_after_delay:
  assumes "inv s" "1 \<le> n"
  shows "events ((tick ^^ m) (add x n s)) =
    add_mset (x, n - int m) (events ((tick ^^ m) s))"
  using add_event [OF assms(1), of x n] ticks_events [OF assms(1), of m] ticks_events [of "add x n s" m] assms
  by (simp add: max_def)

end

section \<open>The callout queue\<close>

text \<open>
  \<open>c_addr\<close> is the address of the structure; functions and arguments are numbers. \<^verbatim>\<open>calltodo\<close> and \<^verbatim>\<open>callfree\<close> are the
  two chains of \<^verbatim>\<open>c_next\<close> pointers. Times stay far inside 32 bits: they are only decremented, and added up below
  the time of the last event.
\<close>

record callout =
  c_addr :: nat
  c_func :: nat
  c_arg :: nat
  c_time :: int

record callq =
  calltodo :: "callout list"
  callfree :: "nat list"

text \<open>The loop at the start of \<open>hardclock\<close>: the value of \<^verbatim>\<open>needsoft\<close> and the queue.\<close>

fun hardclock_queue :: "callout list \<Rightarrow> bool \<times> callout list" where
  "hardclock_queue [] = (False, [])"
| "hardclock_queue (c # cs) =
     (let t = c_time c - 1; c' = c\<lparr>c_time := t\<rparr> in
      if 0 < t then (False, c' # cs)
      else if t = 0 then (True, c' # cs)
      else (True, c' # snd (hardclock_queue cs)))"

fun timeout_insert :: "callout \<Rightarrow> int \<Rightarrow> callout list \<Rightarrow> callout list" where
  "timeout_insert new ticks [] = [new\<lparr>c_time := ticks\<rparr>]"
| "timeout_insert new ticks (t # ts) =
     (if c_time t < ticks
      then t # timeout_insert new (if 0 < c_time t then ticks - c_time t else ticks) ts
      else new\<lparr>c_time := ticks\<rparr> # t\<lparr>c_time := c_time t - ticks\<rparr> # ts)"

text \<open>\<open>None\<close> is the panic \<^verbatim>\<open>timeout table full\<close>.\<close>

definition timeout :: "nat \<Rightarrow> nat \<Rightarrow> int \<Rightarrow> callq \<Rightarrow> callq option" where
  [kern_defs]: "timeout ftn arg ticks q =
     (case callfree q of
        [] \<Rightarrow> None
      | a # rest \<Rightarrow> Some \<lparr>calltodo = timeout_insert \<lparr>c_addr = a, c_func = ftn, c_arg = arg, c_time = 0\<rparr>
                                    (if ticks \<le> 0 then 1 else ticks) (calltodo q),
                         callfree = rest\<rparr>)"

fun untimeout_list :: "nat \<Rightarrow> nat \<Rightarrow> callout list \<Rightarrow> nat option \<times> callout list" where
  "untimeout_list ftn arg [] = (None, [])"
| "untimeout_list ftn arg (t # ts) =
     (if c_func t = ftn \<and> c_arg t = arg
      then (Some (c_addr t),
            (case ts of [] \<Rightarrow> []
             | n # ns \<Rightarrow> (if 0 < c_time t then n\<lparr>c_time := c_time n + c_time t\<rparr> else n) # ns))
      else (case untimeout_list ftn arg ts of (a, ts') \<Rightarrow> (a, t # ts')))"

definition untimeout :: "nat \<Rightarrow> nat \<Rightarrow> callq \<Rightarrow> callq" where
  [kern_defs]: "untimeout ftn arg q =
     (case untimeout_list ftn arg (calltodo q) of
        (None, cs) \<Rightarrow> q
      | (Some a, cs) \<Rightarrow> \<lparr>calltodo = cs, callfree = a # callfree q\<rparr>)"

text \<open>
  \<open>softclock\<close>. What a function does to the queue when it is called is a parameter: a list of calls of \<open>timeout\<close>
  and \<open>untimeout\<close>. The result is the sequence of functions called and the queue; \<open>None\<close> when a function
  overflows the table or the fuel, one unit per call, is used up.
\<close>

datatype callop = Set nat nat int | Unset nat nat

fun callops :: "callop list \<Rightarrow> callq \<Rightarrow> callq option" where
  "callops [] q = Some q"
| "callops (Set f a n # ops) q = Option.bind (timeout f a n q) (callops ops)"
| "callops (Unset f a # ops) q = callops ops (untimeout f a q)"

fun softclock :: "nat \<Rightarrow> (nat \<Rightarrow> nat \<Rightarrow> callop list) \<Rightarrow> callq \<Rightarrow> ((nat \<times> nat) list \<times> callq) option" where
  "softclock fuel handler q =
     (case calltodo q of
        [] \<Rightarrow> Some ([], q)
      | c # cs \<Rightarrow>
          if 0 < c_time c then Some ([], q)
          else (case fuel of
              0 \<Rightarrow> None
            | Suc n \<Rightarrow>
                (case callops (handler (c_func c) (c_arg c)) \<lparr>calltodo = cs, callfree = c_addr c # callfree q\<rparr> of
                   None \<Rightarrow> None
                 | Some q' \<Rightarrow> map_option (apfst ((#) (c_func c, c_arg c))) (softclock n handler q'))))"

section \<open>The queue as a set of events\<close>

abbreviation overdue :: "callout list \<Rightarrow> callout list" where
  "overdue \<equiv> takeWhile (\<lambda>c. c_time c \<le> 0)"

abbreviation nonneg :: "callout list \<Rightarrow> bool" where
  "nonneg \<equiv> list_all (\<lambda>c. 0 \<le> c_time c)"

fun sums :: "int \<Rightarrow> callout list \<Rightarrow> int list" where
  "sums acc [] = []"
| "sums acc (c # cs) = (acc + c_time c) # sums (acc + c_time c) cs"

text \<open>
  Ticks until each event is due. At the front are the events that wait for \<open>softclock\<close>: their times are 0 or
  less and count from the moment they fell due. The others are differences.
\<close>

fun dues :: "callout list \<Rightarrow> int list" where
  "dues [] = []"
| "dues (c # cs) = (if c_time c \<le> 0 then c_time c # dues cs else sums 0 (c # cs))"

definition keys :: "callout list \<Rightarrow> (nat \<times> nat) list" where
  "keys cs = map (\<lambda>c. (c_func c, c_arg c)) cs"

definition entries :: "callout list \<Rightarrow> ((nat \<times> nat) \<times> int) list" where
  "entries cs = zip (keys cs) (dues cs)"

fun cq_ok :: "callout list \<Rightarrow> bool" where
  "cq_ok [] = True"
| "cq_ok (c # cs) = (if c_time c \<le> 0 then cq_ok cs else nonneg cs)"

lemma keys_simps [simp]: "keys [] = []" "keys (c # cs) = (c_func c, c_arg c) # keys cs"
  "length (keys cs) = length cs"
  by (simp_all add: keys_def)

lemma length_sums [simp]: "length (sums acc cs) = length cs"
  by (induction cs arbitrary: acc) simp_all

lemma length_dues [simp]: "length (dues cs) = length cs"
  by (induction cs) simp_all

lemma sums_shift: "sums (acc + d) cs = map (\<lambda>x. x + d) (sums acc cs)"
proof (induction cs arbitrary: acc)
  case (Cons c cs)
  then show ?case using Cons [of "acc + c_time c"] by (simp add: algebra_simps)
qed simp

lemma dues_nonneg: "nonneg cs \<Longrightarrow> dues cs = sums 0 cs"
  by (induction cs) auto

lemma nonneg_ok: "nonneg cs \<Longrightarrow> cq_ok cs"
  by (induction cs) auto

text \<open>A tick brings every event one nearer, and tells whether one is due.\<close>

lemma hardclock_dues:
  "cq_ok cs \<Longrightarrow> cq_ok (snd (hardclock_queue cs)) \<and> keys (snd (hardclock_queue cs)) = keys cs \<and>
     map c_addr (snd (hardclock_queue cs)) = map c_addr cs \<and>
     dues (snd (hardclock_queue cs)) = map (\<lambda>d. d - 1) (dues cs)"
proof (induction cs)
  case (Cons c cs)
  consider "c_time c \<le> 0" | "c_time c = 1" | "1 < c_time c" by linarith
  then show ?case
  proof cases
    case 2
    then have "nonneg cs" using Cons.prems by simp
    then show ?thesis using 2 sums_shift [of 1 "- 1" cs] by (simp add: dues_nonneg nonneg_ok)
  next
    case 3
    then show ?thesis using Cons.prems sums_shift [of "c_time c" "- 1" cs] by simp
  qed (use Cons in \<open>simp add: Let_def\<close>)
qed simp

lemma hardclock_needsoft: "fst (hardclock_queue cs) \<longleftrightarrow> overdue (snd (hardclock_queue cs)) \<noteq> []"
  by (cases cs) (auto simp: Let_def)

text \<open>An insertion enters one event and moves no other; equal times come in the order of insertion reversed.\<close>

definition inserts :: "((nat \<times> nat) \<times> int) list \<Rightarrow> (nat \<times> nat) \<times> int \<Rightarrow> ((nat \<times> nat) \<times> int) list \<Rightarrow> bool" where
  "inserts xs e ys \<longleftrightarrow> (\<exists>us vs. xs = us @ vs \<and> ys = us @ e # vs \<and>
     (\<forall>x\<in>set us. snd x < snd e) \<and> (\<forall>x\<in>set vs. snd e \<le> snd x))"

lemma insertsI_here: "\<forall>x\<in>set xs. snd e \<le> snd x \<Longrightarrow> inserts xs e (e # xs)"
  unfolding inserts_def by (intro exI [of _ "[]"] exI [of _ xs]) simp

lemma inserts_Cons: "inserts xs e ys \<Longrightarrow> snd x < snd e \<Longrightarrow> inserts (x # xs) e (x # ys)"
  unfolding inserts_def by (elim exE conjE) (rule_tac x = "x # us" in exI, auto)

lemma sums_ge: "nonneg cs \<Longrightarrow> x \<in> set (sums acc cs) \<Longrightarrow> acc \<le> x"
  by (induction cs arbitrary: acc) fastforce+

lemma zip_sums_ge: "nonneg cs \<Longrightarrow> x \<in> set (zip ks (sums acc cs)) \<Longrightarrow> acc \<le> snd x"
  by (metis prod.collapse set_zip_rightD sums_ge)

lemma insert_sums:
  "nonneg cs \<Longrightarrow> 0 < ticks \<Longrightarrow>
     nonneg (timeout_insert new ticks cs) \<and>
     inserts (zip (keys cs) (sums acc cs)) ((c_func new, c_arg new), acc + ticks)
       (zip (keys (timeout_insert new ticks cs)) (sums acc (timeout_insert new ticks cs)))"
proof (induction cs arbitrary: acc ticks)
  case Nil
  then show ?case by (simp add: insertsI_here)
next
  case (Cons t ts)
  show ?case
  proof (cases "c_time t < ticks")
    case True
    let ?n = "if 0 < c_time t then ticks - c_time t else ticks"
    have n: "0 < ?n" "acc + c_time t + ?n = acc + ticks" using True Cons.prems by auto
    show ?thesis
      using Cons.IH [of ?n "acc + c_time t"] Cons.prems True n
      by (auto intro!: inserts_Cons simp del: if_split)
  next
    case False
    have "acc + ticks \<le> snd x" if "x \<in> set (zip (keys ts) (sums (acc + c_time t) ts))" for x
      using zip_sums_ge [OF _ that] Cons.prems False by auto
    then show ?thesis using Cons.prems False by (auto intro!: insertsI_here)
  qed
qed

lemma insert_addr: "mset (map c_addr (timeout_insert new ticks cs)) = add_mset (c_addr new) (mset (map c_addr cs))"
  by (induction new ticks cs rule: timeout_insert.induct) auto

lemma insert_overdue: "0 < ticks \<Longrightarrow> overdue (timeout_insert new ticks cs) = overdue cs"
  by (induction new ticks cs rule: timeout_insert.induct) auto

lemma insert_dues:
  "cq_ok cs \<Longrightarrow> 0 < ticks \<Longrightarrow>
     cq_ok (timeout_insert new ticks cs) \<and>
     inserts (entries cs) ((c_func new, c_arg new), ticks) (entries (timeout_insert new ticks cs))"
proof (induction cs)
  case Nil
  then show ?case by (simp add: entries_def insertsI_here)
next
  case (Cons t ts)
  show ?case
  proof (cases "c_time t \<le> 0")
    case True
    then show ?thesis using Cons by (auto simp: entries_def intro: inserts_Cons)
  next
    case False
    then have nn: "nonneg (t # ts)" using Cons.prems by simp
    from insert_sums [OF nn Cons.prems(2), of new 0] show ?thesis
      by (simp only: entries_def dues_nonneg [OF nn] dues_nonneg nonneg_ok add_0)
  qed
qed

fun del_key :: "nat \<times> nat \<Rightarrow> ((nat \<times> nat) \<times> int) list \<Rightarrow> ((nat \<times> nat) \<times> int) list" where
  "del_key x [] = []"
| "del_key x (e # es) = (if fst e = x then es else e # del_key x es)"

lemma untimeout_sums:
  "nonneg cs \<Longrightarrow> untimeout_list ftn arg cs = (a, cs') \<Longrightarrow>
     nonneg cs' \<and> zip (keys cs') (sums acc cs') = del_key (ftn, arg) (zip (keys cs) (sums acc cs))"
proof (induction cs arbitrary: acc cs')
  case (Cons t ts)
  show ?case
  proof (cases "c_func t = ftn \<and> c_arg t = arg")
    case True
    then show ?thesis using Cons.prems by (auto simp: algebra_simps split: list.splits)
  next
    case False
    then show ?thesis using Cons.prems Cons.IH [of _ "acc + c_time t"]
      by (auto split: prod.splits)
  qed
qed simp

lemma untimeout_match:
  "untimeout_list ftn arg (t # ts) = (a, cs') \<Longrightarrow> c_func t = ftn \<and> c_arg t = arg \<Longrightarrow>
     a = Some (c_addr t) \<and> map c_addr cs' = map c_addr ts \<and> (c_time t \<le> 0 \<longrightarrow> cs' = ts)"
  by (cases ts) auto

lemma untimeout_pass:
  assumes "untimeout_list ftn arg (t # ts) = (a, cs')" "\<not> (c_func t = ftn \<and> c_arg t = arg)"
  obtains ts' where "untimeout_list ftn arg ts = (a, ts')" "cs' = t # ts'"
  using assms by (auto split: prod.splits)

lemma untimeout_dues:
  "cq_ok cs \<Longrightarrow> untimeout_list ftn arg cs = (a, cs') \<Longrightarrow>
     cq_ok cs' \<and> entries cs' = del_key (ftn, arg) (entries cs)"
proof (induction cs arbitrary: cs')
  case (Cons t ts)
  show ?case
  proof (cases "c_time t \<le> 0")
    case True
    show ?thesis
    proof (cases "c_func t = ftn \<and> c_arg t = arg")
      case match: True
      then have "cs' = ts" using untimeout_match [OF Cons.prems(2)] True by blast
      then show ?thesis using match True Cons.prems(1) by (simp add: entries_def)
    next
      case no: False
      from untimeout_pass [OF Cons.prems(2) no] obtain ts' where
        u: "untimeout_list ftn arg ts = (a, ts')" "cs' = t # ts'" .
      have "cq_ok ts" using Cons.prems(1) True by simp
      from Cons.IH [OF this u(1)] show ?thesis using no True by (auto simp: u(2) entries_def)
    qed
  next
    case False
    then have nn: "nonneg (t # ts)" using Cons.prems by simp
    from untimeout_sums [OF nn Cons.prems(2), of 0] show ?thesis
      by (simp only: entries_def dues_nonneg [OF nn] dues_nonneg nonneg_ok)
  qed
qed (simp add: entries_def)

lemma untimeout_addr:
  "untimeout_list ftn arg cs = (a, cs') \<Longrightarrow>
     mset (map c_addr cs) = mset (map c_addr cs') + (case a of None \<Rightarrow> {#} | Some x \<Rightarrow> {#x#}) \<and>
     (a = None \<longrightarrow> cs' = cs)"
proof (induction cs arbitrary: cs')
  case (Cons t ts)
  show ?case
  proof (cases "c_func t = ftn \<and> c_arg t = arg")
    case True
    then show ?thesis using untimeout_match [OF Cons.prems True]
      by (metis add_mset_add_single list.simps(9) mset.simps(2) option.distinct(1) option.simps(5))
  next
    case False
    from untimeout_pass [OF Cons.prems False] obtain ts' where
      "untimeout_list ftn arg ts = (a, ts')" "cs' = t # ts'" .
    then show ?thesis using Cons.IH by simp
  qed
qed simp

section \<open>Operations on the whole queue\<close>

text \<open>All callout structures are on exactly one of the two chains.\<close>

definition all_addrs :: "callq \<Rightarrow> nat multiset" where
  "all_addrs q = mset (map c_addr (calltodo q)) + mset (callfree q)"

definition callq_ok :: "callq \<Rightarrow> bool" where
  "callq_ok q \<longleftrightarrow> cq_ok (calltodo q) \<and> distinct (map c_addr (calltodo q) @ callfree q)"

lemma callq_ok_addrs: "callq_ok q \<longleftrightarrow> cq_ok (calltodo q) \<and> (\<forall>a. count (all_addrs q) a \<le> 1)"
proof -
  have "distinct xs \<longleftrightarrow> (\<forall>a. count (mset xs) a \<le> 1)" for xs :: "nat list"
    by (simp add: distinct_count_atmost_1) (metis One_nat_def count_mset_0_iff le_0_eq le_SucE nat_le_linear)
  then show ?thesis unfolding callq_ok_def all_addrs_def
    by (metis mset_append)
qed

lemma timeout_events:
  assumes "cq_ok (calltodo q)" "timeout ftn arg n q = Some q'"
  shows "cq_ok (calltodo q')" "inserts (entries (calltodo q)) ((ftn, arg), max 1 n) (entries (calltodo q'))"
    "all_addrs q' = all_addrs q" "overdue (calltodo q') = overdue (calltodo q)"
proof -
  obtain a rest where f: "callfree q = a # rest" using assms(2) by (auto simp: timeout_def split: list.splits)
  let ?t = "if n \<le> 0 then 1 else n"
  let ?c = "\<lparr>c_addr = a, c_func = ftn, c_arg = arg, c_time = 0\<rparr>"
  have q': "q' = \<lparr>calltodo = timeout_insert ?c ?t (calltodo q), callfree = rest\<rparr>"
    using assms(2) f by (simp add: timeout_def)
  have t: "0 < ?t" "?t = max 1 n" by auto
  note d = insert_dues [OF assms(1) t(1), of ?c]
  show "cq_ok (calltodo q')" using d by (simp add: q')
  show "inserts (entries (calltodo q)) ((ftn, arg), max 1 n) (entries (calltodo q'))"
    using d unfolding t(2) [symmetric] by (simp add: q')
  show "all_addrs q' = all_addrs q" using f by (simp add: q' all_addrs_def insert_addr del: mset_map)
  show "overdue (calltodo q') = overdue (calltodo q)" using insert_overdue [OF t(1)] by (simp add: q')
qed

lemma untimeout_events:
  assumes "cq_ok (calltodo q)"
  shows "cq_ok (calltodo (untimeout ftn arg q))"
    "entries (calltodo (untimeout ftn arg q)) = del_key (ftn, arg) (entries (calltodo q))"
    "all_addrs (untimeout ftn arg q) = all_addrs q"
proof -
  obtain a cs where u: "untimeout_list ftn arg (calltodo q) = (a, cs)" by fastforce
  note d = untimeout_dues [OF assms u] untimeout_addr [OF u]
  have "calltodo (untimeout ftn arg q) = cs"
  proof (cases a)
    case None
    then have "untimeout ftn arg q = q" by (simp add: untimeout_def u)
    moreover have "cs = calltodo q" using d(2) None by blast
    ultimately show ?thesis by simp
  qed (simp add: untimeout_def u)
  then show "cq_ok (calltodo (untimeout ftn arg q))"
    "entries (calltodo (untimeout ftn arg q)) = del_key (ftn, arg) (entries (calltodo q))"
    using d by simp_all
  show "all_addrs (untimeout ftn arg q) = all_addrs q"
  proof (cases a)
    case (Some x)
    then have "mset (map c_addr (calltodo q)) = mset (map c_addr cs) + {#x#}" using d(2) by simp
    then show ?thesis using Some by (simp add: untimeout_def u all_addrs_def)
  qed (simp add: untimeout_def u)
qed

text \<open>\<open>softclock\<close> with functions that re-arm themselves at most once: every due function is called once, in queue order.\<close>

definition rearms :: "(nat \<Rightarrow> nat \<Rightarrow> callop list) \<Rightarrow> bool" where
  "rearms handler \<longleftrightarrow> (\<forall>f a. handler f a = [] \<or> (\<exists>g b n. handler f a = [Set g b n]))"

lemma callops_rearm:
  assumes "handler f a = [] \<or> (\<exists>g b n. handler f a = [Set g b n])" "cq_ok (calltodo q)" "callfree q \<noteq> []"
  shows "\<exists>q'. callops (handler f a) q = Some q' \<and> cq_ok (calltodo q') \<and> overdue (calltodo q') = overdue (calltodo q) \<and>
    all_addrs q' = all_addrs q"
  using assms(1)
proof
  assume "\<exists>g b n. handler f a = [Set g b n]"
  then obtain g b n where h: "handler f a = [Set g b n]" by blast
  obtain q' where q': "timeout g b n q = Some q'" using assms(3) by (cases "callfree q") (simp_all add: timeout_def)
  show ?thesis using timeout_events [OF assms(2) q'] h q' by auto
qed (use assms(2) in simp)

declare softclock.simps [simp del]

lemma softclock_runs:
  "cq_ok (calltodo q) \<Longrightarrow> rearms handler \<Longrightarrow> length (overdue (calltodo q)) \<le> fuel \<Longrightarrow>
     \<exists>q'. softclock fuel handler q = Some (keys (overdue (calltodo q)), q') \<and> cq_ok (calltodo q') \<and>
       overdue (calltodo q') = [] \<and> all_addrs q' = all_addrs q"
proof (induction fuel arbitrary: q)
  case 0
  then show ?case by (cases "calltodo q") (auto simp: softclock.simps [of 0 handler q] split: if_splits)
next
  case (Suc n)
  show ?case
  proof (cases "calltodo q")
    case Nil
    then show ?thesis by (simp add: softclock.simps [of "Suc n" handler q])
  next
    case (Cons c cs)
    show ?thesis
    proof (cases "0 < c_time c")
      case True
      then show ?thesis using Cons Suc.prems by (simp add: softclock.simps [of "Suc n" handler q])
    next
      case False
      let ?q = "\<lparr>calltodo = cs, callfree = c_addr c # callfree q\<rparr>"
      obtain q1 where q1: "callops (handler (c_func c) (c_arg c)) ?q = Some q1" "cq_ok (calltodo q1)"
        "overdue (calltodo q1) = overdue cs" "all_addrs q1 = all_addrs ?q"
        using callops_rearm [of handler "c_func c" "c_arg c" ?q] Suc.prems Cons False by (auto simp: rearms_def)
      have "length (overdue (calltodo q1)) \<le> n" using Suc.prems(3) Cons False q1(3) by simp
      from Suc.IH [OF q1(2) Suc.prems(2) this] obtain q' where
        q': "softclock n handler q1 = Some (keys (overdue (calltodo q1)), q')" "cq_ok (calltodo q')"
          "overdue (calltodo q') = []" "all_addrs q' = all_addrs q1" by blast
      have "all_addrs ?q = all_addrs q" using Cons by (simp add: all_addrs_def)
      then show ?thesis
        using q' q1 Cons False by (simp add: softclock.simps [of "Suc n" handler q])
    qed
  qed
qed

text \<open>The queue as a calendar: \<open>add\<close> when the table has room, and the tick of \<open>hardclock\<close>.\<close>

lemma inserts_mset: "inserts xs e ys \<Longrightarrow> mset ys = add_mset e (mset xs)"
  by (auto simp: inserts_def)

lemma hardclock_entries:
  "cq_ok cs \<Longrightarrow> entries (snd (hardclock_queue cs)) = map (\<lambda>(x, d). (x, d - 1)) (entries cs)"
  using hardclock_dues [of cs] by (simp add: entries_def zip_map2)

interpretation co: calendar "\<lambda>cs. cq_ok cs" "\<lambda>cs. mset (entries cs)"
    "\<lambda>(f, a) n cs. timeout_insert \<lparr>c_addr = 0, c_func = f, c_arg = a, c_time = 0\<rparr> (if n \<le> 0 then 1 else n) cs"
    "\<lambda>cs. snd (hardclock_queue cs)"
proof (unfold_locales, goal_cases)
  case (1 cs x n)
  then show ?case
    using insert_dues [of cs "if n \<le> 0 then 1 else n" "\<lparr>c_addr = 0, c_func = fst x, c_arg = snd x, c_time = 0\<rparr>"]
      inserts_mset by (cases x) (auto simp: max_def)
next
  case (2 cs)
  then show ?case using hardclock_dues [of cs] hardclock_entries [of cs] by simp
qed

section \<open>The clock interrupts\<close>

datatype cpstate = CP_USER | CP_NICE | CP_SYS | CP_INTR | CP_IDLE
datatype ksig = SIGVTALRM | SIGPROF

record clk =
  cq :: callq
  wall :: timeval
  mono_time :: timeval
  kticks :: int
  timedelta :: int
  tickdelta :: int
  tick :: int
  hz :: int
  stathz :: int
  profhz :: int
  profprocs :: int
  psdiv :: int
  pscnt :: int
  psratio :: int
  statclockrate :: int
  curproc :: "proc option"
  curpriority :: nat
  want_resched :: bool
  cp_time :: "cpstate \<Rightarrow> nat"
  dk_busy :: u32
  dk_time :: "int list"
  posted :: "ksig list"
  softclock_pending :: bool
  upc :: "nat list"

text \<open>
  \<open>wall\<close> is the variable \<^verbatim>\<open>time\<close>; \<open>posted\<close> lists the signals sent to the current process, \<open>upc\<close> the program
  counters handed to \<^verbatim>\<open>addupc_intr\<close>. The frame is what the macros \<^verbatim>\<open>CLKF_USERMODE\<close>, \<^verbatim>\<open>CLKF_BASEPRI\<close>, \<^verbatim>\<open>CLKF_INTR\<close> and
  \<^verbatim>\<open>CLKF_PC\<close> read.
\<close>

record clockframe =
  f_usermode :: bool
  f_basepri :: bool
  f_intr :: bool
  f_pc :: nat

definition initclocks :: "clk \<Rightarrow> clk" where
  [kern_defs]: "initclocks c =
     (let i = (if stathz c \<noteq> 0 then stathz c else hz c);
          ph = (if profhz c = 0 then i else profhz c) in
      c\<lparr>psdiv := 1, pscnt := 1, profhz := ph, psratio := ph sdiv i\<rparr>)"

definition BUMPTIME :: "timeval \<Rightarrow> int \<Rightarrow> timeval" where
  [kern_defs]: "BUMPTIME tp usec =
     (let us = tv_usec tp + usec in
      if 1000000 \<le> us then \<lparr>tv_sec = wrap32 (tv_sec tp + 1), tv_usec = us - 1000000\<rparr> else tp\<lparr>tv_usec := us\<rparr>)"

text \<open>The second half of \<open>statclock\<close>, reached when the divider runs out: drives and the current process.\<close>

definition stat_tick :: "clk \<Rightarrow> clk" where
  [kern_defs]: "stat_tick c0 =
     (let c = c0\<lparr>pscnt := psdiv c0,
                 dk_time := map (\<lambda>i. if bit (dk_busy c0) i then dk_time c0 ! i + 1 else dk_time c0 ! i)
                              [0..<length (dk_time c0)]\<rparr> in
      case curproc c of
        None \<Rightarrow> c
      | Some p \<Rightarrow>
          let e = (if p_estcpu p + 1 = 0 then p_estcpu p else p_estcpu p + 1);
              p1 = p\<lparr>p_cpticks := p_cpticks p + 1, p_estcpu := e\<rparr> in
          if e AND 3 = 0 then
            (case resetpriority (curpriority c) p1 of (p2, r) \<Rightarrow>
               c\<lparr>curproc := Some (if PUSER \<le> p_priority p2 then p2\<lparr>p_priority := p_usrpri p2\<rparr> else p2),
                 want_resched := want_resched c \<or> r\<rparr>)
          else c\<lparr>curproc := Some p1\<rparr>)"

definition charge :: "cpstate \<Rightarrow> clk \<Rightarrow> clk" where
  [kern_defs]: "charge s c = c\<lparr>cp_time := (cp_time c)(s := cp_time c s + 1)\<rparr>"

text \<open>\<open>None\<close>: user mode without a current process, a null pointer.\<close>

definition statclock :: "clockframe \<Rightarrow> clk \<Rightarrow> clk option" where
  [kern_defs]: "statclock fr c =
     (if f_usermode fr then
        (case curproc c of
           None \<Rightarrow> None
         | Some p \<Rightarrow>
             let c1 = (if P_PROFIL \<in> p_flag p then c\<lparr>upc := upc c @ [f_pc fr]\<rparr> else c)\<lparr>pscnt := pscnt c - 1\<rparr> in
             if 0 < pscnt c1 then Some c1
             else Some (stat_tick (charge (if 0 < p_nice p then CP_NICE else CP_USER)
                    (c1\<lparr>curproc := Some (p\<lparr>p_uticks := p_uticks p + 1\<rparr>)\<rparr>))))
      else
        let c1 = c\<lparr>pscnt := pscnt c - 1\<rparr> in
        if 0 < pscnt c1 then Some c1
        else if f_intr fr then
          Some (stat_tick (charge CP_INTR
            (c1\<lparr>curproc := map_option (\<lambda>p. p\<lparr>p_iticks := p_iticks p + 1\<rparr>) (curproc c)\<rparr>)))
        else (case curproc c of
            Some p \<Rightarrow> Some (stat_tick (charge CP_SYS (c1\<lparr>curproc := Some (p\<lparr>p_sticks := p_sticks p + 1\<rparr>)\<rparr>)))
          | None \<Rightarrow> Some (stat_tick (charge CP_IDLE c1))))"

definition startprofclock :: "proc \<Rightarrow> clk \<Rightarrow> proc \<times> clk" where
  [kern_defs]: "startprofclock p c =
     (if P_PROFIL \<notin> p_flag p then
        (p\<lparr>p_flag := insert P_PROFIL (p_flag p)\<rparr>,
         let c1 = c\<lparr>profprocs := profprocs c + 1\<rparr> in
         if profprocs c1 = 1 \<and> stathz c \<noteq> 0
         then c1\<lparr>psdiv := psratio c, pscnt := psratio c, statclockrate := profhz c\<rparr> else c1)
      else (p, c))"

definition stopprofclock :: "proc \<Rightarrow> clk \<Rightarrow> proc \<times> clk" where
  [kern_defs]: "stopprofclock p c =
     (if P_PROFIL \<in> p_flag p then
        (p\<lparr>p_flag := p_flag p - {P_PROFIL}\<rparr>,
         let c1 = c\<lparr>profprocs := profprocs c - 1\<rparr> in
         if profprocs c1 = 0 \<and> stathz c \<noteq> 0
         then c1\<lparr>psdiv := 1, pscnt := 1, statclockrate := stathz c\<rparr> else c1)
      else (p, c))"

text \<open>The virtual and profiling timers of the current process.\<close>

definition run_timers :: "clockframe \<Rightarrow> clk \<Rightarrow> clk" where
  [kern_defs]: "run_timers fr c =
     (case curproc c of
        None \<Rightarrow> c
      | Some p \<Rightarrow>
          let (p1, s1) = (if f_usermode fr \<and> timerisset (it_value (p_virt p)) then
                 (case itimerdecr (p_virt p) (tick c) of (alive, itv) \<Rightarrow>
                    (p\<lparr>p_virt := itv\<rparr>, if alive then [] else [SIGVTALRM]))
               else (p, []));
              (p2, s2) = (if timerisset (it_value (p_prof p1)) then
                 (case itimerdecr (p_prof p1) (tick c) of (alive, itv) \<Rightarrow>
                    (p1\<lparr>p_prof := itv\<rparr>, if alive then [] else [SIGPROF]))
               else (p1, [])) in
          c\<lparr>curproc := Some p2, posted := posted c @ s1 @ s2\<rparr>)"

definition bump_clock :: "clk \<Rightarrow> clk" where
  [kern_defs]: "bump_clock c =
     (let delta = (if timedelta c = 0 then tick c else tick c + tickdelta c) in
      c\<lparr>kticks := wrap32 (kticks c + 1),
        timedelta := (if timedelta c = 0 then 0 else timedelta c - tickdelta c),
        wall := BUMPTIME (wall c) delta, mono_time := BUMPTIME (mono_time c) delta\<rparr>)"

definition hardclock ::
  "nat \<Rightarrow> (nat \<Rightarrow> nat \<Rightarrow> callop list) \<Rightarrow> clockframe \<Rightarrow> clk \<Rightarrow> ((nat \<times> nat) list \<times> clk) option" where
  [kern_defs]: "hardclock fuel handler fr c0 =
     (case hardclock_queue (calltodo (cq c0)) of (needsoft, cs) \<Rightarrow>
        let c1 = run_timers fr (c0\<lparr>cq := (cq c0)\<lparr>calltodo := cs\<rparr>\<rparr>) in
        case (if stathz c1 = 0 then statclock fr c1 else Some c1) of
          None \<Rightarrow> None
        | Some c2 \<Rightarrow>
            let c3 = bump_clock c2 in
            if needsoft then
              (if f_basepri fr then
                 map_option (\<lambda>(ran, q). (ran, c3\<lparr>cq := q\<rparr>)) (softclock fuel handler (cq c3))
               else Some ([], c3\<lparr>softclock_pending := True\<rparr>))
            else Some ([], c3))"

text \<open>\<open>hzto\<close>: \<open>None\<close> is the division by zero when the clock ticks faster than once per millisecond.\<close>

definition hzto :: "timeval \<Rightarrow> clk \<Rightarrow> int option" where
  [kern_defs]: "hzto tv c =
     (let sec = wrap32 (tv_sec tv - tv_sec (wall c)) in
      if sec \<le> 0x7fffffff div 1000 - 1000 then
        (if tick c sdiv 1000 = 0 then None
         else Some (wrap32 (wrap32 (sec * 1000) + (tv_usec tv - tv_usec (wall c)) sdiv 1000) sdiv (tick c sdiv 1000)))
      else if sec \<le> 0x7fffffff sdiv hz c then Some (sec * hz c)
      else Some 0x7fffffff)"

section \<open>What an interrupt does\<close>

lemma sums_pos: "nonneg cs \<Longrightarrow> 0 < acc \<Longrightarrow> filter (\<lambda>e. snd e \<le> 0) (zip ks (sums acc cs)) = []"
  using zip_sums_ge [of cs _ ks acc] by (fastforce simp: filter_empty_conv)

text \<open>The events that \<open>softclock\<close> would run are those whose time has come.\<close>

lemma overdue_entries: "cq_ok cs \<Longrightarrow> keys (overdue cs) = map fst (filter (\<lambda>e. snd e \<le> 0) (entries cs))"
proof (induction cs)
  case (Cons c cs)
  then show ?case by (auto simp: entries_def sums_pos)
qed (simp add: entries_def)

lemma BUMPTIME_usecs:
  assumes "tv_ok tp" "0 \<le> d" "d < 1000000" "tv_sec tp < 2147483646" "- 2147483648 \<le> tv_sec tp"
  shows "tv_ok (BUMPTIME tp d)" "usecs (BUMPTIME tp d) = usecs tp + d"
proof -
  have "wrap32 (tv_sec tp + 1) = tv_sec tp + 1" using assms(4,5) by (intro wrap32_id) (simp add: in32_def)
  then show "tv_ok (BUMPTIME tp d)" "usecs (BUMPTIME tp d) = usecs tp + d"
    using assms by (auto simp: BUMPTIME_def tv_ok_def usecs_def Let_def)
qed

text \<open>Neither the timers of the process nor the statistics touch the queue or the time.\<close>

definition same_clock :: "clk \<Rightarrow> clk \<Rightarrow> bool" where
  "same_clock c c' \<longleftrightarrow> cq c' = cq c \<and> wall c' = wall c \<and> timedelta c' = timedelta c \<and> tickdelta c' = tickdelta c \<and>
     tick c' = tick c \<and> hz c' = hz c \<and> stathz c' = stathz c \<and> softclock_pending c' = softclock_pending c \<and>
     (curproc c = None \<longleftrightarrow> curproc c' = None)"

lemma same_clock_trans: "same_clock a b \<Longrightarrow> same_clock b c \<Longrightarrow> same_clock a c"
  by (simp add: same_clock_def)

lemma run_timers_same: "same_clock c (run_timers fr c)"
  by (simp add: run_timers_def same_clock_def Let_def split_beta split: option.splits)

lemma stat_tick_same: "same_clock c (stat_tick c)"
  by (simp add: stat_tick_def same_clock_def Let_def split_beta split: option.splits)

lemma statclock_same:
  assumes "f_usermode fr \<Longrightarrow> curproc c \<noteq> None"
  shows "\<exists>c'. statclock fr c = Some c' \<and> same_clock c c'"
proof -
  have st: "same_clock c (stat_tick (charge s d))" if "same_clock c d" for d s
  proof -
    have "same_clock c (charge s d)" using that by (simp add: charge_def same_clock_def)
    then show ?thesis using stat_tick_same same_clock_trans by blast
  qed
  show ?thesis
    using assms unfolding statclock_def Let_def
    by (auto intro!: st split: option.splits) (auto simp: same_clock_def)
qed

lemma hardclock_runs:
  assumes q: "cq_ok (calltodo (cq c))" and t: "tv_ok (wall c)" "0 \<le> tv_sec (wall c)" "tv_sec (wall c) < 2147483646"
    and tk: "0 < tick c" "tick c < 500000" "\<bar>tickdelta c\<bar> \<le> tick c"
    and u: "f_usermode fr \<Longrightarrow> curproc c \<noteq> None" and h: "rearms handler"
    and fuel: "length (calltodo (cq c)) \<le> fuel"
  defines "evs \<equiv> map (\<lambda>(x, d). (x, d - 1)) (entries (calltodo (cq c)))"
  shows "\<exists>ran c'. hardclock fuel handler fr c = Some (ran, c') \<and>
    cq_ok (calltodo (cq c')) \<and> all_addrs (cq c') = all_addrs (cq c) \<and> tv_ok (wall c') \<and>
    usecs (wall c') = usecs (wall c) + tick c + (if timedelta c = 0 then 0 else tickdelta c) \<and>
    timedelta c' = (if timedelta c = 0 then 0 else timedelta c - tickdelta c) \<and>
    (if f_basepri fr
     then ran = map fst (filter (\<lambda>e. snd e \<le> 0) evs) \<and> overdue (calltodo (cq c')) = []
     else ran = [] \<and> entries (calltodo (cq c')) = evs \<and>
       (softclock_pending c' \<longleftrightarrow> softclock_pending c \<or> filter (\<lambda>e. snd e \<le> 0) evs \<noteq> []))"
proof -
  let ?cs = "calltodo (cq c)"
  obtain ns cs where hq: "hardclock_queue ?cs = (ns, cs)" by fastforce
  note d = hardclock_dues [OF q, unfolded hq, simplified] hardclock_entries [OF q, unfolded hq, simplified]
  let ?c1 = "run_timers fr (c\<lparr>cq := (cq c)\<lparr>calltodo := cs\<rparr>\<rparr>)"
  have s1: "same_clock (c\<lparr>cq := (cq c)\<lparr>calltodo := cs\<rparr>\<rparr>) ?c1" by (rule run_timers_same)
  obtain c2 where c2: "(if stathz ?c1 = 0 then statclock fr ?c1 else Some ?c1) = Some c2" "same_clock ?c1 c2"
  proof (cases "stathz ?c1 = 0")
    case True
    have "f_usermode fr \<Longrightarrow> curproc ?c1 \<noteq> None" using u s1 by (auto simp: same_clock_def)
    then show ?thesis using True that statclock_same by metis
  next
    case False
    then show ?thesis by (intro that [of ?c1]) (simp_all add: same_clock_def)
  qed
  note s2 = same_clock_trans [OF s1 c2(2)]
  let ?c3 = "bump_clock c2"
  let ?delta = "tick c + (if timedelta c = 0 then 0 else tickdelta c)"
  have w: "wall ?c3 = BUMPTIME (wall c) ?delta" "cq ?c3 = (cq c)\<lparr>calltodo := cs\<rparr>"
    "timedelta ?c3 = (if timedelta c = 0 then 0 else timedelta c - tickdelta c)"
    "softclock_pending ?c3 = softclock_pending c"
    using s2 by (auto simp: bump_clock_def same_clock_def Let_def)
  have dl: "0 \<le> ?delta" "?delta < 1000000" using tk by auto
  have "- 2147483648 \<le> tv_sec (wall c)" using t(2) by simp
  note b = BUMPTIME_usecs [OF t(1) dl t(3) this, folded w(1)]
  have b2: "usecs (wall ?c3) = usecs (wall c) + tick c + (if timedelta c = 0 then 0 else tickdelta c)"
    using b(2) by simp
  have ev: "entries cs = evs" using d by (simp add: evs_def)
  have run: "keys (overdue cs) = map fst (filter (\<lambda>e. snd e \<le> 0) evs)" using overdue_entries d ev by metis
  have soft: "ns \<longleftrightarrow> overdue cs \<noteq> []" using hardclock_needsoft [of ?cs] hq by simp
  have nil: "overdue cs = [] \<longleftrightarrow> filter (\<lambda>e. snd e \<le> 0) evs = []"
    using run by (metis keys_simps(1) keys_simps(3) length_0_conv list.map_disc_iff)
  have eq: "hardclock fuel handler fr c =
    (if ns then (if f_basepri fr then map_option (\<lambda>(ran, q). (ran, ?c3\<lparr>cq := q\<rparr>)) (softclock fuel handler (cq ?c3))
                 else Some ([], ?c3\<lparr>softclock_pending := True\<rparr>))
     else Some ([], ?c3))"
    using c2(1) by (simp add: hardclock_def hq Let_def)
  have ad: "all_addrs (cq ?c3) = all_addrs (cq c)" using d by (simp add: w(2) all_addrs_def del: mset_map)
  show ?thesis
  proof (cases "ns \<and> f_basepri fr")
    case True
    have "length (overdue cs) \<le> length cs" by (rule length_takeWhile_le)
    moreover have "length cs = length ?cs" using d by (metis length_map)
    ultimately have "length (overdue (calltodo (cq ?c3))) \<le> fuel" using fuel w(2) by simp
    then obtain q' where q': "softclock fuel handler (cq ?c3) = Some (keys (overdue cs), q')" "cq_ok (calltodo q')"
      "overdue (calltodo q') = []" "all_addrs q' = all_addrs (cq ?c3)"
      using softclock_runs [of "cq ?c3" handler fuel] d h w(2) by auto
    then show ?thesis using True eq w(2-4) b(1) b2 ad run by simp
  next
    case False
    then show ?thesis using eq soft nil w(2-4) b(1) b2 ad run ev d by (cases ns; cases "f_basepri fr") simp_all
  qed
qed

lemma sdiv_nonneg: "0 \<le> (a :: int) \<Longrightarrow> 0 < b \<Longrightarrow> a sdiv b = a div b"
  by (simp add: signed_divide_int_def sgn_if)

lemma sdiv_1000: "\<bar>(d :: int) sdiv 1000 * 1000 - d\<bar> < 1000" "0 \<le> d \<Longrightarrow> 0 \<le> d sdiv 1000"
  "\<bar>d sdiv 1000\<bar> \<le> \<bar>d\<bar>"
proof -
  have e: "0 \<le> x \<Longrightarrow> x div 1000 * 1000 \<le> x \<and> x < x div 1000 * 1000 + 1000 \<and> 0 \<le> x div 1000 \<and> x div 1000 \<le> x" for x :: int
  proof -
    assume "0 \<le> x"
    moreover have "x div 1000 * 1000 + x mod 1000 = x" "0 \<le> x mod 1000" "x mod 1000 < 1000"
      by (simp_all add: div_mult_mod_eq)
    ultimately show ?thesis by (auto simp: pos_imp_zdiv_nonneg_iff)
  qed
  have n: "d < 0 \<Longrightarrow> d sdiv 1000 = - ((- d) div 1000)" by (simp add: signed_divide_int_def sgn_if)
  show "\<bar>d sdiv 1000 * 1000 - d\<bar> < 1000" "0 \<le> d \<Longrightarrow> 0 \<le> d sdiv 1000" "\<bar>d sdiv 1000\<bar> \<le> \<bar>d\<bar>"
    using e [of d] e [of "- d"] n sdiv_nonneg [of d 1000] by (cases "0 \<le> d"; simp)+
qed

lemma hzto_bounds:
  assumes "tick c = 1000 * m" "1 \<le> m" "m < 1000" "tv_ok tv" "tv_ok (wall c)" "0 \<le> tv_sec (wall c)" "0 \<le> usecs tv - usecs (wall c)"
    "tv_sec tv - tv_sec (wall c) \<le> 2146483"
  shows "\<exists>t. hzto tv c = Some t \<and> t * tick c < usecs tv - usecs (wall c) + 1000 \<and>
    usecs tv - usecs (wall c) - 1000 - tick c < t * tick c"
proof -
  let ?s = "tv_sec tv - tv_sec (wall c)" and ?u = "tv_usec tv - tv_usec (wall c)"
  let ?D = "usecs tv - usecs (wall c)"
  have D: "?D = ?s * 1000000 + ?u" by (simp add: usecs_def algebra_simps)
  have u: "\<bar>?u\<bar> < 1000000" using assms(4,5) by (auto simp: tv_ok_def)
  have s: "0 \<le> ?s"
  proof (rule ccontr)
    assume "\<not> 0 \<le> ?s"
    then have "?s * 1000000 \<le> - 1000000" using mult_right_mono [of ?s "- 1" 1000000] by simp
    then show False using assms(7) u D by (simp add: abs_less_iff)
  qed
  then have w: "wrap32 ?s = ?s" "wrap32 (?s * 1000) = ?s * 1000"
    using assms(8) by (simp_all add: in32_def)
  let ?ms = "?s * 1000 + ?u sdiv 1000"
  have t: "\<bar>?u sdiv 1000 * 1000 - ?u\<bar> < 1000" "\<bar>?u sdiv 1000\<bar> \<le> \<bar>?u\<bar>" using sdiv_1000 by blast+
  have ms: "\<bar>?ms * 1000 - ?D\<bar> < 1000" using t(1) D by (simp add: algebra_simps)
  have gen: "0 \<le> x" if "\<bar>x * 1000 - D\<bar> < 1000" "0 \<le> D" for x D :: int using that by arith
  have ms0: "0 \<le> ?ms" using gen [OF ms assms(7)] .
  have "in32 (x * 1000 + q)" if "0 \<le> x" "x \<le> 2146483" "\<bar>q\<bar> \<le> \<bar>y\<bar>" "\<bar>y\<bar> < 1000000" for x q y :: int
    using that unfolding in32_def by arith
  then have w2: "wrap32 ?ms = ?ms" using t(2) u s assms(8) by (intro wrap32_id) blast
  have tm: "tick c sdiv 1000 = m" using assms(1,2) by (simp add: sdiv_nonneg)
  have h: "hzto tv c = Some (?ms div m)"
    using assms(2,8) ms0 unfolding hzto_def Let_def tm w w2 by (simp add: sdiv_nonneg)
  have "?ms div m * m \<le> ?ms" "?ms < ?ms div m * m + m"
    using assms(2) by (simp_all add: pos_mod_bound minus_mod_eq_div_mult [symmetric])
  then have "?ms div m * m * 1000 \<le> ?ms * 1000" "?ms * 1000 < (?ms div m * m + m) * 1000" by simp_all
  then have "?ms div m * tick c \<le> ?ms * 1000" "?ms * 1000 < ?ms div m * tick c + tick c"
    by (simp_all add: assms(1) algebra_simps)
  moreover have "a < D + 1000 \<and> D - 1000 - t < a"
    if "a \<le> x * 1000" "x * 1000 < a + t" "\<bar>x * 1000 - D\<bar> < 1000" for a x t D :: int
    using that by arith
  ultimately show ?thesis using h ms by blast
qed

section \<open>Properties\<close>

text \<open>C19. A function entered with \<open>timeout(f, a, n)\<close> is due after exactly \<open>max 1 n\<close> ticks, for as long as it waits: at any
  number \<open>m\<close> of clock ticks later the events in the queue are those there would have been without it, at unchanged
  times, and itself at \<open>max 1 n - m\<close>. The call fails only when the table is full.\<close>

theorem timeout_exact_delay:
  assumes "callq_ok q" "timeout ftn arg n q = Some q'"
  shows "callq_ok q' \<and>
    mset (entries (((\<lambda>cs. snd (hardclock_queue cs)) ^^ m) (calltodo q'))) =
      add_mset ((ftn, arg), max 1 n - int m) (mset (entries (((\<lambda>cs. snd (hardclock_queue cs)) ^^ m) (calltodo q))))"
proof -
  have ok: "cq_ok (calltodo q)" using assms(1) by (simp add: callq_ok_def)
  note t = timeout_events [OF ok assms(2)]
  have "callq_ok q'" using assms(1) t(1,3) by (simp add: callq_ok_addrs)
  moreover have "mset (entries (calltodo q')) = add_mset ((ftn, arg), max 1 n) (mset (entries (calltodo q)))"
    using inserts_mset t(2) by blast
  ultimately show ?thesis using co.ticks_events [OF ok, of m] co.ticks_events [OF t(1), of m] by simp
qed

definition callq_v :: callq where
  "callq_v = \<lparr>calltodo = [\<lparr>c_addr = 1, c_func = 10, c_arg = 0, c_time = -1\<rparr>, \<lparr>c_addr = 2, c_func = 11, c_arg = 0, c_time = 3\<rparr>,
     \<lparr>c_addr = 3, c_func = 12, c_arg = 0, c_time = 4\<rparr>], callfree = [4, 5]\<rparr>"

lemma callq_v_ok: "callq_ok callq_v" "cq_ok (calltodo callq_v)"
  by (simp_all add: callq_ok_def callq_v_def)

theorem timeout_exact_delay_witness:
  "\<exists>q'. timeout 20 7 5 callq_v = Some q' \<and> callq_ok q' \<and>
     mset (entries (((\<lambda>cs. snd (hardclock_queue cs)) ^^ 4) (calltodo q'))) =
       add_mset ((20, 7), max 1 5 - int 4) (mset (entries (((\<lambda>cs. snd (hardclock_queue cs)) ^^ 4) (calltodo callq_v))))"
proof -
  obtain q' where q': "timeout 20 7 5 callq_v = Some q'" by (simp add: timeout_def callq_v_def)
  show ?thesis using q' timeout_exact_delay [OF callq_v_ok(1) q', of 4] by blast
qed

text \<open>\<open>untimeout(f, a)\<close> removes the first event with that function and argument and leaves the time of every other
  event as it was; its structure goes back to the free chain.\<close>

theorem untimeout_cancels:
  assumes "callq_ok q"
  shows "callq_ok (untimeout ftn arg q) \<and> all_addrs (untimeout ftn arg q) = all_addrs q \<and>
    entries (calltodo (untimeout ftn arg q)) = del_key (ftn, arg) (entries (calltodo q))"
  using assms untimeout_events [of q ftn arg] by (simp add: callq_ok_addrs)

theorem untimeout_cancels_witness:
  "entries (calltodo (untimeout 11 0 callq_v)) = [((10, 0), -1), ((12, 0), 7)] \<and> callq_ok (untimeout 11 0 callq_v)"
  using untimeout_cancels [OF callq_v_ok(1), of 11 0] by (simp add: callq_v_def entries_def)

text \<open>A clock interrupt on a consistent clock always completes when the due functions re-arm themselves at most
  once. It advances the time of day by exactly one tick plus the correction in progress, brings every event one tick
  nearer, and either runs exactly the functions that are due, in order, or, when it interrupted a higher priority,
  requests \<open>softclock\<close> exactly when one is due.\<close>

theorem hardclock_effect:
  assumes "cq_ok (calltodo (cq c))" "tv_ok (wall c)" "0 \<le> tv_sec (wall c)" "tv_sec (wall c) < 2147483646"
    "0 < tick c" "tick c < 500000" "\<bar>tickdelta c\<bar> \<le> tick c"
    "f_usermode fr \<longrightarrow> curproc c \<noteq> None" "rearms handler" "length (calltodo (cq c)) \<le> fuel"
    "evs = map (\<lambda>(x, d). (x, d - 1)) (entries (calltodo (cq c)))"
  shows "\<exists>ran c'. hardclock fuel handler fr c = Some (ran, c') \<and>
    cq_ok (calltodo (cq c')) \<and> all_addrs (cq c') = all_addrs (cq c) \<and> tv_ok (wall c') \<and>
    usecs (wall c') = usecs (wall c) + tick c + (if timedelta c = 0 then 0 else tickdelta c) \<and>
    timedelta c' = (if timedelta c = 0 then 0 else timedelta c - tickdelta c) \<and>
    (if f_basepri fr
     then ran = map fst (filter (\<lambda>e. snd e \<le> 0) evs) \<and> overdue (calltodo (cq c')) = []
     else ran = [] \<and> entries (calltodo (cq c')) = evs \<and>
       (softclock_pending c' \<longleftrightarrow> softclock_pending c \<or> filter (\<lambda>e. snd e \<le> 0) evs \<noteq> []))"
  unfolding assms(11) by (rule hardclock_runs) (use assms in simp_all)

definition clk_v :: clk where
  "clk_v = \<lparr>cq = callq_v, wall = \<lparr>tv_sec = 700000000, tv_usec = 995000\<rparr>, mono_time = timerclear, kticks = 0,
     timedelta = 0, tickdelta = 0, tick = 10000, hz = 100, stathz = 0, profhz = 0, profprocs = 0, psdiv = 1, pscnt = 1,
     psratio = 1, statclockrate = 0, curproc = Some proc_v, curpriority = 127, want_resched = False,
     cp_time = (\<lambda>_. 0), dk_busy = 5, dk_time = [0, 0, 0, 0, 0, 0, 0, 0], posted = [], softclock_pending = False, upc = []\<rparr>"

theorem hardclock_effect_witness:
  "\<exists>c'. hardclock 3 (\<lambda>f a. [Set f a 3]) \<lparr>f_usermode = True, f_basepri = True, f_intr = False, f_pc = 0\<rparr> clk_v
      = Some ([(10, 0)], c') \<and> usecs (wall c') = usecs (wall clk_v) + 10000 \<and> overdue (calltodo (cq c')) = []"
  using hardclock_effect [of clk_v "\<lparr>f_usermode = True, f_basepri = True, f_intr = False, f_pc = 0\<rparr>" "\<lambda>f a. [Set f a 3]" 3
      "map (\<lambda>(x, d). (x, d - 1)) (entries (calltodo (cq clk_v)))"] callq_v_ok(2)
  by (auto simp: clk_v_def tv_ok_def rearms_def callq_v_def entries_def)

text \<open>C22. For a time up to 24 days ahead \<open>hzto\<close> gives a number of ticks that, as a length of time, lies less than a
  millisecond above and less than one tick and a millisecond below the time remaining.\<close>

theorem hzto_close:
  assumes "tick c = 1000 * m" "1 \<le> m" "m < 1000" "tv_ok tv" "tv_ok (wall c)" "0 \<le> tv_sec (wall c)"
    "0 \<le> usecs tv - usecs (wall c)" "tv_sec tv - tv_sec (wall c) \<le> 2146483"
  shows "\<exists>t. hzto tv c = Some t \<and> t * tick c < usecs tv - usecs (wall c) + 1000 \<and>
    usecs tv - usecs (wall c) - 1000 - tick c < t * tick c"
  by (rule hzto_bounds [OF assms])

theorem hzto_close_witness:
  "\<exists>t. hzto \<lparr>tv_sec = 700000001, tv_usec = 0\<rparr> clk_v = Some t \<and> t * 10000 < 6000 \<and> - 6000 < t * 10000"
  using hzto_close [of clk_v 10 "\<lparr>tv_sec = 700000001, tv_usec = 0\<rparr>"] by (simp add: clk_v_def tv_ok_def usecs_def)

end
