(* ===== verification/Timesys.thy ===== *)
theory Timesys
  imports Clock
begin

text \<open>
  The system calls on time of \<^verbatim>\<open>kern/kern_time.c\<close>: \<open>settimeofday\<close>, \<open>adjtime\<close>, \<open>getitimer\<close>, \<open>setitimer\<close>, and the
  function \<open>realitexpire\<close> that the callout queue runs when a real-time timer expires.
\<close>

section \<open>State and arguments\<close>

text \<open>
  \<open>procs\<close> is the process table, \<open>psigs\<close> the calls of \<open>psignal\<close> that were made, with the process and the signal. The function number \<open>REALITEXPIRE\<close> stands for the address of \<open>realitexpire\<close> in
  the callout queue; the argument is the process. A user pointer is \<open>None\<close> when it is null; what \<^verbatim>\<open>copyin\<close> brings from
  it is a value or the error \<^verbatim>\<open>EFAULT\<close>, and \<^verbatim>\<open>copyout\<close> to it succeeds or fails.
\<close>

abbreviation REALITEXPIRE :: nat where "REALITEXPIRE \<equiv> 1"

record tsys =
  ck :: clk
  boottime :: timeval
  runtime :: timeval
  tz :: "int \<times> int"
  tickadj :: int
  securelevel :: int
  procs :: "nat \<Rightarrow> proc"
  psigs :: "(nat \<times> nat) list"

type_synonym 'a uptr = "(errno + 'a) option"

definition set_procs :: "nat \<Rightarrow> proc \<Rightarrow> tsys \<Rightarrow> tsys" where
  "set_procs p v s = s\<lparr>procs := (procs s)(p := v)\<rparr>"

section \<open>The time of day\<close>

fun uptr_err :: "'a uptr \<Rightarrow> errno option" where
  "uptr_err (Some (Inl e)) = Some e"
| "uptr_err _ = None"

definition settimeofday :: "proc \<Rightarrow> timeval uptr \<Rightarrow> (int \<times> int) uptr \<Rightarrow> tsys \<Rightarrow> errno option \<times> tsys" where
  [kern_defs]: "settimeofday p tv tzp s =
     (if p_uid p \<noteq> 0 then (Some EPERM, s)
      else if uptr_err tv \<noteq> None then (uptr_err tv, s)
      else if uptr_err tzp \<noteq> None then (uptr_err tzp, s)
      else case (case tv of
            Some (Inr atv) \<Rightarrow>
              if 0 < securelevel s \<and> timer_less atv (wall (ck s)) then None
              else let delta = \<lparr>tv_sec = wrap32 (tv_sec atv - tv_sec (wall (ck s))),
                               tv_usec = wrap32 (tv_usec atv - tv_usec (wall (ck s)))\<rparr> in
                Some (s\<lparr>ck := (ck s)\<lparr>wall := atv\<rparr>,
                        boottime := timevalfix (timevaladd (boottime s) delta),
                        runtime := timevalfix (timevaladd (runtime s) delta)\<rparr>)
          | _ \<Rightarrow> Some s) of
        None \<Rightarrow> (Some EPERM, s)
      | Some s1 \<Rightarrow> (None, case tzp of Some (Inr z) \<Rightarrow> s1\<lparr>tz := z\<rparr> | _ \<Rightarrow> s1))"

text \<open>\<open>adjtime\<close>: the error or the old correction, and the state.\<close>

abbreviation bigadj :: int where "bigadj \<equiv> 1000000"

definition adjtime :: "proc \<Rightarrow> errno + timeval \<Rightarrow> tsys \<Rightarrow> (errno + timeval) \<times> tsys" where
  [kern_defs]: "adjtime p delta s =
     (if p_uid p \<noteq> 0 then (Inl EPERM, s)
      else case delta of
        Inl e \<Rightarrow> (Inl e, s)
      | Inr atv \<Rightarrow>
          let ndelta = wrap32 (wrap32 (tv_sec atv * 1000000) + tv_usec atv);
              ntickdelta = (if bigadj < ndelta then 10 * tickadj s else tickadj s);
              ndelta = (if ndelta smod ntickdelta \<noteq> 0 then ndelta sdiv ntickdelta * ntickdelta else ndelta);
              ntickdelta = (if ndelta < 0 then - ntickdelta else ntickdelta);
              odelta = timedelta (ck s) in
          (Inr \<lparr>tv_sec = odelta sdiv 1000000, tv_usec = odelta smod 1000000\<rparr>,
           s\<lparr>ck := (ck s)\<lparr>timedelta := ndelta, tickdelta := ntickdelta\<rparr>\<rparr>))"

section \<open>Interval timers\<close>

datatype itimer = ITIMER_REAL | ITIMER_VIRTUAL | ITIMER_PROF

text \<open>The argument \<open>which\<close> of the calls; \<open>None\<close> when it is above \<^verbatim>\<open>ITIMER_PROF\<close>.\<close>

definition which_timer :: "u32 \<Rightarrow> itimer option" where
  [kern_defs]: "which_timer w =
     (if 2 < w then None else Some (if w = 0 then ITIMER_REAL else if w = 1 then ITIMER_VIRTUAL else ITIMER_PROF))"

definition itimer_value :: "itimer \<Rightarrow> proc \<Rightarrow> timeval \<Rightarrow> itimerval" where
  [kern_defs]: "itimer_value w p now =
     (case w of
        ITIMER_REAL \<Rightarrow>
          let aitv = p_realtimer p in
          if timerisset (it_value aitv) then
            (if timer_less (it_value aitv) now then aitv\<lparr>it_value := timerclear\<rparr>
             else aitv\<lparr>it_value := timevalsub (it_value aitv) now\<rparr>)
          else aitv
      | ITIMER_VIRTUAL \<Rightarrow> p_virt p
      | ITIMER_PROF \<Rightarrow> p_prof p)"

definition getitimer :: "nat \<Rightarrow> u32 \<Rightarrow> bool \<Rightarrow> tsys \<Rightarrow> errno + itimerval" where
  [kern_defs]: "getitimer p which copyout_ok s =
     (case which_timer which of
        None \<Rightarrow> Inl EINVAL
      | Some w \<Rightarrow> if copyout_ok then Inr (itimer_value w (procs s p) (wall (ck s))) else Inl EFAULT)"

text \<open>
  Arming the real-time timer of \<open>p\<close>: \<open>None\<close> is the panic of a full callout table or the division trap of \<open>hzto\<close>.
\<close>

definition arm_realtimer :: "nat \<Rightarrow> timeval \<Rightarrow> tsys \<Rightarrow> tsys option" where
  [kern_defs]: "arm_realtimer p value s =
     (case hzto value (ck s) of
        None \<Rightarrow> None
      | Some n \<Rightarrow> map_option (\<lambda>q. s\<lparr>ck := (ck s)\<lparr>cq := q\<rparr>\<rparr>) (timeout REALITEXPIRE p n (cq (ck s))))"

definition set_timer :: "nat \<Rightarrow> itimer \<Rightarrow> itimerval \<Rightarrow> tsys \<Rightarrow> tsys option" where
  [kern_defs]: "set_timer p w aitv s =
     (case w of
        ITIMER_REAL \<Rightarrow>
          let s1 = s\<lparr>ck := (ck s)\<lparr>cq := untimeout REALITEXPIRE p (cq (ck s))\<rparr>\<rparr>;
              on = timerisset (it_value aitv);
              aitv' = (if on then aitv\<lparr>it_value := timevaladd (it_value aitv) (wall (ck s))\<rparr> else aitv) in
          map_option (set_procs p ((procs s p)\<lparr>p_realtimer := aitv'\<rparr>))
            (if on then arm_realtimer p (it_value aitv') s1 else Some s1)
      | ITIMER_VIRTUAL \<Rightarrow> Some (set_procs p ((procs s p)\<lparr>p_virt := aitv\<rparr>) s)
      | ITIMER_PROF \<Rightarrow> Some (set_procs p ((procs s p)\<lparr>p_prof := aitv\<rparr>) s))"

text \<open>
  \<open>setitimer\<close>: the old value is handed out before the new one is checked. The result is the error or the old value
  (when asked for), and the state.
\<close>

definition setitimer ::
  "nat \<Rightarrow> u32 \<Rightarrow> itimerval uptr \<Rightarrow> bool option \<Rightarrow> tsys \<Rightarrow> ((errno + itimerval option) \<times> tsys) option" where
  [kern_defs]: "setitimer p which itv oitv s =
     (case which_timer which of
        None \<Rightarrow> Some (Inl EINVAL, s)
      | Some w \<Rightarrow>
          if uptr_err itv \<noteq> None then Some (Inl (the (uptr_err itv)), s)
          else (case (case oitv of None \<Rightarrow> Inr None | Some ok \<Rightarrow> map_sum id Some (getitimer p which ok s)) of
              Inl e \<Rightarrow> Some (Inl e, s)
            | Inr old \<Rightarrow>
                (case itv of
                   Some (Inr aitv) \<Rightarrow>
                     (case (itimerfix (tick (ck s)) (it_value aitv), itimerfix (tick (ck s)) (it_interval aitv)) of
                        (Some v, Some iv) \<Rightarrow>
                          map_option (\<lambda>s'. (Inr old, s')) (set_timer p w \<lparr>it_interval = iv, it_value = v\<rparr> s)
                      | _ \<Rightarrow> Some (Inl EINVAL, s))
                 | _ \<Rightarrow> Some (Inr old, s))))"

text \<open>The loop of \<open>realitexpire\<close>: the next multiple of the interval that is later than the time; \<open>None\<close> if it runs forever.\<close>

partial_function (option) realit_next :: "timeval \<Rightarrow> timeval \<Rightarrow> timeval \<Rightarrow> timeval option" where
  "realit_next value interval now =
     (let v = timevaladd value interval in
      if timer_less now v then Some v else realit_next v interval now)"

definition realitexpire :: "nat \<Rightarrow> tsys \<Rightarrow> tsys option" where
  [kern_defs]: "realitexpire p s0 =
     (let s = s0\<lparr>psigs := psigs s0 @ [(p, SIGALRM)]\<rparr>; rt = p_realtimer (procs s p) in
      if \<not> timerisset (it_interval rt)
      then Some (set_procs p ((procs s p)\<lparr>p_realtimer := rt\<lparr>it_value := timerclear\<rparr>\<rparr>) s)
      else (case realit_next (it_value rt) (it_interval rt) (wall (ck s)) of
          None \<Rightarrow> None
        | Some v \<Rightarrow> arm_realtimer p v (set_procs p ((procs s p)\<lparr>p_realtimer := rt\<lparr>it_value := v\<rparr>\<rparr>) s)))"

section \<open>The next expiry\<close>

lemma realit_next_least:
  assumes iv: "tv_ok iv" "0 < usecs iv" "0 \<le> tv_sec iv" "tv_sec iv \<le> 100000000"
    and now: "tv_ok now" "tv_sec now \<le> 2000000000"
  shows "tv_ok v \<Longrightarrow> 0 \<le> tv_sec v \<Longrightarrow> usecs v \<le> usecs now + 1000000 \<Longrightarrow>
    \<exists>v' k. realit_next v iv now = Some v' \<and> tv_ok v' \<and> 0 \<le> tv_sec v' \<and> usecs v' = usecs v + int (Suc k) * usecs iv \<and>
      usecs now < usecs v' \<and> (k = 0 \<or> usecs v + int k * usecs iv \<le> usecs now)"
proof (induction "nat (usecs now - usecs v)" arbitrary: v rule: less_induct)
  case less
  let ?v = "timevaladd v iv"
  have "tv_sec v \<le> 2000000002" using less.prems(1,3) now by (simp add: usecs_def tv_ok_def)
  then have "in32 (tv_sec v + tv_sec iv)" "in32 (tv_sec v + tv_sec iv + 1)"
    using less.prems(2) iv(3,4) by (simp_all add: in32_def)
  then have add: "tv_ok ?v" "usecs ?v = usecs v + usecs iv"
    using timevaladd_usecs less.prems(1) iv(1) by blast+
  have "0 \<le> usecs v" using less.prems(1,2) by (simp add: usecs_def tv_ok_def)
  then have "0 \<le> usecs ?v" using iv(2) add(2) by simp
  then have pos: "0 \<le> tv_sec ?v" using add(1) unfolding tv_ok_def usecs_def by linarith
  have less_iff: "timer_less now ?v \<longleftrightarrow> usecs now < usecs ?v" using timer_less_usecs now(1) add(1) by blast
  show ?case
  proof (cases "usecs now < usecs ?v")
    case True
    then have "realit_next v iv now = Some ?v" using less_iff by (subst realit_next.simps) (simp add: Let_def)
    then show ?thesis using True add pos by (intro exI [of _ ?v] exI [of _ 0]) simp
  next
    case False
    then have eq: "realit_next v iv now = realit_next ?v iv now"
      using less_iff by (subst realit_next.simps) (simp add: Let_def)
    have "nat (usecs now - usecs ?v) < nat (usecs now - usecs v)" using False add(2) iv(2) by simp
    moreover have "usecs ?v \<le> usecs now + 1000000" using False by simp
    ultimately obtain v' k where
      r: "realit_next ?v iv now = Some v'" "tv_ok v'" "0 \<le> tv_sec v'" "usecs v' = usecs ?v + int (Suc k) * usecs iv"
        "usecs now < usecs v'" "k = 0 \<or> usecs ?v + int k * usecs iv \<le> usecs now"
      using less.hyps [of ?v] add(1) pos by blast
    have "usecs v + int (Suc k) * usecs iv \<le> usecs now"
      using r(6) False by (cases "k = 0") (simp_all add: add(2) algebra_simps)
    moreover have "usecs v' = usecs v + int (Suc (Suc k)) * usecs iv"
      using r(4) by (simp add: add(2) algebra_simps)
    ultimately show ?thesis unfolding eq using r by blast
  qed
qed

section \<open>Slewing the clock\<close>

lemma bump_clock_step:
  assumes "tv_ok (wall c)" "0 \<le> tv_sec (wall c)" "tv_sec (wall c) < 2147483646"
    "0 < tick c" "tick c < 500000" "\<bar>tickdelta c\<bar> \<le> tick c"
  shows "tv_ok (wall (bump_clock c))"
    "usecs (wall (bump_clock c)) = usecs (wall c) + tick c + (if timedelta c = 0 then 0 else tickdelta c)"
    "timedelta (bump_clock c) = (if timedelta c = 0 then 0 else timedelta c - tickdelta c)"
    "tick (bump_clock c) = tick c" "tickdelta (bump_clock c) = tickdelta c"
proof -
  let ?d = "if timedelta c = 0 then tick c else tick c + tickdelta c"
  have d: "0 \<le> ?d" "?d < 1000000" using assms(4-6) by auto
  have "- 2147483648 \<le> tv_sec (wall c)" using assms(2) by simp
  note b = BUMPTIME_usecs [OF assms(1) d assms(3) this]
  show "tv_ok (wall (bump_clock c))" "timedelta (bump_clock c) = (if timedelta c = 0 then 0 else timedelta c - tickdelta c)"
    "tick (bump_clock c) = tick c" "tickdelta (bump_clock c) = tickdelta c"
    using b(1) by (simp_all add: bump_clock_def Let_def)
  show "usecs (wall (bump_clock c)) = usecs (wall c) + tick c + (if timedelta c = 0 then 0 else tickdelta c)"
    using b(2) by (auto simp: bump_clock_def Let_def)
qed

lemma sec_bound: "tv_ok t \<Longrightarrow> 0 \<le> usecs t \<Longrightarrow> usecs t < 2147483646000000 \<Longrightarrow> 0 \<le> tv_sec t \<and> tv_sec t < 2147483646"
  unfolding tv_ok_def usecs_def by linarith

lemma slew_ticks:
  assumes c: "tv_ok (wall c)" "0 \<le> usecs (wall c)" "usecs (wall c) + int n * (2 * tick c) < 2147483646000000"
    and tk: "0 < tick c" "tick c < 500000" "\<bar>tickdelta c\<bar> \<le> tick c"
    and td: "timedelta c = m * tickdelta c" "tickdelta c \<noteq> 0" "int n \<le> m"
  shows "tv_ok (wall ((bump_clock ^^ n) c)) \<and>
    usecs (wall ((bump_clock ^^ n) c)) = usecs (wall c) + int n * (tick c + tickdelta c) \<and>
    timedelta ((bump_clock ^^ n) c) = (m - int n) * tickdelta c \<and>
    tick ((bump_clock ^^ n) c) = tick c \<and> tickdelta ((bump_clock ^^ n) c) = tickdelta c"
  using c(3) td(3)
proof (induction n)
  case 0
  then show ?case using c td by simp
next
  case (Suc n)
  let ?c = "(bump_clock ^^ n) c"
  have "int n * (2 * tick c) \<le> int (Suc n) * (2 * tick c)" using tk(1) by (simp add: algebra_simps)
  then have ih: "tv_ok (wall ?c)" "usecs (wall ?c) = usecs (wall c) + int n * (tick c + tickdelta c)"
    "timedelta ?c = (m - int n) * tickdelta c" "tick ?c = tick c" "tickdelta ?c = tickdelta c"
    using Suc by auto
  have "0 \<le> int n * (tick c + tickdelta c)" "int n * (tick c + tickdelta c) \<le> int n * (2 * tick c)"
    using tk(3) by (auto intro!: mult_nonneg_nonneg mult_left_mono simp: abs_le_iff)
  then have "0 \<le> usecs (wall ?c)" "usecs (wall ?c) < 2147483646000000"
    using ih(2) c(2) Suc.prems(1) \<open>int n * (2 * tick c) \<le> int (Suc n) * (2 * tick c)\<close> by linarith+
  then have sec: "0 \<le> tv_sec (wall ?c)" "tv_sec (wall ?c) < 2147483646" using sec_bound ih(1) by blast+
  note b = bump_clock_step [OF ih(1) sec, unfolded ih(4,5), OF tk]
  have nz: "timedelta ?c \<noteq> 0" using Suc.prems(2) td(2) ih(3) by simp
  show ?case using b nz ih by (simp add: algebra_simps)
qed

lemma sdiv_trunc:
  assumes "0 < (b :: int)"
  shows "a smod b = a - a sdiv b * b" "\<bar>a - a sdiv b * b\<bar> < b" "a sdiv b * b < 0 \<longleftrightarrow> a sdiv b < 0"
proof -
  have m: "\<bar>a\<bar> - \<bar>a\<bar> div b * b = \<bar>a\<bar> mod b" by (simp add: minus_div_mult_eq_mod)
  have d: "a sdiv b = sgn a * (\<bar>a\<bar> div b)" using assms by (simp add: signed_divide_int_def)
  have sg: "sgn a * \<bar>a\<bar> = a" by (simp add: sgn_mult_abs)
  have e: "a - a sdiv b * b = sgn a * (\<bar>a\<bar> mod b)"
    unfolding m [symmetric] d right_diff_distrib sg by (simp add: algebra_simps)
  show "a smod b = a - a sdiv b * b" using e assms by (simp add: signed_modulo_int_def)
  show "\<bar>a - a sdiv b * b\<bar> < b" unfolding e using assms pos_mod_bound [of b "\<bar>a\<bar>"] pos_mod_sign [of b "\<bar>a\<bar>"]
    by (simp add: abs_mult sgn_if)
  show "a sdiv b * b < 0 \<longleftrightarrow> a sdiv b < 0" using assms by (simp add: mult_less_0_iff)
qed

lemma adjtime_state:
  assumes "p_uid p = 0" "tv_ok atv" "\<bar>tv_sec atv\<bar> \<le> 2000" "0 < tickadj s"
  defines "nt \<equiv> if 1000000 < usecs atv then 10 * tickadj s else tickadj s"
  defines "q \<equiv> usecs atv sdiv nt"
  shows "snd (adjtime p (Inr atv) s) = s\<lparr>ck := (ck s)\<lparr>timedelta := q * nt, tickdelta := (if q < 0 then - nt else nt)\<rparr>\<rparr>"
    "0 < nt" "\<bar>usecs atv - q * nt\<bar> < nt"
proof -
  have nt: "0 < nt" using assms(4) by (simp add: nt_def)
  note t = sdiv_trunc [OF nt, of "usecs atv", folded q_def]
  have "wrap32 (tv_sec atv * 1000000) = tv_sec atv * 1000000"
    using assms(3) by (intro wrap32_id) (simp add: in32_def abs_le_iff)
  moreover have "wrap32 (tv_sec atv * 1000000 + tv_usec atv) = usecs atv"
    using assms(2,3) unfolding usecs_def by (intro wrap32_id) (simp add: in32_def abs_le_iff tv_ok_def)
  ultimately have w: "wrap32 (wrap32 (tv_sec atv * 1000000) + tv_usec atv) = usecs atv" by simp
  have nd: "usecs atv smod nt = 0 \<Longrightarrow> usecs atv = q * nt" using t(1) by simp
  show "snd (adjtime p (Inr atv) s) = s\<lparr>ck := (ck s)\<lparr>timedelta := q * nt, tickdelta := (if q < 0 then - nt else nt)\<rparr>\<rparr>"
    using assms(1) by (simp add: adjtime_def Let_def w nt_def [symmetric] q_def [symmetric] t(3)) (metis nd t(3))
  show "0 < nt" "\<bar>usecs atv - q * nt\<bar> < nt" using nt t(2) by simp_all
qed

section \<open>Properties\<close>

text \<open>The product of \<open>adjtime\<close> wraps for large corrections: one of 3000 seconds forward slows the clock by about 1295 seconds.\<close>

lemma adjtime_large_wraps:
  assumes "p_uid p = 0" "tickadj s = 4"
  shows "timedelta (ck (snd (adjtime p (Inr \<lparr>tv_sec = 3000, tv_usec = 0\<rparr>) s))) = - 1294967296"
    "tickdelta (ck (snd (adjtime p (Inr \<lparr>tv_sec = 3000, tv_usec = 0\<rparr>) s))) = - 4"
  using assms by (simp_all add: adjtime_def wrap32_def Let_def)

text \<open>C20. A correction of at most 2000 seconds in either direction, given to \<open>adjtime\<close> by the super-user, is applied completely and never
  overshoots: it is rounded towards zero to a
  multiple of the skew per tick, and after as many clock ticks as it has multiples the time of day has advanced by these
  ticks plus exactly the rounded correction, and no correction is left. (The microseconds of a correction of 2148 seconds do not
  fit into 32 bits any more.)\<close>

theorem adjtime_applied_exactly:
  assumes "p_uid p = 0" "tv_ok atv" "\<bar>tv_sec atv\<bar> \<le> 2000" "0 < tickadj s" "10 * tickadj s \<le> tick (ck s)"
    "tick (ck s) < 500000" "tv_ok (wall (ck s))" "0 \<le> usecs (wall (ck s))"
    "c = ck (snd (adjtime p (Inr atv) s))" "n = nat (\<bar>timedelta c\<bar> div \<bar>tickdelta c\<bar>)"
    "usecs (wall (ck s)) + int n * (2 * tick (ck s)) < 2147483646000000"
  shows "\<bar>usecs atv - timedelta c\<bar> < 10 * tickadj s \<and> timedelta ((bump_clock ^^ n) c) = 0 \<and>
    usecs (wall ((bump_clock ^^ n) c)) = usecs (wall (ck s)) + int n * tick (ck s) + timedelta c"
proof -
  let ?nt = "if 1000000 < usecs atv then 10 * tickadj s else tickadj s"
  let ?q = "usecs atv sdiv ?nt"
  note a = adjtime_state [OF assms(1-4)]
  let ?td = "if ?q < 0 then - ?nt else ?nt"
  have nt: "0 < ?nt" "?nt \<le> 10 * tickadj s" using assms(4) by auto
  have c: "timedelta c = ?q * ?nt" "tickdelta c = ?td" "wall c = wall (ck s)" "tick c = tick (ck s)"
    using a(1) assms(9) by simp_all
  have td: "\<bar>?td\<bar> = ?nt" "?td \<noteq> 0" using nt by auto
  have "\<bar>?q * ?nt\<bar> div ?nt = \<bar>?q\<bar>" using nt(1) by (simp add: abs_mult)
  then have n: "int n = \<bar>?q\<bar>" unfolding assms(10) c(1,2) td(1) by simp
  have m: "timedelta c = \<bar>?q\<bar> * tickdelta c" unfolding c(1,2) by (simp add: abs_if)
  have "\<bar>tickdelta c\<bar> \<le> tick c" using nt assms(5) unfolding c td(1) by linarith
  moreover have "0 < tick c" using assms(4,5) by (simp add: c)
  ultimately have r: "usecs (wall ((bump_clock ^^ n) c)) = usecs (wall c) + int n * (tick c + tickdelta c)"
    "timedelta ((bump_clock ^^ n) c) = (\<bar>?q\<bar> - int n) * tickdelta c"
    using slew_ticks [of c n "\<bar>?q\<bar>"] assms(6-8,11) n m td(2) by (simp_all add: c)
  have z: "timedelta ((bump_clock ^^ n) c) = 0" using r(2) n by simp
  have "int n * tickdelta c = timedelta c" unfolding n by (rule m [symmetric])
  then have u: "usecs (wall ((bump_clock ^^ n) c)) = usecs (wall (ck s)) + int n * tick (ck s) + timedelta c"
    using r(1) unfolding c(3,4) by (simp add: distrib_left)
  have "\<bar>usecs atv - timedelta c\<bar> < 10 * tickadj s" using a(3) nt(2) unfolding c(1) by linarith
  with z u show ?thesis by blast
qed

definition tsys_v :: tsys where
  "tsys_v = \<lparr>ck = clk_v, boottime = timerclear, runtime = timerclear, tz = (0, 0), tickadj = 5, securelevel = 0,
     procs = (\<lambda>_. proc_v), psigs = []\<rparr>"

theorem adjtime_applied_exactly_witness:
  "let c = ck (snd (adjtime proc_v (Inr \<lparr>tv_sec = 0, tv_usec = 1234\<rparr>) tsys_v)) in
   timedelta c = 1230 \<and> timedelta ((bump_clock ^^ 246) c) = 0 \<and>
   usecs (wall ((bump_clock ^^ 246) c)) = usecs (wall clk_v) + 246 * 10000 + 1230"
proof -
  let ?c = "ck (snd (adjtime proc_v (Inr \<lparr>tv_sec = 0, tv_usec = 1234\<rparr>) tsys_v))"
  have w: "wrap32 0 = 0" "wrap32 1234 = 1234" by (simp_all add: wrap32_def)
  have c: "timedelta ?c = 1230" "tickdelta ?c = 5"
    by (simp_all add: adjtime_def proc_v_def tsys_v_def Let_def w signed_modulo_int_def signed_divide_int_def)
  have n: "246 = nat (\<bar>timedelta ?c\<bar> div \<bar>tickdelta ?c\<bar>)" by (simp add: c)
  have t: "tick (ck tsys_v) = 10000" "wall (ck tsys_v) = \<lparr>tv_sec = 700000000, tv_usec = 995000\<rparr>" "tickadj tsys_v = 5"
    by (simp_all add: tsys_v_def clk_v_def)
  have "\<bar>usecs \<lparr>tv_sec = 0, tv_usec = 1234\<rparr> - timedelta ?c\<bar> < 10 * tickadj tsys_v \<and>
    timedelta ((bump_clock ^^ 246) ?c) = 0 \<and>
    usecs (wall ((bump_clock ^^ 246) ?c)) = usecs (wall (ck tsys_v)) + int 246 * tick (ck tsys_v) + timedelta ?c"
    by (rule adjtime_applied_exactly [OF _ _ _ _ _ _ _ _ refl n]) (simp_all add: proc_v_def tv_ok_def t usecs_def)
  then show ?thesis using c t by (simp add: Let_def tsys_v_def)
qed

text \<open>Arming a timer succeeds when the callout table has room and the clock ticks at most once a millisecond.\<close>

lemma hzto_Some: "1000 \<le> tick c \<Longrightarrow> \<exists>n. hzto tv c = Some n"
proof -
  assume "1000 \<le> tick c"
  then have "tick c sdiv 1000 \<noteq> 0" using sdiv_nonneg [of "tick c" 1000] by auto
  then show ?thesis by (simp add: hzto_def Let_def)
qed

lemma arm_Some:
  assumes "1000 \<le> tick (ck s)" "callfree (cq (ck s)) \<noteq> []"
  shows "\<exists>n q. hzto v (ck s) = Some n \<and> timeout REALITEXPIRE p n (cq (ck s)) = Some q \<and>
    arm_realtimer p v s = Some (s\<lparr>ck := (ck s)\<lparr>cq := q\<rparr>\<rparr>)"
  using hzto_Some [OF assms(1), of v] assms(2)
  by (cases "callfree (cq (ck s))") (auto simp: arm_realtimer_def timeout_def)

text \<open>C21. \<open>realitexpire\<close> on a timer with an interval always ends and does not drift: the next expiry is the old one plus a
  whole number of intervals, it is the first such time after the present (when expirations were missed), and the function
  is entered in the callout queue at the ticks \<open>hzto\<close> computes for it. The process is sent \<^verbatim>\<open>SIGALRM\<close> once.\<close>

theorem realitexpire_no_drift:
  assumes "rt = p_realtimer (procs s p)" "tv_ok (it_interval rt)" "0 < usecs (it_interval rt)"
    "0 \<le> tv_sec (it_interval rt)" "tv_sec (it_interval rt) \<le> 100000000"
    "tv_ok (wall (ck s))" "tv_sec (wall (ck s)) \<le> 2000000000" "tv_ok (it_value rt)" "0 \<le> tv_sec (it_value rt)"
    "usecs (it_value rt) \<le> usecs (wall (ck s)) + 1000000" "1000 \<le> tick (ck s)" "callfree (cq (ck s)) \<noteq> []"
    "cq_ok (calltodo (cq (ck s)))"
  shows "\<exists>s' v k n. realitexpire p s = Some s' \<and> psigs s' = psigs s @ [(p, SIGALRM)] \<and> it_value (p_realtimer (procs s' p)) = v \<and>
    usecs v = usecs (it_value rt) + int (Suc k) * usecs (it_interval rt) \<and> usecs (wall (ck s)) < usecs v \<and>
    (k = 0 \<or> usecs (it_value rt) + int k * usecs (it_interval rt) \<le> usecs (wall (ck s))) \<and>
    hzto v (ck s) = Some n \<and>
    inserts (entries (calltodo (cq (ck s)))) ((REALITEXPIRE, p), max 1 n) (entries (calltodo (cq (ck s'))))"
proof -
  obtain v k where r: "realit_next (it_value rt) (it_interval rt) (wall (ck s)) = Some v"
    "usecs v = usecs (it_value rt) + int (Suc k) * usecs (it_interval rt)" "usecs (wall (ck s)) < usecs v"
    "k = 0 \<or> usecs (it_value rt) + int k * usecs (it_interval rt) \<le> usecs (wall (ck s))"
    using realit_next_least [OF assms(2-7), of "it_value rt"] assms(8-10) by blast
  let ?s1 = "set_procs p ((procs s p)\<lparr>p_realtimer := rt\<lparr>it_value := v\<rparr>\<rparr>) (s\<lparr>psigs := psigs s @ [(p, SIGALRM)]\<rparr>)"
  have ck1: "ck ?s1 = ck s" by (simp add: set_procs_def)
  obtain n q where a: "hzto v (ck s) = Some n" "timeout REALITEXPIRE p n (cq (ck s)) = Some q"
    "arm_realtimer p v ?s1 = Some (?s1\<lparr>ck := (ck s)\<lparr>cq := q\<rparr>\<rparr>)"
    using arm_Some [of ?s1 v p] assms(11,12) unfolding ck1 by blast
  have "timerisset (it_interval rt)" using assms(2,3) timerisset_usecs by simp
  then have "realitexpire p s = Some (?s1\<lparr>ck := (ck s)\<lparr>cq := q\<rparr>\<rparr>)"
    using r(1) a(3) assms(1) by (simp add: realitexpire_def Let_def)
  moreover have "it_value (p_realtimer (procs (?s1\<lparr>ck := (ck s)\<lparr>cq := q\<rparr>\<rparr>) p)) = v"
    "psigs (?s1\<lparr>ck := (ck s)\<lparr>cq := q\<rparr>\<rparr>) = psigs s @ [(p, SIGALRM)]"
    by (simp_all add: set_procs_def)
  moreover have "inserts (entries (calltodo (cq (ck s)))) ((REALITEXPIRE, p), max 1 n)
      (entries (calltodo (cq (ck (?s1\<lparr>ck := (ck s)\<lparr>cq := q\<rparr>\<rparr>)))))"
    using timeout_events(2) [OF assms(13) a(2)] by simp
  ultimately show ?thesis using r(2-4) a(1) by blast
qed

theorem realitexpire_no_drift_witness:
  "\<exists>s' v. realitexpire 3 (tsys_v\<lparr>procs := (\<lambda>_. proc_v\<lparr>p_realtimer :=
       \<lparr>it_interval = \<lparr>tv_sec = 2, tv_usec = 0\<rparr>, it_value = \<lparr>tv_sec = 699999999, tv_usec = 0\<rparr>\<rparr>\<rparr>)\<rparr>) = Some s' \<and>
     it_value (p_realtimer (procs s' 3)) = v \<and> usecs (wall clk_v) < usecs v"
proof -
  let ?rt = "\<lparr>it_interval = \<lparr>tv_sec = 2, tv_usec = 0\<rparr>, it_value = \<lparr>tv_sec = 699999999, tv_usec = 0\<rparr>\<rparr>"
  let ?s = "tsys_v\<lparr>procs := (\<lambda>_. proc_v\<lparr>p_realtimer := ?rt\<rparr>)\<rparr>"
  have "\<exists>s' v k n. realitexpire 3 ?s = Some s' \<and> psigs s' = psigs ?s @ [(3, SIGALRM)] \<and> it_value (p_realtimer (procs s' 3)) = v \<and>
    usecs v = usecs (it_value ?rt) + int (Suc k) * usecs (it_interval ?rt) \<and> usecs (wall (ck ?s)) < usecs v \<and>
    (k = 0 \<or> usecs (it_value ?rt) + int k * usecs (it_interval ?rt) \<le> usecs (wall (ck ?s))) \<and>
    hzto v (ck ?s) = Some n \<and>
    inserts (entries (calltodo (cq (ck ?s)))) ((REALITEXPIRE, 3), max 1 n) (entries (calltodo (cq (ck s'))))"
    by (rule realitexpire_no_drift) (simp_all add: tsys_v_def clk_v_def tv_ok_def usecs_def callq_v_def)
  then show ?thesis by (auto simp: tsys_v_def)
qed

lemma itimerfix_set:
  assumes "itimerfix tk v0 = Some v" "0 < tk" "tk < 1000000"
  shows "tv_ok v" "0 \<le> tv_sec v" "tv_sec v \<le> 100000000"
  using itimerfix_ok [OF assms] by (simp_all add: it_tv_ok_def)

lemma real_value_back:
  assumes v: "tv_ok v" "0 \<le> tv_sec v" "tv_sec v \<le> 100000000" and now: "tv_ok now" "0 \<le> tv_sec now" "tv_sec now \<le> 2000000000"
    and set: "timerisset v"
  shows "timerisset (timevaladd v now)" "\<not> timer_less (timevaladd v now) now" "timevalsub (timevaladd v now) now = v"
proof -
  let ?w = "timevaladd v now"
  have w: "tv_ok ?w" "usecs ?w = usecs v + usecs now"
    using timevaladd_usecs [of v now] assms by (simp_all add: in32_def)
  have nn: "0 \<le> usecs now" "0 < usecs v" using assms timerisset_usecs [of v] by (simp_all add: usecs_def tv_ok_def)
  show "timerisset ?w" using timerisset_usecs [OF w(1)] w(2) nn by simp
  show "\<not> timer_less ?w now" using timer_less_usecs [OF w(1) now(1)] w(2) nn by simp
  have "usecs ?w < 2100000002000000" using w(2) v now by (simp add: usecs_def tv_ok_def)
  then have sec: "0 \<le> tv_sec ?w" "tv_sec ?w < 2147483646" using sec_bound [OF w(1)] w(2) nn by simp_all
  have s: "tv_ok (timevalsub ?w now)" "usecs (timevalsub ?w now) = usecs ?w - usecs now"
    using timevalsub_usecs [OF w(1) now(1)] sec now by (simp_all add: in32_def)
  then show "timevalsub ?w now = v" using w(2) usecs_inj v(1) by simp
qed

text \<open>A timer that \<open>setitimer\<close> accepts reads back as it was set: \<open>getitimer\<close> at the same time returns the interval
  and the value, rounded up to the clock's resolution, for the real-time timer too, which is kept as an absolute time.\<close>

theorem setitimer_getitimer:
  assumes "setitimer p which (Some (Inr aitv)) oitv s = Some (Inr old, s')" "0 < tick (ck s)" "tick (ck s) < 1000000"
    "tv_ok (wall (ck s))" "0 \<le> tv_sec (wall (ck s))" "tv_sec (wall (ck s)) \<le> 2000000000"
  shows "\<exists>v iv. itimerfix (tick (ck s)) (it_value aitv) = Some v \<and> itimerfix (tick (ck s)) (it_interval aitv) = Some iv \<and>
    getitimer p which True s' = Inr \<lparr>it_interval = iv, it_value = v\<rparr>"
proof -
  from assms(1) obtain w where w: "which_timer which = Some w" by (auto simp: setitimer_def split: option.splits)
  from assms(1) w obtain v iv where f: "itimerfix (tick (ck s)) (it_value aitv) = Some v"
    "itimerfix (tick (ck s)) (it_interval aitv) = Some iv" "set_timer p w \<lparr>it_interval = iv, it_value = v\<rparr> s = Some s'"
    by (auto simp: setitimer_def split: option.splits sum.splits)
  note v = itimerfix_set [OF f(1) assms(2,3)]
  show ?thesis
  proof (cases w)
    case ITIMER_REAL
    let ?a = "if timerisset v then timevaladd v (wall (ck s)) else v"
    have s': "p_realtimer (procs s' p) = \<lparr>it_interval = iv, it_value = ?a\<rparr>" "wall (ck s') = wall (ck s)"
      using f(3) ITIMER_REAL
      by (auto simp: set_timer_def Let_def set_procs_def arm_realtimer_def split: if_splits option.splits)
    have "itimer_value ITIMER_REAL (procs s' p) (wall (ck s')) = \<lparr>it_interval = iv, it_value = v\<rparr>"
      using real_value_back [OF v assms(4-6)] by (simp add: itimer_value_def Let_def s')
    then show ?thesis using f w ITIMER_REAL by (simp add: getitimer_def)
  qed (use f w in \<open>auto simp: set_timer_def set_procs_def getitimer_def itimer_value_def\<close>)
qed

theorem setitimer_getitimer_witness:
  "\<exists>s'. setitimer 3 0 (Some (Inr \<lparr>it_interval = timerclear, it_value = \<lparr>tv_sec = 0, tv_usec = 1\<rparr>\<rparr>)) None tsys_v = Some (Inr None, s') \<and>
     getitimer 3 0 True s' = Inr \<lparr>it_interval = timerclear, it_value = \<lparr>tv_sec = 0, tv_usec = 10000\<rparr>\<rparr>"
proof -
  let ?itv = "\<lparr>it_interval = timerclear, it_value = \<lparr>tv_sec = 0, tv_usec = 1\<rparr>\<rparr>"
  let ?s1 = "tsys_v\<lparr>ck := (ck tsys_v)\<lparr>cq := untimeout 1 3 (cq (ck tsys_v))\<rparr>\<rparr>"
  have fx: "itimerfix 10000 \<lparr>tv_sec = 0, tv_usec = 1\<rparr> = Some \<lparr>tv_sec = 0, tv_usec = 10000\<rparr>" "itimerfix 10000 timerclear = Some timerclear"
    by (simp_all add: itimerfix_def timerclear_def)
  have t: "tick (ck tsys_v) = 10000" "wall (ck tsys_v) = \<lparr>tv_sec = 700000000, tv_usec = 995000\<rparr>" by (simp_all add: tsys_v_def clk_v_def)
  have "1000 \<le> tick (ck ?s1)" "callfree (cq (ck ?s1)) \<noteq> []"
    by (simp_all add: tsys_v_def clk_v_def callq_v_def untimeout_def)
  from arm_Some [OF this, of _ 3] obtain s2 where
    "arm_realtimer 3 (timevaladd \<lparr>tv_sec = 0, tv_usec = 10000\<rparr> (wall (ck tsys_v))) ?s1 = Some s2" by blast
  then obtain s' where s': "setitimer 3 0 (Some (Inr ?itv)) None tsys_v = Some (Inr None, s')"
    using fx t by (simp add: setitimer_def which_timer_def set_timer_def Let_def timerisset_def)
  have "\<exists>v iv. itimerfix (tick (ck tsys_v)) (it_value ?itv) = Some v \<and> itimerfix (tick (ck tsys_v)) (it_interval ?itv) = Some iv \<and>
    getitimer 3 0 True s' = Inr \<lparr>it_interval = iv, it_value = v\<rparr>"
    by (rule setitimer_getitimer [OF s']) (simp_all add: t tv_ok_def)
  then show ?thesis using s' fx t by simp
qed

end
