(* ===== verification/Descrip.thy ===== *)
theory Descrip
  imports Prelude
begin

text \<open>
  Open files and descriptor tables, \<^verbatim>\<open>kern/kern_descrip.c\<close>: allocation of descriptors (\<open>fdalloc\<close>, \<open>fdavail\<close>,
  \<open>falloc\<close>), duplication (\<open>dup\<close>, \<open>dup2\<close>, \<open>fcntl\<close>, \<open>finishdup\<close>, \<open>dupfdopen\<close>), closing (\<open>close\<close>, \<open>closef\<close>,
  \<open>ffree\<close>), and the copy and release of a whole table (\<open>fdcopy\<close>, \<open>fdfree\<close>). The file structures are shared by
  the tables of all processes, so the state holds all of them; the central invariant is that the reference count of
  a file is the number of descriptors that name it.
\<close>

section \<open>State\<close>

datatype ftype = DTYPE_NONE | DTYPE_VNODE | DTYPE_SOCKET

record file_s =
  f_flag :: u16
  f_type :: ftype
  f_count :: int
  f_cred :: nat
  f_offset :: int
  f_ops :: bool

record filedesc =
  fd_ofiles :: "nat option list"
  fd_ofileflags :: "u8 list"
  fd_lastfile :: nat
  fd_freefile :: nat
  fd_refcnt :: nat

text \<open>
  \<open>files\<close> maps the addresses of allocated file structures, \<open>filehead\<close> is their list, \<open>fds\<close> the descriptor tables
  of the processes, \<open>cr_ref\<close> the reference counts of credentials. \<open>fevents\<close> records the calls that leave this
  component: locking (the file, the request, the range, whether it is a POSIX lock and whether the caller waits) and
  the close operation of a file type. A process brings its table, its limit on descriptors
  (as \<^verbatim>\<open>min\<close> takes it, unsigned), the flag \<^verbatim>\<open>P_ADVLOCK\<close> and its credentials. The fields \<^verbatim>\<open>fd_lastfile\<close> and \<^verbatim>\<open>fd_freefile\<close>
  are 16 bits wide and \<^verbatim>\<open>f_count\<close> a signed short.
\<close>

datatype ltype = F_RDLCK | F_UNLCK | F_WRLCK | L_other

datatype lkreq = Lk_set ltype | Lk_unlock | Lk_get

datatype whence = SEEK_SET | SEEK_CUR | SEEK_END | Bad_whence

record flock_s =
  l_start :: int
  l_len :: int
  l_type :: ltype
  l_whence :: whence

datatype fevent =
    Unlock_posix nat | Unlock_flock nat | Fo_close nat | Munmapfd nat
  | Vop_advlock nat lkreq flock_s bool bool

record fsys =
  fds :: "filedesc list"
  files :: "nat \<rightharpoonup> file_s"
  filehead :: "nat list"
  nfiles :: nat
  maxfiles :: nat
  cr_ref :: "nat \<Rightarrow> int"
  fevents :: "fevent list"

record fproc =
  pr_fd :: nat
  pr_lim :: nat
  pr_advlock :: bool
  pr_cred :: nat

datatype fd_fault = Bad_index | Null_file | Panic_closef | Panic_dup2 | Bad_table

type_synonym 'a fres = "fd_fault + ((errno + 'a) \<times> fsys)"

definition ushort :: "nat \<Rightarrow> nat" where [simp]: "ushort x = x mod 65536"
definition wrap16 :: "int \<Rightarrow> int" where "wrap16 x = (x + 32768) mod 65536 - 32768"

abbreviation NDFILE :: nat where "NDFILE \<equiv> 20"
abbreviation NDEXTENT :: nat where "NDEXTENT \<equiv> 50"
abbreviation UF_EXCLOSE :: u8 where "UF_EXCLOSE \<equiv> 1"
abbreviation UF_MAPPED :: u8 where "UF_MAPPED \<equiv> 2"
abbreviation FHASLOCK :: u16 where "FHASLOCK \<equiv> 0x4000"
abbreviation FREADWRITE :: u16 where "FREADWRITE \<equiv> 3"

abbreviation tab :: "fproc \<Rightarrow> fsys \<Rightarrow> filedesc" where "tab p s \<equiv> fds s ! pr_fd p"

definition set_tab :: "fproc \<Rightarrow> filedesc \<Rightarrow> fsys \<Rightarrow> fsys" where
  [kern_defs]: "set_tab p t s = s\<lparr>fds := (fds s)[pr_fd p := t]\<rparr>"

definition fd_lim :: "fproc \<Rightarrow> fsys \<Rightarrow> nat" where
  [kern_defs]: "fd_lim p s = min (pr_lim p) (maxfiles s)"

definition getdtablesize :: "fproc \<Rightarrow> fsys \<Rightarrow> nat" where
  [kern_defs]: "getdtablesize p s = fd_lim p s"

section \<open>Allocation of descriptors\<close>

text \<open>The search \<^verbatim>\<open>for (; i < last; i++)\<close> for a null entry.\<close>

fun fd_search :: "nat option list \<Rightarrow> nat \<Rightarrow> nat \<Rightarrow> nat option" where
  "fd_search ofiles i 0 = None"
| "fd_search ofiles i (Suc n) = (if ofiles ! i = None then Some i else fd_search ofiles (Suc i) n)"

definition fd_expand :: "filedesc \<Rightarrow> filedesc" where
  [kern_defs]: "fd_expand t =
     (let n = length (fd_ofiles t); n' = (if n < NDEXTENT then NDEXTENT else 2 * n) in
      t\<lparr>fd_ofiles := fd_ofiles t @ replicate (n' - n) None,
        fd_ofileflags := fd_ofileflags t @ replicate (n' - n) 0\<rparr>)"

definition fd_take :: "nat \<Rightarrow> nat \<Rightarrow> filedesc \<Rightarrow> filedesc" where
  [kern_defs]: "fd_take want i t =
     t\<lparr>fd_ofileflags := (fd_ofileflags t)[i := 0],
       fd_lastfile := (if fd_lastfile t < i then ushort i else fd_lastfile t),
       fd_freefile := (if want \<le> fd_freefile t then ushort i else fd_freefile t)\<rparr>"

text \<open>\<open>fdalloc\<close> on a table: the table may grow before the limit is found to be reached.\<close>

function fdalloc_tab :: "nat \<Rightarrow> nat \<Rightarrow> filedesc \<Rightarrow> nat option \<times> filedesc" where
  "fdalloc_tab lim want t =
     (let last = min (length (fd_ofiles t)) lim; i0 = max want (fd_freefile t) in
      case fd_search (fd_ofiles t) i0 (last - i0) of
        Some i \<Rightarrow> (Some i, fd_take want i t)
      | None \<Rightarrow> if lim \<le> length (fd_ofiles t) then (None, t) else fdalloc_tab lim want (fd_expand t))"
  by pat_completeness auto
termination
  by (relation "measure (\<lambda>(lim, want, t). lim - length (fd_ofiles t))") (auto simp: fd_expand_def Let_def)

declare fdalloc_tab.simps [simp del]

definition fdalloc :: "fproc \<Rightarrow> nat \<Rightarrow> fsys \<Rightarrow> (errno + nat) \<times> fsys" where
  [kern_defs]: "fdalloc p want s =
     (case fdalloc_tab (fd_lim p s) want (tab p s) of
        (r, t) \<Rightarrow> (case r of None \<Rightarrow> Inl EMFILE | Some i \<Rightarrow> Inr i, set_tab p t s))"

text \<open>\<open>fdavail\<close>: whether \<open>n\<close> more descriptors are available.\<close>

fun count_free :: "nat option list \<Rightarrow> int \<Rightarrow> bool" where
  "count_free [] n = False"
| "count_free (f # fs) n = (if f = None then n - 1 \<le> 0 \<or> count_free fs (n - 1) else count_free fs n)"

definition fdavail :: "fproc \<Rightarrow> int \<Rightarrow> fsys \<Rightarrow> bool" where
  [kern_defs]: "fdavail p n s =
     (let i = int (fd_lim p s) - int (length (fd_ofiles (tab p s))) in
      if 0 < i \<and> n - i \<le> 0 then True
      else count_free (drop (fd_freefile (tab p s)) (fd_ofiles (tab p s))) (if 0 < i then n - i else n))"

section \<open>File structures\<close>

fun list_insert_after :: "nat \<Rightarrow> nat \<Rightarrow> nat list \<Rightarrow> nat list" where
  "list_insert_after x y [] = []"
| "list_insert_after x y (z # zs) = (if z = x then z # y # zs else z # list_insert_after x y zs)"

text \<open>\<open>falloc\<close>: the address \<open>a\<close> is what \<^verbatim>\<open>malloc\<close> returns. The result is the file and the descriptor.\<close>

definition falloc :: "nat \<Rightarrow> fproc \<Rightarrow> fsys \<Rightarrow> (nat \<times> nat) fres" where
  [kern_defs]: "falloc a p s =
     (case fdalloc p 0 s of
        (Inl e, s1) \<Rightarrow> Inr (Inl e, s1)
      | (Inr i, s1) \<Rightarrow>
          if maxfiles s1 \<le> nfiles s1 then Inr (Inl ENFILE, s1)
          else
            let fp = \<lparr>f_flag = 0, f_type = DTYPE_NONE, f_count = 1, f_cred = pr_cred p, f_offset = 0, f_ops = False\<rparr>;
                t = tab p s1 in
            Inr (Inr (a, i),
              (set_tab p (t\<lparr>fd_ofiles := (fd_ofiles t)[i := Some a]\<rparr>) s1)
                \<lparr>nfiles := nfiles s1 + 1, files := (files s1)(a \<mapsto> fp),
                 filehead := (case fd_ofiles t ! 0 of
                     Some fq \<Rightarrow> list_insert_after fq a (filehead s1) | None \<Rightarrow> a # filehead s1),
                 cr_ref := (cr_ref s1)(pr_cred p := cr_ref s1 (pr_cred p) + 1)\<rparr>))"

definition ffree :: "nat \<Rightarrow> fsys \<Rightarrow> fsys" where
  [kern_defs]: "ffree a s =
     (case files s a of
        None \<Rightarrow> s
      | Some fp \<Rightarrow> s\<lparr>filehead := remove1 a (filehead s), files := (files s)(a := None), nfiles := nfiles s - 1,
                     cr_ref := (cr_ref s)(f_cred fp := cr_ref s (f_cred fp) - 1)\<rparr>)"

text \<open>
  \<open>closef\<close> by a process (\<open>adv\<close> is \<^verbatim>\<open>p && (p->p_flag & P_ADVLOCK)\<close>); \<open>fo_close\<close> is the error of the file type's close
  routine.
\<close>

definition closef :: "(nat \<Rightarrow> errno option) \<Rightarrow> bool \<Rightarrow> nat \<Rightarrow> fsys \<Rightarrow> fd_fault + (errno option \<times> fsys)" where
  [kern_defs]: "closef fo_close adv a s =
     (case files s a of
        None \<Rightarrow> Inl Null_file
      | Some fp \<Rightarrow>
          let ev1 = (if adv \<and> f_type fp = DTYPE_VNODE then [Unlock_posix a] else []);
              n = wrap16 (f_count fp - 1);
              s1 = s\<lparr>files := (files s)(a \<mapsto> fp\<lparr>f_count := n\<rparr>), fevents := fevents s @ ev1\<rparr> in
          if 0 < n then Inr (None, s1)
          else if n < 0 then Inl Panic_closef
          else
            let ev2 = (if f_flag fp AND FHASLOCK \<noteq> 0 \<and> f_type fp = DTYPE_VNODE then [Unlock_flock a] else []);
                ev3 = (if f_ops fp then [Fo_close a] else []) in
            Inr (if f_ops fp then fo_close a else None, ffree a (s1\<lparr>fevents := fevents s1 @ ev2 @ ev3\<rparr>)))"

section \<open>Duplication\<close>

definition finishdup :: "fproc \<Rightarrow> nat \<Rightarrow> nat \<Rightarrow> fsys \<Rightarrow> nat fres" where
  [kern_defs]: "finishdup p old new s =
     (let t = tab p s in
      case fd_ofiles t ! old of
        None \<Rightarrow> Inl Null_file
      | Some a \<Rightarrow>
          (case files s a of
             None \<Rightarrow> Inl Null_file
           | Some fp \<Rightarrow>
               Inr (Inr new,
                 (set_tab p (t\<lparr>fd_ofiles := (fd_ofiles t)[new := Some a],
                              fd_ofileflags := (fd_ofileflags t)[new := fd_ofileflags t ! old AND NOT UF_EXCLOSE],
                              fd_lastfile := (if fd_lastfile t < new then ushort new else fd_lastfile t)\<rparr>) s)
                   \<lparr>files := (files s)(a \<mapsto> fp\<lparr>f_count := wrap16 (f_count fp + 1)\<rparr>)\<rparr>)))"

text \<open>
  \<open>dup2\<close> takes its arguments into signed integers before it compares them: a negative one passes all the tests and
  is used as an index.
\<close>

definition dup2 :: "(nat \<Rightarrow> errno option) \<Rightarrow> fproc \<Rightarrow> u32 \<Rightarrow> u32 \<Rightarrow> fsys \<Rightarrow> nat fres" where
  [kern_defs]: "dup2 fo_close p from to s =
     (let t = tab p s; n = length (fd_ofiles t); old = sint from; new = sint to in
      if int n \<le> old then Inr (Inl EBADF, s)
      else if old < 0 then Inl Bad_index
      else if fd_ofiles t ! nat old = None \<or> int (pr_lim p) \<le> new \<or> int (maxfiles s) \<le> new then Inr (Inl EBADF, s)
      else if old = new then Inr (Inr (nat new), s)
      else if int n \<le> new then
        (case fdalloc p (nat new) s of
           (Inl e, s1) \<Rightarrow> Inr (Inl e, s1)
         | (Inr i, s1) \<Rightarrow> if int i \<noteq> new then Inl Panic_dup2 else finishdup p (nat old) (nat new) s1)
      else if new < 0 then Inl Bad_index
      else (case fd_ofiles t ! nat new of
          None \<Rightarrow> finishdup p (nat old) (nat new) s
        | Some a \<Rightarrow>
            let s0 = (if fd_ofileflags t ! nat new AND UF_MAPPED \<noteq> 0
                      then s\<lparr>fevents := fevents s @ [Munmapfd (nat new)]\<rparr> else s) in
            (case closef fo_close (pr_advlock p) a s0 of
               Inl f \<Rightarrow> Inl f
             | Inr (e, s1) \<Rightarrow> finishdup p (nat old) (nat new) s1)))"

text \<open>\<open>dup\<close>: a descriptor of 64 or more is taken for the old form of \<open>dup2\<close>, whose second argument lies next on the stack.\<close>

definition dup :: "(nat \<Rightarrow> errno option) \<Rightarrow> fproc \<Rightarrow> u32 \<Rightarrow> u32 \<Rightarrow> fsys \<Rightarrow> nat fres" where
  [kern_defs]: "dup fo_close p old stack s =
     (if old AND NOT 0x3f \<noteq> 0 then dup2 fo_close p (old AND 0x3f) stack s
      else if length (fd_ofiles (tab p s)) \<le> unat old \<or> fd_ofiles (tab p s) ! unat old = None then Inr (Inl EBADF, s)
      else (case fdalloc p 0 s of
          (Inl e, s1) \<Rightarrow> Inr (Inl e, s1)
        | (Inr new, s1) \<Rightarrow> finishdup p (unat old) new s1))"

text \<open>The commands of \<open>fcntl\<close> on descriptors and flags. \<open>ioctl1\<close> and \<open>ioctl2\<close> are the errors of the two calls of the
  file type's \<^verbatim>\<open>ioctl\<close> for \<^verbatim>\<open>FIONBIO\<close> and \<^verbatim>\<open>FIOASYNC\<close>.\<close>

datatype fcmd = F_DUPFD u32 | F_GETFD | F_SETFD u32 | F_GETFL | F_SETFL u16 "errno option" "errno option" | F_unknown

abbreviation FCNTLFLAGS :: u16 where "FCNTLFLAGS \<equiv> 0xcc"
abbreviation FNONBLOCK :: u16 where "FNONBLOCK \<equiv> 4"

definition fcntl_setfl :: "u16 \<Rightarrow> errno option \<Rightarrow> errno option \<Rightarrow> u16 \<Rightarrow> errno option \<times> u16" where
  [kern_defs]: "fcntl_setfl arg ioctl1 ioctl2 flag =
     (let fl = (flag AND NOT FCNTLFLAGS) OR ((arg + 1) AND FCNTLFLAGS) in
      case ioctl1 of
        Some e \<Rightarrow> (Some e, fl)
      | None \<Rightarrow> (case ioctl2 of None \<Rightarrow> (None, fl) | Some e \<Rightarrow> (Some e, fl AND NOT FNONBLOCK)))"

definition fcntl :: "fproc \<Rightarrow> u32 \<Rightarrow> fcmd \<Rightarrow> fsys \<Rightarrow> int fres" where
  [kern_defs]: "fcntl p fd cmd s =
     (let t = tab p s in
      if length (fd_ofiles t) \<le> unat fd then Inr (Inl EBADF, s)
      else case fd_ofiles t ! unat fd of
        None \<Rightarrow> Inr (Inl EBADF, s)
      | Some a \<Rightarrow>
          (case files s a of
             None \<Rightarrow> Inl Null_file
           | Some fp \<Rightarrow>
               (case cmd of
                  F_DUPFD newmin \<Rightarrow>
                    if pr_lim p \<le> unat newmin \<or> maxfiles s \<le> unat newmin then Inr (Inl EINVAL, s)
                    else (case fdalloc p (unat newmin) s of
                        (Inl e, s1) \<Rightarrow> Inr (Inl e, s1)
                      | (Inr i, s1) \<Rightarrow> map_sum id (apfst (map_sum id int)) (finishdup p (unat fd) i s1))
                | F_GETFD \<Rightarrow> Inr (Inr (uint (fd_ofileflags t ! unat fd AND 1)), s)
                | F_SETFD arg \<Rightarrow>
                    Inr (Inr 0, set_tab p (t\<lparr>fd_ofileflags := (fd_ofileflags t)[unat fd :=
                      (fd_ofileflags t ! unat fd AND NOT 1) OR (ucast arg AND 1)]\<rparr>) s)
                | F_GETFL \<Rightarrow> Inr (Inr (sint (f_flag fp) - 1), s)
                | F_SETFL arg e1 e2 \<Rightarrow>
                    (case fcntl_setfl arg e1 e2 (f_flag fp) of (err, fl) \<Rightarrow>
                       Inr (case err of None \<Rightarrow> Inr 0 | Some e \<Rightarrow> Inl e,
                         s\<lparr>files := (files s)(a \<mapsto> fp\<lparr>f_flag := fl\<rparr>)\<rparr>))
                | F_unknown \<Rightarrow> Inr (Inl EINVAL, s))))"

text \<open>
  The locking commands \<^verbatim>\<open>F_SETLK\<close>, \<^verbatim>\<open>F_SETLKW\<close> (\<open>wait\<close>) and \<^verbatim>\<open>F_GETLK\<close> of \<open>fcntl\<close>. \<open>arg\<close> is the lock structure that
  \<^verbatim>\<open>copyin\<close> reads, \<open>vop\<close> the result of \<^verbatim>\<open>VOP_ADVLOCK\<close>. The flag \<^verbatim>\<open>P_ADVLOCK\<close> of the process is set before a lock is requested.
\<close>

definition fcntl_setlk ::
  "fproc \<Rightarrow> u32 \<Rightarrow> bool \<Rightarrow> errno + flock_s \<Rightarrow> errno option \<Rightarrow> fsys \<Rightarrow> fd_fault + (errno option \<times> fproc \<times> fsys)" where
  [kern_defs]: "fcntl_setlk p fd wait arg vop s =
     (let t = tab p s in
      if length (fd_ofiles t) \<le> unat fd then Inr (Some EBADF, p, s)
      else case fd_ofiles t ! unat fd of
        None \<Rightarrow> Inr (Some EBADF, p, s)
      | Some a \<Rightarrow>
          (case files s a of
             None \<Rightarrow> Inl Null_file
           | Some fp \<Rightarrow>
               if f_type fp \<noteq> DTYPE_VNODE then Inr (Some EBADF, p, s)
               else (case arg of
                  Inl e \<Rightarrow> Inr (Some e, p, s)
                | Inr fl0 \<Rightarrow>
                    let fl = (if l_whence fl0 = SEEK_CUR then fl0\<lparr>l_start := l_start fl0 + f_offset fp\<rparr> else fl0);
                        request = (\<lambda>r w p'. Inr (vop, p', s\<lparr>fevents := fevents s @ [Vop_advlock a r fl True w]\<rparr>)) in
                    (case l_type fl of
                       F_RDLCK \<Rightarrow> if f_flag fp AND 1 = 0 then Inr (Some EBADF, p, s)
                                   else request (Lk_set F_RDLCK) wait (p\<lparr>pr_advlock := True\<rparr>)
                     | F_WRLCK \<Rightarrow> if f_flag fp AND 2 = 0 then Inr (Some EBADF, p, s)
                                   else request (Lk_set F_WRLCK) wait (p\<lparr>pr_advlock := True\<rparr>)
                     | F_UNLCK \<Rightarrow> request Lk_unlock False p
                     | L_other \<Rightarrow> Inr (Some EINVAL, p, s)))))"

text \<open>\<open>flock\<close>: the whole file, as a lock of the open file rather than of the process.\<close>

definition flock :: "fproc \<Rightarrow> u32 \<Rightarrow> u32 \<Rightarrow> errno option \<Rightarrow> fsys \<Rightarrow> fd_fault + (errno option \<times> fsys)" where
  [kern_defs]: "flock p fd how vop s =
     (let t = tab p s; whole = (\<lambda>ty. \<lparr>l_start = 0, l_len = 0, l_type = ty, l_whence = SEEK_SET\<rparr>) in
      if length (fd_ofiles t) \<le> unat fd then Inr (Some EBADF, s)
      else case fd_ofiles t ! unat fd of
        None \<Rightarrow> Inr (Some EBADF, s)
      | Some a \<Rightarrow>
          (case files s a of
             None \<Rightarrow> Inl Null_file
           | Some fp \<Rightarrow>
               if f_type fp \<noteq> DTYPE_VNODE then Inr (Some EOPNOTSUPP, s)
               else if how AND 8 \<noteq> 0 then
                 Inr (vop, s\<lparr>files := (files s)(a \<mapsto> fp\<lparr>f_flag := f_flag fp AND NOT FHASLOCK\<rparr>),
                             fevents := fevents s @ [Vop_advlock a Lk_unlock (whole F_UNLCK) False False]\<rparr>)
               else if how AND 2 = 0 \<and> how AND 1 = 0 then Inr (Some EBADF, s)
               else
                 let ty = (if how AND 2 \<noteq> 0 then F_WRLCK else F_RDLCK) in
                 Inr (vop, s\<lparr>files := (files s)(a \<mapsto> fp\<lparr>f_flag := f_flag fp OR FHASLOCK\<rparr>),
                             fevents := fevents s @ [Vop_advlock a (Lk_set ty) (whole ty) False (how AND 4 = 0)]\<rparr>)))"

section \<open>Closing\<close>

text \<open>The loop that lowers \<^verbatim>\<open>fd_lastfile\<close> past null entries.\<close>

fun fd_lower :: "nat option list \<Rightarrow> nat \<Rightarrow> nat" where
  "fd_lower ofiles 0 = 0"
| "fd_lower ofiles (Suc n) = (if ofiles ! Suc n = None then fd_lower ofiles n else Suc n)"

definition fd_clear :: "nat \<Rightarrow> filedesc \<Rightarrow> filedesc" where
  [kern_defs]: "fd_clear fd t =
     (let ofs = (fd_ofiles t)[fd := None] in
      t\<lparr>fd_ofiles := ofs, fd_ofileflags := (fd_ofileflags t)[fd := 0], fd_lastfile := fd_lower ofs (fd_lastfile t),
        fd_freefile := (if fd < fd_freefile t then ushort fd else fd_freefile t)\<rparr>)"

definition close :: "(nat \<Rightarrow> errno option) \<Rightarrow> fproc \<Rightarrow> u32 \<Rightarrow> fsys \<Rightarrow> unit fres" where
  [kern_defs]: "close fo_close p fd s =
     (let t = tab p s in
      if length (fd_ofiles t) \<le> unat fd then Inr (Inl EBADF, s)
      else case fd_ofiles t ! unat fd of
        None \<Rightarrow> Inr (Inl EBADF, s)
      | Some a \<Rightarrow>
          let ev = (if fd_ofileflags t ! unat fd AND UF_MAPPED \<noteq> 0 then [Munmapfd (unat fd)] else []);
              s1 = (set_tab p (fd_clear (unat fd) t) s)\<lparr>fevents := fevents s @ ev\<rparr> in
          map_sum id (\<lambda>(e, s2). (case e of None \<Rightarrow> Inr () | Some e \<Rightarrow> Inl e, s2))
            (closef fo_close (pr_advlock p) a s1))"

section \<open>Whole tables\<close>

function fd_shrink :: "nat \<Rightarrow> nat \<Rightarrow> nat" where
  "fd_shrink i lastf = (if 2 * NDEXTENT < i \<and> lastf * 2 < i then fd_shrink (i div 2) lastf else i)"
  by pat_completeness auto
termination
  by (relation "measure fst") auto

declare fd_shrink.simps [simp del]

fun hold_all :: "nat option list \<Rightarrow> (nat \<rightharpoonup> file_s) \<Rightarrow> (nat \<rightharpoonup> file_s) option" where
  "hold_all [] fs = Some fs"
| "hold_all (None # os) fs = hold_all os fs"
| "hold_all (Some a # os) fs =
     (case fs a of None \<Rightarrow> None | Some fp \<Rightarrow> hold_all os (fs(a \<mapsto> fp\<lparr>f_count := wrap16 (f_count fp + 1)\<rparr>)))"

text \<open>\<open>fdcopy\<close>: the new table is added at the end of \<open>fds\<close>, and its index returned.\<close>

definition fdcopy :: "fproc \<Rightarrow> fsys \<Rightarrow> fd_fault + (nat \<times> fsys)" where
  [kern_defs]: "fdcopy p s =
     (let t = tab p s;
          i = (if fd_lastfile t < NDFILE then NDFILE else fd_shrink (length (fd_ofiles t)) (fd_lastfile t)) in
      if length (fd_ofiles t) < i \<or> i \<le> fd_lastfile t then Inl Bad_index
      else
        let t' = t\<lparr>fd_ofiles := take i (fd_ofiles t), fd_ofileflags := take i (fd_ofileflags t), fd_refcnt := 1\<rparr> in
        case hold_all (take (Suc (fd_lastfile t)) (fd_ofiles t')) (files s) of
          None \<Rightarrow> Inl Null_file
        | Some fs \<Rightarrow> Inr (length (fds s), s\<lparr>fds := fds s @ [t'], files := fs\<rparr>))"

fun close_all :: "(nat \<Rightarrow> errno option) \<Rightarrow> bool \<Rightarrow> nat option list \<Rightarrow> fsys \<Rightarrow> fd_fault + fsys" where
  "close_all fo_close adv [] s = Inr s"
| "close_all fo_close adv (None # os) s = close_all fo_close adv os s"
| "close_all fo_close adv (Some a # os) s =
     (case closef fo_close adv a s of Inl f \<Rightarrow> Inl f | Inr (e, s') \<Rightarrow> close_all fo_close adv os s')"

text \<open>\<open>fdfree\<close>: a released table is left empty.\<close>

definition fdfree :: "(nat \<Rightarrow> errno option) \<Rightarrow> fproc \<Rightarrow> fsys \<Rightarrow> fd_fault + fsys" where
  [kern_defs]: "fdfree fo_close p s =
     (let t = tab p s in
      if 1 < fd_refcnt t then Inr (set_tab p (t\<lparr>fd_refcnt := fd_refcnt t - 1\<rparr>) s)
      else if length (fd_ofiles t) \<le> fd_lastfile t then Inl Bad_index
      else close_all fo_close (pr_advlock p) (take (Suc (fd_lastfile t)) (fd_ofiles t))
             (set_tab p (t\<lparr>fd_ofiles := [], fd_ofileflags := [], fd_lastfile := 0, fd_freefile := 0, fd_refcnt := 0\<rparr>) s))"

text \<open>
  \<open>dupfdopen\<close>, called by \<^verbatim>\<open>open\<close> on \<^verbatim>\<open>/dev/fd/N\<close>: \<open>indx\<close> still holds the address of the file structure \<^verbatim>\<open>open\<close> has
  just freed. \<open>None\<close> is success.
\<close>

definition dupfdopen :: "fproc \<Rightarrow> nat \<Rightarrow> u32 \<Rightarrow> u16 \<Rightarrow> errno \<Rightarrow> fsys \<Rightarrow> fd_fault + (errno option \<times> fsys)" where
  [kern_defs]: "dupfdopen p indx dfd mode error s =
     (let t = tab p s; d = unat dfd in
      if length (fd_ofiles t) \<le> d then Inr (Some EBADF, s)
      else case fd_ofiles t ! d of
        None \<Rightarrow> Inr (Some EBADF, s)
      | Some w \<Rightarrow>
          if fd_ofiles t ! indx = Some w then Inr (Some EBADF, s)
          else (case files s w of
              None \<Rightarrow> Inl Null_file
            | Some wf1 \<Rightarrow>
                if error = ENODEV then
                  (if (mode AND FREADWRITE) OR f_flag wf1 \<noteq> f_flag wf1 then Inr (Some EACCES, s)
                   else Inr (None, (set_tab p (t\<lparr>fd_ofiles := (fd_ofiles t)[indx := Some w],
                              fd_ofileflags := (fd_ofileflags t)[indx := fd_ofileflags t ! d],
                              fd_lastfile := (if fd_lastfile t < indx then ushort indx else fd_lastfile t)\<rparr>) s)
                          \<lparr>files := (files s)(w \<mapsto> wf1\<lparr>f_count := wrap16 (f_count wf1 + 1)\<rparr>)\<rparr>))
                else if error = ENXIO then
                  let ofs = (fd_ofiles t)[indx := Some w, d := None] in
                  Inr (None, set_tab p (t\<lparr>fd_ofiles := ofs,
                              fd_ofileflags := (fd_ofileflags t)[indx := fd_ofileflags t ! d, d := 0],
                              fd_lastfile := (if fd_lastfile t < indx then ushort indx else fd_lower ofs (fd_lastfile t)),
                              fd_freefile := (if d < fd_freefile t then ushort d else fd_freefile t)\<rparr>) s)
                else Inr (Some error, s)))"

section \<open>Tables\<close>

text \<open>
  The invariant of a table: the two arrays have one length, everything below \<^verbatim>\<open>fd_freefile\<close> is in use, nothing above
  \<^verbatim>\<open>fd_lastfile\<close> is. A released table is empty. A table starts with \<^verbatim>\<open>NDFILE\<close> entries and grows to \<^verbatim>\<open>NDEXTENT\<close> and then by
  doubling.
\<close>

definition fd_sized :: "nat \<Rightarrow> bool" where
  "fd_sized n \<longleftrightarrow> n = 0 \<or> n = NDFILE \<or> (\<exists>k. n = NDEXTENT * 2 ^ k)"

lemma fd_sized_grow:
  assumes "fd_sized n" "0 < n"
  shows "fd_sized (if n < NDEXTENT then NDEXTENT else 2 * n)" "n < (if n < NDEXTENT then NDEXTENT else 2 * n)"
proof -
  have "\<exists>j. 2 * (NDEXTENT * 2 ^ k) = NDEXTENT * 2 ^ j" for k by (intro exI [of _ "Suc k"]) simp
  moreover have "\<exists>j. NDEXTENT = NDEXTENT * 2 ^ j" by (intro exI [of _ 0]) simp
  moreover have "50 \<le> NDEXTENT * 2 ^ k" for k :: nat by simp
  ultimately show "fd_sized (if n < NDEXTENT then NDEXTENT else 2 * n)"
    using assms unfolding fd_sized_def by (auto split: if_splits)
  show "n < (if n < NDEXTENT then NDEXTENT else 2 * n)" using assms(2) by simp
qed

lemma fd_sized_ge: "fd_sized n \<Longrightarrow> 0 < n \<Longrightarrow> NDFILE \<le> n"
  unfolding fd_sized_def by (auto intro: order_trans [of _ 50])


definition tab_ok :: "filedesc \<Rightarrow> bool" where
  "tab_ok t \<longleftrightarrow> length (fd_ofileflags t) = length (fd_ofiles t) \<and> fd_freefile t \<le> length (fd_ofiles t) \<and>
     fd_freefile t < 65536 \<and> (\<forall>j<fd_freefile t. fd_ofiles t ! j \<noteq> None) \<and>
     (\<forall>j<length (fd_ofiles t). fd_lastfile t < j \<longrightarrow> fd_ofiles t ! j = None) \<and>
     (fd_ofiles t = [] \<or> fd_lastfile t < length (fd_ofiles t)) \<and> fd_sized (length (fd_ofiles t))"

lemma fd_search_Some:
  "fd_search ofs i n = Some j \<Longrightarrow> i \<le> j \<and> j < i + n \<and> ofs ! j = None \<and> (\<forall>k. i \<le> k \<and> k < j \<longrightarrow> ofs ! k \<noteq> None)"
proof (induction ofs i n rule: fd_search.induct)
  case (2 ofs i n)
  show ?case
  proof (cases "ofs ! i = None")
    case False
    then have r: "Suc i \<le> j" "j < Suc i + n" "ofs ! j = None" "\<forall>k. Suc i \<le> k \<and> k < j \<longrightarrow> ofs ! k \<noteq> None"
      using 2 by auto
    have "ofs ! k \<noteq> None" if "i \<le> k" "k < j" for k
      using r(4) that False by (cases "k = i") auto
    then show ?thesis using r by auto
  qed (use "2.prems" in auto)
qed simp

lemma fd_search_None: "fd_search ofs i n = None \<Longrightarrow> i \<le> k \<Longrightarrow> k < i + n \<Longrightarrow> ofs ! k \<noteq> None"
proof (induction ofs i n rule: fd_search.induct)
  case (2 ofs i n)
  then show ?case by (cases "k = i") (auto split: if_splits)
qed simp

lemma fd_take_ok:
  assumes "tab_ok t" "i < length (fd_ofiles t)" "i < 65536" "fd_ofiles t ! i = None"
    "\<forall>k. max want (fd_freefile t) \<le> k \<and> k < i \<longrightarrow> fd_ofiles t ! k \<noteq> None"
  shows "tab_ok (fd_take want i t)" "fd_ofiles (fd_take want i t) = fd_ofiles t"
proof -
  have "\<forall>j<i. fd_ofiles t ! j \<noteq> None" if "want \<le> fd_freefile t"
  proof (intro allI impI)
    fix j assume "j < i"
    then show "fd_ofiles t ! j \<noteq> None"
      using assms(1,5) that by (cases "j < fd_freefile t") (auto simp: tab_ok_def)
  qed
  then show "tab_ok (fd_take want i t)" using assms(1-3) by (auto simp: tab_ok_def fd_take_def)
  show "fd_ofiles (fd_take want i t) = fd_ofiles t" by (simp add: fd_take_def)
qed

lemma fd_expand_ok:
  assumes "tab_ok t" "fd_ofiles t \<noteq> []"
  shows "tab_ok (fd_expand t)" "\<exists>m. fd_ofiles (fd_expand t) = fd_ofiles t @ replicate m None" "fd_ofiles (fd_expand t) \<noteq> []"
    "fd_freefile (fd_expand t) = fd_freefile t"
proof -
  let ?n = "length (fd_ofiles t)"
  let ?n' = "if ?n < NDEXTENT then NDEXTENT else 2 * ?n"
  have "fd_sized ?n'" "?n < ?n'" using fd_sized_grow [of ?n] assms by (simp_all add: tab_ok_def)
  moreover have "length (fd_ofiles (fd_expand t)) = ?n'" "fd_lastfile (fd_expand t) = fd_lastfile t"
    "length (fd_ofileflags (fd_expand t)) = length (fd_ofileflags t) + (?n' - ?n)"
    using \<open>?n < ?n'\<close> by (simp_all add: fd_expand_def Let_def)
  moreover show m: "\<exists>m. fd_ofiles (fd_expand t) = fd_ofiles t @ replicate m None" "fd_ofiles (fd_expand t) \<noteq> []"
    and f: "fd_freefile (fd_expand t) = fd_freefile t"
    using assms(2) by (auto simp: fd_expand_def Let_def)
  ultimately show "tab_ok (fd_expand t)" using assms unfolding tab_ok_def
    by (auto simp: nth_append fd_expand_def Let_def)
qed

definition free_from :: "nat \<Rightarrow> nat \<Rightarrow> nat option list \<Rightarrow> bool" where
  "free_from lo hi ofs \<longleftrightarrow> (\<forall>k. lo \<le> k \<and> k < hi \<longrightarrow> k < length ofs \<and> ofs ! k \<noteq> None)"

lemma free_from_append: "free_from lo hi (ofs @ replicate m None) \<Longrightarrow> free_from lo hi ofs"
  unfolding free_from_def by (metis length_append length_replicate nth_append nth_replicate nat_add_left_cancel_less add_diff_inverse_nat)

lemma fdalloc_tab_spec:
  "tab_ok t \<Longrightarrow> fd_ofiles t \<noteq> [] \<Longrightarrow> lim \<le> 65536 \<Longrightarrow> fdalloc_tab lim want t = (r, t') \<Longrightarrow>
     tab_ok t' \<and> (\<exists>m. fd_ofiles t' = fd_ofiles t @ replicate m None) \<and>
     (case r of
        Some i \<Rightarrow> want \<le> i \<and> i < lim \<and> i < length (fd_ofiles t') \<and> i \<le> fd_lastfile t' \<and> fd_ofiles t' ! i = None \<and> free_from want i (fd_ofiles t)
      | None \<Rightarrow> free_from want lim (fd_ofiles t))"
proof (induction lim want t rule: fdalloc_tab.induct)
  case (1 lim want t)
  let ?i0 = "max want (fd_freefile t)" and ?last = "min (length (fd_ofiles t)) lim"
  have low: "free_from want hi (fd_ofiles t)" if "\<forall>k. ?i0 \<le> k \<and> k < hi \<longrightarrow> k < length (fd_ofiles t) \<and> fd_ofiles t ! k \<noteq> None" for hi
    unfolding free_from_def
  proof (intro allI impI)
    fix k assume "want \<le> k \<and> k < hi"
    then show "k < length (fd_ofiles t) \<and> fd_ofiles t ! k \<noteq> None"
      using that "1.prems"(1) by (cases "k < fd_freefile t") (auto simp: tab_ok_def)
  qed
  show ?case
  proof (cases "fd_search (fd_ofiles t) ?i0 (?last - ?i0)")
    case (Some i)
    then have eq: "r = Some i" "t' = fd_take want i t"
      using "1.prems"(4) by (simp_all add: fdalloc_tab.simps [of lim want t] Let_def)
    note f = fd_search_Some [OF Some]
    then have il: "i < length (fd_ofiles t)" "i < lim" "i < 65536" using "1.prems"(3) by auto
    have "free_from want i (fd_ofiles t)" using low f il(1) by (auto simp: less_trans)
    moreover have "i \<le> fd_lastfile (fd_take want i t)" using il(3) by (simp add: fd_take_def)
    ultimately show ?thesis using fd_take_ok [OF "1.prems"(1) il(1,3)] f il by (auto simp: eq intro: exI [of _ 0])
  next
    case None
    note n = fd_search_None [OF None]
    show ?thesis
    proof (cases "lim \<le> length (fd_ofiles t)")
      case True
      then have eq: "r = None" "t' = t"
        using "1.prems"(4) None by (simp_all add: fdalloc_tab.simps [of lim want t] Let_def)
      have "free_from want lim (fd_ofiles t)" using low n True by (auto simp: min_absorb2)
      then show ?thesis using "1.prems"(1) by (auto simp: eq intro: exI [of _ 0])
    next
      case False
      then have rec: "fdalloc_tab lim want (fd_expand t) = (r, t')"
        using "1.prems"(4) None by (simp add: fdalloc_tab.simps [of lim want t] Let_def)
      obtain m where m: "fd_ofiles (fd_expand t) = fd_ofiles t @ replicate m None" using fd_expand_ok(2) "1.prems"(1,2) by blast
      note ih = "1.IH" [OF refl refl None False fd_expand_ok(1,3) [OF "1.prems"(1,2)] "1.prems"(3) rec]
      from ih obtain m2 where "fd_ofiles t' = fd_ofiles t @ replicate (m + m2) None"
        by (auto simp: m replicate_add)
      moreover have "free_from want x (fd_ofiles (fd_expand t)) \<Longrightarrow> free_from want x (fd_ofiles t)" for x
        unfolding m by (rule free_from_append)
      ultimately show ?thesis using ih by (auto split: option.splits)
    qed
  qed
qed

section \<open>Reference counts\<close>

text \<open>\<open>nrefs s a\<close>: the number of descriptors, in all tables, that name the file \<open>a\<close>.\<close>

definition nrefs :: "fsys \<Rightarrow> nat \<Rightarrow> nat" where
  "nrefs s a = sum_list (map (\<lambda>t. count_list (fd_ofiles t) (Some a)) (fds s))"

lemma count_list_update:
  "i < length xs \<Longrightarrow>
     count_list (xs[i := y]) z + (if xs ! i = z then 1 else 0) = count_list xs z + (if y = z then 1 else 0)"
proof (induction xs arbitrary: i)
  case (Cons x xs)
  show ?case
  proof (cases i)
    case (Suc j)
    with Cons.IH [of j] Cons.prems show ?thesis by (auto split: if_splits)
  qed (use Cons.prems in auto)
qed simp

lemma count_list_replicate_None [simp]: "count_list (xs @ replicate m None) (Some a) = count_list xs (Some a)"
  by (induction m) (simp_all flip: replicate_append_same)

lemma count_pos: "i < length xs \<Longrightarrow> xs ! i = x \<Longrightarrow> 0 < count_list xs x"
  by (metis count_list_0_iff gr0I nth_mem)

lemma nrefs_set_tab:
  assumes "pr_fd p < length (fds s)"
  shows "nrefs (set_tab p t s) a + count_list (fd_ofiles (tab p s)) (Some a) = nrefs s a + count_list (fd_ofiles t) (Some a)"
proof -
  let ?f = "\<lambda>t. count_list (fd_ofiles t) (Some a)"
  have "sum_list (xs[k := ?f t]) + xs ! k = sum_list xs + ?f t" if "k < length xs" for k xs
    using that
  proof (induction xs arbitrary: k)
    case (Cons x xs)
    then show ?case by (cases k) (auto simp: add.assoc)
  qed simp
  from this [of "pr_fd p" "map ?f (fds s)"] assms show ?thesis
    by (simp add: nrefs_def set_tab_def map_update)
qed

lemma nrefs_slot:
  assumes "pr_fd p < length (fds s)" "i < length (fd_ofiles (tab p s))" "fd_ofiles t = (fd_ofiles (tab p s))[i := y]"
  shows "nrefs (set_tab p t s) a + (if fd_ofiles (tab p s) ! i = Some a then 1 else 0) = nrefs s a + (if y = Some a then 1 else 0)"
  using nrefs_set_tab [OF assms(1), of t a] count_list_update [OF assms(2), of y "Some a"] assms(3) by simp

lemma nrefs_pos:
  assumes "pr_fd p < length (fds s)" "i < length (fd_ofiles (tab p s))" "fd_ofiles (tab p s) ! i = Some a"
  shows "0 < nrefs s a"
proof -
  have "count_list (fd_ofiles (tab p s)) (Some a) \<le> nrefs s a"
    unfolding nrefs_def using assms(1) by (intro member_le_sum_list) auto
  then show ?thesis using count_pos [OF assms(2,3)] by simp
qed

text \<open>
  \<open>counted N fs\<close>: the files that exist are those with references \<open>N\<close>, and their counts say how many.
\<close>

definition counted :: "(nat \<Rightarrow> nat) \<Rightarrow> (nat \<rightharpoonup> file_s) \<Rightarrow> bool" where
  "counted N fs \<longleftrightarrow> (\<forall>a. case fs a of None \<Rightarrow> N a = 0 | Some fp \<Rightarrow> f_count fp = int (N a) \<and> 0 < N a)"

lemma countedD: "counted N fs \<Longrightarrow> fs a = Some fp \<Longrightarrow> f_count fp = int (N a) \<and> 0 < N a"
  unfolding counted_def by (metis (mono_tags, lifting) option.simps(5))

lemma counted_Some: "counted N fs \<Longrightarrow> 0 < N a \<Longrightarrow> \<exists>fp. fs a = Some fp \<and> f_count fp = int (N a)"
  unfolding counted_def by (metis (mono_tags, lifting) not_None_eq option.simps(4,5) less_numeral_extra(3))

lemma counted_None: "counted N fs \<Longrightarrow> fs a = None \<Longrightarrow> N a = 0"
  unfolding counted_def by (metis (mono_tags, lifting) option.simps(4))

lemma wrap16_id: "- 32768 \<le> x \<Longrightarrow> x \<le> 32767 \<Longrightarrow> wrap16 x = x"
  by (simp add: wrap16_def)

lemma counted_set:
  assumes "counted N fs" "f_count fp = int n" "0 < n"
  shows "counted (N(a := n)) (fs(a \<mapsto> fp))"
  using assms unfolding counted_def fun_upd_apply by simp

lemma counted_del: "counted N fs \<Longrightarrow> counted (N(a := 0)) (fs(a := None))"
  unfolding counted_def fun_upd_apply by simp

text \<open>The list of all open files and their number.\<close>

definition heads_ok :: "fsys \<Rightarrow> bool" where
  "heads_ok s \<longleftrightarrow> distinct (filehead s) \<and> set (filehead s) = dom (files s) \<and> nfiles s = length (filehead s)"

text \<open>
  The invariant. \<open>ext\<close> counts the references that are held outside the tables (files in messages). No file has more
  references than its count, a short, can hold.
\<close>

definition fs_ok :: "(nat \<Rightarrow> nat) \<Rightarrow> fsys \<Rightarrow> bool" where
  "fs_ok ext s \<longleftrightarrow> counted (\<lambda>a. nrefs s a + ext a) (files s) \<and> (\<forall>t\<in>set (fds s). tab_ok t) \<and> heads_ok s \<and>
     maxfiles s \<le> 65536 \<and> (\<forall>a. nrefs s a + ext a \<le> 32767)"

lemma closef_counted:
  assumes "counted N (files s)" "0 < N a" "N a \<le> 32767" "heads_ok s"
  shows "\<exists>e s'. closef fo adv a s = Inr (e, s') \<and> counted (N(a := N a - 1)) (files s') \<and> heads_ok s' \<and>
    fds s' = fds s \<and> maxfiles s' = maxfiles s \<and> (files s' a = None \<longleftrightarrow> N a = 1)"
proof -
  obtain fp where fp: "files s a = Some fp" "f_count fp = int (N a)" using counted_Some assms(1,2) by blast
  have w: "wrap16 (f_count fp - 1) = int (N a) - 1" using assms(2,3) by (simp add: fp(2) wrap16_id)
  show ?thesis
  proof (cases "N a = 1")
    case True
    obtain ev where "closef fo adv a s = Inr (if f_ops fp then fo a else None,
        ffree a (s\<lparr>files := (files s)(a \<mapsto> fp\<lparr>f_count := 0\<rparr>), fevents := ev\<rparr>))"
      using w True fp(1) by (simp add: closef_def Let_def)
    moreover have "a \<in> set (filehead s)" using assms(4) fp(1) by (auto simp: heads_ok_def)
    ultimately show ?thesis
      using counted_del [OF assms(1), of a] assms(4) fp(1) True
      by (auto simp: ffree_def heads_ok_def length_remove1)
  next
    case False
    then have n: "0 < N a - 1" using assms(2) by simp
    then have "\<exists>s'. closef fo adv a s = Inr (None, s') \<and> files s' = (files s)(a \<mapsto> fp\<lparr>f_count := int (N a) - 1\<rparr>) \<and>
        fds s' = fds s \<and> maxfiles s' = maxfiles s \<and> filehead s' = filehead s \<and> nfiles s' = nfiles s"
      using w fp(1) by (simp add: closef_def Let_def)
    then show ?thesis
      using counted_set [OF assms(1), of "fp\<lparr>f_count := int (N a) - 1\<rparr>" "N a - 1" a] n assms(4) fp(1) False
      by (auto simp: heads_ok_def)
  qed
qed

section \<open>Descriptors of a process\<close>

text \<open>The abstract view of a table: which file each descriptor names.\<close>

definition fd_map :: "fproc \<Rightarrow> fsys \<Rightarrow> nat \<rightharpoonup> nat" where
  "fd_map p s i = (if i < length (fd_ofiles (tab p s)) then fd_ofiles (tab p s) ! i else None)"

definition live :: "fproc \<Rightarrow> fsys \<Rightarrow> bool" where
  "live p s \<longleftrightarrow> pr_fd p < length (fds s) \<and> fd_ofiles (tab p s) \<noteq> []"

lemma live_tab: "live p s \<Longrightarrow> pr_fd p < length (fds s)" by (simp add: live_def)

lemma set_tab_simps [simp]:
  "files (set_tab p t s) = files s" "filehead (set_tab p t s) = filehead s" "nfiles (set_tab p t s) = nfiles s"
  "maxfiles (set_tab p t s) = maxfiles s" "fds (set_tab p t s) = (fds s)[pr_fd p := t]"
  "length (fds (set_tab p t s)) = length (fds s)"
  by (simp_all add: set_tab_def)

lemma nrefs_cong: "fds s' = fds s \<Longrightarrow> nrefs s' = nrefs s"
  by (simp add: nrefs_def fun_eq_iff)

lemma tab_ok_live: "fs_ok ext s \<Longrightarrow> live p s \<Longrightarrow> tab_ok (tab p s)"
  by (simp add: fs_ok_def live_def)

lemma fs_ok_refs: "fs_ok ext s \<Longrightarrow> counted (\<lambda>a. nrefs s a + ext a) (files s)"
  by (simp add: fs_ok_def)

lemma fd_map_Some:
  assumes "fs_ok ext s" "live p s" "fd_map p s i = Some a"
  shows "i < length (fd_ofiles (tab p s))" "fd_ofiles (tab p s) ! i = Some a" "0 < nrefs s a" "a \<in> dom (files s)"
proof -
  show i: "i < length (fd_ofiles (tab p s))" "fd_ofiles (tab p s) ! i = Some a"
    using assms(3) by (simp_all add: fd_map_def split: if_splits)
  show "0 < nrefs s a" by (rule nrefs_pos [OF live_tab [OF assms(2)] i])
  then show "a \<in> dom (files s)" using counted_Some [OF fs_ok_refs [OF assms(1)], of a] by auto
qed

text \<open>What every call on the descriptors of \<open>p\<close> does: it keeps the invariant, leaves all other tables alone and adds at most
  one reference to a file.\<close>

definition fd_upd :: "(nat \<Rightarrow> nat) \<Rightarrow> fproc \<Rightarrow> fsys \<Rightarrow> fsys \<Rightarrow> bool" where
  "fd_upd ext p s s' \<longleftrightarrow> fs_ok ext s' \<and> live p s' \<and> maxfiles s' = maxfiles s \<and> length (fds s') = length (fds s) \<and>
     (\<forall>q. pr_fd q \<noteq> pr_fd p \<longrightarrow> fd_map q s' = fd_map q s \<and> live q s' = live q s) \<and> (\<forall>a. nrefs s' a \<le> Suc (nrefs s a))"

lemma fd_upd_refl: "fs_ok ext s \<Longrightarrow> live p s \<Longrightarrow> fd_upd ext p s s"
  by (simp add: fd_upd_def)

lemma fd_upd_trans: "fd_upd ext p s s1 \<Longrightarrow> nrefs s1 = nrefs s \<Longrightarrow> fd_upd ext p s1 s' \<Longrightarrow> fd_upd ext p s s'"
  by (simp add: fd_upd_def)

text \<open>A change of the table of \<open>p\<close> that puts \<open>y\<close> into slot \<open>i\<close>, with the counts changed accordingly, keeps the invariant.\<close>

lemma fs_ok_slot:
  assumes "fs_ok ext s" "live p s" "i < length (fd_ofiles (tab p s))"
    "fds s' = (fds s)[pr_fd p := t]" "fd_ofiles t = (fd_ofiles (tab p s))[i := y]" "tab_ok t"
    "counted N (files s')" "heads_ok s'" "maxfiles s' = maxfiles s"
    "\<And>x. N x + (if fd_ofiles (tab p s) ! i = Some x then 1 else 0) = nrefs s x + ext x + (if y = Some x then 1 else 0)"
    "\<And>x. y = Some x \<Longrightarrow> nrefs s x + ext x < 32767"
  shows "fd_upd ext p s s' \<and> fd_map p s' = (fd_map p s)(i := y)"
proof -
  have n: "nrefs s' x + (if fd_ofiles (tab p s) ! i = Some x then 1 else 0) = nrefs s x + (if y = Some x then 1 else 0)" for x
    using nrefs_slot [OF live_tab [OF assms(2)] assms(3,5), of x] nrefs_cong [of s' "set_tab p t s"] assms(4) by simp
  have N: "N = (\<lambda>x. nrefs s' x + ext x)"
  proof
    fix x show "N x = nrefs s' x + ext x" using n [of x] assms(10) [of x] by linarith
  qed
  have "nrefs s' x + ext x \<le> 32767" for x
  proof -
    have "nrefs s x + ext x \<le> 32767" using assms(1) by (simp add: fs_ok_def)
    then show ?thesis using n [of x] assms(11) [of x] by (cases "y = Some x") (auto split: if_splits)
  qed
  moreover have "\<forall>t\<in>set (fds s'). tab_ok t"
    using assms(1,4,6) by (auto simp: fs_ok_def dest!: set_update_subset_insert [THEN subsetD])
  ultimately have "fs_ok ext s'" using assms(1,7,8,9) by (simp add: fs_ok_def N)
  moreover have "nrefs s' x \<le> Suc (nrefs s x)" for x using n [of x] by (simp split: if_splits)
  ultimately show ?thesis
    using assms(2,3,4,5,9) by (auto simp: fd_upd_def live_def fd_map_def fun_eq_iff nth_list_update)
qed

lemma fdalloc_ok:
  assumes "fs_ok ext s" "live p s" "fdalloc p want s = (r, s')"
  shows "fs_ok ext s'" "live p s'" "fd_map q s' = fd_map q s" "nrefs s' = nrefs s"
    "fd_upd ext p s s'"
    "files s' = files s" "maxfiles s' = maxfiles s" "nfiles s' = nfiles s" "filehead s' = filehead s"
    "case r of
       Inr i \<Rightarrow> want \<le> i \<and> i < fd_lim p s \<and> i < length (fd_ofiles (tab p s')) \<and> i \<le> fd_lastfile (tab p s') \<and>
         fd_map p s i = None \<and>
         (\<forall>k. want \<le> k \<and> k < i \<longrightarrow> fd_map p s k \<noteq> None)
     | Inl e \<Rightarrow> e = EMFILE \<and> (\<forall>k. want \<le> k \<and> k < fd_lim p s \<longrightarrow> fd_map p s k \<noteq> None)"
proof -
  obtain r' t where f: "fdalloc_tab (fd_lim p s) want (tab p s) = (r', t)" by fastforce
  have r: "r = (case r' of None \<Rightarrow> Inl EMFILE | Some i \<Rightarrow> Inr i)" and s': "s' = set_tab p t s"
    using assms(3) by (simp_all add: fdalloc_def f)
  have lim: "fd_lim p s \<le> 65536" using assms(1) by (simp add: fs_ok_def fd_lim_def min.coboundedI2)
  have l: "fd_ofiles (tab p s) \<noteq> []" "pr_fd p < length (fds s)" using assms(2) by (simp_all add: live_def)
  note sp = fdalloc_tab_spec [OF tab_ok_live [OF assms(1,2)] l(1) lim f]
  from sp obtain m where m: "fd_ofiles t = fd_ofiles (tab p s) @ replicate m None" by blast
  show n: "nrefs s' = nrefs s"
  proof
    fix a show "nrefs s' a = nrefs s a" using nrefs_set_tab [OF l(2), of t a] by (simp add: s' m)
  qed
  show map: "fd_map q s' = fd_map q s" for q
  proof (cases "pr_fd q = pr_fd p")
    case True
    then show ?thesis using l(2) by (auto simp: fd_map_def s' m nth_append fun_eq_iff)
  next
    case False
    then show ?thesis by (simp add: fd_map_def s' fun_eq_iff)
  qed
  have "\<forall>u\<in>set (fds s'). tab_ok u"
    using assms(1) sp by (auto simp: s' fs_ok_def dest!: set_update_subset_insert [THEN subsetD])
  then show ok: "fs_ok ext s'" using assms(1) n by (simp add: fs_ok_def s' heads_ok_def)
  show lv: "live p s'" using l by (simp add: live_def s' m)
  show "fd_upd ext p s s'" using ok lv map n by (auto simp: fd_upd_def live_def s')
  show "files s' = files s" "maxfiles s' = maxfiles s" "nfiles s' = nfiles s" "filehead s' = filehead s" by (simp_all add: s')
  have t: "tab p s' = t" using l(2) by (simp add: s')
  have "fd_map p s k = (if k < length (fd_ofiles t) then fd_ofiles t ! k else None)" for k
    by (auto simp: fd_map_def m nth_append)
  then show "case r of
       Inr i \<Rightarrow> want \<le> i \<and> i < fd_lim p s \<and> i < length (fd_ofiles (tab p s')) \<and> i \<le> fd_lastfile (tab p s') \<and>
         fd_map p s i = None \<and>
         (\<forall>k. want \<le> k \<and> k < i \<longrightarrow> fd_map p s k \<noteq> None)
     | Inl e \<Rightarrow> e = EMFILE \<and> (\<forall>k. want \<le> k \<and> k < fd_lim p s \<longrightarrow> fd_map p s k \<noteq> None)"
    using sp by (auto simp: r t free_from_def m nth_append split: option.splits)
qed

section \<open>The operations\<close>

lemma tab_ok_put:
  assumes "tab_ok t" "i < length (fd_ofiles t)" "i < 65536" "length fl = length (fd_ofiles t)"
    "fd_lastfile t' = (if fd_lastfile t < i then ushort i else fd_lastfile t)" "fd_ofileflags t' = fl"
    "fd_ofiles t' = (fd_ofiles t)[i := Some a]" "fd_freefile t' = fd_freefile t"
  shows "tab_ok t'"
  using assms by (auto simp: tab_ok_def nth_list_update)

lemma finishdup_counted:
  assumes "counted N (files s)" "heads_ok s" "fd_ofiles (tab p s) ! old = Some a" "0 < N a" "N a < 32767"
  shows "\<exists>s' t. finishdup p old new s = Inr (Inr new, s') \<and> counted (N(a := N a + 1)) (files s') \<and> heads_ok s' \<and>
    maxfiles s' = maxfiles s \<and> fds s' = (fds s)[pr_fd p := t] \<and> fd_ofiles t = (fd_ofiles (tab p s))[new := Some a] \<and>
    (tab_ok (tab p s) \<longrightarrow> new < length (fd_ofiles (tab p s)) \<longrightarrow> new < 65536 \<longrightarrow> tab_ok t)"
proof -
  obtain fp where fp: "files s a = Some fp" "f_count fp = int (N a)" using counted_Some assms(1,4) by blast
  let ?t = "(tab p s)\<lparr>fd_ofiles := (fd_ofiles (tab p s))[new := Some a],
      fd_ofileflags := (fd_ofileflags (tab p s))[new := fd_ofileflags (tab p s) ! old AND NOT UF_EXCLOSE],
      fd_lastfile := (if fd_lastfile (tab p s) < new then ushort new else fd_lastfile (tab p s))\<rparr>"
  let ?s = "(set_tab p ?t s)\<lparr>files := (files s)(a \<mapsto> fp\<lparr>f_count := wrap16 (f_count fp + 1)\<rparr>)\<rparr>"
  have "finishdup p old new s = Inr (Inr new, ?s)" by (simp add: finishdup_def Let_def assms(3) fp(1))
  moreover have "wrap16 (f_count fp + 1) = int (N a + 1)" using assms(5) by (simp add: fp(2) wrap16_id)
  then have "counted (N(a := N a + 1)) (files ?s)" using counted_set [OF assms(1)] by simp
  moreover have "heads_ok ?s" using assms(2) fp(1) by (auto simp: heads_ok_def)
  moreover have "tab_ok ?t" if "tab_ok (tab p s)" "new < length (fd_ofiles (tab p s))" "new < 65536"
    by (rule tab_ok_put [OF that]) (use that(1) in \<open>simp_all add: tab_ok_def\<close>)
  ultimately show ?thesis by (intro exI [of _ ?s] exI [of _ ?t]) simp
qed

text \<open>\<open>finishdup\<close> into a free slot.\<close>

lemma finishdup_ok:
  assumes "fs_ok ext s" "live p s" "fd_map p s old = Some a" "fd_map p s new = None"
    "new < length (fd_ofiles (tab p s))" "new < 65536" "nrefs s a + ext a < 32767"
  shows "\<exists>s'. finishdup p old new s = Inr (Inr new, s') \<and> fd_upd ext p s s' \<and> fd_map p s' = (fd_map p s)(new \<mapsto> a)"
proof -
  note m = fd_map_Some [OF assms(1,2,3)]
  have "heads_ok s" "tab_ok (tab p s)" using assms(1) tab_ok_live [OF assms(1,2)] by (simp_all add: fs_ok_def)
  moreover obtain s' t where f: "finishdup p old new s = Inr (Inr new, s')"
    "counted ((\<lambda>a. nrefs s a + ext a)(a := nrefs s a + ext a + 1)) (files s')" "heads_ok s'" "maxfiles s' = maxfiles s"
    "fds s' = (fds s)[pr_fd p := t]" "fd_ofiles t = (fd_ofiles (tab p s))[new := Some a]" "tab_ok t"
    using finishdup_counted [OF fs_ok_refs [OF assms(1)] calculation(1) m(2), of new] m(3) assms(5,6,7) calculation(2)
    by auto
  have free: "fd_ofiles (tab p s) ! new = None" using assms(4,5) by (simp add: fd_map_def)
  have "fd_upd ext p s s' \<and> fd_map p s' = (fd_map p s)(new := Some a)"
    by (rule fs_ok_slot [OF assms(1,2,5) f(5,6,7,2,3,4)]) (use free assms(7) in simp_all)
  with f(1,4) show ?thesis by blast
qed

lemma dup_ok:
  assumes "fs_ok ext s" "live p s" "unat old < 64" "\<And>a. nrefs s a + ext a < 32767"
  shows "\<exists>r s'. dup fo p old stack s = Inr (r, s') \<and> fd_upd ext p s s' \<and>
    (case r of
       Inl e \<Rightarrow> fd_map p s' = fd_map p s \<and>
         (e = EBADF \<and> fd_map p s (unat old) = None \<or> e = EMFILE \<and> (\<forall>k<fd_lim p s. fd_map p s k \<noteq> None))
     | Inr new \<Rightarrow> fd_map p s (unat old) \<noteq> None \<and> new < fd_lim p s \<and> fd_map p s new = None \<and>
         (\<forall>k<new. fd_map p s k \<noteq> None) \<and> fd_map p s' = (fd_map p s)(new := fd_map p s (unat old)))"
proof -
  have "old AND NOT 0x3f = 0"
  proof -
    have "unat (take_bit 6 old) = unat old" using assms(3) by (simp add: unsigned_take_bit_eq take_bit_nat_eq_self)
    then have "old = old AND mask 6" by (simp add: take_bit_eq_mask [symmetric] word_unat_eq_iff)
    moreover have "(0x3f :: u32) = mask 6" by (simp add: mask_eq_exp_minus_1)
    ultimately have "old AND NOT 0x3f = old AND (mask 6 AND NOT (mask 6))" by (metis and.assoc)
    then show ?thesis by simp
  qed
  then have d: "dup fo p old stack s =
      (if fd_map p s (unat old) = None then Inr (Inl EBADF, s)
       else (case fdalloc p 0 s of
          (Inl e, s1) \<Rightarrow> Inr (Inl e, s1)
        | (Inr new, s1) \<Rightarrow> finishdup p (unat old) new s1))"
    by (auto simp: dup_def fd_map_def)
  show ?thesis
  proof (cases "fd_map p s (unat old)")
    case None
    then show ?thesis using d fd_upd_refl [OF assms(1,2)] by simp
  next
    case (Some a)
    obtain r s1 where f: "fdalloc p 0 s = (r, s1)" by fastforce
    note k = fdalloc_ok [OF assms(1,2) f]
    show ?thesis
    proof (cases r)
      case (Inl e)
      then show ?thesis using d Some f k by auto
    next
      case (Inr new)
      have new: "new < fd_lim p s" "new < length (fd_ofiles (tab p s1))" "fd_map p s new = None" "\<forall>j<new. fd_map p s j \<noteq> None"
        using k(10) Inr by auto
      have "fd_lim p s \<le> 65536" using assms(1) by (simp add: fs_ok_def fd_lim_def min.coboundedI2)
      then obtain s' where s': "finishdup p (unat old) new s1 = Inr (Inr new, s')" "fd_upd ext p s1 s'"
        "fd_map p s' = (fd_map p s1)(new \<mapsto> a)"
        using finishdup_ok [OF k(1,2), of "unat old" a new] Some new k(3) [of p] assms(4) [of a] k(4) by auto
      moreover have "fd_upd ext p s s'" by (rule fd_upd_trans [OF k(5,4) s'(2)])
      ultimately show ?thesis using d f Inr Some new k(3) by auto
    qed
  qed
qed

lemma fd_lower_spec:
  "fd_lower ofs n \<le> n \<and> (\<forall>j. fd_lower ofs n < j \<and> j \<le> n \<longrightarrow> ofs ! j = None)"
proof (induction ofs n rule: fd_lower.induct)
  case (2 ofs n)
  show ?case
  proof (cases "ofs ! Suc n")
    case None
    moreover have "j = Suc n \<or> j \<le> n" if "j \<le> Suc n" for j using that by auto
    ultimately show ?thesis using 2 [OF None] by (auto simp: le_Suc_eq)
  qed auto
qed simp

lemma fd_clear_ok: "tab_ok t \<Longrightarrow> fd < length (fd_ofiles t) \<Longrightarrow> tab_ok (fd_clear fd t)"
proof -
  assume t: "tab_ok t" "fd < length (fd_ofiles t)"
  let ?ofs = "(fd_ofiles t)[fd := None]"
  note l = fd_lower_spec [of ?ofs "fd_lastfile t"]
  have "?ofs ! j = None" if "fd_lower ?ofs (fd_lastfile t) < j" "j < length (fd_ofiles t)" for j
    using l that t(1) by (cases "j \<le> fd_lastfile t"; cases "j = fd") (auto simp: tab_ok_def)
  moreover have "fd_lower ?ofs (fd_lastfile t) < length (fd_ofiles t)" "fd_ofiles t \<noteq> []"
    using l t by (auto simp: tab_ok_def)
  moreover have "fd mod 65536 = fd" if "fd < fd_freefile t" using that t(1) by (simp add: tab_ok_def)
  ultimately show ?thesis using t by (auto simp: tab_ok_def fd_clear_def Let_def nth_list_update)
qed

lemma fs_ok_events [simp]: "fs_ok ext (s\<lparr>fevents := e\<rparr>) = fs_ok ext s" "live p (s\<lparr>fevents := e\<rparr>) = live p s"
  "fd_map p (s\<lparr>fevents := e\<rparr>) = fd_map p s" "nrefs (s\<lparr>fevents := e\<rparr>) = nrefs s" "heads_ok (s\<lparr>fevents := e\<rparr>) = heads_ok s"
  by (simp_all add: fs_ok_def heads_ok_def live_def fd_map_def nrefs_def fun_eq_iff)

lemma heads_ok_set_tab [simp]: "heads_ok (set_tab p t s) = heads_ok s"
  by (simp add: heads_ok_def)

lemma fs_ok_bound: "fs_ok ext s \<Longrightarrow> nrefs s a + ext a \<le> 32767"
  by (simp add: fs_ok_def)

lemma close_ok:
  assumes "fs_ok ext s" "live p s"
  shows "\<exists>r s'. close fo p fd s = Inr (r, s') \<and> fd_upd ext p s s' \<and>
    (case fd_map p s (unat fd) of
       None \<Rightarrow> r = Inl EBADF \<and> s' = s
     | Some a \<Rightarrow> fd_map p s' = (fd_map p s)(unat fd := None) \<and> (files s' a = None \<longleftrightarrow> nrefs s a + ext a = 1))"
proof (cases "fd_map p s (unat fd)")
  case None
  then have "close fo p fd s = Inr (Inl EBADF, s)" by (auto simp: close_def fd_map_def Let_def split: if_splits)
  then show ?thesis using fd_upd_refl [OF assms] None by simp
next
  case (Some a)
  note m = fd_map_Some [OF assms Some]
  let ?t = "fd_clear (unat fd) (tab p s)"
  define s1 where "s1 = (set_tab p ?t s)\<lparr>fevents := fevents s @
      (if fd_ofileflags (tab p s) ! unat fd AND UF_MAPPED \<noteq> 0 then [Munmapfd (unat fd)] else [])\<rparr>"
  have s1: "counted (\<lambda>a. nrefs s a + ext a) (files s1)" "heads_ok s1" "fds s1 = (fds s)[pr_fd p := ?t]" "maxfiles s1 = maxfiles s"
    using assms(1) by (simp_all add: s1_def fs_ok_def)
  obtain e s' where c: "closef fo (pr_advlock p) a s1 = Inr (e, s')"
    "counted ((\<lambda>a. nrefs s a + ext a)(a := nrefs s a + ext a - 1)) (files s')" "heads_ok s'" "fds s' = fds s1"
    "maxfiles s' = maxfiles s1" "files s' a = None \<longleftrightarrow> nrefs s a + ext a = 1"
    using closef_counted [OF s1(1) _ _ s1(2), of a fo "pr_advlock p"] m(3) fs_ok_bound [OF assms(1), of a] by auto
  have "close fo p fd s = Inr (case e of None \<Rightarrow> Inr () | Some e \<Rightarrow> Inl e, s')"
    using m(1,2) c(1) by (simp add: close_def Let_def s1_def not_le [symmetric] split: if_splits)
  moreover have "fd_upd ext p s s' \<and> fd_map p s' = (fd_map p s)(unat fd := None)"
  proof (rule fs_ok_slot [OF assms m(1) _ _ fd_clear_ok [OF tab_ok_live [OF assms] m(1)] c(2,3)])
    show "fds s' = (fds s)[pr_fd p := ?t]" "maxfiles s' = maxfiles s" using c(4,5) s1(3,4) by simp_all
    show "fd_ofiles ?t = (fd_ofiles (tab p s))[unat fd := None]" by (simp add: fd_clear_def Let_def)
  qed (use m(2,3) in auto)
  ultimately show ?thesis using Some c(5,6) s1(4) by simp
qed

lemma fd_lim_iff: "fd_lim p s \<le> n \<longleftrightarrow> pr_lim p \<le> n \<or> maxfiles s \<le> n"
  by (auto simp: fd_lim_def)

lemma fd_lim_bound: "fs_ok ext s \<Longrightarrow> n < fd_lim p s \<Longrightarrow> n < 65536"
  by (auto simp: fs_ok_def fd_lim_def)

text \<open>\<open>dup2\<close> onto a descriptor in use: the old file is released and the slot overwritten.\<close>

lemma dup2_over:
  assumes "fs_ok ext s" "live p s" "fd_map p s old = Some a" "fd_map p s new = Some b" "old \<noteq> new" "new < 65536"
    "\<And>a. nrefs s a + ext a < 32767"
  shows "\<exists>e s1 s'. closef fo adv b s = Inr (e, s1) \<and> finishdup p old new s1 = Inr (Inr new, s') \<and>
    fd_upd ext p s s' \<and> fd_map p s' = (fd_map p s)(new \<mapsto> a)"
proof -
  note a = fd_map_Some [OF assms(1-3)]
  note b = fd_map_Some [OF assms(1,2,4)]
  let ?N = "\<lambda>a. nrefs s a + ext a" and ?ofs = "fd_ofiles (tab p s)"
  define M where "M = ?N(b := ?N b - 1)"
  obtain e s1 where c: "closef fo adv b s = Inr (e, s1)" "counted M (files s1)" "heads_ok s1"
    "fds s1 = fds s" "maxfiles s1 = maxfiles s"
    using closef_counted [OF fs_ok_refs [OF assms(1)], of b fo adv] b(3) fs_ok_bound [OF assms(1), of b] assms(1)
    by (auto simp: fs_ok_def M_def)
  have two: "0 < M a"
  proof (cases "a = b")
    case True
    have "0 < count_list (?ofs[new := None]) (Some a)" using count_pos [of old "?ofs[new := None]"] a(1,2) assms(5) by simp
    then have "1 < count_list ?ofs (Some a)"
      using count_list_update [OF b(1), of None "Some a"] b(2) True by simp
    also have "count_list ?ofs (Some a) \<le> nrefs s a"
      unfolding nrefs_def using live_tab [OF assms(2)] by (intro member_le_sum_list) auto
    finally show ?thesis using True by (simp add: M_def)
  qed (use a(3) in \<open>simp add: M_def\<close>)
  have "M a < 32767" using assms(7) [of a] by (auto simp: M_def)
  then obtain s' t where f: "finishdup p old new s1 = Inr (Inr new, s')" "counted (M(a := M a + 1)) (files s')" "heads_ok s'"
    "maxfiles s' = maxfiles s1" "fds s' = (fds s)[pr_fd p := t]" "fd_ofiles t = ?ofs[new := Some a]" "tab_ok t"
    using finishdup_counted [OF c(2,3) _ two, of p old new] a(2) c(4) assms(6) b(1) tab_ok_live [OF assms(1,2)] by auto
  have "(M(a := M a + 1)) x + (if ?ofs ! new = Some x then 1 else 0) = nrefs s x + ext x + (if Some a = Some x then 1 else 0)" for x
    using b(2,3) by (auto simp: M_def)
  then have "fd_upd ext p s s' \<and> fd_map p s' = (fd_map p s)(new := Some a)"
    by (intro fs_ok_slot [OF assms(1,2) b(1) f(5,6,7,2,3)]) (use f(4) c(5) assms(7) in auto)
  with c f show ?thesis by auto
qed

lemma dup2_ok:
  assumes "fs_ok ext s" "live p s" "sint from = int old" "sint to = int new" "\<And>a. nrefs s a + ext a < 32767"
  shows "\<exists>r s'. dup2 fo p from to s = Inr (r, s') \<and> fd_upd ext p s s' \<and>
    (case r of
       Inl e \<Rightarrow> e = EBADF \<and> s' = s \<and> (fd_map p s old = None \<or> fd_lim p s \<le> new)
     | Inr n \<Rightarrow> n = new \<and> fd_map p s old \<noteq> None \<and> new < fd_lim p s \<and> fd_map p s' = (fd_map p s)(new := fd_map p s old))"
proof -
  let ?n = "length (fd_ofiles (tab p s))"
  consider (bad) "fd_map p s old = None \<or> fd_lim p s \<le> new"
    | (same) a where "fd_map p s old = Some a" "new < fd_lim p s" "old = new"
    | (grow) a where "fd_map p s old = Some a" "new < fd_lim p s" "old \<noteq> new" "?n \<le> new"
    | (free) a where "fd_map p s old = Some a" "new < fd_lim p s" "old \<noteq> new" "new < ?n" "fd_map p s new = None"
    | (over) a b where "fd_map p s old = Some a" "new < fd_lim p s" "old \<noteq> new" "new < ?n" "fd_map p s new = Some b"
    by (metis not_None_eq not_le)
  then show ?thesis
  proof cases
    case bad
    then have "dup2 fo p from to s = Inr (Inl EBADF, s)"
      using assms(3,4) by (auto simp: dup2_def Let_def fd_map_def fd_lim_iff split: if_splits)
    then show ?thesis using fd_upd_refl [OF assms(1,2)] bad by simp
  next
    case same
    then have "dup2 fo p from to s = Inr (Inr new, s)"
      using assms(3,4) fd_map_Some(1,2) [OF assms(1,2) same(1)] by (auto simp: dup2_def Let_def fd_lim_def)
    then show ?thesis using fd_upd_refl [OF assms(1,2)] same by (simp add: fun_upd_idem)
  next
    case grow
    note m = fd_map_Some [OF assms(1,2) grow(1)]
    obtain r s1 where f: "fdalloc p new s = (r, s1)" by fastforce
    note k = fdalloc_ok [OF assms(1,2) f]
    have z: "fd_map p s new = None" using grow(4) by (simp add: fd_map_def)
    have r: "r = Inr new \<and> new < length (fd_ofiles (tab p s1))"
    proof (cases r)
      case (Inl e)
      then show ?thesis using k(10) z grow(2) by auto
    next
      case (Inr i)
      then have i: "new \<le> i" "i < length (fd_ofiles (tab p s1))" "\<forall>k. new \<le> k \<and> k < i \<longrightarrow> fd_map p s k \<noteq> None"
        using k(10) by simp_all
      have "\<not> new < i" using i(3) z by blast
      then show ?thesis using i(1,2) Inr by simp
    qed
    then obtain s' where s': "finishdup p old new s1 = Inr (Inr new, s')" "fd_upd ext p s1 s'"
      "fd_map p s' = (fd_map p s1)(new \<mapsto> a)"
      using finishdup_ok [OF k(1,2), of old a new] grow z k(3) [of p] k(4) assms(5) [of a] fd_lim_bound [OF assms(1) grow(2)]
      by auto
    moreover have "dup2 fo p from to s = finishdup p old new s1"
      using assms(3,4) m(1,2) grow f r by (simp add: dup2_def Let_def fd_lim_def)
    moreover have "fd_upd ext p s s'" by (rule fd_upd_trans [OF k(5,4) s'(2)])
    ultimately show ?thesis using k(3) grow by auto
  next
    case free
    note m = fd_map_Some [OF assms(1,2) free(1)]
    have "dup2 fo p from to s = finishdup p old new s"
      using assms(3,4) m(1,2) free by (auto simp: dup2_def Let_def fd_lim_def fd_map_def split: if_splits)
    moreover obtain s' where "finishdup p old new s = Inr (Inr new, s')" "fd_upd ext p s s'"
      "fd_map p s' = (fd_map p s)(new \<mapsto> a)"
      using finishdup_ok [OF assms(1,2) free(1,5,4) _ assms(5)] fd_lim_bound [OF assms(1) free(2)] by blast
    ultimately show ?thesis using free by auto
  next
    case over
    note m = fd_map_Some [OF assms(1,2) over(1)] fd_map_Some(2) [OF assms(1,2) over(5)]
    define s0 where "s0 = (if fd_ofileflags (tab p s) ! new AND UF_MAPPED \<noteq> 0
                      then s\<lparr>fevents := fevents s @ [Munmapfd new]\<rparr> else s)"
    have s0: "fs_ok ext s0" "live p s0" "fd_map q s0 = fd_map q s" "nrefs s0 = nrefs s" "fd_upd ext p s s0" for q
      using assms(1,2) by (simp_all add: s0_def fd_upd_def)
    obtain e s1 s' where c: "closef fo (pr_advlock p) b s0 = Inr (e, s1)" "finishdup p old new s1 = Inr (Inr new, s')"
      "fd_upd ext p s0 s'" "fd_map p s' = (fd_map p s0)(new \<mapsto> a)"
      using dup2_over [OF s0(1,2), of old a new b fo "pr_advlock p"] over s0(3,4) assms(5) fd_lim_bound [OF assms(1) over(2)]
      by auto
    moreover have "dup2 fo p from to s = Inr (Inr new, s')"
      using assms(3,4) m over c(1,2) by (simp add: dup2_def Let_def fd_lim_def s0_def split: if_splits)
    moreover have "fd_upd ext p s s'" by (rule fd_upd_trans [OF s0(5,4) c(3)])
    ultimately show ?thesis using over s0(3) by auto
  qed
qed

lemma list_insert_after_ok:
  "x \<in> set xs \<Longrightarrow> distinct xs \<Longrightarrow> y \<notin> set xs \<Longrightarrow>
     distinct (list_insert_after x y xs) \<and> set (list_insert_after x y xs) = insert y (set xs) \<and>
     length (list_insert_after x y xs) = Suc (length xs)"
  by (induction xs) auto

lemma falloc_ok:
  assumes "fs_ok ext s" "live p s" "files s a = None"
  shows "\<exists>r s'. falloc a p s = Inr (r, s') \<and> fd_upd ext p s s' \<and>
    (case r of
       Inl e \<Rightarrow> fd_map p s' = fd_map p s \<and> files s' = files s \<and>
         (e = EMFILE \<and> (\<forall>k<fd_lim p s. fd_map p s k \<noteq> None) \<or> e = ENFILE \<and> maxfiles s \<le> nfiles s)
     | Inr (fp, i) \<Rightarrow> fp = a \<and> i < fd_lim p s \<and> fd_map p s i = None \<and> (\<forall>k<i. fd_map p s k \<noteq> None) \<and>
         fd_map p s' = (fd_map p s)(i \<mapsto> a) \<and> map_option f_count (files s' a) = Some 1)"
proof -
  obtain r s1 where f: "fdalloc p 0 s = (r, s1)" by fastforce
  note k = fdalloc_ok [OF assms(1,2) f]
  show ?thesis
  proof (cases r)
    case (Inl e)
    then show ?thesis using k f by (auto simp: falloc_def)
  next
    case (Inr i)
    then have i: "i < fd_lim p s" "i < length (fd_ofiles (tab p s1))" "i \<le> fd_lastfile (tab p s1)" "fd_map p s i = None"
      "\<forall>j<i. fd_map p s j \<noteq> None" using k(10) by simp_all
    show ?thesis
    proof (cases "maxfiles s \<le> nfiles s")
      case True
      then show ?thesis using k Inr f by (auto simp: falloc_def)
    next
      case False
      let ?fp = "\<lparr>f_flag = 0, f_type = DTYPE_NONE, f_count = 1, f_cred = pr_cred p, f_offset = 0, f_ops = False\<rparr>"
      let ?t = "(tab p s1)\<lparr>fd_ofiles := (fd_ofiles (tab p s1))[i := Some a]\<rparr>"
      obtain s' where s': "falloc a p s = Inr (Inr (a, i), s')" "fds s' = (fds s1)[pr_fd p := ?t]"
        "files s' = (files s1)(a \<mapsto> ?fp)" "maxfiles s' = maxfiles s1" "nfiles s' = nfiles s1 + 1"
        "filehead s' = (case fd_ofiles (tab p s1) ! 0 of
                     Some fq \<Rightarrow> list_insert_after fq a (filehead s1) | None \<Rightarrow> a # filehead s1)"
        using f Inr False k(7,8) by (simp add: falloc_def Let_def)
      have N: "nrefs s1 a + ext a = 0"
        using counted_None [OF fs_ok_refs [OF k(1)], of a] assms(3) k(6) by simp
      then have cnt: "counted ((\<lambda>a. nrefs s1 a + ext a)(a := 1)) (files s')"
        unfolding s'(3) by (intro counted_set [OF fs_ok_refs [OF k(1)]]) simp_all
      have z: "fq \<in> set (filehead s1)" if "fd_ofiles (tab p s1) ! 0 = Some fq" for fq
      proof -
        have "0 < length (fd_ofiles (tab p s1))" using i(2) by linarith
        then have "fq \<in> dom (files s1)" using fd_map_Some(4) [OF k(1,2), of 0 fq] that by (simp add: fd_map_def)
        then show ?thesis using k(1) by (simp add: fs_ok_def heads_ok_def)
      qed
      have h: "heads_ok s1" "a \<notin> set (filehead s1)" using k(1,6) assms(3) by (auto simp: fs_ok_def heads_ok_def)
      have "heads_ok s'"
      proof (cases "fd_ofiles (tab p s1) ! 0")
        case None
        then show ?thesis using h by (simp add: heads_ok_def s'(3,5,6) insert_commute)
      next
        case (Some fq)
        then show ?thesis using h list_insert_after_ok [OF z [OF Some] _ h(2)] by (simp add: heads_ok_def s'(3,5,6))
      qed
      moreover have free: "fd_ofiles (tab p s1) ! i = None" using i(2,4) k(3) [of p] by (simp add: fd_map_def fun_eq_iff) metis
      moreover have "tab_ok ?t" using tab_ok_live [OF k(1,2)] i(2,3) by (auto simp: tab_ok_def nth_list_update)
      ultimately have u: "fd_upd ext p s1 s' \<and> fd_map p s' = (fd_map p s1)(i := Some a)"
        by (intro fs_ok_slot [OF k(1,2) i(2) s'(2) _ _ cnt _ s'(4)]) (use N in auto)
      then show ?thesis using s'(1,3) i k(3) fd_upd_trans [OF k(5,4)] by auto
    qed
  qed
qed

section \<open>Whole tables\<close>

lemma hold_all_counted:
  "counted N fs \<Longrightarrow> (\<And>a. Some a \<in> set os \<Longrightarrow> 0 < N a) \<Longrightarrow> (\<And>a. N a + count_list os (Some a) \<le> 32767) \<Longrightarrow>
     \<exists>fs'. hold_all os fs = Some fs' \<and> counted (\<lambda>a. N a + count_list os (Some a)) fs' \<and> dom fs' = dom fs"
proof (induction os fs arbitrary: N rule: hold_all.induct)
  case (2 os fs)
  then show ?case by simp
next
  case (3 a os fs)
  have "0 < N a" using "3.prems"(2) by simp
  then obtain fp where fp: "fs a = Some fp" "f_count fp = int (N a)" using counted_Some "3.prems"(1) by blast
  let ?N = "N(a := N a + 1)"
  have "N a + 1 \<le> 32767" using "3.prems"(3) [of a] by simp
  then have w: "wrap16 (f_count fp + 1) = int (N a + 1)" by (simp add: fp(2) wrap16_id)
  have c: "counted ?N (fs(a \<mapsto> fp\<lparr>f_count := wrap16 (f_count fp + 1)\<rparr>))"
    using counted_set [OF "3.prems"(1)] w by simp
  have "\<exists>fs'. hold_all os (fs(a \<mapsto> fp\<lparr>f_count := wrap16 (f_count fp + 1)\<rparr>)) = Some fs' \<and>
      counted (\<lambda>x. ?N x + count_list os (Some x)) fs' \<and> dom fs' = dom (fs(a \<mapsto> fp\<lparr>f_count := wrap16 (f_count fp + 1)\<rparr>))"
  proof (rule "3.IH" [OF fp(1) c])
    show "0 < ?N x" if "Some x \<in> set os" for x using "3.prems"(2) [of x] that by simp
    show "?N x + count_list os (Some x) \<le> 32767" for x using "3.prems"(3) [of x] by auto
  qed
  moreover have "(\<lambda>x. ?N x + count_list os (Some x)) = (\<lambda>x. N x + count_list (Some a # os) (Some x))" by auto
  ultimately show ?case using fp(1) by (auto simp: insert_absorb)
qed simp

lemma close_all_counted:
  "counted N (files s) \<Longrightarrow> heads_ok s \<Longrightarrow> (\<And>a. count_list os (Some a) \<le> N a) \<Longrightarrow> (\<And>a. N a \<le> 32767) \<Longrightarrow>
     \<exists>s'. close_all fo adv os s = Inr s' \<and> counted (\<lambda>a. N a - count_list os (Some a)) (files s') \<and> heads_ok s' \<and>
       fds s' = fds s \<and> maxfiles s' = maxfiles s"
proof (induction fo adv os s arbitrary: N rule: close_all.induct)
  case (2 fo adv os s)
  then show ?case by simp
next
  case (3 fo adv a os s)
  have "0 < N a" using "3.prems"(3) [of a] by simp
  then obtain e s1 where c: "closef fo adv a s = Inr (e, s1)" "counted (N(a := N a - 1)) (files s1)" "heads_ok s1"
    "fds s1 = fds s" "maxfiles s1 = maxfiles s"
    using closef_counted [OF "3.prems"(1) _ "3.prems"(4) "3.prems"(2), of a fo adv] by blast
  have "\<exists>s'. close_all fo adv os s1 = Inr s' \<and> counted (\<lambda>x. (N(a := N a - 1)) x - count_list os (Some x)) (files s') \<and>
      heads_ok s' \<and> fds s' = fds s1 \<and> maxfiles s' = maxfiles s1"
  proof (rule "3.IH" [OF c(1) refl c(2,3)])
    show "count_list os (Some x) \<le> (N(a := N a - 1)) x" for x using "3.prems"(3) [of x] by auto
    show "(N(a := N a - 1)) x \<le> 32767" for x using "3.prems"(4) [of x] by auto
  qed
  moreover have "(\<lambda>x. (N(a := N a - 1)) x - count_list os (Some x)) = (\<lambda>x. N x - count_list (Some a # os) (Some x))" by auto
  ultimately show ?case using c(1,4,5) by auto
qed simp

lemma count_list_take:
  "(\<And>j. n \<le> j \<Longrightarrow> j < length xs \<Longrightarrow> xs ! j = None) \<Longrightarrow> count_list (take n xs) (Some a) = count_list xs (Some a)"
proof -
  assume n: "\<And>j. n \<le> j \<Longrightarrow> j < length xs \<Longrightarrow> xs ! j = None"
  have "drop n xs = replicate (length xs - n) None" by (rule nth_equalityI) (use n in simp_all)
  then have "xs = take n xs @ replicate (length xs - n) None" by (metis append_take_drop_id)
  then show ?thesis by (metis count_list_replicate_None)
qed

lemma tab_ok_count:
  "tab_ok t \<Longrightarrow> fd_lastfile t < n \<Longrightarrow> count_list (take n (fd_ofiles t)) (Some a) = count_list (fd_ofiles t) (Some a)"
  by (rule count_list_take) (auto simp: tab_ok_def)

lemma fd_shrink_ok:
  "fd_sized n \<Longrightarrow> l < n \<Longrightarrow> fd_sized (fd_shrink n l) \<and> l < fd_shrink n l \<and> fd_shrink n l \<le> n"
proof (induction n l rule: fd_shrink.induct)
  case (1 n l)
  show ?case
  proof (cases "2 * NDEXTENT < n \<and> l * 2 < n")
    case True
    then obtain k where "n = NDEXTENT * 2 ^ k" using "1.prems"(1) by (auto simp: fd_sized_def)
    moreover from this True obtain j where "k = Suc j" by (cases k) auto
    ultimately have n: "n = 2 * (NDEXTENT * 2 ^ j)" by simp
    then have "fd_sized (n div 2)" "l < n div 2" using True by (auto simp: fd_sized_def)
    then have "fd_sized (fd_shrink (n div 2) l) \<and> l < fd_shrink (n div 2) l \<and> fd_shrink (n div 2) l \<le> n div 2"
      using "1.IH" [OF True] by simp
    moreover have "fd_shrink n l = fd_shrink (n div 2) l" using True by (subst fd_shrink.simps) simp
    ultimately show ?thesis by auto
  next
    case False
    then have "fd_shrink n l = n" by (subst fd_shrink.simps) auto
    then show ?thesis using "1.prems" by simp
  qed
qed

lemma freefile_le: "tab_ok t \<Longrightarrow> fd_freefile t \<le> Suc (fd_lastfile t)"
  unfolding tab_ok_def by (metis Suc_leI less_le_trans lessI not_less)

text \<open>The table a child gets: cut to size, it still holds all descriptors.\<close>

lemma fdcopy_tab:
  assumes "tab_ok t" "fd_ofiles t \<noteq> []"
    "i = (if fd_lastfile t < NDFILE then NDFILE else fd_shrink (length (fd_ofiles t)) (fd_lastfile t))"
  shows "i \<le> length (fd_ofiles t)" "fd_lastfile t < i"
    "tab_ok (t\<lparr>fd_ofiles := take i (fd_ofiles t), fd_ofileflags := take i (fd_ofileflags t), fd_refcnt := 1\<rparr>)"
    "count_list (take i (fd_ofiles t)) (Some a) = count_list (fd_ofiles t) (Some a)"
    "count_list (take (Suc (fd_lastfile t)) (take i (fd_ofiles t))) (Some a) = count_list (fd_ofiles t) (Some a)"
proof -
  have n: "fd_sized (length (fd_ofiles t))" "fd_lastfile t < length (fd_ofiles t)" "0 < length (fd_ofiles t)"
    using assms(1,2) by (simp_all add: tab_ok_def)
  have i: "fd_sized i \<and> fd_lastfile t < i \<and> i \<le> length (fd_ofiles t)"
  proof (cases "fd_lastfile t < NDFILE")
    case True
    then show ?thesis using fd_sized_ge [OF n(1,3)] assms(3) by (simp add: fd_sized_def)
  next
    case False
    then show ?thesis using fd_shrink_ok [OF n(1,2)] assms(3) by simp
  qed
  then show "i \<le> length (fd_ofiles t)" "fd_lastfile t < i" by simp_all
  show "count_list (take i (fd_ofiles t)) (Some a) = count_list (fd_ofiles t) (Some a)"
    "count_list (take (Suc (fd_lastfile t)) (take i (fd_ofiles t))) (Some a) = count_list (fd_ofiles t) (Some a)"
    using tab_ok_count [OF assms(1)] i by (simp_all add: min_def Suc_le_eq)
  have "fd_freefile t \<le> i" using freefile_le [OF assms(1)] i by simp
  then show "tab_ok (t\<lparr>fd_ofiles := take i (fd_ofiles t), fd_ofileflags := take i (fd_ofileflags t), fd_refcnt := 1\<rparr>)"
    using assms(1) i by (auto simp: tab_ok_def)
qed

lemma count_le_nrefs: "live p s \<Longrightarrow> count_list (fd_ofiles (tab p s)) (Some a) \<le> nrefs s a"
  unfolding nrefs_def live_def by (intro member_le_sum_list) auto

lemma fdcopy_ok:
  assumes "fs_ok ext s" "live p s" "\<And>a. nrefs s a + count_list (fd_ofiles (tab p s)) (Some a) + ext a \<le> 32767"
  shows "\<exists>s'. fdcopy p s = Inr (length (fds s), s') \<and> fs_ok ext s' \<and> live (p\<lparr>pr_fd := length (fds s)\<rparr>) s' \<and>
    maxfiles s' = maxfiles s \<and> fd_map (p\<lparr>pr_fd := length (fds s)\<rparr>) s' = fd_map p s \<and>
    (\<forall>q. pr_fd q < length (fds s) \<longrightarrow> fd_map q s' = fd_map q s)"
proof -
  let ?t = "tab p s" and ?N = "\<lambda>a. nrefs s a + ext a" and ?c = "\<lambda>a. count_list (fd_ofiles (tab p s)) (Some a)"
  define i where "i = (if fd_lastfile ?t < NDFILE then NDFILE else fd_shrink (length (fd_ofiles ?t)) (fd_lastfile ?t))"
  define t' where "t' = ?t\<lparr>fd_ofiles := take i (fd_ofiles ?t), fd_ofileflags := take i (fd_ofileflags ?t), fd_refcnt := 1\<rparr>"
  have l: "fd_ofiles ?t \<noteq> []" using assms(2) by (simp add: live_def)
  note k = fdcopy_tab [OF tab_ok_live [OF assms(1,2)] l i_def, folded t'_def]
  let ?os = "take (Suc (fd_lastfile ?t)) (fd_ofiles t')"
  have c: "count_list ?os (Some a) = ?c a" for a using k(5) by (simp add: t'_def)
  have "\<exists>fs. hold_all ?os (files s) = Some fs \<and> counted (\<lambda>a. ?N a + count_list ?os (Some a)) fs \<and> dom fs = dom (files s)"
  proof (rule hold_all_counted [OF fs_ok_refs [OF assms(1)]])
    fix a assume "Some a \<in> set ?os"
    then have "0 < ?c a" using c [of a] by (metis count_list_0_iff gr0I)
    then show "0 < ?N a" using count_le_nrefs [OF assms(2), of a] by simp
  qed (use assms(3) c in \<open>simp add: ac_simps\<close>)
  then obtain fs where fs: "hold_all ?os (files s) = Some fs" "counted (\<lambda>a. ?N a + ?c a) fs" "dom fs = dom (files s)"
    unfolding c by blast
  let ?s = "s\<lparr>fds := fds s @ [t'], files := fs\<rparr>"
  have "fdcopy p s = Inr (length (fds s), ?s)"
    using k(1,2) fs(1) by (simp add: fdcopy_def Let_def i_def [symmetric] t'_def [symmetric] del: take_take) (simp add: t'_def)
  moreover have n: "nrefs ?s a = nrefs s a + ?c a" for a using k(4) by (simp add: nrefs_def t'_def)
  have "fs_ok ext ?s"
    unfolding fs_ok_def
  proof (intro conjI allI)
    show "counted (\<lambda>a. nrefs ?s a + ext a) (files ?s)" using fs(2) by (simp add: n ac_simps)
    show "\<forall>t\<in>set (fds ?s). tab_ok t" using assms(1) k(3) by (auto simp: fs_ok_def)
    show "nrefs ?s a + ext a \<le> 32767" for a using assms(3) [of a] by (simp add: n)
  qed (use assms(1) fs(3) in \<open>simp_all add: fs_ok_def heads_ok_def\<close>)
  moreover have "fd_map (p\<lparr>pr_fd := length (fds s)\<rparr>) ?s = fd_map p s"
  proof
    fix j
    have "fd_ofiles ?t ! j = None" if "j < length (fd_ofiles ?t)" "\<not> j < i"
      using that k(2) tab_ok_live [OF assms(1,2)] by (auto simp: tab_ok_def)
    then show "fd_map (p\<lparr>pr_fd := length (fds s)\<rparr>) ?s j = fd_map p s j"
      using k(1) by (simp add: fd_map_def t'_def nth_append)
  qed
  moreover have "fd_ofiles t' \<noteq> []" using k(1,2) l by (simp add: t'_def)
  ultimately show ?thesis by (intro exI [of _ ?s]) (auto simp: live_def fd_map_def nth_append fun_eq_iff)
qed

lemma fdfree_ok:
  assumes "fs_ok ext s" "live p s" "fd_refcnt (tab p s) \<le> 1"
  shows "\<exists>s'. fdfree fo p s = Inr s' \<and> fs_ok ext s' \<and> maxfiles s' = maxfiles s \<and> fd_map p s' = Map.empty \<and>
    (\<forall>q. pr_fd q \<noteq> pr_fd p \<longrightarrow> fd_map q s' = fd_map q s) \<and>
    (\<forall>a. nrefs s' a = nrefs s a - count_list (fd_ofiles (tab p s)) (Some a))"
proof -
  let ?t = "tab p s" and ?N = "\<lambda>a. nrefs s a + ext a" and ?c = "\<lambda>a. count_list (fd_ofiles (tab p s)) (Some a)"
  let ?e = "?t\<lparr>fd_ofiles := [], fd_ofileflags := [], fd_lastfile := 0, fd_freefile := 0, fd_refcnt := 0\<rparr>"
  let ?os = "take (Suc (fd_lastfile ?t)) (fd_ofiles ?t)"
  note t = tab_ok_live [OF assms(1,2)]
  have c: "count_list ?os (Some a) = ?c a" for a using tab_ok_count [OF t] by simp
  have le: "?c a \<le> nrefs s a" for a by (rule count_le_nrefs [OF assms(2)])
  have "\<exists>s'. close_all fo (pr_advlock p) ?os (set_tab p ?e s) = Inr s' \<and> counted (\<lambda>a. ?N a - count_list ?os (Some a)) (files s') \<and>
      heads_ok s' \<and> fds s' = fds (set_tab p ?e s) \<and> maxfiles s' = maxfiles (set_tab p ?e s)"
  proof (rule close_all_counted)
    show "count_list ?os (Some a) \<le> ?N a" for a using le [of a] by (simp add: c)
    show "?N a \<le> 32767" for a by (rule fs_ok_bound [OF assms(1)])
  qed (use assms(1) in \<open>simp_all add: fs_ok_def\<close>)
  then obtain s' where s': "close_all fo (pr_advlock p) ?os (set_tab p ?e s) = Inr s'" "counted (\<lambda>a. ?N a - ?c a) (files s')"
    "heads_ok s'" "fds s' = (fds s)[pr_fd p := ?e]" "maxfiles s' = maxfiles s" unfolding c by auto
  have n: "nrefs s' a = nrefs s a - ?c a" for a
    using nrefs_set_tab [OF live_tab [OF assms(2)], of ?e a] nrefs_cong [of s' "set_tab p ?e s"] s'(4) by simp
  have "fs_ok ext s'"
    unfolding fs_ok_def
  proof (intro conjI allI)
    have "(\<lambda>a. nrefs s' a + ext a) = (\<lambda>a. ?N a - ?c a)" using le by (auto simp: n)
    then show "counted (\<lambda>a. nrefs s' a + ext a) (files s')" using s'(2) by simp
    have "tab_ok ?e" by (simp add: tab_ok_def fd_sized_def)
    then show "\<forall>t\<in>set (fds s'). tab_ok t"
      using assms(1) by (auto simp: s'(4) fs_ok_def dest!: set_update_subset_insert [THEN subsetD])
    show "nrefs s' a + ext a \<le> 32767" for a using fs_ok_bound [OF assms(1), of a] by (simp add: n)
  qed (use assms(1) s'(3,5) in \<open>simp_all add: fs_ok_def\<close>)
  moreover have "fdfree fo p s = Inr s'"
    using s'(1) assms(2,3) t by (auto simp: fdfree_def Let_def tab_ok_def live_def)
  ultimately show ?thesis using s'(4,5) live_tab [OF assms(2)] n by (auto simp: fd_map_def fun_eq_iff)
qed

section \<open>Sequences of calls\<close>

text \<open>
  Calls of the processes. \<open>Falloc p a\<close> stands for the allocation in \<^verbatim>\<open>open\<close>, \<^verbatim>\<open>socket\<close> or \<^verbatim>\<open>pipe\<close>, at an address \<open>a\<close> that is not in
  use (\<^verbatim>\<open>malloc\<close> returns no other).
\<close>

datatype fdcall = Dup fproc u32 | Dup2 fproc u32 u32 | Close fproc u32 | Falloc fproc nat

definition fd_step :: "(nat \<Rightarrow> errno option) \<Rightarrow> fdcall \<Rightarrow> fsys \<Rightarrow> fd_fault + fsys" where
  "fd_step fo c s = (case c of
      Dup p fd \<Rightarrow> map_sum id snd (dup fo p fd 0 s)
    | Dup2 p from to \<Rightarrow> map_sum id snd (dup2 fo p from to s)
    | Close p fd \<Rightarrow> map_sum id snd (close fo p fd s)
    | Falloc p a \<Rightarrow> if files s a = None then map_sum id snd (falloc a p s) else Inr s)"

definition fd_ready :: "(nat \<Rightarrow> nat) \<Rightarrow> nat \<Rightarrow> nat \<Rightarrow> fsys \<Rightarrow> bool" where
  "fd_ready ext m n s \<longleftrightarrow> fs_ok ext s \<and> length (fds s) = m \<and> (\<forall>p. pr_fd p < m \<longrightarrow> live p s) \<and> (\<forall>a. nrefs s a + ext a + n \<le> 32767)"

text \<open>The arguments of \<open>dup2\<close> must not be negative and that of \<open>dup\<close> not 64 or more.\<close>

fun fd_allowed :: "nat \<Rightarrow> fdcall \<Rightarrow> bool" where
  "fd_allowed m (Dup p fd) \<longleftrightarrow> pr_fd p < m \<and> unat fd < 64"
| "fd_allowed m (Dup2 p from to) \<longleftrightarrow> pr_fd p < m \<and> 0 \<le> sint from \<and> 0 \<le> sint to"
| "fd_allowed m (Close p fd) \<longleftrightarrow> pr_fd p < m"
| "fd_allowed m (Falloc p a) \<longleftrightarrow> pr_fd p < m"

lemma fd_upd_ready:
  assumes "fd_ready ext m (Suc n) s" "pr_fd p < m" "fd_upd ext p s s'"
  shows "fd_ready ext m n s'"
proof -
  have "live q s'" if "pr_fd q < m" for q
    using assms that by (cases "pr_fd q = pr_fd p") (auto simp: fd_ready_def fd_upd_def live_def)
  moreover have "nrefs s' a + ext a + n \<le> 32767" for a
  proof -
    have "nrefs s' a \<le> Suc (nrefs s a)" "nrefs s a + ext a + Suc n \<le> 32767" using assms(1,3) by (simp_all add: fd_ready_def fd_upd_def)
    then show ?thesis by simp
  qed
  ultimately show ?thesis using assms(1,3) by (simp add: fd_ready_def fd_upd_def)
qed

lemma fd_step_safe:
  assumes "fd_ready ext m (Suc n) s" "fd_allowed m c"
  shows "\<exists>s'. fd_step fo c s = Inr s' \<and> fd_ready ext m n s'"
proof -
  have ok: "fs_ok ext s" "pr_fd p < m \<Longrightarrow> live p s" for p using assms(1) by (simp_all add: fd_ready_def)
  have room: "nrefs s a + ext a < 32767" for a
  proof -
    have "nrefs s a + ext a + Suc n \<le> 32767" using assms(1) by (simp add: fd_ready_def)
    then show ?thesis by linarith
  qed
  have "\<exists>p s'. pr_fd p < m \<and> fd_step fo c s = Inr s' \<and> (fd_upd ext p s s')"
  proof (cases c)
    case (Dup p fd)
    then have a: "live p s" "unat fd < 64" "pr_fd p < m" using ok(2) assms(2) by simp_all
    obtain r s' where "dup fo p fd 0 s = Inr (r, s')" "fd_upd ext p s s'" using dup_ok [OF ok(1) a(1,2) room, of fo 0] by blast
    then show ?thesis using Dup a(3) by (auto simp: fd_step_def)
  next
    case (Dup2 p src dst)
    then have a: "live p s" "sint src = int (nat (sint src))" "sint dst = int (nat (sint dst))" "pr_fd p < m"
      using ok(2) assms(2) by simp_all
    obtain r s' where "dup2 fo p src dst s = Inr (r, s')" "fd_upd ext p s s'" using dup2_ok [OF ok(1) a(1-3) room, of fo] by blast
    then show ?thesis using Dup2 a(4) by (auto simp: fd_step_def)
  next
    case (Close p fd)
    then have a: "live p s" "pr_fd p < m" using ok(2) assms(2) by simp_all
    obtain r s' where "close fo p fd s = Inr (r, s')" "fd_upd ext p s s'" using close_ok [OF ok(1) a(1), of fo fd] by blast
    then show ?thesis using Close a(2) by (auto simp: fd_step_def)
  next
    case (Falloc p a)
    then have l: "live p s" "pr_fd p < m" using ok(2) assms(2) by simp_all
    show ?thesis
    proof (cases "files s a")
      case None
      obtain r s' where "falloc a p s = Inr (r, s')" "fd_upd ext p s s'" using falloc_ok [OF ok(1) l(1) None] by blast
      then show ?thesis using Falloc None l(2) by (auto simp: fd_step_def)
    next
      case (Some fp)
      then show ?thesis using Falloc l fd_upd_refl [OF ok(1) l(1)] by (auto simp: fd_step_def)
    qed
  qed
  then show ?thesis using fd_upd_ready [OF assms(1)] by blast
qed

interpretation fdc: safe_calls "fd_step fo" "fd_ready ext m" "fd_allowed m" for fo ext m
  by unfold_locales (rule fd_step_safe)

section \<open>Properties\<close>

text \<open>A system with two processes that share the file 7; the first also holds the file 9.\<close>

definition fproc_v :: fproc where
  "fproc_v = \<lparr>pr_fd = 0, pr_lim = 64, pr_advlock = True, pr_cred = 1\<rparr>"

definition fsys_v :: fsys where
  "fsys_v = \<lparr>fds = [\<lparr>fd_ofiles = [Some 7, Some 9, Some 7] @ replicate 17 None, fd_ofileflags = replicate 20 0, fd_lastfile = 2,
                     fd_freefile = 3, fd_refcnt = 1\<rparr>,
                   \<lparr>fd_ofiles = [Some 7] @ replicate 19 None, fd_ofileflags = replicate 20 0, fd_lastfile = 0,
                     fd_freefile = 1, fd_refcnt = 1\<rparr>],
     files = [7 \<mapsto> \<lparr>f_flag = 3, f_type = DTYPE_VNODE, f_count = 3, f_cred = 1, f_offset = 0, f_ops = True\<rparr>,
              9 \<mapsto> \<lparr>f_flag = 1, f_type = DTYPE_SOCKET, f_count = 1, f_cred = 1, f_offset = 0, f_ops = True\<rparr>],
     filehead = [9, 7], nfiles = 2, maxfiles = 100, cr_ref = (\<lambda>_. 0), fevents = []\<rparr>"

lemma fsys_v_refs: "nrefs fsys_v a = (if a = 7 then 3 else if a = 9 then 1 else 0)"
  by (simp add: nrefs_def fsys_v_def)

lemma all_less_20: "(\<forall>j<20. P j) \<longleftrightarrow> (\<forall>j\<in>set [0..<20]. P j)" for P :: "nat \<Rightarrow> bool"
  by (auto simp: atLeast0LessThan)

lemma fsys_v_ok: "fs_ok (\<lambda>_. 0) fsys_v" "pr_fd p < 2 \<Longrightarrow> live p fsys_v"
proof -
  have "counted (\<lambda>a. nrefs fsys_v a + 0) (files fsys_v)" by (simp add: counted_def fsys_v_refs) (simp add: fsys_v_def)
  moreover have "\<forall>t\<in>set (fds fsys_v). tab_ok t"
    by (simp add: fsys_v_def tab_ok_def fd_sized_def all_less_20 upt_rec less_Suc_eq numeral_3_eq_3)
  moreover have "heads_ok fsys_v" by (auto simp: heads_ok_def fsys_v_def)
  ultimately show "fs_ok (\<lambda>_. 0) fsys_v" by (simp add: fs_ok_def fsys_v_refs) (simp add: fsys_v_def)
  show "pr_fd p < 2 \<Longrightarrow> live p fsys_v" by (auto simp: live_def fsys_v_def less_2_cases_iff)
qed

text \<open>C24. A new descriptor is the lowest one, not below \<open>want\<close>, that is free: \<open>fdalloc\<close> returns it whenever one lies below
  the process's limit, growing the table if necessary, and fails with \<^verbatim>\<open>EMFILE\<close> exactly when all below the limit are in use.
  It always ends and changes no descriptor.\<close>

theorem fdalloc_least:
  assumes "fs_ok ext s" "live p s"
  shows "\<exists>r s'. fdalloc p want s = (r, s') \<and> fs_ok ext s' \<and> fd_map p s' = fd_map p s \<and>
    (case r of
       Inr i \<Rightarrow> want \<le> i \<and> i < fd_lim p s \<and> fd_map p s i = None \<and> (\<forall>k. want \<le> k \<and> k < i \<longrightarrow> fd_map p s k \<noteq> None)
     | Inl e \<Rightarrow> e = EMFILE \<and> (\<forall>k. want \<le> k \<and> k < fd_lim p s \<longrightarrow> fd_map p s k \<noteq> None))"
proof -
  obtain r s' where f: "fdalloc p want s = (r, s')" by fastforce
  note k = fdalloc_ok [OF assms f]
  show ?thesis using f k(1) k(3) [of p] k(10) by (auto split: sum.splits)
qed

theorem fdalloc_least_witness:
  "\<exists>s'. fdalloc fproc_v 1 fsys_v = (Inr 3, s') \<and> fd_map fproc_v s' = fd_map fproc_v fsys_v"
proof -
  have l: "live fproc_v fsys_v" using fsys_v_ok(2) [of fproc_v] by (simp add: fproc_v_def)
  have "fdalloc_tab 64 1 (fds fsys_v ! 0) = (Some 3, fd_take 1 3 (fds fsys_v ! 0))"
    by (subst fdalloc_tab.simps) (simp add: fsys_v_def numeral_eq_Suc)
  then obtain s' where "fdalloc fproc_v 1 fsys_v = (Inr 3, s')"
    by (simp add: fdalloc_def fd_lim_def fproc_v_def) (simp add: fsys_v_def)
  then show ?thesis using fdalloc_least [OF fsys_v_ok(1) l, of 1] by auto
qed

text \<open>C4. In any sequence of \<open>dup\<close>, \<open>dup2\<close>, \<open>close\<close> and allocations, by any processes, the kernel neither panics nor
  follows a bad pointer, and afterwards the reference count of every file structure is exactly the number of descriptors
  that name it (and of references in messages, \<open>ext\<close>), and a structure exists exactly for the files with references.
  The arguments of \<open>dup2\<close> are not negative, those of \<open>dup\<close> below 64, and the counts stay within a short.\<close>

theorem fd_counts_exact:
  assumes "fd_ready ext m (length cs) s" "\<forall>c\<in>set cs. fd_allowed m c"
  shows "\<exists>s'. run_calls (fd_step fo) cs s = Inr s' \<and>
    (\<forall>a. case files s' a of None \<Rightarrow> nrefs s' a + ext a = 0 | Some fp \<Rightarrow> f_count fp = int (nrefs s' a + ext a) \<and> 0 < nrefs s' a + ext a) \<and>
    nfiles s' = card (dom (files s'))"
proof -
  obtain s' where s': "run_calls (fd_step fo) cs s = Inr s'" "fd_ready ext m 0 s'"
    using fdc.run_safe [of ext m cs 0 s fo] assms by auto
  then have "fs_ok ext s'" by (simp add: fd_ready_def)
  then have "nfiles s' = card (dom (files s'))" "counted (\<lambda>a. nrefs s' a + ext a) (files s')"
    by (auto simp: fs_ok_def heads_ok_def distinct_card [symmetric])
  then show ?thesis using s'(1) unfolding counted_def by blast
qed

theorem fd_counts_exact_witness:
  "\<exists>s'. run_calls (fd_step (\<lambda>_. None)) [Dup fproc_v 1, Dup2 fproc_v 0 40, Close fproc_v 0, Falloc (fproc_v\<lparr>pr_fd := 1\<rparr>) 11] fsys_v = Inr s' \<and>
     (\<forall>a. case files s' a of None \<Rightarrow> nrefs s' a + 0 = 0 | Some fp \<Rightarrow> f_count fp = int (nrefs s' a + 0) \<and> 0 < nrefs s' a + 0)"
proof -
  let ?cs = "[Dup fproc_v 1, Dup2 fproc_v 0 40, Close fproc_v 0, Falloc (fproc_v\<lparr>pr_fd := 1\<rparr>) 11]"
  have "fd_ready (\<lambda>_. 0) 2 (length ?cs) fsys_v" using fsys_v_ok by (simp add: fd_ready_def fsys_v_refs) (simp add: fsys_v_def)
  moreover have "\<forall>c\<in>set ?cs. fd_allowed 2 c" by (simp add: fproc_v_def)
  ultimately show ?thesis using fd_counts_exact by blast
qed

text \<open>\<open>close\<close> of an open descriptor removes exactly that descriptor and releases the file structure if and only if it was
  the last reference; on any other descriptor it returns \<^verbatim>\<open>EBADF\<close> and changes nothing. The descriptors of other processes
  stay as they are.\<close>

theorem close_releases_last:
  assumes "fs_ok ext s" "live p s"
  shows "\<exists>r s'. close fo p fd s = Inr (r, s') \<and> fs_ok ext s' \<and>
    (\<forall>q. pr_fd q \<noteq> pr_fd p \<longrightarrow> fd_map q s' = fd_map q s) \<and>
    (case fd_map p s (unat fd) of
       None \<Rightarrow> r = Inl EBADF \<and> s' = s
     | Some a \<Rightarrow> fd_map p s' = (fd_map p s)(unat fd := None) \<and> (files s' a = None \<longleftrightarrow> nrefs s a + ext a = 1))"
  using close_ok [OF assms, of fo fd] unfolding fd_upd_def by blast

theorem close_releases_last_witness:
  "\<exists>r s'. close (\<lambda>_. None) fproc_v 1 fsys_v = Inr (r, s') \<and> files s' 9 = None \<and> fd_map fproc_v s' = (fd_map fproc_v fsys_v)(1 := None)"
proof -
  have l: "live fproc_v fsys_v" using fsys_v_ok(2) [of fproc_v] by (simp add: fproc_v_def)
  have m: "fd_map fproc_v fsys_v (unat (1 :: u32)) = Some 9" by (simp add: fd_map_def fproc_v_def fsys_v_def)
  show ?thesis using close_releases_last [OF fsys_v_ok(1) l, of "\<lambda>_. None" 1] m by (auto simp: fsys_v_refs)
qed

text \<open>\<open>dup2\<close> with arguments that are not negative makes the new descriptor name the same file as the old one, whatever
  it named before, and changes no other descriptor; it fails, with \<^verbatim>\<open>EBADF\<close> and without effect, exactly when the old
  descriptor is not open or the new one is not below the limit. It never reaches its panic.\<close>

theorem dup2_names_same_file:
  assumes "fs_ok ext s" "live p s" "sint from = int old" "sint to = int new" "\<forall>a. nrefs s a + ext a < 32767"
  shows "\<exists>r s'. dup2 fo p from to s = Inr (r, s') \<and> fs_ok ext s' \<and>
    (if fd_map p s old = None \<or> fd_lim p s \<le> new then r = Inl EBADF \<and> s' = s
     else r = Inr new \<and> fd_map p s' = (fd_map p s)(new := fd_map p s old))"
proof -
  obtain r s' where d: "dup2 fo p from to s = Inr (r, s')" "fd_upd ext p s s'"
    "case r of
       Inl e \<Rightarrow> e = EBADF \<and> s' = s \<and> (fd_map p s old = None \<or> fd_lim p s \<le> new)
     | Inr n \<Rightarrow> n = new \<and> fd_map p s old \<noteq> None \<and> new < fd_lim p s \<and> fd_map p s' = (fd_map p s)(new := fd_map p s old)"
    using dup2_ok [OF assms(1-4), of fo] assms(5) by blast
  then have "fs_ok ext s'" by (simp add: fd_upd_def)
  then show ?thesis using d(1,3) by (cases r) auto
qed

theorem dup2_names_same_file_witness:
  "\<exists>s'. dup2 (\<lambda>_. None) fproc_v 0 40 fsys_v = Inr (Inr 40, s') \<and> fd_map fproc_v s' = (fd_map fproc_v fsys_v)(40 \<mapsto> 7)"
proof -
  have l: "live fproc_v fsys_v" using fsys_v_ok(2) [of fproc_v] by (simp add: fproc_v_def)
  have m: "fd_map fproc_v fsys_v 0 = Some 7" "fd_lim fproc_v fsys_v = 64"
    by (simp_all add: fd_map_def fproc_v_def fsys_v_def fd_lim_def)
  have "\<forall>a. nrefs fsys_v a + 0 < 32767" by (simp add: fsys_v_refs)
  then show ?thesis using dup2_names_same_file [OF fsys_v_ok(1) l, of 0 0 40 40 "\<lambda>_. None"] m by auto
qed

text \<open>C23. A fork gives the child exactly the descriptors of its parent, although \<open>fdcopy\<close> may shrink the table, and changes
  nobody else's; the exit of the child then releases its descriptors and leaves every count as it was before the fork.\<close>

theorem fork_exit_roundtrip:
  assumes "fs_ok ext s" "live p s" "\<forall>a. nrefs s a + count_list (fd_ofiles (tab p s)) (Some a) + ext a \<le> 32767"
    "child = p\<lparr>pr_fd := length (fds s)\<rparr>"
  shows "\<exists>s1 s2. fdcopy p s = Inr (length (fds s), s1) \<and> fs_ok ext s1 \<and> fd_map child s1 = fd_map p s \<and>
    (\<forall>q. pr_fd q < length (fds s) \<longrightarrow> fd_map q s1 = fd_map q s) \<and>
    fdfree fo child s1 = Inr s2 \<and> fs_ok ext s2 \<and> nrefs s2 = nrefs s \<and> fd_map child s2 = Map.empty \<and>
    (\<forall>q. pr_fd q < length (fds s) \<longrightarrow> fd_map q s2 = fd_map q s)"
proof -
  have "nrefs s a + count_list (fd_ofiles (tab p s)) (Some a) + ext a \<le> 32767" for a using assms(3) by blast
  note f = fdcopy_ok [OF assms(1,2) this, folded assms(4)]
  then obtain s1 where s1: "fdcopy p s = Inr (length (fds s), s1)" "fs_ok ext s1" "live child s1"
    "fd_map child s1 = fd_map p s" "\<forall>q. pr_fd q < length (fds s) \<longrightarrow> fd_map q s1 = fd_map q s" by blast
  have t: "\<exists>t. fds s1 = fds s @ [t] \<and> fd_refcnt t = 1"
    using s1(1) by (auto simp: fdcopy_def Let_def split: if_splits option.splits)
  then have r: "fd_refcnt (tab child s1) \<le> 1" "nrefs s1 a = nrefs s a + count_list (fd_ofiles (tab child s1)) (Some a)" for a
    by (auto simp: assms(4) nrefs_def)
  obtain s2 where s2: "fdfree fo child s1 = Inr s2" "fs_ok ext s2" "fd_map child s2 = Map.empty"
    "\<forall>q. pr_fd q \<noteq> pr_fd child \<longrightarrow> fd_map q s2 = fd_map q s1"
    "\<forall>a. nrefs s2 a = nrefs s1 a - count_list (fd_ofiles (tab child s1)) (Some a)"
    using fdfree_ok [OF s1(2,3) r(1), of fo] by blast
  then have "nrefs s2 = nrefs s" "\<forall>q. pr_fd q < length (fds s) \<longrightarrow> fd_map q s2 = fd_map q s"
    using r(2) s1(5) by (auto simp: fun_eq_iff assms(4))
  then show ?thesis using s1 s2 by blast
qed

theorem fork_exit_roundtrip_witness:
  "\<exists>s1 s2. fdcopy fproc_v fsys_v = Inr (2, s1) \<and> fd_map (fproc_v\<lparr>pr_fd := 2\<rparr>) s1 = fd_map fproc_v fsys_v \<and>
     fdfree (\<lambda>_. None) (fproc_v\<lparr>pr_fd := 2\<rparr>) s1 = Inr s2 \<and> nrefs s2 = nrefs fsys_v"
proof -
  have l: "live fproc_v fsys_v" using fsys_v_ok(2) [of fproc_v] by (simp add: fproc_v_def)
  have "count_list (fd_ofiles (tab fproc_v fsys_v)) (Some a) \<le> 3" for a
    using count_le_nrefs [OF l, of a] fsys_v_refs [of a] by (simp split: if_splits)
  moreover have "nrefs fsys_v a \<le> 3" for a by (simp add: fsys_v_refs)
  ultimately have b: "nrefs fsys_v a + count_list (fd_ofiles (tab fproc_v fsys_v)) (Some a) \<le> 3 + 3" for a by (rule add_mono [rotated])
  have "nrefs fsys_v a + count_list (fd_ofiles (tab fproc_v fsys_v)) (Some a) + 0 \<le> 32767" for a
    using b [of a] by linarith
  then have "\<forall>a. nrefs fsys_v a + count_list (fd_ofiles (tab fproc_v fsys_v)) (Some a) + 0 \<le> 32767" by blast
  moreover have "length (fds fsys_v) = 2" by (simp add: fsys_v_def)
  ultimately show ?thesis using fork_exit_roundtrip [OF fsys_v_ok(1) l _ refl, of "\<lambda>_. None"] by metis
qed

text \<open>\<open>dup2\<close> compares its arguments as signed integers, so that a negative one is used as an index below the arrays.\<close>

theorem dup2_negative_index: "dup2 fo fproc_v 0xffffffff 5 fsys_v = Inl Bad_index" "dup2 fo fproc_v 0 0xffffffff fsys_v = Inl Bad_index"
  by (simp_all add: dup2_def fproc_v_def fsys_v_def Let_def)

text \<open>\<open>fdavail\<close> counts free slots at and above the process's limit, so that it can promise descriptors which \<open>fdalloc\<close> then
  refuses.\<close>

theorem fdavail_ignores_limit:
  "let p = fproc_v\<lparr>pr_lim := 3\<rparr> in fdavail p 5 fsys_v \<and> fst (fdalloc p 0 fsys_v) = Inl EMFILE"
proof -
  have "fdalloc_tab 3 0 (fds fsys_v ! 0) = (None, fds fsys_v ! 0)"
    by (subst fdalloc_tab.simps) (simp add: fsys_v_def)
  then show ?thesis by (simp add: fdavail_def fdalloc_def fd_lim_def fproc_v_def Let_def) (simp add: fsys_v_def numeral_eq_Suc)
qed

end
