(* ===== verification/Lockf.thy ===== *)
theory Lockf
  imports Descrip
begin

text \<open>
  Advisory record locks, \<^verbatim>\<open>ufs/ufs_lockf.c\<close>, and their entry \<open>ufs_advlock\<close> of \<^verbatim>\<open>ufs/ufs_vnops.c\<close>: the list of locks of an
  inode, the search for overlapping locks (\<open>lf_findoverlap\<close>), the blocking lock (\<open>lf_getblock\<close>, \<open>lf_getlock\<close>), granting
  (\<open>lf_setlock\<close>) with its splitting, shrinking and merging of the owner's locks, release (\<open>lf_clearlock\<close>), the chains of
  blocked requests and the deadlock check. The specification is the map from bytes to the type of lock an owner holds.
\<close>

section \<open>State\<close>

text \<open>
  A lock structure has its address; the field \<^verbatim>\<open>lf_block\<close> of a lock that is held heads a chain of requests that wait for
  it, kept here as the list of their addresses. An \<^verbatim>\<open>lf_end\<close> of -1 means the end of the file. Offsets are 64 bits wide
  (\<^verbatim>\<open>quad_t\<close>); \<open>wrap64\<close> is the value that remains of a sum that leaves this range. The differences \<open>lf_start - 1\<close> do not leave it,
  as the start of a request is not negative.
\<close>

definition wrap64 :: "int \<Rightarrow> int" where
  [kern_defs]: "wrap64 x = (x + 2 ^ 63) mod 2 ^ 64 - 2 ^ 63"

record lockf =
  lf_addr :: nat
  lf_posix :: bool
  lf_wait :: bool
  lf_type :: ltype
  lf_start :: int
  lf_end :: int
  lf_id :: nat
  lf_inode :: nat
  lf_block :: "nat list"

datatype lf_fault = Panic_findoverlap | Panic_clearlock | Relinked | Dangling nat

text \<open>
  \<open>waiters\<close> are the requests that sleep, each with the address of the lock that blocks it (its \<^verbatim>\<open>lf_next\<close>); \<open>lock_chan\<close> is the
  request a process sleeps on (\<^verbatim>\<open>p_wchan\<close> while \<^verbatim>\<open>p_wmesg\<close> is \<^verbatim>\<open>lockstr\<close>); \<open>lf_woken\<close> lists the requests whose processes have
  been woken and have not yet run.
\<close>

record lfsys =
  i_lockf :: "nat \<Rightarrow> lockf list"
  waiters :: "nat \<rightharpoonup> lockf \<times> nat"
  lock_chan :: "nat \<rightharpoonup> nat"
  lf_woken :: "lockf list"

section \<open>Searching\<close>

text \<open>
  The search from a place in the list: the case, the locks passed over (\<^verbatim>\<open>prev\<close> points behind them) and the rest, which
  begins with the overlapping lock. \<open>self\<close> is the type \<^verbatim>\<open>SELF\<close>, otherwise \<^verbatim>\<open>OTHERS\<close>.
\<close>

fun lf_findoverlap :: "bool \<Rightarrow> lockf \<Rightarrow> lockf list \<Rightarrow> lf_fault + (nat \<times> lockf list \<times> lockf list)" where
  "lf_findoverlap self lock [] = Inr (0, [], [])"
| "lf_findoverlap self lock (lf # ls) =
     (let start = lf_start lock; end = lf_end lock;
          skip = map_sum id (\<lambda>(c, sk, rest). (c, lf # sk, rest)) (lf_findoverlap self lock ls) in
      if self \<and> lf_id lf \<noteq> lf_id lock \<or> \<not> self \<and> lf_id lf = lf_id lock then skip
      else if lf_end lf \<noteq> -1 \<and> lf_end lf < start \<or> end \<noteq> -1 \<and> end < lf_start lf then
        (if self \<and> end \<noteq> -1 \<and> end < lf_start lf then Inr (0, [], lf # ls) else skip)
      else if lf_start lf = start \<and> lf_end lf = end then Inr (1, [], lf # ls)
      else if lf_start lf \<le> start \<and> end \<noteq> -1 \<and> (end \<le> lf_end lf \<or> lf_end lf = -1) then Inr (2, [], lf # ls)
      else if start \<le> lf_start lf \<and> (end = -1 \<or> lf_end lf \<noteq> -1 \<and> lf_end lf \<le> end) then Inr (3, [], lf # ls)
      else if lf_start lf < start \<and> (start \<le> lf_end lf \<or> lf_end lf = -1) then Inr (4, [], lf # ls)
      else if start < lf_start lf \<and> end \<noteq> -1 \<and> (end < lf_end lf \<or> lf_end lf = -1) then Inr (5, [], lf # ls)
      else Inl Panic_findoverlap)"

lemma findoverlap_split: "lf_findoverlap self lock ls = Inr (c, sk, rest) \<Longrightarrow> ls = sk @ rest"
proof (induction ls arbitrary: c sk rest)
  case (Cons lf ls)
  show ?case
  proof (cases "lf_findoverlap self lock ls")
    case (Inr x)
    obtain c' sk' rest' where x: "x = (c', sk', rest')" by (cases x)
    then show ?thesis using Cons.prems Cons.IH [of c' sk' rest'] Inr
      by (simp add: Let_def split: if_splits)
  qed (use Cons.prems in \<open>auto simp: Let_def split: if_splits\<close>)
qed simp

text \<open>\<open>lf_getblock\<close>: the first lock of another owner that overlaps and excludes the request.\<close>

function lf_getblock :: "lockf \<Rightarrow> lockf list \<Rightarrow> lf_fault + lockf option" where
  "lf_getblock lock ls =
     (case lf_findoverlap False lock ls of
        Inl f \<Rightarrow> Inl f
      | Inr (c, sk, []) \<Rightarrow> Inr None
      | Inr (c, sk, overlap # r) \<Rightarrow>
          if c = 0 then Inr None
          else if lf_type lock = F_WRLCK \<or> lf_type overlap = F_WRLCK then Inr (Some overlap)
          else lf_getblock lock r)"
  by pat_completeness auto
termination
  by (relation "measure (\<lambda>(l, ls). length ls)") (auto dest!: findoverlap_split)

declare lf_getblock.simps [simp del]

section \<open>Granting and releasing\<close>

text \<open>\<open>lf_split\<close>: what is left of \<open>lock1\<close> in front of and behind \<open>lock2\<close>; \<open>new\<close> is the address of the structure allocated.\<close>

definition lf_split :: "nat \<Rightarrow> lockf \<Rightarrow> lockf \<Rightarrow> lockf list \<times> lockf list" where
  [kern_defs]: "lf_split new lock1 lock2 =
     (if lf_start lock1 = lf_start lock2 then ([], [lock1\<lparr>lf_start := wrap64 (lf_end lock2 + 1)\<rparr>])
      else if lf_end lock1 = lf_end lock2 then ([lock1\<lparr>lf_end := lf_start lock2 - 1\<rparr>], [])
      else ([lock1\<lparr>lf_end := lf_start lock2 - 1\<rparr>],
            [lock1\<lparr>lf_addr := new, lf_start := wrap64 (lf_end lock2 + 1), lf_block := []\<rparr>]))"

text \<open>
  The loop of \<open>lf_setlock\<close> that puts the lock into the list. Until it is linked (\<^verbatim>\<open>needtolink\<close>) the list is
  \<open>pre @ block\<close>, afterwards \<open>pre @ lock # mid @ block\<close>. The result is the list and the requests to wake. Freeing or
  linking a lock that is already in the list is the fault \<open>Relinked\<close>.
\<close>

function lf_link ::
  "nat \<Rightarrow> lockf \<Rightarrow> bool \<Rightarrow> lockf list \<Rightarrow> lockf list \<Rightarrow> lockf list \<Rightarrow> lf_fault + (lockf list \<times> nat list)" where
  "lf_link new lock linked pre mid block =
     (case lf_findoverlap True lock block of
        Inl f \<Rightarrow> Inl f
      | Inr (c, sk, rest) \<Rightarrow>
          let out = (\<lambda>xs. if linked then pre @ lock # mid @ sk @ xs else pre @ sk @ lock # xs) in
          (case rest of
             [] \<Rightarrow> Inr (out [], [])
           | overlap # r \<Rightarrow>
               let downgrade = (lf_type lock = F_RDLCK \<and> lf_type overlap = F_WRLCK) in
               if c = 0 then Inr (out rest, [])
               else if c = 1 then
                 if linked then Inl Relinked
                 else Inr (pre @ sk @ overlap\<lparr>lf_type := lf_type lock, lf_block := (if downgrade then [] else lf_block overlap)\<rparr> # r,
                           if downgrade then lf_block overlap else [])
               else if c = 2 then
                 if linked then Inl Relinked
                 else if lf_type overlap = lf_type lock then Inr (pre @ sk @ rest, [])
                 else if lf_start overlap = lf_start lock
                 then Inr (pre @ sk @ lock # overlap\<lparr>lf_start := wrap64 (lf_end lock + 1), lf_block := []\<rparr> # r, lf_block overlap)
                 else (case lf_split new (overlap\<lparr>lf_block := []\<rparr>) lock of
                     (a, b) \<Rightarrow> Inr (pre @ sk @ a @ lock # b @ r, lf_block overlap))
               else if c = 3 then
                 let lock' = (if downgrade then lock else lock\<lparr>lf_block := lf_block overlap @ lf_block lock\<rparr>) in
                 map_sum id (\<lambda>(ls, wk). (ls, (if downgrade then lf_block overlap else []) @ wk))
                   (if linked then lf_link new lock' True pre (mid @ sk) r else lf_link new lock' True (pre @ sk) [] r)
               else if c = 4 then
                 if linked then Inl Relinked
                 else map_sum id (\<lambda>(ls, wk). (ls, lf_block overlap @ wk))
                   (lf_link new lock True (pre @ sk @ [overlap\<lparr>lf_end := lf_start lock - 1, lf_block := []\<rparr>]) [] r)
               else Inr (out (overlap\<lparr>lf_start := wrap64 (lf_end lock + 1), lf_block := []\<rparr> # r), lf_block overlap)))"
  by pat_completeness auto
termination
  by (relation "measure (\<lambda>(n, l, li, p, m, ls). length ls)") (auto dest!: findoverlap_split)

declare lf_link.simps [simp del]

text \<open>The loop of \<open>lf_clearlock\<close>, behind the locks \<open>pre\<close>.\<close>

function lf_clear :: "nat \<Rightarrow> lockf \<Rightarrow> lockf list \<Rightarrow> lockf list \<Rightarrow> lf_fault + (lockf list \<times> nat list)" where
  "lf_clear new unlock pre lf =
     (case lf_findoverlap True unlock lf of
        Inl f \<Rightarrow> Inl f
      | Inr (c, sk, []) \<Rightarrow> Inr (pre @ sk, [])
      | Inr (c, sk, overlap # r) \<Rightarrow>
          let ov = overlap\<lparr>lf_block := []\<rparr>;
              wake = map_sum id (\<lambda>(ls, wk). (ls, lf_block overlap @ wk)) in
          if c = 0 then Inr (pre @ sk @ overlap # r, [])
          else if c = 1 then Inr (pre @ sk @ r, lf_block overlap)
          else if c = 2 then
            if lf_start overlap = lf_start unlock then Inr (pre @ sk @ ov\<lparr>lf_start := wrap64 (lf_end unlock + 1)\<rparr> # r, lf_block overlap)
            else (case lf_split new ov unlock of (a, b) \<Rightarrow> Inr (pre @ sk @ a @ b @ r, lf_block overlap))
          else if c = 3 then wake (lf_clear new unlock (pre @ sk) r)
          else if c = 4 then wake (lf_clear new unlock (pre @ sk @ [ov\<lparr>lf_end := lf_start unlock - 1\<rparr>]) r)
          else Inr (pre @ sk @ ov\<lparr>lf_start := wrap64 (lf_end unlock + 1)\<rparr> # r, lf_block overlap))"
  by pat_completeness auto
termination
  by (relation "measure (\<lambda>(n, l, p, ls). length ls)") (auto dest!: findoverlap_split)

declare lf_clear.simps [simp del]

text \<open>
  \<open>lf_wakelock\<close> on a chain: every request on it is taken off and its process woken. A request that has been freed is a
  dangling pointer.
\<close>

fun lf_wakelock :: "nat list \<Rightarrow> lfsys \<Rightarrow> lf_fault + lfsys" where
  "lf_wakelock [] s = Inr s"
| "lf_wakelock (w # ws) s =
     (case waiters s w of
        None \<Rightarrow> Inl (Dangling w)
      | Some (req, _) \<Rightarrow> lf_wakelock ws (s\<lparr>waiters := (waiters s)(w := None),
                     lock_chan := (\<lambda>p. if lock_chan s p = Some w then None else lock_chan s p),
                     lf_woken := lf_woken s @ [req]\<rparr>))"

definition set_locks :: "nat \<Rightarrow> lockf list \<Rightarrow> lfsys \<Rightarrow> lfsys" where
  [kern_defs]: "set_locks ip ls s = s\<lparr>i_lockf := (i_lockf s)(ip := ls)\<rparr>"

definition lf_clearlock :: "nat \<Rightarrow> lockf \<Rightarrow> lfsys \<Rightarrow> lf_fault + lfsys" where
  [kern_defs]: "lf_clearlock new unlock s =
     (let ip = lf_inode unlock in
      if i_lockf s ip = [] then Inr s
      else if lf_type unlock \<noteq> F_UNLCK then Inl Panic_clearlock
      else (case lf_clear new unlock [] (i_lockf s ip) of
          Inl f \<Rightarrow> Inl f
        | Inr (ls, wk) \<Rightarrow> lf_wakelock wk (set_locks ip ls s)))"

text \<open>\<open>lf_addblock\<close>: the request \<open>w\<close> is put at the end of the chain of the lock at \<open>a\<close>.\<close>

fun lf_addblock :: "nat \<Rightarrow> nat \<Rightarrow> lockf list \<Rightarrow> lockf list" where
  "lf_addblock a w [] = []"
| "lf_addblock a w (l # ls) = (if lf_addr l = a then l\<lparr>lf_block := lf_block l @ [w]\<rparr> # ls else l # lf_addblock a w ls)"

text \<open>
  The deadlock check: from the owner \<open>wproc\<close> of the blocking lock along the requests that processes sleep on, at most
  \<^verbatim>\<open>maxlockdepth\<close> steps, looking for the requesting process \<open>me\<close>.
\<close>

abbreviation maxlockdepth :: nat where "maxlockdepth \<equiv> 50"

fun lf_deadlock :: "nat \<Rightarrow> lfsys \<Rightarrow> nat \<Rightarrow> nat \<Rightarrow> lf_fault + bool" where
  "lf_deadlock 0 s wproc me = Inr False"
| "lf_deadlock (Suc i) s wproc me =
     (case lock_chan s wproc of
        None \<Rightarrow> Inr False
      | Some w \<Rightarrow>
          (case waiters s w of
             None \<Rightarrow> Inl (Dangling w)
           | Some (req, next) \<Rightarrow>
               (case find (\<lambda>l. lf_addr l = next) (i_lockf s (lf_inode req)) of
                  None \<Rightarrow> Inl (Dangling next)
                | Some waitblock \<Rightarrow>
                    if \<not> lf_posix waitblock then Inr False
                    else if lf_id waitblock = me then Inr True
                    else lf_deadlock i s (lf_id waitblock) me)))"

text \<open>
  \<open>lf_setlock\<close> by the process \<open>p\<close>, up to the point where it returns or sleeps. When the sleep ends with a wakeup the loop
  continues with the same call; when it ends with an error the request is freed (\<open>lf_interrupted\<close>).
\<close>

datatype lf_res = Granted | Failed errno | Asleep

definition lf_setlock :: "nat \<Rightarrow> nat \<Rightarrow> lockf \<Rightarrow> lfsys \<Rightarrow> lf_fault + (lf_res \<times> lfsys)" where
  [kern_defs]: "lf_setlock new p lock s =
     (let ip = lf_inode lock in
      case lf_getblock lock (i_lockf s ip) of
        Inl f \<Rightarrow> Inl f
      | Inr None \<Rightarrow>
          (case lf_link new lock False [] [] (i_lockf s ip) of
             Inl f \<Rightarrow> Inl f
           | Inr (ls, wk) \<Rightarrow> map_sum id (Pair Granted) (lf_wakelock wk (set_locks ip ls s)))
      | Inr (Some block) \<Rightarrow>
          if \<not> lf_wait lock then Inr (Failed EAGAIN, s)
          else
            (case if lf_posix lock \<and> lf_posix block then lf_deadlock maxlockdepth s (lf_id block) (lf_id lock) else Inr False of
               Inl f \<Rightarrow> Inl f
             | Inr True \<Rightarrow> Inr (Failed EDEADLK, s)
             | Inr False \<Rightarrow>
                 (case if \<not> lf_posix lock \<and> lf_type lock = F_WRLCK then lf_clearlock new (lock\<lparr>lf_type := F_UNLCK\<rparr>) s else Inr s of
                    Inl f \<Rightarrow> Inl f
                  | Inr s1 \<Rightarrow>
                      Inr (Asleep,
                        (set_locks ip (lf_addblock (lf_addr block) (lf_addr lock) (i_lockf s1 ip)) s1)
                          \<lparr>waiters := (waiters s1)(lf_addr lock \<mapsto> (lock, lf_addr block)),
                           lock_chan := (lock_chan s1)(p \<mapsto> lf_addr lock)\<rparr>))))"

definition lf_interrupted :: "nat \<Rightarrow> nat \<Rightarrow> lfsys \<Rightarrow> lfsys" where
  [kern_defs]: "lf_interrupted p w s = s\<lparr>waiters := (waiters s)(w := None), lock_chan := (lock_chan s)(p := None)\<rparr>"

text \<open>\<open>lf_getlock\<close>: the description of a blocking lock; \<open>None\<close> in place of the process for \<^verbatim>\<open>flock\<close> locks.\<close>

definition lf_getlock :: "lockf \<Rightarrow> lfsys \<Rightarrow> lf_fault + (flock_s \<times> nat option) option" where
  [kern_defs]: "lf_getlock lock s =
     map_sum id (map_option (\<lambda>block.
       (\<lparr>l_start = lf_start block, l_len = (if lf_end block = -1 then 0 else wrap64 (lf_end block - lf_start block + 1)),
         l_type = lf_type block, l_whence = SEEK_SET\<rparr>,
        if lf_posix block then Some (lf_id block) else None))) (lf_getblock lock (i_lockf s (lf_inode lock)))"

text \<open>
  \<open>ufs_advlock\<close>: \<open>size\<close> is the size of the file, \<open>a\<close> and \<open>new\<close> the addresses of structures it allocates. The result of
  \<^verbatim>\<open>F_GETLK\<close> is the lock structure written back.
\<close>

datatype advop = F_SETLK | F_UNLK | F_GETLK

datatype adv_res = Adv lf_res | Adv_done | Adv_block "(flock_s \<times> nat option) option"

definition ufs_range :: "int \<Rightarrow> flock_s \<Rightarrow> (int \<times> int) option" where
  [kern_defs]: "ufs_range fsize fl =
     (case (case l_whence fl of SEEK_SET \<Rightarrow> Some (l_start fl) | SEEK_CUR \<Rightarrow> Some (l_start fl)
            | SEEK_END \<Rightarrow> Some (wrap64 (fsize + l_start fl)) | Bad_whence \<Rightarrow> None) of
        None \<Rightarrow> None
      | Some start \<Rightarrow> if start < 0 then None else Some (start, if l_len fl = 0 then -1 else wrap64 (start + l_len fl - 1)))"

definition ufs_advlock ::
  "nat \<Rightarrow> nat \<Rightarrow> int \<Rightarrow> nat \<Rightarrow> nat \<Rightarrow> nat \<Rightarrow> advop \<Rightarrow> flock_s \<Rightarrow> bool \<Rightarrow> bool \<Rightarrow> lfsys \<Rightarrow> lf_fault + (adv_res \<times> lfsys)" where
  [kern_defs]: "ufs_advlock a new fsize ip p owner op fl posix wait s =
     (if i_lockf s ip = [] \<and> op \<noteq> F_SETLK then Inr (Adv_done, s)
      else case ufs_range fsize fl of
        None \<Rightarrow> Inr (Adv (Failed EINVAL), s)
      | Some (start, end) \<Rightarrow>
          let lock = \<lparr>lf_addr = a, lf_posix = posix, lf_wait = wait, lf_type = l_type fl, lf_start = start, lf_end = end,
                      lf_id = owner, lf_inode = ip, lf_block = []\<rparr> in
          (case op of
             F_SETLK \<Rightarrow> map_sum id (apfst Adv) (lf_setlock new p lock s)
           | F_UNLK \<Rightarrow> map_sum id (Pair Adv_done) (lf_clearlock new lock s)
           | F_GETLK \<Rightarrow> map_sum id (\<lambda>b. (Adv_block b, s)) (lf_getlock lock s)))"

section \<open>The bytes an owner holds\<close>

definition covers :: "lockf \<Rightarrow> int \<Rightarrow> bool" where
  "covers l b \<longleftrightarrow> lf_start l \<le> b \<and> (lf_end l = -1 \<or> b \<le> lf_end l)"

fun held :: "lockf list \<Rightarrow> nat \<Rightarrow> int \<Rightarrow> ltype option" where
  "held [] i b = None"
| "held (l # ls) i b = (if lf_id l = i \<and> covers l b then Some (lf_type l) else held ls i b)"

text \<open>Well-formed lists: proper ranges, and the locks of each owner apart from one another and in order.\<close>

definition range_ok :: "lockf \<Rightarrow> bool" where
  "range_ok l \<longleftrightarrow> 0 \<le> lf_start l \<and> lf_start l < 2 ^ 63 \<and> (lf_end l = -1 \<or> lf_start l \<le> lf_end l) \<and> lf_end l < 2 ^ 63 - 1"

lemma wrap64_id: "- (2 ^ 63) \<le> x \<Longrightarrow> x < 2 ^ 63 \<Longrightarrow> wrap64 x = x"
  by (simp add: wrap64_def)

lemma wrap64_end: "range_ok l \<Longrightarrow> wrap64 (lf_end l + 1) = lf_end l + 1"
  by (rule wrap64_id) (auto simp: range_ok_def)

definition precedes :: "lockf \<Rightarrow> lockf \<Rightarrow> bool" where
  "precedes x y \<longleftrightarrow> lf_end x \<noteq> -1 \<and> lf_end x < lf_start y"

abbreviation own :: "nat \<Rightarrow> lockf list \<Rightarrow> lockf list" where
  "own i ls \<equiv> filter (\<lambda>l. lf_id l = i) ls"

definition locks_ok :: "lockf list \<Rightarrow> bool" where
  "locks_ok ls \<longleftrightarrow> (\<forall>l\<in>set ls. range_ok l) \<and> (\<forall>i. sorted_wrt precedes (own i ls))"

lemma held_append: "held (xs @ ys) i b = (case held xs i b of None \<Rightarrow> held ys i b | Some t \<Rightarrow> Some t)"
  by (induction xs) auto

lemma held_None: "held ls i b = None \<longleftrightarrow> (\<forall>l\<in>set (own i ls). \<not> covers l b)"
  by (induction ls) auto

lemma held_own: "held ls i b = held (own i ls) i b"
  by (induction ls) auto

text \<open>What the cases of \<open>lf_findoverlap\<close> say about the overlapping lock.\<close>

definition ov_rel :: "nat \<Rightarrow> lockf \<Rightarrow> lockf \<Rightarrow> bool" where
  "ov_rel c l ov \<longleftrightarrow>
     (c = 1 \<and> lf_start ov = lf_start l \<and> lf_end ov = lf_end l) \<or>
     (c = 2 \<and> lf_start ov \<le> lf_start l \<and> lf_end l \<noteq> -1 \<and> (lf_end l < lf_end ov \<or> lf_end ov = -1 \<or> lf_end l = lf_end ov \<and> lf_start ov < lf_start l)) \<or>
     (c = 3 \<and> lf_start l \<le> lf_start ov \<and> (lf_end l = -1 \<or> lf_end ov \<noteq> -1 \<and> lf_end ov \<le> lf_end l)) \<or>
     (c = 4 \<and> lf_start ov < lf_start l \<and> (lf_end ov = -1 \<and> lf_end l = -1 \<or>
        lf_end ov \<noteq> -1 \<and> lf_start l \<le> lf_end ov \<and> (lf_end l = -1 \<or> lf_end ov < lf_end l))) \<or>
     (c = 5 \<and> lf_start l < lf_start ov \<and> lf_end l \<noteq> -1 \<and> lf_start ov \<le> lf_end l \<and> (lf_end l < lf_end ov \<or> lf_end ov = -1))"

lemma findoverlap_hit:
  assumes "range_ok l" "range_ok lf" "self = (lf_id lf = lf_id l)" "\<not> precedes l lf" "\<not> precedes lf l"
  shows "\<exists>k. k \<noteq> 0 \<and> ov_rel k l lf \<and> lf_findoverlap self l (lf # ls) = Inr (k, [], lf # ls)"
proof -
  let ?s = "lf_start l" and ?e = "lf_end l" and ?s' = "lf_start lf" and ?e' = "lf_end lf"
  have n: "\<not> (self \<and> lf_id lf \<noteq> lf_id l \<or> \<not> self \<and> lf_id lf = lf_id l)" "\<not> (?e' \<noteq> -1 \<and> ?e' < ?s)" "\<not> (?e \<noteq> -1 \<and> ?e < ?s')"
    using assms(3-5) by (auto simp: precedes_def)
  have fo: "lf_findoverlap self l (lf # ls) =
     (if ?s' = ?s \<and> ?e' = ?e then Inr (1, [], lf # ls)
      else if ?s' \<le> ?s \<and> ?e \<noteq> -1 \<and> (?e \<le> ?e' \<or> ?e' = -1) then Inr (2, [], lf # ls)
      else if ?s \<le> ?s' \<and> (?e = -1 \<or> ?e' \<noteq> -1 \<and> ?e' \<le> ?e) then Inr (3, [], lf # ls)
      else if ?s' < ?s \<and> (?s \<le> ?e' \<or> ?e' = -1) then Inr (4, [], lf # ls)
      else if ?s < ?s' \<and> ?e \<noteq> -1 \<and> (?e < ?e' \<or> ?e' = -1) then Inr (5, [], lf # ls)
      else Inl Panic_findoverlap)"
    by (simp only: lf_findoverlap.simps Let_def n simp_thms if_False)
  consider "?s' = ?s \<and> ?e' = ?e" | "\<not> (?s' = ?s \<and> ?e' = ?e)" "?s' \<le> ?s \<and> ?e \<noteq> -1 \<and> (?e \<le> ?e' \<or> ?e' = -1)"
    | "\<not> (?s' = ?s \<and> ?e' = ?e)" "\<not> (?s' \<le> ?s \<and> ?e \<noteq> -1 \<and> (?e \<le> ?e' \<or> ?e' = -1))" "?s \<le> ?s' \<and> (?e = -1 \<or> ?e' \<noteq> -1 \<and> ?e' \<le> ?e)"
    | "\<not> (?s' = ?s \<and> ?e' = ?e)" "\<not> (?s' \<le> ?s \<and> ?e \<noteq> -1 \<and> (?e \<le> ?e' \<or> ?e' = -1))" "\<not> (?s \<le> ?s' \<and> (?e = -1 \<or> ?e' \<noteq> -1 \<and> ?e' \<le> ?e))"
        "?s' < ?s"
    | "\<not> (?s' = ?s \<and> ?e' = ?e)" "\<not> (?s' \<le> ?s \<and> ?e \<noteq> -1 \<and> (?e \<le> ?e' \<or> ?e' = -1))" "\<not> (?s \<le> ?s' \<and> (?e = -1 \<or> ?e' \<noteq> -1 \<and> ?e' \<le> ?e))"
        "\<not> ?s' < ?s"
    by blast
  then show ?thesis
  proof cases
    case 1
    then show ?thesis unfolding fo by (intro exI [of _ 1]) (simp add: ov_rel_def)
  next
    case 2
    then show ?thesis unfolding fo by (intro exI [of _ 2]) (auto simp: ov_rel_def)
  next
    case 3
    then show ?thesis unfolding fo by (intro exI [of _ 3]) (auto simp: ov_rel_def)
  next
    case 4
    then show ?thesis unfolding fo using n(2,3) by (intro exI [of _ 4]) (auto simp: ov_rel_def)
  next
    case 5
    then show ?thesis unfolding fo using n(2,3) by (intro exI [of _ 5]) (auto simp: ov_rel_def)
  qed
qed

lemma findoverlap_skip:
  "lf_id lf \<noteq> lf_id l \<or> precedes lf l \<and> \<not> precedes l lf \<Longrightarrow>
     lf_findoverlap True l (lf # ls) = map_sum id (\<lambda>(c, sk, rest). (c, lf # sk, rest)) (lf_findoverlap True l ls)"
  "lf_id lf = lf_id l \<or> precedes lf l \<or> precedes l lf \<Longrightarrow>
     lf_findoverlap False l (lf # ls) = map_sum id (\<lambda>(c, sk, rest). (c, lf # sk, rest)) (lf_findoverlap False l ls)"
  by (auto simp: Let_def precedes_def)

lemma findoverlap_stop:
  "lf_id lf = lf_id l \<Longrightarrow> precedes l lf \<Longrightarrow> lf_findoverlap True l (lf # ls) = Inr (0, [], lf # ls)"
  by (simp add: Let_def precedes_def)

lemma findoverlap_self:
  assumes "range_ok l" "\<forall>x\<in>set ls. range_ok x" "sorted_wrt precedes (own (lf_id l) ls)"
  shows "\<exists>c sk rest. lf_findoverlap True l ls = Inr (c, sk, rest) \<and> (\<forall>x\<in>set (own (lf_id l) sk). precedes x l) \<and>
    (if c = 0 then \<forall>x\<in>set (own (lf_id l) rest). precedes l x
     else \<exists>ov r. rest = ov # r \<and> lf_id ov = lf_id l \<and> ov_rel c l ov)"
  using assms(2,3)
proof (induction ls)
  case (Cons lf ls)
  let ?skip = "map_sum id (\<lambda>(c, sk, rest). (c, lf # sk, rest)) (lf_findoverlap True l ls)"
  from Cons obtain c sk rest where ih: "lf_findoverlap True l ls = Inr (c, sk, rest)" "\<forall>x\<in>set (own (lf_id l) sk). precedes x l"
    "if c = 0 then \<forall>x\<in>set (own (lf_id l) rest). precedes l x
     else \<exists>ov r. rest = ov # r \<and> lf_id ov = lf_id l \<and> ov_rel c l ov"
    by (auto split: if_splits)
  have lf: "range_ok lf" using Cons.prems(1) by simp
  consider (skip) "lf_id lf \<noteq> lf_id l \<or> precedes lf l" "lf_findoverlap True l (lf # ls) = ?skip"
    | (stop) "lf_id lf = lf_id l" "precedes l lf" "lf_findoverlap True l (lf # ls) = Inr (0, [], lf # ls)"
    | (found) k where "lf_id lf = lf_id l" "k \<noteq> 0" "ov_rel k l lf" "lf_findoverlap True l (lf # ls) = Inr (k, [], lf # ls)"
    using findoverlap_hit [OF assms(1) lf, of True ls] findoverlap_skip(1) [of lf l ls] findoverlap_stop [of lf l ls] by metis
  then show ?case
  proof cases
    case skip
    then show ?thesis using ih by auto
  next
    case stop
    have "\<forall>x\<in>set (own (lf_id l) ls). precedes l x"
      using Cons.prems stop(1,2) lf by (auto simp: precedes_def range_ok_def)
    then show ?thesis using stop by auto
  next
    case found
    then show ?thesis by auto
  qed
qed simp

section \<open>Granting a lock\<close>

abbreviation chains :: "lockf list \<Rightarrow> nat multiset" where
  "chains ls \<equiv> mset (concat (map lf_block ls))"

abbreviation others :: "nat \<Rightarrow> lockf list \<Rightarrow> lockf list" where
  "others i ls \<equiv> filter (\<lambda>l. lf_id l \<noteq> i) ls"

text \<open>
  What a change of the list for the request \<open>l\<close> does to the list \<open>ls\<close>: the owner's map of bytes becomes \<open>upd\<close> of what it
  was, other owners' locks stay, and every waiting request is still on a chain or is woken.
\<close>

definition lf_change :: "lockf \<Rightarrow> nat multiset \<Rightarrow> ltype option \<Rightarrow> lockf list \<Rightarrow> lockf list \<Rightarrow> nat list \<Rightarrow> bool" where
  "lf_change l q t ls ls' wk \<longleftrightarrow>
     (\<forall>x\<in>set ls'. range_ok x) \<and> sorted_wrt precedes (own (lf_id l) ls') \<and> others (lf_id l) ls' = others (lf_id l) ls \<and>
     (\<forall>b. held ls' (lf_id l) b = (if covers l b then t else held ls (lf_id l) b)) \<and>
     mset wk + chains ls' = q + chains ls"

lemma precedes_trans: "precedes x y \<Longrightarrow> range_ok y \<Longrightarrow> precedes y z \<Longrightarrow> precedes x z"
  by (auto simp: precedes_def range_ok_def)

lemma precedes_covers: "precedes x y \<Longrightarrow> covers y b \<Longrightarrow> \<not> covers x b"
  by (auto simp: precedes_def covers_def)

lemma held_precedes: "\<forall>x\<in>set (own (lf_id l) xs). precedes x l \<Longrightarrow> covers l b \<Longrightarrow> held xs (lf_id l) b = None"
  unfolding held_None using precedes_covers by blast

lemma held_follows: "\<forall>x\<in>set (own (lf_id l) xs). precedes l x \<Longrightarrow> covers l b \<Longrightarrow> held xs (lf_id l) b = None"
  unfolding held_None using precedes_covers by blast

lemma ov_rel_simps:
  "ov_rel 1 l ov \<longleftrightarrow> lf_start ov = lf_start l \<and> lf_end ov = lf_end l"
  "ov_rel 2 l ov \<longleftrightarrow> lf_start ov \<le> lf_start l \<and> lf_end l \<noteq> -1 \<and> (lf_end l < lf_end ov \<or> lf_end ov = -1 \<or> lf_end l = lf_end ov \<and> lf_start ov < lf_start l)"
  "ov_rel 3 l ov \<longleftrightarrow> lf_start l \<le> lf_start ov \<and> (lf_end l = -1 \<or> lf_end ov \<noteq> -1 \<and> lf_end ov \<le> lf_end l)"
  "ov_rel 4 l ov \<longleftrightarrow> lf_start ov < lf_start l \<and> (lf_end ov = -1 \<and> lf_end l = -1 \<or>
        lf_end ov \<noteq> -1 \<and> lf_start l \<le> lf_end ov \<and> (lf_end l = -1 \<or> lf_end ov < lf_end l))"
  "ov_rel 5 l ov \<longleftrightarrow> lf_start l < lf_start ov \<and> lf_end l \<noteq> -1 \<and> lf_start ov \<le> lf_end l \<and> (lf_end l < lf_end ov \<or> lf_end ov = -1)"
  "ov_rel (Suc 0) l ov \<longleftrightarrow> lf_start ov = lf_start l \<and> lf_end ov = lf_end l"
  by (simp_all add: ov_rel_def)

lemma ov_rel_cases: "ov_rel c l ov \<Longrightarrow> c = 1 \<or> c = 2 \<or> c = 3 \<or> c = 4 \<or> c = 5"
  by (auto simp: ov_rel_def)

text \<open>After the lock is linked.\<close>

lemma lf_link_linked:
  assumes "range_ok l" "\<forall>x\<in>set (pre @ mid @ block). range_ok x" "sorted_wrt precedes (own (lf_id l) pre)"
    "\<forall>x\<in>set (own (lf_id l) pre). precedes x l" "own (lf_id l) mid = []" "sorted_wrt precedes (own (lf_id l) block)"
    "\<forall>y\<in>set (own (lf_id l) block). lf_start l < lf_start y"
  shows "\<exists>ls' wk. lf_link new l True pre mid block = Inr (ls', wk) \<and>
    lf_change l (mset (lf_block l)) (Some (lf_type l)) (pre @ mid @ block) ls' wk"
  using assms
proof (induction "length block" arbitrary: l mid block rule: less_induct)
  case less
  let ?i = "lf_id l"
  obtain c sk rest where f: "lf_findoverlap True l block = Inr (c, sk, rest)" "\<forall>x\<in>set (own ?i sk). precedes x l"
    "if c = 0 then \<forall>x\<in>set (own ?i rest). precedes l x else \<exists>ov r. rest = ov # r \<and> lf_id ov = ?i \<and> ov_rel c l ov"
    using findoverlap_self [of l block] less.prems by auto
  have b: "block = sk @ rest" by (rule findoverlap_split [OF f(1)])
  have osk: "own ?i sk = []"
  proof -
    have "\<not> precedes x l" if "x \<in> set (own ?i sk)" for x
    proof -
      have "x \<in> set block" "lf_id x = ?i" using that b by auto
      then have "lf_start l < lf_start x" "range_ok x" using less.prems(2,7) by auto
      then show ?thesis by (auto simp: precedes_def range_ok_def)
    qed
    then show ?thesis using f(2) by (metis list.set_intros(1) neq_Nil_conv)
  qed
  have preh: "held pre ?i b = None" if "covers l b" for b using held_precedes [OF less.prems(4) that] .
  have hs: "held sk ?i b = None" "held mid ?i b = None" for b using osk less.prems(5) by (metis held_own held.simps(1))+
  show ?case
  proof (cases "c = 0")
    case True
    then have r: "\<forall>x\<in>set (own ?i rest). precedes l x" using f(3) by simp
    let ?ls = "pre @ l # mid @ sk @ rest"
    have "lf_link new l True pre mid block = Inr (?ls, [])"
      by (subst lf_link.simps) (simp add: f(1) True Let_def split: list.splits)
    moreover have "\<forall>b. held ?ls ?i b = (if covers l b then Some (lf_type l) else held (pre @ mid @ block) ?i b)"
      using preh hs by (auto simp: b held_append split: option.splits)
    moreover have "sorted_wrt precedes (own ?i ?ls)"
      using less.prems(3-6) r osk precedes_trans [OF _ less.prems(1)] by (auto simp: b sorted_wrt_append)
    ultimately show ?thesis using less.prems(1,2) by (auto simp: lf_change_def b)
  next
    case False
    then obtain ov r where ov: "rest = ov # r" "lf_id ov = ?i" "ov_rel c l ov" using f(3) by auto
    have later: "lf_start l < lf_start ov" "range_ok ov" using less.prems(2,7) ov(1,2) by (auto simp: b)
    then consider (c3) "c = 3" "ov_rel 3 l ov" | (c5) "c = 5" "ov_rel 5 l ov"
      using ov_rel_cases [OF ov(3)] ov(3) by (auto simp: ov_rel_simps)
    then show ?thesis
    proof cases
      case c3
      let ?dg = "lf_type l = F_RDLCK \<and> lf_type ov = F_WRLCK"
      let ?l = "if ?dg then l else l\<lparr>lf_block := lf_block ov @ lf_block l\<rparr>"
      have l: "range_ok ?l = range_ok l" "lf_id ?l = ?i" "precedes x ?l = precedes x l" "lf_start ?l = lf_start l"
        "covers ?l b = covers l b" "lf_type ?l = lf_type l" for x b by (simp_all add: range_ok_def precedes_def covers_def)
      have "\<exists>ls' wk. lf_link new ?l True pre (mid @ sk) r = Inr (ls', wk) \<and>
          lf_change ?l (mset (lf_block ?l)) (Some (lf_type ?l)) (pre @ (mid @ sk) @ r) ls' wk"
        by (rule less.hyps) (use less.prems osk ov(2) in \<open>simp_all only: l, auto simp: b ov(1)\<close>)
      then obtain ls' wk where ih: "lf_link new ?l True pre (mid @ sk) r = Inr (ls', wk)"
        "lf_change ?l (mset (lf_block ?l)) (Some (lf_type ?l)) (pre @ (mid @ sk) @ r) ls' wk" by blast
      have "lf_link new l True pre mid block = Inr (ls', (if ?dg then lf_block ov else []) @ wk)"
        by (subst lf_link.simps) (simp add: f(1) c3(1) ov(1) Let_def ih(1) del: if_split)
      moreover have "covers ov b \<Longrightarrow> covers l b" for b using c3(2) by (auto simp: covers_def ov_rel_simps)
      then have "\<not> covers l b \<Longrightarrow> held (pre @ mid @ block) ?i b = held (pre @ (mid @ sk) @ r) ?i b" for b
        by (auto simp: b ov(1,2) held_append split: option.splits)
      ultimately show ?thesis using ih(2) by (auto simp: lf_change_def l b ov(1,2) split: if_splits)
    next
      case c5
      let ?ov = "ov\<lparr>lf_start := lf_end l + 1, lf_block := []\<rparr>"
      let ?ls = "pre @ l # mid @ sk @ ?ov # r"
      have "lf_link new l True pre mid block = Inr (?ls, lf_block ov)"
        by (subst lf_link.simps) (simp add: wrap64_end [OF less.prems(1)] f(1) c5(1) ov(1) Let_def)
      moreover have cov: "covers ?ov b \<longleftrightarrow> covers ov b \<and> \<not> covers l b" for b
        using c5(2) later by (auto simp: covers_def ov_rel_simps)
      then have "\<forall>b. held ?ls ?i b = (if covers l b then Some (lf_type l) else held (pre @ mid @ block) ?i b)"
        using preh hs ov(2) by (auto simp: b ov(1) held_append split: option.splits)
      moreover have p: "precedes l ?ov" "range_ok ?ov" "precedes ?ov x = precedes ov x" for x
        using c5(2) less.prems(1) later(2) by (auto simp: precedes_def ov_rel_simps range_ok_def)
      then have "sorted_wrt precedes (own ?i ?ls)"
        using less.prems(3-6) osk ov(2) precedes_trans [OF _ less.prems(1)] precedes_trans [OF p(1,2)]
        by (auto simp: b ov(1) sorted_wrt_append)
      ultimately show ?thesis using less.prems(1,2) p(2) ov(2) by (auto simp: lf_change_def b ov(1))
    qed
  qed
qed

text \<open>Before it is linked: the cases that end the search.\<close>

lemma lf_change_put:
  assumes "\<forall>x\<in>set (pre @ new @ post). range_ok x" "sorted_wrt precedes (own (lf_id l) (pre @ new @ post))"
    "others (lf_id l) new = others (lf_id l) old" "\<forall>x\<in>set (own (lf_id l) pre). precedes x l"
    "\<And>b. covers l b \<Longrightarrow> held (new @ post) (lf_id l) b = t"
    "\<And>b. \<not> covers l b \<Longrightarrow> held new (lf_id l) b = held old (lf_id l) b"
    "mset wk + chains new = q + chains old"
  shows "lf_change l q t (pre @ old @ post) (pre @ new @ post) wk"
proof -
  have "held (pre @ new @ post) (lf_id l) b = (if covers l b then t else held (pre @ old @ post) (lf_id l) b)" for b
    using assms(5,6) [of b] held_precedes [OF assms(4), of b] by (auto simp: held_append split: option.splits)
  moreover have "mset wk + chains (pre @ new @ post) = q + chains (pre @ old @ post)"
    using assms(7) by (simp add: add.assoc [symmetric])
  ultimately show ?thesis using assms(1-3) by (simp add: lf_change_def)
qed

lemma lf_change_trans:
  assumes "lf_change l q t mid ls' wk" "others (lf_id l) mid = others (lf_id l) ls"
    "\<And>b. \<not> covers l b \<Longrightarrow> held mid (lf_id l) b = held ls (lf_id l) b" "mset wk0 + q + chains mid = q0 + chains ls"
  shows "lf_change l q0 t ls ls' (wk0 @ wk)"
proof -
  have "mset wk0 + (mset wk + chains ls') = mset wk0 + (q + chains mid)" using assms(1) by (simp add: lf_change_def)
  also have "\<dots> = q0 + chains ls" using assms(4) by (simp add: add.assoc)
  finally have "mset (wk0 @ wk) + chains ls' = q0 + chains ls" by (simp add: add.assoc)
  then show ?thesis using assms(1-3) by (simp add: lf_change_def)
qed

text \<open>The place in a list at which a search for overlaps of \<open>l\<close> has stopped.\<close>

definition at_ov :: "lockf \<Rightarrow> lockf list \<Rightarrow> lockf \<Rightarrow> lockf list \<Rightarrow> bool" where
  "at_ov l sk ov r \<longleftrightarrow> lf_id ov = lf_id l \<and> range_ok l \<and> (\<forall>x\<in>set (sk @ ov # r). range_ok x) \<and>
     sorted_wrt precedes (own (lf_id l) (sk @ ov # r)) \<and> (\<forall>x\<in>set (own (lf_id l) sk). precedes x l)"

lemma at_ovD:
  assumes "at_ov l sk ov r"
  shows "lf_id ov = lf_id l" "range_ok l" "range_ok ov" "\<forall>x\<in>set r. range_ok x" "\<forall>x\<in>set sk. range_ok x"
    "sorted_wrt precedes (own (lf_id l) sk)" "sorted_wrt precedes (own (lf_id l) r)" "\<forall>y\<in>set (own (lf_id l) r). precedes ov y"
    "\<forall>x\<in>set (own (lf_id l) sk). precedes x ov" "\<forall>x\<in>set (own (lf_id l) sk). \<forall>y\<in>set (own (lf_id l) r). precedes x y"
    "\<forall>x\<in>set (own (lf_id l) sk). precedes x l"
  using assms by (auto simp: at_ov_def sorted_wrt_append)

text \<open>What is left of the overlapping lock behind and in front of the range.\<close>

lemma cut_tail:
  assumes "range_ok l" "range_ok ov" "lf_end l \<noteq> -1" "lf_end l < lf_end ov \<or> lf_end ov = -1" "lf_start ov \<le> lf_end l"
    "t = ov\<lparr>lf_addr := a, lf_start := lf_end l + 1, lf_block := []\<rparr>"
  shows "range_ok t" "precedes l t" "precedes t x = precedes ov x" "covers t b \<longleftrightarrow> covers ov b \<and> lf_end l < b"
    "lf_id t = lf_id ov" "lf_type t = lf_type ov" "lf_block t = []"
  using assms by (auto simp: range_ok_def precedes_def covers_def)

lemma cut_head:
  assumes "range_ok ov" "range_ok l" "lf_start ov < lf_start l" "t = ov\<lparr>lf_end := lf_start l - 1, lf_block := []\<rparr>"
    "lf_end ov = -1 \<or> lf_start l \<le> lf_end ov"
  shows "range_ok t" "precedes t l" "precedes x t = precedes x ov" "covers t b \<longleftrightarrow> covers ov b \<and> b < lf_start l"
    "lf_id t = lf_id ov" "lf_type t = lf_type ov" "lf_block t = []"
  using assms by (auto simp: range_ok_def precedes_def covers_def)

lemma link_same:
  assumes "at_ov l sk ov r" "ov_rel 1 l ov" "lf_findoverlap True l ls = Inr (1, sk, ov # r)"
  shows "\<exists>ls' wk. lf_link new l False [] [] ls = Inr (ls', wk) \<and> lf_change l {#} (Some (lf_type l)) (sk @ ov # r) ls' wk"
proof -
  note o = at_ovD [OF assms(1)]
  let ?dg = "lf_type l = F_RDLCK \<and> lf_type ov = F_WRLCK"
  let ?ov = "ov\<lparr>lf_type := lf_type l, lf_block := (if ?dg then [] else lf_block ov)\<rparr>"
  have "lf_link new l False [] [] ls = Inr (sk @ [?ov] @ r, if ?dg then lf_block ov else [])"
    by (subst lf_link.simps) (simp add: assms(3) Let_def)
  moreover have e: "range_ok ?ov = range_ok ov" "precedes x ?ov = precedes x ov" "precedes ?ov x = precedes ov x"
    "covers ?ov b = covers l b" "covers ov b = covers l b" for x b
    using assms(2) by (simp_all add: range_ok_def precedes_def covers_def ov_rel_simps)
  have "lf_change l {#} (Some (lf_type l)) (sk @ [ov] @ r) (sk @ [?ov] @ r) (if ?dg then lf_block ov else [])"
    by (rule lf_change_put) (use o in \<open>auto simp: e sorted_wrt_append\<close>)
  ultimately show ?thesis by auto
qed

lemma link_contained:
  assumes "at_ov l sk ov r" "ov_rel 2 l ov" "lf_findoverlap True l ls = Inr (2, sk, ov # r)" "lf_block l = []"
  shows "\<exists>ls' wk. lf_link new l False [] [] ls = Inr (ls', wk) \<and> lf_change l {#} (Some (lf_type l)) (sk @ ov # r) ls' wk"
proof -
  note o = at_ovD [OF assms(1)]
  let ?h = "ov\<lparr>lf_end := lf_start l - 1, lf_block := []\<rparr>" and ?t = "\<lambda>a. ov\<lparr>lf_addr := a, lf_start := lf_end l + 1, lf_block := []\<rparr>"
  have follow: "precedes l y" if "precedes ov y" for y using that assms(2) by (auto simp: precedes_def ov_rel_simps)
  have cl: "covers l b \<Longrightarrow> covers ov b" for b using assms(2) by (auto simp: covers_def ov_rel_simps)
  have lt: "lf_end l \<noteq> -1" "lf_start ov \<le> lf_end l" "lf_end ov = -1 \<or> lf_start l \<le> lf_end ov"
    using assms(2) o(2) by (auto simp: ov_rel_simps range_ok_def)
  have first: "lf_start ov \<le> lf_start l" using assms(2) by (auto simp: ov_rel_simps)
  consider (eq) "lf_type ov = lf_type l" | (start) "lf_type ov \<noteq> lf_type l" "lf_start ov = lf_start l"
    | (stop) "lf_type ov \<noteq> lf_type l" "lf_start ov < lf_start l" "lf_end ov = lf_end l"
    | (split) "lf_type ov \<noteq> lf_type l" "lf_start ov < lf_start l" "lf_end ov \<noteq> lf_end l"
    using first by (metis le_less)
  then show ?thesis
  proof cases
    case eq
    have "lf_link new l False [] [] ls = Inr (sk @ [ov] @ r, [])" by (subst lf_link.simps) (simp add: assms(3) Let_def eq)
    moreover have "lf_change l {#} (Some (lf_type l)) (sk @ [ov] @ r) (sk @ [ov] @ r) []"
      by (rule lf_change_put) (use o cl eq in \<open>auto simp: sorted_wrt_append\<close>)
    ultimately show ?thesis by auto
  next
    case start
    have "lf_end l < lf_end ov \<or> lf_end ov = -1" using assms(2) start(2) by (auto simp: ov_rel_simps)
    note t = cut_tail [OF o(2,3) lt(1) this lt(2), of "?t (lf_addr ov)" "lf_addr ov", OF refl]
    have "lf_link new l False [] [] ls = Inr (sk @ [l, ?t (lf_addr ov)] @ r, lf_block ov)"
      by (subst lf_link.simps) (simp add: wrap64_end [OF o(2)] assms(3) Let_def start)
    moreover have "covers ov b \<and> \<not> covers l b \<longleftrightarrow> covers ov b \<and> lf_end l < b" for b using start(2) lt(1) by (auto simp: covers_def)
    then have "lf_change l {#} (Some (lf_type l)) (sk @ [ov] @ r) (sk @ [l, ?t (lf_addr ov)] @ r) (lf_block ov)"
      by (intro lf_change_put)
        (use o assms(4) follow t(1-4) precedes_trans [OF _ o(2) t(2)] in \<open>auto simp: sorted_wrt_append\<close>)
    ultimately show ?thesis by auto
  next
    case stop
    note h = cut_head [OF o(3,2) stop(2) refl lt(3)]
    have "lf_link new l False [] [] ls = Inr (sk @ [?h, l] @ r, lf_block ov)"
      by (subst lf_link.simps) (use stop in \<open>simp add: wrap64_end [OF o(2)] assms(3) Let_def lf_split_def\<close>)
    moreover have "\<not> covers l b \<Longrightarrow> covers ov b \<and> b < lf_start l \<longleftrightarrow> covers ov b" for b using stop(3) by (auto simp: covers_def)
    then have "lf_change l {#} (Some (lf_type l)) (sk @ [ov] @ r) (sk @ [?h, l] @ r) (lf_block ov)"
      by (intro lf_change_put)
        (use o assms(4) follow h(1-4) precedes_trans [OF h(2) o(2)] in \<open>auto simp: sorted_wrt_append dest: precedes_covers [OF h(2)]\<close>)
    ultimately show ?thesis by auto
  next
    case split
    have "lf_end l < lf_end ov \<or> lf_end ov = -1" using assms(2) split(3) by (auto simp: ov_rel_simps)
    note t = cut_tail [OF o(2,3) lt(1) this lt(2), of "?t new" new, OF refl] and h = cut_head [OF o(3,2) split(2) refl lt(3)]
    have "lf_link new l False [] [] ls = Inr (sk @ [?h, l, ?t new] @ r, lf_block ov)"
      by (subst lf_link.simps) (use split in \<open>simp add: wrap64_end [OF o(2)] assms(3) Let_def lf_split_def\<close>)
    moreover have "\<not> covers l b \<Longrightarrow> held [?h, l, ?t new] (lf_id l) b = held [ov] (lf_id l) b" for b
      using h(4) [of b] t(4) [of b] o(1) by (auto simp: covers_def)
    then have "lf_change l {#} (Some (lf_type l)) (sk @ [ov] @ r) (sk @ [?h, l, ?t new] @ r) (lf_block ov)"
      by (intro lf_change_put)
        (use o assms(4) follow h(1-3) t(1-3) precedes_trans [OF h(2) o(2)] precedes_trans [OF _ o(2) t(2)] in
          \<open>auto simp: sorted_wrt_append dest: precedes_covers [OF h(2)]\<close>)
    ultimately show ?thesis by auto
  qed
qed

lemma link_containing:
  assumes "at_ov l sk ov r" "ov_rel 3 l ov" "lf_findoverlap True l ls = Inr (3, sk, ov # r)" "lf_block l = []"
  shows "\<exists>ls' wk. lf_link new l False [] [] ls = Inr (ls', wk) \<and> lf_change l {#} (Some (lf_type l)) (sk @ ov # r) ls' wk"
proof -
  note o = at_ovD [OF assms(1)]
  let ?i = "lf_id l" and ?t = "Some (lf_type l)" and ?dg = "lf_type l = F_RDLCK \<and> lf_type ov = F_WRLCK"
  let ?l = "if ?dg then l else l\<lparr>lf_block := lf_block ov @ lf_block l\<rparr>"
  have l: "range_ok ?l = range_ok l" "lf_id ?l = ?i" "precedes x ?l = precedes x l" "lf_start ?l = lf_start l"
    "covers ?l b = covers l b" "lf_type ?l = lf_type l" for x b by (simp_all add: range_ok_def precedes_def covers_def)
  have "lf_start l < lf_start y" if "precedes ov y" for y
    using that assms(2) o(3) by (auto simp: precedes_def ov_rel_simps range_ok_def)
  then have "\<exists>ls' wk. lf_link new ?l True sk [] r = Inr (ls', wk) \<and>
      lf_change ?l (mset (lf_block ?l)) (Some (lf_type ?l)) (sk @ [] @ r) ls' wk"
    by (intro lf_link_linked) (use o in \<open>simp_all only: l, auto\<close>)
  then obtain ls' wk where ih: "lf_link new ?l True sk [] r = Inr (ls', wk)"
    "lf_change ?l (mset (lf_block ?l)) ?t (sk @ r) ls' wk" unfolding l by auto
  have "lf_link new l False [] [] ls = Inr (ls', (if ?dg then lf_block ov else []) @ wk)"
    by (subst lf_link.simps) (simp add: assms(3) Let_def ih(1) del: if_split)
  moreover have "covers ov b \<Longrightarrow> covers l b" for b using assms(2) by (auto simp: covers_def ov_rel_simps)
  then have "\<not> covers l b \<Longrightarrow> held (sk @ r) ?i b = held (sk @ ov # r) ?i b" for b
    by (auto simp: o(1) held_append split: option.splits)
  then have "lf_change l {#} ?t (sk @ ov # r) ls' ((if ?dg then lf_block ov else []) @ wk)"
    by (rule lf_change_trans [rotated 2, where q = "mset (lf_block ?l)" and mid = "sk @ r"])
      (use ih(2) in \<open>auto simp: o(1) assms(4) lf_change_def l\<close>)
  ultimately show ?thesis by auto
qed

lemma link_after:
  assumes "at_ov l sk ov r" "ov_rel 4 l ov" "lf_findoverlap True l ls = Inr (4, sk, ov # r)" "lf_block l = []"
  shows "\<exists>ls' wk. lf_link new l False [] [] ls = Inr (ls', wk) \<and> lf_change l {#} (Some (lf_type l)) (sk @ ov # r) ls' wk"
proof -
  note o = at_ovD [OF assms(1)]
  let ?h = "ov\<lparr>lf_end := lf_start l - 1, lf_block := []\<rparr>"
  have r: "lf_start ov < lf_start l" "lf_end ov = -1 \<or> lf_start l \<le> lf_end ov" using assms(2) by (auto simp: ov_rel_simps)
  note h = cut_head [OF o(3,2) r(1) refl r(2)]
  have cov: "\<not> covers l b \<Longrightarrow> covers ?h b = covers ov b" for b using h(4) [of b] assms(2) by (auto simp: covers_def ov_rel_simps)
  have "lf_start l < lf_start y" if "precedes ov y" for y using that assms(2) by (auto simp: precedes_def ov_rel_simps)
  then have "\<exists>ls' wk. lf_link new l True (sk @ [?h]) [] r = Inr (ls', wk) \<and>
      lf_change l (mset (lf_block l)) (Some (lf_type l)) ((sk @ [?h]) @ [] @ r) ls' wk"
    by (intro lf_link_linked) (use o h(1-3) in \<open>auto simp: sorted_wrt_append\<close>)
  then obtain ls' wk where ih: "lf_link new l True (sk @ [?h]) [] r = Inr (ls', wk)"
    "lf_change l {#} (Some (lf_type l)) (sk @ ?h # r) ls' wk" by (auto simp: assms(4))
  have "lf_link new l False [] [] ls = Inr (ls', lf_block ov @ wk)" by (subst lf_link.simps) (simp add: assms(3) Let_def ih(1))
  moreover have "lf_change l {#} (Some (lf_type l)) (sk @ ov # r) ls' (lf_block ov @ wk)"
    by (rule lf_change_trans [OF ih(2)]) (use cov in \<open>auto simp: o(1) held_append split: option.splits\<close>)
  ultimately show ?thesis by auto
qed

lemma link_before:
  assumes "at_ov l sk ov r" "ov_rel 5 l ov" "lf_findoverlap True l ls = Inr (5, sk, ov # r)" "lf_block l = []"
  shows "\<exists>ls' wk. lf_link new l False [] [] ls = Inr (ls', wk) \<and> lf_change l {#} (Some (lf_type l)) (sk @ ov # r) ls' wk"
proof -
  note o = at_ovD [OF assms(1)]
  have r: "lf_end l \<noteq> -1" "lf_end l < lf_end ov \<or> lf_end ov = -1" "lf_start ov \<le> lf_end l" using assms(2) by (auto simp: ov_rel_simps)
  let ?t = "ov\<lparr>lf_addr := lf_addr ov, lf_start := lf_end l + 1, lf_block := []\<rparr>"
  note t = cut_tail [OF o(2,3) r refl, of "lf_addr ov"]
  have "lf_link new l False [] [] ls = Inr (sk @ [l, ?t] @ r, lf_block ov)" by (subst lf_link.simps) (simp add: wrap64_end [OF o(2)] assms(3) Let_def)
  moreover have "covers ov b \<and> \<not> covers l b \<longleftrightarrow> covers ov b \<and> lf_end l < b" for b
    using assms(2) by (auto simp: covers_def ov_rel_simps)
  then have "lf_change l {#} (Some (lf_type l)) (sk @ [ov] @ r) (sk @ [l, ?t] @ r) (lf_block ov)"
    by (intro lf_change_put)
      (use o assms(4) t(1-4) precedes_trans [OF _ o(2) t(2)] precedes_trans [OF t(2,1)] in \<open>auto simp: sorted_wrt_append\<close>)
  ultimately show ?thesis by auto
qed

lemma lf_link_ok:
  assumes "range_ok l" "lf_block l = []" "\<forall>x\<in>set ls. range_ok x" "sorted_wrt precedes (own (lf_id l) ls)"
  shows "\<exists>ls' wk. lf_link new l False [] [] ls = Inr (ls', wk) \<and> lf_change l {#} (Some (lf_type l)) ls ls' wk"
proof -
  let ?i = "lf_id l"
  obtain c sk rest where f: "lf_findoverlap True l ls = Inr (c, sk, rest)" "\<forall>x\<in>set (own ?i sk). precedes x l"
    "if c = 0 then \<forall>x\<in>set (own ?i rest). precedes l x else \<exists>ov r. rest = ov # r \<and> lf_id ov = ?i \<and> ov_rel c l ov"
    using findoverlap_self [OF assms(1,3,4)] by auto
  have b: "ls = sk @ rest" by (rule findoverlap_split [OF f(1)])
  show ?thesis
  proof (cases "c = 0")
    case True
    then have r: "\<forall>x\<in>set (own ?i rest). precedes l x" using f(3) by simp
    have "lf_link new l False [] [] ls = Inr (sk @ [l] @ rest, [])"
      by (subst lf_link.simps) (simp add: f(1) True Let_def split: list.splits)
    moreover have "lf_change l {#} (Some (lf_type l)) (sk @ [] @ rest) (sk @ [l] @ rest) []"
      by (rule lf_change_put) (use assms f(2) r precedes_trans [OF _ assms(1)] in \<open>auto simp: b sorted_wrt_append\<close>)
    ultimately show ?thesis by (auto simp: b)
  next
    case False
    then obtain ov r where ov: "rest = ov # r" "lf_id ov = ?i" "ov_rel c l ov" using f(3) by auto
    have at: "at_ov l sk ov r" using assms(1,3,4) f(2) ov(1,2) by (simp add: at_ov_def b)
    show ?thesis
      using ov_rel_cases [OF ov(3)] link_same [OF at] link_contained [OF at] link_containing [OF at] link_after [OF at]
        link_before [OF at] f(1) ov assms(2) unfolding b by metis
  qed
qed

section \<open>Releasing a range\<close>

lemma clear_put:
  assumes "at_ov l p ov r" "\<forall>x\<in>set new. range_ok x \<and> lf_id x = lf_id l \<and> lf_block x = []"
    "\<forall>x\<in>set (own (lf_id l) p). \<forall>y\<in>set new. precedes x y" "\<forall>x\<in>set new. \<forall>y\<in>set (own (lf_id l) r). precedes x y"
    "sorted_wrt precedes new" "\<And>b. covers l b \<Longrightarrow> held (new @ r) (lf_id l) b = None"
    "\<And>b. \<not> covers l b \<Longrightarrow> held new (lf_id l) b = held [ov] (lf_id l) b"
  shows "lf_change l {#} None (p @ [ov] @ r) (p @ new @ r) (lf_block ov)"
proof (rule lf_change_put)
  note o = at_ovD [OF assms(1)]
  have n: "own (lf_id l) new = new" "others (lf_id l) new = []" "concat (map lf_block new) = []"
    using assms(2) by (auto simp: filter_id_conv)
  then show "sorted_wrt precedes (own (lf_id l) (p @ new @ r))" using o assms(3-5) by (simp add: sorted_wrt_append ball_Un)
  show "others (lf_id l) new = others (lf_id l) [ov]" using n o(1) by simp
  show "mset (lf_block ov) + chains new = {#} + chains [ov]" using n(3) by simp
  show "\<forall>x\<in>set (p @ new @ r). range_ok x" using assms(2) o by auto
qed (use assms at_ovD [OF assms(1)] in auto)

lemma clear_contained:
  assumes "at_ov l (pre @ sk) ov r" "ov_rel 2 l ov" "lf_findoverlap True l block = Inr (2, sk, ov # r)"
  shows "\<exists>ls' wk. lf_clear new l pre block = Inr (ls', wk) \<and> lf_change l {#} None (pre @ sk @ ov # r) ls' wk"
proof -
  note o = at_ovD [OF assms(1)]
  let ?p = "pre @ sk" and ?i = "lf_id l"
  let ?h = "ov\<lparr>lf_end := lf_start l - 1, lf_block := []\<rparr>" and ?t = "\<lambda>a. ov\<lparr>lf_addr := a, lf_start := lf_end l + 1, lf_block := []\<rparr>"
  have follow: "\<forall>y\<in>set (own ?i r). precedes l y" using o(8) assms(2) by (auto simp: precedes_def ov_rel_simps)
  note hf = held_follows [OF follow]
  have lt: "lf_end l \<noteq> -1" "lf_start ov \<le> lf_end l" "lf_end ov = -1 \<or> lf_start l \<le> lf_end ov"
    using assms(2) o(2) by (auto simp: ov_rel_simps range_ok_def)
  have first: "lf_start ov \<le> lf_start l" using assms(2) by (auto simp: ov_rel_simps)
  consider (start) "lf_start ov = lf_start l" | (stop) "lf_start ov < lf_start l" "lf_end ov = lf_end l"
    | (split) "lf_start ov < lf_start l" "lf_end ov \<noteq> lf_end l" using first by (metis le_less)
  then show ?thesis
  proof cases
    case start
    have "lf_end l < lf_end ov \<or> lf_end ov = -1" using assms(2) start by (auto simp: ov_rel_simps)
    note t = cut_tail [OF o(2,3) lt(1) this lt(2), of "?t (lf_addr ov)" "lf_addr ov", OF refl]
    have "lf_clear new l pre block = Inr (?p @ [?t (lf_addr ov)] @ r, lf_block ov)"
      by (subst lf_clear.simps) (simp add: wrap64_end [OF o(2)] assms(3) Let_def start)
    moreover have "covers ov b \<and> \<not> covers l b \<longleftrightarrow> covers ov b \<and> lf_end l < b" for b using start lt(1) by (auto simp: covers_def)
    then have "lf_change l {#} None (?p @ [ov] @ r) (?p @ [?t (lf_addr ov)] @ r) (lf_block ov)"
      by (intro clear_put) (use assms(1) o hf t(1-4) precedes_trans [OF _ o(2) t(2)] in auto)
    ultimately show ?thesis by auto
  next
    case stop
    note h = cut_head [OF o(3,2) stop(1) refl lt(3)]
    have "lf_clear new l pre block = Inr (?p @ [?h] @ r, lf_block ov)"
      by (subst lf_clear.simps) (use stop in \<open>simp add: wrap64_end [OF o(2)] assms(3) Let_def lf_split_def\<close>)
    moreover have "\<not> covers l b \<Longrightarrow> covers ov b \<and> b < lf_start l \<longleftrightarrow> covers ov b" for b using stop(2) by (auto simp: covers_def)
    then have "lf_change l {#} None (?p @ [ov] @ r) (?p @ [?h] @ r) (lf_block ov)"
      by (intro clear_put)
        (use assms(1) o hf follow h(1-4) precedes_trans [OF h(2) o(2)] in \<open>auto dest: precedes_covers [OF h(2)]\<close>)
    ultimately show ?thesis by auto
  next
    case split
    have "lf_end l < lf_end ov \<or> lf_end ov = -1" using assms(2) split(2) by (auto simp: ov_rel_simps)
    note t = cut_tail [OF o(2,3) lt(1) this lt(2), of "?t new" new, OF refl] and h = cut_head [OF o(3,2) split(1) refl lt(3)]
    have "lf_clear new l pre block = Inr (?p @ [?h, ?t new] @ r, lf_block ov)"
      by (subst lf_clear.simps) (use split in \<open>simp add: wrap64_end [OF o(2)] assms(3) Let_def lf_split_def\<close>)
    moreover have "covers l b \<Longrightarrow> \<not> lf_end l < b" "\<not> covers l b \<Longrightarrow> held [?h, ?t new] ?i b = held [ov] ?i b" for b
      using h(4) [of b] t(4) [of b] o(1) lt(1) by (auto simp: covers_def)
    then have "lf_change l {#} None (?p @ [ov] @ r) (?p @ [?h, ?t new] @ r) (lf_block ov)"
      by (intro clear_put) (use assms(1) o hf follow h(1-4) t(1-4) precedes_trans [OF h(2) o(2)]
          precedes_trans [OF _ o(2) t(2)] in \<open>auto dest: precedes_covers [OF h(2)]\<close>)
    ultimately show ?thesis by auto
  qed
qed

text \<open>The overlapping lock goes away, or begins behind the range.\<close>

lemma clear_ends:
  assumes "at_ov l (pre @ sk) ov r" "ov_rel c l ov" "c = 1 \<or> c = 5" "lf_findoverlap True l block = Inr (c, sk, ov # r)"
  shows "\<exists>ls' wk. lf_clear new l pre block = Inr (ls', wk) \<and> lf_change l {#} None (pre @ sk @ ov # r) ls' wk"
proof -
  note o = at_ovD [OF assms(1)]
  have follow: "\<forall>y\<in>set (own (lf_id l) r). precedes l y"
    using o(2,3,8) assms(2,3) by (auto simp: precedes_def ov_rel_simps range_ok_def)
  note hf = held_follows [OF follow]
  show ?thesis using assms(3)
  proof
    assume c: "c = 1"
    have "lf_clear new l pre block = Inr ((pre @ sk) @ [] @ r, lf_block ov)"
      by (subst lf_clear.simps) (simp add: assms(4) c Let_def)
    moreover have "covers ov b = covers l b" for b using assms(2) c by (simp add: covers_def ov_rel_simps)
    then have "lf_change l {#} None ((pre @ sk) @ [ov] @ r) ((pre @ sk) @ [] @ r) (lf_block ov)"
      by (intro clear_put [OF assms(1)]) (use hf in auto)
    ultimately show ?thesis by auto
  next
    assume c: "c = 5"
    let ?t = "ov\<lparr>lf_addr := lf_addr ov, lf_start := lf_end l + 1, lf_block := []\<rparr>"
    have "lf_end l \<noteq> -1" "lf_end l < lf_end ov \<or> lf_end ov = -1" "lf_start ov \<le> lf_end l"
      using assms(2) c by (auto simp: ov_rel_simps)
    note t = cut_tail [OF o(2,3) this, of ?t "lf_addr ov", OF refl]
    have "lf_clear new l pre block = Inr ((pre @ sk) @ [?t] @ r, lf_block ov)"
      by (subst lf_clear.simps) (simp add: wrap64_end [OF o(2)] assms(4) c Let_def)
    moreover have "covers ov b \<and> \<not> covers l b \<longleftrightarrow> covers ov b \<and> lf_end l < b" for b
      using assms(2) c by (auto simp: covers_def ov_rel_simps)
    then have "lf_change l {#} None ((pre @ sk) @ [ov] @ r) ((pre @ sk) @ [?t] @ r) (lf_block ov)"
      by (intro clear_put [OF assms(1)]) (use o hf t(1-4) precedes_trans [OF _ o(2) t(2)] in auto)
    ultimately show ?thesis by auto
  qed
qed

text \<open>The overlapping lock ends in the range or is covered by it: the search goes on behind it.\<close>

lemma clear_on:
  assumes "at_ov l p ov r" "ov_rel c l ov" "c = 3 \<or> c = 4"
    "ov' = (if c = 3 then [] else [ov\<lparr>lf_block := [], lf_end := lf_start l - 1\<rparr>])"
  shows "\<forall>x\<in>set ((p @ ov') @ r). range_ok x" "sorted_wrt precedes (own (lf_id l) ((p @ ov') @ r))"
    "\<forall>x\<in>set (own (lf_id l) (p @ ov')). precedes x l" "others (lf_id l) ov' = []" "chains ov' = {#}"
    "\<not> covers l b \<Longrightarrow> held ov' (lf_id l) b = held [ov] (lf_id l) b"
proof -
  note o = at_ovD [OF assms(1)]
  let ?h = "ov\<lparr>lf_end := lf_start l - 1, lf_block := []\<rparr>"
  have e: "ov' = (if c = 3 then [] else [?h])" using assms(4) by simp
  have c3: "covers ov b \<Longrightarrow> covers l b" if "c = 3" for b using assms(2) that by (auto simp: covers_def ov_rel_simps)
  have c4: "lf_start ov < lf_start l" "lf_end ov = -1 \<or> lf_start l \<le> lf_end ov" "covers ov b \<Longrightarrow> \<not> covers l b \<Longrightarrow> b < lf_start l"
    if "c = 4" for b using assms(2) that by (auto simp: ov_rel_simps covers_def)
  note h = cut_head [OF o(3,2) c4(1) refl c4(2)]
  have hy: "precedes ?h y" if "precedes ov y" "c = 4" for y
    using that c4(1,2) o(2,3) by (auto simp: precedes_def range_ok_def)
  show "\<forall>x\<in>set ((p @ ov') @ r). range_ok x" using o h(1) assms(3) e by auto
  show "sorted_wrt precedes (own (lf_id l) ((p @ ov') @ r))"
    using o h(3,5) hy assms(3) e by (auto simp: sorted_wrt_append)
  show "\<forall>x\<in>set (own (lf_id l) (p @ ov')). precedes x l" using o h(2) assms(3) e by auto
  show "others (lf_id l) ov' = []" "chains ov' = {#}" using o(1) e by auto
  show "\<not> covers l b \<Longrightarrow> held ov' (lf_id l) b = held [ov] (lf_id l) b"
    using c3 c4(3) h(4) o(1) assms(3) e by auto
qed

lemma lf_clear_ok:
  assumes "range_ok l" "\<forall>x\<in>set (pre @ block). range_ok x" "sorted_wrt precedes (own (lf_id l) (pre @ block))"
    "\<forall>x\<in>set (own (lf_id l) pre). precedes x l"
  shows "\<exists>ls' wk. lf_clear new l pre block = Inr (ls', wk) \<and> lf_change l {#} None (pre @ block) ls' wk"
  using assms
proof (induction "length block" arbitrary: pre block rule: less_induct)
  case less
  let ?i = "lf_id l"
  have sb: "\<forall>x\<in>set block. range_ok x" "sorted_wrt precedes (own ?i block)" using less.prems(2,3) by (auto simp: sorted_wrt_append)
  obtain c sk rest where f: "lf_findoverlap True l block = Inr (c, sk, rest)" "\<forall>x\<in>set (own ?i sk). precedes x l"
    "if c = 0 then \<forall>x\<in>set (own ?i rest). precedes l x else \<exists>ov r. rest = ov # r \<and> lf_id ov = ?i \<and> ov_rel c l ov"
    using findoverlap_self [OF less.prems(1) sb] by auto
  have b: "block = sk @ rest" by (rule findoverlap_split [OF f(1)])
  let ?p = "pre @ sk"
  have fp: "\<forall>x\<in>set (own ?i ?p). precedes x l" using f(2) less.prems(4) by auto
  show ?case
  proof (cases "c = 0")
    case True
    then have r: "\<forall>x\<in>set (own ?i rest). precedes l x" using f(3) by simp
    have "lf_clear new l pre block = Inr (?p @ [] @ rest, [])"
      by (subst lf_clear.simps) (simp add: f(1) True Let_def split: list.splits)
    moreover have "lf_change l {#} None (?p @ [] @ rest) (?p @ [] @ rest) []"
      by (rule lf_change_put) (use less.prems fp held_follows [OF r] in \<open>auto simp: b\<close>)
    ultimately show ?thesis by (auto simp: b)
  next
    case False
    then obtain ov r where ov: "rest = ov # r" "lf_id ov = ?i" "ov_rel c l ov" using f(3) by auto
    have at: "at_ov l ?p ov r" using less.prems(1-3) fp ov(1,2) by (simp add: at_ov_def b)
    consider (ends) "c = 1 \<or> c = 5" | (inside) "c = 2" | (on) "c = 3 \<or> c = 4" using ov_rel_cases [OF ov(3)] by blast
    then show ?thesis
    proof cases
      case ends
      then show ?thesis using clear_ends [OF at ov(3)] f(1) ov(1) by (simp add: b)
    next
      case inside
      then show ?thesis using clear_contained [OF at] f(1) ov(1,3) by (simp add: b)
    next
      case on
      define ov' where "ov' = (if c = 3 then [] else [ov\<lparr>lf_block := [], lf_end := lf_start l - 1\<rparr>])"
      note k = clear_on [OF at ov(3) on ov'_def]
      have "\<exists>ls' wk. lf_clear new l (?p @ ov') r = Inr (ls', wk) \<and> lf_change l {#} None ((?p @ ov') @ r) ls' wk"
        by (rule less.hyps [OF _ less.prems(1) k(1-3)]) (simp add: b ov(1))
      then obtain ls' wk where ih: "lf_clear new l (?p @ ov') r = Inr (ls', wk)" "lf_change l {#} None ((?p @ ov') @ r) ls' wk"
        by blast
      have "lf_clear new l pre block = Inr (ls', lf_block ov @ wk)" using on ih(1)
        by (subst lf_clear.simps) (auto simp: f(1) ov(1) Let_def ov'_def)
      moreover have "lf_change l {#} None (?p @ ov # r) ls' (lf_block ov @ wk)"
        by (rule lf_change_trans [OF ih(2)]) (use k(4-6) in \<open>auto simp: ov(2) held_append split: option.splits\<close>)
      ultimately show ?thesis by (auto simp: b ov(1))
    qed
  qed
qed

section \<open>Blocking locks\<close>

text \<open>\<open>clash l x\<close>: the lock \<open>x\<close> of another owner overlaps \<open>l\<close> and one of the two is exclusive.\<close>

definition clash :: "lockf \<Rightarrow> lockf \<Rightarrow> bool" where
  "clash l x \<longleftrightarrow> lf_id x \<noteq> lf_id l \<and> \<not> precedes x l \<and> \<not> precedes l x \<and> (lf_type l = F_WRLCK \<or> lf_type x = F_WRLCK)"

lemma findoverlap_others:
  assumes "range_ok l" "\<forall>x\<in>set ls. range_ok x"
  shows "\<exists>c sk rest. lf_findoverlap False l ls = Inr (c, sk, rest) \<and>
    (\<forall>x\<in>set sk. lf_id x = lf_id l \<or> precedes x l \<or> precedes l x) \<and>
    (if c = 0 then rest = [] else \<exists>ov r. rest = ov # r \<and> lf_id ov \<noteq> lf_id l \<and> \<not> precedes ov l \<and> \<not> precedes l ov)"
  using assms(2)
proof (induction ls)
  case (Cons lf ls)
  show ?case
  proof (cases "lf_id lf = lf_id l \<or> precedes lf l \<or> precedes l lf")
    case True
    then show ?thesis using Cons findoverlap_skip(2) [OF True, of ls] by fastforce
  next
    case False
    then show ?thesis using findoverlap_hit [OF assms(1), of lf False ls] Cons.prems by fastforce
  qed
qed simp

lemma lf_getblock_find:
  "range_ok l \<Longrightarrow> \<forall>x\<in>set ls. range_ok x \<Longrightarrow> lf_getblock l ls = Inr (find (clash l) ls)"
proof (induction "length ls" arbitrary: ls rule: less_induct)
  case less
  obtain c sk rest where f: "lf_findoverlap False l ls = Inr (c, sk, rest)"
    "\<forall>x\<in>set sk. lf_id x = lf_id l \<or> precedes x l \<or> precedes l x"
    "if c = 0 then rest = [] else \<exists>ov r. rest = ov # r \<and> lf_id ov \<noteq> lf_id l \<and> \<not> precedes ov l \<and> \<not> precedes l ov"
    using findoverlap_others [OF less.prems] by auto
  have b: "ls = sk @ rest" by (rule findoverlap_split [OF f(1)])
  have "find (clash l) (sk @ xs) = find (clash l) xs" for xs
    using f(2) by (induction sk) (auto simp: clash_def)
  then have fd: "find (clash l) ls = find (clash l) rest" by (simp add: b)
  show ?case
  proof (cases "c = 0")
    case True
    then show ?thesis using f by (subst lf_getblock.simps) (simp add: fd)
  next
    case False
    then obtain ov r where ov: "rest = ov # r" "lf_id ov \<noteq> lf_id l" "\<not> precedes ov l" "\<not> precedes l ov" using f(3) by auto
    have "lf_getblock l r = Inr (find (clash l) r)" using less.hyps [of r] less.prems by (auto simp: b ov(1))
    then show ?thesis using ov False by (subst lf_getblock.simps) (auto simp: f(1) fd clash_def)
  qed
qed

section \<open>Exclusion\<close>

text \<open>No owner holds an exclusive lock on a byte that another owner has locked.\<close>

definition exclusive :: "lockf list \<Rightarrow> bool" where
  "exclusive ls \<longleftrightarrow> (\<forall>i j b. i \<noteq> j \<longrightarrow> held ls i b = Some F_WRLCK \<longrightarrow> held ls j b = None)"

lemma held_Some: "held ls i b = Some t \<Longrightarrow> \<exists>x\<in>set ls. lf_id x = i \<and> covers x b \<and> lf_type x = t"
  by (induction ls) (auto split: if_splits)

lemma lf_change_others:
  assumes "lf_change l q t ls ls' wk" "j \<noteq> lf_id l"
  shows "own j ls' = own j ls" "held ls' j b = held ls j b"
proof -
  have o: "own j xs = own j (others (lf_id l) xs)" for xs using assms(2) by (auto simp: intro!: filter_cong)
  show w: "own j ls' = own j ls" using assms(1) o [of ls] o [of ls'] by (simp add: lf_change_def)
  show "held ls' j b = held ls j b" using held_own [of ls j b] held_own [of ls' j b] by (simp add: w)
qed

lemma lf_change_ok:
  assumes "lf_change l q t ls ls' wk" "locks_ok ls"
  shows "locks_ok ls'"
proof -
  have "sorted_wrt precedes (own j ls')" for j
    using assms lf_change_others(1) [OF assms(1), of j] by (cases "j = lf_id l") (auto simp: lf_change_def locks_ok_def)
  then show ?thesis using assms(1) by (simp add: lf_change_def locks_ok_def)
qed

lemma lf_change_exclusive:
  assumes "lf_change l q t ls ls' wk" "exclusive ls" "t = None \<or> t = Some (lf_type l) \<and> (\<forall>x\<in>set ls. \<not> clash l x)"
  shows "exclusive ls'"
  unfolding exclusive_def
proof (intro allI impI)
  fix i j b
  assume ij: "i \<noteq> j" and w: "held ls' i b = Some F_WRLCK"
  have h: "held ls' (lf_id l) b = (if covers l b then t else held ls (lf_id l) b)" using assms(1) by (simp add: lf_change_def)
  have clash: "lf_type l \<noteq> F_WRLCK \<and> u \<noteq> F_WRLCK" if "held ls k b = Some u" "k \<noteq> lf_id l" "covers l b" "t \<noteq> None" for k u
  proof -
    from that(1) obtain x where x: "x \<in> set ls" "lf_id x = k" "covers x b" "lf_type x = u" using held_Some by blast
    then have "\<not> precedes x l" "\<not> precedes l x" using that(3) precedes_covers by blast+
    then show ?thesis using x that(2,4) assms(3) by (auto simp: clash_def)
  qed
  have ex: "held ls i' b = Some F_WRLCK \<Longrightarrow> i' \<noteq> j' \<Longrightarrow> held ls j' b = None" for i' j' using assms(2) by (auto simp: exclusive_def)
  show "held ls' j b = None"
  proof (cases "covers l b \<and> (i = lf_id l \<or> j = lf_id l)")
    case False
    then have "held ls' k b = held ls k b" if "k = i \<or> k = j" for k
      using that h lf_change_others(2) [OF assms(1), of k b] by (cases "k = lf_id l") auto
    then show ?thesis using w ij ex by metis
  next
    case True
    then consider "i = lf_id l" "covers l b" | "j = lf_id l" "covers l b" by blast
    then show ?thesis
    proof cases
      case 1
      then have t: "t = Some F_WRLCK" using h w by simp
      then have "lf_type l = F_WRLCK" using assms(3) by simp
      then have "held ls j b = None" using clash [of j] 1(2) t ij 1(1) by (cases "held ls j b") auto
      then show ?thesis using lf_change_others(2) [OF assms(1), of j b] ij 1(1) by simp
    next
      case 2
      then have "held ls i b = Some F_WRLCK" using w lf_change_others(2) [OF assms(1), of i b] ij by simp
      then have "t = None" using clash [of i F_WRLCK] 2 ij by blast
      then show ?thesis using h 2 by simp
    qed
  qed
qed

section \<open>The state\<close>

text \<open>
  The invariant of the locks of all inodes, and that of the chains: the requests on the chains of an inode's locks are
  sleeping requests for that inode, each on one chain; requests are proper and have the property \<open>Q\<close>; a process sleeps on a
  request that exists.
\<close>

definition req_ok :: "lockf \<Rightarrow> bool" where
  "req_ok l \<longleftrightarrow> range_ok l \<and> lf_block l = []"

definition lf_ok :: "(lockf \<Rightarrow> bool) \<Rightarrow> lfsys \<Rightarrow> bool" where
  "lf_ok Q s \<longleftrightarrow> (\<forall>ip. locks_ok (i_lockf s ip) \<and> exclusive (i_lockf s ip)) \<and> (\<forall>r\<in>set (lf_woken s). req_ok r \<and> Q r) \<and>
     (\<forall>w r n. waiters s w = Some (r, n) \<longrightarrow> req_ok r \<and> Q r)"

definition chain_ok :: "lfsys \<Rightarrow> bool" where
  "chain_ok s \<longleftrightarrow>
     (\<forall>ip w. w \<in># chains (i_lockf s ip) \<longrightarrow> count (chains (i_lockf s ip)) w = 1 \<and> (\<exists>r n. waiters s w = Some (r, n) \<and> lf_inode r = ip)) \<and>
     (\<forall>w r n. waiters s w = Some (r, n) \<longrightarrow> lf_addr r = w) \<and>
     (\<forall>r\<in>set (lf_woken s). waiters s (lf_addr r) = None) \<and> distinct (map lf_addr (lf_woken s)) \<and>
     (\<forall>p w. lock_chan s p = Some w \<longrightarrow> waiters s w \<noteq> None)"

lemma wakelock_ok:
  "lf_wakelock wk s = Inr s' \<Longrightarrow> lf_ok Q s \<Longrightarrow> lf_ok Q s' \<and> i_lockf s' = i_lockf s"
proof (induction wk s rule: lf_wakelock.induct)
  case (2 w ws s)
  obtain r n where rn: "waiters s w = Some (r, n)" using "2.prems"(1) by (cases "waiters s w") auto
  let ?s = "s\<lparr>waiters := (waiters s)(w := None), lock_chan := (\<lambda>p. if lock_chan s p = Some w then None else lock_chan s p),
      lf_woken := lf_woken s @ [r]\<rparr>"
  have "req_ok r \<and> Q r" using "2.prems"(2) rn unfolding lf_ok_def by blast
  then have "lf_ok Q ?s" using "2.prems"(2) by (simp add: lf_ok_def)
  then have "lf_ok Q s' \<and> i_lockf s' = i_lockf ?s" using "2.IH" [OF rn refl] "2.prems"(1) rn by simp
  then show ?case by simp
qed simp

lemma wakelock_Inl: "lf_wakelock wk s = Inl f \<Longrightarrow> \<exists>w. f = Dangling w"
  by (induction wk s rule: lf_wakelock.induct) (auto split: option.splits)

lemma wakelock_chain:
  "\<forall>w\<in>set wk. waiters s w \<noteq> None \<Longrightarrow> distinct wk \<Longrightarrow> \<forall>w r n. waiters s w = Some (r, n) \<longrightarrow> lf_addr r = w \<Longrightarrow>
     \<forall>r\<in>set (lf_woken s). waiters s (lf_addr r) = None \<Longrightarrow> \<forall>p w. lock_chan s p = Some w \<longrightarrow> waiters s w \<noteq> None \<Longrightarrow>
     distinct (map lf_addr (lf_woken s)) \<Longrightarrow> \<exists>s'. lf_wakelock wk s = Inr s' \<and> distinct (map lf_addr (lf_woken s')) \<and> waiters s' = waiters s |` (- set wk) \<and>
       (\<forall>r\<in>set (lf_woken s'). waiters s' (lf_addr r) = None) \<and> (\<forall>p w. lock_chan s' p = Some w \<longrightarrow> waiters s' w \<noteq> None) \<and>
       i_lockf s' = i_lockf s \<and> (\<forall>r\<in>set (lf_woken s'). r \<in> set (lf_woken s) \<or> waiters s (lf_addr r) \<noteq> None)"
proof (induction wk s rule: lf_wakelock.induct)
  case (2 w ws s)
  obtain r n where rn: "waiters s w = Some (r, n)" using "2.prems"(1) by (cases "waiters s w") auto
  let ?s = "s\<lparr>waiters := (waiters s)(w := None), lock_chan := (\<lambda>p. if lock_chan s p = Some w then None else lock_chan s p),
      lf_woken := lf_woken s @ [r]\<rparr>"
  have ra: "lf_addr r = w" using "2.prems"(3) rn by blast
  have fresh: "w \<notin> lf_addr ` set (lf_woken s)"
  proof
    assume "w \<in> lf_addr ` set (lf_woken s)"
    then show False using "2.prems"(4) rn by auto
  qed
  have "\<exists>s'. lf_wakelock ws ?s = Inr s' \<and> distinct (map lf_addr (lf_woken s')) \<and> waiters s' = waiters ?s |` (- set ws) \<and>
       (\<forall>r\<in>set (lf_woken s'). waiters s' (lf_addr r) = None) \<and> (\<forall>p w. lock_chan s' p = Some w \<longrightarrow> waiters s' w \<noteq> None) \<and>
       i_lockf s' = i_lockf ?s \<and> (\<forall>r\<in>set (lf_woken s'). r \<in> set (lf_woken ?s) \<or> waiters ?s (lf_addr r) \<noteq> None)"
    by (rule "2.IH" [OF rn refl]) (use "2.prems" rn ra fresh in \<open>auto split: if_splits\<close>)
  moreover have "waiters ?s |` (- set ws) = waiters s |` (- set (w # ws))" by (auto simp: restrict_map_def fun_eq_iff)
  ultimately show ?case using rn ra by (auto split: if_splits)
qed (auto simp: restrict_map_def fun_eq_iff)

text \<open>A change of an inode's list, followed by the wakeups.\<close>

lemma change_state:
  assumes "lf_ok Q s" "lf_change l {#} t (i_lockf s ip) ls' wk"
    "t = None \<or> t = Some (lf_type l) \<and> (\<forall>x\<in>set (i_lockf s ip). \<not> clash l x)"
  shows "case lf_wakelock wk (set_locks ip ls' s) of
      Inl f \<Rightarrow> \<exists>w. f = Dangling w
    | Inr s' \<Rightarrow> lf_ok Q s' \<and> i_lockf s' = (i_lockf s)(ip := ls')"
proof -
  have "locks_ok ls'" "exclusive ls'"
    using lf_change_ok [OF assms(2)] lf_change_exclusive [OF assms(2) _ assms(3)] assms(1) by (auto simp: lf_ok_def)
  then have ok: "lf_ok Q (set_locks ip ls' s)" using assms(1) by (simp add: lf_ok_def set_locks_def)
  show ?thesis
  proof (cases "lf_wakelock wk (set_locks ip ls' s)")
    case (Inl f)
    then show ?thesis using wakelock_Inl by auto
  next
    case (Inr s')
    then show ?thesis using wakelock_ok [OF Inr ok] by (simp add: set_locks_def)
  qed
qed

lemma change_chain:
  assumes "chain_ok s" "lf_change l {#} t (i_lockf s ip) ls' wk"
  shows "\<exists>s'. lf_wakelock wk (set_locks ip ls' s) = Inr s' \<and> chain_ok s' \<and> waiters s' = waiters s |` (- set wk) \<and>
    (\<forall>r\<in>set (lf_woken s'). r \<in> set (lf_woken s) \<or> waiters s (lf_addr r) \<noteq> None)"
proof -
  have m: "mset wk + chains ls' = chains (i_lockf s ip)" using assms(2) by (simp add: lf_change_def)
  have c: "count (mset wk) w + count (chains ls') w = count (chains (i_lockf s ip)) w" for w using m by (metis count_union)
  have one: "count (chains (i_lockf s ip')) w \<le> 1" for w ip'
  proof (cases "w \<in># chains (i_lockf s ip')")
    case True
    then have "count (chains (i_lockf s ip')) w = 1" using assms(1) unfolding chain_ok_def by blast
    then show ?thesis by simp
  next
    case False
    then have "count (chains (i_lockf s ip')) w = 0" by (simp only: not_in_iff)
    then show ?thesis by linarith
  qed
  have sub: "w \<in> set wk \<Longrightarrow> w \<in># chains (i_lockf s ip)" "w \<in># chains ls' \<Longrightarrow> w \<in># chains (i_lockf s ip)" for w
    using m by (metis set_mset_mset union_iff)+
  have dis: "distinct wk"
  proof -
    have "count (mset wk) w \<le> 1" for w using c [of w] one [of ip w] by linarith
    moreover have "0 < count (mset wk) w \<longleftrightarrow> w \<in> set wk" for w by simp
    ultimately have "count (mset wk) w = (if w \<in> set wk then 1 else 0)" for w
      by (metis le_antisym less_one not_less zero_less_iff_neq_zero)
    then show ?thesis unfolding distinct_count_atmost_1 by blast
  qed
  have notboth: "w \<notin> set wk" if "w \<in># chains ls'" for w
  proof -
    have "0 < count (chains ls') w" using that by simp
    then have "count (mset wk) w = 0" using c [of w] one [of ip w] by linarith
    then show ?thesis by (simp add: count_mset_0_iff)
  qed
  have waits: "\<forall>w\<in>set wk. waiters s w \<noteq> None"
  proof
    fix w assume "w \<in> set wk"
    then obtain r n where "waiters s w = Some (r, n)" using sub(1) assms(1) unfolding chain_ok_def by blast
    then show "waiters s w \<noteq> None" by simp
  qed
  let ?s = "set_locks ip ls' s"
  have "\<exists>s'. lf_wakelock wk ?s = Inr s' \<and> distinct (map lf_addr (lf_woken s')) \<and> waiters s' = waiters ?s |` (- set wk) \<and>
       (\<forall>r\<in>set (lf_woken s'). waiters s' (lf_addr r) = None) \<and> (\<forall>p w. lock_chan s' p = Some w \<longrightarrow> waiters s' w \<noteq> None) \<and>
       i_lockf s' = i_lockf ?s \<and> (\<forall>r\<in>set (lf_woken s'). r \<in> set (lf_woken ?s) \<or> waiters ?s (lf_addr r) \<noteq> None)"
    by (rule wakelock_chain) (use assms(1) dis waits in \<open>simp_all add: set_locks_def chain_ok_def\<close>)
  then obtain s' where s': "lf_wakelock wk ?s = Inr s'" "waiters s' = waiters s |` (- set wk)"
    "\<forall>r\<in>set (lf_woken s'). waiters s' (lf_addr r) = None" "\<forall>p w. lock_chan s' p = Some w \<longrightarrow> waiters s' w \<noteq> None"
    "i_lockf s' = (i_lockf s)(ip := ls')" "\<forall>r\<in>set (lf_woken s'). r \<in> set (lf_woken s) \<or> waiters s (lf_addr r) \<noteq> None"
    "distinct (map lf_addr (lf_woken s'))"
    by (auto simp: set_locks_def)
  have "count (chains (i_lockf s' ip')) w = 1 \<and> (\<exists>r n. waiters s' w = Some (r, n) \<and> lf_inode r = ip')"
    if "w \<in># chains (i_lockf s' ip')" for ip' w
  proof (cases "ip' = ip")
    case True
    have w: "w \<in># chains ls'" using that True by (simp add: s'(5))
    then have "0 < count (chains ls') w" by simp
    then have "count (chains ls') w = 1" using c [of w] one [of ip w] by linarith
    moreover have "\<exists>r n. waiters s w = Some (r, n) \<and> lf_inode r = ip" using assms(1) sub(2) [OF w] by (simp add: chain_ok_def)
    ultimately show ?thesis using notboth [OF w] True by (simp add: s'(2,5))
  next
    case False
    then have w: "w \<in># chains (i_lockf s ip')" using that by (simp add: s'(5))
    then obtain r n where r: "waiters s w = Some (r, n)" "lf_inode r = ip'" "count (chains (i_lockf s ip')) w = 1"
      using assms(1) unfolding chain_ok_def by blast
    moreover have "w \<notin> set wk"
    proof
      assume "w \<in> set wk"
      then obtain r' n' where "waiters s w = Some (r', n')" "lf_inode r' = ip" using sub(1) assms(1) unfolding chain_ok_def by blast
      then show False using r False by simp
    qed
    ultimately show ?thesis using False by (simp add: s'(2,5))
  qed
  moreover have "\<forall>w r n. waiters s' w = Some (r, n) \<longrightarrow> lf_addr r = w" using assms(1) by (auto simp: s'(2) chain_ok_def restrict_map_def)
  ultimately have "chain_ok s'" using s'(3,4,7) unfolding chain_ok_def by blast
  then show ?thesis using s'(1,2,6) by blast
qed

section \<open>The calls\<close>

lemma addblock_held: "held (lf_addblock a w ls) i b = held ls i b"
  by (induction ls) (auto simp: covers_def)

lemma addblock_all: "(\<forall>y\<in>set (own i (lf_addblock a w ls)). precedes x y) \<longleftrightarrow> (\<forall>y\<in>set (own i ls). precedes x y)"
  by (induction ls) (auto simp: precedes_def)

lemma addblock_ok: "locks_ok (lf_addblock a w ls) = locks_ok ls" "exclusive (lf_addblock a w ls) = exclusive ls"
proof -
  have "sorted_wrt precedes (own i (lf_addblock a w ls)) = sorted_wrt precedes (own i ls)" for i
  proof (induction ls)
    case (Cons l ls)
    have "precedes (l\<lparr>lf_block := x\<rparr>) = precedes l" for x by (simp add: precedes_def fun_eq_iff)
    then show ?case using Cons addblock_all [of i a w ls l] by simp
  qed simp
  moreover have "(\<forall>l\<in>set (lf_addblock a w ls). range_ok l) = (\<forall>l\<in>set ls. range_ok l)"
    by (induction ls) (auto simp: range_ok_def)
  ultimately show "locks_ok (lf_addblock a w ls) = locks_ok ls" by (simp add: locks_ok_def)
  show "exclusive (lf_addblock a w ls) = exclusive ls" by (simp add: exclusive_def addblock_held)
qed

lemma addblock_chains: "a \<in> lf_addr ` set ls \<Longrightarrow> chains (lf_addblock a w ls) = add_mset w (chains ls)"
  by (induction ls) auto

lemma clearlock_ok:
  assumes "lf_ok Q s" "range_ok l" "lf_type l = F_UNLCK"
  shows "case lf_clearlock new l s of
      Inl f \<Rightarrow> \<exists>w. f = Dangling w
    | Inr s' \<Rightarrow> lf_ok Q s' \<and> (\<exists>ls'. i_lockf s' = (i_lockf s)(lf_inode l := ls') \<and>
        (\<forall>b. held ls' (lf_id l) b = (if covers l b then None else held (i_lockf s (lf_inode l)) (lf_id l) b)) \<and>
        others (lf_id l) ls' = others (lf_id l) (i_lockf s (lf_inode l)))"
proof -
  let ?ip = "lf_inode l"
  show ?thesis
  proof (cases "i_lockf s ?ip")
    case Nil
    then have "i_lockf s = (i_lockf s)(?ip := [])" by auto
    then show ?thesis using Nil assms(1) by (auto simp: lf_clearlock_def intro!: exI [of _ "[]"])
  next
    case (Cons x xs)
    have lo: "locks_ok (i_lockf s ?ip)" using assms(1) by (simp add: lf_ok_def)
    obtain ls' wk where c: "lf_clear new l [] (i_lockf s ?ip) = Inr (ls', wk)" "lf_change l {#} None (i_lockf s ?ip) ls' wk"
      using lf_clear_ok [OF assms(2), of "[]" "i_lockf s ?ip" new] lo by (auto simp: locks_ok_def)
    have "lf_clearlock new l s = lf_wakelock wk (set_locks ?ip ls' s)" using Cons c(1) assms(3) by (simp add: lf_clearlock_def)
    then show ?thesis using change_state [OF assms(1) c(2)] c(2) by (auto simp: lf_change_def split: sum.splits)
  qed
qed

lemma clearlock_chain:
  assumes "lf_ok Q s" "chain_ok s" "range_ok l" "lf_type l = F_UNLCK"
  shows "\<exists>s'. lf_clearlock new l s = Inr s' \<and> chain_ok s' \<and> (\<forall>w. waiters s w = None \<longrightarrow> waiters s' w = None) \<and>
    (\<forall>r\<in>set (lf_woken s'). r \<in> set (lf_woken s) \<or> waiters s (lf_addr r) \<noteq> None)"
proof (cases "i_lockf s (lf_inode l)")
  case Nil
  then show ?thesis using assms(2) by (simp add: lf_clearlock_def)
next
  case (Cons x xs)
  have "locks_ok (i_lockf s (lf_inode l))" using assms(1) by (simp add: lf_ok_def)
  then obtain ls' wk where c: "lf_clear new l [] (i_lockf s (lf_inode l)) = Inr (ls', wk)"
    "lf_change l {#} None (i_lockf s (lf_inode l)) ls' wk"
    using lf_clear_ok [OF assms(3), of "[]" "i_lockf s (lf_inode l)" new] by (auto simp: locks_ok_def)
  then show ?thesis using change_chain [OF assms(2) c(2)] Cons assms(4) by (auto simp: lf_clearlock_def restrict_map_def)
qed

lemma deadlock_Inl: "lf_deadlock n s p me = Inl f \<Longrightarrow> \<exists>w. f = Dangling w"
  by (induction n s p me rule: lf_deadlock.induct) (auto split: option.splits if_splits)

text \<open>The request goes to sleep.\<close>

definition lf_sleep :: "nat \<Rightarrow> lockf \<Rightarrow> lockf \<Rightarrow> lfsys \<Rightarrow> lfsys" where
  "lf_sleep p lock block s =
     (set_locks (lf_inode lock) (lf_addblock (lf_addr block) (lf_addr lock) (i_lockf s (lf_inode lock))) s)
       \<lparr>waiters := (waiters s)(lf_addr lock \<mapsto> (lock, lf_addr block)), lock_chan := (lock_chan s)(p \<mapsto> lf_addr lock)\<rparr>"

lemma sleep_ok: "lf_ok Q s \<Longrightarrow> req_ok lock \<Longrightarrow> Q lock \<Longrightarrow> lf_ok Q (lf_sleep p lock block s)"
  by (auto simp: lf_ok_def lf_sleep_def set_locks_def addblock_ok)

lemma sleep_chain:
  assumes "chain_ok s" "waiters s (lf_addr lock) = None" "lf_addr lock \<notin> lf_addr ` set (lf_woken s)"
    "lf_addr block \<in> lf_addr ` set (i_lockf s (lf_inode lock))"
  shows "chain_ok (lf_sleep p lock block s)"
proof -
  let ?s = "lf_sleep p lock block s" and ?a = "lf_addr lock" and ?ip = "lf_inode lock"
  have not: "?a \<notin># chains (i_lockf s ip)" for ip using assms(1,2) unfolding chain_ok_def by (metis option.simps(3))
  have ch: "chains (i_lockf ?s ip) = (if ip = ?ip then add_mset ?a (chains (i_lockf s ip)) else chains (i_lockf s ip))" for ip
    using addblock_chains [OF assms(4)] by (simp add: lf_sleep_def set_locks_def)
  have "count (chains (i_lockf ?s ip)) w = 1 \<and> (\<exists>r n. waiters ?s w = Some (r, n) \<and> lf_inode r = ip)"
    if "w \<in># chains (i_lockf ?s ip)" for ip w
  proof (cases "w = ?a")
    case True
    have ip: "ip = ?ip"
    proof (rule ccontr)
      assume "ip \<noteq> ?ip"
      then have "chains (i_lockf ?s ip) = chains (i_lockf s ip)" using ch by (simp only: if_False)
      then show False using that not [of ip] True by (simp only:)
    qed
    have "count (chains (i_lockf s ip)) ?a = 0" using not by (simp only: not_in_iff)
    then show ?thesis unfolding ch using ip True by (simp add: lf_sleep_def)
  next
    case False
    have "w \<in># chains (i_lockf s ip)"
    proof (cases "ip = ?ip")
      case True
      then have "w \<in># add_mset ?a (chains (i_lockf s ip))" using that ch by (simp only: if_True simp_thms)
      then show ?thesis using False by (simp only: set_mset_add_mset_insert insert_iff simp_thms)
    next
      case False
      then show ?thesis using that ch by (simp only: if_False)
    qed
    then have "count (chains (i_lockf s ip)) w = 1 \<and> (\<exists>r n. waiters s w = Some (r, n) \<and> lf_inode r = ip)"
      using assms(1) unfolding chain_ok_def by blast
    then show ?thesis unfolding ch using False by (auto simp: lf_sleep_def)
  qed
  moreover have "\<forall>w r n. waiters ?s w = Some (r, n) \<longrightarrow> lf_addr r = w" using assms(1) by (auto simp: chain_ok_def lf_sleep_def)
  moreover have "\<forall>r\<in>set (lf_woken ?s). waiters ?s (lf_addr r) = None" "distinct (map lf_addr (lf_woken ?s))"
    using assms(1,3) by (auto simp: chain_ok_def lf_sleep_def set_locks_def image_iff)
  moreover have "\<forall>q w. lock_chan ?s q = Some w \<longrightarrow> waiters ?s w \<noteq> None" using assms(1) by (auto simp: chain_ok_def lf_sleep_def)
  ultimately show ?thesis unfolding chain_ok_def by blast
qed

lemma find_Some_in: "find P xs = Some x \<Longrightarrow> x \<in> set xs \<and> P x"
  by (auto simp: find_Some_iff)

lemma setlock_ok:
  assumes "lf_ok Q s" "req_ok l" "Q l"
  shows "case lf_setlock new p l s of
      Inl f \<Rightarrow> \<exists>w. f = Dangling w
    | Inr (r, s') \<Rightarrow> lf_ok Q s' \<and>
        (r = Granted \<longrightarrow> (\<forall>x\<in>set (i_lockf s (lf_inode l)). \<not> clash l x) \<and>
           (\<exists>ls'. i_lockf s' = (i_lockf s)(lf_inode l := ls') \<and>
             (\<forall>b. held ls' (lf_id l) b = (if covers l b then Some (lf_type l) else held (i_lockf s (lf_inode l)) (lf_id l) b)) \<and>
             others (lf_id l) ls' = others (lf_id l) (i_lockf s (lf_inode l))))"
proof -
  let ?ip = "lf_inode l"
  have lo: "locks_ok (i_lockf s ?ip)" using assms(1) by (simp add: lf_ok_def)
  have r: "range_ok l" "lf_block l = []" using assms(2) by (simp_all add: req_ok_def)
  have g: "lf_getblock l (i_lockf s ?ip) = Inr (find (clash l) (i_lockf s ?ip))"
    using lf_getblock_find [OF r(1)] lo by (simp add: locks_ok_def)
  show ?thesis
  proof (cases "find (clash l) (i_lockf s ?ip)")
    case None
    then have nc: "\<forall>x\<in>set (i_lockf s ?ip). \<not> clash l x" by (simp add: find_None_iff)
    obtain ls' wk where c: "lf_link new l False [] [] (i_lockf s ?ip) = Inr (ls', wk)"
      "lf_change l {#} (Some (lf_type l)) (i_lockf s ?ip) ls' wk"
      using lf_link_ok [OF r, of "i_lockf s ?ip" new] lo by (auto simp: locks_ok_def)
    have "lf_setlock new p l s = map_sum id (Pair Granted) (lf_wakelock wk (set_locks ?ip ls' s))"
      using g None c(1) by (simp add: lf_setlock_def)
    then show ?thesis using change_state [OF assms(1) c(2)] nc c(2) by (auto simp: lf_change_def split: sum.splits)
  next
    case (Some block)
    let ?dl = "if lf_posix l \<and> lf_posix block then lf_deadlock maxlockdepth s (lf_id block) (lf_id l) else Inr False"
    let ?cl = "if \<not> lf_posix l \<and> lf_type l = F_WRLCK then lf_clearlock new (l\<lparr>lf_type := F_UNLCK\<rparr>) s else Inr s"
    have eq: "lf_setlock new p l s = (if \<not> lf_wait l then Inr (Failed EAGAIN, s)
        else case ?dl of Inl f \<Rightarrow> Inl f | Inr True \<Rightarrow> Inr (Failed EDEADLK, s)
          | Inr False \<Rightarrow> (case ?cl of Inl f \<Rightarrow> Inl f | Inr s1 \<Rightarrow> Inr (Asleep, lf_sleep p l block s1)))"
      by (simp only: lf_setlock_def lf_sleep_def Let_def g Some sum.case option.case)
    have dl: "?dl = Inl f \<Longrightarrow> \<exists>w. f = Dangling w" for f using deadlock_Inl by (auto split: if_splits)
    have cl: "case ?cl of Inl f \<Rightarrow> \<exists>w. f = Dangling w | Inr s1 \<Rightarrow> lf_ok Q s1"
      using clearlock_ok [OF assms(1), of "l\<lparr>lf_type := F_UNLCK\<rparr>" new] r(1) assms(1) by (auto simp: range_ok_def split: sum.splits)
    show ?thesis
    proof (cases "lf_wait l")
      case True
      show ?thesis
      proof (cases ?dl)
        case (Inl f)
        then show ?thesis using eq True dl by simp
      next
        case (Inr d)
        then show ?thesis using eq True cl assms sleep_ok by (auto split: sum.splits bool.splits)
      qed
    qed (use eq assms(1) in simp)
  qed
qed

text \<open>Without a deadlock check and without interrupted sleeps nothing faults.\<close>

lemma setlock_chain:
  assumes "lf_ok Q s" "chain_ok s" "req_ok l" "waiters s (lf_addr l) = None" "lf_addr l \<notin> lf_addr ` set (lf_woken s)"
    "\<not> lf_posix l \<or> \<not> lf_wait l"
  shows "\<exists>r s'. lf_setlock new p l s = Inr (r, s') \<and> chain_ok s'"
proof -
  let ?ip = "lf_inode l"
  have lo: "locks_ok (i_lockf s ?ip)" using assms(1) by (simp add: lf_ok_def)
  have r: "range_ok l" "lf_block l = []" using assms(3) by (simp_all add: req_ok_def)
  have g: "lf_getblock l (i_lockf s ?ip) = Inr (find (clash l) (i_lockf s ?ip))"
    using lf_getblock_find [OF r(1)] lo by (simp add: locks_ok_def)
  show ?thesis
  proof (cases "find (clash l) (i_lockf s ?ip)")
    case None
    obtain ls' wk where c: "lf_link new l False [] [] (i_lockf s ?ip) = Inr (ls', wk)"
      "lf_change l {#} (Some (lf_type l)) (i_lockf s ?ip) ls' wk"
      using lf_link_ok [OF r, of "i_lockf s ?ip" new] lo by (auto simp: locks_ok_def)
    then show ?thesis using change_chain [OF assms(2) c(2)] g None by (auto simp: lf_setlock_def)
  next
    case (Some block)
    then have bl: "block \<in> set (i_lockf s ?ip)" "lf_id block \<noteq> lf_id l" using find_Some_in [OF Some] by (auto simp: clash_def)
    let ?cl = "if \<not> lf_posix l \<and> lf_type l = F_WRLCK then lf_clearlock new (l\<lparr>lf_type := F_UNLCK\<rparr>) s else Inr s"
    have u: "range_ok (l\<lparr>lf_type := F_UNLCK\<rparr>)" "lf_type (l\<lparr>lf_type := F_UNLCK\<rparr>) = F_UNLCK" using r(1) by (simp_all add: range_ok_def)
    have "\<exists>s1. ?cl = Inr s1 \<and> chain_ok s1 \<and> waiters s1 (lf_addr l) = None \<and> lf_addr l \<notin> lf_addr ` set (lf_woken s1) \<and>
        block \<in> set (i_lockf s1 ?ip)"
    proof (cases "\<not> lf_posix l \<and> lf_type l = F_WRLCK")
      case True
      obtain s1 where s1: "lf_clearlock new (l\<lparr>lf_type := F_UNLCK\<rparr>) s = Inr s1" "chain_ok s1"
        "\<forall>w. waiters s w = None \<longrightarrow> waiters s1 w = None"
        "\<forall>r\<in>set (lf_woken s1). r \<in> set (lf_woken s) \<or> waiters s (lf_addr r) \<noteq> None"
        using clearlock_chain [OF assms(1,2) u, of new] by blast
      obtain ls' where ls: "i_lockf s1 = (i_lockf s)(?ip := ls')" "others (lf_id l) ls' = others (lf_id l) (i_lockf s ?ip)"
        using clearlock_ok [OF assms(1) u, of new] s1(1) by auto
      have "block \<in> set (others (lf_id l) (i_lockf s ?ip))" using bl by simp
      then have "block \<in> set ls'" unfolding ls(2) [symmetric] by simp
      then show ?thesis using s1 assms(4,5) True by (auto simp: ls(1))
    next
      case False
      then show ?thesis using assms(2,4,5) bl(1) by auto
    qed
    then obtain s1 where s1: "?cl = Inr s1" "chain_ok s1" "waiters s1 (lf_addr l) = None"
      "lf_addr l \<notin> lf_addr ` set (lf_woken s1)" "block \<in> set (i_lockf s1 ?ip)" by blast
    have "lf_setlock new p l s = (if \<not> lf_wait l then Inr (Failed EAGAIN, s) else Inr (Asleep, lf_sleep p l block s1))"
      using assms(6) s1(1) by (auto simp: lf_setlock_def lf_sleep_def Let_def g Some)
    then show ?thesis using assms(2) sleep_chain [OF s1(2-4), of block p] s1(5) by simp
  qed
qed

section \<open>Sequences of calls\<close>

text \<open>
  \<open>Lk_adv\<close> is a call of \<open>ufs_advlock\<close>, with the addresses it allocates, the file size, the inode, the process, the owner,
  the operation, the range and the flags \<^verbatim>\<open>F_POSIX\<close> and \<^verbatim>\<open>F_WAIT\<close>; a request is not placed at the address of one that waits.
  \<open>Lk_retry\<close>: the first of the woken processes continues its loop. \<open>Lk_signal\<close>: the sleep of a process ends with an error.
\<close>

datatype lkcall =
    Lk_adv nat nat int nat nat nat advop flock_s bool bool
  | Lk_retry nat nat
  | Lk_signal nat

definition lk_step :: "lkcall \<Rightarrow> lfsys \<Rightarrow> lf_fault + lfsys" where
  "lk_step c s = (case c of
      Lk_adv a new fsize ip p owner op fl posix wait \<Rightarrow>
        if waiters s a \<noteq> None \<or> a \<in> lf_addr ` set (lf_woken s) then Inr s
        else map_sum id snd (ufs_advlock a new fsize ip p owner op fl posix wait s)
    | Lk_retry new p \<Rightarrow>
        (case lf_woken s of
           [] \<Rightarrow> Inr s
         | r # rs \<Rightarrow> map_sum id snd (lf_setlock new p r (s\<lparr>lf_woken := rs\<rparr>)))
    | Lk_signal p \<Rightarrow> (case lock_chan s p of None \<Rightarrow> Inr s | Some w \<Rightarrow> Inr (lf_interrupted p w s)))"

text \<open>Lengths are not negative and no offset leaves the 64 bits of \<^verbatim>\<open>off_t\<close>; an unlock request says so.\<close>

definition off_ok :: "int \<Rightarrow> flock_s \<Rightarrow> bool" where
  "off_ok fsize fl \<longleftrightarrow> 0 \<le> l_len fl \<and> - (2 ^ 63) \<le> l_start fl \<and> 0 \<le> fsize \<and>
     (if l_whence fl = SEEK_END then fsize else 0) + l_start fl + l_len fl < 2 ^ 63"

fun lk_allowed :: "lkcall \<Rightarrow> bool" where
  "lk_allowed (Lk_adv a new fsize ip p owner op fl posix wait) \<longleftrightarrow> off_ok fsize fl \<and> (op = F_UNLK \<longrightarrow> l_type fl = F_UNLCK)"
| "lk_allowed (Lk_retry new p) \<longleftrightarrow> True"
| "lk_allowed (Lk_signal p) \<longleftrightarrow> True"

fun lk_quiet :: "lkcall \<Rightarrow> bool" where
  "lk_quiet (Lk_adv a new fsize ip p owner op fl posix wait) \<longleftrightarrow>
     off_ok fsize fl \<and> (op = F_UNLK \<longrightarrow> l_type fl = F_UNLCK) \<and> (\<not> posix \<or> \<not> wait)"
| "lk_quiet (Lk_retry new p) \<longleftrightarrow> True"
| "lk_quiet (Lk_signal p) \<longleftrightarrow> False"

abbreviation lk_req :: "nat \<Rightarrow> int \<Rightarrow> int \<Rightarrow> nat \<Rightarrow> nat \<Rightarrow> flock_s \<Rightarrow> bool \<Rightarrow> bool \<Rightarrow> lockf" where
  "lk_req a start end ip owner fl posix wait \<equiv> \<lparr>lf_addr = a, lf_posix = posix, lf_wait = wait, lf_type = l_type fl,
     lf_start = start, lf_end = end, lf_id = owner, lf_inode = ip, lf_block = []\<rparr>"

lemma ufs_range_ok:
  "ufs_range fsize fl = Some (start, end) \<Longrightarrow> off_ok fsize fl \<Longrightarrow> req_ok (lk_req a start end ip owner fl posix wait)"
  by (auto simp: ufs_range_def off_ok_def req_ok_def range_ok_def wrap64_id split: whence.splits if_splits option.splits)

lemma ufs_advlock_ok:
  assumes "lf_ok Q s" "off_ok fsize fl" "op = F_UNLK \<longrightarrow> l_type fl = F_UNLCK"
    "op = F_SETLK \<Longrightarrow> (\<And>start end. Q (lk_req a start end ip owner fl posix wait))"
  shows "case ufs_advlock a new fsize ip p owner op fl posix wait s of Inl f \<Rightarrow> \<exists>w. f = Dangling w | Inr (r, s') \<Rightarrow> lf_ok Q s'"
proof (cases "(i_lockf s ip = [] \<and> op \<noteq> F_SETLK) \<or> ufs_range fsize fl = None")
  case True
  then show ?thesis using assms(1) by (auto simp: ufs_advlock_def)
next
  case False
  then obtain start "end" where e: "ufs_range fsize fl = Some (start, end)" by auto
  let ?l = "lk_req a start end ip owner fl posix wait"
  have r: "req_ok ?l" "range_ok ?l" using ufs_range_ok [OF e assms(2)] by (simp_all add: req_ok_def)
  show ?thesis
  proof (cases op)
    case F_SETLK
    then show ?thesis using setlock_ok [OF assms(1) r(1) assms(4), of new p] e
      by (auto simp: ufs_advlock_def Let_def split: sum.splits prod.splits)
  next
    case F_UNLK
    then show ?thesis using clearlock_ok [OF assms(1) r(2), of new] assms(3) e False
      by (auto simp: ufs_advlock_def Let_def split: sum.splits)
  next
    case F_GETLK
    then show ?thesis using lf_getblock_find [OF r(2), of "i_lockf s ip"] assms(1) e False
      by (auto simp: ufs_advlock_def Let_def lf_getlock_def lf_ok_def locks_ok_def split: sum.splits)
  qed
qed

lemma lk_step_ok:
  assumes "lf_ok Q s" "lk_allowed c" "\<And>r. Q r \<or> lk_quiet c \<and> (\<not> lf_posix r \<or> \<not> lf_wait r \<longrightarrow> Q r)"
  shows "case lk_step c s of Inl f \<Rightarrow> \<exists>w. f = Dangling w | Inr s' \<Rightarrow> lf_ok Q s'"
proof (cases c)
  case (Lk_adv a new fsize ip p owner op fl posix wait)
  then have "Q (lk_req a start end ip owner fl posix wait)" for start "end"
    using assms(3) [of "lk_req a start end ip owner fl posix wait"] by auto
  then have "case ufs_advlock a new fsize ip p owner op fl posix wait s of Inl f \<Rightarrow> \<exists>w. f = Dangling w | Inr (r, s') \<Rightarrow> lf_ok Q s'"
    by (intro ufs_advlock_ok [OF assms(1)]) (use assms(2) Lk_adv in auto)
  then show ?thesis using assms(1) Lk_adv by (auto simp: lk_step_def split: sum.splits prod.splits)
next
  case (Lk_retry new p)
  show ?thesis
  proof (cases "lf_woken s")
    case (Cons r rs)
    have "lf_ok Q (s\<lparr>lf_woken := rs\<rparr>)" "req_ok r" "Q r" using assms(1) Cons by (simp_all add: lf_ok_def)
    then show ?thesis using setlock_ok [of Q "s\<lparr>lf_woken := rs\<rparr>" r new p] Lk_retry Cons assms(1)
      by (auto simp: lk_step_def split: sum.splits prod.splits)
  qed (use Lk_retry assms(1) in \<open>simp add: lk_step_def\<close>)
next
  case (Lk_signal p)
  then show ?thesis using assms(1) by (auto simp: lk_step_def lf_interrupted_def lf_ok_def split: option.splits)
qed

abbreviation no_wait :: "lockf \<Rightarrow> bool" where
  "no_wait r \<equiv> \<not> lf_posix r \<or> \<not> lf_wait r"

lemma ufs_advlock_chain:
  assumes "lf_ok Q s" "chain_ok s" "off_ok fsize fl" "op = F_UNLK \<longrightarrow> l_type fl = F_UNLCK" "\<not> posix \<or> \<not> wait"
    "waiters s a = None" "a \<notin> lf_addr ` set (lf_woken s)"
  shows "\<exists>r s'. ufs_advlock a new fsize ip p owner op fl posix wait s = Inr (r, s') \<and> chain_ok s'"
proof (cases "(i_lockf s ip = [] \<and> op \<noteq> F_SETLK) \<or> ufs_range fsize fl = None")
  case True
  then show ?thesis using assms(2) by (auto simp: ufs_advlock_def)
next
  case False
  then obtain start "end" where e: "ufs_range fsize fl = Some (start, end)" by auto
  let ?l = "lk_req a start end ip owner fl posix wait"
  have r: "req_ok ?l" "range_ok ?l" using ufs_range_ok [OF e assms(3)] by (simp_all add: req_ok_def)
  show ?thesis
  proof (cases op)
    case F_SETLK
    then show ?thesis using setlock_chain [OF assms(1,2) r(1), of new p] assms(5-7) e
      by (auto simp: ufs_advlock_def Let_def)
  next
    case F_UNLK
    then show ?thesis using clearlock_chain [OF assms(1,2) r(2), of new] assms(4) e False
      by (auto simp: ufs_advlock_def Let_def)
  next
    case F_GETLK
    then show ?thesis using lf_getblock_find [OF r(2), of "i_lockf s ip"] assms(1,2) e False
      by (auto simp: ufs_advlock_def Let_def lf_getlock_def lf_ok_def locks_ok_def)
  qed
qed

lemma lk_quiet_safe:
  assumes "lf_ok no_wait s \<and> chain_ok s" "lk_quiet c"
  shows "\<exists>s'. lk_step c s = Inr s' \<and> lf_ok no_wait s' \<and> chain_ok s'"
proof -
  have "lk_allowed c" using assms(2) by (cases c) auto
  then have ok: "case lk_step c s of Inl f \<Rightarrow> \<exists>w. f = Dangling w | Inr s' \<Rightarrow> lf_ok no_wait s'"
    using lk_step_ok [of no_wait s c] assms by blast
  have "\<exists>s'. lk_step c s = Inr s' \<and> chain_ok s'"
  proof (cases c)
    case (Lk_adv a new fsize ip p owner op fl posix wait)
    show ?thesis
    proof (cases "waiters s a \<noteq> None \<or> a \<in> lf_addr ` set (lf_woken s)")
      case False
      then have "\<exists>r s'. ufs_advlock a new fsize ip p owner op fl posix wait s = Inr (r, s') \<and> chain_ok s'"
        by (intro ufs_advlock_chain [of no_wait]) (use assms Lk_adv in auto)
      then show ?thesis using Lk_adv False by (auto simp: lk_step_def)
    qed (use Lk_adv assms(1) in \<open>simp add: lk_step_def\<close>)
  next
    case (Lk_retry new p)
    show ?thesis
    proof (cases "lf_woken s")
      case (Cons r rs)
      have "lf_ok no_wait (s\<lparr>lf_woken := rs\<rparr>)" "chain_ok (s\<lparr>lf_woken := rs\<rparr>)" "req_ok r" "no_wait r"
        "waiters s (lf_addr r) = None" "lf_addr r \<notin> lf_addr ` set rs"
        using assms(1) Cons by (simp_all add: lf_ok_def chain_ok_def)
      then show ?thesis using setlock_chain [of no_wait "s\<lparr>lf_woken := rs\<rparr>" r new p] Lk_retry Cons by (auto simp: lk_step_def)
    qed (use Lk_retry assms(1) in \<open>simp add: lk_step_def\<close>)
  qed (use assms(2) in simp)
  then show ?thesis using ok by auto
qed

interpretation lkc: safe_calls lk_step "\<lambda>n s. lf_ok no_wait s \<and> chain_ok s" lk_quiet
  by unfold_locales (rule lk_quiet_safe)

section \<open>Properties\<close>

lemma held_in:
  "\<forall>y\<in>set ls. range_ok y \<Longrightarrow> sorted_wrt precedes (own (lf_id x) ls) \<Longrightarrow> x \<in> set ls \<Longrightarrow> covers x b \<Longrightarrow> held ls (lf_id x) b = Some (lf_type x)"
proof (induction ls)
  case (Cons y ls)
  show ?case
  proof (cases "x = y")
    case False
    then have "x \<in> set (own (lf_id x) ls)" using Cons.prems(3) by simp
    then have "lf_id y = lf_id x \<Longrightarrow> \<not> covers y b" using Cons.prems(2,4) precedes_covers by auto
    then show ?thesis using Cons False by (auto split: if_splits)
  qed (use Cons.prems in simp)
qed simp

lemma overlap_byte: "range_ok l \<Longrightarrow> range_ok x \<Longrightarrow> \<not> precedes l x \<Longrightarrow> \<not> precedes x l \<Longrightarrow> \<exists>b. covers l b \<and> covers x b"
  by (intro exI [of _ "max (lf_start l) (lf_start x)"]) (auto simp: covers_def precedes_def range_ok_def)

text \<open>\<open>denied ls l\<close>: some byte of the request is locked by another owner, and one of the two locks is exclusive.\<close>

definition denied :: "lockf list \<Rightarrow> lockf \<Rightarrow> bool" where
  "denied ls l \<longleftrightarrow> (\<exists>j b t. j \<noteq> lf_id l \<and> covers l b \<and> held ls j b = Some t \<and> (lf_type l = F_WRLCK \<or> t = F_WRLCK))"

lemma denied_clash:
  assumes "locks_ok ls" "range_ok l"
  shows "denied ls l \<longleftrightarrow> (\<exists>x\<in>set ls. clash l x)"
proof
  assume "denied ls l"
  then obtain j b t where d: "j \<noteq> lf_id l" "covers l b" "held ls j b = Some t" "lf_type l = F_WRLCK \<or> t = F_WRLCK"
    by (auto simp: denied_def)
  then obtain x where x: "x \<in> set ls" "lf_id x = j" "covers x b" "lf_type x = t" using held_Some by blast
  then have "clash l x" using d precedes_covers unfolding clash_def by blast
  then show "\<exists>x\<in>set ls. clash l x" using x(1) by blast
next
  assume "\<exists>x\<in>set ls. clash l x"
  then obtain x where x: "x \<in> set ls" "clash l x" by blast
  have ok: "range_ok x" "sorted_wrt precedes (own (lf_id x) ls)" "\<forall>y\<in>set ls. range_ok y" using assms(1) x(1) by (auto simp: locks_ok_def)
  obtain b where b: "covers l b" "covers x b" using overlap_byte [OF assms(2) ok(1)] x(2) by (auto simp: clash_def)
  then have "held ls (lf_id x) b = Some (lf_type x)" by (intro held_in [OF ok(3,2) x(1)])
  then show "denied ls l" using x(2) b(1) unfolding denied_def clash_def by blast
qed

text \<open>
  An example: on inode 1, process 10 has an exclusive lock on the bytes 0 to 99, process 20 a shared lock from byte 200
  on, for which the request 77 of process 30 waits.
\<close>

definition lk_v :: "nat \<Rightarrow> nat \<Rightarrow> ltype \<Rightarrow> int \<Rightarrow> int \<Rightarrow> lockf" where
  "lk_v a i t st en = \<lparr>lf_addr = a, lf_posix = True, lf_wait = False, lf_type = t, lf_start = st, lf_end = en, lf_id = i,
     lf_inode = 1, lf_block = []\<rparr>"

definition lfsys_v :: lfsys where
  "lfsys_v = \<lparr>i_lockf = (\<lambda>_. [])(1 := [lk_v 1 10 F_WRLCK 0 99, (lk_v 2 20 F_RDLCK 200 (-1))\<lparr>lf_block := [77]\<rparr>]),
     waiters = [77 \<mapsto> ((lk_v 77 30 F_WRLCK 250 260)\<lparr>lf_wait := True\<rparr>, 2)], lock_chan = [30 \<mapsto> 77], lf_woken = []\<rparr>"

lemma lfsys_v_ok: "lf_ok (\<lambda>_. True) lfsys_v" "chain_ok lfsys_v"
proof -
  have "locks_ok (i_lockf lfsys_v ip)" for ip
    by (simp add: lfsys_v_def locks_ok_def lk_v_def range_ok_def)
  moreover have "exclusive (i_lockf lfsys_v ip)" for ip
    by (auto simp: lfsys_v_def exclusive_def lk_v_def covers_def)
  ultimately show "lf_ok (\<lambda>_. True) lfsys_v" by (simp add: lf_ok_def) (simp add: lfsys_v_def lk_v_def req_ok_def range_ok_def)
  show "chain_ok lfsys_v" by (auto simp: chain_ok_def lfsys_v_def lk_v_def split: if_splits)
qed

text \<open>C1. A request that does not wait, and whose range is unlimited or ends before the largest offset, is granted exactly when no byte of it is locked by another owner in a conflicting
  way. Then the owner holds the requested type on exactly the bytes of the range and what it held before on all others,
  however its locks were split, shrunk, merged or replaced; nobody else's locks change. Otherwise the call returns
  \<^verbatim>\<open>EAGAIN\<close> and changes nothing. The panic and the corruption of the list cannot occur.\<close>

theorem setlock_exact:
  assumes "lf_ok Q s" "chain_ok s" "req_ok l" "Q l" "\<not> lf_wait l"
  shows "if denied (i_lockf s (lf_inode l)) l then lf_setlock new p l s = Inr (Failed EAGAIN, s)
    else \<exists>s'. lf_setlock new p l s = Inr (Granted, s') \<and> lf_ok Q s' \<and> chain_ok s' \<and>
      (\<forall>ip i b. held (i_lockf s' ip) i b =
         (if ip = lf_inode l \<and> i = lf_id l \<and> covers l b then Some (lf_type l) else held (i_lockf s ip) i b))"
proof -
  let ?ls = "i_lockf s (lf_inode l)"
  have lo: "locks_ok ?ls" "range_ok l" "lf_block l = []" "\<forall>x\<in>set ?ls. range_ok x"
    using assms(1,3) by (simp_all add: lf_ok_def req_ok_def locks_ok_def)
  have g: "lf_getblock l ?ls = Inr (find (clash l) ?ls)" by (rule lf_getblock_find [OF lo(2,4)])
  show ?thesis
  proof (cases "denied ?ls l")
    case True
    then have "find (clash l) ?ls \<noteq> None" unfolding denied_clash [OF lo(1,2)] find_None_iff by blast
    then show ?thesis using True g assms(5) by (auto simp: lf_setlock_def)
  next
    case False
    then have nc: "\<forall>x\<in>set ?ls. \<not> clash l x" unfolding denied_clash [OF lo(1,2)] by blast
    then have "find (clash l) ?ls = None" by (auto simp: find_None_iff)
    obtain ls' wk where c: "lf_link new l False [] [] ?ls = Inr (ls', wk)" "lf_change l {#} (Some (lf_type l)) ?ls ls' wk"
      using lf_link_ok [OF lo(2,3,4), of new] lo(1) by (auto simp: locks_ok_def)
    obtain s' where s': "lf_wakelock wk (set_locks (lf_inode l) ls' s) = Inr s'" "chain_ok s'"
      using change_chain [OF assms(2) c(2)] by blast
    have "lf_setlock new p l s = Inr (Granted, s')" using g c(1) s'(1) \<open>find (clash l) ?ls = None\<close> by (simp add: lf_setlock_def)
    moreover have ok: "lf_ok Q s'" "i_lockf s' = (i_lockf s)(lf_inode l := ls')"
      using change_state [OF assms(1) c(2)] nc s'(1) by auto
    moreover have "held (i_lockf s' ip) i b =
        (if ip = lf_inode l \<and> i = lf_id l \<and> covers l b then Some (lf_type l) else held (i_lockf s ip) i b)" for ip i b
      using c(2) lf_change_others(2) [OF c(2), of i b] ok(2) by (cases "i = lf_id l") (auto simp: lf_change_def)
    ultimately show ?thesis using False s'(2) by auto
  qed
qed

theorem setlock_exact_witness:
  "\<exists>s'. lf_setlock 50 10 (lk_v 51 10 F_RDLCK 40 59) lfsys_v = Inr (Granted, s') \<and>
     held (i_lockf s' 1) 10 39 = Some F_WRLCK \<and> held (i_lockf s' 1) 10 50 = Some F_RDLCK \<and> held (i_lockf s' 1) 10 60 = Some F_WRLCK"
proof -
  have "\<not> denied (i_lockf lfsys_v (lf_inode (lk_v 51 10 F_RDLCK 40 59))) (lk_v 51 10 F_RDLCK 40 59)"
    by (auto simp: denied_def lfsys_v_def lk_v_def covers_def split: if_splits)
  then show ?thesis
    using setlock_exact [OF lfsys_v_ok, of "lk_v 51 10 F_RDLCK 40 59" 50 10]
    by (auto simp: lk_v_def req_ok_def range_ok_def covers_def lfsys_v_def)
qed

text \<open>Releasing a range leaves its owner exactly the bytes it held outside the range and changes nobody else's locks;
  it always succeeds.\<close>

theorem clearlock_exact:
  assumes "lf_ok Q s" "chain_ok s" "range_ok l" "lf_type l = F_UNLCK"
  shows "\<exists>s'. lf_clearlock new l s = Inr s' \<and> lf_ok Q s' \<and> chain_ok s' \<and>
    (\<forall>ip i b. held (i_lockf s' ip) i b =
       (if ip = lf_inode l \<and> i = lf_id l \<and> covers l b then None else held (i_lockf s ip) i b))"
proof -
  obtain s' where s': "lf_clearlock new l s = Inr s'" "chain_ok s'" using clearlock_chain [OF assms] by blast
  then obtain ls' where ls: "lf_ok Q s'" "i_lockf s' = (i_lockf s)(lf_inode l := ls')"
    "\<forall>b. held ls' (lf_id l) b = (if covers l b then None else held (i_lockf s (lf_inode l)) (lf_id l) b)"
    "others (lf_id l) ls' = others (lf_id l) (i_lockf s (lf_inode l))"
    using clearlock_ok [OF assms(1,3,4), of new] by auto
  have "held ls' i b = held (i_lockf s (lf_inode l)) i b" if "i \<noteq> lf_id l" for i b
  proof -
    have o: "own i xs = own i (others (lf_id l) xs)" for xs using that by (auto intro!: filter_cong)
    show ?thesis using held_own [of ls' i b] held_own [of "i_lockf s (lf_inode l)" i b] o ls(4) by metis
  qed
  then have "held (i_lockf s' ip) i b =
       (if ip = lf_inode l \<and> i = lf_id l \<and> covers l b then None else held (i_lockf s ip) i b)" for ip i b
    using ls(2,3) by (cases "i = lf_id l") auto
  then show ?thesis using s' ls(1) by blast
qed

theorem clearlock_exact_witness:
  "\<exists>s'. lf_clearlock 50 (lk_v 51 20 F_UNLCK 300 399) lfsys_v = Inr s' \<and>
     held (i_lockf s' 1) 20 299 = Some F_RDLCK \<and> held (i_lockf s' 1) 20 350 = None \<and> held (i_lockf s' 1) 20 1000 = Some F_RDLCK"
  using clearlock_exact [OF lfsys_v_ok, of "lk_v 51 20 F_UNLCK 300 399" 50]
  by (auto simp: lk_v_def range_ok_def covers_def lfsys_v_def)

lemma lk_run_ok:
  "lf_ok (\<lambda>_. True) s \<Longrightarrow> \<forall>c\<in>set cs. lk_allowed c \<Longrightarrow>
     (case run_calls lk_step cs s of Inl f \<Rightarrow> \<exists>w. f = Dangling w | Inr s' \<Rightarrow> lf_ok (\<lambda>_. True) s')"
proof (induction cs arbitrary: s)
  case (Cons c cs)
  have c: "case lk_step c s of Inl f \<Rightarrow> \<exists>w. f = Dangling w | Inr s' \<Rightarrow> lf_ok (\<lambda>_. True) s'"
    using lk_step_ok [of "\<lambda>_. True" s c] Cons.prems by simp
  show ?case
  proof (cases "lk_step c s")
    case (Inr s1)
    then show ?thesis using Cons.IH [of s1] Cons.prems c by simp
  qed (use c in simp)
qed simp

text \<open>C11. Whatever calls of \<open>ufs_advlock\<close> processes make with lengths that are not negative and ranges that end before the largest
  offset, and however their waits end, the locks stay exclusive: no byte on which an owner has an exclusive lock is locked by another, and no panic is reached; the only possible fault is to follow
  a pointer to a freed request or lock. When no call both obeys POSIX semantics and waits, and no wait is interrupted, there
  is no fault at all.\<close>

theorem locks_stay_exclusive:
  assumes "lf_ok (\<lambda>_. True) s" "\<forall>c\<in>set cs. lk_allowed c"
  shows "(case run_calls lk_step cs s of
      Inl f \<Rightarrow> \<exists>w. f = Dangling w
    | Inr s' \<Rightarrow> \<forall>ip i j b. i \<noteq> j \<longrightarrow> held (i_lockf s' ip) i b = Some F_WRLCK \<longrightarrow> held (i_lockf s' ip) j b = None) \<and>
    (lf_ok no_wait s \<and> chain_ok s \<and> (\<forall>c\<in>set cs. lk_quiet c) \<longrightarrow> (\<exists>s'. run_calls lk_step cs s = Inr s'))"
proof -
  have "case run_calls lk_step cs s of
      Inl f \<Rightarrow> \<exists>w. f = Dangling w
    | Inr s' \<Rightarrow> \<forall>ip i j b. i \<noteq> j \<longrightarrow> held (i_lockf s' ip) i b = Some F_WRLCK \<longrightarrow> held (i_lockf s' ip) j b = None"
    using lk_run_ok [OF assms] by (auto simp: lf_ok_def exclusive_def split: sum.splits)
  then show ?thesis using lkc.run_safe [where cs = cs and s = s] by blast
qed

theorem locks_stay_exclusive_witness:
  "case run_calls lk_step
      [Lk_adv 51 50 0 1 40 40 F_SETLK \<lparr>l_start = 0, l_len = 10, l_type = F_RDLCK, l_whence = SEEK_SET\<rparr> True True,
       Lk_adv 52 50 0 1 10 10 F_UNLK \<lparr>l_start = 0, l_len = 20, l_type = F_UNLCK, l_whence = SEEK_SET\<rparr> True False,
       Lk_retry 53 40] lfsys_v of
      Inl f \<Rightarrow> \<exists>w. f = Dangling w
    | Inr s' \<Rightarrow> \<forall>ip i j b. i \<noteq> j \<longrightarrow> held (i_lockf s' ip) i b = Some F_WRLCK \<longrightarrow> held (i_lockf s' ip) j b = None"
  by (intro conjunct1 [OF locks_stay_exclusive [OF lfsys_v_ok(1)]]) (simp add: off_ok_def)

text \<open>The first request on a chain that is gone stops the wakeup.\<close>

lemma wakelock_dangles:
  "w \<in> set xs \<Longrightarrow> waiters s w = None \<Longrightarrow> distinct xs \<Longrightarrow> \<forall>v\<in>set xs. v \<noteq> w \<longrightarrow> waiters s v \<noteq> None \<Longrightarrow> lf_wakelock (xs @ ys) s = Inl (Dangling w)"
proof (induction xs arbitrary: s)
  case (Cons x xs)
  show ?case
  proof (cases "x = w")
    case False
    then obtain r n where rn: "waiters s x = Some (r, n)" using Cons.prems(4) by fastforce
    let ?s = "s\<lparr>waiters := (waiters s)(x := None), lock_chan := (\<lambda>p. if lock_chan s p = Some x then None else lock_chan s p), lf_woken := lf_woken s @ [r]\<rparr>"
    have "lf_wakelock (xs @ ys) ?s = Inl (Dangling w)" by (rule Cons.IH) (use Cons.prems False in auto)
    then show ?thesis using rn by simp
  qed (use Cons.prems in simp)
qed simp

text \<open>Releasing exactly the range of a lock wakes its whole chain.\<close>

lemma clear_own_range:
  assumes "locks_ok ls" "x \<in> set ls" "lf_id l = lf_id x" "lf_start l = lf_start x" "lf_end l = lf_end x"
  shows "\<exists>ls' wk. lf_clear new l [] ls = Inr (ls', lf_block x @ wk)"
proof -
  let ?i = "lf_id l"
  have ok: "\<forall>y\<in>set ls. range_ok y" "sorted_wrt precedes (own ?i ls)" using assms(1) by (simp_all add: locks_ok_def)
  have x: "x \<in> set (own ?i ls)" "range_ok x" "range_ok l" using assms ok(1) by (auto simp: range_ok_def)
  have self: "\<not> precedes x l" "\<not> precedes l x" using x(2) assms(4,5) by (auto simp: precedes_def range_ok_def)
  obtain c sk rest where f: "lf_findoverlap True l ls = Inr (c, sk, rest)" "\<forall>y\<in>set (own ?i sk). precedes y l"
    "if c = 0 then \<forall>y\<in>set (own ?i rest). precedes l y else \<exists>ov r. rest = ov # r \<and> lf_id ov = ?i \<and> ov_rel c l ov"
    using findoverlap_self [OF x(3) ok] by auto
  have b: "ls = sk @ rest" by (rule findoverlap_split [OF f(1)])
  have "x \<notin> set (own ?i sk)" using f(2) self(1) by blast
  then have xr: "x \<in> set (own ?i rest)" using x(1) b by auto
  then have c0: "c \<noteq> 0" using f(3) self(2) by (cases "c = 0") auto
  then obtain ov r where ov: "rest = ov # r" "lf_id ov = ?i" "ov_rel c l ov" using f(3) by auto
  have "range_ok ov" using ok(1) b ov(1) by simp
  then have "\<not> precedes ov x" using ov(3) x(2) assms(4,5) by (auto simp: ov_rel_def precedes_def range_ok_def)
  then have xo: "x = ov" using xr ok(2) b ov(1,2) by (auto simp: sorted_wrt_append)
  have c: "c = 1 \<or> c = 3" using ov(3) assms(4,5) xo by (auto simp: ov_rel_def)
  obtain ls' wk where l: "lf_clear new l [] ls = Inr (ls', wk)" using lf_clear_ok [OF x(3), of "[]" ls new] ok by auto
  show ?thesis
  proof (cases "c = 1")
    case True
    then show ?thesis by (subst lf_clear.simps) (simp add: f(1) ov(1) xo Let_def)
  next
    case False
    then have c3: "c = 3" using c by blast
    have "lf_clear new l [] ls = map_sum id (\<lambda>(ls, wk). (ls, lf_block x @ wk)) (lf_clear new l sk r)"
      by (subst lf_clear.simps) (simp add: f(1) ov(1) xo Let_def c3)
    then show ?thesis using l by (cases "lf_clear new l sk r") auto
  qed
qed

text \<open>C25. A wait that a signal ends frees the request but leaves it on the chain of the lock that blocked it: whenever a process sleeps on a
  request of the chain of a lock and its wait is interrupted, the release of that lock by its owner follows the pointer to the freed
  request.\<close>

theorem interrupted_wait_dangles:
  assumes "lf_ok Q s" "chain_ok s" "x \<in> set (i_lockf s ip)" "w \<in> set (lf_block x)" "lock_chan s p = Some w"
  shows "lf_clearlock new (x\<lparr>lf_type := F_UNLCK, lf_inode := ip\<rparr>) (lf_interrupted p w s) = Inl (Dangling w)"
proof -
  let ?l = "x\<lparr>lf_type := F_UNLCK, lf_inode := ip\<rparr>" and ?ls = "i_lockf s ip" and ?s = "lf_interrupted p w s"
  have "locks_ok ?ls" using assms(1) by (simp add: lf_ok_def)
  then obtain ls' wk where c: "lf_clear new ?l [] ?ls = Inr (ls', lf_block x @ wk)" using clear_own_range [of ?ls x ?l new] assms(3) by auto
  have chain: "count (chains ?ls) v = 1 \<and> (\<exists>r n. waiters s v = Some (r, n))" if "v \<in> set (lf_block x)" for v
    using assms(2,3) that unfolding chain_ok_def by fastforce
  have sub: "mset (lf_block x) \<subseteq># chains ?ls"
    using assms(3) by (auto simp: in_set_conv_decomp)
  have "count (mset (lf_block x)) v = (if v \<in> set (lf_block x) then 1 else 0)" for v
  proof (cases "v \<in> set (lf_block x)")
    case True
    then have "count (mset (lf_block x)) v \<le> 1" "count (mset (lf_block x)) v \<noteq> 0" using mset_subset_eq_count [OF sub, of v] chain [OF True] True by (auto simp: count_mset_0_iff)
    then have "count (mset (lf_block x)) v = 1" by linarith
    then show ?thesis using True by simp
  qed (simp add: count_mset_0_iff)
  then have d: "distinct (lf_block x)" by (simp add: distinct_count_atmost_1)
  have "lf_wakelock (lf_block x @ wk) (set_locks ip ls' ?s) = Inl (Dangling w)"
    by (rule wakelock_dangles) (use assms(4) d chain in \<open>auto simp: set_locks_def lf_interrupted_def\<close>)
  moreover have "?ls \<noteq> []" using assms(3) by auto
  ultimately show ?thesis using c by (simp add: lf_clearlock_def lf_interrupted_def)
qed

theorem interrupted_wait_dangles_witness:
  "lf_clearlock 50 (lk_v 2 20 F_UNLCK 200 (-1)\<lparr>lf_block := [77]\<rparr>) (lf_interrupted 30 77 lfsys_v) = Inl (Dangling 77)"
  using interrupted_wait_dangles [OF lfsys_v_ok, of "lk_v 2 20 F_RDLCK 200 (-1)\<lparr>lf_block := [77]\<rparr>" 1 77 30 50]
  by (simp add: lfsys_v_def lk_v_def)

text \<open>Two runs to a dangling pointer. A wait that a signal ends frees the request but leaves it on the chain of the lock
  that blocked it: when that lock is released, the chain leads through freed memory. And when an owner replaces its lock by
  a larger one, the requests that wait for the old lock pass to the new one but still name the old, freed lock as the one
  that blocks them: the deadlock check of a later request follows it.\<close>

theorem lock_waits_dangle:
  "(case run_calls lk_step
     [Lk_adv 51 50 0 1 40 40 F_SETLK \<lparr>l_start = 0, l_len = 10, l_type = F_RDLCK, l_whence = SEEK_SET\<rparr> True True,
      Lk_signal 40,
      Lk_adv 52 50 0 1 10 10 F_UNLK \<lparr>l_start = 0, l_len = 0, l_type = F_UNLCK, l_whence = SEEK_SET\<rparr> True False] lfsys_v of
    Inl f \<Rightarrow> f = Dangling 51 | Inr _ \<Rightarrow> False) \<and>
   (case run_calls lk_step
     [Lk_adv 51 50 0 1 20 20 F_SETLK \<lparr>l_start = 0, l_len = 10, l_type = F_RDLCK, l_whence = SEEK_SET\<rparr> True True,
      Lk_adv 52 50 0 1 10 10 F_SETLK \<lparr>l_start = 0, l_len = 150, l_type = F_WRLCK, l_whence = SEEK_SET\<rparr> True False,
      Lk_adv 53 50 0 1 40 40 F_SETLK \<lparr>l_start = 300, l_len = 10, l_type = F_WRLCK, l_whence = SEEK_SET\<rparr> True True] lfsys_v of
    Inl f \<Rightarrow> f = Dangling 1 | Inr _ \<Rightarrow> False)"
  by code_simp

text \<open>A request that ends at the largest offset: its owner's lock up to the end of the file is made to begin behind the request, the sum wraps,
  and the lock covers all bytes before the request.\<close>

lemma last_offset_wraps:
  assumes "0 \<le> lf_start l" "lf_start l \<le> lf_end l" "lf_end l = 2 ^ 63 - 1" "lf_id x = lf_id l" "lf_start x = lf_start l" "lf_end x = -1" "lf_type x \<noteq> lf_type l"
  shows "lf_link new l False [] [] [x] = Inr ([l, x\<lparr>lf_start := - (2 ^ 63), lf_block := []\<rparr>], lf_block x)"
    "0 \<le> b \<Longrightarrow> b < lf_start l \<Longrightarrow> held [l, x\<lparr>lf_start := - (2 ^ 63), lf_block := []\<rparr>] (lf_id l) b = Some (lf_type x)"
proof -
  have "wrap64 (lf_end l + 1) = - (2 ^ 63)" using assms(3) by (simp add: wrap64_def)
  then show "lf_link new l False [] [] [x] = Inr ([l, x\<lparr>lf_start := - (2 ^ 63), lf_block := []\<rparr>], lf_block x)"
    using assms by (subst lf_link.simps) (simp add: Let_def)
  show "0 \<le> b \<Longrightarrow> b < lf_start l \<Longrightarrow> held [l, x\<lparr>lf_start := - (2 ^ 63), lf_block := []\<rparr>] (lf_id l) b = Some (lf_type x)"
    using assms by (simp add: covers_def)
qed

text \<open>A negative length is accepted, and leaves an owner with locks that overlap.\<close>

theorem negative_length_overlaps:
  "case lk_step (Lk_adv 51 50 0 1 10 10 F_SETLK \<lparr>l_start = 50, l_len = - 20, l_type = F_RDLCK, l_whence = SEEK_SET\<rparr> True False) lfsys_v of
     Inl f \<Rightarrow> False
   | Inr s' \<Rightarrow> map (\<lambda>l. (lf_start l, lf_end l)) (own 10 (i_lockf s' 1)) = [(0, 49), (50, 29), (30, 99)]"
  by code_simp

end
