(* ===== verification/Sched.thy ===== *)
theory Sched
  imports Clock
begin

text \<open>
  Sleeping and waking, \<^verbatim>\<open>kern/kern_synch.c\<close>: \<open>tsleep\<close>, \<open>sleep\<close>, \<open>endtsleep\<close>, \<open>unsleep\<close>, \<open>wakeup\<close>, \<open>setrunnable\<close> and
  \<open>mi_switch\<close>, with the run queues of \<^verbatim>\<open>kern/i386/locore.s\<close> (\<open>setrunqueue\<close>, \<open>remrq\<close>, the choice of \<open>Xswitch\<close>). The sleep queues
  are kept with their pointers: the heads, the pointers to the last link, and the links in the process structures. The
  lemmas read them as lists.
\<close>

section \<open>State\<close>

text \<open>A place that holds a pointer to a process: the head of a sleep queue or the field \<^verbatim>\<open>p_forw\<close> of a process.\<close>

datatype slot = Sq_head nat | P_forw nat

datatype sfault = Panic_tsleep | Panic_wakeup | Panic_setrunnable | Panic_setrunqueue | Panic_remrq | Panic_switch
  | Panic_timeout | Panic_psignal | Panic_postsig | Null_link | No_curproc

text \<open>
  \<open>sfwd\<close> is \<^verbatim>\<open>p_forw\<close> of the processes on sleep queues; the doubly linked run queues \<open>qs\<close> are lists, and a process has a
  \<^verbatim>\<open>p_back\<close> when it is on one. \<open>loadav\<close> is \<^verbatim>\<open>averunnable.ldavg[0]\<close>, \<open>proc0\<close> the address of \<^verbatim>\<open>proc0\<close>, on which the swapper
  sleeps. \<open>snow\<close> is what \<^verbatim>\<open>microtime\<close> reads, \<open>sruntime\<close> the variable \<^verbatim>\<open>runtime\<close>.
\<close>

record ssys =
  sprocs :: "nat \<Rightarrow> proc"
  sqhead :: "nat \<Rightarrow> nat option"
  sqtailp :: "nat \<Rightarrow> slot"
  sfwd :: "nat \<Rightarrow> nat option"
  qs :: "nat \<Rightarrow> nat list"
  scur :: "nat option"
  scurpri :: nat
  sresched :: bool
  loadav :: u32
  proc0 :: u32
  scallq :: callq
  snow :: timeval
  sruntime :: timeval

definition supd :: "nat \<Rightarrow> (proc \<Rightarrow> proc) \<Rightarrow> ssys \<Rightarrow> ssys" where
  [kern_defs]: "supd p f s = s\<lparr>sprocs := (sprocs s)(p := f (sprocs s p))\<rparr>"

fun deref :: "ssys \<Rightarrow> slot \<Rightarrow> nat option" where
  "deref s (Sq_head i) = sqhead s i"
| "deref s (P_forw p) = sfwd s p"

fun assign :: "slot \<Rightarrow> nat option \<Rightarrow> ssys \<Rightarrow> ssys" where
  "assign (Sq_head i) v s = s\<lparr>sqhead := (sqhead s)(i := v)\<rparr>"
| "assign (P_forw p) v s = s\<lparr>sfwd := (sfwd s)(p := v)\<rparr>"

text \<open>\<^verbatim>\<open>LOOKUP\<close>: the queue of a wait channel.\<close>

definition lookup :: "u32 \<Rightarrow> nat" where
  [kern_defs]: "lookup ident = unat (drop_bit 8 ident AND 127)"

section \<open>Run queues\<close>

definition on_runq :: "ssys \<Rightarrow> nat \<Rightarrow> bool" where
  [kern_defs]: "on_runq s p = list_ex (\<lambda>i. p \<in> set (qs s i)) [0..<32]"

definition setrunqueue :: "nat \<Rightarrow> ssys \<Rightarrow> sfault + ssys" where
  [kern_defs]: "setrunqueue p s =
     (if on_runq s p then Inl Panic_setrunqueue
      else let i = p_priority (sprocs s p) div 4 in Inr (s\<lparr>qs := (qs s)(i := qs s i @ [p])\<rparr>))"

definition remrq :: "nat \<Rightarrow> ssys \<Rightarrow> sfault + ssys" where
  [kern_defs]: "remrq p s =
     (let i = p_priority (sprocs s p) div 4 in
      if qs s i = [] then Inl Panic_remrq else Inr (s\<lparr>qs := (qs s)(i := remove1 p (qs s i))\<rparr>))"

text \<open>
  \<open>Xswitch\<close> takes the first process of the first queue that is not empty; with all queues empty it idles, which is
  \<open>None\<close> for \<^verbatim>\<open>curproc\<close>. After it \<open>mi_switch\<close> reads the time again.
\<close>

definition cpu_switch :: "ssys \<Rightarrow> sfault + ssys" where
  [kern_defs]: "cpu_switch s =
     (case find (\<lambda>i. qs s i \<noteq> []) [0..<32] of
        None \<Rightarrow> Inr (s\<lparr>scur := None\<rparr>)
      | Some i \<Rightarrow>
          let p = hd (qs s i); s1 = s\<lparr>qs := (qs s)(i := tl (qs s i)), sresched := False\<rparr> in
          if p_wchan (sprocs s p) \<noteq> None \<or> p_stat (sprocs s p) \<noteq> SRUN then Inl Panic_switch
          else Inr (s1\<lparr>scur := Some p, sruntime := snow s\<rparr>))"

text \<open>The end of \<open>mi_switch\<close>, after the signal \<open>sig\<close> of the limit on CPU time, if any, has been posted.\<close>

definition mi_switch_go :: "nat \<Rightarrow> xcpu \<Rightarrow> ssys \<Rightarrow> sfault + ssys" where
  [kern_defs]: "mi_switch_go p sig s =
     (case mi_switch_limit (scurpri s) sig (sprocs s p) of
        (q, r) \<Rightarrow> cpu_switch (s\<lparr>sprocs := (sprocs s)(p := q), sresched := sresched s \<or> r\<rparr>))"

section \<open>Sleep queues\<close>

text \<open>Putting a process at the end of its queue, and taking it out at the link \<open>q\<close> that points to it.\<close>

definition sq_insert :: "nat \<Rightarrow> u32 \<Rightarrow> ssys \<Rightarrow> ssys" where
  [kern_defs]: "sq_insert p ident s =
     (let i = lookup ident;
          s1 = assign (if sqhead s i = None then Sq_head i else sqtailp s i) (Some p) s in
      assign (P_forw p) None (s1\<lparr>sqtailp := (sqtailp s1)(i := P_forw p)\<rparr>))"

definition sq_unlink :: "slot \<Rightarrow> nat \<Rightarrow> u32 \<Rightarrow> ssys \<Rightarrow> ssys" where
  [kern_defs]: "sq_unlink q p ident s =
     (let i = lookup ident; s1 = assign q (sfwd s p) s;
          s2 = (if sqtailp s1 i = P_forw p then s1\<lparr>sqtailp := (sqtailp s1)(i := q)\<rparr> else s1) in
      supd p (\<lambda>r. r\<lparr>p_wchan := None\<rparr>) s2)"

text \<open>The search of \<open>unsleep\<close> for the link that points to \<open>p\<close>; it does not end on a queue with a cycle.\<close>

partial_function (option) sq_find :: "nat \<Rightarrow> slot \<Rightarrow> ssys \<Rightarrow> (sfault + slot) option" where
  "sq_find p hp s =
     (case deref s hp of
        None \<Rightarrow> Some (Inl Null_link)
      | Some r \<Rightarrow> if r = p then Some (Inr hp) else sq_find p (P_forw r) s)"

declare sq_find.simps [code]

definition unsleep :: "nat \<Rightarrow> ssys \<Rightarrow> (sfault + ssys) option" where
  "unsleep p s =
     (case p_wchan (sprocs s p) of
        None \<Rightarrow> Some (Inr s)
      | Some c \<Rightarrow> map_option (map_sum id (\<lambda>hp. sq_unlink hp p c s)) (sq_find p (Sq_head (lookup c)) s))"

definition updatepri_s :: "nat \<Rightarrow> ssys \<Rightarrow> ssys" where
  [kern_defs]: "updatepri_s p s =
     (if 1 < p_slptime (sprocs s p)
      then (case updatepri (loadfactor (loadav s)) (scurpri s) (sprocs s p) of
          (q, r) \<Rightarrow> s\<lparr>sprocs := (sprocs s)(p := q), sresched := sresched s \<or> r\<rparr>)
      else s)"

text \<open>The inline expansion of \<open>setrunnable\<close> in \<open>wakeup\<close>, up to the wakeup of the swapper.\<close>

definition wakeup_run :: "nat \<Rightarrow> ssys \<Rightarrow> sfault + ssys" where
  [kern_defs]: "wakeup_run p s =
     (let s1 = supd p (\<lambda>r. r\<lparr>p_slptime := 0, p_stat := SRUN\<rparr>) (updatepri_s p s) in
      if P_INMEM \<in> p_flag (sprocs s1 p) then setrunqueue p s1 else Inr s1)"

text \<open>\<open>wakeup\<close> from the link \<open>q\<close> on. A process that is not in memory wakes the swapper, which is a call of \<open>wakeup\<close> itself.\<close>

partial_function (option) wakeup_from :: "u32 \<Rightarrow> slot \<Rightarrow> ssys \<Rightarrow> (sfault + ssys) option" where
  "wakeup_from ident q s =
     (case deref s q of
        None \<Rightarrow> Some (Inr s)
      | Some p \<Rightarrow>
          if on_runq s p \<or> p_stat (sprocs s p) \<noteq> SSLEEP \<and> p_stat (sprocs s p) \<noteq> SSTOP then Some (Inl Panic_wakeup)
          else if p_wchan (sprocs s p) = Some ident then
            if p_stat (sprocs s p) = SSLEEP then
              (case wakeup_run p (sq_unlink q p ident s) of
                 Inl f \<Rightarrow> Some (Inl f)
               | Inr s1 \<Rightarrow>
                   if P_INMEM \<in> p_flag (sprocs s1 p)
                   then wakeup_from ident (Sq_head (lookup ident)) (s1\<lparr>sresched := True\<rparr>)
                   else Option.bind (wakeup_from (proc0 s1) (Sq_head (lookup (proc0 s1))) s1)
                     (\<lambda>r. case r of Inl f \<Rightarrow> Some (Inl f) | Inr s2 \<Rightarrow> wakeup_from ident (Sq_head (lookup ident)) s2))
            else wakeup_from ident q (sq_unlink q p ident s)
          else wakeup_from ident (P_forw p) s)"

declare wakeup_from.simps [code]

definition wakeup :: "u32 \<Rightarrow> ssys \<Rightarrow> (sfault + ssys) option" where
  "wakeup ident s = wakeup_from ident (Sq_head (lookup ident)) s"

text \<open>Sequencing of steps that may panic or not return.\<close>

definition sthen :: "(sfault + 'a) option \<Rightarrow> ('a \<Rightarrow> (sfault + 'b) option) \<Rightarrow> (sfault + 'b) option" where
  [kern_defs]: "sthen r f = (case r of None \<Rightarrow> None | Some (Inl e) \<Rightarrow> Some (Inl e) | Some (Inr s) \<Rightarrow> f s)"

definition setrunnable_run :: "nat \<Rightarrow> ssys \<Rightarrow> (sfault + ssys) option" where
  [kern_defs]: "setrunnable_run p s1 =
     (let s2 = supd p (\<lambda>r. r\<lparr>p_stat := SRUN\<rparr>) s1; inmem = (P_INMEM \<in> p_flag (sprocs s2 p)) in
      sthen (Some (if inmem then setrunqueue p s2 else Inr s2))
        (\<lambda>s3. let s4 = supd p (\<lambda>r. r\<lparr>p_slptime := 0\<rparr>) (updatepri_s p s3) in
           if \<not> inmem then wakeup (proc0 s4) s4
           else Some (Inr (s4\<lparr>sresched := sresched s4 \<or> p_priority (sprocs s4 p) < scurpri s4\<rparr>))))"

definition setrunnable :: "nat \<Rightarrow> ssys \<Rightarrow> (sfault + ssys) option" where
  [kern_defs]: "setrunnable p s =
     sthen (case p_stat (sprocs s p) of
          SSTOP \<Rightarrow> unsleep p s
        | SSLEEP \<Rightarrow> unsleep p s
        | SIDL \<Rightarrow> Some (Inr s)
        | _ \<Rightarrow> Some (Inl Panic_setrunnable))
       (setrunnable_run p)"

definition endtsleep :: "nat \<Rightarrow> ssys \<Rightarrow> (sfault + ssys) option" where
  [kern_defs]: "endtsleep p s =
     (if p_wchan (sprocs s p) = None then Some (Inr s)
      else sthen (if p_stat (sprocs s p) = SSLEEP then setrunnable p s else unsleep p s)
             (\<lambda>s1. Some (Inr (supd p (\<lambda>r. r\<lparr>p_flag := insert P_TIMEOUT (p_flag r)\<rparr>) s1))))"

text \<open>
  \<open>mi_switch\<close> of the running process \<open>p\<close>. A process that has used up its CPU time gets a signal from \<open>psignal\<close>, which may change its
  state while it is being switched out. The theory \<open>Signals\<close> has \<open>psignal\<close> itself and \<open>mi_switch\<close> with it; here the argument \<open>e\<close> is what that
  call does to the scheduler: whether it resets the nice value, and whether the signal only becomes pending, takes a stopped process off its
  sleep queue, or makes the process run (\<open>Sig_runs_fast\<close> with a better priority).
\<close>

datatype sig_effect = Sig_pends | Sig_unsleeps | Sig_runs | Sig_runs_fast

definition psignal_runfast :: "nat \<Rightarrow> ssys \<Rightarrow> (sfault + ssys) option" where
  [kern_defs]: "psignal_runfast p s = setrunnable p (if PUSER < p_priority (sprocs s p) then supd p (\<lambda>r. r\<lparr>p_priority := PUSER\<rparr>) s else s)"

definition psignal_effect :: "bool \<times> sig_effect \<Rightarrow> nat \<Rightarrow> ssys \<Rightarrow> (sfault + ssys) option" where
  [kern_defs]: "psignal_effect e p s =
     (let s1 = (if fst e then supd p (\<lambda>r. r\<lparr>p_nice := 0\<rparr>) s else s); st = p_stat (sprocs s1 p) in
      case snd e of
        Sig_pends \<Rightarrow> Some (Inr s1)
      | Sig_unsleeps \<Rightarrow> if st = SSTOP then unsleep p s1 else Some (Inr s1)
      | Sig_runs \<Rightarrow> if st = SSTOP \<or> st = SSLEEP then setrunnable p s1 else Some (Inr s1)
      | Sig_runs_fast \<Rightarrow> if st = SSTOP \<or> st = SSLEEP then psignal_runfast p s1 else Some (Inr s1))"

definition mi_switch :: "bool \<times> sig_effect \<Rightarrow> nat \<Rightarrow> ssys \<Rightarrow> (sfault + ssys) option" where
  [kern_defs]: "mi_switch e p s =
     (case mi_switch_time (snow s) (sruntime s) (sprocs s p) of
        (q, sig) \<Rightarrow>
          let s1 = supd p (\<lambda>_. q) s in
          sthen (if sig = No_sig then Some (Inr s1) else psignal_effect e p s1) (\<lambda>s2. Some (mi_switch_go p sig s2)))"

text \<open>
  \<open>tsleep\<close> of the running process in three parts. \<open>tsleep_enter\<close> puts the process on the queue and starts the timeout
  (\<open>endtsleep_fn\<close> stands for the address of \<open>endtsleep\<close>, the argument is the process). \<open>tsleep_wait\<close> follows the call of
  \<^verbatim>\<open>CURSIG\<close>, whose result \<open>sig\<close> is 0 when there is no signal: the process sleeps, or goes on at once. \<open>tsleep_resume\<close> is
  what the process does when it runs again; \<open>sig2\<close> is the result of the second \<^verbatim>\<open>CURSIG\<close>, \<open>intr\<close> tells whether the signal
  interrupts system calls (\<open>catch\<close> is also false when the wakeup came while the process was stopped in the first
  \<^verbatim>\<open>CURSIG\<close>). The tests of \<^verbatim>\<open>cold\<close> and \<^verbatim>\<open>panicstr\<close> are left to the caller.
\<close>

abbreviation endtsleep_fn :: nat where "endtsleep_fn \<equiv> 1"

definition tsleep_enter :: "nat \<Rightarrow> u32 \<Rightarrow> nat \<Rightarrow> int \<Rightarrow> ssys \<Rightarrow> sfault + ssys" where
  [kern_defs]: "tsleep_enter p ident priority timo s =
     (if ident = 0 \<or> p_stat (sprocs s p) \<noteq> SRUN \<or> on_runq s p then Inl Panic_tsleep
      else
        let s1 = sq_insert p ident (supd p (\<lambda>r. r\<lparr>p_wchan := Some ident, p_slptime := 0, p_priority := priority mod 256\<rparr>) s) in
        if timo = 0 then Inr s1
        else (case timeout endtsleep_fn p timo (scallq s1) of
            None \<Rightarrow> Inl Panic_timeout
          | Some q \<Rightarrow> Inr (s1\<lparr>scallq := q\<rparr>)))"

definition sleep_block :: "bool \<times> sig_effect \<Rightarrow> nat \<Rightarrow> ssys \<Rightarrow> (sfault + ssys) option" where
  [kern_defs]: "sleep_block e p s = mi_switch e p (supd p (\<lambda>r. r\<lparr>p_stat := SSLEEP\<rparr>) s)"

definition tsleep_wait :: "bool \<times> sig_effect \<Rightarrow> nat \<Rightarrow> bool \<Rightarrow> nat \<Rightarrow> ssys \<Rightarrow> (sfault + ssys) option" where
  [kern_defs]: "tsleep_wait e p catch sig s =
     (if \<not> catch then sleep_block e p s
      else if sig \<noteq> 0 then
        sthen (unsleep p s) (\<lambda>s1. Some (Inr (supd p (\<lambda>r. r\<lparr>p_stat := SRUN\<rparr>) s1)))
      else if p_wchan (sprocs s p) = None then Some (Inr s)
      else sleep_block e p s)"

definition tsleep :: "bool \<times> sig_effect \<Rightarrow> nat \<Rightarrow> u32 \<Rightarrow> nat \<Rightarrow> bool \<Rightarrow> int \<Rightarrow> nat \<Rightarrow> ssys \<Rightarrow> (sfault + ssys) option" where
  [kern_defs]: "tsleep e p ident priority catch timo sig s =
     sthen (Some (tsleep_enter p ident priority timo s))
       (\<lambda>s1. tsleep_wait e p catch sig (if catch then supd p (\<lambda>r. r\<lparr>p_flag := insert P_SINTR (p_flag r)\<rparr>) s1 else s1))"

datatype tres = Awake | Tfail errno

definition tsleep_resume :: "nat \<Rightarrow> bool \<Rightarrow> int \<Rightarrow> nat \<Rightarrow> nat \<Rightarrow> (nat \<Rightarrow> bool) \<Rightarrow> ssys \<Rightarrow> tres \<times> ssys" where
  [kern_defs]: "tsleep_resume p catch timo sig sig2 intr s =
     (let s1 = supd p (\<lambda>r. r\<lparr>p_flag := p_flag r - {P_SINTR}\<rparr>) (s\<lparr>scurpri := p_usrpri (sprocs s p)\<rparr>);
          timedout = (P_TIMEOUT \<in> p_flag (sprocs s1 p));
          s2 = (if timedout then supd p (\<lambda>r. r\<lparr>p_flag := p_flag r - {P_TIMEOUT}\<rparr>) s1
                else if timo \<noteq> 0 then s1\<lparr>scallq := untimeout endtsleep_fn p (scallq s1)\<rparr> else s1);
          got = (if sig \<noteq> 0 then sig else sig2) in
      if timedout \<and> sig = 0 then (Tfail EWOULDBLOCK, s2)
      else if catch \<and> got \<noteq> 0 then (Tfail (if intr got then EINTR else ERESTART), s2)
      else (Awake, s2))"

definition sleep :: "bool \<times> sig_effect \<Rightarrow> nat \<Rightarrow> u32 \<Rightarrow> nat \<Rightarrow> ssys \<Rightarrow> (sfault + ssys) option" where
  [kern_defs]: "sleep e p ident priority s =
     (if 22 < priority \<or> ident = 0 \<or> p_stat (sprocs s p) \<noteq> SRUN \<or> on_runq s p then Some (Inl Panic_tsleep)
      else sleep_block e p (sq_insert p ident (supd p (\<lambda>r. r\<lparr>p_wchan := Some ident, p_slptime := 0, p_priority := priority\<rparr>) s)))"


text \<open>
  The users of these routines in \<^verbatim>\<open>kern_sig.c\<close>, \<^verbatim>\<open>trap.c\<close> and \<^verbatim>\<open>vm_glue.c\<close> that change the state of a process: \<open>stop\<close> (with the
  address of the parent, on which it may wait), the stop of the running process in \<open>issignal\<close>, the continuation of a
  stopped process in \<open>psignal\<close>, the end of a time slice on the return to user mode, and the parts of \<open>swapout\<close> and of the
  swapper that move a process out of and into memory.
\<close>

definition stop :: "nat \<Rightarrow> u32 \<Rightarrow> ssys \<Rightarrow> (sfault + ssys) option" where
  [kern_defs]: "stop p parent s = wakeup parent (supd p (\<lambda>r. r\<lparr>p_stat := SSTOP, p_flag := p_flag r - {P_WAITED}\<rparr>) s)"

definition stop_self :: "bool \<times> sig_effect \<Rightarrow> nat \<Rightarrow> u32 \<Rightarrow> ssys \<Rightarrow> (sfault + ssys) option" where
  [kern_defs]: "stop_self e p parent s = sthen (stop p parent s) (mi_switch e p)"

definition continue_p :: "nat \<Rightarrow> ssys \<Rightarrow> (sfault + ssys) option" where
  [kern_defs]: "continue_p p s =
     (if p_wchan (sprocs s p) = None then setrunnable p s else Some (Inr (supd p (\<lambda>r. r\<lparr>p_stat := SSLEEP\<rparr>) s)))"

definition resched_user :: "bool \<times> sig_effect \<Rightarrow> nat \<Rightarrow> ssys \<Rightarrow> (sfault + ssys) option" where
  [kern_defs]: "resched_user e p s =
     (let s1 = supd p (\<lambda>r. r\<lparr>p_priority := p_usrpri r\<rparr>) s in
      if sresched s1 then sthen (Some (setrunqueue p s1)) (mi_switch e p) else Some (Inr s1))"

definition swapout :: "nat \<Rightarrow> ssys \<Rightarrow> sfault + ssys" where
  [kern_defs]: "swapout p s =
     (let s1 = supd p (\<lambda>r. r\<lparr>p_flag := p_flag r - {P_INMEM}\<rparr>) s in
      map_sum id (supd p (\<lambda>r. r\<lparr>p_swtime := 0\<rparr>)) (if p_stat (sprocs s1 p) = SRUN then remrq p s1 else Inr s1))"

definition swapin :: "nat \<Rightarrow> ssys \<Rightarrow> sfault + ssys" where
  [kern_defs]: "swapin p s =
     map_sum id (supd p (\<lambda>r. r\<lparr>p_flag := insert P_INMEM (p_flag r), p_swtime := 0\<rparr>))
       (if p_stat (sprocs s p) = SRUN then setrunqueue p s else Inr s)"

text \<open>
  \<open>schedcpu\<close>: the body of its loop for the process \<open>p\<close>, and the whole, with the list of all processes and the channel
  \<^verbatim>\<open>lbolt\<close>; \<open>rate\<close> is \<^verbatim>\<open>hz\<close>, \<open>bcln\<close> the page daemon's channel when there are buffers to clean (\<^verbatim>\<open>bclnlist\<close>), and \<open>schedcpu_fn\<close>
  stands for the address of \<open>schedcpu\<close>, which calls itself again after a second. \<^verbatim>\<open>vmmeter\<close> only computes statistics.
\<close>

definition schedcpu_one :: "int \<Rightarrow> nat \<Rightarrow> ssys \<Rightarrow> sfault + ssys" where
  [kern_defs]: "schedcpu_one rate p s =
     (case schedcpu_proc rate (loadfactor (loadav s)) (scurpri s) (scur s = Some p) (sprocs s p) of
        (q, resched, move) \<Rightarrow>
          let put = (\<lambda>t. supd p (\<lambda>_. q) (t\<lparr>sresched := sresched t \<or> resched\<rparr>)) in
          if move then (case remrq p s of Inl f \<Rightarrow> Inl f | Inr s1 \<Rightarrow> setrunqueue p (put s1)) else Inr (put s))"

fun schedcpu_all :: "int \<Rightarrow> nat list \<Rightarrow> ssys \<Rightarrow> sfault + ssys" where
  "schedcpu_all rate [] s = Inr s"
| "schedcpu_all rate (p # ps) s = (case schedcpu_one rate p s of Inl f \<Rightarrow> Inl f | Inr s1 \<Rightarrow> schedcpu_all rate ps s1)"

abbreviation schedcpu_fn :: nat where "schedcpu_fn \<equiv> 2"

definition schedcpu :: "int \<Rightarrow> u32 \<Rightarrow> nat list \<Rightarrow> u32 option \<Rightarrow> ssys \<Rightarrow> (sfault + ssys) option" where
  [kern_defs]: "schedcpu rate lbolt allproc bcln s =
     sthen (wakeup lbolt s) (\<lambda>s1.
     sthen (Some (schedcpu_all rate allproc s1)) (\<lambda>s2.
     sthen (case bcln of None \<Rightarrow> Some (Inr s2) | Some pageproc \<Rightarrow> wakeup pageproc s2) (\<lambda>s3.
       Some (case timeout schedcpu_fn 0 rate (scallq s3) of
           None \<Rightarrow> Inl Panic_timeout
         | Some q \<Rightarrow> Inr (s3\<lparr>scallq := q\<rparr>)))))"

section \<open>The queues as lists\<close>

fun path :: "(nat \<Rightarrow> nat option) \<Rightarrow> nat option \<Rightarrow> nat list \<Rightarrow> bool" where
  "path f h [] \<longleftrightarrow> h = None"
| "path f h (p # ps) \<longleftrightarrow> h = Some p \<and> path f (f p) ps"

text \<open>\<open>Q\<close> gives the processes of every sleep queue in order.\<close>

definition sleep_rep :: "ssys \<Rightarrow> (nat \<Rightarrow> nat list) \<Rightarrow> bool" where
  "sleep_rep s Q \<longleftrightarrow> (\<forall>i. path (sfwd s) (sqhead s i) (Q i) \<and> distinct (Q i) \<and>
     (Q i \<noteq> [] \<longrightarrow> sqtailp s i = P_forw (last (Q i))) \<and>
     (\<forall>p. p \<in> set (Q i) \<longleftrightarrow> (\<exists>c. p_wchan (sprocs s p) = Some c \<and> lookup c = i)))"

text \<open>
  The invariant of the processes: who waits is asleep or stopped, a sleeping process waits, and a runnable process in
  memory is the running one or on the run queue of its priority, once.
\<close>

definition proc_ok :: "ssys \<Rightarrow> nat \<Rightarrow> bool" where
  "proc_ok s p \<longleftrightarrow> (let r = sprocs s p in
     p_priority r < 128 \<and> p_usrpri r < 128 \<and>
     (p_wchan r \<noteq> None \<longrightarrow> p_stat r = SSLEEP \<or> p_stat r = SSTOP) \<and> (p_stat r = SSLEEP \<longrightarrow> p_wchan r \<noteq> None) \<and>
     (scur s = Some p \<longrightarrow> p_wchan r = None) \<and>
     (\<forall>i. count_list (qs s i) p =
        (if p_stat r = SRUN \<and> P_INMEM \<in> p_flag r \<and> scur s \<noteq> Some p \<and> i = p_priority r div 4 then 1 else 0)))"

definition sched_ok :: "ssys \<Rightarrow> bool" where
  "sched_ok s \<longleftrightarrow> (\<exists>Q. sleep_rep s Q) \<and> (\<forall>p. proc_ok s p) \<and>
     (\<forall>p. scur s = Some p \<longrightarrow> p_stat (sprocs s p) = SRUN \<and> P_INMEM \<in> p_flag (sprocs s p))"

lemma path_cong: "(\<And>x. x \<in> set xs \<Longrightarrow> f x = g x) \<Longrightarrow> path f h xs = path g h xs"
  by (induction xs arbitrary: h) auto

lemma path_drop: "path f h (xs @ ys) \<Longrightarrow> path f (if xs = [] then h else f (last xs)) ys"
  by (induction xs arbitrary: h) auto

lemma path_put: "path f h (xs @ ys) \<Longrightarrow> distinct (xs @ zs) \<Longrightarrow> xs \<noteq> [] \<Longrightarrow> path f v zs \<Longrightarrow> path (f(last xs := v)) h (xs @ zs)"
proof (induction xs arbitrary: h)
  case (Cons x xs)
  show ?case
  proof (cases "xs = []")
    case True
    have "path (f(x := v)) v zs = path f v zs" by (rule path_cong) (use Cons.prems(2) True in auto)
    then show ?thesis using Cons.prems True by (simp add: fun_upd_def)
  next
    case False
    then have "x \<noteq> last xs" using Cons.prems(2) by auto
    then show ?thesis using Cons.IH [of "f x"] Cons.prems False by simp
  qed
qed simp

text \<open>The link that points behind the first processes \<open>xs\<close> of a queue.\<close>

definition link :: "nat \<Rightarrow> nat list \<Rightarrow> slot" where
  "link i xs = (if xs = [] then Sq_head i else P_forw (last xs))"

lemma sleep_repD:
  assumes "sleep_rep s Q"
  shows "path (sfwd s) (sqhead s i) (Q i)" "distinct (Q i)" "Q i \<noteq> [] \<Longrightarrow> sqtailp s i = P_forw (last (Q i))"
    "p \<in> set (Q i) \<longleftrightarrow> (\<exists>c. p_wchan (sprocs s p) = Some c \<and> lookup c = i)"
  using assms by (simp_all add: sleep_rep_def)

lemma sleep_rep_other: "sleep_rep s Q \<Longrightarrow> p \<in> set (Q i) \<Longrightarrow> p \<in> set (Q j) \<Longrightarrow> i = j"
  by (auto simp: sleep_rep_def)

lemma sleep_rep_cong:
  "sqhead s' = sqhead s \<Longrightarrow> sqtailp s' = sqtailp s \<Longrightarrow> sfwd s' = sfwd s \<Longrightarrow>
     (\<And>p. p_wchan (sprocs s' p) = p_wchan (sprocs s p)) \<Longrightarrow> sleep_rep s' Q = sleep_rep s Q"
  by (simp add: sleep_rep_def)

lemma deref_link:
  assumes "sleep_rep s Q" "Q i = xs @ ys"
  shows "deref s (link i xs) = (case ys of [] \<Rightarrow> None | y # _ \<Rightarrow> Some y)"
  using path_drop [of "sfwd s" "sqhead s i" xs ys] sleep_repD(1) [OF assms(1), of i] assms(2)
  by (cases ys) (auto simp: link_def split: if_splits)

lemma assign_simps [simp]:
  "sprocs (assign q v s) = sprocs s" "sqtailp (assign q v s) = sqtailp s" "qs (assign q v s) = qs s" "scur (assign q v s) = scur s"
  "scurpri (assign q v s) = scurpri s" "sresched (assign q v s) = sresched s" "loadav (assign q v s) = loadav s"
  "proc0 (assign q v s) = proc0 s" "scallq (assign q v s) = scallq s" "snow (assign q v s) = snow s"
  "sruntime (assign q v s) = sruntime s"
  by (cases q; simp)+

lemma unlink_rep:
  assumes "sleep_rep s Q" "Q (lookup c) = xs @ p # ys" "p_wchan (sprocs s p) = Some c"
  shows "sleep_rep (sq_unlink (link (lookup c) xs) p c s) (Q(lookup c := xs @ ys))"
proof -
  let ?i = "lookup c" and ?q = "link (lookup c) xs"
  define t where t: "t = sq_unlink ?q p c s"
  have d: "distinct (xs @ p # ys)" using sleep_repD(2) [OF assms(1), of ?i] assms(2) by simp
  have pp: "path (sfwd s) (sqhead s ?i) (xs @ p # ys)" using sleep_repD(1) [OF assms(1), of ?i] assms(2) by simp
  have ys: "path (sfwd s) (sfwd s p) ys" using path_drop [of "sfwd s" "sqhead s ?i" "xs @ [p]" ys] pp by simp
  have fw: "sfwd t = (if xs = [] then sfwd s else (sfwd s)(last xs := sfwd s p))"
    "sqhead t = (if xs = [] then (sqhead s)(?i := sfwd s p) else sqhead s)"
    "sqtailp t = (if sqtailp s ?i = P_forw p then (sqtailp s)(?i := ?q) else sqtailp s)"
    "sprocs t = (sprocs s)(p := (sprocs s p)\<lparr>p_wchan := None\<rparr>)"
    by (auto simp: t sq_unlink_def link_def supd_def Let_def)
  have tl: "sqtailp s ?i = P_forw (last (p # ys))" using sleep_repD(3) [OF assms(1), of ?i] assms(2) by simp
  show ?thesis
    unfolding t [symmetric] sleep_rep_def
  proof (intro allI conjI impI)
    fix j r
    show "path (sfwd t) (sqhead t j) ((Q(?i := xs @ ys)) j)"
    proof (cases "j = ?i")
      case True
      then show ?thesis using ys path_put [OF pp _ _ ys] d by (auto simp: fw)
    next
      case False
      have "last xs \<notin> set (Q j)" if "xs \<noteq> []"
        using sleep_rep_other [OF assms(1), of "last xs" j ?i] that False assms(2) by auto
      then have "path (sfwd t) (sqhead s j) (Q j) = path (sfwd s) (sqhead s j) (Q j)" by (intro path_cong) (auto simp: fw)
      then show ?thesis using sleep_repD(1) [OF assms(1), of j] False by (auto simp: fw)
    qed
    show "distinct ((Q(?i := xs @ ys)) j)" using d sleep_repD(2) [OF assms(1)] by simp
    show "sqtailp t j = P_forw (last ((Q(?i := xs @ ys)) j))" if "(Q(?i := xs @ ys)) j \<noteq> []"
      using that tl d sleep_repD(3) [OF assms(1), of j] by (auto simp: fw link_def assms(2) split: if_splits)
    show "r \<in> set ((Q(?i := xs @ ys)) j) \<longleftrightarrow> (\<exists>c. p_wchan (sprocs t r) = Some c \<and> lookup c = j)"
      using sleep_repD(4) [OF assms(1), of r j] assms(2,3) d by (auto simp: fw)
  qed
qed

lemma insert_rep:
  assumes "sleep_rep s Q" "p_wchan (sprocs s p) = None" "p_wchan (f (sprocs s p)) = Some c"
  shows "sleep_rep (sq_insert p c (supd p f s)) (Q(lookup c := Q (lookup c) @ [p]))"
proof -
  let ?i = "lookup c" and ?s = "sq_insert p c (supd p f s)"
  have np: "p \<notin> set (Q j)" for j using sleep_repD(4) [OF assms(1)] assms(2) by simp
  have e: "sqhead s ?i = None \<longleftrightarrow> Q ?i = []" using sleep_repD(1) [OF assms(1), of ?i] by (cases "Q ?i") auto
  have fw: "sfwd ?s = (if Q ?i = [] then sfwd s else (sfwd s)(last (Q ?i) := Some p))(p := None)"
    "sqhead ?s = (if Q ?i = [] then (sqhead s)(?i := Some p) else sqhead s)"
    "sqtailp ?s = (sqtailp s)(?i := P_forw p)" "sprocs ?s = (sprocs s)(p := f (sprocs s p))"
    using e sleep_repD(3) [OF assms(1), of ?i] by (auto simp: sq_insert_def supd_def Let_def)
  show ?thesis
    unfolding sleep_rep_def
  proof (intro allI conjI impI)
    fix j r
    show "path (sfwd ?s) (sqhead ?s j) ((Q(?i := Q ?i @ [p])) j)"
    proof (cases "j = ?i")
      case True
      let ?f = "(sfwd s)(p := None)"
      have "path ?f (sqhead s ?i) (Q ?i) = path (sfwd s) (sqhead s ?i) (Q ?i)" by (rule path_cong) (use np in auto)
      then have "path ?f (sqhead s ?i) (Q ?i)" using sleep_repD(1) [OF assms(1)] by blast
      from path_put [of ?f _ "Q ?i" "[]" "[p]" "Some p"] this
      have "Q ?i \<noteq> [] \<Longrightarrow> path (?f(last (Q ?i) := Some p)) (sqhead s ?i) (Q ?i @ [p])"
        using np sleep_repD(2) [OF assms(1)] by simp
      moreover have "Q ?i \<noteq> [] \<Longrightarrow> p \<noteq> last (Q ?i)" using np last_in_set by metis
      ultimately show ?thesis using True by (auto simp: fw fun_upd_twist)
    next
      case False
      have "last (Q ?i) \<notin> set (Q j)" if "Q ?i \<noteq> []" using sleep_rep_other [OF assms(1), of "last (Q ?i)" j ?i] that False by auto
      then have "path (sfwd ?s) (sqhead s j) (Q j) = path (sfwd s) (sqhead s j) (Q j)" using np by (intro path_cong) (auto simp: fw)
      then show ?thesis using sleep_repD(1) [OF assms(1), of j] False by (auto simp: fw)
    qed
    show "distinct ((Q(?i := Q ?i @ [p])) j)" using np sleep_repD(2) [OF assms(1)] by simp
    show "sqtailp ?s j = P_forw (last ((Q(?i := Q ?i @ [p])) j))" if "(Q(?i := Q ?i @ [p])) j \<noteq> []"
      using that sleep_repD(3) [OF assms(1), of j] by (auto simp: fw)
    show "r \<in> set ((Q(?i := Q ?i @ [p])) j) \<longleftrightarrow> (\<exists>c. p_wchan (sprocs ?s r) = Some c \<and> lookup c = j)"
      using sleep_repD(4) [OF assms(1), of r j] assms(2,3) np by (auto simp: fw)
  qed
qed

lemma sq_find_link:
  "sleep_rep s Q \<Longrightarrow> Q i = xs @ zs @ p # ys \<Longrightarrow> p \<notin> set zs \<Longrightarrow> sq_find p (link i xs) s = Some (Inr (link i (xs @ zs)))"
proof (induction zs arbitrary: xs)
  case Nil
  then show ?case using deref_link [OF Nil.prems(1,2)] by (subst sq_find.simps) simp
next
  case (Cons z zs)
  have "link i (xs @ [z]) = P_forw z" by (simp add: link_def)
  then show ?case using deref_link [OF Cons.prems(1,2)] Cons.IH [of "xs @ [z]"] Cons.prems
    by (subst sq_find.simps) simp
qed

lemma unsleep_rep:
  assumes "sleep_rep s Q"
  shows "\<exists>s' Q'. unsleep p s = Some (Inr s') \<and> sleep_rep s' Q' \<and>
    (if p_wchan (sprocs s p) = None then s' = s
     else \<exists>q c. p_wchan (sprocs s p) = Some c \<and> s' = sq_unlink q p c s)"
proof (cases "p_wchan (sprocs s p)")
  case None
  then show ?thesis using assms by (auto simp: unsleep_def)
next
  case (Some c)
  then have "p \<in> set (Q (lookup c))" using sleep_repD(4) [OF assms] by auto
  then obtain zs ys where z: "Q (lookup c) = zs @ p # ys" "p \<notin> set zs" by (meson split_list_first)
  have "sq_find p (Sq_head (lookup c)) s = Some (Inr (link (lookup c) zs))"
    using sq_find_link [OF assms, of "lookup c" "[]" zs p ys] z by (simp add: link_def)
  then show ?thesis using Some unlink_rep [OF assms z(1) Some] by (auto simp: unsleep_def)
qed

section \<open>Processes\<close>

lemma updatepri_keeps:
  "p_stat (fst (updatepri lf c r)) = p_stat r" "p_flag (fst (updatepri lf c r)) = p_flag r"
  "p_wchan (fst (updatepri lf c r)) = p_wchan r" "p_priority (fst (updatepri lf c r)) = p_priority r"
  "p_usrpri (fst (updatepri lf c r)) < 128"
proof -
  show "p_usrpri (fst (updatepri lf c r)) < 128"
    unfolding updatepri_def by (rule le_less_trans [OF resetpriority_bound]) simp
qed (simp_all add: updatepri_def resetpriority_def Let_def split_beta)

lemma supd_simps [simp]:
  "sprocs (supd p f s) = (sprocs s)(p := f (sprocs s p))" "sqhead (supd p f s) = sqhead s" "sqtailp (supd p f s) = sqtailp s"
  "sfwd (supd p f s) = sfwd s" "qs (supd p f s) = qs s" "scur (supd p f s) = scur s" "scurpri (supd p f s) = scurpri s"
  "sresched (supd p f s) = sresched s" "loadav (supd p f s) = loadav s" "proc0 (supd p f s) = proc0 s"
  "scallq (supd p f s) = scallq s" "snow (supd p f s) = snow s" "sruntime (supd p f s) = sruntime s"
  by (simp_all add: supd_def)

text \<open>\<open>same_rest\<close>: apart from processes and queues only \<^verbatim>\<open>want_resched\<close> may have changed.\<close>

definition same_rest :: "ssys \<Rightarrow> ssys \<Rightarrow> bool" where
  "same_rest s s' \<longleftrightarrow> scur s' = scur s \<and> scurpri s' = scurpri s \<and> loadav s' = loadav s \<and> proc0 s' = proc0 s \<and>
     scallq s' = scallq s \<and> snow s' = snow s \<and> sruntime s' = sruntime s"

definition same_sq :: "ssys \<Rightarrow> ssys \<Rightarrow> bool" where
  "same_sq s s' \<longleftrightarrow> sqhead s' = sqhead s \<and> sqtailp s' = sqtailp s \<and> sfwd s' = sfwd s"

lemma same_rest_trans: "same_rest s s1 \<Longrightarrow> same_rest s1 s2 \<Longrightarrow> same_rest s s2"
  by (simp add: same_rest_def)

lemma unlink_same: "same_rest s (sq_unlink q p c s)" "qs (sq_unlink q p c s) = qs s"
  "sprocs (sq_unlink q p c s) = (sprocs s)(p := (sprocs s p)\<lparr>p_wchan := None\<rparr>)"
  by (simp_all add: same_rest_def sq_unlink_def Let_def)

text \<open>What making a process runnable changes in it.\<close>

definition made_run :: "proc \<Rightarrow> proc \<Rightarrow> bool" where
  "made_run r r' \<longleftrightarrow> p_stat r' = SRUN \<and> p_wchan r' = None \<and> p_slptime r' = 0 \<and> p_flag r' = p_flag r \<and>
     p_priority r' = p_priority r \<and> (p_usrpri r < 128 \<longrightarrow> p_usrpri r' < 128)"

lemma updatepri_s_ex:
  "\<exists>r b. updatepri_s p t = t\<lparr>sprocs := (sprocs t)(p := r), sresched := b\<rparr> \<and> p_stat r = p_stat (sprocs t p) \<and>
     p_flag r = p_flag (sprocs t p) \<and> p_wchan r = p_wchan (sprocs t p) \<and> p_priority r = p_priority (sprocs t p) \<and>
     (p_usrpri (sprocs t p) < 128 \<longrightarrow> p_usrpri r < 128)"
proof (cases "1 < p_slptime (sprocs t p)")
  case True
  obtain r b where u: "updatepri (loadfactor (loadav t)) (scurpri t) (sprocs t p) = (r, b)" by fastforce
  show ?thesis
    by (intro exI [of _ r] exI [of _ "sresched t \<or> b"])
      (use True u updatepri_keeps [of "loadfactor (loadav t)" "scurpri t" "sprocs t p"] in \<open>simp add: updatepri_s_def\<close>)
next
  case False
  then show ?thesis by (intro exI [of _ "sprocs t p"] exI [of _ "sresched t"]) (simp add: updatepri_s_def)
qed

lemma wakeup_run_ok:
  assumes "\<not> on_runq t p" "p_wchan (sprocs t p) = None"
  shows "\<exists>s1. wakeup_run p t = Inr s1 \<and> same_sq t s1 \<and> same_rest t s1 \<and>
    (\<exists>r. made_run (sprocs t p) r \<and> sprocs s1 = (sprocs t)(p := r)) \<and>
    qs s1 = (let i = p_priority (sprocs t p) div 4 in if P_INMEM \<in> p_flag (sprocs t p) then (qs t)(i := qs t i @ [p]) else qs t)"
proof -
  define u where u: "u = supd p (\<lambda>r. r\<lparr>p_slptime := 0, p_stat := SRUN\<rparr>) (updatepri_s p t)"
  obtain r b where k: "updatepri_s p t = t\<lparr>sprocs := (sprocs t)(p := r), sresched := b\<rparr>" "p_flag r = p_flag (sprocs t p)"
    "p_wchan r = p_wchan (sprocs t p)" "p_priority r = p_priority (sprocs t p)" "p_usrpri (sprocs t p) < 128 \<longrightarrow> p_usrpri r < 128"
    using updatepri_s_ex [of p t] by blast
  have e: "same_sq t u" "same_rest t u" "qs u = qs t" "made_run (sprocs t p) (sprocs u p)" "\<exists>r'. sprocs u = (sprocs t)(p := r')"
    using assms(2) k(2-5) by (auto simp: u k(1) same_sq_def same_rest_def made_run_def)
  have "wakeup_run p t = (if P_INMEM \<in> p_flag (sprocs u p) then setrunqueue p u else Inr u)" by (simp add: wakeup_run_def u Let_def)
  moreover have "on_runq u p = on_runq t p" using e(3) by (simp add: on_runq_def)
  moreover have "p_flag (sprocs u p) = p_flag (sprocs t p)" "p_priority (sprocs u p) = p_priority (sprocs t p)"
    using e(4) by (simp_all add: made_run_def)
  ultimately have "wakeup_run p t = Inr (if P_INMEM \<in> p_flag (sprocs t p)
      then u\<lparr>qs := (qs t)(p_priority (sprocs t p) div 4 := qs t (p_priority (sprocs t p) div 4) @ [p])\<rparr> else u)"
    using assms(1) e(3) by (simp add: setrunqueue_def Let_def)
  then show ?thesis using e by (auto simp: same_sq_def same_rest_def Let_def)
qed

lemma on_runq_count: "on_runq s p \<longleftrightarrow> (\<exists>i<32. count_list (qs s i) p \<noteq> 0)"
  by (auto simp: on_runq_def list_ex_iff count_list_0_iff)

lemma proc_ok_off: "proc_ok s p \<Longrightarrow> p_stat (sprocs s p) \<noteq> SRUN \<or> scur s = Some p \<Longrightarrow> \<not> on_runq s p"
  by (auto simp: on_runq_count proc_ok_def Let_def)

lemma proc_ok_other:
  "sprocs s' x = sprocs s x \<Longrightarrow> (scur s' = Some x) = (scur s = Some x) \<Longrightarrow> (\<And>i. count_list (qs s' i) x = count_list (qs s i) x) \<Longrightarrow>
     proc_ok s' x = proc_ok s x"
  by (simp add: proc_ok_def)

text \<open>A process that was asleep, stopped or new becomes runnable and is put on its run queue.\<close>

lemma made_run_ok:
  assumes "\<forall>x. proc_ok s x" "p_stat (sprocs s p) \<noteq> SRUN" "scur s \<noteq> Some p" "made_run (sprocs s p) r" "sprocs s1 = (sprocs s)(p := r)" "scur s1 = scur s"
    "qs s1 = (let i = p_priority (sprocs s p) div 4 in if P_INMEM \<in> p_flag (sprocs s p) then (qs s)(i := qs s i @ [p]) else qs s)"
  shows "\<forall>x. proc_ok s1 x"
proof
  fix x
  show "proc_ok s1 x"
  proof (cases "x = p")
    case True
    then show ?thesis using assms(1) [rule_format, of p] assms(2-7) by (auto simp: proc_ok_def made_run_def Let_def)
  next
    case False
    then show ?thesis using assms(1) proc_ok_other [of s1 x s] assms(5-7) by (simp add: Let_def split: if_splits)
  qed
qed

section \<open>Wakeups\<close>

definition nsleep :: "ssys \<Rightarrow> nat" where
  "nsleep s = card {p. p_wchan (sprocs s p) \<noteq> None}"

lemma lookup_less: "lookup c < 128"
proof -
  have "drop_bit 8 c AND (127 :: u32) \<le> 127" by (rule word_and_le1)
  then show ?thesis unfolding lookup_def by (simp add: word_le_nat_alt)
qed

lemma sleepers_finite:
  assumes "sleep_rep s Q"
  shows "finite {p. p_wchan (sprocs s p) \<noteq> None}"
proof -
  have "{p. p_wchan (sprocs s p) \<noteq> None} \<subseteq> (\<Union>i\<in>{..<128}. set (Q i))"
    using sleep_repD(4) [OF assms] lookup_less by fastforce
  then show ?thesis by (rule finite_subset) simp
qed

definition woken :: "proc \<Rightarrow> proc \<Rightarrow> bool" where
  "woken r r' \<longleftrightarrow> (if p_stat r = SSLEEP then made_run r r' else r' = r\<lparr>p_wchan := None\<rparr>)"

definition wk_rel :: "u32 set \<Rightarrow> ssys \<Rightarrow> ssys \<Rightarrow> bool" where
  "wk_rel I s s' \<longleftrightarrow> same_rest s s' \<and> (\<forall>i. \<exists>zs. qs s' i = qs s i @ zs) \<and>
     (\<forall>p. sprocs s' p = sprocs s p \<or> (\<exists>c\<in>I. p_wchan (sprocs s p) = Some c \<and> woken (sprocs s p) (sprocs s' p)))"

lemma woken_wchan: "woken r r' \<Longrightarrow> p_wchan r' = None"
  by (auto simp: woken_def made_run_def split: if_splits)

lemma wk_rel_trans: "wk_rel I s s1 \<Longrightarrow> wk_rel I s1 s2 \<Longrightarrow> wk_rel I s s2"
proof -
  assume a: "wk_rel I s s1" "wk_rel I s1 s2"
  have "\<exists>zs. qs s2 i = qs s i @ zs" for i
  proof -
    obtain ys zs where "qs s1 i = qs s i @ ys" "qs s2 i = qs s1 i @ zs" using a unfolding wk_rel_def by blast
    then show ?thesis by simp
  qed
  moreover have "sprocs s2 p = sprocs s p \<or> (\<exists>c\<in>I. p_wchan (sprocs s p) = Some c \<and> woken (sprocs s p) (sprocs s2 p))" for p
    using a woken_wchan unfolding wk_rel_def by (metis option.distinct(1))
  ultimately show ?thesis using a same_rest_trans unfolding wk_rel_def by blast
qed

lemma wk_rel_refl: "wk_rel I s s"
  by (simp add: wk_rel_def same_rest_def)

lemma wk_rel_nsleep:
  assumes "wk_rel I s s'" "sleep_rep s Q"
  shows "nsleep s' \<le> nsleep s"
proof -
  have "{p. p_wchan (sprocs s' p) \<noteq> None} \<subseteq> {p. p_wchan (sprocs s p) \<noteq> None}"
  proof (rule Collect_mono, rule impI)
    fix p assume p: "p_wchan (sprocs s' p) \<noteq> None"
    then have "sprocs s' p = sprocs s p" using assms(1) woken_wchan unfolding wk_rel_def by metis
    then show "p_wchan (sprocs s p) \<noteq> None" using p by simp
  qed
  then show ?thesis unfolding nsleep_def using sleepers_finite [OF assms(2)] by (rule card_mono [rotated])
qed

text \<open>Taking one process off its queue, and making it runnable if it was asleep.\<close>

lemma unlink_step:
  assumes "sleep_rep s Q" "\<forall>x. proc_ok s x" "Q (lookup c) = xs @ p # ys" "p_wchan (sprocs s p) = Some c" "p_stat (sprocs s p) = SSTOP"
    "t = sq_unlink (link (lookup c) xs) p c s"
  shows "sleep_rep t (Q(lookup c := xs @ ys))" "\<forall>x. proc_ok t x" "wk_rel {c} s t" "nsleep t < nsleep s"
proof -
  show "sleep_rep t (Q(lookup c := xs @ ys))" using unlink_rep [OF assms(1,3,4)] assms(6) by simp
  have f: "same_rest s t" "qs t = qs s" "sprocs t = (sprocs s)(p := (sprocs s p)\<lparr>p_wchan := None\<rparr>)"
    by (simp_all add: assms(6) unlink_same)
  show "\<forall>x. proc_ok t x"
  proof
    fix x
    show "proc_ok t x" using assms(2) [rule_format, of x] assms(5) f by (auto simp: proc_ok_def same_rest_def Let_def)
  qed
  show "wk_rel {c} s t" using f assms(4,5) by (auto simp: wk_rel_def woken_def)
  have "{x. p_wchan (sprocs t x) \<noteq> None} \<subset> {x. p_wchan (sprocs s x) \<noteq> None}" using assms(4) by (auto simp: f(3))
  then show "nsleep t < nsleep s" unfolding nsleep_def using sleepers_finite [OF assms(1)] by (rule psubset_card_mono [rotated])
qed

lemma run_step:
  assumes "sleep_rep s Q" "\<forall>x. proc_ok s x" "Q (lookup c) = xs @ p # ys" "p_wchan (sprocs s p) = Some c" "p_stat (sprocs s p) = SSLEEP"
  shows "\<exists>s1. wakeup_run p (sq_unlink (link (lookup c) xs) p c s) = Inr s1 \<and> sleep_rep s1 (Q(lookup c := xs @ ys)) \<and>
    (\<forall>x. proc_ok s1 x) \<and> wk_rel {c} s s1 \<and> nsleep s1 < nsleep s"
proof -
  let ?t = "sq_unlink (link (lookup c) xs) p c s"
  have "\<not> on_runq s p" using proc_ok_off [of s p] assms(2,5) by auto
  then have "\<not> on_runq ?t p" by (simp add: on_runq_def unlink_same)
  from wakeup_run_ok [OF this] obtain s1 r where s1: "wakeup_run p ?t = Inr s1" "same_sq ?t s1" "same_rest ?t s1"
    "made_run (sprocs ?t p) r" "sprocs s1 = (sprocs ?t)(p := r)"
    "qs s1 = (let i = p_priority (sprocs ?t p) div 4 in if P_INMEM \<in> p_flag (sprocs ?t p) then (qs ?t)(i := qs ?t i @ [p]) else qs ?t)"
    by (auto simp: unlink_same)
  have m: "made_run (sprocs s p) r" "sprocs s1 = (sprocs s)(p := r)"
    "qs s1 = (let i = p_priority (sprocs s p) div 4 in if P_INMEM \<in> p_flag (sprocs s p) then (qs s)(i := qs s i @ [p]) else qs s)"
    using s1(4-6) by (simp_all add: unlink_same made_run_def Let_def)
  have sr: "same_rest s s1" using same_rest_trans [OF unlink_same(1) s1(3)] .
  have "sleep_rep s1 (Q(lookup c := xs @ ys))"
    using sleep_rep_cong [of s1 ?t] s1(2) m(1,2) unlink_rep [OF assms(1,3,4)]
    by (auto simp: same_sq_def unlink_same made_run_def)
  moreover have "scur s \<noteq> Some p" using assms(2) [rule_format, of p] assms(4) by (auto simp: proc_ok_def Let_def)
  then have "\<forall>x. proc_ok s1 x" using made_run_ok [OF assms(2) _ _ m(1,2) _ m(3)] assms(5) sr by (simp add: same_rest_def)
  moreover have "wk_rel {c} s s1"
    using sr m assms(4,5) by (auto simp: wk_rel_def woken_def Let_def)
  moreover have "{x. p_wchan (sprocs s1 x) \<noteq> None} \<subset> {x. p_wchan (sprocs s x) \<noteq> None}"
    using assms(4) m(1,2) by (auto simp: made_run_def)
  then have "nsleep s1 < nsleep s" unfolding nsleep_def using sleepers_finite [OF assms(1)] by (rule psubset_card_mono [rotated])
  ultimately show ?thesis using s1(1) by blast
qed

lemma wk_rel_mono: "wk_rel I s s' \<Longrightarrow> I \<subseteq> J \<Longrightarrow> wk_rel J s s'"
  unfolding wk_rel_def by blast

lemma resched_irrelevant:
  "sleep_rep (s\<lparr>sresched := b\<rparr>) Q = sleep_rep s Q" "proc_ok (s\<lparr>sresched := b\<rparr>) x = proc_ok s x" "nsleep (s\<lparr>sresched := b\<rparr>) = nsleep s"
  "wk_rel I s s' \<Longrightarrow> wk_rel I s (s'\<lparr>sresched := b\<rparr>)"
  by (simp_all add: sleep_rep_def proc_ok_def nsleep_def wk_rel_def same_rest_def)

definition wakes :: "u32 \<Rightarrow> slot \<Rightarrow> ssys \<Rightarrow> bool" where
  "wakes ident q s \<longleftrightarrow> (\<exists>s' Q'. wakeup_from ident q s = Some (Inr s') \<and> sleep_rep s' Q' \<and> (\<forall>x. proc_ok s' x) \<and>
     wk_rel {ident, proc0 s} s s' \<and> (\<forall>p. p_wchan (sprocs s' p) \<noteq> Some ident))"

lemma wakes_step:
  assumes "wakeup_from ident q s = wakeup_from ident q1 s1" "wk_rel {ident, proc0 s} s s1" "wakes ident q1 s1"
  shows "wakes ident q s"
proof -
  have "proc0 s1 = proc0 s" using assms(2) by (simp add: wk_rel_def same_rest_def)
  then show ?thesis using assms(1,3) wk_rel_trans [OF assms(2)] unfolding wakes_def by metis
qed

text \<open>The process found is asleep on the channel: it runs, and the search starts again.\<close>

lemma wakes_sleeper:
  assumes "sleep_rep s Q" "\<forall>x. proc_ok s x" "Q (lookup ident) = xs @ p # ys" "p_wchan (sprocs s p) = Some ident"
    "p_stat (sprocs s p) = SSLEEP"
    "\<And>t Q c. nsleep t < nsleep s \<Longrightarrow> sleep_rep t Q \<Longrightarrow> \<forall>x. proc_ok t x \<Longrightarrow> wakes c (Sq_head (lookup c)) t"
  shows "wakes ident (link (lookup ident) xs) s"
proof -
  let ?q = "link (lookup ident) xs"
  obtain s1 where s1: "wakeup_run p (sq_unlink ?q p ident s) = Inr s1" "sleep_rep s1 (Q(lookup ident := xs @ ys))"
    "\<forall>x. proc_ok s1 x" "wk_rel {ident} s s1" "nsleep s1 < nsleep s" using run_step [OF assms(1-5)] by blast
  have off: "\<not> on_runq s p" "deref s ?q = Some p"
    using proc_ok_off [of s p] assms(2,5) deref_link [OF assms(1,3)] by auto
  have w1: "wk_rel {ident, proc0 s} s s1" using wk_rel_mono [OF s1(4)] by blast
  have eq: "wakeup_from ident ?q s = (if P_INMEM \<in> p_flag (sprocs s1 p)
      then wakeup_from ident (Sq_head (lookup ident)) (s1\<lparr>sresched := True\<rparr>)
      else Option.bind (wakeup_from (proc0 s1) (Sq_head (lookup (proc0 s1))) s1)
        (\<lambda>r. case r of Inl f \<Rightarrow> Some (Inl f) | Inr s2 \<Rightarrow> wakeup_from ident (Sq_head (lookup ident)) s2))"
    by (subst wakeup_from.simps) (simp add: off assms(4,5) s1(1))
  show ?thesis
  proof (cases "P_INMEM \<in> p_flag (sprocs s1 p)")
    case True
    let ?s1 = "s1\<lparr>sresched := True\<rparr>"
    have "wakes ident (Sq_head (lookup ident)) ?s1"
      using assms(6) [of ?s1 _ ident] s1(2,3,5) by (simp add: resched_irrelevant)
    then show ?thesis using wakes_step [OF _ resched_irrelevant(4) [OF w1]] eq True by simp
  next
    case False
    have "wakes (proc0 s1) (Sq_head (lookup (proc0 s1))) s1" using assms(6) s1(2,3,5) by blast
    then obtain s2 Q2 where s2: "wakeup_from (proc0 s1) (Sq_head (lookup (proc0 s1))) s1 = Some (Inr s2)" "sleep_rep s2 Q2"
      "\<forall>x. proc_ok s2 x" "wk_rel {proc0 s1} s1 s2" unfolding wakes_def by auto
    have "nsleep s2 < nsleep s" using wk_rel_nsleep [OF s2(4) s1(2)] s1(5) by simp
    then have w: "wakes ident (Sq_head (lookup ident)) s2" using assms(6) s2(2,3) by blast
    have "proc0 s1 = proc0 s" using w1 by (simp add: wk_rel_def same_rest_def)
    then have "wk_rel {ident, proc0 s} s s2" using wk_rel_trans [OF w1] wk_rel_mono [OF s2(4)] by simp
    then show ?thesis using wakes_step [OF _ _ w] eq False s2(1) by simp
  qed
qed

lemma wakeup_from_ok:
  assumes "sleep_rep s Q" "\<forall>x. proc_ok s x" "Q (lookup ident) = xs @ ys" "\<forall>x\<in>set xs. p_wchan (sprocs s x) \<noteq> Some ident"
  shows "wakes ident (link (lookup ident) xs) s"
  using assms
proof (induction "nsleep s" arbitrary: s Q ident xs ys rule: less_induct)
  case less
  note outer = less.hyps
  have head: "wakes c (Sq_head (lookup c)) t" if "nsleep t < nsleep s" "sleep_rep t Q" "\<forall>x. proc_ok t x" for t Q c
    using outer [OF that, of c "[]"] by (simp add: link_def)
  show ?case
    using less.prems(3,4)
  proof (induction ys arbitrary: xs)
    case Nil
    then have "wakeup_from ident (link (lookup ident) xs) s = Some (Inr s)"
      using deref_link [OF less.prems(1) Nil.prems(1)] by (subst wakeup_from.simps) simp
    moreover have "p_wchan (sprocs s p) \<noteq> Some ident" for p
      using sleep_repD(4) [OF less.prems(1), of p "lookup ident"] Nil.prems by auto
    ultimately show ?case using less.prems(1,2) wk_rel_refl unfolding wakes_def by blast
  next
    case (Cons p ys)
    let ?q = "link (lookup ident) xs"
    have d: "deref s ?q = Some p" using deref_link [OF less.prems(1) Cons.prems(1)] by simp
    have "p \<in> set (Q (lookup ident))" using Cons.prems(1) by simp
    then obtain c where c: "p_wchan (sprocs s p) = Some c" using sleep_repD(4) [OF less.prems(1)] by auto
    then have st: "p_stat (sprocs s p) = SSLEEP \<or> p_stat (sprocs s p) = SSTOP" "\<not> on_runq s p"
      using less.prems(2) [rule_format, of p] proc_ok_off [of s p] by (auto simp: proc_ok_def Let_def)
    consider (other) "c \<noteq> ident" | (asleep) "c = ident" "p_stat (sprocs s p) = SSLEEP" | (stopped) "c = ident" "p_stat (sprocs s p) = SSTOP"
      using st by blast
    then show ?case
    proof cases
      case other
      have "wakeup_from ident ?q s = wakeup_from ident (P_forw p) s"
        using d c other st by (subst wakeup_from.simps) auto
      moreover have "wakes ident (link (lookup ident) (xs @ [p])) s" by (rule Cons.IH) (use Cons.prems c other in auto)
      ultimately show ?thesis unfolding wakes_def by (simp add: link_def)
    next
      case asleep
      have pc: "p_wchan (sprocs s p) = Some ident" using c asleep(1) by simp
      show ?thesis by (rule wakes_sleeper [OF less.prems(1,2) Cons.prems(1) pc asleep(2) head])
    next
      case stopped
      let ?t = "sq_unlink ?q p ident s"
      note u = unlink_step [OF less.prems(1,2) Cons.prems(1) c [unfolded stopped(1)] stopped(2) refl]
      have "wakeup_from ident ?q s = wakeup_from ident ?q ?t" using d c stopped st by (subst wakeup_from.simps) simp
      moreover have "wakes ident ?q ?t" by (rule outer [OF u(4,1,2)]) (use Cons.prems c in \<open>auto simp: unlink_same\<close>)
      ultimately show ?thesis using wakes_step [of ident ?q s ?q ?t] wk_rel_mono [OF u(3), of "{ident, proc0 s}"] by simp
    qed
  qed
qed

section \<open>The other operations\<close>

lemma sched_okI:
  "sleep_rep s Q \<Longrightarrow> \<forall>x. proc_ok s x \<Longrightarrow> (\<And>p. scur s = Some p \<Longrightarrow> p_stat (sprocs s p) = SRUN \<and> P_INMEM \<in> p_flag (sprocs s p)) \<Longrightarrow> sched_ok s"
  unfolding sched_ok_def by blast

lemma sched_okE:
  assumes "sched_ok s"
  obtains Q where "sleep_rep s Q" "\<forall>x. proc_ok s x" "\<And>p. scur s = Some p \<Longrightarrow> p_stat (sprocs s p) = SRUN \<and> P_INMEM \<in> p_flag (sprocs s p)"
  using assms unfolding sched_ok_def by blast

lemma wakeup_queues_ok:
  assumes "sleep_rep s Q" "\<forall>x. proc_ok s x"
  shows "\<exists>s' Q'. wakeup ident s = Some (Inr s') \<and> sleep_rep s' Q' \<and> (\<forall>x. proc_ok s' x) \<and> wk_rel {ident, proc0 s} s s' \<and>
    (\<forall>p. p_wchan (sprocs s' p) \<noteq> Some ident)"
  using wakeup_from_ok [OF assms, of ident "[]"] unfolding wakes_def wakeup_def by (simp add: link_def)

text \<open>A wakeup does not touch the running process.\<close>

lemma wk_rel_cur:
  "wk_rel I s s' \<Longrightarrow> scur s' = scur s" "wk_rel I s s' \<Longrightarrow> p_wchan (sprocs s p) = None \<Longrightarrow> sprocs s' p = sprocs s p"
  "wk_rel I s s' \<Longrightarrow> scallq s' = scallq s"
  by (auto simp: wk_rel_def same_rest_def)

lemma proc_ok_wchan: "proc_ok s p \<Longrightarrow> p_stat (sprocs s p) = SRUN \<or> p_stat (sprocs s p) = SIDL \<or> p_stat (sprocs s p) = SZOMB \<Longrightarrow> p_wchan (sprocs s p) = None"
  by (auto simp: proc_ok_def Let_def)

lemma wakeup_sched:
  assumes "sched_ok s"
  shows "\<exists>s'. wakeup ident s = Some (Inr s') \<and> sched_ok s' \<and> wk_rel {ident, proc0 s} s s' \<and> (\<forall>p. p_wchan (sprocs s' p) \<noteq> Some ident)"
proof -
  obtain Q where q: "sleep_rep s Q" "\<forall>x. proc_ok s x" "\<And>p. scur s = Some p \<Longrightarrow> p_stat (sprocs s p) = SRUN \<and> P_INMEM \<in> p_flag (sprocs s p)"
    using assms by (rule sched_okE) blast
  obtain s' Q' where s': "wakeup ident s = Some (Inr s')" "sleep_rep s' Q'" "\<forall>x. proc_ok s' x" "wk_rel {ident, proc0 s} s s'"
    "\<forall>p. p_wchan (sprocs s' p) \<noteq> Some ident" using wakeup_queues_ok [OF q(1,2)] by blast
  have "p_stat (sprocs s' p) = SRUN \<and> P_INMEM \<in> p_flag (sprocs s' p)" if "scur s' = Some p" for p
    using q(3) [of p] that wk_rel_cur(1,2) [OF s'(4)] proc_ok_wchan [OF q(2) [rule_format, of p]] by auto
  then show ?thesis using s' sched_okI [OF s'(2,3)] by blast
qed

lemma procs_change:
  assumes "\<forall>x. proc_ok s x" "\<And>x. x \<noteq> p \<Longrightarrow> sprocs s' x = sprocs s x" "\<And>x. x \<noteq> p \<Longrightarrow> (scur s' = Some x) = (scur s = Some x)"
    "\<And>x i. x \<noteq> p \<Longrightarrow> count_list (qs s' i) x = count_list (qs s i) x" "proc_ok s' p"
  shows "\<forall>x. proc_ok s' x"
proof
  fix x show "proc_ok s' x" using proc_ok_other [of s' x s] assms by (cases "x = p") auto
qed

lemma proc_ok_queued:
  assumes "proc_ok s p" "count_list (qs s i) p \<noteq> 0"
  shows "p_stat (sprocs s p) = SRUN" "P_INMEM \<in> p_flag (sprocs s p)" "i = p_priority (sprocs s p) div 4" "scur s \<noteq> Some p"
    "p_wchan (sprocs s p) = None" "count_list (qs s i) p = 1"
proof -
  have "count_list (qs s i) p = (if p_stat (sprocs s p) = SRUN \<and> P_INMEM \<in> p_flag (sprocs s p) \<and> scur s \<noteq> Some p \<and>
      i = p_priority (sprocs s p) div 4 then 1 else 0)" using assms(1) by (simp add: proc_ok_def Let_def)
  then show st: "p_stat (sprocs s p) = SRUN" "P_INMEM \<in> p_flag (sprocs s p)" "i = p_priority (sprocs s p) div 4" "scur s \<noteq> Some p"
    "count_list (qs s i) p = 1" using assms(2) by presburger+
  show "p_wchan (sprocs s p) = None" using proc_ok_wchan [OF assms(1)] st(1) by simp
qed

lemma cpu_switch_ok:
  assumes "sleep_rep s Q" "\<forall>x. proc_ok (s\<lparr>scur := None\<rparr>) x"
  shows "\<exists>s'. cpu_switch s = Inr s' \<and> sched_ok s' \<and> sprocs s' = sprocs s \<and> scallq s' = scallq s \<and> proc0 s' = proc0 s"
proof (cases "find (\<lambda>i. qs s i \<noteq> []) [0..<32]")
  case None
  have "sleep_rep (s\<lparr>scur := None\<rparr>) Q" using assms(1) sleep_rep_cong [of "s\<lparr>scur := None\<rparr>" s Q] by simp
  then have "sched_ok (s\<lparr>scur := None\<rparr>)" using sched_okI [of "s\<lparr>scur := None\<rparr>" Q] assms(2) by simp
  then show ?thesis using None by (simp add: cpu_switch_def)
next
  case (Some i)
  then have "qs s i \<noteq> []" by (auto simp: find_Some_iff)
  then obtain p ps where q: "qs s i = p # ps" by (cases "qs s i") auto
  have "count_list (qs (s\<lparr>scur := None\<rparr>) i) p \<noteq> 0" using q by simp
  note n = proc_ok_queued [OF assms(2) [rule_format, of p] this]
  have p: "p_stat (sprocs s p) = SRUN" "P_INMEM \<in> p_flag (sprocs s p)" "i = p_priority (sprocs s p) div 4"
    "p_wchan (sprocs s p) = None" "count_list ps p = 0"
    using n(1-3,5,6) q by simp_all
  let ?s = "s\<lparr>qs := (qs s)(i := ps), sresched := False, scur := Some p, sruntime := snow s\<rparr>"
  have "proc_ok ?s p" using assms(2) [rule_format, of p] p q by (auto simp: proc_ok_def Let_def)
  then have "\<forall>x. proc_ok ?s x" using procs_change [OF assms(2), of p ?s] q by (auto split: if_splits)
  moreover have "sleep_rep ?s Q" using assms(1) sleep_rep_cong [of ?s s Q] by simp
  ultimately have "sched_ok ?s" using p(1,2) sched_okI [of ?s Q] by simp
  then show ?thesis using Some q p by (simp add: cpu_switch_def Let_def)
qed

lemma mi_switch_time_keeps:
  "p_stat (fst (mi_switch_time tv rt r)) = p_stat r" "p_flag (fst (mi_switch_time tv rt r)) = p_flag r" "p_wchan (fst (mi_switch_time tv rt r)) = p_wchan r"
  "p_priority (fst (mi_switch_time tv rt r)) = p_priority r" "p_usrpri (fst (mi_switch_time tv rt r)) = p_usrpri r"
  by (simp_all add: mi_switch_time_def Let_def split_beta)

lemma mi_switch_limit_keeps:
  "p_stat (fst (mi_switch_limit c x r)) = p_stat r" "p_flag (fst (mi_switch_limit c x r)) = p_flag r" "p_wchan (fst (mi_switch_limit c x r)) = p_wchan r"
  "p_priority (fst (mi_switch_limit c x r)) = p_priority r" "p_usrpri r < 128 \<Longrightarrow> p_usrpri (fst (mi_switch_limit c x r)) < 128"
proof -
  let ?p = "if x = Sig_xcpu \<and> rlim_cpu_cur r < rlim_cpu_max r then r\<lparr>rlim_cpu_cur := rlim_cpu_cur r + 5\<rparr> else r"
  let ?q = "fst (resetpriority c (?p\<lparr>p_nice := 4\<rparr>))"
  have "p_usrpri ?q < 128" by (rule le_less_trans [OF resetpriority_bound]) simp
  moreover have "?q = ?p\<lparr>p_nice := 4, p_usrpri := p_usrpri ?q\<rparr>" by (rule trans [OF resetpriority_only]) simp
  moreover have "fst (mi_switch_limit c x r) = ?q \<or> fst (mi_switch_limit c x r) = ?p" unfolding mi_switch_limit_def Let_def by auto
  ultimately show "p_stat (fst (mi_switch_limit c x r)) = p_stat r" "p_flag (fst (mi_switch_limit c x r)) = p_flag r"
    "p_wchan (fst (mi_switch_limit c x r)) = p_wchan r" "p_priority (fst (mi_switch_limit c x r)) = p_priority r"
    "p_usrpri r < 128 \<Longrightarrow> p_usrpri (fst (mi_switch_limit c x r)) < 128"
    by (smt (verit, best) proc.select_convs proc.surjective proc.update_convs)+
qed

lemma mi_switch_go_ok:
  assumes "sched_ok (s\<lparr>scur := None\<rparr>)"
  shows "\<exists>s'. mi_switch_go p x s = Inr s' \<and> sched_ok s' \<and> scallq s' = scallq s \<and> proc0 s' = proc0 s \<and> (\<forall>x. x \<noteq> p \<longrightarrow> sprocs s' x = sprocs s x) \<and>
    p_stat (sprocs s' p) = p_stat (sprocs s p) \<and> p_wchan (sprocs s' p) = p_wchan (sprocs s p) \<and> p_flag (sprocs s' p) = p_flag (sprocs s p)"
proof -
  obtain Q where q: "sleep_rep (s\<lparr>scur := None\<rparr>) Q" "\<forall>x. proc_ok (s\<lparr>scur := None\<rparr>) x" using assms by (rule sched_okE) blast
  obtain r b where a: "mi_switch_limit (scurpri s) x (sprocs s p) = (r, b)" by fastforce
  let ?s = "s\<lparr>sprocs := (sprocs s)(p := r), sresched := sresched s \<or> b\<rparr>"
  note k = mi_switch_limit_keeps [where c = "scurpri s" and x = x and r = "sprocs s p", unfolded a, simplified]
  have "sleep_rep ?s Q" using q(1) sleep_rep_cong [of ?s "s\<lparr>scur := None\<rparr>" Q] k by simp
  moreover have "proc_ok (?s\<lparr>scur := None\<rparr>) p" using q(2) [rule_format, of p] k by (auto simp: proc_ok_def Let_def)
  then have "\<forall>x. proc_ok (?s\<lparr>scur := None\<rparr>) x" by (rule procs_change [OF q(2), rotated 3]) simp_all
  ultimately obtain s' where "cpu_switch ?s = Inr s'" "sched_ok s'" "sprocs s' = sprocs ?s" "scallq s' = scallq ?s" "proc0 s' = proc0 ?s"
    using cpu_switch_ok by blast
  then show ?thesis using a k by (auto simp: mi_switch_go_def)
qed

lemma setrunnable_tail:
  assumes "\<not> on_runq t p" "p_wchan (sprocs t p) = None"
  shows "\<exists>s4. same_sq t s4 \<and> same_rest t s4 \<and> (\<exists>r. made_run (sprocs t p) r \<and> sprocs s4 = (sprocs t)(p := r)) \<and>
    qs s4 = (let i = p_priority (sprocs t p) div 4 in if P_INMEM \<in> p_flag (sprocs t p) then (qs t)(i := qs t i @ [p]) else qs t) \<and>
    setrunnable_run p t =
    (if P_INMEM \<in> p_flag (sprocs t p)
     then Some (Inr (s4\<lparr>sresched := sresched s4 \<or> p_priority (sprocs s4 p) < scurpri s4\<rparr>)) else wakeup (proc0 s4) s4)"
proof -
  define s2 where s2: "s2 = supd p (\<lambda>r. r\<lparr>p_stat := SRUN\<rparr>) t"
  define i where i: "i = p_priority (sprocs t p) div 4"
  define s3 where s3: "s3 = (if P_INMEM \<in> p_flag (sprocs t p) then s2\<lparr>qs := (qs s2)(i := qs s2 i @ [p])\<rparr> else s2)"
  obtain r b where k: "updatepri_s p s3 = s3\<lparr>sprocs := (sprocs s3)(p := r), sresched := b\<rparr>" "p_stat r = p_stat (sprocs s3 p)"
    "p_flag r = p_flag (sprocs s3 p)" "p_wchan r = p_wchan (sprocs s3 p)" "p_priority r = p_priority (sprocs s3 p)"
    "p_usrpri (sprocs s3 p) < 128 \<longrightarrow> p_usrpri r < 128" using updatepri_s_ex [of p s3] by blast
  define s4 where s4: "s4 = supd p (\<lambda>r. r\<lparr>p_slptime := 0\<rparr>) (updatepri_s p s3)"
  have p3: "sprocs s3 = (sprocs t)(p := (sprocs t p)\<lparr>p_stat := SRUN\<rparr>)" by (simp add: s3 s2)
  have e4: "s4 = s3\<lparr>sprocs := (sprocs t)(p := r\<lparr>p_slptime := 0\<rparr>), sresched := b\<rparr>" by (simp add: s4 k(1) p3 supd_def)
  then have f: "sprocs s4 = (sprocs t)(p := r\<lparr>p_slptime := 0\<rparr>)" by simp
  have m: "made_run (sprocs t p) (r\<lparr>p_slptime := 0\<rparr>)" using k(2-6) assms(2) by (simp add: made_run_def p3)
  have g: "same_sq t s4" "same_rest t s4" "qs s4 = (if P_INMEM \<in> p_flag (sprocs t p) then (qs t)(i := qs t i @ [p]) else qs t)"
    unfolding e4 by (simp_all add: same_sq_def same_rest_def s3 s2)
  have "on_runq s2 p = on_runq t p" by (simp add: on_runq_def s2)
  then have "setrunqueue p s2 = Inr (s2\<lparr>qs := (qs s2)(i := qs s2 i @ [p])\<rparr>)"
    using assms(1) by (simp add: setrunqueue_def i s2 Let_def)
  then have "(if P_INMEM \<in> p_flag (sprocs t p) then setrunqueue p s2 else Inr s2) = Inr s3" by (simp add: s3)
  moreover have "P_INMEM \<in> p_flag (sprocs s2 p) \<longleftrightarrow> P_INMEM \<in> p_flag (sprocs t p)" by (simp add: s2)
  ultimately have "setrunnable_run p t = (if P_INMEM \<in> p_flag (sprocs t p)
     then Some (Inr (s4\<lparr>sresched := sresched s4 \<or> p_priority (sprocs s4 p) < scurpri s4\<rparr>)) else wakeup (proc0 s4) s4)"
    unfolding setrunnable_run_def s2 [symmetric] Let_def sthen_def s4 by (simp split del: if_split) simp
  then show ?thesis using f m g by (intro exI [of _ s4] conjI) (auto simp: Let_def i)
qed

lemma unsleep_ok:
  assumes "sleep_rep s Q" "\<forall>x. proc_ok s x"
  shows "\<exists>t Q'. unsleep p s = Some (Inr t) \<and> sleep_rep t Q' \<and> same_rest s t \<and> qs t = qs s \<and>
    sprocs t = (sprocs s)(p := (sprocs s p)\<lparr>p_wchan := None\<rparr>)"
proof -
  obtain t Q' where t: "unsleep p s = Some (Inr t)" "sleep_rep t Q'" "if p_wchan (sprocs s p) = None then t = s
     else \<exists>q c. p_wchan (sprocs s p) = Some c \<and> t = sq_unlink q p c s" using unsleep_rep [OF assms(1)] by blast
  have "(sprocs s p)\<lparr>p_wchan := None\<rparr> = sprocs s p" if "p_wchan (sprocs s p) = None" using that by simp
  then have "same_rest s t \<and> qs t = qs s \<and> sprocs t = (sprocs s)(p := (sprocs s p)\<lparr>p_wchan := None\<rparr>)"
    using t(3) unlink_same by (cases "p_wchan (sprocs s p)") (auto simp: same_rest_def)
  then show ?thesis using t by blast
qed

text \<open>Making \<open>p\<close> runnable touches no other process, except those that wait for the swapper to be woken.\<close>

definition spares :: "nat \<Rightarrow> ssys \<Rightarrow> ssys \<Rightarrow> bool" where
  "spares p s s' \<longleftrightarrow> proc0 s' = proc0 s \<and> scur s' = scur s \<and> scallq s' = scallq s \<and> snow s' = snow s \<and> sruntime s' = sruntime s \<and>
     (\<forall>y. y \<noteq> p \<longrightarrow> p_wchan (sprocs s y) \<noteq> Some (proc0 s) \<longrightarrow> sprocs s' y = sprocs s y) \<and>
     (\<forall>y. y \<noteq> p \<longrightarrow> sprocs s' y = sprocs s y \<or> woken (sprocs s y) (sprocs s' y))"

lemma setrunnable_ok:
  assumes "sched_ok s" "p_stat (sprocs s p) = SSTOP \<or> p_stat (sprocs s p) = SSLEEP \<or> p_stat (sprocs s p) = SIDL"
  shows "\<exists>s'. setrunnable p s = Some (Inr s') \<and> sched_ok s' \<and> made_run (sprocs s p) (sprocs s' p) \<and> spares p s s'"
proof -
  obtain Q where q: "sleep_rep s Q" "\<forall>x. proc_ok s x" "\<And>p. scur s = Some p \<Longrightarrow> p_stat (sprocs s p) = SRUN \<and> P_INMEM \<in> p_flag (sprocs s p)"
    using assms(1) by (rule sched_okE) blast
  have nc: "scur s \<noteq> Some p" "p_stat (sprocs s p) \<noteq> SRUN" using q(3) [of p] assms(2) by auto
  obtain t Q' where t: "unsleep p s = Some (Inr t)" "sleep_rep t Q'" "same_rest s t" "qs t = qs s"
    "sprocs t = (sprocs s)(p := (sprocs s p)\<lparr>p_wchan := None\<rparr>)" using unsleep_ok [OF q(1,2)] by blast
  have idl: "unsleep p s = Some (Inr s)" if "p_stat (sprocs s p) = SIDL"
    using proc_ok_wchan [OF q(2) [rule_format, of p]] that by (simp add: unsleep_def)
  have first: "setrunnable p s = setrunnable_run p t"
    using assms(2) t(1) idl by (auto simp: setrunnable_def sthen_def)
  have "on_runq t p = on_runq s p" using t(4) by (simp add: on_runq_def)
  then have "\<not> on_runq t p" "p_wchan (sprocs t p) = None" using proc_ok_off [of s p] q(2) nc(2) t(5) by auto
  from setrunnable_tail [OF this] obtain s4 r where s4: "same_sq t s4" "same_rest t s4" "made_run (sprocs t p) r"
    "sprocs s4 = (sprocs t)(p := r)"
    "qs s4 = (let i = p_priority (sprocs t p) div 4 in if P_INMEM \<in> p_flag (sprocs t p) then (qs t)(i := qs t i @ [p]) else qs t)"
    "setrunnable_run p t = (if P_INMEM \<in> p_flag (sprocs t p)
     then Some (Inr (s4\<lparr>sresched := sresched s4 \<or> p_priority (sprocs s4 p) < scurpri s4\<rparr>)) else wakeup (proc0 s4) s4)" by blast
  have m: "made_run (sprocs s p) r" "sprocs s4 = (sprocs s)(p := r)"
    "qs s4 = (let i = p_priority (sprocs s p) div 4 in if P_INMEM \<in> p_flag (sprocs s p) then (qs s)(i := qs s i @ [p]) else qs s)"
    "scur s4 = scur s" "scallq s4 = scallq s" "proc0 s4 = proc0 s" "snow s4 = snow s" "sruntime s4 = sruntime s"
    using s4(2-5) t(3-5) by (simp_all add: made_run_def same_rest_def Let_def)
  have "p_wchan (sprocs s4 x) = p_wchan (sprocs t x)" for x using m(1,2) t(5) by (simp add: made_run_def)
  then have "sleep_rep s4 Q'" using sleep_rep_cong [of s4 t Q'] s4(1) t(2) by (simp add: same_sq_def)
  moreover have "\<forall>x. proc_ok s4 x" using made_run_ok [OF q(2) nc(2,1) m(1,2) m(4) m(3)] .
  moreover have "p_stat (sprocs s4 x) = SRUN \<and> P_INMEM \<in> p_flag (sprocs s4 x)" if "scur s4 = Some x" for x
    using q(3) [of x] nc that m(2,4) by auto
  ultimately have ok: "sched_ok s4" by (rule sched_okI)
  show ?thesis
  proof (cases "P_INMEM \<in> p_flag (sprocs t p)")
    case True
    then have "setrunnable p s = Some (Inr (s4\<lparr>sresched := sresched s4 \<or> p_priority (sprocs s4 p) < scurpri s4\<rparr>))"
      using first s4(6) by simp
    then show ?thesis using ok m by (auto simp: sched_ok_def resched_irrelevant spares_def)
  next
    case False
    obtain s' where s': "wakeup (proc0 s4) s4 = Some (Inr s')" "sched_ok s'" "wk_rel {proc0 s4, proc0 s4} s4 s'"
      using wakeup_sched [OF ok] by blast
    have "sprocs s' p = r" using wk_rel_cur(2) [OF s'(3), of p] m(1,2) by (simp add: made_run_def)
    moreover have "sprocs s' y = sprocs s y" if "y \<noteq> p" "p_wchan (sprocs s y) \<noteq> Some (proc0 s)" for y
    proof -
      have "sprocs s4 y = sprocs s y" using that(1) m(2) by simp
      then show ?thesis using s'(3) that(2) m(6) unfolding wk_rel_def by (metis option.sel singletonD insertE)
    qed
    moreover have "sprocs s' y = sprocs s y \<or> woken (sprocs s y) (sprocs s' y)" if "y \<noteq> p" for y
    proof -
      have "sprocs s4 y = sprocs s y" using that m(2) by simp
      then show ?thesis using s'(3) unfolding wk_rel_def by metis
    qed
    moreover have "proc0 s' = proc0 s" "snow s' = snow s" "sruntime s' = sruntime s" using s'(3) m(6-8) by (simp_all add: wk_rel_def same_rest_def)
    ultimately show ?thesis using first s4(6) False s' m wk_rel_cur [OF s'(3)] by (auto simp: spares_def)
  qed
qed

text \<open>Changes of fields that the queues do not depend on.\<close>

lemma sched_supd:
  assumes "sched_ok s" "p_stat (f (sprocs s p)) = p_stat (sprocs s p)" "p_wchan (f (sprocs s p)) = p_wchan (sprocs s p)"
    "p_priority (f (sprocs s p)) = p_priority (sprocs s p)" "p_usrpri (f (sprocs s p)) < 128"
    "P_INMEM \<in> p_flag (f (sprocs s p)) \<longleftrightarrow> P_INMEM \<in> p_flag (sprocs s p)"
  shows "sched_ok (supd p f s)"
proof -
  obtain Q where q: "sleep_rep s Q" "\<forall>x. proc_ok s x" "\<And>p. scur s = Some p \<Longrightarrow> p_stat (sprocs s p) = SRUN \<and> P_INMEM \<in> p_flag (sprocs s p)"
    using assms(1) by (rule sched_okE) blast
  have "proc_ok (supd p f s) p" using q(2) [rule_format, of p] assms(2-6) by (simp add: proc_ok_def Let_def)
  then have "\<forall>x. proc_ok (supd p f s) x" by (rule procs_change [OF q(2), rotated 3]) simp_all
  moreover have "sleep_rep (supd p f s) Q" using q(1) sleep_rep_cong [of "supd p f s" s Q] assms(3) by simp
  ultimately show ?thesis by (intro sched_okI) (use q(3) assms(2,6) in auto)
qed

lemma sched_usrpri: "sched_ok s \<Longrightarrow> p_usrpri (sprocs s p) < 128 \<and> p_priority (sprocs s p) < 128"
  by (auto simp: sched_ok_def proc_ok_def Let_def)

lemma sched_waits: "sched_ok s \<Longrightarrow> p_wchan (sprocs s p) \<noteq> None \<Longrightarrow> (p_stat (sprocs s p) = SSLEEP \<or> p_stat (sprocs s p) = SSTOP) \<and> scur s \<noteq> Some p"
  by (auto simp: sched_ok_def proc_ok_def Let_def)

text \<open>\<open>unsleep\<close> of a stopped process.\<close>

lemma unsleep_stopped:
  assumes "sched_ok s" "p_stat (sprocs s p) = SSTOP"
  shows "\<exists>t. unsleep p s = Some (Inr t) \<and> sched_ok t \<and> same_rest s t \<and> sprocs t = (sprocs s)(p := (sprocs s p)\<lparr>p_wchan := None\<rparr>)"
proof -
  obtain Q where q: "sleep_rep s Q" "\<forall>x. proc_ok s x" "\<And>p. scur s = Some p \<Longrightarrow> p_stat (sprocs s p) = SRUN \<and> P_INMEM \<in> p_flag (sprocs s p)"
    using assms(1) by (rule sched_okE) blast
  obtain t Q' where t: "unsleep p s = Some (Inr t)" "sleep_rep t Q'" "same_rest s t" "qs t = qs s"
    "sprocs t = (sprocs s)(p := (sprocs s p)\<lparr>p_wchan := None\<rparr>)" using unsleep_ok [OF q(1,2)] by blast
  have cur: "scur t = scur s" using t(3) by (simp add: same_rest_def)
  have "proc_ok t p" using q(2) [rule_format, of p] assms(2) t(4,5) cur by (simp add: proc_ok_def Let_def)
  then have "\<forall>x. proc_ok t x" by (rule procs_change [OF q(2), rotated 3]) (simp_all add: t(4,5) cur)
  then have "sched_ok t" by (intro sched_okI [OF t(2)]) (use q(3) cur t(5) assms(2) in auto)
  then show ?thesis using t by blast
qed

lemma endtsleep_ok:
  assumes "sched_ok s"
  shows "\<exists>s'. endtsleep p s = Some (Inr s') \<and> sched_ok s' \<and> spares p s s' \<and>
    (if p_wchan (sprocs s p) = None then s' = s
     else P_TIMEOUT \<in> p_flag (sprocs s' p) \<and> p_wchan (sprocs s' p) = None \<and>
       p_stat (sprocs s' p) = (if p_stat (sprocs s p) = SSLEEP then SRUN else SSTOP)) \<and>
    (\<forall>f. f \<noteq> P_TIMEOUT \<longrightarrow> (f \<in> p_flag (sprocs s' p) \<longleftrightarrow> f \<in> p_flag (sprocs s p)))"
proof (cases "p_wchan (sprocs s p) = None")
  case True
  then show ?thesis using assms by (simp add: endtsleep_def spares_def)
next
  case False
  let ?f = "\<lambda>r. r\<lparr>p_flag := insert P_TIMEOUT (p_flag r)\<rparr>"
  have ok: "sched_ok (supd p ?f t)" if "sched_ok t" for t using sched_supd [OF that, of ?f p] sched_usrpri [OF that] by simp
  show ?thesis
  proof (cases "p_stat (sprocs s p) = SSLEEP")
    case True
    then obtain s' where "setrunnable p s = Some (Inr s')" "sched_ok s'" "made_run (sprocs s p) (sprocs s' p)" "spares p s s'"
      using setrunnable_ok [OF assms] by blast
    then show ?thesis using False True ok by (auto simp: endtsleep_def sthen_def made_run_def spares_def)
  next
    case no: False
    then have st: "p_stat (sprocs s p) = SSTOP" using sched_waits [OF assms False] by simp
    from unsleep_stopped [OF assms this] obtain t where t: "unsleep p s = Some (Inr t)" "sched_ok t" "same_rest s t"
      "sprocs t = (sprocs s)(p := (sprocs s p)\<lparr>p_wchan := None\<rparr>)" by blast
    then show ?thesis using False no st ok by (auto simp: endtsleep_def sthen_def same_rest_def spares_def)
  qed
qed

end
