(* ===== verification/Pid.thy ===== *)
theory Pid
  imports Prelude
begin

text \<open>
  The choice of a process number in \<open>fork1\<close> of \<^verbatim>\<open>kern/kern_fork.c\<close>. The kernel keeps a range of numbers that it knows to be
  unused, from \<^verbatim>\<open>nextpid + 1\<close> to \<^verbatim>\<open>pidchecked - 1\<close>, and scans all processes, zombies included, when the range is used up. The
  process table is seen as the list of the numbers of the processes and of their groups.
\<close>

section \<open>The search\<close>

abbreviation PID_MAX :: int where "PID_MAX \<equiv> 30000"

text \<open>The \<^verbatim>\<open>while\<close> loop for one process: \<open>Inl\<close> is the jump to \<^verbatim>\<open>retry\<close>.\<close>

function pid_skip :: "int \<Rightarrow> int \<Rightarrow> int \<Rightarrow> int \<Rightarrow> int + int" where
  "pid_skip a b nextpid pidchecked =
     (if a = nextpid \<or> b = nextpid
      then if pidchecked \<le> nextpid + 1 then Inl (nextpid + 1) else pid_skip a b (nextpid + 1) pidchecked
      else Inr nextpid)"
  by pat_completeness auto
termination
  by (relation "measure (\<lambda>(a, b, n, c). nat (max a b + 1 - n))") (auto simp: max_def)

declare pid_skip.simps [simp del]

text \<open>The scan of the two process lists, one after the other.\<close>

fun pid_scan :: "(int \<times> int) list \<Rightarrow> int \<Rightarrow> int \<Rightarrow> int \<times> int + int \<times> int" where
  "pid_scan [] nextpid pidchecked = Inr (nextpid, pidchecked)"
| "pid_scan ((a, b) # ids) nextpid pidchecked =
     (case pid_skip a b nextpid pidchecked of
        Inl n \<Rightarrow> Inl (n, pidchecked)
      | Inr n \<Rightarrow>
          let c = (if n < a \<and> a < pidchecked then a else pidchecked) in
          pid_scan ids n (if n < b \<and> b < c then b else c))"

text \<open>From the label \<^verbatim>\<open>retry\<close> on; the search does not end when every number is in use.\<close>

partial_function (option) pid_find :: "(int \<times> int) list \<Rightarrow> int \<Rightarrow> int \<Rightarrow> (int \<times> int) option" where
  "pid_find ids nextpid pidchecked =
     (let n = (if PID_MAX \<le> nextpid then 100 else nextpid); c = (if PID_MAX \<le> nextpid then 0 else pidchecked) in
      if c \<le> n
      then (case pid_scan ids n PID_MAX of Inl (n', c') \<Rightarrow> pid_find ids n' c' | Inr r \<Rightarrow> Some r)
      else Some (n, c))"

declare pid_find.simps [code]

section \<open>The numbers in use\<close>

definition used :: "(int \<times> int) list \<Rightarrow> int set" where
  "used ids = fst ` set ids \<union> snd ` set ids"

definition none_used :: "(int \<times> int) list \<Rightarrow> int \<Rightarrow> int \<Rightarrow> bool" where
  "none_used ids n c \<longleftrightarrow> (\<forall>x\<in>used ids. \<not> (n \<le> x \<and> x < c))"

lemma used_simps [simp]: "used [] = {}" "used ((a, b) # ids) = insert a (insert b (used ids))" "used (xs @ ys) = used xs \<union> used ys"
  by (auto simp: used_def)

lemma pid_skip_spec:
  "n < c \<Longrightarrow>
     (case pid_skip a b n c of
        Inl m \<Rightarrow> n < m \<and> m = c \<and> (\<forall>x. n \<le> x \<and> x < m \<longrightarrow> x = a \<or> x = b)
      | Inr m \<Rightarrow> n \<le> m \<and> m < c \<and> m \<noteq> a \<and> m \<noteq> b \<and> (\<forall>x. n \<le> x \<and> x < m \<longrightarrow> x = a \<or> x = b))"
proof (induction a b n c rule: pid_skip.induct)
  case (1 a b n c)
  show ?case
  proof (cases "(a = n \<or> b = n) \<and> \<not> c \<le> n + 1")
    case True
    then have "case pid_skip a b (n + 1) c of
        Inl m \<Rightarrow> n + 1 < m \<and> m = c \<and> (\<forall>x. n + 1 \<le> x \<and> x < m \<longrightarrow> x = a \<or> x = b)
      | Inr m \<Rightarrow> n + 1 \<le> m \<and> m < c \<and> m \<noteq> a \<and> m \<noteq> b \<and> (\<forall>x. n + 1 \<le> x \<and> x < m \<longrightarrow> x = a \<or> x = b)" using 1 by simp
    moreover have "n \<le> x \<longleftrightarrow> x = n \<or> n + 1 \<le> x" for x by auto
    ultimately show ?thesis using True by (subst pid_skip.simps) (auto split: sum.splits)
  next
    case False
    then show ?thesis using 1(2) by (subst pid_skip.simps) (auto simp: le_less)
  qed
qed

lemma pid_scan_spec:
  assumes "n < c" "none_used ids0 n c"
  shows "case pid_scan ids n c of
      Inl (m, d) \<Rightarrow> n < m \<and> d \<le> m \<and> m \<le> c \<and> (\<forall>x. n \<le> x \<and> x < m \<longrightarrow> x \<in> used ids)
    | Inr (m, d) \<Rightarrow> n \<le> m \<and> m < d \<and> d \<le> c \<and> none_used (ids0 @ ids) m d"
  using assms
proof (induction ids arbitrary: n c ids0)
  case (Cons i ids)
  obtain a b where i: "i = (a, b)" by (cases i)
  note sk = pid_skip_spec [OF Cons.prems(1), of a b]
  show ?case
  proof (cases "pid_skip a b n c")
    case (Inl m)
    then show ?thesis using sk i by auto
  next
    case (Inr m)
    let ?c1 = "if m < a \<and> a < c then a else c"
    let ?c = "if m < b \<and> b < ?c1 then b else ?c1"
    have m: "n \<le> m" "m < ?c" "?c \<le> c" "m \<noteq> a" "m \<noteq> b" "\<forall>x. n \<le> x \<and> x < m \<longrightarrow> x = a \<or> x = b" using sk Inr by auto
    have "none_used (ids0 @ [(a, b)]) m ?c" using Cons.prems(2) m by (auto simp: none_used_def)
    from Cons.IH [OF m(2) this] have ih: "case pid_scan ids m ?c of
        Inl (k, d) \<Rightarrow> m < k \<and> d \<le> k \<and> k \<le> ?c \<and> (\<forall>x. m \<le> x \<and> x < k \<longrightarrow> x \<in> used ids)
      | Inr (k, d) \<Rightarrow> m \<le> k \<and> k < d \<and> d \<le> ?c \<and> none_used ((ids0 @ [(a, b)]) @ ids) k d" .
    have "pid_scan (i # ids) n c = pid_scan ids m ?c" using Inr i by (simp add: Let_def)
    moreover have "x \<in> used (i # ids)" if "n \<le> x \<and> x < k" "\<forall>x. m \<le> x \<and> x < k \<longrightarrow> x \<in> used ids" for x k
      using that m(6) i by (cases "x < m") auto
    moreover have "none_used (ids0 @ i # ids) k d" if "none_used ((ids0 @ [(a, b)]) @ ids) k d" for k d
      using that by (simp add: i)
    ultimately show ?thesis using ih m(1) order_trans [OF _ m(3)] by (cases "pid_scan ids m ?c") fastforce+
  qed
qed simp

text \<open>The search ends with an unused number, whenever there is one from 100 on; it also finds a new unused range behind it.\<close>

definition finds :: "(int \<times> int) list \<Rightarrow> int \<Rightarrow> int \<Rightarrow> bool" where
  "finds ids n c \<longleftrightarrow> (\<exists>m d. pid_find ids n c = Some (m, d) \<and> none_used ids m d \<and> m < d \<and> d \<le> PID_MAX \<and> min n 100 \<le> m)"

lemma finds_scan:
  assumes "n < PID_MAX" "c \<le> n"
    "\<And>m d. pid_scan ids n PID_MAX = Inl (m, d) \<Longrightarrow> n < m \<Longrightarrow> d \<le> m \<Longrightarrow> m \<le> PID_MAX \<Longrightarrow> (\<forall>x. n \<le> x \<and> x < m \<longrightarrow> x \<in> used ids) \<Longrightarrow> finds ids m d"
  shows "finds ids n c"
proof -
  have sp: "case pid_scan ids n PID_MAX of
      Inl (m, d) \<Rightarrow> n < m \<and> d \<le> m \<and> m \<le> PID_MAX \<and> (\<forall>x. n \<le> x \<and> x < m \<longrightarrow> x \<in> used ids)
    | Inr (m, d) \<Rightarrow> n \<le> m \<and> m < d \<and> d \<le> PID_MAX \<and> none_used ids m d"
    using pid_scan_spec [OF assms(1), of "[]" ids, unfolded append_Nil] by (simp only: none_used_def used_simps ball_empty)
  have eq: "pid_find ids n c = (case pid_scan ids n PID_MAX of Inl (n', c') \<Rightarrow> pid_find ids n' c' | Inr r \<Rightarrow> Some r)"
    using assms(1,2) by (subst pid_find.simps) simp
  show ?thesis
  proof (cases "pid_scan ids n PID_MAX")
    case (Inl r)
    then obtain m d where r: "pid_scan ids n PID_MAX = Inl (m, d)" by (cases r) auto
    then have "finds ids m d" "n < m" using assms(3) sp by auto
    then show ?thesis using eq r unfolding finds_def by auto
  next
    case (Inr r)
    then show ?thesis using eq sp unfolding finds_def by (cases r) auto
  qed
qed

lemma finds_upto:
  assumes "n \<le> f" "f < PID_MAX" "f \<notin> used ids" "c \<le> n"
  shows "finds ids n c"
  using assms
proof (induction "nat (f - n)" arbitrary: n c rule: less_induct)
  case less
  show ?case
  proof (rule finds_scan)
    fix m d
    assume m: "n < m" "d \<le> m" "\<forall>x. n \<le> x \<and> x < m \<longrightarrow> x \<in> used ids"
    have "m \<le> f" using m(3) less.prems(1,3) by (meson not_le)
    then show "finds ids m d" using less.hyps [of m d] m less.prems by simp
  qed (use less.prems in auto)
qed

lemma finds_wrap:
  assumes "100 \<le> f" "f < PID_MAX" "f \<notin> used ids" "PID_MAX \<le> n"
  shows "finds ids n c"
proof -
  have "pid_find ids n c = pid_find ids 100 0" using assms(4) by (subst (1 2) pid_find.simps) simp
  then show ?thesis using finds_upto [OF assms(1-3), of 0] assms(4) unfolding finds_def by auto
qed

lemma pid_find_finds:
  assumes "100 \<le> f" "f < PID_MAX" "f \<notin> used ids" "none_used ids n c" "c \<le> PID_MAX"
  shows "finds ids n c"
  using assms(4,5)
proof (induction "nat (PID_MAX - n)" arbitrary: n c rule: less_induct)
  case less
  show ?case
  proof (cases "PID_MAX \<le> n")
    case True
    then show ?thesis using finds_wrap assms(1-3) by blast
  next
    case False
    show ?thesis
    proof (cases "c \<le> n")
      case True
      show ?thesis
      proof (rule finds_scan [OF _ True])
        fix m d
        assume m: "n < m" "d \<le> m" "m \<le> PID_MAX"
        have "none_used ids m d" using m(2) by (auto simp: none_used_def)
        then show "finds ids m d" using less.hyps [of m d] m False by simp
      qed (use False in simp)
    next
      case c: False
      then have "pid_find ids n c = Some (n, c)" using False by (subst pid_find.simps) simp
      then show ?thesis using less.prems c unfolding finds_def by auto
    qed
  qed
qed

text \<open>There is an unused number when there are few processes.\<close>

lemma some_unused:
  assumes "2 * length ids < 29900"
  shows "\<exists>f. 100 \<le> f \<and> f < PID_MAX \<and> f \<notin> used ids"
proof (rule ccontr)
  assume "\<not> (\<exists>f. 100 \<le> f \<and> f < PID_MAX \<and> f \<notin> used ids)"
  then have "{100..<30000} \<subseteq> used ids" by auto
  then have "card {100..<30000 :: int} \<le> card (used ids)" by (rule card_mono [rotated]) (simp add: used_def)
  moreover have "card (used ids) \<le> length ids + length ids" unfolding used_def
    by (rule le_trans [OF card_Un_le add_mono]) (metis card_image_le card_length finite_set le_trans)+
  ultimately show False using assms by simp
qed

section \<open>Properties\<close>

text \<open>C28. \<open>fork1\<close> never gives a new process a number that a process, a zombie or a process group has: with fewer than 14950
  processes the search ends, the number it finds is unused and below \<^verbatim>\<open>PID_MAX\<close>, and the range up to the new \<^verbatim>\<open>pidchecked\<close> stays
  unused when the new process is entered in a group that exists.\<close>

theorem fork_pid_fresh:
  assumes "none_used ids (nextpid + 1) pidchecked" "pidchecked \<le> PID_MAX" "0 \<le> nextpid" "2 * length ids < 29900"
  shows "\<exists>n c. pid_find ids (nextpid + 1) pidchecked = Some (n, c) \<and> n \<notin> used ids \<and> 0 < n \<and> n < PID_MAX \<and> c \<le> PID_MAX \<and>
    (\<forall>g\<in>used ids. none_used ((n, g) # ids) (n + 1) c)"
proof -
  obtain f where "100 \<le> f" "f < PID_MAX" "f \<notin> used ids" using some_unused [OF assms(4)] by blast
  from pid_find_finds [OF this assms(1,2)] obtain n c where n: "pid_find ids (nextpid + 1) pidchecked = Some (n, c)"
    "none_used ids n c" "n < c" "c \<le> PID_MAX" "min (nextpid + 1) 100 \<le> n" unfolding finds_def by blast
  then have "n \<notin> used ids" by (auto simp: none_used_def)
  moreover have "none_used ((n, g) # ids) (n + 1) c" if "g \<in> used ids" for g using n(2) that by (auto simp: none_used_def)
  ultimately show ?thesis using n assms(3) by (intro exI [of _ n] exI [of _ c]) auto
qed

theorem fork_pid_fresh_witness:
  "\<exists>n c. pid_find [(0, 0), (1, 1), (29999, 29999), (100, 100), (102, 100)] 30000 30000 = Some (n, c) \<and>
     n \<notin> {0, 1, 29999, 100, 102} \<and> n < PID_MAX"
proof -
  define ids :: "(int \<times> int) list" where ids: "ids = [(0, 0), (1, 1), (29999, 29999), (100, 100), (102, 100)]"
  have u: "used ids = {0, 1, 29999, 100, 102}" by (auto simp: ids)
  have "none_used ids (29999 + 1) 30000" unfolding none_used_def u by simp
  from fork_pid_fresh [OF this] show ?thesis unfolding u ids [symmetric] by (auto simp: ids)
qed

end
