(* ===== verification/Pgrp.thy ===== *)
theory Pgrp
  imports Proc Pid "HOL-Library.Monad_Syntax"
begin

text \<open>
  The tree of processes, process groups and sessions: \<^verbatim>\<open>kern/kern_proc.c\<close> (\<open>enterpgrp\<close>, \<open>leavepgrp\<close>, \<open>pgdelete\<close>, \<open>fixjobc\<close>,
  \<open>orphanpg\<close>, \<open>inferior\<close>, \<open>pfind\<close>, \<open>pgfind\<close>, \<open>chgproccnt\<close>), the system calls \<open>setsid\<close> and \<open>setpgid\<close> of \<^verbatim>\<open>kern/kern_prot.c\<close>, and
  the parts of \<open>fork1\<close>, \<open>exit1\<close> and \<open>wait1\<close> that change the tree, with the calls that give a session its terminal. The main fact is that the counters \<^verbatim>\<open>pg_jobc\<close>, which the code
  adjusts step by step, always are the number of processes that qualify their group for job control.
\<close>

section \<open>State\<close>

text \<open>
  Structures are known by their addresses. A list headed by a structure (\<^verbatim>\<open>p_children\<close>, \<^verbatim>\<open>pg_members\<close>) is kept as the list of
  addresses; the hash tables are lists of all their entries, since a search looks at the entries of one chain in order and
  numbers are unique. \<open>pp_pptr\<close> is \<open>None\<close> for process 0 only.
\<close>

record pproc =
  pp_pid :: int
  pp_pptr :: "nat option"
  pp_pgrp :: nat
  pp_stat :: pstat
  pp_children :: "nat list"
  pp_flag :: "pflag set"
  pp_ruid :: nat
  pp_oppid :: int
  pp_xstat :: int

record pgrp_s =
  pg_id :: int
  pg_session :: nat
  pg_jobc :: int
  pg_members :: "nat list"

record session_s =
  s_count :: int
  s_leader :: "nat option"
  s_ttyvp :: bool
  s_ttyp :: "nat option"
  s_login :: string

datatype pev = Psignal nat nat | Wakeup nat

text \<open>
  \<open>pevs\<close> are the calls of \<open>psignal\<close> and \<open>wakeup\<close>, in order; \<open>t_pgrp\<close> and \<open>t_session\<close> are the foreground group and the session of
  a terminal.
\<close>

record pgsys =
  pprocs :: "nat \<rightharpoonup> pproc"
  pgrps :: "nat \<rightharpoonup> pgrp_s"
  sessions :: "nat \<rightharpoonup> session_s"
  t_pgrp :: "nat \<Rightarrow> nat option"
  t_session :: "nat \<Rightarrow> nat option"
  pidhash :: "nat list"
  pgrphash :: "nat list"
  allproc :: "nat list"
  zombproc :: "nat list"
  uidcnt :: "nat \<rightharpoonup> int"
  pcurproc :: nat
  initproc :: nat
  nprocs :: int
  nextpid :: int
  pidchecked :: int
  pevs :: "pev list"

text \<open>In the operations \<open>None\<close> is a panic of the kernel or an access through a bad pointer.\<close>

definition upd_proc :: "nat \<Rightarrow> (pproc \<Rightarrow> pproc) \<Rightarrow> pgsys \<Rightarrow> pgsys" where
  [kern_defs]: "upd_proc p f s = s\<lparr>pprocs := (pprocs s)(p := map_option f (pprocs s p))\<rparr>"

definition upd_pgrp :: "nat \<Rightarrow> (pgrp_s \<Rightarrow> pgrp_s) \<Rightarrow> pgsys \<Rightarrow> pgsys" where
  [kern_defs]: "upd_pgrp g f s = s\<lparr>pgrps := (pgrps s)(g := map_option f (pgrps s g))\<rparr>"

section \<open>Looking up\<close>

definition pfind :: "pgsys \<Rightarrow> int \<Rightarrow> nat option" where
  [kern_defs]: "pfind s pid = find (\<lambda>p. map_option pp_pid (pprocs s p) = Some pid) (pidhash s)"

definition pgfind :: "pgsys \<Rightarrow> int \<Rightarrow> nat option" where
  [kern_defs]: "pgfind s pgid = find (\<lambda>g. map_option pg_id (pgrps s g) = Some pgid) (pgrphash s)"

text \<open>\<open>inferior\<close> goes up from \<open>p\<close>; it does not end in a cycle of parents.\<close>

partial_function (option) inferior :: "pgsys \<Rightarrow> nat \<Rightarrow> bool option" where
  "inferior s p =
     (if p = pcurproc s then Some True
      else Option.bind (pprocs s p) (\<lambda>r. if pp_pid r = 0 then Some False else Option.bind (pp_pptr r) (inferior s)))"

declare inferior.simps [code]

definition session_of :: "pgsys \<Rightarrow> nat \<Rightarrow> nat option" where
  [kern_defs]: "session_of s p = do { r \<leftarrow> pprocs s p; g \<leftarrow> pgrps s (pp_pgrp r); Some (pg_session g) }"

definition sess_leader :: "pgsys \<Rightarrow> nat \<Rightarrow> bool option" where
  [kern_defs]: "sess_leader s p = do { e \<leftarrow> session_of s p; E \<leftarrow> sessions s e; Some (s_leader E = Some p) }"

section \<open>Process counts of users\<close>

definition chgproccnt :: "nat \<Rightarrow> int \<Rightarrow> pgsys \<Rightarrow> (int \<times> pgsys) option" where
  [kern_defs]: "chgproccnt uid diff s =
     (case uidcnt s uid of
        Some n \<Rightarrow>
          if 0 < n + diff then Some (n + diff, s\<lparr>uidcnt := (uidcnt s)(uid \<mapsto> n + diff)\<rparr>)
          else if n + diff < 0 then None
          else Some (0, s\<lparr>uidcnt := (uidcnt s)(uid := None)\<rparr>)
      | None \<Rightarrow>
          if diff = 0 then Some (0, s) else if diff < 0 then None
          else Some (diff, s\<lparr>uidcnt := (uidcnt s)(uid \<mapsto> diff)\<rparr>))"

section \<open>Job control counters\<close>

text \<open>\<open>orphanpg\<close>: when a member is stopped all are sent \<^verbatim>\<open>SIGHUP\<close> and \<^verbatim>\<open>SIGCONT\<close>.\<close>

definition orphanpg :: "nat \<Rightarrow> pgsys \<Rightarrow> pgsys option" where
  [kern_defs]: "orphanpg g s = do {
     G \<leftarrow> pgrps s g;
     sts \<leftarrow> those (map (\<lambda>p. map_option pp_stat (pprocs s p)) (pg_members G));
     Some (if SSTOP \<in> set sts then s\<lparr>pevs := pevs s @ concat (map (\<lambda>p. [Psignal p SIGHUP, Psignal p SIGCONT]) (pg_members G))\<rparr> else s) }"

definition adjust :: "bool \<Rightarrow> nat \<Rightarrow> pgsys \<Rightarrow> pgsys option" where
  [kern_defs]: "adjust entering h s = do {
     H \<leftarrow> pgrps s h;
     let n = pg_jobc H + (if entering then 1 else - 1);
     let s1 = upd_pgrp h (\<lambda>H. H\<lparr>pg_jobc := n\<rparr>) s;
     if \<not> entering \<and> n = 0 then orphanpg h s1 else Some s1 }"

fun fix_children :: "nat list \<Rightarrow> nat \<Rightarrow> nat \<Rightarrow> bool \<Rightarrow> pgsys \<Rightarrow> pgsys option" where
  "fix_children [] g mysession entering s = Some s"
| "fix_children (c # cs) g mysession entering s = do {
     r \<leftarrow> pprocs s c;
     let h = pp_pgrp r;
     s1 \<leftarrow> (if h = g then Some s
        else do { H \<leftarrow> pgrps s h;
                  if pg_session H = mysession \<and> pp_stat r \<noteq> SZOMB then adjust entering h s else Some s });
     fix_children cs g mysession entering s1 }"

definition fixjobc :: "nat \<Rightarrow> nat \<Rightarrow> bool \<Rightarrow> pgsys \<Rightarrow> pgsys option" where
  [kern_defs]: "fixjobc p g entering s = do {
     G \<leftarrow> pgrps s g;
     r \<leftarrow> pprocs s p;
     pptr \<leftarrow> pp_pptr r;
     par \<leftarrow> pprocs s pptr;
     let h = pp_pgrp par;
     s1 \<leftarrow> (if h = g then Some s
        else do { H \<leftarrow> pgrps s h; if pg_session H = pg_session G then adjust entering g s else Some s });
     fix_children (pp_children r) g (pg_session G) entering s1 }"

section \<open>Groups and sessions\<close>

definition pgdelete :: "nat \<Rightarrow> pgsys \<Rightarrow> pgsys option" where
  [kern_defs]: "pgdelete g s = do {
     G \<leftarrow> pgrps s g;
     E \<leftarrow> sessions s (pg_session G);
     let s1 = (case s_ttyp E of None \<Rightarrow> s | Some t \<Rightarrow> if t_pgrp s t = Some g then s\<lparr>t_pgrp := (t_pgrp s)(t := None)\<rparr> else s);
     let n = s_count E - 1;
     Some (s1\<lparr>pgrphash := remove1 g (pgrphash s1),
              sessions := (sessions s1)(pg_session G := (if n = 0 then None else Some (E\<lparr>s_count := n\<rparr>))),
              pgrps := (pgrps s1)(g := None)\<rparr>) }"

text \<open>Taking \<open>p\<close> out of its group, which is deleted when it has no other member: the end of \<open>enterpgrp\<close>, and \<open>leavepgrp\<close>.\<close>

definition leavepgrp :: "nat \<Rightarrow> pgsys \<Rightarrow> pgsys option" where
  [kern_defs]: "leavepgrp p s = do {
     r \<leftarrow> pprocs s p;
     G \<leftarrow> pgrps s (pp_pgrp r);
     let s1 = upd_pgrp (pp_pgrp r) (\<lambda>G. G\<lparr>pg_members := remove1 p (pg_members G)\<rparr>) s;
     if remove1 p (pg_members G) = [] then pgdelete (pp_pgrp r) s1 else Some s1 }"

text \<open>
  \<open>enterpgrp\<close>; \<open>ng\<close> and \<open>ne\<close> are the addresses of the structures it allocates. The first result is the error number.
\<close>

definition new_pgrp :: "nat \<Rightarrow> int \<Rightarrow> bool \<Rightarrow> nat \<Rightarrow> nat \<Rightarrow> pgsys \<Rightarrow> (errno option \<times> pgsys) option" where
  [kern_defs]: "new_pgrp p pgid mksess ng ne s = do {
     r \<leftarrow> pprocs s p;
     if pp_pid r \<noteq> pgid then None
     else if pfind s (pp_pid r) \<noteq> Some p then Some (Some ESRCH, s)
     else do {
       e \<leftarrow> session_of s p;
       E \<leftarrow> sessions s e;
       s1 \<leftarrow> (if mksess
          then if p \<noteq> pcurproc s then None
            else Some (upd_proc p (\<lambda>r. r\<lparr>pp_flag := pp_flag r - {P_CONTROLT}\<rparr>)
                   (s\<lparr>sessions := (sessions s)(ne \<mapsto> \<lparr>s_count = 1, s_leader = Some p, s_ttyvp = False, s_ttyp = None,
                                                 s_login = s_login E\<rparr>)\<rparr>))
          else Some (s\<lparr>sessions := (sessions s)(e \<mapsto> E\<lparr>s_count := s_count E + 1\<rparr>)\<rparr>));
       Some (None, s1\<lparr>pgrps := (pgrps s1)(ng \<mapsto> \<lparr>pg_id = pgid, pg_session = (if mksess then ne else e), pg_jobc = 0, pg_members = []\<rparr>),
                       pgrphash := ng # pgrphash s1\<rparr>) } }"

definition move_pgrp :: "nat \<Rightarrow> nat \<Rightarrow> pgsys \<Rightarrow> pgsys option" where
  [kern_defs]: "move_pgrp p g s = do {
     r \<leftarrow> pprocs s p;
     s1 \<leftarrow> fixjobc p g True s;
     s2 \<leftarrow> fixjobc p (pp_pgrp r) False s1;
     s3 \<leftarrow> leavepgrp p s2;
     Some (upd_pgrp g (\<lambda>G. G\<lparr>pg_members := p # pg_members G\<rparr>) (upd_proc p (\<lambda>r. r\<lparr>pp_pgrp := g\<rparr>) s3)) }"

definition enterpgrp :: "nat \<Rightarrow> int \<Rightarrow> bool \<Rightarrow> nat \<Rightarrow> nat \<Rightarrow> pgsys \<Rightarrow> (errno option \<times> pgsys) option" where
  [kern_defs]: "enterpgrp p pgid mksess ng ne s = do {
     r \<leftarrow> pprocs s p;
     l \<leftarrow> sess_leader s p;
     if pgfind s pgid \<noteq> None \<and> mksess \<or> l then None
     else (case pgfind s pgid of
         None \<Rightarrow> do { (err, s1) \<leftarrow> new_pgrp p pgid mksess ng ne s;
                      if err \<noteq> None then Some (err, s1) else map_option (Pair None) (move_pgrp p ng s1) }
       | Some g \<Rightarrow> if g = pp_pgrp r then Some (None, s) else map_option (Pair None) (move_pgrp p g s)) }"

section \<open>System calls\<close>

definition setsid :: "nat \<Rightarrow> nat \<Rightarrow> nat \<Rightarrow> pgsys \<Rightarrow> ((errno + int) \<times> pgsys) option" where
  [kern_defs]: "setsid p ng ne s = do {
     r \<leftarrow> pprocs s p;
     G \<leftarrow> pgrps s (pp_pgrp r);
     if pg_id G = pp_pid r \<or> pgfind s (pp_pid r) \<noteq> None then Some (Inl EPERM, s)
     else do { (_, s1) \<leftarrow> enterpgrp p (pp_pid r) True ng ne s; Some (Inr (pp_pid r), s1) } }"

text \<open>The checks of \<open>setpgid\<close>: the target process, or the error.\<close>

definition setpgid_target :: "nat \<Rightarrow> int \<Rightarrow> pgsys \<Rightarrow> (errno + nat) option" where
  [kern_defs]: "setpgid_target curp pid s = do {
     r \<leftarrow> pprocs s curp;
     if pid \<noteq> 0 \<and> pid \<noteq> pp_pid r
     then (case pfind s pid of
         None \<Rightarrow> Some (Inl ESRCH)
       | Some t \<Rightarrow> do {
           inf \<leftarrow> inferior s t;
           e1 \<leftarrow> session_of s t;
           e2 \<leftarrow> session_of s curp;
           rt \<leftarrow> pprocs s t;
           Some (if \<not> inf then Inl ESRCH else if e1 \<noteq> e2 then Inl EPERM else if P_EXEC \<in> pp_flag rt then Inl EACCES else Inr t) })
     else Some (Inr curp) }"

definition setpgid :: "nat \<Rightarrow> int \<Rightarrow> int \<Rightarrow> nat \<Rightarrow> nat \<Rightarrow> pgsys \<Rightarrow> (errno option \<times> pgsys) option" where
  [kern_defs]: "setpgid curp pid pgid ng ne s = do {
     tg \<leftarrow> setpgid_target curp pid s;
     (case tg of
        Inl e \<Rightarrow> Some (Some e, s)
      | Inr targp \<Rightarrow> do {
          l \<leftarrow> sess_leader s targp;
          rt \<leftarrow> pprocs s targp;
          e \<leftarrow> session_of s curp;
          if l then Some (Some EPERM, s)
          else if pgid = 0 \<or> pgid = pp_pid rt then enterpgrp targp (pp_pid rt) False ng ne s
          else (case pgfind s pgid of
              None \<Rightarrow> Some (Some EPERM, s)
            | Some g \<Rightarrow> do { G \<leftarrow> pgrps s g;
                if pg_session G \<noteq> e then Some (Some EPERM, s) else enterpgrp targp pgid False ng ne s }) }) }"

section \<open>Creation and end of processes\<close>

text \<open>
  \<open>fork1\<close>, as far as the tree is concerned: the limits on the number of processes (\<open>maxproc\<close>, and \<open>limit\<close>, the caller's
  \<^verbatim>\<open>RLIMIT_NPROC\<close>), the choice of the process number, and the links of the new process \<open>p2\<close>
  (its \<^verbatim>\<open>p_xstat\<close>, which the code leaves as it is, is 0). The whole is one step, although the code may sleep between the choice of the number and
  the last link (\<^verbatim>\<open>MALLOC\<close> with \<^verbatim>\<open>M_WAITOK\<close>, \<open>fdcopy\<close>).
\<close>

definition proc_ids :: "pgsys \<Rightarrow> (int \<times> int) list option" where
  [kern_defs]: "proc_ids s = those (map (\<lambda>p. do { r \<leftarrow> pprocs s p; G \<leftarrow> pgrps s (pp_pgrp r); Some (pp_pid r, pg_id G) }) (allproc s @ zombproc s))"

fun insert_after :: "nat \<Rightarrow> nat \<Rightarrow> nat list \<Rightarrow> nat list" where
  "insert_after p q [] = []"
| "insert_after p q (x # xs) = (if x = p then x # q # xs else x # insert_after p q xs)"

definition fork_link :: "nat \<Rightarrow> nat \<Rightarrow> bool \<Rightarrow> int \<Rightarrow> pgsys \<Rightarrow> pgsys option" where
  [kern_defs]: "fork_link p1 p2 isvfork pid s = do {
     r1 \<leftarrow> pprocs s p1;
     e \<leftarrow> session_of s p1;
     E \<leftarrow> sessions s e;
     let r2 = \<lparr>pp_pid = pid, pp_pptr = Some p1, pp_pgrp = pp_pgrp r1, pp_stat = SRUN, pp_children = [],
               pp_flag = {P_INMEM} \<union> (if s_ttyvp E \<and> P_CONTROLT \<in> pp_flag r1 then {P_CONTROLT} else {})
                         \<union> (if isvfork then {P_PPWAIT} else {}),
               pp_ruid = pp_ruid r1, pp_oppid = 0, pp_xstat = 0\<rparr>;
     let s1 = upd_proc p1 (\<lambda>r. r\<lparr>pp_children := p2 # pp_children r\<rparr>) s;
     Some ((upd_pgrp (pp_pgrp r1) (\<lambda>G. G\<lparr>pg_members := insert_after p1 p2 (pg_members G)\<rparr>) s1)
       \<lparr>pprocs := (pprocs s1)(p2 \<mapsto> r2), allproc := p2 # allproc s1, pidhash := p2 # pidhash s1, nprocs := nprocs s1 + 1\<rparr>) }"

definition fork1 :: "int \<Rightarrow> int \<Rightarrow> nat \<Rightarrow> nat \<Rightarrow> bool \<Rightarrow> pgsys \<Rightarrow> ((errno + int) \<times> pgsys) option" where
  [kern_defs]: "fork1 maxproc limit p1 p2 isvfork s = do {
     r1 \<leftarrow> pprocs s p1;
     let uid = pp_ruid r1;
     if maxproc - 1 \<le> nprocs s \<and> uid \<noteq> 0 \<or> maxproc \<le> nprocs s then Some (Inl EAGAIN, s)
     else do {
       (n, s1) \<leftarrow> chgproccnt uid 1 s;
       if uid \<noteq> 0 \<and> limit < n then do { (_, s2) \<leftarrow> chgproccnt uid (- 1) s1; Some (Inl EAGAIN, s2) }
       else do {
         ids \<leftarrow> proc_ids s1;
         (pid, c) \<leftarrow> pid_find ids (nextpid s1 + 1) (pidchecked s1);
         s2 \<leftarrow> fork_link p1 p2 isvfork pid (s1\<lparr>nextpid := pid, pidchecked := c\<rparr>);
         Some (Inr pid, s2) } } }"

text \<open>\<open>pgsignal\<close> with its test of the controlling terminal.\<close>

definition pgsignal :: "nat \<Rightarrow> nat \<Rightarrow> pgsys \<Rightarrow> pgsys option" where
  [kern_defs]: "pgsignal g sig s = do {
     G \<leftarrow> pgrps s g;
     fl \<leftarrow> those (map (\<lambda>p. map_option (\<lambda>r. (p, pp_flag r)) (pprocs s p)) (pg_members G));
     Some (s\<lparr>pevs := pevs s @ map (\<lambda>(p, _). Psignal p sig) (filter (\<lambda>(p, f). P_CONTROLT \<in> f) fl)\<rparr>) }"

text \<open>
  Terminals as far as sessions see them: \<open>ttyclose\<close>, and \<^verbatim>\<open>TIOCSCTTY\<close> (with the part of \<open>vn_ioctl\<close> that sets \<^verbatim>\<open>s_ttyvp\<close>) and
  \<^verbatim>\<open>TIOCSPGRP\<close> of \<^verbatim>\<open>kern/tty.c\<close>; \<open>t\<close> is the terminal that the file of the call stands for.
\<close>

definition ttyclose :: "nat \<Rightarrow> pgsys \<Rightarrow> pgsys" where
  [kern_defs]: "ttyclose t s = s\<lparr>t_pgrp := (t_pgrp s)(t := None), t_session := (t_session s)(t := None)\<rparr>"

definition tiocsctty :: "nat \<Rightarrow> nat \<Rightarrow> pgsys \<Rightarrow> (errno option \<times> pgsys) option" where
  [kern_defs]: "tiocsctty p t s = do {
     r \<leftarrow> pprocs s p;
     l \<leftarrow> sess_leader s p;
     e \<leftarrow> session_of s p;
     E \<leftarrow> sessions s e;
     Some (if \<not> l \<or> (s_ttyvp E \<or> t_session s t \<noteq> None) \<and> t_session s t \<noteq> Some e then (Some EPERM, s)
       else (None, upd_proc p (\<lambda>r. r\<lparr>pp_flag := insert P_CONTROLT (pp_flag r)\<rparr>)
              (s\<lparr>t_session := (t_session s)(t := Some e), t_pgrp := (t_pgrp s)(t := Some (pp_pgrp r)),
                 sessions := (sessions s)(e \<mapsto> E\<lparr>s_ttyp := Some t, s_ttyvp := True\<rparr>)\<rparr>))) }"

definition tiocspgrp :: "nat \<Rightarrow> nat \<Rightarrow> int \<Rightarrow> pgsys \<Rightarrow> (errno option \<times> pgsys) option" where
  [kern_defs]: "tiocspgrp p t pgid s = do {
     r \<leftarrow> pprocs s p;
     e \<leftarrow> session_of s p;
     if \<not> (t_session s t = Some e \<and> P_CONTROLT \<in> pp_flag r) then Some (Some ENOTTY, s)
     else (case pgfind s pgid of
         None \<Rightarrow> Some (Some EPERM, s)
       | Some g \<Rightarrow> do {
           G \<leftarrow> pgrps s g;
           Some (if pg_session G \<noteq> e then (Some EPERM, s) else (None, s\<lparr>t_pgrp := (t_pgrp s)(t := Some g)\<rparr>)) }) }"

text \<open>
  \<open>exit1\<close>: a session leader gives up its session (the foreground group of its terminal, if it has one, is sent a hangup, and the
  terminal is revoked), the counters are adjusted, the process becomes a zombie and its children pass to \<^verbatim>\<open>initproc\<close>; the parent is
  signalled and woken. \<^verbatim>\<open>VOP_REVOKE\<close> closes the device through the special file system, which is not in the tree; the close routines of
  the terminal drivers end in \<open>ttyclose\<close>. What else \<open>exit1\<close> releases (descriptors, address space, timers, accounting, limits) is outside
  this state. The exit status is stored at the end in the code, which nothing observes before; \<^verbatim>\<open>p_xstat\<close> has 16 bits. The whole is one
  step, although the code may sleep before the counters are adjusted (\<open>fdfree\<close>, \<open>ttywait\<close>) and, with kernel tracing, after that.
\<close>

definition exit_leader :: "nat \<Rightarrow> pgsys \<Rightarrow> pgsys option" where
  [kern_defs]: "exit_leader p s = do {
     l \<leftarrow> sess_leader s p;
     e \<leftarrow> session_of s p;
     E \<leftarrow> sessions s e;
     if \<not> l then Some s
     else do {
       s1 \<leftarrow> (if \<not> s_ttyvp E then Some s
          else do {
            t \<leftarrow> s_ttyp E;
            if t_session s t \<noteq> Some e then Some s
            else map_option (ttyclose t) (case t_pgrp s t of None \<Rightarrow> Some s | Some g \<Rightarrow> pgsignal g SIGHUP s) });
       Some (s1\<lparr>sessions := (sessions s1)(e \<mapsto> E\<lparr>s_ttyvp := False, s_leader := None\<rparr>)\<rparr>) } }"

definition reparent_one :: "nat \<Rightarrow> pgsys \<Rightarrow> pgsys option" where
  [kern_defs]: "reparent_one q s = do {
     r \<leftarrow> pprocs s q;
     let s1 = upd_proc q (\<lambda>r. r\<lparr>pp_pptr := Some (initproc s), pp_flag := pp_flag r - {P_TRACED}\<rparr>)
                (upd_proc (initproc s) (\<lambda>r. r\<lparr>pp_children := q # pp_children r\<rparr>) s);
     Some (if P_TRACED \<in> pp_flag r then s1\<lparr>pevs := pevs s1 @ [Psignal q SIGKILL]\<rparr> else s1) }"

fun reparent_all :: "nat list \<Rightarrow> pgsys \<Rightarrow> pgsys option" where
  "reparent_all [] s = Some s"
| "reparent_all (q # qs) s = Option.bind (reparent_one q s) (reparent_all qs)"

definition exit1 :: "nat \<Rightarrow> int \<Rightarrow> pgsys \<Rightarrow> pgsys option" where
  [kern_defs]: "exit1 p rv s0 = do {
     r0 \<leftarrow> pprocs s0 p;
     if pp_pid r0 = 1 then None
     else do {
       s \<leftarrow> exit_leader p (upd_proc p (\<lambda>r. r\<lparr>pp_flag := insert P_WEXIT (pp_flag r - {P_TRACED, P_PPWAIT})\<rparr>) s0);
       s1 \<leftarrow> fixjobc p (pp_pgrp r0) False s;
       pptr \<leftarrow> pp_pptr r0;
       let s2 = upd_proc p (\<lambda>r. r\<lparr>pp_stat := SZOMB, pp_children := [], pp_xstat := rv mod 65536\<rparr>)
                  (s1\<lparr>allproc := remove1 p (allproc s1), zombproc := p # zombproc s1, pidhash := remove1 p (pidhash s1),
                      pevs := pevs s1 @ (if pp_children r0 = [] then [] else [Wakeup (initproc s1)])\<rparr>);
       s3 \<leftarrow> reparent_all (pp_children r0) s2;
       Some (s3\<lparr>pevs := pevs s3 @ [Psignal pptr SIGCHLD, Wakeup pptr]\<rparr>) } }"

text \<open>
  \<open>wait1\<close>: one pass over the children of \<open>q\<close>. \<open>wait_reap\<close> takes the zombie \<open>p\<close> out of the tree; a zombie that was got by
  \<^verbatim>\<open>ptrace\<close> goes back to its parent instead. \<open>cst\<close> and \<open>cru\<close> are the errors of the two calls of \<^verbatim>\<open>copyout\<close>, \<open>None\<close> when they succeed
  or are not made. \<open>W_block\<close> is the sleep on \<open>q\<close>, after which the code starts again.
\<close>

datatype wres = W_reaped int int | W_stopped int int | W_nohang | W_block | W_fail errno

definition wait_reap :: "nat \<Rightarrow> nat \<Rightarrow> pgsys \<Rightarrow> pgsys option" where
  [kern_defs]: "wait_reap q p s = do {
     r \<leftarrow> pprocs s p;
     (_, s1) \<leftarrow> chgproccnt (pp_ruid r) (- 1) s;
     s2 \<leftarrow> leavepgrp p s1;
     let s3 = upd_proc q (\<lambda>r. r\<lparr>pp_children := remove1 p (pp_children r)\<rparr>) s2;
     Some (s3\<lparr>zombproc := remove1 p (zombproc s3), pprocs := (pprocs s3)(p := None), nprocs := nprocs s3 - 1\<rparr>) }"

definition proc_reparent :: "nat \<Rightarrow> nat \<Rightarrow> pgsys \<Rightarrow> pgsys option" where
  [kern_defs]: "proc_reparent child parent s = do {
     r \<leftarrow> pprocs s child;
     q \<leftarrow> pp_pptr r;
     Some (if q = parent then s
       else upd_proc child (\<lambda>r. r\<lparr>pp_pptr := Some parent\<rparr>)
              (upd_proc parent (\<lambda>r. r\<lparr>pp_children := child # pp_children r\<rparr>)
                (upd_proc q (\<lambda>r. r\<lparr>pp_children := remove1 child (pp_children r)\<rparr>) s))) }"

definition wait_zombie :: "nat \<Rightarrow> nat \<Rightarrow> errno option \<Rightarrow> errno option \<Rightarrow> pgsys \<Rightarrow> (wres \<times> pgsys) option" where
  [kern_defs]: "wait_zombie q p cst cru s = do {
     r \<leftarrow> pprocs s p;
     (case (cst, cru) of
        (Some e, _) \<Rightarrow> Some (W_fail e, s)
      | (None, Some e) \<Rightarrow> Some (W_fail e, s)
      | (None, None) \<Rightarrow>
          (case (if pp_oppid r = 0 then None else pfind s (pp_oppid r)) of
             Some t \<Rightarrow> do {
               s1 \<leftarrow> proc_reparent p t (upd_proc p (\<lambda>r. r\<lparr>pp_oppid := 0\<rparr>) s);
               Some (W_reaped (pp_pid r) (pp_xstat r), s1\<lparr>pevs := pevs s1 @ [Psignal t SIGCHLD, Wakeup t]\<rparr>) }
           | None \<Rightarrow> map_option (Pair (W_reaped (pp_pid r) (pp_xstat r))) (wait_reap q p s))) }"

fun wait_scan :: "nat \<Rightarrow> int \<Rightarrow> bool \<Rightarrow> errno option \<Rightarrow> errno option \<Rightarrow> nat list \<Rightarrow> bool \<Rightarrow> pgsys \<Rightarrow> ((bool + wres) \<times> pgsys) option" where
  "wait_scan q pid untraced cst cru [] found s = Some (Inl found, s)"
| "wait_scan q pid untraced cst cru (p # ps) found s = do {
     r \<leftarrow> pprocs s p;
     G \<leftarrow> pgrps s (pp_pgrp r);
     if pid \<noteq> - 1 \<and> pp_pid r \<noteq> pid \<and> pg_id G \<noteq> - pid then wait_scan q pid untraced cst cru ps found s
     else if pp_stat r = SZOMB then map_option (map_prod Inr id) (wait_zombie q p cst cru s)
     else if pp_stat r = SSTOP \<and> P_WAITED \<notin> pp_flag r \<and> (P_TRACED \<in> pp_flag r \<or> untraced)
       then Some (Inr (case cst of None \<Rightarrow> W_stopped (pp_pid r) (pp_xstat r * 256 + 127) | Some e \<Rightarrow> W_fail e),
                  upd_proc p (\<lambda>r. r\<lparr>pp_flag := insert P_WAITED (pp_flag r)\<rparr>) s)
     else wait_scan q pid untraced cst cru ps True s }"

definition wait1 :: "nat \<Rightarrow> int \<Rightarrow> bool \<Rightarrow> bool \<Rightarrow> errno option \<Rightarrow> errno option \<Rightarrow> pgsys \<Rightarrow> (wres \<times> pgsys) option" where
  [kern_defs]: "wait1 q pid untraced nohang cst cru s = do {
     r \<leftarrow> pprocs s q;
     G \<leftarrow> pgrps s (pp_pgrp r);
     (w, s1) \<leftarrow> wait_scan q (if pid = 0 then - pg_id G else pid) untraced cst cru (pp_children r) False s;
     Some (case w of
         Inr w \<Rightarrow> w
       | Inl found \<Rightarrow> if \<not> found then W_fail ECHILD else if nohang then W_nohang else W_block, s1) }"

text \<open>\<open>setuid\<close> of \<^verbatim>\<open>kern/kern_prot.c\<close> moves the process from the count of one user to that of another; its check of permission and its new
  credentials are in the theory \<open>Cred\<close>.\<close>

definition setuid_count :: "nat \<Rightarrow> nat \<Rightarrow> pgsys \<Rightarrow> pgsys option" where
  [kern_defs]: "setuid_count p uid s = do {
     r \<leftarrow> pprocs s p;
     (_, s1) \<leftarrow> chgproccnt (pp_ruid r) (- 1) s;
     (_, s2) \<leftarrow> chgproccnt uid 1 s1;
     Some (upd_proc p (\<lambda>r. r\<lparr>pp_ruid := uid\<rparr>) s2) }"

section \<open>Changes of the counters\<close>

text \<open>\<open>shift d s s'\<close>: only the counters have changed, by \<open>d\<close>, and signals may have been sent.\<close>

definition shift :: "(nat \<Rightarrow> int) \<Rightarrow> pgsys \<Rightarrow> pgsys \<Rightarrow> bool" where
  "shift d s s' \<longleftrightarrow> (\<exists>sg. s' = s\<lparr>pgrps := (\<lambda>h. map_option (\<lambda>H. H\<lparr>pg_jobc := pg_jobc H + d h\<rparr>) (pgrps s h)), pevs := sg\<rparr>)"

lemma shift_refl: "shift (\<lambda>_. 0) s s"
  by (auto simp: shift_def option.map_ident fun_eq_iff option.map_id0 intro!: exI [of _ "pevs s"] pgsys.equality ext split: option.splits)

lemma shift_trans: "shift d s s1 \<Longrightarrow> shift e s1 s2 \<Longrightarrow> shift (\<lambda>h. d h + e h) s s2"
  unfolding shift_def by (elim exE) (rule exI, simp add: option.map_comp o_def add.assoc)

lemma shift_same:
  assumes "shift d s s'"
  shows "pprocs s' = pprocs s" "sessions s' = sessions s" "pgrphash s' = pgrphash s" "pidhash s' = pidhash s" "allproc s' = allproc s"
    "zombproc s' = zombproc s" "t_pgrp s' = t_pgrp s" "t_session s' = t_session s" "uidcnt s' = uidcnt s" "pcurproc s' = pcurproc s"
    "initproc s' = initproc s" "nprocs s' = nprocs s" "nextpid s' = nextpid s" "pidchecked s' = pidchecked s"
    "pgrps s' h = map_option (\<lambda>H. H\<lparr>pg_jobc := pg_jobc H + d h\<rparr>) (pgrps s h)"
  using assms by (auto simp: shift_def)

definition sess :: "pgsys \<Rightarrow> nat \<Rightarrow> nat option" where
  "sess s g = map_option pg_session (pgrps s g)"

lemma shift_sess: "shift d s s' \<Longrightarrow> sess s' g = sess s g"
  by (simp add: sess_def shift_same option.map_comp o_def)

text \<open>All members of groups exist.\<close>

definition members_ok :: "pgsys \<Rightarrow> bool" where
  "members_ok s \<longleftrightarrow> (\<forall>g G. pgrps s g = Some G \<longrightarrow> (\<forall>p\<in>set (pg_members G). pprocs s p \<noteq> None))"

lemma those_Some: "(\<And>x. x \<in> set xs \<Longrightarrow> f x \<noteq> None) \<Longrightarrow> \<exists>ys. those (map f xs) = Some ys"
  by (induction xs) force+

lemma shift_members: "shift d s s' \<Longrightarrow> members_ok s' = members_ok s"
  unfolding members_ok_def by (simp add: shift_same split: option.splits) fastforce

lemma orphanpg_shift:
  assumes "members_ok s" "pgrps s g \<noteq> None"
  shows "\<exists>s'. orphanpg g s = Some s' \<and> shift (\<lambda>_. 0) s s'"
proof -
  obtain G where G: "pgrps s g = Some G" using assms(2) by blast
  have "\<exists>ys. those (map (\<lambda>p. map_option pp_stat (pprocs s p)) (pg_members G)) = Some ys"
    by (rule those_Some) (use assms(1) G in \<open>auto simp: members_ok_def\<close>)
  then obtain ys where "those (map (\<lambda>p. map_option pp_stat (pprocs s p)) (pg_members G)) = Some ys" ..
  moreover have "shift (\<lambda>_. 0) s (s\<lparr>pevs := sg\<rparr>)" for sg
    unfolding shift_def by (rule exI [of _ sg]) (simp add: option.map_ident)
  ultimately show ?thesis using G shift_refl by (auto simp: orphanpg_def)
qed

lemma adjust_shift:
  assumes "members_ok s" "pgrps s h \<noteq> None"
  shows "\<exists>s'. adjust e h s = Some s' \<and> shift (\<lambda>x. if x = h then (if e then 1 else - 1) else 0) s s'"
proof -
  obtain H where H: "pgrps s h = Some H" using assms(2) by blast
  let ?n = "pg_jobc H + (if e then 1 else - 1)"
  let ?d = "\<lambda>x. if x = h then (if e then 1 else - 1) else (0 :: int)"
  let ?s = "upd_pgrp h (\<lambda>H. H\<lparr>pg_jobc := ?n\<rparr>) s"
  have eq: "(\<lambda>x. map_option (\<lambda>H. H\<lparr>pg_jobc := pg_jobc H + ?d x\<rparr>) (pgrps s x)) = (pgrps s)(h \<mapsto> H\<lparr>pg_jobc := ?n\<rparr>)"
    using H by (auto simp: fun_eq_iff option.map_ident)
  have sh: "shift ?d s ?s" unfolding shift_def eq by (rule exI [of _ "pevs s"]) (simp add: upd_pgrp_def H)
  show ?thesis
  proof (cases "\<not> e \<and> ?n = 0")
    case True
    have "members_ok ?s" "pgrps ?s h \<noteq> None" using shift_members [OF sh] assms H by (simp_all add: upd_pgrp_def)
    then obtain s' where "orphanpg h ?s = Some s'" "shift (\<lambda>_. 0) ?s s'" using orphanpg_shift by blast
    moreover have "adjust e h s = orphanpg h ?s" using True H by (simp add: adjust_def Let_def) (simp split: if_splits)
    moreover have "shift ?d s s'" if "shift (\<lambda>_. 0) ?s s'" for s' using shift_trans [OF sh that] by (simp only: add_0_right)
    ultimately show ?thesis by metis
  next
    case False
    then have "adjust e h s = Some ?s" using H by (auto simp: adjust_def Let_def)
    then show ?thesis using sh by blast
  qed
qed

text \<open>What a child, or the process itself, counts for.\<close>

definition child_counts :: "pgsys \<Rightarrow> nat \<Rightarrow> nat \<Rightarrow> nat \<Rightarrow> bool" where
  "child_counts s g h c \<longleftrightarrow> (\<exists>r. pprocs s c = Some r \<and> pp_pgrp r = h \<and> pp_stat r \<noteq> SZOMB) \<and> h \<noteq> g \<and> sess s h = sess s g"

definition parent_pgrp :: "pgsys \<Rightarrow> nat \<Rightarrow> nat option" where
  "parent_pgrp s p = do { r \<leftarrow> pprocs s p; q \<leftarrow> pp_pptr r; par \<leftarrow> pprocs s q; Some (pp_pgrp par) }"

definition self_counts :: "pgsys \<Rightarrow> nat \<Rightarrow> nat \<Rightarrow> bool" where
  "self_counts s p g \<longleftrightarrow> (\<exists>k. parent_pgrp s p = Some k \<and> k \<noteq> g \<and> sess s k = sess s g)"

lemma fix_children_shift:
  assumes "members_ok s" "\<And>c. c \<in> set cs \<Longrightarrow> \<exists>r. pprocs s c = Some r \<and> pgrps s (pp_pgrp r) \<noteq> None" "sess s g = Some m"
  shows "\<exists>s'. fix_children cs g m e s = Some s' \<and>
    shift (\<lambda>h. (if e then 1 else - 1) * int (length (filter (child_counts s g h) cs))) s s'"
  using assms
proof (induction cs arbitrary: s)
  case Nil
  then show ?case using shift_refl by simp
next
  case (Cons c cs)
  obtain r where r: "pprocs s c = Some r" "pgrps s (pp_pgrp r) \<noteq> None" using Cons.prems(2) [of c] by auto
  let ?h = "pp_pgrp r"
  let ?d = "\<lambda>h. if child_counts s g h c then (if e then 1 else - 1) else (0 :: int)"
  obtain H where H: "pgrps s ?h = Some H" using r(2) by blast
  have cc: "child_counts s g h c \<longleftrightarrow> h = ?h \<and> ?h \<noteq> g \<and> pg_session H = m \<and> pp_stat r \<noteq> SZOMB" for h
    using r(1) H Cons.prems(3) by (auto simp: child_counts_def sess_def)
  have "\<exists>s1. (if ?h = g then Some s else if pg_session H = m \<and> pp_stat r \<noteq> SZOMB then adjust e ?h s else Some s) = Some s1 \<and> shift ?d s s1"
  proof (cases "?h \<noteq> g \<and> pg_session H = m \<and> pp_stat r \<noteq> SZOMB")
    case True
    then have "?d = (\<lambda>x. if x = ?h then (if e then 1 else - 1) else 0)" by (auto simp: cc)
    then show ?thesis using adjust_shift [OF Cons.prems(1) r(2), of e] True by simp
  next
    case False
    then have "?d = (\<lambda>_. 0)" by (auto simp: cc)
    then show ?thesis using shift_refl False by auto
  qed
  then obtain s1 where s1: "(if ?h = g then Some s else if pg_session H = m \<and> pp_stat r \<noteq> SZOMB then adjust e ?h s else Some s) = Some s1"
    "shift ?d s s1" by blast
  have same: "child_counts s1 g h x = child_counts s g h x" for h x
    by (simp add: child_counts_def shift_same(1) [OF s1(2)] shift_sess [OF s1(2)])
  obtain s' where s': "fix_children cs g m e s1 = Some s'"
    "shift (\<lambda>h. (if e then 1 else - 1) * int (length (filter (child_counts s g h) cs))) s1 s'"
    using Cons.IH [of s1] Cons.prems s1(2) shift_members [OF s1(2)] shift_sess [OF s1(2)] unfolding same shift_same(1) [OF s1(2)]
    by (auto simp: shift_same(15) [OF s1(2)])
  have "fix_children (c # cs) g m e s = Some s'" using r(1) H s1(1) s'(1) by (auto split: if_splits)
  moreover have "(\<lambda>h. ?d h + (if e then 1 else - 1) * int (length (filter (child_counts s g h) cs))) =
      (\<lambda>h. (if e then 1 else - 1) * int (length (filter (child_counts s g h) (c # cs))))" by (auto simp: fun_eq_iff algebra_simps)
  ultimately show ?case using shift_trans [OF s1(2) s'(2)] by auto
qed

definition jobs :: "pgsys \<Rightarrow> nat \<Rightarrow> nat list \<Rightarrow> nat \<Rightarrow> nat \<Rightarrow> int" where
  "jobs s p cs g h = (if h = g \<and> self_counts s p g then 1 else 0) + int (length (filter (child_counts s g h) cs))"

lemma fixjobc_shift:
  assumes "members_ok s" "pprocs s p = Some r" "pp_pptr r = Some q" "pprocs s q = Some rq" "pgrps s (pp_pgrp rq) \<noteq> None"
    "\<And>c. c \<in> set (pp_children r) \<Longrightarrow> \<exists>r. pprocs s c = Some r \<and> pgrps s (pp_pgrp r) \<noteq> None" "pgrps s g \<noteq> None"
  shows "\<exists>s'. fixjobc p g e s = Some s' \<and> shift (\<lambda>h. (if e then 1 else - 1) * jobs s p (pp_children r) g h) s s'"
proof -
  let ?e = "if e then 1 else - 1 :: int"
  obtain G H where GH: "pgrps s g = Some G" "pgrps s (pp_pgrp rq) = Some H" using assms(5,7) by blast
  define self where "self = (if pp_pgrp rq = g then Some s else if pg_session H = pg_session G then adjust e g s else Some s)"
  have sc: "self_counts s p g \<longleftrightarrow> pp_pgrp rq \<noteq> g \<and> pg_session H = pg_session G"
    using assms(2-4) GH by (auto simp: self_counts_def parent_pgrp_def sess_def)
  have "\<exists>s1. self = Some s1 \<and> shift (\<lambda>h. if h = g \<and> self_counts s p g then ?e else 0) s s1"
  proof (cases "self_counts s p g")
    case True
    then show ?thesis using adjust_shift [OF assms(1,7), of e] by (simp add: sc self_def)
  next
    case False
    then have "self = Some s" by (auto simp: sc self_def)
    then show ?thesis using False shift_refl by simp
  qed
  then obtain s1 where s1: "self = Some s1" "shift (\<lambda>h. if h = g \<and> self_counts s p g then ?e else 0) s s1" by blast
  have same: "child_counts s1 g h x = child_counts s g h x" for h x
    by (simp add: child_counts_def shift_same(1) [OF s1(2)] shift_sess [OF s1(2)])
  have "\<exists>s'. fix_children (pp_children r) g (pg_session G) e s1 = Some s' \<and>
    shift (\<lambda>h. ?e * int (length (filter (child_counts s1 g h) (pp_children r)))) s1 s'"
    by (rule fix_children_shift)
      (use assms(1,6) GH shift_members [OF s1(2)] in \<open>simp_all add: shift_same [OF s1(2)] sess_def\<close>)
  then obtain s' where s': "fix_children (pp_children r) g (pg_session G) e s1 = Some s'"
    "shift (\<lambda>h. ?e * int (length (filter (child_counts s g h) (pp_children r)))) s1 s'" unfolding same by blast
  have "fixjobc p g e s = Some s'" using assms(2-4) GH s1(1) s'(1) by (simp add: fixjobc_def self_def cong: if_cong)
  moreover have "(\<lambda>h. (if h = g \<and> self_counts s p g then ?e else 0) + ?e * int (length (filter (child_counts s g h) (pp_children r)))) =
      (\<lambda>h. ?e * jobs s p (pp_children r) g h)" by (auto simp: jobs_def fun_eq_iff)
  ultimately show ?thesis using shift_trans [OF s1(2) s'(2)] by auto
qed

section \<open>The invariant\<close>

text \<open>
  \<open>qual s h x\<close>: the process \<open>x\<close> is a member of the group \<open>h\<close>, not a zombie, and its parent is in another group of the
  same session. The counter of a group is the number of these processes; for groups of the session of \<^verbatim>\<open>initproc\<close> this is not
  claimed, since \<open>exit1\<close> gives children to \<^verbatim>\<open>initproc\<close> without adjusting the counters.
\<close>

definition alive :: "pgsys \<Rightarrow> nat \<Rightarrow> bool" where
  "alive s p \<longleftrightarrow> (\<exists>r. pprocs s p = Some r \<and> pp_stat r \<noteq> SZOMB)"

definition qual :: "pgsys \<Rightarrow> nat \<Rightarrow> nat \<Rightarrow> bool" where
  "qual s h x \<longleftrightarrow> (\<exists>r. pprocs s x = Some r \<and> pp_stat r \<noteq> SZOMB \<and> pp_pgrp r = h \<and> self_counts s x h)"

definition jobc_ok :: "pgsys \<Rightarrow> bool" where
  "jobc_ok s \<longleftrightarrow> (\<forall>g G. pgrps s g = Some G \<longrightarrow> session_of s (initproc s) \<noteq> Some (pg_session G) \<longrightarrow>
     pg_jobc G = int (card {x. qual s g x}))"

text \<open>Processes and their groups; every group has a member.\<close>

definition links_ok :: "pgsys \<Rightarrow> bool" where
  "links_ok s \<longleftrightarrow>
     (\<forall>p r. pprocs s p = Some r \<longrightarrow> (\<exists>G. pgrps s (pp_pgrp r) = Some G \<and> p \<in> set (pg_members G))) \<and>
     (\<forall>g G. pgrps s g = Some G \<longrightarrow> distinct (pg_members G) \<and> (\<forall>p\<in>set (pg_members G). \<exists>r. pprocs s p = Some r \<and> pp_pgrp r = g))"

definition groups_used :: "pgsys \<Rightarrow> bool" where
  "groups_used s \<longleftrightarrow> (\<forall>g G. pgrps s g = Some G \<longrightarrow> pg_members G \<noteq> [])"

text \<open>Parents and children: going up from any process ends at process 0, and no process has been got by \<^verbatim>\<open>ptrace\<close>.\<close>

inductive rooted :: "pgsys \<Rightarrow> nat \<Rightarrow> bool" for s where
  root: "pprocs s p = Some r \<Longrightarrow> pp_pptr r = None \<Longrightarrow> rooted s p"
| up: "pprocs s p = Some r \<Longrightarrow> pp_pptr r = Some q \<Longrightarrow> rooted s q \<Longrightarrow> rooted s p"

definition tree_ok :: "pgsys \<Rightarrow> bool" where
  "tree_ok s \<longleftrightarrow> (\<forall>p r. pprocs s p = Some r \<longrightarrow> rooted s p \<and> (pp_pptr r = None \<longleftrightarrow> pp_pid r = 0) \<and> pp_oppid r = 0 \<and>
     distinct (pp_children r) \<and> (pp_stat r = SZOMB \<longrightarrow> pp_children r = []) \<and>
     (\<forall>c. c \<in> set (pp_children r) \<longleftrightarrow> (\<exists>rc. pprocs s c = Some rc \<and> pp_pptr rc = Some p)))"

text \<open>Sessions: their counts, leaders and terminals.\<close>

definition leads :: "pgsys \<Rightarrow> nat \<Rightarrow> nat \<Rightarrow> bool" where
  "leads s e p \<longleftrightarrow> (\<exists>r G. pprocs s p = Some r \<and> pp_stat r \<noteq> SZOMB \<and> pgrps s (pp_pgrp r) = Some G \<and> pg_session G = e \<and> pg_id G = pp_pid r)"

definition sess_ok :: "pgsys \<Rightarrow> bool" where
  "sess_ok s \<longleftrightarrow> (\<forall>g G. pgrps s g = Some G \<longrightarrow> sessions s (pg_session G) \<noteq> None) \<and>
     (\<forall>e E. sessions s e = Some E \<longrightarrow> s_count E = int (card {g. sess s g = Some e}) \<and> (s_ttyvp E \<longrightarrow> s_ttyp E \<noteq> None)) \<and>
     (\<forall>t g. t_pgrp s t = Some g \<longrightarrow> (\<exists>G E. pgrps s g = Some G \<and> sessions s (pg_session G) = Some E \<and> s_ttyp E = Some t))"

text \<open>A terminal that belongs to a session is the terminal of that session, which has a leader; a leader without terminal never had one.\<close>

definition ttys_ok :: "pgsys \<Rightarrow> bool" where
  "ttys_ok s \<longleftrightarrow>
     (\<forall>t e. t_session s t = Some e \<longrightarrow> (\<exists>E. sessions s e = Some E \<and> s_ttyp E = Some t \<and> s_leader E \<noteq> None)) \<and>
     (\<forall>e E. sessions s e = Some E \<longrightarrow> s_leader E \<noteq> None \<longrightarrow> \<not> s_ttyvp E \<longrightarrow> s_ttyp E = None)"

definition leaders_ok :: "pgsys \<Rightarrow> bool" where
  "leaders_ok s \<longleftrightarrow> (\<forall>e E p. sessions s e = Some E \<longrightarrow> s_leader E = Some p \<longrightarrow> leads s e p)"

text \<open>Numbers and tables.\<close>

definition ids_ok :: "pgsys \<Rightarrow> bool" where
  "ids_ok s \<longleftrightarrow> distinct (pidhash s) \<and> set (pidhash s) = {p. alive s p} \<and> distinct (pgrphash s) \<and> set (pgrphash s) = dom (pgrps s) \<and>
     distinct (allproc s @ zombproc s) \<and> set (allproc s) = {p. alive s p} \<and> set (allproc s) \<union> set (zombproc s) = dom (pprocs s) \<and>
     nprocs s = int (length (allproc s @ zombproc s)) \<and>
     (\<forall>p q r t. pprocs s p = Some r \<longrightarrow> pprocs s q = Some t \<longrightarrow> pp_pid r = pp_pid t \<longrightarrow> p = q) \<and>
     (\<forall>g h G H. pgrps s g = Some G \<longrightarrow> pgrps s h = Some H \<longrightarrow> pg_id G = pg_id H \<longrightarrow> g = h) \<and>
     0 \<le> nextpid s \<and> pidchecked s \<le> PID_MAX \<and>
     (\<forall>x. nextpid s < x \<longrightarrow> x < pidchecked s \<longrightarrow>
        (\<forall>p r. pprocs s p = Some r \<longrightarrow> pp_pid r \<noteq> x) \<and> (\<forall>g G. pgrps s g = Some G \<longrightarrow> pg_id G \<noteq> x))"

definition init_ok :: "pgsys \<Rightarrow> bool" where
  "init_ok s \<longleftrightarrow> (\<exists>r q t E. pprocs s (initproc s) = Some r \<and> pp_pid r = 1 \<and> pp_stat r \<noteq> SZOMB \<and> pp_pptr r = Some q \<and>
     pprocs s q = Some t \<and> pp_pptr t = None \<and>
     Option.bind (session_of s (initproc s)) (sessions s) = Some E \<and> s_leader E = Some (initproc s))"

definition uids_ok :: "pgsys \<Rightarrow> bool" where
  "uids_ok s \<longleftrightarrow> (\<forall>u. uidcnt s u =
     (let n = card {p. map_option pp_ruid (pprocs s p) = Some u} in if n = 0 then None else Some (int n)))"

definition pg_ok :: "pgsys \<Rightarrow> bool" where
  "pg_ok s \<longleftrightarrow> links_ok s \<and> groups_used s \<and> tree_ok s \<and> sess_ok s \<and> leaders_ok s \<and> ids_ok s \<and> init_ok s \<and> uids_ok s \<and> jobc_ok s \<and> ttys_ok s"

end
