(* ===== verification/Pgrpinv.thy ===== *)
theory Pgrpinv
  imports Pgrp
begin

text \<open>
  The invariant \<open>pg_ok\<close> of the process tree is kept by every operation of the theory \<open>Pgrp\<close>.
\<close>

section \<open>Facts of the invariant\<close>

lemma rooted_no_self: "rooted s p \<Longrightarrow> pprocs s p = Some r \<Longrightarrow> pp_pptr r \<noteq> Some p"
  by (induction arbitrary: r rule: rooted.induct) auto

lemma tree_okD:
  assumes "tree_ok s" "pprocs s p = Some r"
  shows "rooted s p" "pp_pptr r = None \<longleftrightarrow> pp_pid r = 0" "pp_oppid r = 0" "distinct (pp_children r)"
    "pp_stat r = SZOMB \<Longrightarrow> pp_children r = []" "c \<in> set (pp_children r) \<longleftrightarrow> (\<exists>rc. pprocs s c = Some rc \<and> pp_pptr rc = Some p)"
    "pp_pptr r \<noteq> Some p" "p \<notin> set (pp_children r)"
proof -
  show n: "rooted s p" "pp_pptr r = None \<longleftrightarrow> pp_pid r = 0" "pp_oppid r = 0" "distinct (pp_children r)"
    "pp_stat r = SZOMB \<Longrightarrow> pp_children r = []" "c \<in> set (pp_children r) \<longleftrightarrow> (\<exists>rc. pprocs s c = Some rc \<and> pp_pptr rc = Some p)" for c
    using assms unfolding tree_ok_def by blast+
  show "pp_pptr r \<noteq> Some p" using rooted_no_self [OF n(1) assms(2)] .
  then show "p \<notin> set (pp_children r)" using n(6) [of p] assms(2) by auto
qed

lemma rooted_ex: "rooted s p \<Longrightarrow> \<exists>r. pprocs s p = Some r"
  by (erule rooted.cases) auto

lemma tree_parent:
  assumes "tree_ok s" "pprocs s p = Some r" "pp_pptr r = Some q"
  shows "\<exists>t. pprocs s q = Some t \<and> p \<in> set (pp_children t) \<and> q \<noteq> p"
proof -
  from tree_okD(1) [OF assms(1,2)] have "rooted s q" by (rule rooted.cases) (use assms in auto)
  then obtain t where "pprocs s q = Some t" using rooted_ex by blast
  then show ?thesis using tree_okD(6) [OF assms(1), of q t p] tree_okD(7) [OF assms(1,2)] assms by auto
qed

lemma links_okD:
  assumes "links_ok s"
  shows "pprocs s p = Some r \<Longrightarrow> \<exists>G. pgrps s (pp_pgrp r) = Some G \<and> p \<in> set (pg_members G)"
    "pgrps s g = Some G \<Longrightarrow> distinct (pg_members G)"
    "pgrps s g = Some G \<Longrightarrow> p \<in> set (pg_members G) \<longleftrightarrow> (\<exists>r. pprocs s p = Some r \<and> pp_pgrp r = g)"
proof -
  show "pprocs s p = Some r \<Longrightarrow> \<exists>G. pgrps s (pp_pgrp r) = Some G \<and> p \<in> set (pg_members G)" for p r
    using assms unfolding links_ok_def by blast
  then show "pgrps s g = Some G \<Longrightarrow> p \<in> set (pg_members G) \<longleftrightarrow> (\<exists>r. pprocs s p = Some r \<and> pp_pgrp r = g)"
    using assms unfolding links_ok_def by fastforce
  show "pgrps s g = Some G \<Longrightarrow> distinct (pg_members G)" using assms unfolding links_ok_def by blast
qed

lemma links_members: "links_ok s \<Longrightarrow> members_ok s"
  unfolding links_ok_def members_ok_def by blast

lemma ids_finite: "ids_ok s \<Longrightarrow> finite (dom (pprocs s))"
  unfolding ids_ok_def by (metis List.finite_set finite_Un)

lemma ids_finite_groups: "ids_ok s \<Longrightarrow> finite {g. sess s g = Some e}"
proof -
  assume "ids_ok s"
  then have "{g. sess s g = Some e} \<subseteq> set (pgrphash s)" unfolding ids_ok_def sess_def by blast
  then show ?thesis by (rule finite_subset) simp
qed

lemma card_split:
  assumes "finite {x. Q x}" "p \<notin> set cs" "distinct cs"
  shows "card {x. Q x} = (if Q p then 1 else 0) + length (filter Q cs) + card {x. Q x \<and> x \<noteq> p \<and> x \<notin> set cs}"
proof -
  let ?R = "{x. Q x \<and> x \<noteq> p \<and> x \<notin> set cs}" and ?P = "if Q p then {p} else {}"
  have f: "finite ?R" by (rule finite_subset [OF _ assms(1)]) auto
  have c: "length (filter Q cs) = card (set (filter Q cs))" using distinct_card [of "filter Q cs"] assms(3) by simp
  have "{x. Q x} = (?P \<union> set (filter Q cs)) \<union> ?R" by auto
  also have "card \<dots> = card (?P \<union> set (filter Q cs)) + card ?R" by (rule card_Un_disjoint) (use f in auto)
  also have "card (?P \<union> set (filter Q cs)) = card ?P + card (set (filter Q cs))" by (rule card_Un_disjoint) (use assms(2) in auto)
  finally show ?thesis using c by simp
qed

section \<open>Leaving a group\<close>

lemma leavepgrp_eq:
  assumes "links_ok s" "sess_ok s" "pprocs s p = Some r" "pgrps s (pp_pgrp r) = Some G" "sessions s (pg_session G) = Some E"
  shows "\<exists>s'. leavepgrp p s = Some s' \<and>
    pgrps s' = (pgrps s)(pp_pgrp r := (if pg_members G = [p] then None else Some (G\<lparr>pg_members := remove1 p (pg_members G)\<rparr>))) \<and>
    pgrphash s' = (if pg_members G = [p] then remove1 (pp_pgrp r) (pgrphash s) else pgrphash s) \<and>
    sessions s' = (if pg_members G = [p] then (sessions s)(pg_session G := (if s_count E = 1 then None else Some (E\<lparr>s_count := s_count E - 1\<rparr>)))
                   else sessions s) \<and>
    t_pgrp s' = (if pg_members G = [p] then (\<lambda>t. if t_pgrp s t = Some (pp_pgrp r) then None else t_pgrp s t) else t_pgrp s) \<and>
    s' = s\<lparr>pgrps := pgrps s', pgrphash := pgrphash s', sessions := sessions s', t_pgrp := t_pgrp s'\<rparr>"
proof -
  have m: "p \<in> set (pg_members G)" "distinct (pg_members G)"
    using links_okD [OF assms(1)] assms(3,4) by auto
  then have d: "remove1 p (pg_members G) = [] \<longleftrightarrow> pg_members G = [p]" by (cases "pg_members G") auto
  have tt: "(\<lambda>t. if t_pgrp s t = Some (pp_pgrp r) then None else t_pgrp s t) =
      (case s_ttyp E of None \<Rightarrow> t_pgrp s | Some t \<Rightarrow> if t_pgrp s t = Some (pp_pgrp r) then (t_pgrp s)(t := None) else t_pgrp s)"
    using assms(2,4,5) unfolding sess_ok_def by (fastforce split: option.splits)
  show ?thesis
  proof (cases "pg_members G = [p]")
    case True
    have e: "leavepgrp p s = pgdelete (pp_pgrp r) (upd_pgrp (pp_pgrp r) (\<lambda>G. G\<lparr>pg_members := remove1 p (pg_members G)\<rparr>) s)"
      using True assms(3,4) by (simp add: leavepgrp_def Let_def)
    show ?thesis unfolding e pgdelete_def tt using True assms(4,5)
      by (cases "s_ttyp E") (simp_all add: upd_pgrp_def Let_def split: if_splits)
  next
    case False
    then show ?thesis using d assms(3,4) by (simp add: leavepgrp_def Let_def upd_pgrp_def)
  qed
qed

section \<open>Moving to another group\<close>

text \<open>What \<open>move_pgrp\<close> does to the state.\<close>

definition moved :: "nat \<Rightarrow> nat \<Rightarrow> pproc \<Rightarrow> pgrp_s \<Rightarrow> session_s \<Rightarrow> pgsys \<Rightarrow> pgsys \<Rightarrow> bool" where
  "moved p g r G0 E0 s s' \<longleftrightarrow>
     pprocs s' = (pprocs s)(p \<mapsto> r\<lparr>pp_pgrp := g\<rparr>) \<and>
     (\<forall>h. pgrps s' h = (if h = pp_pgrp r \<and> pg_members G0 = [p] then None
        else map_option (\<lambda>H. H\<lparr>pg_jobc := pg_jobc H + jobs s p (pp_children r) g h - jobs s p (pp_children r) (pp_pgrp r) h,
               pg_members := (if h = g then p # pg_members H else if h = pp_pgrp r then remove1 p (pg_members H) else pg_members H)\<rparr>) (pgrps s h))) \<and>
     pgrphash s' = (if pg_members G0 = [p] then remove1 (pp_pgrp r) (pgrphash s) else pgrphash s) \<and>
     sessions s' = (if pg_members G0 = [p] then (sessions s)(pg_session G0 := (if s_count E0 = 1 then None else Some (E0\<lparr>s_count := s_count E0 - 1\<rparr>)))
                    else sessions s) \<and>
     t_pgrp s' = (if pg_members G0 = [p] then (\<lambda>t. if t_pgrp s t = Some (pp_pgrp r) then None else t_pgrp s t) else t_pgrp s) \<and>
     pidhash s' = pidhash s \<and> allproc s' = allproc s \<and> zombproc s' = zombproc s \<and> uidcnt s' = uidcnt s \<and> initproc s' = initproc s \<and>
     nprocs s' = nprocs s \<and> nextpid s' = nextpid s \<and> pidchecked s' = pidchecked s \<and> pcurproc s' = pcurproc s \<and> t_session s' = t_session s"

lemma jobs_shift: "shift d s s1 \<Longrightarrow> jobs s1 = jobs s"
  unfolding fun_eq_iff jobs_def self_counts_def parent_pgrp_def child_counts_def [abs_def] by (simp add: shift_same(1) shift_sess)

lemma shift_links: "shift d s s' \<Longrightarrow> links_ok s \<Longrightarrow> links_ok s'"
  unfolding links_ok_def shift_same(1) by (fastforce simp: shift_same(15))

lemma shift_sess_ok: "shift d s s' \<Longrightarrow> sess_ok s \<Longrightarrow> sess_ok s'"
  unfolding sess_ok_def by (fastforce simp: shift_same shift_sess)

lemma move_pgrp_moved:
  assumes "links_ok s" "tree_ok s" "sess_ok s" "pprocs s p = Some r" "pp_pptr r = Some q"
    "pgrps s (pp_pgrp r) = Some G0" "sessions s (pg_session G0) = Some E0" "pgrps s g = Some G" "g \<noteq> pp_pgrp r"
  shows "\<exists>s'. move_pgrp p g s = Some s' \<and> moved p g r G0 E0 s s'"
proof -
  obtain t where t: "pprocs s q = Some t" using tree_parent [OF assms(2,4,5)] by blast
  have tg: "pgrps s (pp_pgrp t) \<noteq> None" using links_okD(1) [OF assms(1) t] by auto
  have ch: "\<exists>r. pprocs s c = Some r \<and> pgrps s (pp_pgrp r) \<noteq> None" if "c \<in> set (pp_children r)" for c
    using that tree_okD(6) [OF assms(2,4), of c] links_okD(1) [OF assms(1), of c] by fastforce
  have "\<exists>s1. fixjobc p g True s = Some s1 \<and> shift (\<lambda>h. (if True then 1 else - 1) * jobs s p (pp_children r) g h) s s1"
    by (rule fixjobc_shift [OF links_members [OF assms(1)] assms(4,5) t tg ch]) (use assms(8) in auto)
  then obtain s1 where s1: "fixjobc p g True s = Some s1" "shift (\<lambda>h. jobs s p (pp_children r) g h) s s1" by auto
  have "\<exists>s2. fixjobc p (pp_pgrp r) False s1 = Some s2 \<and>
      shift (\<lambda>h. (if False then 1 else - 1) * jobs s1 p (pp_children r) (pp_pgrp r) h) s1 s2"
    by (rule fixjobc_shift [where q = q and rq = t])
      (use shift_same [OF s1(2)] shift_members [OF s1(2)] links_members [OF assms(1)] assms(4-6) t tg ch in auto)
  then obtain s2 where s2: "fixjobc p (pp_pgrp r) False s1 = Some s2" "shift (\<lambda>h. - jobs s p (pp_children r) (pp_pgrp r) h) s1 s2"
    by (auto simp: jobs_shift [OF s1(2)])
  note sh = shift_trans [OF s1(2) s2(2)]
  have l2: "links_ok s2" "sess_ok s2"
    using shift_links [OF sh assms(1)] shift_sess_ok [OF sh assms(3)] .
  let ?G = "G0\<lparr>pg_jobc := pg_jobc G0 + (jobs s p (pp_children r) g (pp_pgrp r) + - jobs s p (pp_children r) (pp_pgrp r) (pp_pgrp r))\<rparr>"
  have g2: "pprocs s2 p = Some r" "pgrps s2 (pp_pgrp r) = Some ?G" "sessions s2 (pg_session ?G) = Some E0"
    using assms(4,6,7) by (simp_all add: shift_same [OF sh])
  obtain s3 where s3: "leavepgrp p s2 = Some s3"
    "pgrps s3 = (pgrps s2)(pp_pgrp r := (if pg_members ?G = [p] then None else Some (?G\<lparr>pg_members := remove1 p (pg_members ?G)\<rparr>)))"
    "pgrphash s3 = (if pg_members ?G = [p] then remove1 (pp_pgrp r) (pgrphash s2) else pgrphash s2)"
    "sessions s3 = (if pg_members ?G = [p] then (sessions s2)(pg_session ?G := (if s_count E0 = 1 then None else Some (E0\<lparr>s_count := s_count E0 - 1\<rparr>)))
                   else sessions s2)"
    "t_pgrp s3 = (if pg_members ?G = [p] then (\<lambda>t. if t_pgrp s2 t = Some (pp_pgrp r) then None else t_pgrp s2 t) else t_pgrp s2)"
    "s3 = s2\<lparr>pgrps := pgrps s3, pgrphash := pgrphash s3, sessions := sessions s3, t_pgrp := t_pgrp s3\<rparr>"
    using leavepgrp_eq [OF l2 g2] by blast
  have "move_pgrp p g s = Some (upd_pgrp g (\<lambda>G. G\<lparr>pg_members := p # pg_members G\<rparr>) (upd_proc p (\<lambda>r. r\<lparr>pp_pgrp := g\<rparr>) s3))"
    using assms(4) s1(1) s2(1) s3(1) by (simp add: move_pgrp_def)
  moreover have "pprocs s3 = pprocs s" "pidhash s3 = pidhash s" "allproc s3 = allproc s" "zombproc s3 = zombproc s" "uidcnt s3 = uidcnt s"
    "initproc s3 = initproc s" "nprocs s3 = nprocs s" "nextpid s3 = nextpid s" "pidchecked s3 = pidchecked s" "pcurproc s3 = pcurproc s" "t_session s3 = t_session s"
    by (subst s3(6), simp add: shift_same [OF sh])+
  ultimately show ?thesis using assms(4,6,8,9) unfolding moved_def s3(2-5)
    by (simp add: upd_pgrp_def upd_proc_def s3(2-5) shift_same [OF sh] option.map_comp o_def) (auto simp: algebra_simps fun_eq_iff shift_same [OF sh])
qed

lemma movedD:
  assumes "moved p g r G0 E0 s s'"
  shows "pprocs s' = (pprocs s)(p \<mapsto> r\<lparr>pp_pgrp := g\<rparr>)"
    "sess s' h = (if h = pp_pgrp r \<and> pg_members G0 = [p] then None else sess s h)"
    "pidhash s' = pidhash s" "allproc s' = allproc s" "zombproc s' = zombproc s" "uidcnt s' = uidcnt s" "initproc s' = initproc s"
    "nprocs s' = nprocs s" "nextpid s' = nextpid s" "pidchecked s' = pidchecked s" "pcurproc s' = pcurproc s" "t_session s' = t_session s"
  using assms by (simp_all add: moved_def sess_def option.map_comp o_def)

lemma moved_grp:
  assumes "moved p g r G0 E0 s s'" "pgrps s' h = Some H'"
  shows "\<exists>H. pgrps s h = Some H \<and> \<not> (h = pp_pgrp r \<and> pg_members G0 = [p]) \<and> pg_session H' = pg_session H \<and> pg_id H' = pg_id H \<and>
    pg_jobc H' = pg_jobc H + jobs s p (pp_children r) g h - jobs s p (pp_children r) (pp_pgrp r) h \<and>
    pg_members H' = (if h = g then p # pg_members H else if h = pp_pgrp r then remove1 p (pg_members H) else pg_members H)"
proof -
  have e: "pgrps s' h = (if h = pp_pgrp r \<and> pg_members G0 = [p] then None
      else map_option (\<lambda>H. H\<lparr>pg_jobc := pg_jobc H + jobs s p (pp_children r) g h - jobs s p (pp_children r) (pp_pgrp r) h,
             pg_members := (if h = g then p # pg_members H else if h = pp_pgrp r then remove1 p (pg_members H) else pg_members H)\<rparr>) (pgrps s h))"
    using assms(1) unfolding moved_def by blast
  then have "\<not> (h = pp_pgrp r \<and> pg_members G0 = [p])" using assms(2) by auto
  with e show ?thesis using assms(2) by (cases "pgrps s h") auto
qed

lemma moved_grp_ex:
  assumes "moved p g r G0 E0 s s'" "pgrps s h = Some H" "\<not> (h = pp_pgrp r \<and> pg_members G0 = [p])"
  shows "\<exists>H'. pgrps s' h = Some H' \<and> pg_session H' = pg_session H \<and> pg_id H' = pg_id H \<and>
    pg_members H' = (if h = g then p # pg_members H else if h = pp_pgrp r then remove1 p (pg_members H) else pg_members H)"
proof -
  have "pgrps s' h = Some (H\<lparr>pg_jobc := pg_jobc H + jobs s p (pp_children r) g h - jobs s p (pp_children r) (pp_pgrp r) h,
      pg_members := (if h = g then p # pg_members H else if h = pp_pgrp r then remove1 p (pg_members H) else pg_members H)\<rparr>)"
    using assms unfolding moved_def by simp
  then show ?thesis by simp
qed

text \<open>The situation of a move, and what it keeps.\<close>

definition mv :: "nat \<Rightarrow> nat \<Rightarrow> pproc \<Rightarrow> nat \<Rightarrow> pgrp_s \<Rightarrow> session_s \<Rightarrow> pgsys \<Rightarrow> pgsys \<Rightarrow> bool" where
  "mv p g r q G0 E0 s s' \<longleftrightarrow> links_ok s \<and> tree_ok s \<and> sess_ok s \<and> ids_ok s \<and> pprocs s p = Some r \<and> pp_stat r \<noteq> SZOMB \<and> pp_pptr r = Some q \<and>
     pgrps s (pp_pgrp r) = Some G0 \<and> sessions s (pg_session G0) = Some E0 \<and> pgrps s g \<noteq> None \<and> g \<noteq> pp_pgrp r \<and> moved p g r G0 E0 s s'"

lemma mvD:
  assumes "mv p g r q G0 E0 s s'"
  shows "links_ok s" "tree_ok s" "sess_ok s" "ids_ok s" "pprocs s p = Some r" "pp_stat r \<noteq> SZOMB" "pp_pptr r = Some q"
    "pgrps s (pp_pgrp r) = Some G0" "sessions s (pg_session G0) = Some E0" "pgrps s g \<noteq> None" "g \<noteq> pp_pgrp r" "moved p g r G0 E0 s s'"
  using assms unfolding mv_def by blast+

lemma mv_kept:
  assumes "mv p g r q G0 E0 s s'" "x \<noteq> p" "pprocs s x = Some t"
  shows "\<not> (pp_pgrp t = pp_pgrp r \<and> pg_members G0 = [p])"
proof
  note pre = mvD [OF assms(1)]
  assume a: "pp_pgrp t = pp_pgrp r \<and> pg_members G0 = [p]"
  then have "x \<in> set (pg_members G0)" using links_okD(3) [OF pre(1,8), of x] assms(3) by auto
  then show False using a assms(2) by auto
qed

lemma mv_links:
  assumes "mv p g r q G0 E0 s s'"
  shows "links_ok s'"
proof -
  note pre = mvD [OF assms] and m = movedD [OF mvD(12) [OF assms]]
  note L = links_okD [OF pre(1)]
  have np: "p \<notin> set (pg_members H)" if "pgrps s g = Some H" for H using L(3) [OF that] pre(5,11) by auto
  show ?thesis unfolding links_ok_def
  proof (intro conjI allI impI)
    fix x t assume t: "pprocs s' x = Some t"
    show "\<exists>H. pgrps s' (pp_pgrp t) = Some H \<and> x \<in> set (pg_members H)"
    proof (cases "x = p")
      case True
      obtain G where "pgrps s g = Some G" using pre(10) by blast
      then show ?thesis using moved_grp_ex [OF pre(12), of g] pre(11) t True m(1) by fastforce
    next
      case False
      then have x: "pprocs s x = Some t" using t m(1) by simp
      then obtain H where H: "pgrps s (pp_pgrp t) = Some H" "x \<in> set (pg_members H)" using L(1) by blast
      then show ?thesis using moved_grp_ex [OF pre(12) H(1)] mv_kept [OF assms False x] False by fastforce
    qed
  next
    fix h H' assume "pgrps s' h = Some H'"
    from moved_grp [OF pre(12) this] obtain H where H: "pgrps s h = Some H"
      "pg_members H' = (if h = g then p # pg_members H else if h = pp_pgrp r then remove1 p (pg_members H) else pg_members H)" by blast
    show "distinct (pg_members H')" using H np L(2) [OF H(1)] by auto
    have "x \<noteq> p \<Longrightarrow> x \<in> set (pg_members H') \<longleftrightarrow> x \<in> set (pg_members H)" for x using H(2) by auto
    moreover have "p \<in> set (pg_members H') \<longleftrightarrow> h = g" using H L(2,3) [OF H(1)] pre(5) by auto
    ultimately show "\<forall>x\<in>set (pg_members H'). \<exists>t. pprocs s' x = Some t \<and> pp_pgrp t = h"
      using L(3) [OF H(1)] unfolding m(1) by (metis fun_upd_apply pproc.select_convs(3) pproc.update_convs(3) pproc.surjective)
  qed
qed

text \<open>The tree, and what it depends on.\<close>

definition tview :: "pgsys \<Rightarrow> nat \<Rightarrow> (nat option \<times> int \<times> int \<times> nat list \<times> bool) option" where
  "tview s p = map_option (\<lambda>r. (pp_pptr r, pp_pid r, pp_oppid r, pp_children r, pp_stat r = SZOMB)) (pprocs s p)"

lemma tview_Some:
  assumes "tview s' = tview s" "pprocs s' p = Some r'"
  shows "\<exists>r. pprocs s p = Some r \<and> pp_pptr r' = pp_pptr r \<and> pp_pid r' = pp_pid r \<and> pp_oppid r' = pp_oppid r \<and> pp_children r' = pp_children r \<and>
    (pp_stat r' = SZOMB \<longleftrightarrow> pp_stat r = SZOMB)"
  using fun_cong [OF assms(1), of p] assms(2) by (cases "pprocs s p") (auto simp: tview_def)

lemma rooted_cong: "rooted s p \<Longrightarrow> tview s' = tview s \<Longrightarrow> rooted s' p"
proof (induction rule: rooted.induct)
  case (root p r)
  then obtain r' where "pprocs s' p = Some r'" "pp_pptr r' = None" using tview_Some [of s s' p r] by auto
  then show ?case by (rule rooted.root)
next
  case (up p r q)
  then obtain r' where "pprocs s' p = Some r'" "pp_pptr r' = Some q" using tview_Some [of s s' p r] by auto
  then show ?case using up by (intro rooted.up [of s' p r' q]) auto
qed

lemma tree_cong:
  assumes "tview s' = tview s" "tree_ok s"
  shows "tree_ok s'"
  unfolding tree_ok_def
proof (intro allI impI)
  fix p r' assume "pprocs s' p = Some r'"
  then obtain r where r: "pprocs s p = Some r" "pp_pptr r' = pp_pptr r" "pp_pid r' = pp_pid r" "pp_oppid r' = pp_oppid r"
    "pp_children r' = pp_children r" "pp_stat r' = SZOMB \<longleftrightarrow> pp_stat r = SZOMB" using tview_Some [OF assms(1)] by blast
  have "(\<exists>rc. pprocs s' c = Some rc \<and> pp_pptr rc = Some p) \<longleftrightarrow> (\<exists>rc. pprocs s c = Some rc \<and> pp_pptr rc = Some p)" for c
    using tview_Some [OF assms(1), of c] tview_Some [OF assms(1) [symmetric], of c] by metis
  then show "rooted s' p \<and> (pp_pptr r' = None \<longleftrightarrow> pp_pid r' = 0) \<and> pp_oppid r' = 0 \<and> distinct (pp_children r') \<and>
      (pp_stat r' = SZOMB \<longrightarrow> pp_children r' = []) \<and> (\<forall>c. c \<in> set (pp_children r') \<longleftrightarrow> (\<exists>rc. pprocs s' c = Some rc \<and> pp_pptr rc = Some p))"
    using r tree_okD(1-6) [OF assms(2) r(1)] rooted_cong [OF _ assms(1)] by auto
qed

lemma tview_alive: "tview s' = tview s \<Longrightarrow> alive s' = alive s"
  unfolding fun_eq_iff alive_def by (metis tview_Some [of s' s] tview_Some [of s s'] ext)

lemma tview_dom: "tview s' = tview s \<Longrightarrow> dom (pprocs s') = dom (pprocs s)"
  using tview_Some [of s' s] tview_Some [of s s'] by fastforce

lemma mv_tview: "mv p g r q G0 E0 s s' \<Longrightarrow> tview s' = tview s"
  using movedD(1) [OF mvD(12)] mvD(5) by (fastforce simp: tview_def fun_eq_iff)

lemma mv_used:
  assumes "mv p g r q G0 E0 s s'" "\<And>h H. pgrps s h = Some H \<Longrightarrow> h \<noteq> g \<Longrightarrow> pg_members H \<noteq> []"
  shows "groups_used s'"
  unfolding groups_used_def
proof (intro allI impI)
  note pre = mvD [OF assms(1)]
  fix h H' assume "pgrps s' h = Some H'"
  from moved_grp [OF pre(12) this] obtain H where H: "pgrps s h = Some H" "\<not> (h = pp_pgrp r \<and> pg_members G0 = [p])"
    "pg_members H' = (if h = g then p # pg_members H else if h = pp_pgrp r then remove1 p (pg_members H) else pg_members H)" by blast
  have "remove1 p (pg_members H) = [] \<Longrightarrow> pg_members H = [] \<or> pg_members H = [p]" by (cases "pg_members H") (auto split: if_splits)
  then show "pg_members H' \<noteq> []" using H assms(2) [OF H(1)] pre(8) by auto
qed

lemma sess_delete:
  assumes "sess_ok s" "ids_ok s" "pgrps s g = Some G0" "sessions s (pg_session G0) = Some E0"
    and m: "\<And>h. sess s' h = (if h = g \<and> del then None else sess s h)"
    and se: "sessions s' = (if del then (sessions s)(pg_session G0 := (if s_count E0 = 1 then None else Some (E0\<lparr>s_count := s_count E0 - 1\<rparr>)))
      else sessions s)"
    and tt: "t_pgrp s' = (if del then (\<lambda>t. if t_pgrp s t = Some g then None else t_pgrp s t) else t_pgrp s)"
  shows "sess_ok s'"
proof -
  let ?e = "pg_session G0"
  have S: "pgrps s h = Some H \<Longrightarrow> sessions s (pg_session H) \<noteq> None"
    "sessions s e = Some E \<Longrightarrow> s_count E = int (card {h. sess s h = Some e}) \<and> (s_ttyvp E \<longrightarrow> s_ttyp E \<noteq> None)"
    "t_pgrp s t = Some h \<Longrightarrow> \<exists>G E. pgrps s h = Some G \<and> sessions s (pg_session G) = Some E \<and> s_ttyp E = Some t" for h H e E t
    using assms(1) unfolding sess_ok_def by blast+
  have g0: "sess s g = Some ?e" using assms(3) by (simp add: sess_def)
  have fin: "finite {h. sess s h = Some e}" for e by (rule ids_finite_groups [OF assms(2)])
  have set: "{h. sess s' h = Some e} = (if del \<and> e = ?e then {h. sess s h = Some e} - {g} else {h. sess s h = Some e})" for e
    using m g0 by auto
  have card: "card {h. sess s' h = Some e} = (if del \<and> e = ?e then card {h. sess s h = Some e} - 1 else card {h. sess s h = Some e})" for e
    unfolding set using g0 fin by simp
  have pos: "0 < card {h. sess s h = Some ?e}" using g0 fin card_gt_0_iff by blast
  have one: "h = g" if "s_count E0 = 1" "sess s h = Some ?e" for h
  proof -
    have "card {h. sess s h = Some ?e} = 1" using S(2) [OF assms(4)] that by simp
    then show ?thesis using that(2) g0 by (metis (mono_tags, lifting) card_1_singletonE mem_Collect_eq singletonD)
  qed
  have bk: "sess s h = Some (pg_session H) \<and> \<not> (h = g \<and> del)" if "pgrps s' h = Some H" for h H
    using m [of h] that by (auto simp: sess_def split: if_splits)
  have S1: "sessions s' (pg_session H') \<noteq> None" if H': "pgrps s' h = Some H'" for h H'
  proof -
    obtain H where H: "pgrps s h = Some H" "pg_session H = pg_session H'" "\<not> (h = g \<and> del)"
      using bk [OF H'] unfolding sess_def by auto
    then show ?thesis using S(1) [OF H(1)] one [of h] by (auto simp: se sess_def)
  qed
  have S2: "s_count E = int (card {h. sess s' h = Some e}) \<and> (s_ttyvp E \<longrightarrow> s_ttyp E \<noteq> None)" if "sessions s' e = Some E" for e E
    using that S(2) [of e E] S(2) [OF assms(4)] pos unfolding card se by (auto split: if_splits)
  have S3: "\<exists>G E. pgrps s' h = Some G \<and> sessions s' (pg_session G) = Some E \<and> s_ttyp E = Some t" if "t_pgrp s' t = Some h" for t h
  proof -
    have t: "t_pgrp s t = Some h" "\<not> (h = g \<and> del)" using that by (auto simp: tt split: if_splits)
    from S(3) [OF t(1)] obtain H E where H: "pgrps s h = Some H" "sessions s (pg_session H) = Some E" "s_ttyp E = Some t" by blast
    have "sess s' h = Some (pg_session H)" using m [of h] t(2) H(1) by (auto simp: sess_def)
    then obtain H' where H': "pgrps s' h = Some H'" "pg_session H' = pg_session H" unfolding sess_def by auto
    then show ?thesis using H S1 [OF H'(1)] assms(4) by (auto simp: se split: if_splits)
  qed
  show ?thesis unfolding sess_ok_def using S1 S2 S3 by blast
qed

lemma mv_sess:
  assumes "mv p g r q G0 E0 s s'"
  shows "sess_ok s'"
proof -
  note pre = mvD [OF assms]
  show ?thesis by (rule sess_delete [OF pre(3,4,8,9) movedD(2) [OF pre(12)]]) (use pre(12) in \<open>unfold moved_def, blast\<close>)+
qed

lemma ids_change:
  assumes "ids_ok s" "pidhash s' = pidhash s" "allproc s' = allproc s" "zombproc s' = zombproc s" "nprocs s' = nprocs s" "nextpid s' = nextpid s"
    "pidchecked s' = pidchecked s" "alive s' = alive s" "dom (pprocs s') = dom (pprocs s)"
    "\<And>x t'. pprocs s' x = Some t' \<Longrightarrow> \<exists>t. pprocs s x = Some t \<and> pp_pid t = pp_pid t'"
    "\<And>h H'. pgrps s' h = Some H' \<Longrightarrow> (\<exists>H. pgrps s h = Some H \<and> pg_id H = pg_id H')"
    "distinct (pgrphash s')" "set (pgrphash s') = dom (pgrps s')"
  shows "ids_ok s'"
proof -
  have a: "\<forall>p q r t. pprocs s p = Some r \<longrightarrow> pprocs s q = Some t \<longrightarrow> pp_pid r = pp_pid t \<longrightarrow> p = q"
    "\<forall>g h G H. pgrps s g = Some G \<longrightarrow> pgrps s h = Some H \<longrightarrow> pg_id G = pg_id H \<longrightarrow> g = h"
    "\<forall>x. nextpid s < x \<longrightarrow> x < pidchecked s \<longrightarrow>
        (\<forall>p r. pprocs s p = Some r \<longrightarrow> pp_pid r \<noteq> x) \<and> (\<forall>g G. pgrps s g = Some G \<longrightarrow> pg_id G \<noteq> x)"
    using assms(1) unfolding ids_ok_def by blast+
  have b: "\<forall>p q r t. pprocs s' p = Some r \<longrightarrow> pprocs s' q = Some t \<longrightarrow> pp_pid r = pp_pid t \<longrightarrow> p = q" using a(1) assms(10) by metis
  have c: "\<forall>g h G H. pgrps s' g = Some G \<longrightarrow> pgrps s' h = Some H \<longrightarrow> pg_id G = pg_id H \<longrightarrow> g = h" using a(2) assms(11) by metis
  have d: "\<forall>x. nextpid s < x \<longrightarrow> x < pidchecked s \<longrightarrow>
        (\<forall>p r. pprocs s' p = Some r \<longrightarrow> pp_pid r \<noteq> x) \<and> (\<forall>g G. pgrps s' g = Some G \<longrightarrow> pg_id G \<noteq> x)" using a(3) assms(10,11) by metis
  show ?thesis using assms(1) assms(12,13) b c d unfolding ids_ok_def assms(2-9) by (elim conjE, intro conjI) assumption+
qed

lemma mv_ids:
  assumes "mv p g r q G0 E0 s s'"
  shows "ids_ok s'"
proof -
  note pre = mvD [OF assms] and m = movedD [OF mvD(12) [OF assms]] and v = mv_tview [OF assms]
  have h: "pgrphash s' = (if pg_members G0 = [p] then remove1 (pp_pgrp r) (pgrphash s) else pgrphash s)"
    using pre(12) unfolding moved_def by blast
  have d: "dom (pgrps s') = (if pg_members G0 = [p] then dom (pgrps s) - {pp_pgrp r} else dom (pgrps s))"
  proof (intro set_eqI)
    fix h
    have "pgrps s' h \<noteq> None \<longleftrightarrow> pgrps s h \<noteq> None \<and> \<not> (h = pp_pgrp r \<and> pg_members G0 = [p])"
      using moved_grp [OF pre(12), of h] moved_grp_ex [OF pre(12), of h] by blast
    then show "h \<in> dom (pgrps s') \<longleftrightarrow> h \<in> (if pg_members G0 = [p] then dom (pgrps s) - {pp_pgrp r} else dom (pgrps s))" by auto
  qed
  have o: "distinct (pgrphash s)" "set (pgrphash s) = dom (pgrps s)" using pre(4) unfolding ids_ok_def by blast+
  show ?thesis
  proof (rule ids_change [OF pre(4) m(3-5) m(8-10) tview_alive [OF v] tview_dom [OF v]])
    show "\<exists>t. pprocs s x = Some t \<and> pp_pid t = pp_pid t'" if "pprocs s' x = Some t'" for x t'
      using tview_Some [OF v that] by auto
    show "\<exists>H. pgrps s h = Some H \<and> pg_id H = pg_id H'" if "pgrps s' h = Some H'" for h H'
      using moved_grp [OF pre(12) that] by auto
    show "distinct (pgrphash s')" "set (pgrphash s') = dom (pgrps s')" unfolding h d using o by simp_all
  qed
qed

text \<open>The counters.\<close>

lemma mv_parent:
  assumes "mv p g r q G0 E0 s s'" "pprocs s x = Some t" "x \<noteq> p"
  shows "parent_pgrp s' x = (if pp_pptr t = Some p then Some g else parent_pgrp s x)"
proof -
  note pre = mvD [OF assms(1)] and m = movedD [OF mvD(12) [OF assms(1)]]
  show ?thesis using assms(2,3) pre(5) by (cases "pp_pptr t") (auto simp: parent_pgrp_def m(1))
qed

lemma mv_sess_kept:
  assumes "mv p g r q G0 E0 s s'" "pprocs s x = Some t" "x \<noteq> p"
  shows "sess s' (pp_pgrp t) = sess s (pp_pgrp t)"
  using mv_kept [OF assms(1,3,2)] movedD(2) [OF mvD(12) [OF assms(1)]] by auto

lemma mv_qual:
  assumes "mv p g r q G0 E0 s s'"
  shows "qual s h p \<longleftrightarrow> h = pp_pgrp r \<and> self_counts s p (pp_pgrp r)"
    "qual s' h p \<longleftrightarrow> h = g \<and> self_counts s p g"
    "x \<in> set (pp_children r) \<Longrightarrow> qual s h x \<longleftrightarrow> child_counts s (pp_pgrp r) h x"
    "x \<in> set (pp_children r) \<Longrightarrow> qual s' h x \<longleftrightarrow> child_counts s g h x"
    "x \<noteq> p \<Longrightarrow> x \<notin> set (pp_children r) \<Longrightarrow> qual s' h x \<longleftrightarrow> qual s h x"
proof -
  note pre = mvD [OF assms] and m = movedD [OF mvD(12) [OF assms]]
  obtain u where u: "pprocs s q = Some u" "q \<noteq> p" using tree_parent [OF pre(2,5,7)] by blast
  have gk: "sess s' g = sess s g" using m(2) [of g] pre(11) by simp
  show "qual s h p \<longleftrightarrow> h = pp_pgrp r \<and> self_counts s p (pp_pgrp r)" using pre(5,6) by (auto simp: qual_def)
  have "self_counts s' p g = self_counts s p g" using u pre(5,7) mv_sess_kept [OF assms u] gk
    by (simp add: self_counts_def parent_pgrp_def m(1))
  then show "qual s' h p \<longleftrightarrow> h = g \<and> self_counts s p g" using pre(6) by (auto simp: qual_def m(1))
  have par: "\<exists>t. pprocs s x = Some t \<and> pp_pptr t = Some p \<and> x \<noteq> p" if "x \<in> set (pp_children r)" for x
    using tree_okD(6,8) [OF pre(2,5)] that by metis
  show "qual s h x \<longleftrightarrow> child_counts s (pp_pgrp r) h x" if "x \<in> set (pp_children r)"
    using par [OF that] pre(5) by (auto simp: qual_def child_counts_def self_counts_def parent_pgrp_def)
  show "qual s' h x \<longleftrightarrow> child_counts s g h x" if x: "x \<in> set (pp_children r)"
  proof -
    obtain t where t: "pprocs s x = Some t" "pp_pptr t = Some p" "x \<noteq> p" using par [OF x] by blast
    have "qual s' h x \<longleftrightarrow> pp_stat t \<noteq> SZOMB \<and> pp_pgrp t = h \<and> g \<noteq> h \<and> sess s g = sess s h"
      using t mv_parent [OF assms t(1,3)] mv_sess_kept [OF assms t(1,3)] gk by (auto simp: qual_def self_counts_def m(1))
    then show ?thesis using t by (auto simp: child_counts_def)
  qed
  show "qual s' h x \<longleftrightarrow> qual s h x" if x: "x \<noteq> p" "x \<notin> set (pp_children r)"
  proof (cases "pprocs s x")
    case (Some t)
    have np: "pp_pptr t \<noteq> Some p" using tree_okD(6) [OF pre(2,5), of x] x(2) Some by blast
    have k: "sess s' k = sess s k" if pk: "parent_pgrp s x = Some k" for k
    proof -
      obtain y w where y: "pp_pptr t = Some y" "pprocs s y = Some w" "pp_pgrp w = k" using pk Some by (auto simp: parent_pgrp_def bind_eq_Some_conv)
      then show ?thesis using mv_sess_kept [OF assms y(2)] np by auto
    qed
    show ?thesis using Some x(1) np k mv_parent [OF assms Some x(1)] mv_sess_kept [OF assms Some x(1)]
      by (auto simp: qual_def self_counts_def m(1))
  qed (use x in \<open>simp add: qual_def m(1)\<close>)
qed

lemma qual_finite: "ids_ok s \<Longrightarrow> finite {x. qual s h x}"
  by (rule finite_subset [OF _ ids_finite]) (auto simp: qual_def)

lemma mv_card:
  assumes "mv p g r q G0 E0 s s'"
  shows "int (card {x. qual s' h x}) = int (card {x. qual s h x}) + jobs s p (pp_children r) g h - jobs s p (pp_children r) (pp_pgrp r) h"
proof -
  note pre = mvD [OF assms] and Q = mv_qual [OF assms]
  have c: "p \<notin> set (pp_children r)" "distinct (pp_children r)" using tree_okD [OF pre(2,5)] by auto
  have f: "filter (qual s h) (pp_children r) = filter (child_counts s (pp_pgrp r) h) (pp_children r)"
    "filter (qual s' h) (pp_children r) = filter (child_counts s g h) (pp_children r)" using Q(3,4) by (simp_all cong: filter_cong)
  have r: "{x. qual s' h x \<and> x \<noteq> p \<and> x \<notin> set (pp_children r)} = {x. qual s h x \<and> x \<noteq> p \<and> x \<notin> set (pp_children r)}" using Q(5) by auto
  show ?thesis
    unfolding card_split [OF qual_finite [OF pre(4)] c] card_split [OF qual_finite [OF mv_ids [OF assms]] c] f r jobs_def Q(1,2) by simp
qed

lemma session_of_sess: "session_of s p = Option.bind (pprocs s p) (\<lambda>r. sess s (pp_pgrp r))"
  unfolding session_of_def sess_def by (cases "pprocs s p") (auto split: option.splits simp: map_option_case)

lemma mv_session:
  assumes "mv p g r q G0 E0 s s'" "x \<noteq> p"
  shows "session_of s' x = session_of s x"
  using assms movedD(1) [OF mvD(12) [OF assms(1)]] mv_sess_kept [OF assms(1) _ assms(2)] by (cases "pprocs s x") (auto simp: session_of_sess)

lemma mv_jobc:
  assumes "mv p g r q G0 E0 s s'" "p \<noteq> initproc s" "jobc_ok s"
  shows "jobc_ok s'"
  unfolding jobc_ok_def
proof (intro allI impI)
  note pre = mvD [OF assms(1)] and m = movedD [OF mvD(12) [OF assms(1)]]
  fix h H' assume H': "pgrps s' h = Some H'" "session_of s' (initproc s') \<noteq> Some (pg_session H')"
  from moved_grp [OF pre(12) H'(1)] obtain H where H: "pgrps s h = Some H" "pg_session H' = pg_session H"
    "pg_jobc H' = pg_jobc H + jobs s p (pp_children r) g h - jobs s p (pp_children r) (pp_pgrp r) h" by blast
  have "pg_jobc H = int (card {x. qual s h x})"
    using assms(3) H(1,2) H'(2) mv_session [OF assms(1), of "initproc s"] assms(2) unfolding jobc_ok_def m(7) by auto
  then show "pg_jobc H' = int (card {x. qual s' h x})" using H(3) mv_card [OF assms(1), of h] by simp
qed

lemma mv_leads:
  assumes "mv p g r q G0 E0 s s'" "leads s e x" "x \<noteq> p"
  shows "leads s' e x"
proof -
  note pre = mvD [OF assms(1)] and m = movedD [OF mvD(12) [OF assms(1)]]
  from assms(2) obtain t H where t: "pprocs s x = Some t" "pp_stat t \<noteq> SZOMB" "pgrps s (pp_pgrp t) = Some H" "pg_session H = e" "pg_id H = pp_pid t"
    unfolding leads_def by blast
  from moved_grp_ex [OF pre(12) t(3) mv_kept [OF assms(1,3) t(1)]] show ?thesis using t assms(3) unfolding leads_def m(1) by auto
qed

lemma mv_sessions:
  assumes "mv p g r q G0 E0 s s'" "sessions s' e = Some E'"
  shows "\<exists>E. sessions s e = Some E \<and> s_leader E' = s_leader E"
proof -
  note pre = mvD [OF assms(1)]
  have "sessions s' = (if pg_members G0 = [p] then (sessions s)(pg_session G0 := (if s_count E0 = 1 then None else Some (E0\<lparr>s_count := s_count E0 - 1\<rparr>)))
                    else sessions s)" using pre(12) unfolding moved_def by blast
  then show ?thesis using assms(2) pre(9) by (auto split: if_splits)
qed

lemma mv_leaders:
  assumes "mv p g r q G0 E0 s s'" "\<And>e E x. sessions s e = Some E \<Longrightarrow> s_leader E = Some x \<Longrightarrow> if x = p then leads s' e p else leads s e x"
  shows "leaders_ok s'"
  unfolding leaders_ok_def
proof (intro allI impI)
  fix e E' x assume a: "sessions s' e = Some E'" "s_leader E' = Some x"
  then obtain E where "sessions s e = Some E" "s_leader E = Some x" using mv_sessions [OF assms(1) a(1)] by auto
  from assms(2) [OF this] show "leads s' e x" using mv_leads [OF assms(1), of e x] by (auto split: if_splits)
qed

lemma ttys_okD:
  assumes "ttys_ok s"
  shows "t_session s t = Some e \<Longrightarrow> \<exists>E. sessions s e = Some E \<and> s_ttyp E = Some t \<and> s_leader E \<noteq> None"
    "sessions s e = Some E \<Longrightarrow> s_leader E \<noteq> None \<Longrightarrow> \<not> s_ttyvp E \<Longrightarrow> s_ttyp E = None"
  using assms unfolding ttys_ok_def by blast+

lemma ttys_add:
  assumes "ttys_ok s" "t_session s' = t_session s" "\<And>e E. sessions s e = Some E \<Longrightarrow> \<exists>n. sessions s' e = Some (E\<lparr>s_count := n\<rparr>)"
    "\<And>e E. sessions s' e = Some E \<Longrightarrow> s_ttyp E = None \<or> (\<exists>F n. sessions s e = Some F \<and> E = F\<lparr>s_count := n\<rparr>)"
  shows "ttys_ok s'"
proof -
  have "\<exists>E. sessions s' e = Some E \<and> s_ttyp E = Some t \<and> s_leader E \<noteq> None" if t: "t_session s' t = Some e" for t e
  proof -
    obtain E where E: "sessions s e = Some E" "s_ttyp E = Some t" "s_leader E \<noteq> None" using ttys_okD(1) [OF assms(1) t [unfolded assms(2)]] by blast
    obtain n where "sessions s' e = Some (E\<lparr>s_count := n\<rparr>)" using assms(3) [OF E(1)] ..
    then show ?thesis using E by simp
  qed
  moreover have "s_ttyp E = None" if e: "sessions s' e = Some E" "s_leader E \<noteq> None" "\<not> s_ttyvp E" for e E
    using assms(4) [OF e(1)]
  proof
    assume "\<exists>F n. sessions s e = Some F \<and> E = F\<lparr>s_count := n\<rparr>"
    then obtain F n where F: "sessions s e = Some F" "E = F\<lparr>s_count := n\<rparr>" by blast
    show ?thesis using ttys_okD(2) [OF assms(1) F(1)] e(2,3) F(2) by simp
  qed
  ultimately show ?thesis unfolding ttys_ok_def by blast
qed

lemma ttys_delete:
  assumes "ttys_ok s" "sess_ok s'" "t_session s' = t_session s" "\<And>e E. sessions s' e = Some E \<Longrightarrow> \<exists>F n. sessions s e = Some F \<and> E = F\<lparr>s_count := n\<rparr>"
    "\<And>e E x. sessions s e = Some E \<Longrightarrow> s_leader E = Some x \<Longrightarrow> leads s' e x"
  shows "ttys_ok s'"
proof -
  have "\<exists>E. sessions s' e = Some E \<and> s_ttyp E = Some t \<and> s_leader E \<noteq> None" if t: "t_session s' t = Some e" for t e
  proof -
    obtain E x where E: "sessions s e = Some E" "s_ttyp E = Some t" "s_leader E = Some x"
      using ttys_okD(1) [OF assms(1) t [unfolded assms(3)]] by blast
    have "leads s' e x" by (rule assms(5) [OF E(1,3)])
    then obtain F where F: "sessions s' e = Some F" using assms(2) unfolding sess_ok_def leads_def by blast
    then show ?thesis using assms(4) [OF F] E by auto
  qed
  moreover have "s_ttyp E = None" if "sessions s' e = Some E" "s_leader E \<noteq> None" "\<not> s_ttyvp E" for e E
    using ttys_okD(2) [OF assms(1)] assms(4) [OF that(1)] that(2,3) by auto
  ultimately show ?thesis unfolding ttys_ok_def by blast
qed

lemma session_count_down:
  assumes "S' = (if b then S(x := (if c then None else Some (E0\<lparr>s_count := n\<rparr>))) else S)" "S x = Some E0" "S' e = Some E"
  shows "\<exists>F m. S e = Some F \<and> E = F\<lparr>s_count := m\<rparr>"
proof (cases "b \<and> e = x")
  case True
  then show ?thesis using assms by (auto split: if_splits)
next
  case False
  then have "S e = Some E" "E = E\<lparr>s_count := s_count E\<rparr>" using assms by (auto split: if_splits)
  then show ?thesis by blast
qed

lemma mv_ttys:
  assumes "mv p g r q G0 E0 s s'" "\<And>e E x. sessions s e = Some E \<Longrightarrow> s_leader E = Some x \<Longrightarrow> if x = p then leads s' e p else leads s e x" "ttys_ok s"
  shows "ttys_ok s'"
proof (rule ttys_delete [OF assms(3) mv_sess [OF assms(1)] movedD(12) [OF mvD(12) [OF assms(1)]]])
  note pre = mvD [OF assms(1)]
  have "sessions s' = (if pg_members G0 = [p] then (sessions s)(pg_session G0 := (if s_count E0 = 1 then None else Some (E0\<lparr>s_count := s_count E0 - 1\<rparr>)))
      else sessions s)" using pre(12) unfolding moved_def by blast
  from session_count_down [OF this pre(9)]
  show "\<exists>F n. sessions s e = Some F \<and> E = F\<lparr>s_count := n\<rparr>" if "sessions s' e = Some E" for e E using that .
  show "leads s' e x" if "sessions s e = Some E" "s_leader E = Some x" for e E x
    using assms(2) [OF that] mv_leads [OF assms(1), of e x] by (auto split: if_splits)
qed

lemma init_okE:
  assumes "init_ok s"
  obtains i y t e E where "pprocs s (initproc s) = Some i" "pp_pid i = 1" "pp_stat i \<noteq> SZOMB" "pp_pptr i = Some y"
    "pprocs s y = Some t" "pp_pptr t = None" "session_of s (initproc s) = Some e" "sessions s e = Some E" "s_leader E = Some (initproc s)"
  using assms unfolding init_ok_def by (auto simp: bind_eq_Some_conv)

lemma init_okI:
  assumes "pprocs s (initproc s) = Some i" "pp_pid i = 1" "pp_stat i \<noteq> SZOMB" "pp_pptr i = Some y" "pprocs s y = Some t" "pp_pptr t = None"
    "session_of s (initproc s) = Some e" "sessions s e = Some E" "s_leader E = Some (initproc s)"
  shows "init_ok s"
  using assms unfolding init_ok_def by auto

lemma mv_init:
  assumes "mv p g r q G0 E0 s s'" "p \<noteq> initproc s" "init_ok s"
  shows "init_ok s'"
proof -
  note pre = mvD [OF assms(1)] and m = movedD [OF mvD(12) [OF assms(1)]]
  obtain i y t e E where i: "pprocs s (initproc s) = Some i" "pp_pid i = 1" "pp_stat i \<noteq> SZOMB" "pp_pptr i = Some y"
    "pprocs s y = Some t" "pp_pptr t = None" "session_of s (initproc s) = Some e" "sessions s e = Some E" "s_leader E = Some (initproc s)"
    by (rule init_okE [OF assms(3)])
  have y: "y \<noteq> p" using i(5,6) pre(5,7) by auto
  have "sess_ok s'" by (rule mv_sess [OF assms(1)])
  have e: "session_of s' (initproc s) = Some e" using mv_session [OF assms(1) assms(2) [symmetric]] i(7) by simp
  then have "sessions s' e \<noteq> None" using \<open>sess_ok s'\<close> unfolding sess_ok_def by (auto simp: session_of_def bind_eq_Some_conv)
  then obtain E' where E': "sessions s' e = Some E'" by blast
  then have "s_leader E' = Some (initproc s)" using mv_sessions [OF assms(1) E'] i(8,9) by auto
  then show ?thesis unfolding init_ok_def m(1,7) using i(1-6) y assms(2) e E' by auto
qed

lemma mv_uids:
  assumes "mv p g r q G0 E0 s s'" "uids_ok s"
  shows "uids_ok s'"
proof -
  have "map_option pp_ruid (pprocs s' x) = map_option pp_ruid (pprocs s x)" for x
    using movedD(1) [OF mvD(12) [OF assms(1)]] mvD(5) [OF assms(1)] by auto
  then show ?thesis using assms(2) movedD(6) [OF mvD(12) [OF assms(1)]] unfolding uids_ok_def by simp
qed

section \<open>A new group\<close>

definition new_grp :: "nat \<Rightarrow> pproc \<Rightarrow> nat \<Rightarrow> int \<Rightarrow> nat \<Rightarrow> pgsys \<Rightarrow> pgsys \<Rightarrow> bool" where
  "new_grp p r1 ng pgid e s s1 \<longleftrightarrow>
     pprocs s1 = (pprocs s)(p \<mapsto> r1) \<and>
     pgrps s1 = (pgrps s)(ng \<mapsto> \<lparr>pg_id = pgid, pg_session = e, pg_jobc = 0, pg_members = []\<rparr>) \<and> pgrphash s1 = ng # pgrphash s \<and>
     t_pgrp s1 = t_pgrp s \<and> pidhash s1 = pidhash s \<and> allproc s1 = allproc s \<and> zombproc s1 = zombproc s \<and> uidcnt s1 = uidcnt s \<and>
     initproc s1 = initproc s \<and> nprocs s1 = nprocs s \<and> nextpid s1 = nextpid s \<and> pidchecked s1 = pidchecked s \<and> pcurproc s1 = pcurproc s \<and>
     t_session s1 = t_session s"

lemma new_grpD:
  assumes "new_grp p r1 ng pgid e s s1"
  shows "pprocs s1 = (pprocs s)(p \<mapsto> r1)" "pgrps s1 = (pgrps s)(ng \<mapsto> \<lparr>pg_id = pgid, pg_session = e, pg_jobc = 0, pg_members = []\<rparr>)"
    "pgrphash s1 = ng # pgrphash s" "t_pgrp s1 = t_pgrp s" "pidhash s1 = pidhash s" "allproc s1 = allproc s" "zombproc s1 = zombproc s"
    "uidcnt s1 = uidcnt s" "initproc s1 = initproc s" "nprocs s1 = nprocs s" "nextpid s1 = nextpid s" "pidchecked s1 = pidchecked s"
    "pcurproc s1 = pcurproc s" "sess s1 h = (if h = ng then Some e else sess s h)" "t_session s1 = t_session s"
  using assms by (simp_all add: new_grp_def sess_def)

lemma new_grp_pgrp:
  assumes "links_ok s" "pprocs s p = Some r" "pgrps s ng = None" "new_grp p (r\<lparr>pp_flag := f\<rparr>) ng pgid e s s1"
  shows "map_option pp_pgrp (pprocs s1 x) = map_option pp_pgrp (pprocs s x)" "pprocs s x = Some t \<Longrightarrow> pp_pgrp t \<noteq> ng"
    "tview s1 = tview s" "parent_pgrp s1 x = parent_pgrp s x" "parent_pgrp s x \<noteq> Some ng" "session_of s1 x = session_of s x"
proof -
  note n = new_grpD [OF assms(4)]
  show v: "map_option pp_pgrp (pprocs s1 x) = map_option pp_pgrp (pprocs s x)" for x using assms(2) by (simp add: n(1))
  show g: "pprocs s x = Some t \<Longrightarrow> pp_pgrp t \<noteq> ng" for x t using links_okD(1) [OF assms(1), of x t] assms(3) by auto
  show "tview s1 = tview s" using assms(2) by (auto simp: tview_def n(1) fun_eq_iff)
  show "parent_pgrp s1 x = parent_pgrp s x"
    using assms(2) by (auto simp: parent_pgrp_def n(1) split: Option.bind_split)
  show "parent_pgrp s x \<noteq> Some ng" using g by (auto simp: parent_pgrp_def bind_eq_Some_conv)
  show "session_of s1 x = session_of s x" using g assms(2) by (cases "pprocs s x") (auto simp: session_of_sess n(1,14))
qed

lemma new_grp_keeps:
  assumes ok: "links_ok s" "tree_ok s" "ids_ok s" "uids_ok s" "jobc_ok s"
    and r: "pprocs s p = Some r" "pgid = pp_pid r" "pgfind s pgid = None" "pgrps s ng = None"
    and n: "new_grp p (r\<lparr>pp_flag := f\<rparr>) ng pgid e s s1"
  shows "links_ok s1" "tree_ok s1" "ids_ok s1" "uids_ok s1" "jobc_ok s1"
proof -
  note N = new_grpD [OF n] and P = new_grp_pgrp [OF ok(1) r(1,4) n]
  show "tree_ok s1" by (rule tree_cong [OF P(3) ok(2)])
  show "links_ok s1" using ok(1) P(2) r(1,4) unfolding links_ok_def N(1,2) by (auto split: if_splits) force
  show "uids_ok s1"
  proof -
    have "map_option pp_ruid (pprocs s1 x) = map_option pp_ruid (pprocs s x)" for x using r(1) by (simp add: N(1))
    then show ?thesis using ok(4) unfolding uids_ok_def N(8) by simp
  qed
  have none: "pg_id G \<noteq> pgid" if "pgrps s g = Some G" for g G
    using r(3) that ok(3) unfolding pgfind_def find_None_iff ids_ok_def by force
  show "ids_ok s1"
  proof -
    have o: "distinct (pgrphash s1)" "set (pgrphash s1) = dom (pgrps s1)" using ok(3) r(4) unfolding ids_ok_def N(2,3) by auto
    have pid: "\<exists>t. pprocs s x = Some t \<and> pp_pid t = pp_pid t'" if "pprocs s1 x = Some t'" for x t' using tview_Some [OF P(3) that] by auto
    have a: "\<forall>p q r t. pprocs s1 p = Some r \<longrightarrow> pprocs s1 q = Some t \<longrightarrow> pp_pid r = pp_pid t \<longrightarrow> p = q"
      using ok(3) pid unfolding ids_ok_def by metis
    have b: "\<forall>g h G H. pgrps s1 g = Some G \<longrightarrow> pgrps s1 h = Some H \<longrightarrow> pg_id G = pg_id H \<longrightarrow> g = h"
    proof -
      have "\<forall>g h G H. pgrps s g = Some G \<longrightarrow> pgrps s h = Some H \<longrightarrow> pg_id G = pg_id H \<longrightarrow> g = h"
        using ok(3) unfolding ids_ok_def by blast
      then show ?thesis using none unfolding N(2) by (metis fun_upd_apply option.inject pgrp_s.select_convs(1))
    qed
    have c: "\<forall>x. nextpid s < x \<longrightarrow> x < pidchecked s \<longrightarrow>
        (\<forall>p r. pprocs s1 p = Some r \<longrightarrow> pp_pid r \<noteq> x) \<and> (\<forall>g G. pgrps s1 g = Some G \<longrightarrow> pg_id G \<noteq> x)"
    proof (intro allI impI conjI)
      fix x assume x: "nextpid s < x" "x < pidchecked s"
      have f: "(\<forall>p r. pprocs s p = Some r \<longrightarrow> pp_pid r \<noteq> x) \<and> (\<forall>g G. pgrps s g = Some G \<longrightarrow> pg_id G \<noteq> x)"
        using ok(3) x unfolding ids_ok_def by blast
      then have "pgid \<noteq> x" using r(1,2) by blast
      show "pp_pid r \<noteq> x" if "pprocs s1 p = Some r" for p r using f pid [OF that] by metis
      show "pg_id G \<noteq> x" if "pgrps s1 g = Some G" for g G using f that \<open>pgid \<noteq> x\<close> by (cases "g = ng") (auto simp: N(2))
    qed
    show ?thesis using ok(3) o a b c unfolding ids_ok_def N(5-7,10-12) tview_alive [OF P(3)] tview_dom [OF P(3)]
      by (elim conjE, intro conjI) assumption+
  qed
  show "jobc_ok s1" unfolding jobc_ok_def
  proof (intro allI impI)
    fix h H assume h: "pgrps s1 h = Some H" "session_of s1 (initproc s1) \<noteq> Some (pg_session H)"
    have sc: "self_counts s1 x h = self_counts s x h" if "h \<noteq> ng" for x
      unfolding self_counts_def P(4) using that P(5) [of x] by (cases "parent_pgrp s x") (simp_all add: N(14))
    have q: "qual s1 h x \<longleftrightarrow> h \<noteq> ng \<and> qual s h x" for x
    proof (cases "h = ng")
      case True
      then show ?thesis using P(1,2) [of x] P(2) [OF r(1)] by (auto simp: qual_def N(1) split: if_splits)
    next
      case False
      then show ?thesis using sc [OF False] r(1) by (auto simp: qual_def N(1))
    qed
    show "pg_jobc H = int (card {x. qual s1 h x})"
    proof (cases "h = ng")
      case False
      then show ?thesis using h ok(5) unfolding jobc_ok_def q P(6) N(9) by (auto simp: N(2))
    next
      case True
      then have "{x. qual s1 h x} = {}" using q by auto
      then show ?thesis using h True by (auto simp: N(2))
    qed
  qed
qed

lemma find_unique: "x \<in> set xs \<Longrightarrow> P x \<Longrightarrow> (\<And>y. y \<in> set xs \<Longrightarrow> P y \<Longrightarrow> y = x) \<Longrightarrow> find P xs = Some x"
proof -
  assume a: "x \<in> set xs" "P x" "\<And>y. y \<in> set xs \<Longrightarrow> P y \<Longrightarrow> y = x"
  then obtain y where y: "find P xs = Some y" by (metis find_None_iff not_None_eq)
  then have "y \<in> set xs" "P y" unfolding find_Some_iff by auto
  then show ?thesis using a(3) y by simp
qed

lemma pfind_self:
  assumes "ids_ok s" "pprocs s p = Some r" "pp_stat r \<noteq> SZOMB"
  shows "pfind s (pp_pid r) = Some p"
  unfolding pfind_def by (rule find_unique) (use assms in \<open>auto simp: ids_ok_def alive_def\<close>)

lemma pgfind_Some:
  assumes "ids_ok s" "pgfind s n = Some g"
  shows "\<exists>G. pgrps s g = Some G \<and> pg_id G = n"
  using assms unfolding pgfind_def find_Some_iff by auto

lemma pfind_Some:
  assumes "ids_ok s" "pfind s n = Some p"
  shows "\<exists>r. pprocs s p = Some r \<and> pp_pid r = n \<and> pp_stat r \<noteq> SZOMB"
proof -
  have "p \<in> set (pidhash s)" "map_option pp_pid (pprocs s p) = Some n" using assms(2) unfolding pfind_def find_Some_iff by auto
  then show ?thesis using assms(1) unfolding ids_ok_def alive_def by auto
qed

text \<open>The effect of \<open>enterpgrp\<close>: only the group of \<open>p\<close> changes.\<close>

definition entered :: "nat \<Rightarrow> int \<Rightarrow> pflag set \<Rightarrow> pgsys \<Rightarrow> pgsys \<Rightarrow> bool" where
  "entered p pgid f s s' \<longleftrightarrow>
     (\<exists>r g G. pprocs s p = Some r \<and> pprocs s' = (pprocs s)(p \<mapsto> r\<lparr>pp_flag := f, pp_pgrp := g\<rparr>) \<and> pgrps s' g = Some G \<and> pg_id G = pgid) \<and>
     pcurproc s' = pcurproc s \<and> initproc s' = initproc s"

lemma mv_entered:
  assumes "mv p g (r\<lparr>pp_flag := f\<rparr>) q G0 E0 s1 s'" "pprocs s p = Some r" "pprocs s1 = (pprocs s)(p \<mapsto> r\<lparr>pp_flag := f\<rparr>)"
    "pgrps s1 g = Some G" "pg_id G = pgid" "pcurproc s1 = pcurproc s" "initproc s1 = initproc s"
  shows "entered p pgid f s s'"
proof -
  note pre = mvD [OF assms(1)] and m = movedD [OF mvD(12) [OF assms(1)]]
  obtain H where "pgrps s' g = Some H" "pg_id H = pgid" using moved_grp_ex [OF pre(12) assms(4)] pre(11) assms(5) by auto
  then show ?thesis unfolding entered_def m(1,7,11) using assms(2,3,6,7) by auto
qed

lemma pg_okD:
  assumes "pg_ok s"
  shows "links_ok s" "groups_used s" "tree_ok s" "sess_ok s" "leaders_ok s" "ids_ok s" "init_ok s" "uids_ok s" "jobc_ok s" "ttys_ok s"
  using assms unfolding pg_ok_def by blast+

lemma not_leader:
  assumes "leaders_ok s" "sess_leader s p = Some False" "sessions s e = Some E"
  shows "s_leader E \<noteq> Some p"
proof
  assume l: "s_leader E = Some p"
  then have "session_of s p = Some e" using assms(1,3) unfolding leaders_ok_def leads_def session_of_def by fastforce
  then show False using l assms(2,3) by (simp add: sess_leader_def)
qed

lemma init_leads:
  assumes "init_ok s"
  shows "sess_leader s (initproc s) = Some True"
  using assms unfolding init_ok_def sess_leader_def by (auto simp: bind_eq_Some_conv)

lemma enter_old:
  assumes "pg_ok s" "pprocs s p = Some r" "pp_stat r \<noteq> SZOMB" "pp_pid r \<noteq> 0" "sess_leader s p = Some False" "pgfind s pgid = Some g"
  shows "\<exists>s'. enterpgrp p pgid False ng ne s = Some (None, s') \<and> pg_ok s' \<and> entered p pgid (pp_flag r) s s'"
proof -
  note ok = pg_okD [OF assms(1)]
  obtain G where G: "pgrps s g = Some G" "pg_id G = pgid" using pgfind_Some [OF ok(6) assms(6)] by blast
  obtain q where q: "pp_pptr r = Some q" using tree_okD(2) [OF ok(3) assms(2)] assms(4) by auto
  obtain G0 where G0: "pgrps s (pp_pgrp r) = Some G0" using links_okD(1) [OF ok(1) assms(2)] by blast
  obtain E0 where E0: "sessions s (pg_session G0) = Some E0" using ok(4) G0 unfolding sess_ok_def by blast
  have ni: "p \<noteq> initproc s" using init_leads [OF ok(7)] assms(5) by auto
  show ?thesis
  proof (cases "g = pp_pgrp r")
    case True
    have e: "r\<lparr>pp_flag := pp_flag r, pp_pgrp := pp_pgrp r\<rparr> = r" by simp
    have "entered p pgid (pp_flag r) s s" unfolding entered_def using True G assms(2) by (auto intro!: exI [of _ r] exI [of _ "pp_pgrp r"])
    then show ?thesis using True assms by (auto simp: enterpgrp_def)
  next
    case False
    obtain s' where s': "move_pgrp p g s = Some s'" "moved p g r G0 E0 s s'"
      using move_pgrp_moved [OF ok(1,3,4) assms(2) q G0 E0 G(1) False] by blast
    have m: "mv p g r q G0 E0 s s'" unfolding mv_def using ok assms(2,3) q G0 E0 G False s' by auto
    have "pg_ok s'" unfolding pg_ok_def
      using mv_links [OF m] mv_used [OF m] ok(2) tree_cong [OF mv_tview [OF m] ok(3)] mv_sess [OF m] mv_ids [OF m] mv_init [OF m ni ok(7)]
        mv_uids [OF m ok(8)] mv_jobc [OF m ni ok(9)] mv_leaders [OF m] ok(5) not_leader [OF ok(5) assms(5)]
        mv_ttys [OF m _ ok(10)]
      unfolding groups_used_def leaders_ok_def by (metis (no_types, lifting))
    moreover have "r\<lparr>pp_flag := pp_flag r\<rparr> = r" by simp
    then have "entered p pgid (pp_flag r) s s'" using mv_entered [of p g "pp_flag r" r q G0 E0 s s' s G pgid] m assms(2) G by (simp add: fun_upd_idem)
    ultimately show ?thesis using s'(1) assms(2,5,6) False by (simp add: enterpgrp_def)
  qed
qed

lemma new_pgrp_eq:
  assumes "pg_ok s" "pprocs s p = Some r" "pp_stat r \<noteq> SZOMB" "pgrps s (pp_pgrp r) = Some G0" "sessions s (pg_session G0) = Some E0"
    "mksess \<longrightarrow> p = pcurproc s"
  shows "\<exists>s1. new_pgrp p (pp_pid r) mksess ng ne s = Some (None, s1) \<and>
    new_grp p (r\<lparr>pp_flag := (if mksess then pp_flag r - {P_CONTROLT} else pp_flag r)\<rparr>) ng (pp_pid r) (if mksess then ne else pg_session G0) s s1 \<and>
    sessions s1 = (if mksess then (sessions s)(ne \<mapsto> \<lparr>s_count = 1, s_leader = Some p, s_ttyvp = False, s_ttyp = None, s_login = s_login E0\<rparr>)
      else (sessions s)(pg_session G0 \<mapsto> E0\<lparr>s_count := s_count E0 + 1\<rparr>))"
proof -
  note ok = pg_okD [OF assms(1)]
  have e: "session_of s p = Some (pg_session G0)" using assms(2,4) by (simp add: session_of_def)
  have r: "r\<lparr>pp_flag := pp_flag r\<rparr> = r" by simp
  show ?thesis
  proof (cases mksess)
    case True
    then show ?thesis using assms e pfind_self [OF ok(6) assms(2,3)]
      by (intro exI conjI, unfold new_pgrp_def) (auto simp: new_grp_def upd_proc_def)
  next
    case False
    then show ?thesis using assms e pfind_self [OF ok(6) assms(2,3)]
      by (intro exI conjI, unfold new_pgrp_def) (auto simp: new_grp_def fun_upd_idem)
  qed
qed

text \<open>The counts of the sessions with the new group.\<close>

lemma new_grp_sess:
  assumes "sess_ok s" "ids_ok s" "pgrps s ng = None" "new_grp p r1 ng pgid e s s1"
    and "sessions s e = None \<and> sessions s1 = (sessions s)(e \<mapsto> N) \<and> s_count N = 1 \<and> \<not> s_ttyvp N \<or>
      sessions s e = Some E \<and> sessions s1 = (sessions s)(e \<mapsto> E\<lparr>s_count := s_count E + 1\<rparr>)"
  shows "sess_ok s1"
proof -
  note n = new_grpD [OF assms(4)]
  have S: "pgrps s h = Some H \<Longrightarrow> sessions s (pg_session H) \<noteq> None"
    "sessions s x = Some E \<Longrightarrow> s_count E = int (card {h. sess s h = Some x}) \<and> (s_ttyvp E \<longrightarrow> s_ttyp E \<noteq> None)"
    "t_pgrp s t = Some h \<Longrightarrow> \<exists>G E. pgrps s h = Some G \<and> sessions s (pg_session G) = Some E \<and> s_ttyp E = Some t" for h H x E t
    using assms(1) unfolding sess_ok_def by blast+
  have ng: "sess s ng = None" using assms(3) by (simp add: sess_def)
  have set: "{h. sess s1 h = Some x} = (if x = e then insert ng {h. sess s h = Some x} else {h. sess s h = Some x})" for x
    using n(14) ng by auto
  have card: "card {h. sess s1 h = Some x} = (if x = e then Suc (card {h. sess s h = Some x}) else card {h. sess s h = Some x})" for x
    unfolding set using ids_finite_groups [OF assms(2)] ng by simp
  have new: "sessions s e = None \<Longrightarrow> {h. sess s h = Some e} = {}" using S(1) by (fastforce simp: sess_def)
  have S1: "sessions s1 (pg_session H) \<noteq> None" if "pgrps s1 h = Some H" for h H
    using that assms(5) S(1) [of h H] by (auto simp: n(2) split: if_splits)
  have S2: "s_count F = int (card {h. sess s1 h = Some x}) \<and> (s_ttyvp F \<longrightarrow> s_ttyp F \<noteq> None)" if "sessions s1 x = Some F" for x F
    unfolding card using that assms(5) S(2) [of x] S(2) [of e E] new by (auto split: if_splits)
  have S3: "\<exists>G E. pgrps s1 h = Some G \<and> sessions s1 (pg_session G) = Some E \<and> s_ttyp E = Some t" if "t_pgrp s1 t = Some h" for t h
    using S(3) [of t h] that assms(3,5) S(1) [of h] unfolding n(4) by (auto simp: n(2) split: if_splits)
  show ?thesis unfolding sess_ok_def using S1 S2 S3 by blast
qed

lemma enter_new:
  assumes "pg_ok s" "pprocs s p = Some r" "pp_stat r \<noteq> SZOMB" "pp_pid r \<noteq> 0" "sess_leader s p = Some False" "pgfind s (pp_pid r) = None"
    "pgrps s ng = None" "mksess \<longrightarrow> p = pcurproc s \<and> sessions s ne = None"
  shows "\<exists>s'. enterpgrp p (pp_pid r) mksess ng ne s = Some (None, s') \<and> pg_ok s' \<and>
    entered p (pp_pid r) (if mksess then pp_flag r - {P_CONTROLT} else pp_flag r) s s' \<and>
    session_of s' p = (if mksess then Some ne else session_of s p) \<and> map_option pp_pgrp (pprocs s' p) = Some ng \<and>
    (mksess \<longrightarrow> (\<exists>E. sessions s' ne = Some E \<and> s_leader E = Some p \<and> s_count E = 1 \<and> s_ttyp E = None))"
proof -
  note ok = pg_okD [OF assms(1)]
  obtain q where q: "pp_pptr r = Some q" using tree_okD(2) [OF ok(3) assms(2)] assms(4) by auto
  obtain G0 where G0: "pgrps s (pp_pgrp r) = Some G0" using links_okD(1) [OF ok(1) assms(2)] by blast
  obtain E0 where E0: "sessions s (pg_session G0) = Some E0" using ok(4) G0 unfolding sess_ok_def by blast
  have e: "session_of s p = Some (pg_session G0)" using assms(2) G0 by (simp add: session_of_def)
  have ni: "p \<noteq> initproc s" using init_leads [OF ok(7)] assms(5) by auto
  let ?e = "if mksess then ne else pg_session G0"
  let ?N = "\<lparr>s_count = 1, s_leader = Some p, s_ttyvp = False, s_ttyp = None, s_login = s_login E0\<rparr>"
  have "mksess \<longrightarrow> p = pcurproc s" using assms(8) by blast
  define f where f: "f = (if mksess then pp_flag r - {P_CONTROLT} else pp_flag r)"
  from new_pgrp_eq [OF assms(1-3) G0 E0 \<open>mksess \<longrightarrow> p = pcurproc s\<close>] obtain s1
    where s1: "new_pgrp p (pp_pid r) mksess ng ne s = Some (None, s1)" "new_grp p (r\<lparr>pp_flag := f\<rparr>) ng (pp_pid r) ?e s s1"
    "sessions s1 = (if mksess then (sessions s)(ne \<mapsto> ?N) else (sessions s)(pg_session G0 \<mapsto> E0\<lparr>s_count := s_count E0 + 1\<rparr>))" unfolding f by blast
  note N = new_grpD [OF s1(2)] and P = new_grp_pgrp [OF ok(1) assms(2,7) s1(2)]
  note K = new_grp_keeps [OF ok(1,3,6,8,9) assms(2) refl assms(6,7) s1(2)]
  have ngr: "ng \<noteq> pp_pgrp r" using assms(7) G0 by auto
  have so1: "sess_ok s1"
    by (rule new_grp_sess [OF ok(4,6) assms(7) s1(2), of ?N E0]) (use assms(8) s1(3) E0 in auto)
  define r1 where r1: "r1 = r\<lparr>pp_flag := f\<rparr>"
  have f1: "pprocs s1 p = Some r1" "pp_pptr r1 = Some q" "pgrps s1 (pp_pgrp r1) = Some G0" "ng \<noteq> pp_pgrp r1" "pp_stat r1 \<noteq> SZOMB"
    using q G0 ngr assms(3) by (simp_all add: r1 N(1,2))
  obtain E1 where E1: "sessions s1 (pg_session G0) = Some E1" using so1 f1(3) unfolding sess_ok_def by blast
  obtain NG where NG: "pgrps s1 ng = Some NG" "pg_id NG = pp_pid r" "pg_session NG = ?e" by (simp add: N(2))
  obtain s' where s': "move_pgrp p ng s1 = Some s'" "moved p ng r1 G0 E1 s1 s'"
    using move_pgrp_moved [OF K(1,2) so1 f1(1-3) E1 NG(1) f1(4)] by blast
  have m: "mv p ng r1 q G0 E1 s1 s'" unfolding mv_def using K so1 f1 E1 NG s' by auto
  have ni1: "p \<noteq> initproc s1" using ni N(9) by simp
  have lead: "if x = p then leads s' d p else leads s1 d x" if sl: "sessions s1 d = Some E" "s_leader E = Some x" for d E x
  proof (cases "d = ?e \<and> mksess")
    case True
    then have "x = p" "d = ne" using sl s1(3) by auto
    moreover obtain H where "pgrps s' ng = Some H" "pg_session H = ne" "pg_id H = pp_pid r"
      using moved_grp_ex [OF s'(2) NG(1)] f1(4) NG True by auto
    ultimately show ?thesis using f1(5) by (auto simp: leads_def movedD(1) [OF s'(2)] r1)
  next
    case False
    then obtain F where F: "sessions s d = Some F" "s_leader F = Some x" using sl s1(3) E0 by (auto split: if_splits)
    then have "x \<noteq> p" "leads s d x" using not_leader [OF ok(5) assms(5)] ok(5) unfolding leaders_ok_def by blast+
    then show ?thesis using P(2) unfolding leads_def N(1,2) by fastforce
  qed
  have init1: "init_ok s1"
  proof -
    obtain i y t d E where i: "pprocs s (initproc s) = Some i" "pp_pid i = 1" "pp_stat i \<noteq> SZOMB" "pp_pptr i = Some y"
      "pprocs s y = Some t" "pp_pptr t = None" "session_of s (initproc s) = Some d" "sessions s d = Some E" "s_leader E = Some (initproc s)"
      by (rule init_okE [OF ok(7)])
    have y: "y \<noteq> p" using i(5,6) assms(2) q by auto
    have "\<exists>E'. sessions s1 d = Some E' \<and> s_leader E' = Some (initproc s)"
      using i(8,9) s1(3) E0 assms(8) by (cases mksess; cases "d = pg_session G0"; cases "d = ne") auto
    then obtain E' where E': "sessions s1 d = Some E'" "s_leader E' = Some (initproc s)" by blast
    show ?thesis by (rule init_okI [of _ i y t d E']) (use i ni y E' P(6) in \<open>simp_all add: N(1,9)\<close>)
  qed
  have same: "\<exists>n. F = F\<lparr>s_count := n\<rparr>" for F :: session_s by (rule exI [of _ "s_count F"]) simp
  have ty1: "ttys_ok s1"
  proof (rule ttys_add [OF ok(10) N(15)])
    show "\<exists>n. sessions s1 d = Some (E\<lparr>s_count := n\<rparr>)" if "sessions s d = Some E" for d E
      using that same [of E] E0 assms(8) unfolding s1(3) by (cases mksess; cases "d = pg_session G0"; cases "d = ne") auto
    show "s_ttyp E = None \<or> (\<exists>F n. sessions s d = Some F \<and> E = F\<lparr>s_count := n\<rparr>)" if "sessions s1 d = Some E" for d E
      using that same [of E] E0 assms(8) unfolding s1(3) by (cases mksess; cases "d = pg_session G0"; cases "d = ne") auto
  qed
  have "pg_ok s'" unfolding pg_ok_def
    using mv_links [OF m] mv_used [OF m] ok(2) tree_cong [OF mv_tview [OF m] K(2)] mv_sess [OF m] mv_ids [OF m] mv_init [OF m ni1 init1]
      mv_uids [OF m K(4)] mv_jobc [OF m ni1 K(5)] mv_leaders [OF m lead] mv_ttys [OF m lead ty1]
    unfolding groups_used_def N(2) by auto
  moreover have "entered p (pp_pid r) f s s'"
    using mv_entered [OF m [unfolded r1] assms(2) N(1) NG(1,2) N(13,9)] .
  moreover have "session_of s' p = Some ?e"
    using movedD(1,2) [OF s'(2)] NG f1(4) by (simp add: session_of_sess sess_def)
  moreover have "map_option pp_pgrp (pprocs s' p) = Some ng" using movedD(1) [OF s'(2)] by simp
  moreover have "sessions s' ne = Some ?N" if mksess
  proof -
    have "ne \<noteq> pg_session G0" using assms(8) E0 that by auto
    moreover have "sessions s' = (if pg_members G0 = [p] then (sessions s1)(pg_session G0 := (if s_count E1 = 1 then None else Some (E1\<lparr>s_count := s_count E1 - 1\<rparr>)))
      else sessions s1)" using s'(2) unfolding moved_def by blast
    ultimately show ?thesis using that s1(3) by simp
  qed
  ultimately show ?thesis using s'(1) s1(1) assms(2,5,6) e by (simp add: enterpgrp_def f)
qed

section \<open>System calls\<close>

lemma leader_id:
  assumes "pg_ok s" "pprocs s p = Some r" "pgrps s (pp_pgrp r) = Some G" "sess_leader s p = Some True"
  shows "pg_id G = pp_pid r"
proof -
  have "\<exists>E. sessions s (pg_session G) = Some E \<and> s_leader E = Some p"
    using assms(2-4) by (auto simp: sess_leader_def session_of_def bind_eq_Some_conv)
  then show ?thesis using pg_okD(5) [OF assms(1)] assms(2,3) unfolding leaders_ok_def leads_def by fastforce
qed

lemma proc_facts:
  assumes "pg_ok s" "pprocs s p = Some r"
  shows "\<exists>G E. pgrps s (pp_pgrp r) = Some G \<and> sessions s (pg_session G) = Some E \<and> session_of s p = Some (pg_session G) \<and>
    sess_leader s p = Some (s_leader E = Some p)"
proof -
  obtain G where G: "pgrps s (pp_pgrp r) = Some G" using links_okD(1) [OF pg_okD(1) [OF assms(1)] assms(2)] by blast
  moreover obtain E where "sessions s (pg_session G) = Some E" using pg_okD(4) [OF assms(1)] G unfolding sess_ok_def by blast
  ultimately show ?thesis using assms(2) by (simp add: session_of_def sess_leader_def)
qed

lemma setsid_ok:
  assumes "pg_ok s" "pprocs s p = Some r" "pp_stat r \<noteq> SZOMB" "pp_pid r \<noteq> 0" "p = pcurproc s" "pgrps s ng = None" "sessions s ne = None"
  shows "\<exists>res s'. setsid p ng ne s = Some (res, s') \<and> pg_ok s' \<and>
    (if pgfind s (pp_pid r) = None then res = Inr (pp_pid r) \<and> entered p (pp_pid r) (pp_flag r - {P_CONTROLT}) s s' \<and> session_of s' p = Some ne \<and>
       map_option pp_pgrp (pprocs s' p) = Some ng \<and> (\<exists>E. sessions s' ne = Some E \<and> s_leader E = Some p \<and> s_count E = 1 \<and> s_ttyp E = None)
     else res = Inl EPERM \<and> s' = s)"
proof -
  obtain G and E :: session_s where G: "pgrps s (pp_pgrp r) = Some G" "sess_leader s p = Some (s_leader E = Some p)" using proc_facts [OF assms(1,2)] by blast
  have "pg_id G = pp_pid r \<Longrightarrow> pgfind s (pp_pid r) \<noteq> None"
    using G(1) pg_okD(6) [OF assms(1)] unfolding pgfind_def find_None_iff ids_ok_def by force
  moreover have "pg_id G \<noteq> pp_pid r \<Longrightarrow> sess_leader s p = Some False" using leader_id [OF assms(1,2) G(1)] G(2) by (cases "s_leader E = Some p") auto
  ultimately show ?thesis
    using assms G(1) enter_new [OF assms(1-4) _ _ assms(6), of True ne] by (cases "pgfind s (pp_pid r)") (auto simp: setsid_def)
qed

text \<open>Going up the tree ends.\<close>

lemma inferior_ends: "rooted s p \<Longrightarrow> tree_ok s \<Longrightarrow> \<exists>b. inferior s p = Some b"
proof (induction rule: rooted.induct)
  case (root p r)
  then show ?case using tree_okD(2) [OF root(3,1)] by (subst inferior.simps) auto
next
  case (up p r q)
  then show ?case by (subst inferior.simps) auto
qed

lemma target_ok:
  assumes "pg_ok s" "pprocs s p = Some r" "pp_stat r \<noteq> SZOMB" "pp_pid r \<noteq> 0"
  shows "\<exists>tg. setpgid_target p pid s = Some tg \<and> (\<forall>x. tg = Inr x \<longrightarrow>
    (\<exists>t. pprocs s x = Some t \<and> pp_stat t \<noteq> SZOMB \<and> pp_pid t \<noteq> 0 \<and> session_of s x = session_of s p \<and>
       (if pid = 0 then x = p else pp_pid t = pid)))"
proof (cases "pid \<noteq> 0 \<and> pid \<noteq> pp_pid r \<and> pfind s pid \<noteq> None")
  case True
  then obtain x where x: "pfind s pid = Some x" by blast
  obtain t where t: "pprocs s x = Some t" "pp_pid t = pid" "pp_stat t \<noteq> SZOMB" using pfind_Some [OF pg_okD(6) [OF assms(1)] x] by blast
  obtain b where b: "inferior s x = Some b"
    using inferior_ends [OF tree_okD(1) [OF pg_okD(3) [OF assms(1)] t(1)] pg_okD(3) [OF assms(1)]] by blast
  obtain e1 e2 where "session_of s x = Some e1" "session_of s p = Some e2" using proc_facts [OF assms(1)] t(1) assms(2) by blast
  then show ?thesis using True x t b assms by (auto simp: setpgid_target_def)
next
  case False
  then show ?thesis using assms pg_okD(1) [OF assms(1)] by (auto simp: setpgid_target_def)
qed

lemma setpgid_ok:
  assumes "pg_ok s" "pprocs s p = Some r" "pp_stat r \<noteq> SZOMB" "pp_pid r \<noteq> 0" "pgrps s ng = None"
  shows "\<exists>err s'. setpgid p pid pgid ng ne s = Some (err, s') \<and> pg_ok s' \<and>
    (case err of Some _ \<Rightarrow> s' = s
     | None \<Rightarrow> \<exists>x t. pprocs s x = Some t \<and> (if pid = 0 then x = p else pp_pid t = pid) \<and> session_of s x = session_of s p \<and>
         entered x (if pgid = 0 then pp_pid t else pgid) (pp_flag t) s s')"
proof -
  obtain tg where tg: "setpgid_target p pid s = Some tg" "\<forall>x. tg = Inr x \<longrightarrow>
    (\<exists>t. pprocs s x = Some t \<and> pp_stat t \<noteq> SZOMB \<and> pp_pid t \<noteq> 0 \<and> session_of s x = session_of s p \<and> (if pid = 0 then x = p else pp_pid t = pid))"
    using target_ok [OF assms(1-4)] by blast
  show ?thesis
  proof (cases tg)
    case (Inl e)
    then show ?thesis using tg assms(1) by (simp add: setpgid_def)
  next
    case (Inr x)
    then obtain t where t: "pprocs s x = Some t" "pp_stat t \<noteq> SZOMB" "pp_pid t \<noteq> 0" "session_of s x = session_of s p"
      "if pid = 0 then x = p else pp_pid t = pid" using tg(2) by blast
    obtain E :: session_s where l: "sess_leader s x = Some (s_leader E = Some x)" using proc_facts [OF assms(1) t(1)] by blast
    obtain e where e: "session_of s p = Some e" using proc_facts [OF assms(1,2)] by blast
    let ?id = "if pgid = 0 then pp_pid t else pgid"
    have call: "setpgid p pid pgid ng ne s =
        (if s_leader E = Some x then Some (Some EPERM, s)
         else if ?id = pp_pid t then enterpgrp x (pp_pid t) False ng ne s
         else case pgfind s pgid of None \<Rightarrow> Some (Some EPERM, s)
           | Some g \<Rightarrow> Option.bind (pgrps s g) (\<lambda>G. if pg_session G \<noteq> e then Some (Some EPERM, s) else enterpgrp x pgid False ng ne s))"
      using tg(1) Inr l t(1) e by (auto simp: setpgid_def)
    have go: "\<exists>s'. enterpgrp x ?id False ng ne s = Some (None, s') \<and> pg_ok s' \<and> entered x ?id (pp_flag t) s s'"
      if "s_leader E \<noteq> Some x" "?id = pp_pid t \<or> pgfind s ?id \<noteq> None"
      using that enter_new [OF assms(1) t(1-3), of ng False ne] enter_old [OF assms(1) t(1-3), of ?id _ ng ne] l assms(5)
      by (cases "pgfind s ?id") auto
    show ?thesis
    proof (cases "s_leader E = Some x \<or> (?id \<noteq> pp_pid t \<and> (pgfind s pgid = None \<or> (\<exists>g G. pgfind s pgid = Some g \<and> pgrps s g = Some G \<and> pg_session G \<noteq> e)))")
      case True
      then have "setpgid p pid pgid ng ne s = Some (Some EPERM, s)" unfolding call by (auto split: if_splits)
      then show ?thesis using assms(1) by simp
    next
      case False
      then have "setpgid p pid pgid ng ne s = enterpgrp x ?id False ng ne s"
        unfolding call using pgfind_Some [OF pg_okD(6) [OF assms(1)], of pgid] by (auto split: option.splits if_splits)
      moreover obtain s' where "enterpgrp x ?id False ng ne s = Some (None, s')" "pg_ok s'" "entered x ?id (pp_flag t) s s'"
        using go False by (cases "pgid = 0") auto
      moreover have "\<exists>x t. pprocs s x = Some t \<and> (if pid = 0 then x = p else pp_pid t = pid) \<and> session_of s x = session_of s p \<and>
          entered x (if pgid = 0 then pp_pid t else pgid) (pp_flag t) s s'" if "entered x ?id (pp_flag t) s s'" for s' using t that by blast
      ultimately show ?thesis by (auto split del: if_split)
    qed
  qed
qed

section \<open>Counts of users\<close>

definition ucnt :: "pgsys \<Rightarrow> nat \<Rightarrow> nat" where
  "ucnt s u = card {p. map_option pp_ruid (pprocs s p) = Some u}"

lemma uids_ok_ucnt: "uids_ok s \<longleftrightarrow> (\<forall>u. uidcnt s u = (if ucnt s u = 0 then None else Some (int (ucnt s u))))"
  by (simp add: uids_ok_def ucnt_def Let_def)

lemma chg_inc:
  assumes "uids_ok s"
  shows "chgproccnt u 1 s = Some (int (ucnt s u) + 1, s\<lparr>uidcnt := (uidcnt s)(u \<mapsto> int (ucnt s u) + 1)\<rparr>)"
  using assms unfolding uids_ok_ucnt chgproccnt_def by (auto split: option.splits if_splits)

lemma chg_dec:
  assumes "uids_ok s" "ucnt s u \<noteq> 0"
  shows "chgproccnt u (- 1) s =
    Some (int (ucnt s u) - 1, s\<lparr>uidcnt := (uidcnt s)(u := (if ucnt s u = 1 then None else Some (int (ucnt s u) - 1)))\<rparr>)"
  using assms unfolding uids_ok_ucnt chgproccnt_def by (auto split: option.splits if_splits)

lemma ucnt_finite: "finite (dom (pprocs s)) \<Longrightarrow> finite {p. map_option pp_ruid (pprocs s p) = Some u}"
  by (rule finite_subset [of _ "dom (pprocs s)"]) auto

lemma ucnt_pos: "finite (dom (pprocs s)) \<Longrightarrow> pprocs s p = Some r \<Longrightarrow> ucnt s (pp_ruid r) \<noteq> 0"
  using ucnt_finite [of s "pp_ruid r"] by (auto simp: ucnt_def card_eq_0_iff)

text \<open>\<open>s'\<close> has one process more than \<open>s\<close>, of the user \<open>u\<close>.\<close>

lemma ucnt_more:
  assumes "finite (dom (pprocs s))" "pprocs s p = None" "map_option pp_ruid (pprocs s' p) = Some u"
    "\<And>x. x \<noteq> p \<Longrightarrow> map_option pp_ruid (pprocs s' x) = map_option pp_ruid (pprocs s x)"
  shows "ucnt s' v = ucnt s v + (if v = u then 1 else 0)"
proof -
  have "{x. map_option pp_ruid (pprocs s' x) = Some v} =
      (if v = u then insert p {x. map_option pp_ruid (pprocs s x) = Some v} else {x. map_option pp_ruid (pprocs s x) = Some v})"
  proof (intro set_eqI)
    fix x
    show "x \<in> {x. map_option pp_ruid (pprocs s' x) = Some v} \<longleftrightarrow>
      x \<in> (if v = u then insert p {x. map_option pp_ruid (pprocs s x) = Some v} else {x. map_option pp_ruid (pprocs s x) = Some v})"
      using assms(2,3) assms(4) [of x] by (cases "x = p") (simp_all del: map_option_eq_Some)
  qed
  then show ?thesis unfolding ucnt_def using ucnt_finite [OF assms(1), of v] assms(2) by (cases "v = u") (simp_all del: map_option_eq_Some)
qed

section \<open>Creation of a process\<close>

lemma jobc_cong:
  assumes "jobc_ok s" "qual s' = qual s" "session_of s' (initproc s') = session_of s (initproc s)"
    "\<And>g G'. pgrps s' g = Some G' \<Longrightarrow> \<exists>G. pgrps s g = Some G \<and> pg_jobc G = pg_jobc G' \<and> pg_session G = pg_session G'"
  shows "jobc_ok s'"
  using assms(1,4) unfolding jobc_ok_def assms(2,3) by metis

lemma sess_cong:
  assumes "sess_ok s" "sess s' = sess s" "sessions s' = sessions s" "t_pgrp s' = t_pgrp s"
  shows "sess_ok s'"
proof -
  have b: "\<exists>H. pgrps s h = Some H \<and> pg_session H = pg_session H'" if "pgrps s' h = Some H'" for h H'
    using fun_cong [OF assms(2), of h] that by (cases "pgrps s h") (auto simp: sess_def)
  have c: "\<exists>H'. pgrps s' h = Some H' \<and> pg_session H' = pg_session H" if "pgrps s h = Some H" for h H
    using fun_cong [OF assms(2), of h] that by (auto simp: sess_def)
  have "\<forall>g G. pgrps s' g = Some G \<longrightarrow> sessions s (pg_session G) \<noteq> None" using assms(1) b unfolding sess_ok_def by metis
  moreover have "\<forall>t g. t_pgrp s t = Some g \<longrightarrow> (\<exists>G E. pgrps s' g = Some G \<and> sessions s (pg_session G) = Some E \<and> s_ttyp E = Some t)"
    using assms(1) c unfolding sess_ok_def by metis
  ultimately show ?thesis using assms(1) unfolding sess_ok_def assms(2-4) by blast
qed

lemma rooted_mono:
  assumes "rooted s p" "\<And>x r. pprocs s x = Some r \<Longrightarrow> \<exists>r'. pprocs s' x = Some r' \<and> pp_pptr r' = pp_pptr r"
  shows "rooted s' p"
  using assms(1)
proof induction
  case (root p r)
  then show ?case using assms(2) by (metis rooted.root)
next
  case (up p r q)
  then show ?case using assms(2) by (metis rooted.up)
qed

lemma set_insert_after: "p \<in> set xs \<Longrightarrow> set (insert_after p q xs) = insert q (set xs)"
  by (induction xs) auto

lemma distinct_insert_after: "distinct xs \<Longrightarrow> q \<notin> set xs \<Longrightarrow> distinct (insert_after p q xs)"
proof (induction xs)
  case (Cons x xs)
  moreover have "set (insert_after p q xs) \<subseteq> insert q (set xs)" by (induction xs) auto
  ultimately show ?case by auto
qed simp

definition forked :: "nat \<Rightarrow> nat \<Rightarrow> pproc \<Rightarrow> pproc \<Rightarrow> pgrp_s \<Rightarrow> int \<Rightarrow> pgsys \<Rightarrow> pgsys \<Rightarrow> bool" where
  "forked p1 p2 r1 r2 G c s s' \<longleftrightarrow>
     pprocs s p1 = Some r1 \<and> pp_stat r1 \<noteq> SZOMB \<and> pprocs s p2 = None \<and> pgrps s (pp_pgrp r1) = Some G \<and> pp_pptr r2 = Some p1 \<and> pp_pgrp r2 = pp_pgrp r1 \<and>
     pp_stat r2 \<noteq> SZOMB \<and> pp_children r2 = [] \<and> pp_ruid r2 = pp_ruid r1 \<and> pp_oppid r2 = 0 \<and>
     s' = s\<lparr>pprocs := (pprocs s)(p1 \<mapsto> r1\<lparr>pp_children := p2 # pp_children r1\<rparr>, p2 \<mapsto> r2),
            pgrps := (pgrps s)(pp_pgrp r1 \<mapsto> G\<lparr>pg_members := insert_after p1 p2 (pg_members G)\<rparr>),
            pidhash := p2 # pidhash s, allproc := p2 # allproc s, nprocs := nprocs s + 1, nextpid := pp_pid r2, pidchecked := c,
            uidcnt := (uidcnt s)(pp_ruid r1 \<mapsto> int (ucnt s (pp_ruid r1)) + 1)\<rparr>"

lemma forked_eq:
  assumes "forked p1 p2 r1 r2 G c s s'"
  shows "pprocs s' = (pprocs s)(p1 \<mapsto> r1\<lparr>pp_children := p2 # pp_children r1\<rparr>, p2 \<mapsto> r2)"
    "pgrps s' = (pgrps s)(pp_pgrp r1 \<mapsto> G\<lparr>pg_members := insert_after p1 p2 (pg_members G)\<rparr>)"
    "sess s' = sess s" "sessions s' = sessions s" "t_pgrp s' = t_pgrp s" "pgrphash s' = pgrphash s" "initproc s' = initproc s"
    "zombproc s' = zombproc s" "pcurproc s' = pcurproc s" "p1 \<noteq> p2" "t_session s' = t_session s"
  using assms by (auto simp: forked_def sess_def)

lemma forked_links:
  assumes "forked p1 p2 r1 r2 G c s s'" "links_ok s" "groups_used s"
  shows "links_ok s'" "groups_used s'"
proof -
  note f = forked_eq [OF assms(1)] and d = assms(1) [unfolded forked_def] and L = links_okD [OF assms(2)]
  have G: "pgrps s (pp_pgrp r1) = Some G" "pprocs s p1 = Some r1" "pprocs s p2 = None" "pp_pgrp r2 = pp_pgrp r1" using d by auto
  have m: "p1 \<in> set (pg_members G)" "p2 \<notin> set (pg_members G)" "distinct (pg_members G)" using L(2,3) [OF G(1)] G by auto
  have ia: "set (insert_after p1 p2 (pg_members G)) = insert p2 (set (pg_members G))" by (rule set_insert_after [OF m(1)])
  show "links_ok s'" unfolding links_ok_def
  proof (intro conjI allI impI)
    fix x t assume "pprocs s' x = Some t"
    then have "x = p2 \<and> t = r2 \<or> x \<noteq> p2 \<and> (\<exists>u. pprocs s x = Some u \<and> pp_pgrp t = pp_pgrp u)"
      using G(2) by (auto simp: f(1) split: if_splits)
    then show "\<exists>H. pgrps s' (pp_pgrp t) = Some H \<and> x \<in> set (pg_members H)"
    proof
      assume "x \<noteq> p2 \<and> (\<exists>u. pprocs s x = Some u \<and> pp_pgrp t = pp_pgrp u)"
      then show ?thesis using L(1) [of x] G(1) ia by (auto simp: f(2))
    qed (use G(4) ia in \<open>simp add: f(2)\<close>)
  next
    fix g H assume H: "pgrps s' g = Some H"
    show "distinct (pg_members H)" using H L(2) distinct_insert_after m(2,3) by (auto simp: f(2) split: if_splits)
    show "\<forall>x\<in>set (pg_members H). \<exists>t. pprocs s' x = Some t \<and> pp_pgrp t = g"
    proof
      fix x assume x: "x \<in> set (pg_members H)"
      show "\<exists>t. pprocs s' x = Some t \<and> pp_pgrp t = g"
      proof (cases "x = p2")
        case True
        then have "g = pp_pgrp r1" using H x L(3) [of g _ p2] G(3) by (auto simp: f(2) split: if_splits)
        then show ?thesis using True G(4) by (simp add: f(1))
      next
        case False
        obtain H0 where "pgrps s g = Some H0" "x \<in> set (pg_members H0)"
        proof (cases "g = pp_pgrp r1")
          case True
          then have "H = G\<lparr>pg_members := insert_after p1 p2 (pg_members G)\<rparr>" using H by (simp add: f(2))
          then have "x \<in> set (pg_members G)" using x ia False by simp
          then show ?thesis using that G(1) True by blast
        qed (use that H x in \<open>simp add: f(2)\<close>)
        then show ?thesis using L(3) [of g H0 x] False G(2) by (auto simp: f(1))
      qed
    qed
  qed
  show "groups_used s'" using assms(3) ia unfolding groups_used_def f(2) by auto
qed

lemma forked_view:
  assumes "forked p1 p2 r1 r2 G c s s'" "pprocs s x = Some t"
  shows "\<exists>t'. pprocs s' x = Some t' \<and> x \<noteq> p2 \<and> pp_pptr t' = pp_pptr t \<and> pp_pid t' = pp_pid t \<and> pp_pgrp t' = pp_pgrp t \<and> pp_stat t' = pp_stat t \<and>
    pp_oppid t' = pp_oppid t \<and> pp_ruid t' = pp_ruid t \<and> pp_children t' = (if x = p1 then p2 # pp_children t else pp_children t)"
  using assms unfolding forked_def by auto

lemma forked_view':
  assumes "forked p1 p2 r1 r2 G c s s'" "pprocs s' x = Some t'" "x \<noteq> p2"
  shows "\<exists>t. pprocs s x = Some t \<and> pp_pptr t' = pp_pptr t \<and> pp_pid t' = pp_pid t \<and> pp_pgrp t' = pp_pgrp t \<and> pp_stat t' = pp_stat t \<and>
    pp_oppid t' = pp_oppid t \<and> pp_ruid t' = pp_ruid t \<and> pp_children t' = (if x = p1 then p2 # pp_children t else pp_children t)"
proof (cases "x = p1")
  case True
  have "pprocs s p1 = Some r1" using assms(1) unfolding forked_def by blast
  moreover have "t' = r1\<lparr>pp_children := p2 # pp_children r1\<rparr>" using assms(2,3) True by (simp add: forked_eq(1) [OF assms(1)])
  ultimately show ?thesis using True by simp
qed (use assms in \<open>simp add: forked_eq(1) [OF assms(1)]\<close>)

lemma forked_tree:
  assumes f: "forked p1 p2 r1 r2 G c s s'" and t: "tree_ok s" and pid: "pp_pid r2 \<noteq> 0"
  shows "tree_ok s'"
  unfolding tree_ok_def
proof (intro allI impI)
  fix x t' assume x: "pprocs s' x = Some t'"
  have r1: "pprocs s p1 = Some r1" "pprocs s p2 = None" "pp_pptr r2 = Some p1" "pp_children r2 = []" "pp_stat r1 \<noteq> SZOMB" "pp_stat r2 \<noteq> SZOMB"
    "pp_oppid r2 = 0" using f unfolding forked_def by blast+
  have p2: "pprocs s' p2 = Some r2" by (simp add: forked_eq(1) [OF f])
  have rt: "rooted s' y" if "rooted s y" for y using rooted_mono [OF that] forked_view [OF f] by metis
  have np: "pp_pptr u \<noteq> Some p2" if u: "pprocs s y = Some u" for y u using tree_parent [OF t u] r1(2) by auto
  show "rooted s' x \<and> (pp_pptr t' = None \<longleftrightarrow> pp_pid t' = 0) \<and> pp_oppid t' = 0 \<and> distinct (pp_children t') \<and>
     (pp_stat t' = SZOMB \<longrightarrow> pp_children t' = []) \<and> (\<forall>c. c \<in> set (pp_children t') \<longleftrightarrow> (\<exists>rc. pprocs s' c = Some rc \<and> pp_pptr rc = Some x))"
  proof (cases "x = p2")
    case True
    have "rooted s' p2" by (rule rooted.up [OF p2 r1(3) rt [OF tree_okD(1) [OF t r1(1)]]])
    moreover have "\<not> (\<exists>rc. pprocs s' y = Some rc \<and> pp_pptr rc = Some p2)" for y
      using forked_view' [OF f, of y] np [of y] p2 r1(1-3) by (cases "y = p2") auto
    ultimately show ?thesis using True x p2 r1 pid by auto
  next
    case False
    from forked_view' [OF f x False] obtain t0 where t0: "pprocs s x = Some t0" "pp_pptr t' = pp_pptr t0" "pp_pid t' = pp_pid t0" "pp_stat t' = pp_stat t0"
      "pp_oppid t' = pp_oppid t0" "pp_children t' = (if x = p1 then p2 # pp_children t0 else pp_children t0)" by blast
    note T = tree_okD(1-6) [OF t t0(1)]
    have "(\<exists>rc. pprocs s' y = Some rc \<and> pp_pptr rc = Some x) \<longleftrightarrow> (if y = p2 then x = p1 else (\<exists>rc. pprocs s y = Some rc \<and> pp_pptr rc = Some x))" for y
    proof (cases "y = p2")
      case False
      then show ?thesis using forked_view [OF f, of y] forked_view' [OF f, of y] by metis
    qed (use p2 r1(3) in auto)
    moreover have "p2 \<notin> set (pp_children t0)" using T(6) [of p2] r1(2) by simp
    ultimately show ?thesis using T t0 rt r1(1,5) by auto
  qed
qed

lemma forked_uids:
  assumes f: "forked p1 p2 r1 r2 G c s s'" and u: "uids_ok s" and fin: "finite (dom (pprocs s))"
  shows "uids_ok s'"
proof -
  have d: "pprocs s p2 = None" "pp_ruid r2 = pp_ruid r1" "pprocs s p1 = Some r1" using f unfolding forked_def by blast+
  have "ucnt s' v = ucnt s v + (if v = pp_ruid r1 then 1 else 0)" for v
    by (rule ucnt_more [OF fin d(1)]) (use d in \<open>auto simp: forked_eq(1) [OF f]\<close>)
  moreover have "uidcnt s' = (uidcnt s)(pp_ruid r1 \<mapsto> int (ucnt s (pp_ruid r1)) + 1)" using f by (simp add: forked_def)
  ultimately show ?thesis using u unfolding uids_ok_ucnt by auto
qed

lemma forked_session:
  assumes f: "forked p1 p2 r1 r2 G c s s'" and x: "pprocs s x \<noteq> None"
  shows "session_of s' x = session_of s x" "parent_pgrp s' x = parent_pgrp s x \<or> \<not> tree_ok s"
proof -
  obtain t where t: "pprocs s x = Some t" using x by blast
  show "session_of s' x = session_of s x" using forked_view [OF f t] t by (auto simp: session_of_sess forked_eq(3) [OF f])
  show "parent_pgrp s' x = parent_pgrp s x \<or> \<not> tree_ok s"
  proof (cases "pp_pptr t")
    case None
    then show ?thesis using forked_view [OF f t] t by (auto simp: parent_pgrp_def)
  next
    case (Some q)
    then show ?thesis using forked_view [OF f t] t tree_parent [OF _ t Some] forked_view [OF f, of q] by (force simp: parent_pgrp_def)
  qed
qed

lemma forked_jobc:
  assumes f: "forked p1 p2 r1 r2 G c s s'" and t: "tree_ok s" and j: "jobc_ok s" and i: "init_ok s"
  shows "jobc_ok s'"
proof -
  have d: "pprocs s p2 = None" "pprocs s p1 = Some r1" "pp_pptr r2 = Some p1" "pp_pgrp r2 = pp_pgrp r1" "pgrps s (pp_pgrp r1) = Some G"
    using f unfolding forked_def by blast+
  have q: "qual s' h x = qual s h x" for h x
  proof (cases "x = p2")
    case True
    have "\<not> self_counts s' p2 (pp_pgrp r2)" using d forked_eq(10) [OF f] by (auto simp: self_counts_def parent_pgrp_def forked_eq(1) [OF f])
    then show ?thesis using True d(1) by (auto simp: qual_def forked_eq(1) [OF f])
  next
    case False
    then show ?thesis using forked_view [OF f, of x] forked_view' [OF f, of x] forked_session(2) [OF f, of x] t
      unfolding qual_def self_counts_def forked_eq(3) [OF f] by (cases "pprocs s x") auto
  qed
  show ?thesis
  proof (rule jobc_cong [OF j])
    show "qual s' = qual s" using q by (intro ext)
    show "session_of s' (initproc s') = session_of s (initproc s)"
      using forked_session(1) [OF f, of "initproc s"] i unfolding init_ok_def forked_eq(7) [OF f] by auto
  qed (use d(5) in \<open>auto simp: forked_eq(2) [OF f] split: if_splits\<close>)
qed

lemma forked_sess:
  assumes f: "forked p1 p2 r1 r2 G c s s'" and t: "sess_ok s" and l: "leaders_ok s" and i: "init_ok s"
  shows "sess_ok s'" "leaders_ok s'" "init_ok s'"
proof -
  have G: "pgrps s (pp_pgrp r1) = Some G" using f unfolding forked_def by blast
  show "sess_ok s'" by (rule sess_cong [OF t forked_eq(3-5) [OF f]])
  have "leads s' e x" if "leads s e x" for e x
  proof -
    from that obtain u H where u: "pprocs s x = Some u" "pp_stat u \<noteq> SZOMB" "pgrps s (pp_pgrp u) = Some H" "pg_session H = e" "pg_id H = pp_pid u"
      unfolding leads_def by blast
    have "\<exists>H'. pgrps s' (pp_pgrp u) = Some H' \<and> pg_session H' = pg_session H \<and> pg_id H' = pg_id H"
      using u(3) G by (cases "pp_pgrp u = pp_pgrp r1") (simp_all add: forked_eq(2) [OF f])
    then show ?thesis using forked_view [OF f u(1)] u(2,4,5) unfolding leads_def by metis
  qed
  then show "leaders_ok s'" using l unfolding leaders_ok_def forked_eq(4) [OF f] by blast
  obtain j y u e E where j: "pprocs s (initproc s) = Some j" "pp_pid j = 1" "pp_stat j \<noteq> SZOMB" "pp_pptr j = Some y"
    "pprocs s y = Some u" "pp_pptr u = None" "session_of s (initproc s) = Some e" "sessions s e = Some E" "s_leader E = Some (initproc s)"
    by (rule init_okE [OF i])
  obtain j' where j': "pprocs s' (initproc s) = Some j'" "pp_pid j' = 1" "pp_stat j' \<noteq> SZOMB" "pp_pptr j' = Some y"
    using forked_view [OF f j(1)] j by auto
  obtain u' where "pprocs s' y = Some u'" "pp_pptr u' = None" using forked_view [OF f j(5)] j by auto
  then show "init_ok s'" using j j' forked_session(1) [OF f, of "initproc s"]
    by (intro init_okI [of s' j' y u' e E]) (simp_all add: forked_eq(4,7) [OF f])
qed

lemma forked_ids:
  assumes f: "forked p1 p2 r1 r2 G c s s'" and i: "ids_ok s"
    and n: "0 \<le> pp_pid r2" "c \<le> PID_MAX" "\<And>x. pp_pid r2 \<le> x \<Longrightarrow> x < c \<Longrightarrow>
        (\<forall>p r. pprocs s p = Some r \<longrightarrow> pp_pid r \<noteq> x) \<and> (\<forall>g G. pgrps s g = Some G \<longrightarrow> pg_id G \<noteq> x)" "pp_pid r2 < c"
  shows "ids_ok s'"
proof -
  have d: "pprocs s p2 = None" "pprocs s p1 = Some r1" "pp_stat r2 \<noteq> SZOMB" "pgrps s (pp_pgrp r1) = Some G"
    "pidhash s' = p2 # pidhash s" "allproc s' = p2 # allproc s" "nprocs s' = nprocs s + 1" "nextpid s' = pp_pid r2" "pidchecked s' = c"
    using f unfolding forked_def by auto
  have p2: "pprocs s' p2 = Some r2" by (simp add: forked_eq(1) [OF f])
  have al: "{p. alive s' p} = insert p2 {p. alive s p}"
  proof (intro set_eqI)
    show "x \<in> {p. alive s' p} \<longleftrightarrow> x \<in> insert p2 {p. alive s p}" for x
      using forked_view [OF f, of x] forked_view' [OF f, of x] p2 d(3) unfolding alive_def by (cases "x = p2") auto
  qed
  have dm: "dom (pprocs s') = insert p2 (dom (pprocs s))" using d(2) by (auto simp: forked_eq(1) [OF f])
  have gid: "\<exists>H. pgrps s g = Some H \<and> pg_id H = pg_id H'" if "pgrps s' g = Some H'" for g H'
    using that d(4) by (auto simp: forked_eq(2) [OF f] split: if_splits)
  have o: "distinct (pidhash s)" "set (pidhash s) = {p. alive s p}" "distinct (pgrphash s)" "set (pgrphash s) = dom (pgrps s)"
    "distinct (allproc s @ zombproc s)" "set (allproc s) = {p. alive s p}" "set (allproc s) \<union> set (zombproc s) = dom (pprocs s)"
    "nprocs s = int (length (allproc s @ zombproc s))"
    "\<forall>p q r t. pprocs s p = Some r \<longrightarrow> pprocs s q = Some t \<longrightarrow> pp_pid r = pp_pid t \<longrightarrow> p = q"
    "\<forall>g h G H. pgrps s g = Some G \<longrightarrow> pgrps s h = Some H \<longrightarrow> pg_id G = pg_id H \<longrightarrow> g = h"
    using i unfolding ids_ok_def by blast+
  have np2: "p2 \<notin> set (pidhash s)" "p2 \<notin> set (allproc s @ zombproc s)" using d(1) o(2,7) by (auto simp: alive_def)
  have uniq: "x = y" if "pprocs s' x = Some t" "pprocs s' y = Some u" "pp_pid t = pp_pid u" for x y t u
    using that forked_view' [OF f, of x t] forked_view' [OF f, of y u] o(9) p2 n(3) [of "pp_pid r2"] n(4)
    by (cases "x = p2"; cases "y = p2") (auto, metis+)
  have gq: "g = h" if "pgrps s' g = Some H" "pgrps s' h = Some K" "pg_id H = pg_id K" for g h H K
    using gid [OF that(1)] gid [OF that(2)] that(3) o(10) by metis
  have rest: "pp_pid t \<noteq> x" if x: "pp_pid r2 < x" "x < c" "pprocs s' y = Some t" for x y t
  proof (cases "y = p2")
    case False
    then show ?thesis using n(3) [of x] x forked_view' [OF f x(3)] by (metis less_imp_le)
  qed (use x p2 in auto)
  have rest': "pg_id H \<noteq> x" if "pp_pid r2 < x" "x < c" "pgrps s' g = Some H" for x g H
    using n(3) [of x] that gid [OF that(3)] by auto
  have c: "distinct (p2 # pidhash s)" "set (p2 # pidhash s) = insert p2 {p. alive s p}" "distinct (pgrphash s)" "set (pgrphash s) = dom (pgrps s')"
    "distinct ((p2 # allproc s) @ zombproc s)" "set (p2 # allproc s) = insert p2 {p. alive s p}"
    "set (p2 # allproc s) \<union> set (zombproc s) = insert p2 (dom (pprocs s))" "nprocs s + 1 = int (length ((p2 # allproc s) @ zombproc s))"
    using o(1-6,8) np2 d(4) by (simp_all add: forked_eq(2) [OF f] insert_absorb domI flip: o(7))
  show ?thesis unfolding ids_ok_def d(5-9) forked_eq(6,8) [OF f] al dm
    using c n(1,2) uniq gq rest rest' by (intro conjI) (assumption | blast)+
qed

lemma those_map: "(\<And>x. x \<in> set xs \<Longrightarrow> f x = Some (g x)) \<Longrightarrow> those (map f xs) = Some (map g xs)"
  by (induction xs) auto

definition in_use :: "pgsys \<Rightarrow> int \<Rightarrow> bool" where
  "in_use s x \<longleftrightarrow> (\<exists>p r. pprocs s p = Some r \<and> pp_pid r = x) \<or> (\<exists>g G. pgrps s g = Some G \<and> pg_id G = x)"

lemma proc_ids_eq:
  assumes "pg_ok s"
  shows "\<exists>ids. proc_ids s = Some ids \<and> length ids = length (allproc s @ zombproc s) \<and> (\<forall>x. x \<in> used ids \<longleftrightarrow> in_use s x)"
proof -
  note ok = pg_okD [OF assms]
  have dom: "set (allproc s @ zombproc s) = dom (pprocs s)" using ok(6) unfolding ids_ok_def set_append by blast
  let ?g = "\<lambda>p. (pp_pid (the (pprocs s p)), pg_id (the (pgrps s (pp_pgrp (the (pprocs s p))))))"
  have eq: "do { r \<leftarrow> pprocs s p; G \<leftarrow> pgrps s (pp_pgrp r); Some (pp_pid r, pg_id G) } = Some (?g p)" if "p \<in> dom (pprocs s)" for p
    using that links_okD(1) [OF ok(1), of p] by auto
  have ids: "proc_ids s = Some (map ?g (allproc s @ zombproc s))"
    unfolding proc_ids_def by (rule those_map) (use eq dom in blast)
  have "x \<in> used (map ?g (allproc s @ zombproc s)) \<longleftrightarrow> (\<exists>p r. pprocs s p = Some r \<and> (pp_pid r = x \<or> pg_id (the (pgrps s (pp_pgrp r))) = x))" for x
    unfolding used_def set_map dom by force
  moreover have "(\<exists>p r. pprocs s p = Some r \<and> (pp_pid r = x \<or> pg_id (the (pgrps s (pp_pgrp r))) = x)) \<longleftrightarrow> in_use s x" for x
  proof
    assume "\<exists>p r. pprocs s p = Some r \<and> (pp_pid r = x \<or> pg_id (the (pgrps s (pp_pgrp r))) = x)"
    then show "in_use s x" unfolding in_use_def using links_okD(1) [OF ok(1)] by (metis option.sel)
  next
    assume "in_use s x"
    then show "\<exists>p r. pprocs s p = Some r \<and> (pp_pid r = x \<or> pg_id (the (pgrps s (pp_pgrp r))) = x)" unfolding in_use_def
    proof
      assume "\<exists>g G. pgrps s g = Some G \<and> pg_id G = x"
      then obtain g G where g: "pgrps s g = Some G" "pg_id G = x" by blast
      then obtain p where "p \<in> set (pg_members G)" using ok(2) unfolding groups_used_def by (metis last_in_set)
      then obtain r where "pprocs s p = Some r" "pp_pgrp r = g" using links_okD(3) [OF ok(1) g(1), of p] by blast
      then show ?thesis using g by (intro exI [of _ p] exI [of _ r]) simp
    qed blast
  qed
  ultimately show ?thesis using ids by auto
qed

lemma fork_pid:
  assumes "pg_ok s" "nprocs s < 14950"
  shows "\<exists>ids n c. proc_ids s = Some ids \<and> pid_find ids (nextpid s + 1) (pidchecked s) = Some (n, c) \<and> 0 < n \<and> n < c \<and> c \<le> PID_MAX \<and>
    (\<forall>x. n \<le> x \<longrightarrow> x < c \<longrightarrow> \<not> in_use s x)"
proof -
  obtain ids where ids: "proc_ids s = Some ids" "length ids = length (allproc s @ zombproc s)" "\<forall>x. x \<in> used ids \<longleftrightarrow> in_use s x"
    using proc_ids_eq [OF assms(1)] by blast
  note i = pg_okD(6) [OF assms(1), unfolded ids_ok_def]
  have "\<forall>x. nextpid s < x \<longrightarrow> x < pidchecked s \<longrightarrow> \<not> in_use s x" using i unfolding in_use_def by blast
  then have nu: "none_used ids (nextpid s + 1) (pidchecked s)" using ids(3) unfolding none_used_def by auto
  have "2 * length ids < 29900" using i assms(2) ids(2) by linarith
  then obtain f where "100 \<le> f" "f < PID_MAX" "f \<notin> used ids" using some_unused by blast
  moreover have pc: "pidchecked s \<le> PID_MAX" using i by blast
  ultimately have "finds ids (nextpid s + 1) (pidchecked s)" using pid_find_finds [OF _ _ _ nu] by blast
  then obtain n c where "pid_find ids (nextpid s + 1) (pidchecked s) = Some (n, c)" "none_used ids n c" "n < c"
    "c \<le> PID_MAX" "min (nextpid s + 1) 100 \<le> n" unfolding finds_def by blast
  moreover have "0 \<le> nextpid s" using i by blast
  ultimately show ?thesis using ids(1,3) unfolding none_used_def by (intro exI [of _ ids] exI [of _ n] exI [of _ c]) auto
qed

lemma fork1_ok:
  assumes "pg_ok s" "pprocs s p1 = Some r1" "pp_stat r1 \<noteq> SZOMB" "pprocs s p2 = None" "maxproc \<le> 14950"
  shows "\<exists>res s'. fork1 maxproc limit p1 p2 v s = Some (res, s') \<and> pg_ok s' \<and>
    (case res of Inl e \<Rightarrow> e = EAGAIN \<and> s' = s
     | Inr pid \<Rightarrow> \<not> in_use s pid \<and> (\<exists>r2 G c. forked p1 p2 r1 r2 G c s s' \<and> pp_pid r2 = pid))"
proof -
  note ok = pg_okD [OF assms(1)]
  let ?u = "pp_ruid r1"
  let ?s1 = "s\<lparr>uidcnt := (uidcnt s)(?u \<mapsto> int (ucnt s ?u) + 1)\<rparr>"
  note inc = chg_inc [OF ok(8), of ?u]
  have dec: "chgproccnt ?u (- 1) ?s1 = Some (int (ucnt s ?u), s)"
    using ok(8) ucnt_pos [OF ids_finite [OF ok(6)] assms(2)] unfolding uids_ok_ucnt by (simp add: chgproccnt_def fun_upd_idem)
  consider "maxproc - 1 \<le> nprocs s \<and> ?u \<noteq> 0 \<or> maxproc \<le> nprocs s" | "\<not> (maxproc - 1 \<le> nprocs s \<and> ?u \<noteq> 0 \<or> maxproc \<le> nprocs s)"
    "?u \<noteq> 0 \<and> limit < int (ucnt s ?u) + 1" | "\<not> (maxproc - 1 \<le> nprocs s \<and> ?u \<noteq> 0 \<or> maxproc \<le> nprocs s)"
    "\<not> (?u \<noteq> 0 \<and> limit < int (ucnt s ?u) + 1)" by blast
  then show ?thesis
  proof cases
    case 1
    then show ?thesis using assms(1,2) by (simp add: fork1_def)
  next
    case 2
    then have "fork1 maxproc limit p1 p2 v s = Some (Inl EAGAIN, s)" unfolding fork1_def using assms(2) inc dec by simp
    then show ?thesis using assms(1) by simp
  next
    case 3
    then have "nprocs s < 14950" using assms(5) by auto
    from fork_pid [OF assms(1) this] obtain ids n c where id: "proc_ids s = Some ids" "pid_find ids (nextpid s + 1) (pidchecked s) = Some (n, c)"
      "0 < n" "n < c" "c \<le> PID_MAX" "\<forall>x. n \<le> x \<longrightarrow> x < c \<longrightarrow> \<not> in_use s x" by blast
    obtain G E where G: "pgrps s (pp_pgrp r1) = Some G" "sessions s (pg_session G) = Some E" "session_of s p1 = Some (pg_session G)"
      using proc_facts [OF assms(1,2)] by blast
    let ?r2 = "\<lparr>pp_pid = n, pp_pptr = Some p1, pp_pgrp = pp_pgrp r1, pp_stat = SRUN, pp_children = [],
      pp_flag = {P_INMEM} \<union> (if s_ttyvp E \<and> P_CONTROLT \<in> pp_flag r1 then {P_CONTROLT} else {}) \<union> (if v then {P_PPWAIT} else {}),
      pp_ruid = pp_ruid r1, pp_oppid = 0, pp_xstat = 0\<rparr>"
    have "proc_ids ?s1 = Some ids" using id(1) by (simp add: proc_ids_def)
    then have "fork1 maxproc limit p1 p2 v s = map_option (Pair (Inr n)) (fork_link p1 p2 v n (?s1\<lparr>nextpid := n, pidchecked := c\<rparr>))"
      unfolding fork1_def assms(2) Option.bind.bind_lunit Let_def if_not_P [OF 3(1)] inc case_prod_conv if_not_P [OF 3(2)]
      by (simp add: id(2) map_conv_bind_option o_def)
    moreover have "\<exists>s'. fork_link p1 p2 v n (?s1\<lparr>nextpid := n, pidchecked := c\<rparr>) = Some s' \<and> forked p1 p2 r1 ?r2 G c s s'"
      using assms(2-4) G by (simp add: fork_link_def session_of_def upd_proc_def upd_pgrp_def forked_def Let_def)
    ultimately obtain s' where s': "fork1 maxproc limit p1 p2 v s = Some (Inr n, s')" "forked p1 p2 r1 ?r2 G c s s'" by auto
    have "ttys_ok s'" using ok(10) unfolding ttys_ok_def forked_eq(4,11) [OF s'(2)] .
    then have "pg_ok s'" unfolding pg_ok_def
      using forked_links [OF s'(2) ok(1,2)] forked_tree [OF s'(2) ok(3)] forked_sess [OF s'(2) ok(4,5,7)] forked_ids [OF s'(2) ok(6)]
        forked_uids [OF s'(2) ok(8) ids_finite [OF ok(6)]] forked_jobc [OF s'(2) ok(3,9,7)] id(3-6) unfolding in_use_def by simp
    moreover have "\<exists>r2 G c. forked p1 p2 r1 r2 G c s s' \<and> pp_pid r2 = n" using s'(2) by fastforce
    ultimately show ?thesis using s'(1) id(4,6) by (intro exI [of _ "Inr n"] exI [of _ s']) simp
  qed
qed

section \<open>End of a process\<close>

lemma reparent_all_eq:
  assumes "distinct cs" "initproc s \<notin> set cs" "\<And>c. c \<in> set cs \<Longrightarrow> pprocs s c \<noteq> None"
  shows "\<exists>ev. reparent_all cs s = Some (s\<lparr>pprocs := (\<lambda>x. if x \<in> set cs
      then map_option (\<lambda>r. r\<lparr>pp_pptr := Some (initproc s), pp_flag := pp_flag r - {P_TRACED}\<rparr>) (pprocs s x)
      else if x = initproc s then map_option (\<lambda>r. r\<lparr>pp_children := rev cs @ pp_children r\<rparr>) (pprocs s x) else pprocs s x), pevs := ev\<rparr>)"
  using assms
proof (induction cs arbitrary: s)
  case Nil
  show ?case by (rule exI [of _ "pevs s"]) (simp add: option.map_ident cong: if_cong, simp add: if_distrib [symmetric] fun_upd_def [symmetric])
next
  case (Cons c cs)
  let ?i = "initproc s" and ?f = "\<lambda>r. r\<lparr>pp_pptr := Some (initproc s), pp_flag := pp_flag r - {P_TRACED}\<rparr>"
  obtain r where r: "pprocs s c = Some r" using Cons.prems(3) by auto
  have "c \<noteq> ?i" using Cons.prems(2) by auto
  then have "reparent_one c s = Some (s\<lparr>pprocs := (pprocs s)(?i := map_option (\<lambda>r. r\<lparr>pp_children := c # pp_children r\<rparr>) (pprocs s ?i), c \<mapsto> ?f r),
      pevs := (if P_TRACED \<in> pp_flag r then pevs s @ [Psignal c SIGKILL] else pevs s)\<rparr>)"
    using r by (simp add: reparent_one_def upd_proc_def Let_def)
  then obtain ev where s1: "reparent_one c s = Some (s\<lparr>pprocs := (pprocs s)(?i := map_option (\<lambda>r. r\<lparr>pp_children := c # pp_children r\<rparr>) (pprocs s ?i), c \<mapsto> ?f r),
      pevs := ev\<rparr>)" by blast
  let ?s1 = "s\<lparr>pprocs := (pprocs s)(?i := map_option (\<lambda>r. r\<lparr>pp_children := c # pp_children r\<rparr>) (pprocs s ?i), c \<mapsto> ?f r), pevs := ev\<rparr>"
  have "distinct cs" "initproc ?s1 \<notin> set cs" "\<And>x. x \<in> set cs \<Longrightarrow> pprocs ?s1 x \<noteq> None" using Cons.prems by auto
  from Cons.IH [OF this] obtain ev2 where s2: "reparent_all cs ?s1 = Some (?s1\<lparr>pprocs := (\<lambda>x. if x \<in> set cs
      then map_option (\<lambda>r. r\<lparr>pp_pptr := Some (initproc ?s1), pp_flag := pp_flag r - {P_TRACED}\<rparr>) (pprocs ?s1 x)
      else if x = initproc ?s1 then map_option (\<lambda>r. r\<lparr>pp_children := rev cs @ pp_children r\<rparr>) (pprocs ?s1 x) else pprocs ?s1 x), pevs := ev2\<rparr>)" by blast
  show ?case unfolding reparent_all.simps s1 Option.bind.bind_lunit s2
    using Cons.prems(1,2) r by (auto simp: fun_eq_iff option.map_comp o_def intro!: exI [of _ ev2])
qed

lemma pgsignal_eq:
  assumes "members_ok s" "pgrps s g \<noteq> None"
  shows "\<exists>ev. pgsignal g sig s = Some (s\<lparr>pevs := ev\<rparr>)"
proof -
  obtain G where G: "pgrps s g = Some G" using assms(2) by blast
  have "\<exists>ys. those (map (\<lambda>p. map_option (\<lambda>r. (p, pp_flag r)) (pprocs s p)) (pg_members G)) = Some ys"
    by (rule those_Some) (use assms(1) G in \<open>auto simp: members_ok_def\<close>)
  then show ?thesis using G by (auto simp: pgsignal_def)
qed

lemma exit_leader_eq:
  assumes "links_ok s" "sess_ok s" "pprocs s p = Some r" "pgrps s (pp_pgrp r) = Some G" "sessions s (pg_session G) = Some E"
  shows "\<exists>ev tp ts. exit_leader p s = Some (s\<lparr>pevs := ev, t_pgrp := tp, t_session := ts, sessions := (if s_leader E = Some p
      then (sessions s)(pg_session G \<mapsto> E\<lparr>s_ttyvp := False, s_leader := None\<rparr>) else sessions s)\<rparr>) \<and>
    (\<forall>t g. tp t = Some g \<longrightarrow> t_pgrp s t = Some g) \<and> (\<forall>t e. ts t = Some e \<longrightarrow> t_session s t = Some e) \<and>
    (s_leader E = Some p \<longrightarrow> s_ttyvp E \<longrightarrow> (\<forall>t. s_ttyp E = Some t \<longrightarrow> ts t \<noteq> Some (pg_session G)))"
proof -
  let ?e = "pg_session G"
  define x where "x = (if \<not> s_ttyvp E then Some s
        else do { t \<leftarrow> s_ttyp E; if t_session s t \<noteq> Some ?e then Some s
          else map_option (ttyclose t) (case t_pgrp s t of None \<Rightarrow> Some s | Some g \<Rightarrow> pgsignal g SIGHUP s) })"
  have f: "session_of s p = Some ?e" "sess_leader s p = Some (s_leader E = Some p)"
    using assms(3-5) by (simp_all add: session_of_def sess_leader_def)
  have t: "s_ttyvp E \<Longrightarrow> \<exists>t. s_ttyp E = Some t" using assms(2,5) unfolding sess_ok_def by auto
  have "\<exists>ev tp ts. x = Some (s\<lparr>pevs := ev, t_pgrp := tp, t_session := ts\<rparr>) \<and> (\<forall>t g. tp t = Some g \<longrightarrow> t_pgrp s t = Some g) \<and>
      (\<forall>t e. ts t = Some e \<longrightarrow> t_session s t = Some e) \<and> (s_ttyvp E \<longrightarrow> (\<forall>t. s_ttyp E = Some t \<longrightarrow> ts t \<noteq> Some ?e))"
  proof (cases "\<exists>t. s_ttyvp E \<and> s_ttyp E = Some t \<and> t_session s t = Some ?e")
    case True
    then obtain t where tg: "s_ttyvp E" "s_ttyp E = Some t" "t_session s t = Some ?e" by blast
    have "\<exists>ev. (case t_pgrp s t of None \<Rightarrow> Some s | Some g \<Rightarrow> pgsignal g SIGHUP s) = Some (s\<lparr>pevs := ev\<rparr>)"
    proof (cases "t_pgrp s t")
      case (Some g)
      then have "pgrps s g \<noteq> None" using assms(2) unfolding sess_ok_def by fastforce
      then show ?thesis using pgsignal_eq [OF links_members [OF assms(1)], of g] Some by simp
    qed (auto intro!: exI [of _ "pevs s"])
    then obtain ev where "(case t_pgrp s t of None \<Rightarrow> Some s | Some g \<Rightarrow> pgsignal g SIGHUP s) = Some (s\<lparr>pevs := ev\<rparr>)" ..
    then have "x = Some (s\<lparr>pevs := ev, t_pgrp := (t_pgrp s)(t := None), t_session := (t_session s)(t := None)\<rparr>)"
      using tg by (simp add: x_def ttyclose_def)
    then show ?thesis using tg
      by (intro exI [of _ ev] exI [of _ "(t_pgrp s)(t := None)"] exI [of _ "(t_session s)(t := None)"]) auto
  next
    case False
    then have "x = Some s" using t by (auto simp: x_def)
    then show ?thesis using False by (intro exI [of _ "pevs s"] exI [of _ "t_pgrp s"] exI [of _ "t_session s"]) auto
  qed
  then obtain ev tp ts where o: "x = Some (s\<lparr>pevs := ev, t_pgrp := tp, t_session := ts\<rparr>)" "\<forall>t g. tp t = Some g \<longrightarrow> t_pgrp s t = Some g"
    "\<forall>t e. ts t = Some e \<longrightarrow> t_session s t = Some e" "s_ttyvp E \<longrightarrow> (\<forall>t. s_ttyp E = Some t \<longrightarrow> ts t \<noteq> Some ?e)" by blast
  let ?l = "s_leader E = Some p"
  have "exit_leader p s = (if \<not> ?l then Some s else Option.bind x (\<lambda>s1. Some (s1\<lparr>sessions := (sessions s1)(?e \<mapsto> E\<lparr>s_ttyvp := False, s_leader := None\<rparr>)\<rparr>)))"
    using f assms(5) unfolding exit_leader_def x_def by simp
  then show ?thesis using o
    by (intro exI [of _ "if ?l then ev else pevs s"] exI [of _ "if ?l then tp else t_pgrp s"] exI [of _ "if ?l then ts else t_session s"]) simp
qed

definition exited :: "nat \<Rightarrow> int \<Rightarrow> pproc \<Rightarrow> pgrp_s \<Rightarrow> session_s \<Rightarrow> pgsys \<Rightarrow> pgsys \<Rightarrow> bool" where
  "exited p rv r G E s s' \<longleftrightarrow>
     (\<exists>f. pprocs s' = (\<lambda>x. if x \<in> set (pp_children r)
          then map_option (\<lambda>t. t\<lparr>pp_pptr := Some (initproc s), pp_flag := pp_flag t - {P_TRACED}\<rparr>) (pprocs s x)
        else if x = initproc s then map_option (\<lambda>t. t\<lparr>pp_children := rev (pp_children r) @ pp_children t\<rparr>) (pprocs s x)
        else if x = p then Some (r\<lparr>pp_flag := f, pp_stat := SZOMB, pp_children := [], pp_xstat := rv mod 65536\<rparr>) else pprocs s x)) \<and>
     (\<forall>h. pgrps s' h = map_option (\<lambda>H. H\<lparr>pg_jobc := pg_jobc H - jobs s p (pp_children r) (pp_pgrp r) h\<rparr>) (pgrps s h)) \<and>
     sessions s' = (if s_leader E = Some p then (sessions s)(pg_session G \<mapsto> E\<lparr>s_ttyvp := False, s_leader := None\<rparr>) else sessions s) \<and>
     allproc s' = remove1 p (allproc s) \<and> zombproc s' = p # zombproc s \<and> pidhash s' = remove1 p (pidhash s) \<and>
     (\<forall>t g. t_pgrp s' t = Some g \<longrightarrow> t_pgrp s t = Some g) \<and> pgrphash s' = pgrphash s \<and> uidcnt s' = uidcnt s \<and> initproc s' = initproc s \<and>
     nprocs s' = nprocs s \<and> nextpid s' = nextpid s \<and> pidchecked s' = pidchecked s \<and> pcurproc s' = pcurproc s \<and>
     (\<forall>t e. t_session s' t = Some e \<longrightarrow> t_session s t = Some e) \<and>
     (s_leader E = Some p \<longrightarrow> s_ttyvp E \<longrightarrow> (\<forall>t. s_ttyp E = Some t \<longrightarrow> t_session s' t \<noteq> Some (pg_session G)))"

lemma jobs_cong:
  assumes "\<And>x. map_option (\<lambda>r. (pp_pptr r, pp_pgrp r, pp_stat r)) (pprocs s' x) = map_option (\<lambda>r. (pp_pptr r, pp_pgrp r, pp_stat r)) (pprocs s x)"
    "sess s' = sess s"
  shows "jobs s' = jobs s"
proof -
  have v: "(\<exists>r. pprocs s' x = Some r \<and> P (pp_pptr r) (pp_pgrp r) (pp_stat r)) \<longleftrightarrow> (\<exists>r. pprocs s x = Some r \<and> P (pp_pptr r) (pp_pgrp r) (pp_stat r))" for x P
    using assms(1) [of x] by (cases "pprocs s x"; cases "pprocs s' x") auto
  have pg: "map_option pp_pgrp (pprocs s' x) = map_option pp_pgrp (pprocs s x)" for x using assms(1) [of x] by (cases "pprocs s x"; cases "pprocs s' x") auto
  have "parent_pgrp s' x = parent_pgrp s x" for x
  proof -
    have e: "parent_pgrp t x = Option.bind (pprocs t x) (\<lambda>r. Option.bind (pp_pptr r) (\<lambda>q. map_option pp_pgrp (pprocs t q)))" for t
      unfolding parent_pgrp_def map_conv_bind_option o_def ..
    show ?thesis unfolding e pg using assms(1) [of x] by (cases "pprocs s x"; cases "pprocs s' x") auto
  qed
  moreover have cc: "child_counts s' = child_counts s"
    unfolding fun_eq_iff child_counts_def assms(2) using v [of _ "\<lambda>_ g st. g = h \<and> st \<noteq> SZOMB" for h] by auto
  ultimately show ?thesis unfolding fun_eq_iff [of "jobs s'"] jobs_def self_counts_def assms(2) cc by (simp add: fun_eq_iff)
qed

lemma exit_not_init:
  assumes "pg_ok s" "pprocs s p = Some r" "pp_pid r \<noteq> 0" "pp_pid r \<noteq> 1"
  shows "p \<noteq> initproc s" "initproc s \<notin> set (pp_children r)"
proof -
  obtain i y t e E where i: "pprocs s (initproc s) = Some i" "pp_pid i = 1" "pp_stat i \<noteq> SZOMB" "pp_pptr i = Some y"
    "pprocs s y = Some t" "pp_pptr t = None" "session_of s (initproc s) = Some e" "sessions s e = Some E" "s_leader E = Some (initproc s)"
    by (rule init_okE [OF pg_okD(7) [OF assms(1)]])
  show "p \<noteq> initproc s" using i assms by auto
  show "initproc s \<notin> set (pp_children r)"
    using tree_okD(6) [OF pg_okD(3) [OF assms(1)] assms(2), of "initproc s"] tree_okD(2) [OF pg_okD(3) [OF assms(1)] assms(2)] i assms by auto
qed

lemma exit1_exited:
  assumes "pg_ok s" "pprocs s p = Some r" "pp_stat r \<noteq> SZOMB" "pp_pid r \<noteq> 0" "pp_pid r \<noteq> 1" "pgrps s (pp_pgrp r) = Some G"
    "sessions s (pg_session G) = Some E"
  shows "\<exists>s'. exit1 p rv s = Some s' \<and> exited p rv r G E s s'"
proof -
  note ok = pg_okD [OF assms(1)] and ni = exit_not_init [OF assms(1,2,4,5)]
  define f where f: "f = insert P_WEXIT (pp_flag r - {P_TRACED, P_PPWAIT})"
  let ?sa = "upd_proc p (\<lambda>r. r\<lparr>pp_flag := insert P_WEXIT (pp_flag r - {P_TRACED, P_PPWAIT})\<rparr>) s" and ?ra = "r\<lparr>pp_flag := f\<rparr>"
  let ?ss = "if s_leader E = Some p then (sessions s)(pg_session G \<mapsto> E\<lparr>s_ttyvp := False, s_leader := None\<rparr>) else sessions s"
  have sa: "?sa = s\<lparr>pprocs := (pprocs s)(p \<mapsto> ?ra)\<rparr>" using assms(2) by (simp add: upd_proc_def f)
  have la: "links_ok ?sa" "sess_ok ?sa" unfolding sa
    using ok(1,4) assms(2) unfolding links_ok_def sess_ok_def sess_def by (auto split: if_splits) force
  obtain ev tp ts where sb: "exit_leader p ?sa = Some (?sa\<lparr>pevs := ev, t_pgrp := tp, t_session := ts, sessions := ?ss\<rparr>)" and
    tt: "\<forall>t g. tp t = Some g \<longrightarrow> t_pgrp s t = Some g" "\<forall>t e. ts t = Some e \<longrightarrow> t_session s t = Some e"
    "s_leader E = Some p \<longrightarrow> s_ttyvp E \<longrightarrow> (\<forall>t. s_ttyp E = Some t \<longrightarrow> ts t \<noteq> Some (pg_session G))"
    using exit_leader_eq [OF la, of p ?ra G E] assms(6,7) unfolding sa by (auto cong: if_cong)
  define sb where "sb = ?sa\<lparr>pevs := ev, t_pgrp := tp, t_session := ts, sessions := ?ss\<rparr>"
  have fb: "pprocs sb = (pprocs s)(p \<mapsto> ?ra)" "pgrps sb = pgrps s" "initproc sb = initproc s" by (simp_all add: sb_def sa)
  have jb: "jobs sb = jobs s" by (rule jobs_cong) (use assms(2) in \<open>auto simp: fb sess_def\<close>)
  obtain q where q: "pp_pptr r = Some q" using tree_okD(2) [OF ok(3) assms(2)] assms(4) by auto
  obtain t where t: "pprocs s q = Some t" "q \<noteq> p" using tree_parent [OF ok(3) assms(2) q] by blast
  have tg: "pgrps s (pp_pgrp t) \<noteq> None" using links_okD(1) [OF ok(1) t(1)] by auto
  have ch: "\<exists>r. pprocs sb c = Some r \<and> pgrps sb (pp_pgrp r) \<noteq> None" if "c \<in> set (pp_children r)" for c
    using that tree_okD(6,8) [OF ok(3) assms(2)] links_okD(1) [OF ok(1), of c] unfolding fb by fastforce
  have "\<exists>s1. fixjobc p (pp_pgrp r) False sb = Some s1 \<and>
      shift (\<lambda>h. (if False then 1 else - 1) * jobs sb p (pp_children ?ra) (pp_pgrp r) h) sb s1"
    by (rule fixjobc_shift [where q = q and rq = t])
      (use links_members [OF la(1)] q t tg ch assms(6) in \<open>auto simp: fb members_ok_def sa\<close>)
  then obtain s1 where s1: "fixjobc p (pp_pgrp r) False sb = Some s1" "shift (\<lambda>h. - jobs s p (pp_children r) (pp_pgrp r) h) sb s1"
    by (auto simp: jb)
  note S = shift_same [OF s1(2)]
  let ?s2 = "upd_proc p (\<lambda>r. r\<lparr>pp_stat := SZOMB, pp_children := [], pp_xstat := rv mod 65536\<rparr>)
      (s1\<lparr>allproc := remove1 p (allproc s1), zombproc := p # zombproc s1, pidhash := remove1 p (pidhash s1),
          pevs := pevs s1 @ (if pp_children r = [] then [] else [Wakeup (initproc s1)])\<rparr>)"
  have p2: "pprocs ?s2 = (pprocs s)(p \<mapsto> r\<lparr>pp_flag := f, pp_stat := SZOMB, pp_children := [], pp_xstat := rv mod 65536\<rparr>)" "initproc ?s2 = initproc s"
    by (simp_all add: upd_proc_def S fb)
  have cd: "distinct (pp_children r)" "p \<notin> set (pp_children r)" using tree_okD(4,8) [OF ok(3) assms(2)] by auto
  have "pprocs ?s2 c \<noteq> None" if "c \<in> set (pp_children r)" for c using ch [OF that] unfolding p2 fb by auto
  from reparent_all_eq [OF cd(1) _ this] ni(2) p2(2) obtain ev2 where s3: "reparent_all (pp_children r) ?s2 = Some (?s2\<lparr>pprocs := (\<lambda>x. if x \<in> set (pp_children r)
      then map_option (\<lambda>r. r\<lparr>pp_pptr := Some (initproc ?s2), pp_flag := pp_flag r - {P_TRACED}\<rparr>) (pprocs ?s2 x)
      else if x = initproc ?s2 then map_option (\<lambda>t. t\<lparr>pp_children := rev (pp_children r) @ pp_children t\<rparr>) (pprocs ?s2 x) else pprocs ?s2 x), pevs := ev2\<rparr>)"
    by auto
  let ?s3 = "?s2\<lparr>pprocs := (\<lambda>x. if x \<in> set (pp_children r)
      then map_option (\<lambda>r. r\<lparr>pp_pptr := Some (initproc ?s2), pp_flag := pp_flag r - {P_TRACED}\<rparr>) (pprocs ?s2 x)
      else if x = initproc ?s2 then map_option (\<lambda>t. t\<lparr>pp_children := rev (pp_children r) @ pp_children t\<rparr>) (pprocs ?s2 x) else pprocs ?s2 x), pevs := ev2\<rparr>"
  let ?s' = "?s3\<lparr>pevs := pevs ?s3 @ [Psignal q SIGCHLD, Wakeup q]\<rparr>"
  have "exit1 p rv s = Some ?s'"
    unfolding exit1_def assms(2) Option.bind.bind_lunit using assms(5) sb [folded sb_def] s1(1) q s3 by (simp add: Let_def)
  moreover have "exited p rv r G E s ?s'"
    unfolding exited_def using ni cd(2) assms(2) tt
    by (intro conjI exI [of _ f]) (auto simp: p2 upd_proc_def S sb_def sa fun_eq_iff f)
  ultimately show ?thesis by blast
qed

definition ex :: "nat \<Rightarrow> int \<Rightarrow> pproc \<Rightarrow> pgrp_s \<Rightarrow> session_s \<Rightarrow> pgsys \<Rightarrow> pgsys \<Rightarrow> bool" where
  "ex p rv r G E s s' \<longleftrightarrow> pg_ok s \<and> pprocs s p = Some r \<and> pp_stat r \<noteq> SZOMB \<and> pp_pid r \<noteq> 0 \<and> pp_pid r \<noteq> 1 \<and> pgrps s (pp_pgrp r) = Some G \<and>
     sessions s (pg_session G) = Some E \<and> exited p rv r G E s s'"

lemma exD:
  assumes "ex p rv r G E s s'"
  shows "pg_ok s" "pprocs s p = Some r" "pp_stat r \<noteq> SZOMB" "pp_pid r \<noteq> 0" "pp_pid r \<noteq> 1" "pgrps s (pp_pgrp r) = Some G"
    "sessions s (pg_session G) = Some E" "exited p rv r G E s s'" "p \<noteq> initproc s" "initproc s \<notin> set (pp_children r)" "p \<notin> set (pp_children r)"
  using assms exit_not_init [of s p r] tree_okD(8) [OF pg_okD(3), of s p r] unfolding ex_def by blast+

lemma exitedD:
  assumes "exited p rv r G E s s'"
  shows "sess s' = sess s" "allproc s' = remove1 p (allproc s)" "zombproc s' = p # zombproc s" "pidhash s' = remove1 p (pidhash s)"
    "t_pgrp s' t = Some g \<Longrightarrow> t_pgrp s t = Some g" "pgrphash s' = pgrphash s" "uidcnt s' = uidcnt s" "initproc s' = initproc s" "nprocs s' = nprocs s"
    "nextpid s' = nextpid s" "pidchecked s' = pidchecked s" "pcurproc s' = pcurproc s"
    "sessions s' = (if s_leader E = Some p then (sessions s)(pg_session G \<mapsto> E\<lparr>s_ttyvp := False, s_leader := None\<rparr>) else sessions s)"
    "t_session s' t = Some e \<Longrightarrow> t_session s t = Some e"
    "s_leader E = Some p \<Longrightarrow> s_ttyvp E \<Longrightarrow> s_ttyp E = Some t \<Longrightarrow> t_session s' t \<noteq> Some (pg_session G)"
  using assms by (simp_all add: exited_def sess_def option.map_comp o_def fun_eq_iff)

text \<open>How \<open>exit1\<close> changes each process, and each group.\<close>

lemma ex_view:
  assumes "ex p rv r G E s s'" "pprocs s x = Some t"
  shows "\<exists>t'. pprocs s' x = Some t' \<and> pp_pid t' = pp_pid t \<and> pp_pgrp t' = pp_pgrp t \<and> pp_ruid t' = pp_ruid t \<and> pp_oppid t' = pp_oppid t \<and>
    pp_stat t' = (if x = p then SZOMB else pp_stat t) \<and> pp_pptr t' = (if x \<in> set (pp_children r) then Some (initproc s) else pp_pptr t) \<and>
    pp_children t' = (if x = p then [] else if x = initproc s then rev (pp_children r) @ pp_children t else pp_children t)"
  using assms(2) exD(2,9-11) [OF assms(1)] exD(8) [OF assms(1), unfolded exited_def] by auto

lemma ex_dom:
  assumes "ex p rv r G E s s'"
  shows "pprocs s' x = None \<longleftrightarrow> pprocs s x = None"
proof -
  obtain f where "pprocs s' = (\<lambda>x. if x \<in> set (pp_children r)
        then map_option (\<lambda>t. t\<lparr>pp_pptr := Some (initproc s), pp_flag := pp_flag t - {P_TRACED}\<rparr>) (pprocs s x)
      else if x = initproc s then map_option (\<lambda>t. t\<lparr>pp_children := rev (pp_children r) @ pp_children t\<rparr>) (pprocs s x)
      else if x = p then Some (r\<lparr>pp_flag := f, pp_stat := SZOMB, pp_children := [], pp_xstat := rv mod 65536\<rparr>) else pprocs s x)"
    using exD(8) [OF assms] unfolding exited_def by blast
  then show ?thesis using exD(2) [OF assms] by simp
qed

lemma ex_view':
  assumes "ex p rv r G E s s'" "pprocs s' x = Some t'"
  shows "\<exists>t. pprocs s x = Some t \<and> pp_pid t' = pp_pid t \<and> pp_pgrp t' = pp_pgrp t \<and> pp_ruid t' = pp_ruid t \<and> pp_oppid t' = pp_oppid t \<and>
    pp_stat t' = (if x = p then SZOMB else pp_stat t) \<and> pp_pptr t' = (if x \<in> set (pp_children r) then Some (initproc s) else pp_pptr t) \<and>
    pp_children t' = (if x = p then [] else if x = initproc s then rev (pp_children r) @ pp_children t else pp_children t)"
proof -
  obtain t where t: "pprocs s x = Some t" using ex_dom [OF assms(1), of x] assms(2) by (cases "pprocs s x") auto
  then show ?thesis using ex_view [OF assms(1) t] assms(2) by auto
qed

lemma ex_grp:
  assumes "ex p rv r G E s s'" "pgrps s' h = Some H'"
  shows "\<exists>H. pgrps s h = Some H \<and> pg_session H' = pg_session H \<and> pg_id H' = pg_id H \<and> pg_members H' = pg_members H \<and>
    pg_jobc H' = pg_jobc H - jobs s p (pp_children r) (pp_pgrp r) h"
proof -
  have "pgrps s' h = map_option (\<lambda>H. H\<lparr>pg_jobc := pg_jobc H - jobs s p (pp_children r) (pp_pgrp r) h\<rparr>) (pgrps s h)"
    using exD(8) [OF assms(1)] unfolding exited_def by blast
  then show ?thesis using assms(2) by (cases "pgrps s h") auto
qed

lemma ex_grp_ex:
  assumes "ex p rv r G E s s'" "pgrps s h = Some H"
  shows "\<exists>H'. pgrps s' h = Some H' \<and> pg_session H' = pg_session H \<and> pg_id H' = pg_id H \<and> pg_members H' = pg_members H"
proof -
  have "pgrps s' h = map_option (\<lambda>H. H\<lparr>pg_jobc := pg_jobc H - jobs s p (pp_children r) (pp_pgrp r) h\<rparr>) (pgrps s h)"
    using exD(8) [OF assms(1)] unfolding exited_def by blast
  then show ?thesis using assms(2) by simp
qed

lemma ex_links:
  assumes "ex p rv r G E s s'"
  shows "links_ok s'" "groups_used s'"
proof -
  note L = links_okD [OF pg_okD(1) [OF exD(1) [OF assms]]]
  show "links_ok s'" unfolding links_ok_def
  proof (intro conjI allI impI)
    fix x t' assume "pprocs s' x = Some t'"
    from ex_view' [OF assms this] obtain t where t: "pprocs s x = Some t" "pp_pgrp t' = pp_pgrp t" by blast
    then show "\<exists>H. pgrps s' (pp_pgrp t') = Some H \<and> x \<in> set (pg_members H)" using L(1) [OF t(1)] ex_grp_ex [OF assms] by metis
  next
    fix g H' assume "pgrps s' g = Some H'"
    from ex_grp [OF assms this] obtain H where H: "pgrps s g = Some H" "pg_members H' = pg_members H" by blast
    show "distinct (pg_members H')" using L(2) [OF H(1)] H(2) by simp
    show "\<forall>x\<in>set (pg_members H'). \<exists>t. pprocs s' x = Some t \<and> pp_pgrp t = g" using L(3) [OF H(1)] H(2) ex_view [OF assms] by metis
  qed
  show "groups_used s'" using pg_okD(2) [OF exD(1) [OF assms]] ex_grp [OF assms] unfolding groups_used_def by metis
qed

lemma ex_rooted:
  assumes "ex p rv r G E s s'" "rooted s x"
  shows "rooted s' x"
proof -
  note pre = exD [OF assms(1)]
  obtain i y t e F where i: "pprocs s (initproc s) = Some i" "pp_pptr i = Some y" "pprocs s y = Some t" "pp_pptr t = None"
    by (rule init_okE [OF pg_okD(7) [OF pre(1)]])
  note ch = tree_okD(6) [OF pg_okD(3) [OF pre(1)] pre(2)]
  have "y \<notin> set (pp_children r)" using ch [of y] i(3,4) by auto
  then have "rooted s' y" using ex_view [OF assms(1) i(3)] i(4) by (auto intro: rooted.root)
  then have ri: "rooted s' (initproc s)" using ex_view [OF assms(1) i(1)] i(2) pre(10) by (auto intro: rooted.up)
  show ?thesis using assms(2)
  proof induction
    case (root x t)
    then show ?case using ex_view [OF assms(1) root(1)] ch [of x] by (auto intro: rooted.root)
  next
    case (up x t q)
    then show ?case using ex_view [OF assms(1) up(1)] ri by (auto intro: rooted.up split: if_splits)
  qed
qed

lemma ex_tree:
  assumes "ex p rv r G E s s'"
  shows "tree_ok s'"
  unfolding tree_ok_def
proof (intro allI impI)
  note pre = exD [OF assms] and T = pg_okD(3) [OF exD(1) [OF assms]]
  note ch = tree_okD(6) [OF T pre(2)]
  obtain i y u where i: "pprocs s (initproc s) = Some i" "pp_stat i \<noteq> SZOMB" by (rule init_okE [OF pg_okD(7) [OF pre(1)]])
  fix x t' assume x: "pprocs s' x = Some t'"
  from ex_view' [OF assms x] obtain t where t: "pprocs s x = Some t" "pp_pid t' = pp_pid t" "pp_oppid t' = pp_oppid t"
    "pp_stat t' = (if x = p then SZOMB else pp_stat t)" "pp_pptr t' = (if x \<in> set (pp_children r) then Some (initproc s) else pp_pptr t)"
    "pp_children t' = (if x = p then [] else if x = initproc s then rev (pp_children r) @ pp_children t else pp_children t)" by blast
  note tx = tree_okD(1-6) [OF T t(1)]
  have par: "(\<exists>w'. pprocs s' z = Some w' \<and> pp_pptr w' = Some x) \<longleftrightarrow>
      (\<exists>w. pprocs s z = Some w \<and> (if z \<in> set (pp_children r) then x = initproc s else pp_pptr w = Some x))" for z
    using ex_dom [OF assms, of z] ex_view [OF assms, of z] by (cases "pprocs s z") auto
  have pc: "pp_pptr t = None \<Longrightarrow> x \<notin> set (pp_children r)" using ch [of x] t(1) by auto
  have disj: "set (pp_children r) \<inter> set (pp_children t) = {}" if "x \<noteq> p" using that ch tx(6) by fastforce
  have "z \<in> set (pp_children t') \<longleftrightarrow> (\<exists>w. pprocs s z = Some w \<and> (if z \<in> set (pp_children r) then x = initproc s else pp_pptr w = Some x))" for z
    using t(6) ch [of z] tx(6) [of z] pre(9) t(1) pre(2) disj by (cases "x = p"; cases "x = initproc s"; cases "z \<in> set (pp_children r)") auto
  moreover have "distinct (pp_children t')" using t(6) tx(4) disj tree_okD(4) [OF T pre(2)] by auto
  ultimately show "rooted s' x \<and> (pp_pptr t' = None \<longleftrightarrow> pp_pid t' = 0) \<and> pp_oppid t' = 0 \<and> distinct (pp_children t') \<and>
     (pp_stat t' = SZOMB \<longrightarrow> pp_children t' = []) \<and> (\<forall>c. c \<in> set (pp_children t') \<longleftrightarrow> (\<exists>rc. pprocs s' c = Some rc \<and> pp_pptr rc = Some x))"
    unfolding par using ex_rooted [OF assms tx(1)] t tx i ch [of x] pc by auto
qed

lemma ex_sess:
  assumes "ex p rv r G E s s'"
  shows "sess_ok s'" "leaders_ok s'" "init_ok s'" "ttys_ok s'"
proof -
  note pre = exD [OF assms] and ok = pg_okD [OF exD(1) [OF assms]] and d = exitedD [OF exD(8) [OF assms]]
  have se: "\<exists>F. sessions s e = Some F \<and> s_count F' = s_count F \<and> s_ttyp F' = s_ttyp F \<and> (s_ttyvp F' \<longrightarrow> s_ttyvp F) \<and>
      (\<forall>x. s_leader F' = Some x \<longrightarrow> s_leader F = Some x \<and> (e = pg_session G \<longrightarrow> x \<noteq> p))" if "sessions s' e = Some F'" for e F'
    using that pre(7) unfolding d(13) by (auto split: if_splits)
  have se': "\<exists>F'. sessions s' e = Some F' \<and> s_ttyp F' = s_ttyp F \<and> (\<forall>x. s_leader F = Some x \<longrightarrow> x \<noteq> p \<longrightarrow> s_leader F' = Some x)"
    if "sessions s e = Some F" for e F using that pre(7) unfolding d(13) by (auto split: if_splits)
  show "sess_ok s'"
  proof -
    have "\<forall>g G. pgrps s' g = Some G \<longrightarrow> sessions s' (pg_session G) \<noteq> None"
      using ok(4) ex_grp [OF assms] se' unfolding sess_ok_def by (metis option.discI option.exhaust)
    moreover have "\<forall>e E. sessions s' e = Some E \<longrightarrow> s_count E = int (card {g. sess s g = Some e}) \<and> (s_ttyvp E \<longrightarrow> s_ttyp E \<noteq> None)"
      using ok(4) se unfolding sess_ok_def by metis
    moreover have "\<forall>t g. t_pgrp s t = Some g \<longrightarrow> (\<exists>G E. pgrps s' g = Some G \<and> sessions s' (pg_session G) = Some E \<and> s_ttyp E = Some t)"
      using ok(4) ex_grp_ex [OF assms] se' unfolding sess_ok_def by metis
    ultimately show ?thesis unfolding sess_ok_def d(1) using d(5) by blast
  qed
  show "ttys_ok s'" unfolding ttys_ok_def
  proof (intro conjI allI impI)
    fix t e assume te: "t_session s' t = Some e"
    obtain F where F: "sessions s e = Some F" "s_ttyp F = Some t" "s_leader F \<noteq> None" using ok(10) d(14) [OF te] unfolding ttys_ok_def by blast
    have "s_ttyvp F" using ok(10) F unfolding ttys_ok_def by fastforce
    then have "\<not> (e = pg_session G \<and> s_leader E = Some p)" using d(15) [of t] te F pre(7) by auto
    then show "\<exists>E. sessions s' e = Some E \<and> s_ttyp E = Some t \<and> s_leader E \<noteq> None" using F unfolding d(13) by auto
  next
    fix e F assume "sessions s' e = Some F" "s_leader F \<noteq> None" "\<not> s_ttyvp F"
    then show "s_ttyp F = None" using ok(10) unfolding ttys_ok_def d(13) by (auto split: if_splits)
  qed
  have ld: "leads s' e x" if "leads s e x" "x \<noteq> p" for e x
  proof -
    from that(1) obtain t H where t: "pprocs s x = Some t" "pp_stat t \<noteq> SZOMB" "pgrps s (pp_pgrp t) = Some H" "pg_session H = e" "pg_id H = pp_pid t"
      unfolding leads_def by blast
    from ex_view [OF assms t(1)] ex_grp_ex [OF assms t(3)] show ?thesis using t that(2) unfolding leads_def by fastforce
  qed
  show "leaders_ok s'" unfolding leaders_ok_def
  proof (intro allI impI)
    fix e F' x assume "sessions s' e = Some F'" "s_leader F' = Some x"
    then obtain F where F: "sessions s e = Some F" "s_leader F = Some x" "e = pg_session G \<longrightarrow> x \<noteq> p" using se by blast
    then have l: "leads s e x" using ok(5) unfolding leaders_ok_def by blast
    then have "x \<noteq> p" using F(3) pre(2,6) unfolding leads_def by auto
    then show "leads s' e x" using ld [OF l] by blast
  qed
  obtain j y u e F where j: "pprocs s (initproc s) = Some j" "pp_pid j = 1" "pp_stat j \<noteq> SZOMB" "pp_pptr j = Some y"
    "pprocs s y = Some u" "pp_pptr u = None" "session_of s (initproc s) = Some e" "sessions s e = Some F" "s_leader F = Some (initproc s)"
    by (rule init_okE [OF ok(7)])
  obtain j' where j': "pprocs s' (initproc s) = Some j'" "pp_pid j' = 1" "pp_stat j' \<noteq> SZOMB" "pp_pptr j' = Some y" "pp_pgrp j' = pp_pgrp j"
    using ex_view [OF assms j(1)] j pre(9,10) by auto
  have "y \<notin> set (pp_children r)" using tree_okD(6) [OF ok(3) pre(2), of y] j(5,6) by auto
  then obtain u' where u': "pprocs s' y = Some u'" "pp_pptr u' = None" using ex_view [OF assms j(5)] j by auto
  obtain F' where "sessions s' e = Some F'" "s_leader F' = Some (initproc s)" using se' [OF j(8)] j(9) pre(9) by auto
  then show "init_ok s'" using j j' u' by (intro init_okI [of s' j' y u' e F']) (simp_all add: d(1,8) session_of_sess)
qed

lemma ex_uids:
  assumes "ex p rv r G E s s'"
  shows "uids_ok s'"
proof -
  have "map_option pp_ruid (pprocs s' x) = map_option pp_ruid (pprocs s x)" for x
    using ex_dom [OF assms, of x] ex_view [OF assms, of x] by (cases "pprocs s x") auto
  then show ?thesis using pg_okD(8) [OF exD(1) [OF assms]] unfolding uids_ok_def exitedD(7) [OF exD(8) [OF assms]] by simp
qed

lemma ex_ids:
  assumes "ex p rv r G E s s'"
  shows "ids_ok s'"
proof -
  note pre = exD [OF assms] and d = exitedD [OF exD(8) [OF assms]]
  have al: "{x. alive s' x} = {x. alive s x} - {p}"
  proof (intro set_eqI)
    show "x \<in> {x. alive s' x} \<longleftrightarrow> x \<in> {x. alive s x} - {p}" for x
      using ex_dom [OF assms, of x] ex_view [OF assms, of x] unfolding alive_def by (cases "pprocs s x"; cases "x = p") auto
  qed
  have pa: "alive s p" using pre(2,3) by (auto simp: alive_def)
  have dm: "dom (pprocs s') = dom (pprocs s)" using ex_dom [OF assms] by (auto simp: dom_def)
  have dg: "dom (pgrps s') = dom (pgrps s)" using ex_grp [OF assms] ex_grp_ex [OF assms] by fastforce
  note i = pg_okD(6) [OF pre(1), unfolded ids_ok_def]
  have o: "distinct (pidhash s)" "set (pidhash s) = {p. alive s p}" "distinct (pgrphash s)" "set (pgrphash s) = dom (pgrps s)"
    "distinct (allproc s @ zombproc s)" "set (allproc s) = {p. alive s p}" "set (allproc s) \<union> set (zombproc s) = dom (pprocs s)"
    "nprocs s = int (length (allproc s @ zombproc s))" "0 \<le> nextpid s" "pidchecked s \<le> PID_MAX" using i by blast+
  have "p \<in> set (allproc s)" using o(6) pa by simp
  then have len: "length (allproc s) = Suc (length (remove1 p (allproc s)))" using length_pos_if_in_set [of p "allproc s"] by (simp add: length_remove1)
  have c: "distinct (remove1 p (pidhash s))" "set (remove1 p (pidhash s)) = {x. alive s x} - {p}"
    "distinct (remove1 p (allproc s) @ p # zombproc s)" "set (remove1 p (allproc s)) = {x. alive s x} - {p}"
    "set (remove1 p (allproc s)) \<union> set (p # zombproc s) = dom (pprocs s)" "nprocs s = int (length (remove1 p (allproc s) @ p # zombproc s))"
    using o pa len by (auto simp del: length_remove1)
  have u: "\<forall>x y t w. pprocs s' x = Some t \<longrightarrow> pprocs s' y = Some w \<longrightarrow> pp_pid t = pp_pid w \<longrightarrow> x = y" using i ex_view' [OF assms] by metis
  have g: "\<forall>g h G H. pgrps s' g = Some G \<longrightarrow> pgrps s' h = Some H \<longrightarrow> pg_id G = pg_id H \<longrightarrow> g = h" using i ex_grp [OF assms] by metis
  have n: "\<forall>x. nextpid s < x \<longrightarrow> x < pidchecked s \<longrightarrow>
        (\<forall>p r. pprocs s' p = Some r \<longrightarrow> pp_pid r \<noteq> x) \<and> (\<forall>g G. pgrps s' g = Some G \<longrightarrow> pg_id G \<noteq> x)"
    using i ex_grp [OF assms] ex_view' [OF assms] by metis
  show ?thesis unfolding ids_ok_def d al dm dg by (intro conjI c o(3,4,9,10) u g n)
qed

lemma qual_self:
  assumes "pprocs s p = Some r" "pp_stat r \<noteq> SZOMB"
  shows "qual s h p \<longleftrightarrow> h = pp_pgrp r \<and> self_counts s p (pp_pgrp r)"
  using assms by (auto simp: qual_def)

lemma qual_child:
  assumes "tree_ok s" "pprocs s p = Some r" "x \<in> set (pp_children r)"
  shows "qual s h x \<longleftrightarrow> child_counts s (pp_pgrp r) h x"
  using tree_okD(6) [OF assms(1,2), of x] assms(2,3) by (auto simp: qual_def child_counts_def self_counts_def parent_pgrp_def)

lemma ex_jobc:
  assumes "ex p rv r G E s s'"
  shows "jobc_ok s'"
  unfolding jobc_ok_def
proof (intro allI impI)
  note pre = exD [OF assms] and ok = pg_okD [OF exD(1) [OF assms]] and d = exitedD [OF exD(8) [OF assms]]
  obtain i y u e F where i: "pprocs s (initproc s) = Some i" "session_of s (initproc s) = Some e" by (rule init_okE [OF ok(7)])
  obtain i' where i': "pprocs s' (initproc s) = Some i'" "pp_pgrp i' = pp_pgrp i" using ex_view [OF assms i(1)] by blast
  have ie: "sess s (pp_pgrp i) = Some e" using i by (simp add: session_of_sess)
  fix h H' assume h: "pgrps s' h = Some H'" "session_of s' (initproc s') \<noteq> Some (pg_session H')"
  from ex_grp [OF assms h(1)] obtain H where H: "pgrps s h = Some H" "pg_session H' = pg_session H"
    "pg_jobc H' = pg_jobc H - jobs s p (pp_children r) (pp_pgrp r) h" by blast
  have "session_of s' (initproc s') = Some e" using i' ie by (simp add: session_of_sess d(1,8))
  then have ne: "sess s h \<noteq> Some e" using h(2) H by (simp add: sess_def)
  have job: "pg_jobc H = int (card {x. qual s h x})" using ok(9) H(1) ne i(2) unfolding jobc_ok_def by (auto simp: sess_def)
  have c: "p \<notin> set (pp_children r)" "distinct (pp_children r)" using pre(11) tree_okD(4) [OF ok(3) pre(2)] by auto
  have q1: "\<not> qual s' h p" using ex_view [OF assms pre(2)] by (auto simp: qual_def)
  have q2: "\<not> qual s' h x" if xc: "x \<in> set (pp_children r)" for x
  proof -
    obtain t where t: "pprocs s x = Some t" using tree_okD(6) [OF ok(3) pre(2), of x] xc by blast
    have "parent_pgrp s' x = Some (pp_pgrp i)" using ex_view [OF assms t] xc i' by (auto simp: parent_pgrp_def)
    then show ?thesis using ne ie by (auto simp: qual_def self_counts_def d(1))
  qed
  have q3: "qual s' h x \<longleftrightarrow> qual s h x" if x: "x \<noteq> p" "x \<notin> set (pp_children r)" for x
  proof (cases "pprocs s x")
    case None
    then show ?thesis using ex_dom [OF assms, of x] by (simp add: qual_def)
  next
    case (Some t)
    from ex_view [OF assms Some] obtain t' where t': "pprocs s' x = Some t'" "pp_pgrp t' = pp_pgrp t" "pp_stat t' = pp_stat t" "pp_pptr t' = pp_pptr t"
      using x by auto
    have "map_option pp_pgrp (pprocs s' z) = map_option pp_pgrp (pprocs s z)" for z
      using ex_dom [OF assms, of z] ex_view [OF assms, of z] by (cases "pprocs s z") auto
    then have "parent_pgrp s' x = parent_pgrp s x" using t' Some
      by (cases "pp_pptr t") (simp_all add: parent_pgrp_def flip: map_conv_bind_option [unfolded o_def])
    then show ?thesis using t' Some by (simp add: qual_def self_counts_def d(1))
  qed
  have f: "filter (qual s' h) (pp_children r) = []" "filter (qual s h) (pp_children r) = filter (child_counts s (pp_pgrp r) h) (pp_children r)"
    using q2 qual_child [OF ok(3) pre(2)] by (simp_all cong: filter_cong)
  have rest: "{x. qual s' h x \<and> x \<noteq> p \<and> x \<notin> set (pp_children r)} = {x. qual s h x \<and> x \<noteq> p \<and> x \<notin> set (pp_children r)}" using q3 by auto
  show "pg_jobc H' = int (card {x. qual s' h x})"
    unfolding H(3) job card_split [OF qual_finite [OF ok(6)] c] card_split [OF qual_finite [OF ex_ids [OF assms]] c] f rest jobs_def
      qual_self [OF pre(2,3)] using q1 by simp
qed

lemma exit1_ok:
  assumes "pg_ok s" "pprocs s p = Some r" "pp_stat r \<noteq> SZOMB" "pp_pid r \<noteq> 0" "pp_pid r \<noteq> 1"
  shows "\<exists>s'. exit1 p rv s = Some s' \<and> pg_ok s' \<and> initproc s' = initproc s \<and> (\<forall>x. alive s' x \<longleftrightarrow> alive s x \<and> x \<noteq> p) \<and>
    (\<exists>t. pprocs s' p = Some t \<and> pp_stat t = SZOMB)"
proof -
  obtain G E where G: "pgrps s (pp_pgrp r) = Some G" "sessions s (pg_session G) = Some E" using proc_facts [OF assms(1,2)] by blast
  obtain s' where s': "exit1 p rv s = Some s'" "exited p rv r G E s s'" using exit1_exited [OF assms G] by blast
  have x: "ex p rv r G E s s'" unfolding ex_def using assms G s'(2) by blast
  have "pg_ok s'" unfolding pg_ok_def using ex_links [OF x] ex_tree [OF x] ex_sess [OF x] ex_ids [OF x] ex_uids [OF x] ex_jobc [OF x] by blast
  moreover have "alive s' z \<longleftrightarrow> alive s z \<and> z \<noteq> p" for z
    using ex_dom [OF x, of z] ex_view [OF x, of z] unfolding alive_def by (cases "pprocs s z"; cases "z = p") auto
  ultimately show ?thesis using s' exitedD(8) [OF s'(2)] ex_view [OF x assms(2)] by auto
qed

section \<open>Reaping\<close>

definition reaped :: "nat \<Rightarrow> nat \<Rightarrow> pproc \<Rightarrow> pproc \<Rightarrow> pgrp_s \<Rightarrow> session_s \<Rightarrow> pgsys \<Rightarrow> pgsys \<Rightarrow> bool" where
  "reaped q p r rq G E s s' \<longleftrightarrow>
     pg_ok s \<and> pprocs s p = Some r \<and> pp_stat r = SZOMB \<and> pp_pptr r = Some q \<and> pprocs s q = Some rq \<and> pgrps s (pp_pgrp r) = Some G \<and>
     sessions s (pg_session G) = Some E \<and>
     pprocs s' = (pprocs s)(q \<mapsto> rq\<lparr>pp_children := remove1 p (pp_children rq)\<rparr>, p := None) \<and>
     pgrps s' = (pgrps s)(pp_pgrp r := (if pg_members G = [p] then None else Some (G\<lparr>pg_members := remove1 p (pg_members G)\<rparr>))) \<and>
     pgrphash s' = (if pg_members G = [p] then remove1 (pp_pgrp r) (pgrphash s) else pgrphash s) \<and>
     sessions s' = (if pg_members G = [p] then (sessions s)(pg_session G := (if s_count E = 1 then None else Some (E\<lparr>s_count := s_count E - 1\<rparr>)))
                    else sessions s) \<and>
     t_pgrp s' = (if pg_members G = [p] then (\<lambda>t. if t_pgrp s t = Some (pp_pgrp r) then None else t_pgrp s t) else t_pgrp s) \<and>
     zombproc s' = remove1 p (zombproc s) \<and> nprocs s' = nprocs s - 1 \<and>
     uidcnt s' = (uidcnt s)(pp_ruid r := (if ucnt s (pp_ruid r) = 1 then None else Some (int (ucnt s (pp_ruid r)) - 1))) \<and>
     allproc s' = allproc s \<and> pidhash s' = pidhash s \<and> initproc s' = initproc s \<and> nextpid s' = nextpid s \<and> pidchecked s' = pidchecked s \<and>
     pcurproc s' = pcurproc s \<and> t_session s' = t_session s"

lemma wait_reap_reaped:
  assumes "pg_ok s" "pprocs s p = Some r" "pp_stat r = SZOMB" "pp_pptr r = Some q" "pprocs s q = Some rq" "pgrps s (pp_pgrp r) = Some G"
    "sessions s (pg_session G) = Some E"
  shows "\<exists>s'. wait_reap q p s = Some s' \<and> reaped q p r rq G E s s'"
proof -
  note ok = pg_okD [OF assms(1)]
  define s1 where s1: "s1 = s\<lparr>uidcnt := (uidcnt s)(pp_ruid r := (if ucnt s (pp_ruid r) = 1 then None else Some (int (ucnt s (pp_ruid r)) - 1)))\<rparr>"
  have c: "chgproccnt (pp_ruid r) (- 1) s = Some (int (ucnt s (pp_ruid r)) - 1, s1)"
    unfolding s1 by (rule chg_dec [OF ok(8) ucnt_pos [OF ids_finite [OF ok(6)] assms(2)]])
  have l1: "links_ok s1" "sess_ok s1" "pprocs s1 p = Some r" "pgrps s1 (pp_pgrp r) = Some G" "sessions s1 (pg_session G) = Some E"
    using ok(1,4) assms by (simp_all add: s1 links_ok_def sess_ok_def sess_def)
  obtain s2 where s2: "leavepgrp p s1 = Some s2"
    "pgrps s2 = (pgrps s1)(pp_pgrp r := (if pg_members G = [p] then None else Some (G\<lparr>pg_members := remove1 p (pg_members G)\<rparr>)))"
    "pgrphash s2 = (if pg_members G = [p] then remove1 (pp_pgrp r) (pgrphash s1) else pgrphash s1)"
    "sessions s2 = (if pg_members G = [p] then (sessions s1)(pg_session G := (if s_count E = 1 then None else Some (E\<lparr>s_count := s_count E - 1\<rparr>)))
                   else sessions s1)"
    "t_pgrp s2 = (if pg_members G = [p] then (\<lambda>t. if t_pgrp s1 t = Some (pp_pgrp r) then None else t_pgrp s1 t) else t_pgrp s1)"
    "s2 = s1\<lparr>pgrps := pgrps s2, pgrphash := pgrphash s2, sessions := sessions s2, t_pgrp := t_pgrp s2\<rparr>"
    using leavepgrp_eq [OF l1] by blast
  have f2: "pprocs s2 = pprocs s" "zombproc s2 = zombproc s" "nprocs s2 = nprocs s" "uidcnt s2 = uidcnt s1" "allproc s2 = allproc s" "pidhash s2 = pidhash s"
    "initproc s2 = initproc s" "nextpid s2 = nextpid s" "pidchecked s2 = pidchecked s" "pcurproc s2 = pcurproc s" "t_session s2 = t_session s"
    by (subst s2(6), simp add: s1)+
  let ?s3 = "upd_proc q (\<lambda>r. r\<lparr>pp_children := remove1 p (pp_children r)\<rparr>) s2"
  let ?s' = "?s3\<lparr>zombproc := remove1 p (zombproc ?s3), pprocs := (pprocs ?s3)(p := None), nprocs := nprocs ?s3 - 1\<rparr>"
  have "wait_reap q p s = Some ?s'" using assms(2) c s2(1) by (simp add: wait_reap_def Let_def)
  moreover have "reaped q p r rq G E s ?s'"
    unfolding reaped_def using assms by (intro conjI) (simp_all add: upd_proc_def f2 s2(2-5), simp_all add: s1 cong: if_cong)
  ultimately show ?thesis by blast
qed

lemma reapedD:
  assumes "reaped q p r rq G E s s'"
  shows "pg_ok s" "pprocs s p = Some r" "pp_stat r = SZOMB" "pp_pptr r = Some q" "pprocs s q = Some rq" "pgrps s (pp_pgrp r) = Some G"
    "sessions s (pg_session G) = Some E" "pprocs s' = (pprocs s)(q \<mapsto> rq\<lparr>pp_children := remove1 p (pp_children rq)\<rparr>, p := None)"
    "pgrps s' = (pgrps s)(pp_pgrp r := (if pg_members G = [p] then None else Some (G\<lparr>pg_members := remove1 p (pg_members G)\<rparr>)))"
    "sess s' h = (if h = pp_pgrp r \<and> pg_members G = [p] then None else sess s h)" "initproc s' = initproc s" "pcurproc s' = pcurproc s" "q \<noteq> p"
    "pp_children r = []"
proof -
  have a: "pg_ok s" "pprocs s p = Some r" "pp_stat r = SZOMB" "pp_pptr r = Some q" using assms unfolding reaped_def by blast+
  show "q \<noteq> p" "pp_children r = []" using tree_okD(5,7) [OF pg_okD(3) [OF a(1)] a(2)] a(3,4) by auto
qed (use assms in \<open>simp_all add: reaped_def sess_def\<close>)

text \<open>The other processes, and their groups, stay.\<close>

lemma reaped_view:
  assumes "reaped q p r rq G E s s'" "x \<noteq> p"
  shows "pprocs s x = Some t \<Longrightarrow> \<exists>t'. pprocs s' x = Some t' \<and> pp_pid t' = pp_pid t \<and> pp_pgrp t' = pp_pgrp t \<and> pp_ruid t' = pp_ruid t \<and>
      pp_oppid t' = pp_oppid t \<and> pp_stat t' = pp_stat t \<and> pp_pptr t' = pp_pptr t \<and> pp_children t' = (if x = q then remove1 p (pp_children t) else pp_children t)"
    "pprocs s' x = None \<longleftrightarrow> pprocs s x = None"
  using assms(2) reapedD(5,8) [OF assms(1)] by auto

lemma reaped_back:
  assumes "reaped q p r rq G E s s'" "pprocs s' x = Some t'"
  shows "x \<noteq> p \<and> (\<exists>t. pprocs s x = Some t \<and> pp_pid t' = pp_pid t \<and> pp_pgrp t' = pp_pgrp t \<and> pp_ruid t' = pp_ruid t \<and>
      pp_oppid t' = pp_oppid t \<and> pp_stat t' = pp_stat t \<and> pp_pptr t' = pp_pptr t \<and> pp_children t' = (if x = q then remove1 p (pp_children t) else pp_children t))"
proof -
  have x: "x \<noteq> p" using assms(2) reapedD(8) [OF assms(1)] by auto
  then obtain t where "pprocs s x = Some t" using reaped_view(2) [OF assms(1) x] assms(2) by (cases "pprocs s x") auto
  then show ?thesis using reaped_view(1) [OF assms(1) x] assms(2) x by fastforce
qed

lemma reaped_kept:
  assumes "reaped q p r rq G E s s'" "pprocs s x = Some t" "x \<noteq> p"
  shows "\<not> (pp_pgrp t = pp_pgrp r \<and> pg_members G = [p])"
proof
  note d = reapedD [OF assms(1)]
  assume a: "pp_pgrp t = pp_pgrp r \<and> pg_members G = [p]"
  then have "x \<in> set (pg_members G)" using links_okD(3) [OF pg_okD(1) [OF d(1)] d(6), of x] assms(2) by auto
  then show False using a assms(3) by auto
qed

lemma reaped_grp:
  assumes "reaped q p r rq G E s s'" "pgrps s' h = Some H'"
  shows "\<exists>H. pgrps s h = Some H \<and> pg_session H' = pg_session H \<and> pg_id H' = pg_id H \<and> pg_jobc H' = pg_jobc H \<and>
    pg_members H' = (if h = pp_pgrp r then remove1 p (pg_members H) else pg_members H) \<and> \<not> (h = pp_pgrp r \<and> pg_members G = [p])"
proof (cases "h = pp_pgrp r")
  case True
  then have "H' = G\<lparr>pg_members := remove1 p (pg_members G)\<rparr>" "pg_members G \<noteq> [p]" using assms(2) reapedD(9) [OF assms(1)] by (auto split: if_splits)
  then show ?thesis using True reapedD(6) [OF assms(1)] by simp
qed (use assms(2) reapedD(9) [OF assms(1)] in simp)

lemma reaped_grp_ex:
  assumes "reaped q p r rq G E s s'" "pgrps s h = Some H" "\<not> (h = pp_pgrp r \<and> pg_members G = [p])"
  shows "\<exists>H'. pgrps s' h = Some H' \<and> pg_session H' = pg_session H \<and> pg_id H' = pg_id H \<and>
    pg_members H' = (if h = pp_pgrp r then remove1 p (pg_members H) else pg_members H)"
  using assms(2,3) reapedD(6,9) [OF assms(1)] by (cases "h = pp_pgrp r") auto

lemma reaped_links:
  assumes "reaped q p r rq G E s s'"
  shows "links_ok s'" "groups_used s'"
proof -
  note d = reapedD [OF assms] and L = links_okD [OF pg_okD(1) [OF reapedD(1) [OF assms]]]
  show "links_ok s'" unfolding links_ok_def
  proof (intro conjI allI impI)
    fix x t' assume "pprocs s' x = Some t'"
    from reaped_back [OF assms this] obtain t where t: "x \<noteq> p" "pprocs s x = Some t" "pp_pgrp t' = pp_pgrp t" by blast
    obtain H where H: "pgrps s (pp_pgrp t) = Some H" "x \<in> set (pg_members H)" using L(1) [OF t(2)] by blast
    then show "\<exists>H. pgrps s' (pp_pgrp t') = Some H \<and> x \<in> set (pg_members H)"
      using reaped_grp_ex [OF assms H(1) reaped_kept [OF assms t(2,1)]] t by auto
  next
    fix h H' assume "pgrps s' h = Some H'"
    from reaped_grp [OF assms this] obtain H where H: "pgrps s h = Some H"
      "pg_members H' = (if h = pp_pgrp r then remove1 p (pg_members H) else pg_members H)" by blast
    show "distinct (pg_members H')" using L(2) [OF H(1)] H(2) by simp
    show "\<forall>x\<in>set (pg_members H'). \<exists>t. pprocs s' x = Some t \<and> pp_pgrp t = h"
    proof
      fix x assume x: "x \<in> set (pg_members H')"
      have "x \<noteq> p" using x H L(2,3) [OF H(1)] d(2) by (auto split: if_splits)
      moreover have "x \<in> set (pg_members H)" using x H(2) by (auto split: if_splits dest: subsetD [OF set_remove1_subset])
      ultimately show "\<exists>t. pprocs s' x = Some t \<and> pp_pgrp t = h" using L(3) [OF H(1), of x] reaped_view(1) [OF assms] by metis
    qed
  qed
  have rm: "remove1 p xs = [] \<Longrightarrow> xs = [] \<or> xs = [p]" for xs :: "nat list" by (cases xs) (auto split: if_splits)
  show "groups_used s'" unfolding groups_used_def
  proof (intro allI impI)
    fix h H' assume "pgrps s' h = Some H'"
    from reaped_grp [OF assms this] obtain H where H: "pgrps s h = Some H"
      "pg_members H' = (if h = pp_pgrp r then remove1 p (pg_members H) else pg_members H)" "\<not> (h = pp_pgrp r \<and> pg_members G = [p])" by blast
    have "pg_members H \<noteq> []" using pg_okD(2) [OF d(1)] H(1) unfolding groups_used_def by blast
    then show "pg_members H' \<noteq> []" using H d(6) rm [of "pg_members H"] by (cases "h = pp_pgrp r") auto
  qed
qed

lemma reaped_tree:
  assumes "reaped q p r rq G E s s'"
  shows "tree_ok s'"
  unfolding tree_ok_def
proof (intro allI impI)
  note d = reapedD [OF assms] and T = pg_okD(3) [OF reapedD(1) [OF assms]]
  have nc: "pp_pptr t \<noteq> Some p" if "pprocs s x = Some t" for x t using tree_okD(6) [OF T d(2), of x] d(14) that by auto
  have rt: "rooted s x \<Longrightarrow> x \<noteq> p \<Longrightarrow> rooted s' x" for x
  proof (induction rule: rooted.induct)
    case (root x t)
    then show ?case using reaped_view(1) [OF assms root(3,1)] by (auto intro: rooted.root)
  next
    case (up x t y)
    have "y \<noteq> p" using nc [OF up(1)] up(2) by auto
    then show ?case using reaped_view(1) [OF assms up(5,1)] up by (auto intro: rooted.up)
  qed
  fix x t' assume x: "pprocs s' x = Some t'"
  from reaped_back [OF assms x] obtain t where t: "x \<noteq> p" "pprocs s x = Some t" "pp_pid t' = pp_pid t" "pp_oppid t' = pp_oppid t" "pp_stat t' = pp_stat t"
    "pp_pptr t' = pp_pptr t" "pp_children t' = (if x = q then remove1 p (pp_children t) else pp_children t)" by blast
  note tx = tree_okD(1-6) [OF T t(2)]
  have par: "(\<exists>w'. pprocs s' z = Some w' \<and> pp_pptr w' = Some x) \<longleftrightarrow> z \<noteq> p \<and> (\<exists>w. pprocs s z = Some w \<and> pp_pptr w = Some x)" for z
  proof (cases "z = p")
    case False
    then show ?thesis using reaped_view [OF assms False] by (cases "pprocs s z") auto
  qed (simp add: d(8))
  have "z \<in> set (pp_children t') \<longleftrightarrow> z \<noteq> p \<and> z \<in> set (pp_children t)" for z
    using t(7) tx(4) tx(6) [of p] d(2,4) t(2) by (cases "x = q") auto
  moreover have "distinct (pp_children t')" using t(7) tx(4) by simp
  ultimately show "rooted s' x \<and> (pp_pptr t' = None \<longleftrightarrow> pp_pid t' = 0) \<and> pp_oppid t' = 0 \<and> distinct (pp_children t') \<and>
     (pp_stat t' = SZOMB \<longrightarrow> pp_children t' = []) \<and> (\<forall>c. c \<in> set (pp_children t') \<longleftrightarrow> (\<exists>rc. pprocs s' c = Some rc \<and> pp_pptr rc = Some x))"
    unfolding par using rt [OF tx(1) t(1)] t tx by simp
qed

lemma reaped_leads:
  assumes "reaped q p r rq G E s s'" "leads s e x"
  shows "leads s' e x"
proof -
  note d = reapedD [OF assms(1)]
  from assms(2) obtain t H where t: "pprocs s x = Some t" "pp_stat t \<noteq> SZOMB" "pgrps s (pp_pgrp t) = Some H" "pg_session H = e" "pg_id H = pp_pid t"
    unfolding leads_def by blast
  have x: "x \<noteq> p" using t(1,2) d(2,3) by auto
  from reaped_view(1) [OF assms(1) x t(1)] reaped_grp_ex [OF assms(1) t(3) reaped_kept [OF assms(1) t(1) x]] show ?thesis
    using t unfolding leads_def by fastforce
qed

lemma reaped_sessions:
  assumes "reaped q p r rq G E s s'" "sessions s' e = Some E'"
  shows "\<exists>F. sessions s e = Some F \<and> s_leader E' = s_leader F"
proof -
  have "sessions s' = (if pg_members G = [p] then (sessions s)(pg_session G := (if s_count E = 1 then None else Some (E\<lparr>s_count := s_count E - 1\<rparr>)))
      else sessions s)" using assms(1) unfolding reaped_def by blast
  then show ?thesis using assms(2) reapedD(7) [OF assms(1)] by (auto split: if_splits)
qed

lemma reaped_session:
  assumes "reaped q p r rq G E s s'" "x \<noteq> p"
  shows "session_of s' x = session_of s x"
proof (cases "pprocs s x")
  case None
  then show ?thesis using reaped_view(2) [OF assms] by (simp add: session_of_sess)
next
  case (Some t)
  then show ?thesis using reaped_view(1) [OF assms Some] reaped_kept [OF assms(1) Some assms(2)] reapedD(10) [OF assms(1), of "pp_pgrp t"]
    by (auto simp: session_of_sess)
qed

lemma reaped_sess:
  assumes "reaped q p r rq G E s s'"
  shows "sess_ok s'" "leaders_ok s'" "init_ok s'" "ttys_ok s'"
proof -
  note d = reapedD [OF assms] and ok = pg_okD [OF reapedD(1) [OF assms]]
  show so: "sess_ok s'"
    by (rule sess_delete [OF ok(4,6) d(6,7) d(10)]) (use assms in \<open>unfold reaped_def, blast\<close>)+
  show "leaders_ok s'" using ok(5) reaped_leads [OF assms] reaped_sessions [OF assms] unfolding leaders_ok_def by metis
  show "ttys_ok s'"
  proof (rule ttys_delete [OF ok(10) so])
    show "t_session s' = t_session s" using assms unfolding reaped_def by blast
    have "sessions s' = (if pg_members G = [p] then (sessions s)(pg_session G := (if s_count E = 1 then None else Some (E\<lparr>s_count := s_count E - 1\<rparr>)))
      else sessions s)" using assms unfolding reaped_def by blast
    from session_count_down [OF this d(7)]
    show "\<exists>F n. sessions s e = Some F \<and> E' = F\<lparr>s_count := n\<rparr>" if "sessions s' e = Some E'" for e E' using that .
    show "leads s' e x" if "sessions s e = Some E'" "s_leader E' = Some x" for e E' x
      using ok(5) that reaped_leads [OF assms] unfolding leaders_ok_def by blast
  qed
  obtain j y u e F where j: "pprocs s (initproc s) = Some j" "pp_pid j = 1" "pp_stat j \<noteq> SZOMB" "pp_pptr j = Some y"
    "pprocs s y = Some u" "pp_pptr u = None" "session_of s (initproc s) = Some e" "sessions s e = Some F" "s_leader F = Some (initproc s)"
    by (rule init_okE [OF ok(7)])
  have i: "initproc s \<noteq> p" "y \<noteq> p" using j d(2-4) by auto
  have e: "session_of s' (initproc s) = Some e" using reaped_session [OF assms i(1)] j(7) by simp
  then have "sessions s' e \<noteq> None" using so unfolding sess_ok_def by (auto simp: session_of_def bind_eq_Some_conv)
  then obtain F' where F': "sessions s' e = Some F'" by blast
  have "s_leader F' = Some (initproc s)" using reaped_sessions [OF assms F'] j(8,9) by auto
  then show "init_ok s'" using reaped_view(1) [OF assms i(1) j(1)] reaped_view(1) [OF assms i(2) j(5)] j e F' unfolding init_ok_def d(11) by auto
qed

lemma reaped_uids:
  assumes "reaped q p r rq G E s s'"
  shows "uids_ok s'"
proof -
  note d = reapedD [OF assms] and ok = pg_okD [OF reapedD(1) [OF assms]]
  have fin: "finite (dom (pprocs s'))" by (rule finite_subset [OF _ ids_finite [OF ok(6)]]) (use d(5) in \<open>auto simp: d(8) split: if_splits\<close>)
  have "ucnt s v = ucnt s' v + (if v = pp_ruid r then 1 else 0)" for v
    by (rule ucnt_more [OF fin, of p]) (use d(2,5,13) in \<open>auto simp: d(8)\<close>)
  moreover have "uidcnt s' = (uidcnt s)(pp_ruid r := (if ucnt s (pp_ruid r) = 1 then None else Some (int (ucnt s (pp_ruid r)) - 1)))"
    using assms unfolding reaped_def by blast
  ultimately show ?thesis using ok(8) unfolding uids_ok_ucnt by auto
qed

lemma reaped_jobc:
  assumes "reaped q p r rq G E s s'"
  shows "jobc_ok s'"
  unfolding jobc_ok_def
proof (intro allI impI)
  note d = reapedD [OF assms] and ok = pg_okD [OF reapedD(1) [OF assms]]
  have i: "initproc s \<noteq> p" using ok(7) d(2,3) unfolding init_ok_def by auto
  fix h H' assume h: "pgrps s' h = Some H'" "session_of s' (initproc s') \<noteq> Some (pg_session H')"
  from reaped_grp [OF assms h(1)] obtain H where H: "pgrps s h = Some H" "pg_session H' = pg_session H" "pg_jobc H' = pg_jobc H"
    "\<not> (h = pp_pgrp r \<and> pg_members G = [p])" by blast
  have hk: "sess s' h = sess s h" using d(10) [of h] H(4) by auto
  have "qual s' h x \<longleftrightarrow> qual s h x" for x
  proof (cases "x = p \<or> pprocs s x = None")
    case True
    then show ?thesis using d(2,3) reaped_view(2) [OF assms, of x] by (auto simp: qual_def d(8))
  next
    case False
    then obtain t where t: "pprocs s x = Some t" "x \<noteq> p" by blast
    from reaped_view(1) [OF assms t(2,1)] obtain t' where t': "pprocs s' x = Some t'" "pp_pgrp t' = pp_pgrp t" "pp_stat t' = pp_stat t" "pp_pptr t' = pp_pptr t"
      by blast
    have np: "pp_pptr t \<noteq> Some p" using tree_okD(6) [OF ok(3) d(2), of x] d(14) t(1) by auto
    have "self_counts s' x h \<longleftrightarrow> self_counts s x h"
    proof (cases "pp_pptr t")
      case (Some y)
      then have y: "y \<noteq> p" using np by auto
      obtain w where w: "pprocs s y = Some w" using tree_parent [OF ok(3) t(1) Some] by blast
      obtain w' where w': "pprocs s' y = Some w'" "pp_pgrp w' = pp_pgrp w" using reaped_view(1) [OF assms y w] by blast
      have "sess s' (pp_pgrp w) = sess s (pp_pgrp w)" using reaped_kept [OF assms w y] d(10) by auto
      then show ?thesis using t(1) t'(1,4) Some w w' hk by (simp add: self_counts_def parent_pgrp_def)
    qed (use t t' in \<open>simp add: self_counts_def parent_pgrp_def\<close>)
    then show ?thesis using t(1) t' by (simp add: qual_def)
  qed
  moreover have "pg_jobc H = int (card {x. qual s h x})"
    using ok(9) H(1,2) h(2) reaped_session [OF assms i] unfolding jobc_ok_def d(11) by auto
  ultimately show "pg_jobc H' = int (card {x. qual s' h x})" using H(3) by simp
qed

lemma reaped_ids:
  assumes "reaped q p r rq G E s s'"
  shows "ids_ok s'"
proof -
  note d = reapedD [OF assms] and ok = pg_okD [OF reapedD(1) [OF assms]]
  have t: "zombproc s' = remove1 p (zombproc s)" "nprocs s' = nprocs s - 1" "allproc s' = allproc s" "pidhash s' = pidhash s" "nextpid s' = nextpid s"
    "pidchecked s' = pidchecked s" and h: "pgrphash s' = (if pg_members G = [p] then remove1 (pp_pgrp r) (pgrphash s) else pgrphash s)"
    using assms unfolding reaped_def by blast+
  have al: "alive s' x = alive s x" for x
    using reaped_view [OF assms, of x] d(2,3) by (cases "x = p"; cases "pprocs s x") (auto simp: alive_def d(8))
  have pz: "\<not> alive s p" using d(2,3) by (simp add: alive_def)
  have dm: "dom (pprocs s') = dom (pprocs s) - {p}" using d(5,13) by (auto simp: d(8) split: if_splits)
  have dg: "dom (pgrps s') = (if pg_members G = [p] then dom (pgrps s) - {pp_pgrp r} else dom (pgrps s))" using d(6) by (auto simp: d(9) split: if_splits)
  note i = ok(6) [unfolded ids_ok_def]
  have o: "distinct (pidhash s)" "set (pidhash s) = {p. alive s p}" "distinct (pgrphash s)" "set (pgrphash s) = dom (pgrps s)"
    "distinct (allproc s @ zombproc s)" "set (allproc s) = {p. alive s p}" "set (allproc s) \<union> set (zombproc s) = dom (pprocs s)"
    "nprocs s = int (length (allproc s @ zombproc s))" "0 \<le> nextpid s" "pidchecked s \<le> PID_MAX" using i by blast+
  have z: "p \<in> set (zombproc s)" "p \<notin> set (allproc s)" using o(6,7) d(2) pz by auto
  then have len: "length (zombproc s) = Suc (length (remove1 p (zombproc s)))" using length_pos_if_in_set [of p "zombproc s"] by (simp add: length_remove1)
  have c: "distinct (pgrphash s')" "set (pgrphash s') = dom (pgrps s')" "distinct (allproc s @ remove1 p (zombproc s))"
    "set (allproc s) \<union> set (remove1 p (zombproc s)) = dom (pprocs s) - {p}" "nprocs s - 1 = int (length (allproc s @ remove1 p (zombproc s)))"
    using o(3-5,8) z len unfolding h dg by (simp_all del: length_remove1 flip: o(7)) (auto dest: subsetD [OF set_remove1_subset])
  have u: "\<forall>x y t w. pprocs s' x = Some t \<longrightarrow> pprocs s' y = Some w \<longrightarrow> pp_pid t = pp_pid w \<longrightarrow> x = y" using i reaped_back [OF assms] by metis
  have g: "\<forall>g h G H. pgrps s' g = Some G \<longrightarrow> pgrps s' h = Some H \<longrightarrow> pg_id G = pg_id H \<longrightarrow> g = h" using i reaped_grp [OF assms] by metis
  have n: "\<forall>x. nextpid s < x \<longrightarrow> x < pidchecked s \<longrightarrow>
        (\<forall>p r. pprocs s' p = Some r \<longrightarrow> pp_pid r \<noteq> x) \<and> (\<forall>g G. pgrps s' g = Some G \<longrightarrow> pg_id G \<noteq> x)"
    using i reaped_grp [OF assms] reaped_back [OF assms] by metis
  show ?thesis unfolding ids_ok_def t al dm by (intro conjI c o(1,2,6,9,10) u g n)
qed

lemma wait_reap_ok:
  assumes "pg_ok s" "pprocs s p = Some r" "pp_stat r = SZOMB" "pp_pptr r = Some q"
  shows "\<exists>s'. wait_reap q p s = Some s' \<and> pg_ok s' \<and> initproc s' = initproc s \<and> pcurproc s' = pcurproc s \<and> dom (pprocs s') = dom (pprocs s) - {p} \<and>
    (\<forall>x. alive s' x = alive s x)"
proof -
  obtain rq where rq: "pprocs s q = Some rq" using tree_parent [OF pg_okD(3) [OF assms(1)] assms(2,4)] by blast
  obtain G E where G: "pgrps s (pp_pgrp r) = Some G" "sessions s (pg_session G) = Some E" using proc_facts [OF assms(1,2)] by blast
  obtain s' where s': "wait_reap q p s = Some s'" "reaped q p r rq G E s s'" using wait_reap_reaped [OF assms rq G] by blast
  note R = s'(2)
  have "pg_ok s'" unfolding pg_ok_def
    using reaped_links [OF R] reaped_tree [OF R] reaped_sess [OF R] reaped_ids [OF R] reaped_uids [OF R] reaped_jobc [OF R] by blast
  moreover have "alive s' x = alive s x" for x
    using reaped_view [OF R, of x] assms(2,3) by (cases "x = p"; cases "pprocs s x") (auto simp: alive_def reapedD(8) [OF R])
  moreover have "dom (pprocs s') = dom (pprocs s) - {p}" using rq reapedD(13) [OF R] by (auto simp: reapedD(8) [OF R] split: if_splits)
  ultimately show ?thesis using s'(1) reapedD(11,12) [OF R] by blast
qed

section \<open>Flags, states and users\<close>

text \<open>Changes of a process that the invariant does not look at.\<close>

definition pview :: "pproc \<Rightarrow> nat option \<times> int \<times> int \<times> nat list \<times> bool \<times> nat" where
  "pview r = (pp_pptr r, pp_pid r, pp_oppid r, pp_children r, pp_stat r = SZOMB, pp_pgrp r)"

lemma view_keeps_tty:
  assumes "\<And>x. map_option pview (pprocs s' x) = map_option pview (pprocs s x)" "pgrps s' = pgrps s"
    "\<And>e. map_option s_leader (sessions s' e) = map_option s_leader (sessions s e)" "sess_ok s' \<and> ttys_ok s'"
    "pidhash s' = pidhash s" "pgrphash s' = pgrphash s" "allproc s' = allproc s" "zombproc s' = zombproc s" "initproc s' = initproc s"
    "nprocs s' = nprocs s" "nextpid s' = nextpid s" "pidchecked s' = pidchecked s" "pg_ok s" "uids_ok s'"
  shows "pg_ok s'"
proof -
  note ok = pg_okD [OF assms(13)]
  have v: "\<exists>r. pprocs s x = Some r \<and> pview r' = pview r" if "pprocs s' x = Some r'" for x r'
    using assms(1) [of x] that by (cases "pprocs s x") auto
  have w: "\<exists>r'. pprocs s' x = Some r' \<and> pview r' = pview r" if "pprocs s x = Some r" for x r
    using assms(1) [of x] that by (cases "pprocs s' x") auto
  have tv: "tview s' = tview s"
  proof
    show "tview s' x = tview s x" for x
      using assms(1) [of x] by (cases "pprocs s x"; cases "pprocs s' x") (auto simp: tview_def pview_def)
  qed
  have se: "sess s' = sess s" by (simp add: sess_def assms(2) fun_eq_iff)
  have pg: "map_option pp_pgrp (pprocs s' x) = map_option pp_pgrp (pprocs s x)" for x
    using assms(1) [of x] by (cases "pprocs s x"; cases "pprocs s' x") (auto simp: pview_def)
  have so: "session_of s' x = session_of s x" for x
    using assms(1) [of x] by (cases "pprocs s x"; cases "pprocs s' x") (auto simp: pview_def session_of_sess se)
  have pp: "parent_pgrp s' x = parent_pgrp s x" for x
  proof -
    have e: "parent_pgrp t x = Option.bind (pprocs t x) (\<lambda>r. Option.bind (pp_pptr r) (\<lambda>q. map_option pp_pgrp (pprocs t q)))" for t
      unfolding parent_pgrp_def map_conv_bind_option o_def ..
    show ?thesis unfolding e pg using assms(1) [of x] by (cases "pprocs s x"; cases "pprocs s' x") (auto simp: pview_def)
  qed
  have q: "qual s' = qual s"
  proof (intro ext)
    show "qual s' h x = qual s h x" for h x
      using assms(1) [of x] unfolding qual_def self_counts_def pp se by (cases "pprocs s x"; cases "pprocs s' x") (auto simp: pview_def)
  qed
  have "links_ok s'" unfolding links_ok_def assms(2)
  proof (intro conjI allI impI)
    fix x t' assume "pprocs s' x = Some t'"
    from v [OF this] obtain t where t: "pprocs s x = Some t" "pp_pgrp t' = pp_pgrp t" by (auto simp: pview_def)
    then show "\<exists>H. pgrps s (pp_pgrp t') = Some H \<and> x \<in> set (pg_members H)" using links_okD(1) [OF ok(1) t(1)] by simp
  next
    fix g H assume H: "pgrps s g = Some H"
    show "distinct (pg_members H)" using links_okD(2) [OF ok(1) H] .
    show "\<forall>x\<in>set (pg_members H). \<exists>t. pprocs s' x = Some t \<and> pp_pgrp t = g"
      using links_okD(3) [OF ok(1) H] w unfolding pview_def by fastforce
  qed
  moreover have "groups_used s'" using ok(2) unfolding groups_used_def assms(2) .
  moreover have "tree_ok s'" by (rule tree_cong [OF tv ok(3)])
  moreover have "sess_ok s'" "ttys_ok s'" using assms(4) by blast+
  moreover have "leaders_ok s'"
  proof -
    have "leads s' e x" if "leads s e x" for e x
      using that w [of x] unfolding leads_def assms(2) pview_def by fastforce
    moreover have "\<exists>F. sessions s e = Some F \<and> s_leader F = s_leader E" if "sessions s' e = Some E" for e E
      using assms(3) [of e] that by (cases "sessions s e") auto
    ultimately show ?thesis using ok(5) unfolding leaders_ok_def by metis
  qed
  moreover have "ids_ok s'"
  proof (rule ids_change [OF ok(6) assms(5,7,8,10-12) tview_alive [OF tv] tview_dom [OF tv]])
    show "\<exists>t. pprocs s x = Some t \<and> pp_pid t = pp_pid t'" if "pprocs s' x = Some t'" for x t' using v [OF that] by (auto simp: pview_def)
  qed (use ok(6) in \<open>auto simp: assms(2,6) ids_ok_def\<close>)
  moreover have "init_ok s'"
  proof -
    obtain j y u e F where j: "pprocs s (initproc s) = Some j" "pp_pid j = 1" "pp_stat j \<noteq> SZOMB" "pp_pptr j = Some y"
      "pprocs s y = Some u" "pp_pptr u = None" "session_of s (initproc s) = Some e" "sessions s e = Some F" "s_leader F = Some (initproc s)"
      by (rule init_okE [OF ok(7)])
    obtain j' u' where "pprocs s' (initproc s) = Some j'" "pview j' = pview j" "pprocs s' y = Some u'" "pview u' = pview u" using w j(1,5) by blast
    moreover obtain F' where "sessions s' e = Some F'" "s_leader F' = Some (initproc s)" using assms(3) [of e] j(8,9) by auto
    ultimately show ?thesis using j by (intro init_okI [of s' j' y u' e F']) (auto simp: assms(9) so pview_def)
  qed
  moreover have "jobc_ok s'" by (rule jobc_cong [OF ok(9) q]) (auto simp: so assms(2,9))
  ultimately show ?thesis unfolding pg_ok_def using assms(14) by blast
qed

lemma view_keeps:
  assumes "\<And>x. map_option pview (pprocs s' x) = map_option pview (pprocs s x)" "pgrps s' = pgrps s" "sessions s' = sessions s" "t_pgrp s' = t_pgrp s"
    "pidhash s' = pidhash s" "pgrphash s' = pgrphash s" "allproc s' = allproc s" "zombproc s' = zombproc s" "initproc s' = initproc s"
    "nprocs s' = nprocs s" "nextpid s' = nextpid s" "pidchecked s' = pidchecked s" "pg_ok s" "uids_ok s'" "t_session s' = t_session s"
  shows "pg_ok s'"
proof (rule view_keeps_tty [OF assms(1,2) _ _ assms(5-14)])
  have "sess s' = sess s" by (simp add: sess_def assms(2) fun_eq_iff)
  then show "sess_ok s' \<and> ttys_ok s'"
    using sess_cong [OF pg_okD(4) [OF assms(13)] _ assms(3,4)] pg_okD(10) [OF assms(13)] by (simp add: ttys_ok_def assms(3,15))
qed (simp add: assms(3))

lemma upd_proc_ok:
  assumes "pg_ok s" "\<And>r. pprocs s p = Some r \<Longrightarrow> pview (f r) = pview r \<and> pp_ruid (f r) = pp_ruid r"
  shows "pg_ok (upd_proc p f s)"
proof (rule view_keeps [where s = s])
  have "map_option pp_ruid (pprocs (upd_proc p f s) x) = map_option pp_ruid (pprocs s x)" for x
    using assms(2) by (cases "pprocs s p") (auto simp: upd_proc_def)
  then show "uids_ok (upd_proc p f s)" using pg_okD(8) [OF assms(1)] unfolding uids_ok_def by (simp add: upd_proc_def)
  show "map_option pview (pprocs (upd_proc p f s) x) = map_option pview (pprocs s x)" for x
    using assms(2) by (cases "pprocs s p") (auto simp: upd_proc_def)
qed (use assms(1) in \<open>simp_all add: upd_proc_def\<close>)

lemma setuid_count_ok:
  assumes "pg_ok s" "pprocs s p = Some r"
  shows "\<exists>s'. setuid_count p uid s = Some s' \<and> pg_ok s'"
proof -
  note ok = pg_okD [OF assms(1)]
  let ?u = "pp_ruid r"
  have fin: "finite (dom (pprocs s))" by (rule ids_finite [OF ok(6)])
  define s0 where s0: "s0 = s\<lparr>pprocs := (pprocs s)(p := None)\<rparr>"
  have c0: "ucnt s v = ucnt s0 v + (if v = ?u then 1 else 0)" for v
    by (rule ucnt_more [of s0 p]) (use fin assms(2) in \<open>auto simp: s0\<close>)
  let ?s1 = "s\<lparr>uidcnt := (uidcnt s)(?u := (if ucnt s ?u = 1 then None else Some (int (ucnt s ?u) - 1)))\<rparr>"
  have n1: "uidcnt ?s1 v = (if ucnt s0 v = 0 then None else Some (int (ucnt s0 v)))" for v
    using ok(8) c0 [of v] unfolding uids_ok_ucnt by auto
  have d: "chgproccnt ?u (- 1) s = Some (int (ucnt s ?u) - 1, ?s1)" by (rule chg_dec [OF ok(8) ucnt_pos [OF fin assms(2)]])
  define s2 where s2: "s2 = ?s1\<lparr>uidcnt := (uidcnt ?s1)(uid \<mapsto> int (ucnt s0 uid) + 1)\<rparr>"
  have i: "chgproccnt uid 1 ?s1 = Some (int (ucnt s0 uid) + 1, s2)"
    unfolding chgproccnt_def n1 [of uid] s2 by simp
  let ?s' = "upd_proc p (\<lambda>r. r\<lparr>pp_ruid := uid\<rparr>) s2"
  have e: "setuid_count p uid s = Some ?s'" unfolding setuid_count_def assms(2) Option.bind.bind_lunit d case_prod_conv i by simp
  have c': "ucnt ?s' v = ucnt s0 v + (if v = uid then 1 else 0)" for v
    by (rule ucnt_more [of s0 p]) (use fin assms(2) in \<open>auto simp: s0 s2 upd_proc_def\<close>)
  have f': "uidcnt ?s' v = (if v = uid then Some (int (ucnt s0 uid) + 1) else if ucnt s0 v = 0 then None else Some (int (ucnt s0 v)))" for v
    using n1 [of v] by (simp add: s2 upd_proc_def)
  have "uids_ok ?s'" unfolding uids_ok_ucnt c' f' by simp
  then have "pg_ok ?s'"
    by (intro view_keeps [of ?s' s]) (use assms in \<open>auto simp: s2 upd_proc_def pview_def\<close>)
  then show ?thesis using e by blast
qed

end
