(* ===== verification/Pgrpsys.thy ===== *)
theory Pgrpsys
  imports Pgrpinv
begin

text \<open>
  The process tree in operation: \<open>wait1\<close>, the steps that the system makes from its state after the start of \<^verbatim>\<open>init\<close>, and the
  properties of all reachable states.
\<close>

section \<open>Waiting\<close>

text \<open>A child that \<open>wait1\<close> looks for, and one that it can report.\<close>

definition wmatch :: "pgsys \<Rightarrow> int \<Rightarrow> nat \<Rightarrow> bool" where
  "wmatch s pid c = (case pprocs s c of None \<Rightarrow> False
     | Some r \<Rightarrow> pid = - 1 \<or> pp_pid r = pid \<or> map_option pg_id (pgrps s (pp_pgrp r)) = Some (- pid))"

definition wready :: "pgsys \<Rightarrow> bool \<Rightarrow> nat \<Rightarrow> bool" where
  "wready s untraced c = (case pprocs s c of None \<Rightarrow> False
     | Some r \<Rightarrow> pp_stat r = SZOMB \<or> pp_stat r = SSTOP \<and> P_WAITED \<notin> pp_flag r \<and> (P_TRACED \<in> pp_flag r \<or> untraced))"

definition wait_report :: "nat \<Rightarrow> nat \<Rightarrow> pproc \<Rightarrow> errno option \<Rightarrow> errno option \<Rightarrow> pgsys \<Rightarrow> ((bool + wres) \<times> pgsys) option" where
  "wait_report q c r cst cru s =
     (if pp_stat r = SZOMB then map_option (map_prod Inr id) (wait_zombie q c cst cru s)
      else Some (Inr (case cst of None \<Rightarrow> W_stopped (pp_pid r) (pp_xstat r * 256 + 127) | Some e \<Rightarrow> W_fail e),
                 upd_proc c (\<lambda>r. r\<lparr>pp_flag := insert P_WAITED (pp_flag r)\<rparr>) s))"

lemma wait_scan_find:
  assumes "\<And>c. c \<in> set cs \<Longrightarrow> \<exists>r. pprocs s c = Some r \<and> pgrps s (pp_pgrp r) \<noteq> None"
  shows "wait_scan q pid untraced cst cru cs found s =
    (case find (\<lambda>c. wmatch s pid c \<and> wready s untraced c) cs of
       None \<Rightarrow> Some (Inl (found \<or> (\<exists>c\<in>set cs. wmatch s pid c)), s)
     | Some c \<Rightarrow> wait_report q c (the (pprocs s c)) cst cru s)"
  using assms
proof (induction cs arbitrary: found)
  case (Cons c cs)
  obtain r G where r: "pprocs s c = Some r" "pgrps s (pp_pgrp r) = Some G" using Cons.prems [of c] by auto
  have ih: "wait_scan q pid untraced cst cru cs b s =
    (case find (\<lambda>c. wmatch s pid c \<and> wready s untraced c) cs of
       None \<Rightarrow> Some (Inl (b \<or> (\<exists>c\<in>set cs. wmatch s pid c)), s)
     | Some c \<Rightarrow> wait_report q c (the (pprocs s c)) cst cru s)" for b using Cons by auto
  have m: "wmatch s pid c \<longleftrightarrow> \<not> (pid \<noteq> - 1 \<and> pp_pid r \<noteq> pid \<and> pg_id G \<noteq> - pid)" using r by (auto simp: wmatch_def)
  show ?case
  proof (cases "wmatch s pid c \<and> wready s untraced c")
    case True
    then show ?thesis using r m by (auto simp: wready_def wait_report_def)
  next
    case False
    then have "wait_scan q pid untraced cst cru (c # cs) found s = wait_scan q pid untraced cst cru cs (found \<or> wmatch s pid c) s"
      using r m by (auto simp: wready_def)
    moreover have "find (\<lambda>c. wmatch s pid c \<and> wready s untraced c) (c # cs) = find (\<lambda>c. wmatch s pid c \<and> wready s untraced c) cs" using False by auto
    ultimately show ?thesis unfolding ih by (auto split: option.splits)
  qed
qed simp

lemma children_exist:
  assumes "pg_ok s" "pprocs s q = Some r" "c \<in> set (pp_children r)"
  shows "\<exists>t. pprocs s c = Some t \<and> pp_pptr t = Some q \<and> pgrps s (pp_pgrp t) \<noteq> None"
  using tree_okD(6) [OF pg_okD(3) [OF assms(1)] assms(2), of c] assms(3) links_okD(1) [OF pg_okD(1) [OF assms(1)], of c] by auto

lemma wait_zombie_eq:
  assumes "pg_ok s" "pprocs s c = Some t"
  shows "wait_zombie q c None None s = map_option (Pair (W_reaped (pp_pid t) (pp_xstat t))) (wait_reap q c s)"
  using tree_okD(3) [OF pg_okD(3) [OF assms(1)] assms(2)] assms(2) by (simp add: wait_zombie_def)

lemma waited_ok: "pg_ok s \<Longrightarrow> pg_ok (upd_proc c (\<lambda>r. r\<lparr>pp_flag := insert P_WAITED (pp_flag r)\<rparr>) s)"
  by (rule upd_proc_ok) (auto simp: pview_def)

text \<open>One pass of \<open>wait1\<close> in terms of the first child that can be reported.\<close>

lemma wait1_find:
  assumes "pg_ok s" "pprocs s q = Some r" "pgrps s (pp_pgrp r) = Some G"
  shows "wait1 q pid untraced nohang cst cru s =
    (let id = (if pid = 0 then - pg_id G else pid) in
     case find (\<lambda>c. wmatch s id c \<and> wready s untraced c) (pp_children r) of
       None \<Rightarrow> Some (if \<exists>c\<in>set (pp_children r). wmatch s id c then if nohang then W_nohang else W_block else W_fail ECHILD, s)
     | Some c \<Rightarrow> map_option (\<lambda>(w, s'). (case w of Inr x \<Rightarrow> x | Inl _ \<Rightarrow> W_block, s')) (wait_report q c (the (pprocs s c)) cst cru s))"
proof -
  have w: "wait_scan q i untraced cst cru (pp_children r) False s =
    (case find (\<lambda>c. wmatch s i c \<and> wready s untraced c) (pp_children r) of
       None \<Rightarrow> Some (Inl (False \<or> (\<exists>c\<in>set (pp_children r). wmatch s i c)), s)
     | Some c \<Rightarrow> wait_report q c (the (pprocs s c)) cst cru s)" for i
    by (rule wait_scan_find) (use children_exist [OF assms(1,2)] in blast)
  define id where "id = (if pid = 0 then - pg_id G else pid)"
  show ?thesis unfolding wait1_def assms(2,3) Option.bind.bind_lunit w Let_def id_def [symmetric]
  proof (cases "find (\<lambda>c. wmatch s id c \<and> wready s untraced c) (pp_children r)", goal_cases)
    case (2 c)
    then show ?case by (cases "wait_report q c (the (pprocs s c)) cst cru s") (auto simp: wait_report_def split: sum.splits if_splits)
  qed simp
qed

lemma report_ok:
  assumes "pg_ok s" "pprocs s c = Some t" "pp_pptr t = Some q"
  shows "\<exists>w s'. wait_report q c t cst cru s = Some (w, s') \<and> pg_ok s' \<and> initproc s' = initproc s \<and> pcurproc s' = pcurproc s \<and> (\<forall>x. alive s' x = alive s x)"
proof (cases "pp_stat t = SZOMB")
  case True
  obtain s' where "wait_reap q c s = Some s'" "pg_ok s'" "initproc s' = initproc s" "pcurproc s' = pcurproc s" "\<forall>x. alive s' x = alive s x"
    using wait_reap_ok [OF assms(1,2) True assms(3)] by blast
  then show ?thesis using True assms(1,2) wait_zombie_eq [OF assms(1,2)]
    by (cases cst; cases cru) (auto simp: wait_report_def wait_zombie_def)
next
  case False
  then show ?thesis using waited_ok [OF assms(1)] by (auto simp: wait_report_def upd_proc_def alive_def)
qed

lemma find_in: "find P xs = Some x \<Longrightarrow> x \<in> set xs \<and> P x"
  by (auto simp: find_Some_iff)

lemma wait1_ok:
  assumes "pg_ok s" "pprocs s q = Some r"
  shows "\<exists>w s'. wait1 q pid untraced nohang cst cru s = Some (w, s') \<and> pg_ok s' \<and> initproc s' = initproc s \<and> pcurproc s' = pcurproc s \<and>
    (\<forall>x. alive s' x = alive s x)"
proof -
  obtain G where G: "pgrps s (pp_pgrp r) = Some G" using proc_facts [OF assms] by blast
  let ?id = "if pid = 0 then - pg_id G else pid"
  show ?thesis
  proof (cases "find (\<lambda>c. wmatch s ?id c \<and> wready s untraced c) (pp_children r)")
    case None
    then show ?thesis unfolding wait1_find [OF assms G] Let_def using assms(1) by simp
  next
    case (Some c)
    then obtain t where t: "pprocs s c = Some t" "pp_pptr t = Some q" using children_exist [OF assms] find_in [OF Some] by blast
    from report_ok [OF assms(1) t] obtain w s' where "wait_report q c t cst cru s = Some (w, s')" "pg_ok s'" "initproc s' = initproc s"
      "pcurproc s' = pcurproc s" "\<forall>x. alive s' x = alive s x" by blast
    then show ?thesis unfolding wait1_find [OF assms G] Let_def using Some t(1) by simp
  qed
qed

section \<open>Steps of the system\<close>

text \<open>
  System calls are made by the current process, which is not process 0. \<open>p2\<close>, \<open>ng\<close> and \<open>ne\<close> are addresses that the allocator
  returns, so no structure is there. When a process ends another one becomes current. The other steps are switches,
  changes between the states other than zombie, and changes of flags (\<^verbatim>\<open>execve\<close>, opening the controlling terminal, tracing without
  attaching). A terminal can be made the controlling one by any session leader that has it open, its foreground group can be set, and
  it can be closed at any time.
\<close>

definition calls :: "pgsys \<Rightarrow> nat \<Rightarrow> bool" where
  "calls s p \<longleftrightarrow> p = pcurproc s \<and> (\<exists>r. pprocs s p = Some r \<and> pp_stat r \<noteq> SZOMB \<and> pp_pid r \<noteq> 0)"

inductive pg_step :: "int \<Rightarrow> pgsys \<Rightarrow> pgsys \<Rightarrow> bool" for maxproc where
  Fork: "calls s p \<Longrightarrow> pprocs s p2 = None \<Longrightarrow> fork1 maxproc limit p p2 isvfork s = Some (res, s') \<Longrightarrow> pg_step maxproc s s'"
| Setsid: "calls s p \<Longrightarrow> pgrps s ng = None \<Longrightarrow> sessions s ne = None \<Longrightarrow> setsid p ng ne s = Some (res, s') \<Longrightarrow> pg_step maxproc s s'"
| Setpgid: "calls s p \<Longrightarrow> pgrps s ng = None \<Longrightarrow> setpgid p pid pgid ng ne s = Some (err, s') \<Longrightarrow> pg_step maxproc s s'"
| Wait: "calls s p \<Longrightarrow> wait1 p pid untraced nohang cst cru s = Some (w, s') \<Longrightarrow> pg_step maxproc s s'"
| Setuid: "calls s p \<Longrightarrow> setuid_count p uid s = Some s' \<Longrightarrow> pg_step maxproc s s'"
| Exit: "calls s p \<Longrightarrow> exit1 p rv s = Some s' \<Longrightarrow> alive s' q \<Longrightarrow> pg_step maxproc s (s'\<lparr>pcurproc := q\<rparr>)"
| Ctty: "calls s p \<Longrightarrow> tiocsctty p t s = Some (err, s') \<Longrightarrow> pg_step maxproc s s'"
| Tpgrp: "calls s p \<Longrightarrow> tiocspgrp p t pgid s = Some (err, s') \<Longrightarrow> pg_step maxproc s s'"
| Tclose: "pg_step maxproc s (ttyclose t s)"
| Switch: "alive s q \<Longrightarrow> pg_step maxproc s (s\<lparr>pcurproc := q\<rparr>)"
| State: "alive s p \<Longrightarrow> st \<noteq> SZOMB \<Longrightarrow> pg_step maxproc s (upd_proc p (\<lambda>r. r\<lparr>pp_stat := st\<rparr>) s)"
| Flags: "pg_step maxproc s (upd_proc p (\<lambda>r. r\<lparr>pp_flag := fl\<rparr>) s)"

lemma cur_irrelevant: "pg_ok s \<Longrightarrow> pg_ok (s\<lparr>pcurproc := q\<rparr>)"
  by (rule view_keeps [where s = s]) (simp_all add: pg_ok_def uids_ok_def)

text \<open>The state after the start: process 0, and \<^verbatim>\<open>init\<close>, which has made its own session.\<close>

definition boot :: pgsys where
  [kern_defs]: "boot = \<lparr>
     pprocs = [0 \<mapsto> \<lparr>pp_pid = 0, pp_pptr = None, pp_pgrp = 0, pp_stat = SRUN, pp_children = [1], pp_flag = {P_INMEM, P_SYSTEM}, pp_ruid = 0,
                     pp_oppid = 0, pp_xstat = 0\<rparr>,
               1 \<mapsto> \<lparr>pp_pid = 1, pp_pptr = Some 0, pp_pgrp = 1, pp_stat = SRUN, pp_children = [], pp_flag = {P_INMEM}, pp_ruid = 0,
                     pp_oppid = 0, pp_xstat = 0\<rparr>],
     pgrps = [0 \<mapsto> \<lparr>pg_id = 0, pg_session = 0, pg_jobc = 0, pg_members = [0]\<rparr>,
              1 \<mapsto> \<lparr>pg_id = 1, pg_session = 1, pg_jobc = 0, pg_members = [1]\<rparr>],
     sessions = [0 \<mapsto> \<lparr>s_count = 1, s_leader = Some 0, s_ttyvp = False, s_ttyp = None, s_login = ''root''\<rparr>,
                 1 \<mapsto> \<lparr>s_count = 1, s_leader = Some 1, s_ttyvp = False, s_ttyp = None, s_login = ''root''\<rparr>],
     t_pgrp = (\<lambda>_. None), t_session = (\<lambda>_. None), pidhash = [1, 0], pgrphash = [1, 0], allproc = [1, 0], zombproc = [], uidcnt = [0 \<mapsto> 2],
     pcurproc = 1, initproc = 1, nprocs = 2, nextpid = 1, pidchecked = 0, pevs = []\<rparr>"

inductive pg_reach :: "int \<Rightarrow> pgsys \<Rightarrow> bool" for maxproc where
  Boot: "pg_reach maxproc boot"
| Step: "pg_reach maxproc s \<Longrightarrow> pg_step maxproc s s' \<Longrightarrow> pg_reach maxproc s'"

lemma boot_two: "pprocs boot x = Some r \<Longrightarrow> x = 0 \<or> x = 1" "pgrps boot g = Some G \<Longrightarrow> g = 0 \<or> g = 1"
  by (auto simp: boot_def split: if_splits)

lemma boot_sess: "{g. sess boot g = Some e} = (if e = 0 then {0} else if e = 1 then {1} else {})"
  by (auto simp: sess_def boot_def split: if_splits)

lemma boot_ok: "pg_ok boot"
proof -
  have r0: "rooted boot 0" by (rule rooted.root [where r = "the (pprocs boot 0)"]) (simp_all add: boot_def)
  have r1: "rooted boot 1" by (rule rooted.up [where r = "the (pprocs boot 1)", OF _ _ r0]) (simp_all add: boot_def)
  have "links_ok boot" by (auto simp: links_ok_def boot_def split: if_splits)
  moreover have "groups_used boot" by (auto simp: groups_used_def boot_def split: if_splits)
  moreover have "tree_ok boot" unfolding tree_ok_def
    using r0 r1 by (auto simp: boot_def split: if_splits)
  moreover have "sess_ok boot" unfolding sess_ok_def boot_sess by (auto simp: boot_def split: if_splits)
  moreover have "leaders_ok boot" by (auto simp: leaders_ok_def leads_def boot_def split: if_splits)
  moreover have "ids_ok boot" by (auto simp: ids_ok_def alive_def boot_def split: if_splits)
  moreover have "init_ok boot" by (simp add: init_ok_def session_of_def boot_def)
  moreover have "uids_ok boot"
  proof -
    have "{p. map_option pp_ruid (pprocs boot p) = Some u} = (if u = 0 then {0, 1} else {})" for u by (auto simp: boot_def split: if_splits)
    then show ?thesis by (simp add: uids_ok_def Let_def del: map_option_eq_Some) (simp add: boot_def)
  qed
  moreover have "jobc_ok boot"
  proof -
    have q: "{x. qual boot 0 x} = {}" by (auto simp: qual_def self_counts_def parent_pgrp_def boot_def split: if_splits)
    show ?thesis unfolding jobc_ok_def
    proof (intro allI impI)
      fix g G assume g: "pgrps boot g = Some G" "session_of boot (initproc boot) \<noteq> Some (pg_session G)"
      then have "g = 0" using boot_two(2) [OF g(1)] by (auto simp: session_of_def boot_def)
      then show "pg_jobc G = int (card {x. qual boot g x})" using g(1) q by (simp only: card.empty) (auto simp: boot_def)
    qed
  qed
  moreover have "ttys_ok boot" by (auto simp: ttys_ok_def boot_def split: if_splits)
  ultimately show ?thesis unfolding pg_ok_def by blast
qed

text \<open>The calls on terminals.\<close>

lemma sess_okI:
  assumes "\<And>g G. pgrps s g = Some G \<Longrightarrow> sessions s (pg_session G) \<noteq> None"
    "\<And>e E. sessions s e = Some E \<Longrightarrow> s_count E = int (card {g. sess s g = Some e}) \<and> (s_ttyvp E \<longrightarrow> s_ttyp E \<noteq> None)"
    "\<And>t g. t_pgrp s t = Some g \<Longrightarrow> \<exists>G E. pgrps s g = Some G \<and> sessions s (pg_session G) = Some E \<and> s_ttyp E = Some t"
  shows "sess_ok s"
  using assms unfolding sess_ok_def by blast

lemma sess_okD:
  assumes "sess_ok s"
  shows "pgrps s g = Some G \<Longrightarrow> sessions s (pg_session G) \<noteq> None"
    "sessions s e = Some E \<Longrightarrow> s_count E = int (card {g. sess s g = Some e}) \<and> (s_ttyvp E \<longrightarrow> s_ttyp E \<noteq> None)"
    "t_pgrp s t = Some g \<Longrightarrow> \<exists>G E. pgrps s g = Some G \<and> sessions s (pg_session G) = Some E \<and> s_ttyp E = Some t"
  using assms unfolding sess_ok_def by blast+

lemma ctty_sess:
  assumes "sess_ok s" "pgrps s g = Some G" "sessions s (pg_session G) = Some E" "pgrps s' = pgrps s"
    "sessions s' = (sessions s)(pg_session G \<mapsto> E\<lparr>s_ttyp := Some t, s_ttyvp := True\<rparr>)" "t_pgrp s' = (t_pgrp s)(t := Some g)"
    "\<And>t' h. t_pgrp s t' = Some h \<Longrightarrow> sess s h = Some (pg_session G) \<Longrightarrow> t' = t"
  shows "sess_ok s'"
proof (rule sess_okI)
  have se: "sess s' = sess s" by (simp add: sess_def assms(4) fun_eq_iff)
  show "sessions s' (pg_session H) \<noteq> None" if "pgrps s' h = Some H" for h H using sess_okD(1) [OF assms(1)] that by (simp add: assms(4,5))
  show "s_count F = int (card {g. sess s' g = Some e}) \<and> (s_ttyvp F \<longrightarrow> s_ttyp F \<noteq> None)" if "sessions s' e = Some F" for e F
    using that sess_okD(2) [OF assms(1), of e] assms(3) unfolding se by (auto simp: assms(5) split: if_splits)
  show "\<exists>H F. pgrps s' h = Some H \<and> sessions s' (pg_session H) = Some F \<and> s_ttyp F = Some t'" if a: "t_pgrp s' t' = Some h" for t' h
  proof (cases "t' = t")
    case True
    then show ?thesis using a assms(2) by (simp add: assms(4-6))
  next
    case False
    then have h: "t_pgrp s t' = Some h" using a by (simp add: assms(6))
    obtain H F where H: "pgrps s h = Some H" "sessions s (pg_session H) = Some F" "s_ttyp F = Some t'" using sess_okD(3) [OF assms(1) h] by blast
    have "pg_session H \<noteq> pg_session G" using assms(7) [OF h] False H(1) by (auto simp: sess_def)
    then show ?thesis using H by (simp add: assms(4,5))
  qed
qed

lemma ctty_ttys:
  assumes "ttys_ok s" "sessions s e = Some E" "s_leader E = Some p" "s_ttyp E = None \<or> s_ttyp E = Some t"
    "sessions s' = (sessions s)(e \<mapsto> E\<lparr>s_ttyp := Some t, s_ttyvp := True\<rparr>)" "t_session s' = (t_session s)(t := Some e)"
  shows "ttys_ok s'"
proof -
  have "\<exists>F. sessions s' d = Some F \<and> s_ttyp F = Some t' \<and> s_leader F \<noteq> None" if a: "t_session s' t' = Some d" for t' d
  proof (cases "t' = t")
    case True
    then show ?thesis using a assms(3) by (simp add: assms(5,6))
  next
    case False
    then have "t_session s t' = Some d" using a by (simp add: assms(6))
    from ttys_okD(1) [OF assms(1) this] obtain F where F: "sessions s d = Some F" "s_ttyp F = Some t'" "s_leader F \<noteq> None" by blast
    then have "d \<noteq> e" using assms(2,4) False by auto
    then show ?thesis using F by (simp add: assms(5))
  qed
  moreover have "s_ttyp F = None" if "sessions s' d = Some F" "s_leader F \<noteq> None" "\<not> s_ttyvp F" for d F
    using that ttys_okD(2) [OF assms(1), of d F] by (auto simp: assms(5) split: if_splits)
  ultimately show ?thesis unfolding ttys_ok_def by blast
qed

lemma tty_keeps:
  assumes "pg_ok s" "\<And>t' g. tp t' = Some g \<Longrightarrow> t_pgrp s t' = Some g \<or> (\<exists>G E. pgrps s g = Some G \<and> sessions s (pg_session G) = Some E \<and> s_ttyp E = Some t')"
    "\<And>t' e. ts t' = Some e \<Longrightarrow> t_session s t' = Some e"
  shows "pg_ok (s\<lparr>t_pgrp := tp, t_session := ts\<rparr>)"
proof (rule view_keeps_tty [where s = s, OF _ _ _ _ _ _ _ _ _ _ _ _ assms(1)])
  note ok = pg_okD [OF assms(1)]
  have "sess_ok (s\<lparr>t_pgrp := tp, t_session := ts\<rparr>)"
    by (rule sess_okI) (use sess_okD [OF ok(4)] assms(2) in \<open>simp_all add: sess_def, blast+\<close>)
  moreover have "ttys_ok (s\<lparr>t_pgrp := tp, t_session := ts\<rparr>)" using ttys_okD [OF ok(10)] assms(3) unfolding ttys_ok_def by simp
  ultimately show "sess_ok (s\<lparr>t_pgrp := tp, t_session := ts\<rparr>) \<and> ttys_ok (s\<lparr>t_pgrp := tp, t_session := ts\<rparr>)" ..
  show "uids_ok (s\<lparr>t_pgrp := tp, t_session := ts\<rparr>)" using ok(8) unfolding uids_ok_def by simp
qed simp_all

lemma tiocsctty_ok:
  assumes "pg_ok s" "pprocs s p = Some r"
  shows "\<exists>err s'. tiocsctty p t s = Some (err, s') \<and> pg_ok s'"
proof -
  note ok = pg_okD [OF assms(1)]
  obtain G where G: "pgrps s (pp_pgrp r) = Some G" using proc_facts [OF assms] by blast
  obtain E where E: "sessions s (pg_session G) = Some E" using ok(4) G unfolding sess_ok_def by blast
  let ?e = "pg_session G"
  have se: "session_of s p = Some ?e" "sess_leader s p = Some (s_leader E = Some p)" using assms(2) G E by (simp_all add: session_of_def sess_leader_def)
  let ?s = "s\<lparr>t_session := (t_session s)(t := Some ?e), t_pgrp := (t_pgrp s)(t := Some (pp_pgrp r)),
              sessions := (sessions s)(?e \<mapsto> E\<lparr>s_ttyp := Some t, s_ttyvp := True\<rparr>)\<rparr>"
  show ?thesis
  proof (cases "s_leader E \<noteq> Some p \<or> (s_ttyvp E \<or> t_session s t \<noteq> None) \<and> t_session s t \<noteq> Some ?e")
    case True
    then show ?thesis using assms se E unfolding tiocsctty_def by auto
  next
    case False
    then have l: "s_leader E = Some p" and c: "s_ttyp E = None \<or> s_ttyp E = Some t"
      using ttys_okD(1) [OF ok(10), of t ?e] ttys_okD(2) [OF ok(10) E] E by auto
    have only: "t' = t" if "t_pgrp s t' = Some g" "sess s g = Some ?e" for t' g
      using sess_okD(3) [OF ok(4) that(1)] that(2) E c by (auto simp: sess_def)
    have "sess_ok ?s" by (rule ctty_sess [OF ok(4) G E _ _ _ only]) simp_all
    moreover have "ttys_ok ?s" by (rule ctty_ttys [OF ok(10) E l c]) simp_all
    moreover have "uids_ok ?s" using ok(8) unfolding uids_ok_def by simp
    ultimately have "pg_ok ?s"
      by (intro view_keeps_tty [where s = s, OF _ _ _ _ _ _ _ _ _ _ _ _ assms(1)]) (simp_all add: E)
    then have "pg_ok (upd_proc p (\<lambda>r. r\<lparr>pp_flag := insert P_CONTROLT (pp_flag r)\<rparr>) ?s)" by (rule upd_proc_ok) (simp add: pview_def)
    then show ?thesis using False assms se E unfolding tiocsctty_def by auto
  qed
qed

lemma ttyclose_ok: "pg_ok s \<Longrightarrow> pg_ok (ttyclose t s)"
  unfolding ttyclose_def by (rule tty_keeps) (auto split: if_splits)

lemma tiocspgrp_ok:
  assumes "pg_ok s" "pprocs s p = Some r"
  shows "\<exists>err s'. tiocspgrp p t pgid s = Some (err, s') \<and> pg_ok s'"
proof -
  note ok = pg_okD [OF assms(1)]
  obtain G where G: "pgrps s (pp_pgrp r) = Some G" using proc_facts [OF assms] by blast
  have se: "session_of s p = Some (pg_session G)" using assms(2) G by (simp add: session_of_def)
  show ?thesis
  proof (cases "t_session s t = Some (pg_session G) \<and> P_CONTROLT \<in> pp_flag r \<and> pgfind s pgid \<noteq> None")
    case True
    then obtain g where g: "pgfind s pgid = Some g" by blast
    then have "g \<in> set (pgrphash s)" unfolding pgfind_def by (rule find_in [THEN conjunct1])
    then obtain H where H: "pgrps s g = Some H" using ok(6) unfolding ids_ok_def by blast
    obtain E where E: "sessions s (pg_session G) = Some E" "s_ttyp E = Some t" using ttys_okD(1) [OF ok(10)] True by blast
    have "pg_ok (s\<lparr>t_pgrp := (t_pgrp s)(t := Some g)\<rparr>)" if "pg_session H = pg_session G"
    proof -
      have "pg_ok (s\<lparr>t_pgrp := (t_pgrp s)(t := Some g), t_session := t_session s\<rparr>)"
        by (rule tty_keeps [OF assms(1)]) (use H E that in \<open>auto split: if_splits\<close>)
      then show ?thesis by simp
    qed
    then show ?thesis using True g H se assms unfolding tiocspgrp_def by (cases "pg_session H = pg_session G") auto
  qed (use assms se in \<open>auto simp: tiocspgrp_def split: option.splits\<close>)
qed

lemma step_ok:
  assumes "pg_step maxproc s s'" "pg_ok s" "maxproc \<le> 14950"
  shows "pg_ok s'"
  using assms
proof (cases rule: pg_step.cases)
  case (Fork p p2 limit isvfork res)
  then show ?thesis using fork1_ok [OF assms(2) _ _ _ assms(3), of p _ p2 limit isvfork] unfolding calls_def by fastforce
next
  case (Setsid p ng ne res)
  then show ?thesis using setsid_ok [OF assms(2), of p _ ng ne] unfolding calls_def by fastforce
next
  case (Setpgid p ng pid pgid ne err)
  then show ?thesis using setpgid_ok [OF assms(2), of p _ ng pid pgid ne] unfolding calls_def by fastforce
next
  case (Wait p pid untraced nohang cst cru w)
  then show ?thesis using wait1_ok [OF assms(2), of p _ pid untraced nohang cst cru] unfolding calls_def by fastforce
next
  case (Setuid p uid)
  then show ?thesis using setuid_count_ok [OF assms(2), of p _ uid] unfolding calls_def by fastforce
next
  case (Exit p rv s1 q)
  then obtain r where r: "pprocs s p = Some r" "pp_stat r \<noteq> SZOMB" "pp_pid r \<noteq> 0" unfolding calls_def by blast
  have "pp_pid r \<noteq> 1" using Exit(3) r(1) by (auto simp: exit1_def)
  then have "pg_ok s1" using exit1_ok [OF assms(2) r, of rv] Exit(3) by auto
  then show ?thesis unfolding Exit(1) by (rule cur_irrelevant)
next
  case (Ctty p t err)
  then show ?thesis using tiocsctty_ok [OF assms(2), of p _ t] unfolding calls_def by fastforce
next
  case (Tpgrp p t pgid err)
  then show ?thesis using tiocspgrp_ok [OF assms(2), of p _ t pgid] unfolding calls_def by fastforce
next
  case (Tclose t)
  then show ?thesis using ttyclose_ok [OF assms(2)] by simp
next
  case (Switch q)
  then show ?thesis using cur_irrelevant [OF assms(2)] by simp
next
  case (State p st)
  then show ?thesis using upd_proc_ok [OF assms(2), of p "\<lambda>r. r\<lparr>pp_stat := st\<rparr>"] by (auto simp: pview_def alive_def)
next
  case (Flags p fl)
  then show ?thesis using upd_proc_ok [OF assms(2), of p "\<lambda>r. r\<lparr>pp_flag := fl\<rparr>"] by (auto simp: pview_def)
qed

lemma reach_ok: "pg_reach maxproc s \<Longrightarrow> maxproc \<le> 14950 \<Longrightarrow> pg_ok s"
  by (induction rule: pg_reach.induct) (use boot_ok step_ok in blast)+

section \<open>A run\<close>

text \<open>
  \<^verbatim>\<open>init\<close> forks process 2, which makes a session and forks process 3; that makes its own group. Process 3 then ends.
\<close>

definition run1 :: pgsys where "run1 = snd (the (fork1 100 10 1 2 False boot))\<lparr>pcurproc := 2\<rparr>"
definition run2 :: pgsys where "run2 = snd (the (setsid 2 2 2 run1))"
definition run3 :: pgsys where "run3 = snd (the (fork1 100 10 2 3 False run2))\<lparr>pcurproc := 3\<rparr>"
definition run4 :: pgsys where "run4 = snd (the (setpgid 3 0 0 3 9 run3))"
definition run5 :: pgsys where "run5 = the (exit1 3 7 run4)\<lparr>pcurproc := 2\<rparr>"

lemmas run_defs = run1_def run2_def run3_def run4_def run5_def
lemmas run_simps = kern_defs pid_find.simps pid_skip.simps Let_def

lemma run_alive: "alive (snd (the (fork1 100 10 1 2 False boot))) 2" "alive (snd (the (fork1 100 10 2 3 False run2))) 3" "alive (the (exit1 3 7 run4)) 2"
  unfolding alive_def run_defs by (simp_all add: run_simps)

lemma run_calls: "calls boot 1" "calls run1 2" "calls run2 2" "calls run3 3" "calls run4 3" "calls run5 2"
  unfolding calls_def run_defs by (simp_all add: run_simps)

lemma run_returns: "fork1 100 10 1 2 False boot \<noteq> None" "setsid 2 2 2 run1 \<noteq> None" "fork1 100 10 2 3 False run2 \<noteq> None" "setpgid 3 0 0 3 9 run3 \<noteq> None"
  "exit1 3 7 run4 \<noteq> None"
  unfolding run_defs by (simp_all add: run_simps)

lemma run_fresh: "pprocs boot 2 = None" "pgrps run1 2 = None" "sessions run1 2 = None" "pprocs run2 3 = None" "pgrps run3 3 = None"
  unfolding run_defs by (simp_all add: run_simps)

lemma run_reach: "pg_reach 100 run2" "pg_reach 100 run3" "pg_reach 100 run4" "pg_reach 100 run5"
proof -
  have s: "x \<noteq> None \<Longrightarrow> x = Some (fst (the x), snd (the x))" for x :: "('a \<times> pgsys) option" by auto
  have "pg_reach 100 (snd (the (fork1 100 10 1 2 False boot)))"
    by (rule Step [OF Boot Fork [OF run_calls(1) run_fresh(1) s [OF run_returns(1)]]])
  from Step [OF this Switch [OF run_alive(1)]] have "pg_reach 100 run1" unfolding run1_def .
  from Step [OF this Setsid [OF run_calls(2) run_fresh(2,3) s [OF run_returns(2)]]] show 2: "pg_reach 100 run2" unfolding run2_def .
  have "pg_reach 100 (snd (the (fork1 100 10 2 3 False run2)))" by (rule Step [OF 2 Fork [OF run_calls(3) run_fresh(4) s [OF run_returns(3)]]])
  from Step [OF this Switch [OF run_alive(2)]] show 3: "pg_reach 100 run3" unfolding run3_def .
  from Step [OF 3 Setpgid [OF run_calls(4) run_fresh(5) s [OF run_returns(4)]]] show 4: "pg_reach 100 run4" unfolding run4_def .
  obtain s5 where s5: "exit1 3 7 run4 = Some s5" using run_returns(5) by blast
  from Step [OF 4 Exit [OF run_calls(5) s5, of 2]] show "pg_reach 100 run5" using run_alive(3) s5 by (simp add: run5_def)
qed

text \<open>
  The leader of the session of the run takes terminal 5, forks, and ends: the processes of the foreground group that have the
  controlling terminal are sent a hangup, and the terminal has neither session nor group afterwards.
\<close>

definition ctty1 :: pgsys where "ctty1 = snd (the (tiocsctty 2 5 run2))"
definition ctty2 :: pgsys where "ctty2 = snd (the (fork1 100 10 2 3 False ctty1))"
definition ctty3 :: pgsys where "ctty3 = the (exit1 2 0 ctty2)\<lparr>pcurproc := 3\<rparr>"

lemmas ctty_defs = ctty3_def ctty2_def ctty1_def run2_def run1_def

lemma ctty_reach: "pg_reach 100 ctty1" "pg_reach 100 ctty2" "pg_reach 100 ctty3"
proof -
  have s: "x \<noteq> None \<Longrightarrow> x = Some (fst (the x), snd (the x))" for x :: "('a \<times> pgsys) option" by auto
  have ret: "tiocsctty 2 5 run2 \<noteq> None" "fork1 100 10 2 3 False ctty1 \<noteq> None" "exit1 2 0 ctty2 \<noteq> None"
    and ca: "calls ctty1 2" "calls ctty2 2" and fr: "pprocs ctty1 3 = None"
    unfolding calls_def ctty_defs by (simp_all add: run_simps)
  from Step [OF run_reach(1) Ctty [OF run_calls(3) s [OF ret(1)]]] show 1: "pg_reach 100 ctty1" unfolding ctty1_def .
  from Step [OF 1 Fork [OF ca(1) fr s [OF ret(2)]]] show 2: "pg_reach 100 ctty2" unfolding ctty2_def .
  obtain s3 where s3: "exit1 2 0 ctty2 = Some s3" using ret(3) by blast
  have "alive (the (exit1 2 0 ctty2)) 3" unfolding alive_def ctty_defs by (simp add: run_simps)
  then show "pg_reach 100 ctty3" using Step [OF 2 Exit [OF ca(2) s3, of 3]] s3 by (simp add: ctty3_def)
qed

lemma leader_exit_hangs_up:
  "t_session ctty2 5 = Some 2" "t_pgrp ctty2 5 = Some 2" "t_session ctty3 5 = None" "t_pgrp ctty3 5 = None"
  "set (pevs ctty3) = set (pevs ctty2) \<union> {Psignal 3 SIGHUP, Psignal 2 SIGHUP, Wakeup 1, Psignal 1 SIGCHLD}"
  unfolding ctty_defs by (auto simp: run_simps)

text \<open>
  In the session of \<^verbatim>\<open>init\<close> the counters can be too small: process 2, in the group of \<^verbatim>\<open>init\<close>, ends after its child 3 has made its own
  group. \<open>fixjobc\<close> stops counting the child, \<open>exit1\<close> makes \<^verbatim>\<open>init\<close> its parent, and nothing counts it again.
\<close>

definition own1 :: pgsys where "own1 = snd (the (fork1 100 10 2 3 False run1))\<lparr>pcurproc := 3\<rparr>"
definition own2 :: pgsys where "own2 = snd (the (setpgid 3 0 0 3 9 own1))\<lparr>pcurproc := 2\<rparr>"
definition own3 :: pgsys where "own3 = the (exit1 2 0 own2)"

lemma init_session_undercounts:
  "map_option pg_jobc (pgrps own2 3) = Some 1" "map_option pg_jobc (pgrps own3 3) = Some 0"
  "\<exists>r t. pprocs own3 3 = Some r \<and> pp_stat r = SRUN \<and> pp_pgrp r = 3 \<and> pp_pptr r = Some 1 \<and> pprocs own3 1 = Some t \<and> pp_pgrp t = 1 \<and>
     sess own3 1 = sess own3 3"
  unfolding own3_def own2_def own1_def run_defs by (simp_all add: run_simps sess_def)

section \<open>Properties\<close>

text \<open>C8. The job control counters are exact. In every state that the system reaches, for every process group outside the session of
  \<^verbatim>\<open>init\<close>, \<^verbatim>\<open>pg_jobc\<close> is the number of its processes, zombies not counted, whose parent is in another group of the same
  session, as the comment of \<open>fixjobc\<close> says; so it is zero exactly when the group is orphaned.\<close>

theorem jobc_exact:
  assumes "pg_reach maxproc s" "maxproc \<le> 14950" "pgrps s g = Some G" "session_of s (initproc s) \<noteq> Some (pg_session G)"
  shows "pg_jobc G = int (card {p. \<exists>r q t T. pprocs s p = Some r \<and> pp_stat r \<noteq> SZOMB \<and> pp_pgrp r = g \<and> pp_pptr r = Some q \<and>
    pprocs s q = Some t \<and> pp_pgrp t \<noteq> g \<and> pgrps s (pp_pgrp t) = Some T \<and> pg_session T = pg_session G})"
proof -
  have q: "{p. qual s g p} = {p. \<exists>r q t T. pprocs s p = Some r \<and> pp_stat r \<noteq> SZOMB \<and> pp_pgrp r = g \<and> pp_pptr r = Some q \<and>
    pprocs s q = Some t \<and> pp_pgrp t \<noteq> g \<and> pgrps s (pp_pgrp t) = Some T \<and> pg_session T = pg_session G}"
    using assms(3) by (auto simp: qual_def self_counts_def parent_pgrp_def sess_def bind_eq_Some_conv)
  have "pg_jobc G = int (card {p. qual s g p})" using pg_okD(9) [OF reach_ok [OF assms(1,2)]] assms(3,4) unfolding jobc_ok_def by blast
  then show ?thesis unfolding q .
qed

theorem jobc_exact_witness:
  "map_option pg_jobc (pgrps run4 3) = Some 1 \<and>
   card {p. \<exists>r q t T. pprocs run4 p = Some r \<and> pp_stat r \<noteq> SZOMB \<and> pp_pgrp r = 3 \<and> pp_pptr r = Some q \<and>
     pprocs run4 q = Some t \<and> pp_pgrp t \<noteq> 3 \<and> pgrps run4 (pp_pgrp t) = Some T \<and> pg_session T = 2} = 1"
proof -
  obtain G where G: "pgrps run4 3 = Some G" "pg_jobc G = 1" "pg_session G = 2" "session_of run4 (initproc run4) \<noteq> Some (pg_session G)"
    unfolding run_defs by (simp add: run_simps)
  have "100 \<le> (14950 :: int)" by simp
  from jobc_exact [OF run_reach(3) this G(1,4)] show ?thesis using G by simp
qed

text \<open>C29. In every reachable state the system calls that change the process tree return, with one exception: \<open>exit1\<close> panics exactly when the
  process that ends is \<^verbatim>\<open>init\<close>. Apart from that panic (``init died'') no panic of \<open>enterpgrp\<close>, \<open>chgproccnt\<close> or \<open>exit1\<close> is reached, no pointer is followed that does not lead to a structure, and the walk of \<open>inferior\<close> and the search
  for a process number end. Process numbers and group numbers are unique, the count of every session is the number of its groups,
  and the count of every user is the number of the processes with its real user id.\<close>

theorem tree_calls_return:
  assumes "pg_reach maxproc s" "maxproc \<le> 14950" "calls s p" "pprocs s p2 = None" "pgrps s ng = None" "sessions s ne = None"
  shows "fork1 maxproc limit p p2 isvfork s \<noteq> None \<and> setsid p ng ne s \<noteq> None \<and> setpgid p pid pgid ng ne s \<noteq> None \<and>
    wait1 p pid untraced nohang cst cru s \<noteq> None \<and> setuid_count p uid s \<noteq> None \<and> tiocsctty p t s \<noteq> None \<and> tiocspgrp p t pgid s \<noteq> None \<and>
    (exit1 p rv s = None \<longleftrightarrow> p = initproc s) \<and>
    (\<forall>x y r t. pprocs s x = Some r \<longrightarrow> pprocs s y = Some t \<longrightarrow> pp_pid r = pp_pid t \<longrightarrow> x = y) \<and>
    (\<forall>g h G H. pgrps s g = Some G \<longrightarrow> pgrps s h = Some H \<longrightarrow> pg_id G = pg_id H \<longrightarrow> g = h) \<and>
    (\<forall>e E. sessions s e = Some E \<longrightarrow> s_count E = int (card {g. map_option pg_session (pgrps s g) = Some e})) \<and>
    (\<forall>u. uidcnt s u = (let n = card {x. map_option pp_ruid (pprocs s x) = Some u} in if n = 0 then None else Some (int n)))"
proof (intro conjI)
  have ok: "pg_ok s" by (rule reach_ok [OF assms(1,2)])
  obtain r where r: "pprocs s p = Some r" "pp_stat r \<noteq> SZOMB" "pp_pid r \<noteq> 0" "p = pcurproc s" using assms(3) unfolding calls_def by blast
  show "fork1 maxproc limit p p2 isvfork s \<noteq> None" using fork1_ok [OF ok r(1,2) assms(4,2)] by fastforce
  show "setsid p ng ne s \<noteq> None" using setsid_ok [OF ok r assms(5,6)] by fastforce
  show "setpgid p pid pgid ng ne s \<noteq> None" using setpgid_ok [OF ok r(1-3) assms(5), of pid pgid ne] by fastforce
  show "wait1 p pid untraced nohang cst cru s \<noteq> None" using wait1_ok [OF ok r(1), of pid untraced nohang cst cru] by fastforce
  show "setuid_count p uid s \<noteq> None" using setuid_count_ok [OF ok r(1), of uid] by fastforce
  show "tiocsctty p t s \<noteq> None" "tiocspgrp p t pgid s \<noteq> None"
    using tiocsctty_ok [OF ok r(1), of t] tiocspgrp_ok [OF ok r(1), of t pgid] by fastforce+
  have "p = initproc s \<longleftrightarrow> pp_pid r = 1" using pg_okD(6,7) [OF ok] r(1) unfolding ids_ok_def init_ok_def by (metis option.inject)
  moreover have "exit1 p rv s = None" if "pp_pid r = 1" using that r(1) by (simp add: exit1_def)
  ultimately show "exit1 p rv s = None \<longleftrightarrow> p = initproc s" using exit1_ok [OF ok r(1-3), of rv] by fastforce
  show "\<forall>x y r t. pprocs s x = Some r \<longrightarrow> pprocs s y = Some t \<longrightarrow> pp_pid r = pp_pid t \<longrightarrow> x = y"
    "\<forall>g h G H. pgrps s g = Some G \<longrightarrow> pgrps s h = Some H \<longrightarrow> pg_id G = pg_id H \<longrightarrow> g = h"
    using pg_okD(6) [OF ok] unfolding ids_ok_def by blast+
  show "\<forall>e E. sessions s e = Some E \<longrightarrow> s_count E = int (card {g. map_option pg_session (pgrps s g) = Some e})"
    using pg_okD(4) [OF ok] unfolding sess_ok_def sess_def by blast
  show "\<forall>u. uidcnt s u = (let n = card {x. map_option pp_ruid (pprocs s x) = Some u} in if n = 0 then None else Some (int n))"
    using pg_okD(8) [OF ok] unfolding uids_ok_def .
qed

theorem tree_calls_return_witness:
  "fork1 100 10 3 4 False run4 \<noteq> None \<and> exit1 3 7 run4 \<noteq> None \<and> setpgid 3 0 2 4 4 run4 \<noteq> None \<and> exit1 1 7 boot = None"
proof -
  have f: "100 \<le> (14950 :: int)" "pprocs run4 4 = None" "pgrps run4 4 = None" "sessions run4 4 = None" "3 \<noteq> initproc run4"
    unfolding run_defs by (simp_all add: run_simps)
  have b: "pprocs boot 2 = None" "pgrps boot 2 = None" "sessions boot 2 = None" "1 = initproc boot" by (simp_all add: boot_def)
  have "exit1 1 7 boot = None" using tree_calls_return [OF Boot f(1) run_calls(1) b(1-3), where rv = 7] b(4) by blast
  moreover have "fork1 100 10 3 4 False run4 \<noteq> None \<and> exit1 3 7 run4 \<noteq> None \<and> setpgid 3 0 2 4 4 run4 \<noteq> None"
    using tree_calls_return [OF run_reach(3) f(1) run_calls(5) f(2-4), of 10 False 0 2] f(5) by blast
  ultimately show ?thesis by blast
qed

text \<open>\<open>setsid\<close> fails with \<^verbatim>\<open>EPERM\<close> exactly when some process group has the number of the caller. Otherwise the caller, and no other
  process, moves: it leads a new session without a controlling terminal, in a group of its own number.\<close>

theorem setsid_exact:
  assumes "pg_reach maxproc s" "maxproc \<le> 14950" "calls s p" "pprocs s p = Some r" "pgrps s ng = None" "sessions s ne = None"
  shows "if \<exists>g G. pgrps s g = Some G \<and> pg_id G = pp_pid r then setsid p ng ne s = Some (Inl EPERM, s)
    else \<exists>s' G E. setsid p ng ne s = Some (Inr (pp_pid r), s') \<and>
      pprocs s' = (pprocs s)(p \<mapsto> r\<lparr>pp_flag := pp_flag r - {P_CONTROLT}, pp_pgrp := ng\<rparr>) \<and>
      pgrps s' ng = Some G \<and> pg_id G = pp_pid r \<and> pg_session G = ne \<and> pg_members G = [p] \<and> pg_jobc G = 0 \<and>
      sessions s' ne = Some E \<and> s_leader E = Some p \<and> s_count E = 1 \<and> s_ttyp E = None"
proof -
  have ok: "pg_ok s" by (rule reach_ok [OF assms(1,2)])
  have r: "pp_stat r \<noteq> SZOMB" "pp_pid r \<noteq> 0" "p = pcurproc s" using assms(3,4) unfolding calls_def by auto
  obtain res s' where s': "setsid p ng ne s = Some (res, s')" "pg_ok s'"
    "if pgfind s (pp_pid r) = None then res = Inr (pp_pid r) \<and> entered p (pp_pid r) (pp_flag r - {P_CONTROLT}) s s' \<and> session_of s' p = Some ne \<and>
       map_option pp_pgrp (pprocs s' p) = Some ng \<and> (\<exists>E. sessions s' ne = Some E \<and> s_leader E = Some p \<and> s_count E = 1 \<and> s_ttyp E = None)
     else res = Inl EPERM \<and> s' = s"
    using setsid_ok [OF ok assms(4) r assms(5,6)] by blast
  have find: "pgfind s (pp_pid r) = None \<longleftrightarrow> \<not> (\<exists>g G. pgrps s g = Some G \<and> pg_id G = pp_pid r)"
    using pg_okD(6) [OF ok] unfolding pgfind_def find_None_iff ids_ok_def by force
  show ?thesis
  proof (cases "pgfind s (pp_pid r) = None")
    case True
    then obtain G E where g: "pprocs s' = (pprocs s)(p \<mapsto> r\<lparr>pp_flag := pp_flag r - {P_CONTROLT}, pp_pgrp := ng\<rparr>)" "pgrps s' ng = Some G"
      "pg_id G = pp_pid r" "session_of s' p = Some ne" "sessions s' ne = Some E" "s_leader E = Some p" "s_count E = 1" "s_ttyp E = None" "initproc s' = initproc s"
      using s'(3) assms(4) unfolding entered_def by auto
    have e: "pg_session G = ne" using g(1,2,4) by (simp add: session_of_def)
    have one: "h = ng" if "sess s' h = Some ne" for h
    proof -
      have "card {h. sess s' h = Some ne} = 1" using pg_okD(4) [OF s'(2)] g(5,7) unfolding sess_ok_def by force
      moreover have "sess s' ng = Some ne" using g(2) e by (simp add: sess_def)
      ultimately show ?thesis using that by (metis (mono_tags, lifting) card_1_singletonE mem_Collect_eq singletonD)
    qed
    have other: "pp_pgrp t \<noteq> ng" if "pprocs s x = Some t" for x t using links_okD(1) [OF pg_okD(1) [OF ok] that] assms(5) by auto
    have "x \<in> set (pg_members G) \<longleftrightarrow> x = p" for x
      using links_okD(3) [OF pg_okD(1) [OF s'(2)] g(2), of x] other [of x] by (auto simp: g(1))
    then have mem: "pg_members G = [p]"
      using links_okD(2) [OF pg_okD(1) [OF s'(2)] g(2)] by (cases "pg_members G") (auto, metis list.set_intros(1) neq_Nil_conv)
    have ni: "p \<noteq> initproc s"
    proof
      assume i: "p = initproc s"
      obtain H where "pgrps s (pp_pgrp r) = Some H" using proc_facts [OF ok assms(4)] by blast
      then show False using leader_id [OF ok assms(4)] init_leads [OF pg_okD(7) [OF ok]] i True find by blast
    qed
    obtain i where i: "pprocs s (initproc s) = Some i" using pg_okD(7) [OF ok] unfolding init_ok_def by blast
    have si: "session_of s' (initproc s') \<noteq> Some (pg_session G)"
      using i ni one [of "pp_pgrp i"] other [OF i] by (auto simp: g(1,9) session_of_sess e)
    have none: "{x. qual s' ng x} = {}"
    proof -
      have "sess s' ng = Some ne" using g(2) e by (simp add: sess_def)
      then have "\<not> self_counts s' x ng" for x using one unfolding self_counts_def by metis
      then show ?thesis by (simp add: qual_def)
    qed
    have j: "pg_jobc G = int (card {x. qual s' ng x})" using pg_okD(9) [OF s'(2)] g(2) si unfolding jobc_ok_def by blast
    have "pg_jobc G = 0" unfolding j none by simp
    then show ?thesis using True s' find g e mem by simp
  qed (use s' find in auto)
qed

theorem setsid_exact_witness:
  "setsid 3 4 4 run3 \<noteq> None \<and> (\<exists>s' G. setsid 3 4 4 run3 = Some (Inr 3, s') \<and> pgrps s' 4 = Some G \<and> pg_members G = [3] \<and> pg_session G = 4) \<and>
   setsid 2 4 4 run2 = Some (Inl EPERM, run2)"
proof -
  have f: "100 \<le> (14950 :: int)" "pgrps run3 4 = None" "sessions run3 4 = None" "pgrps run2 4 = None" "sessions run2 4 = None"
    unfolding run_defs by (simp_all add: run_simps)
  obtain r where r: "pprocs run3 3 = Some r" "pp_pid r = 3" unfolding run_defs by (simp add: run_simps)
  obtain r2 where r2: "pprocs run2 2 = Some r2" "pp_pid r2 = 2" unfolding run_defs by (simp add: run_simps)
  have n: "\<not> (\<exists>g G. pgrps run3 g = Some G \<and> pg_id G = 3)" unfolding run_defs by (auto simp: run_simps split: if_splits)
  have y: "\<exists>g G. pgrps run2 g = Some G \<and> pg_id G = 2" unfolding run_defs by (auto simp: run_simps intro!: exI [of _ 2])
  show ?thesis
    using setsid_exact [OF run_reach(2) f(1) run_calls(4) r(1) f(2,3)] setsid_exact [OF run_reach(1) f(1) run_calls(3) r2(1) f(4,5)] r(2) r2(2) n y by auto
qed

text \<open>C30. One pass of \<open>wait1\<close>. The children are looked at in order; the first one that matches and is a zombie, or is stopped and was
  not reported, is reported. A zombie is removed from the tree and nothing else is; a stopped child is only marked. Without such a
  child the call fails with \<^verbatim>\<open>ECHILD\<close> exactly when no child matches, and otherwise sleeps or returns at once.\<close>

theorem wait1_exact:
  assumes "pg_reach maxproc s" "maxproc \<le> 14950" "calls s q" "pprocs s q = Some r" "pgrps s (pp_pgrp r) = Some G" "pid \<noteq> 0"
  shows "case find (\<lambda>c. wmatch s pid c \<and> wready s untraced c) (pp_children r) of
      None \<Rightarrow> wait1 q pid untraced nohang None None s =
        Some (if \<exists>c\<in>set (pp_children r). wmatch s pid c then if nohang then W_nohang else W_block else W_fail ECHILD, s)
    | Some c \<Rightarrow> (\<exists>t. pprocs s c = Some t \<and> pp_pptr t = Some q \<and>
        (if pp_stat t = SZOMB
         then \<exists>s'. wait1 q pid untraced nohang None None s = Some (W_reaped (pp_pid t) (pp_xstat t), s') \<and> dom (pprocs s') = dom (pprocs s) - {c}
         else wait1 q pid untraced nohang None None s = Some (W_stopped (pp_pid t) (pp_xstat t * 256 + 127),
             upd_proc c (\<lambda>r. r\<lparr>pp_flag := insert P_WAITED (pp_flag r)\<rparr>) s)))"
proof -
  have ok: "pg_ok s" by (rule reach_ok [OF assms(1,2)])
  note w = wait1_find [OF ok assms(4,5), of pid untraced nohang None None, unfolded Let_def if_not_P [OF assms(6)]]
  show ?thesis
  proof (cases "find (\<lambda>c. wmatch s pid c \<and> wready s untraced c) (pp_children r)")
    case (Some c)
    then obtain t where t: "pprocs s c = Some t" "pp_pptr t = Some q" using children_exist [OF ok assms(4)] find_in [OF Some] by blast
    then show ?thesis
      using wait_reap_ok [OF ok t(1) _ t(2)] wait_zombie_eq [OF ok t(1), of q] Some unfolding w
      by (cases "pp_stat t = SZOMB") (auto simp: wait_report_def)
  qed (simp add: w)
qed

theorem wait1_exact_witness:
  "\<exists>s'. wait1 2 (- 1) False False None None run5 = Some (W_reaped 3 7, s') \<and> dom (pprocs s') = {0, 1, 2}"
proof -
  obtain r G where r: "pprocs run5 2 = Some r" "pgrps run5 (pp_pgrp r) = Some G" "pp_children r = [3]" unfolding run_defs by (simp add: run_simps)
  obtain t where t: "pprocs run5 3 = Some t" "pp_stat t = SZOMB" "pp_pid t = 3" "pp_xstat t = 7" unfolding run_defs by (simp add: run_simps)
  have d: "dom (pprocs run5) = {0, 1, 2, 3}" unfolding run_defs by (auto simp: run_simps split: if_splits)
  have f: "find (\<lambda>c. wmatch run5 (- 1) c \<and> wready run5 False c) (pp_children r) = Some 3" using r(3) t by (simp add: wmatch_def wready_def)
  have "100 \<le> (14950 :: int)" "(- 1 :: int) \<noteq> 0" by simp_all
  from wait1_exact [OF run_reach(4) this(1) run_calls(6) r(1,2) this(2), of False False, unfolded f] show ?thesis using t d by auto
qed

end
