(* ===== verification/Signals.thy ===== *)
theory Signals
  imports Sched Pgrpsys
begin

text \<open>
  Signals, \<^verbatim>\<open>kern/kern_sig.c\<close>: dispositions and masks of a process (\<open>sigaction\<close>, \<open>setsigvec\<close>, \<open>sigprocmask\<close>, \<open>sigsuspend\<close>,
  \<open>sigaltstack\<close>, \<open>execsigs\<close>), posting of signals (\<open>kill\<close>, \<open>killpg1\<close>, \<open>pgsignal\<close>, \<open>trapsignal\<close>, \<open>psignal\<close>) and their delivery
  (\<open>issignal\<close>, \<open>postsig\<close>, \<open>sigexit\<close>), with \<open>sendsig\<close> and \<open>sigreturn\<close> of \<^verbatim>\<open>kern/i386/machdep.c\<close>. Posting a signal wakes, stops and
  continues processes, so the state contains the scheduler of the theory \<open>Sched\<close> and the process tree of the theory \<open>Pgrp\<close>.
\<close>

section \<open>Signal sets and properties\<close>

text \<open>
  A \<^verbatim>\<open>sigset_t\<close> is a word; the signal \<open>n\<close> is the bit \<open>n - 1\<close>. \<open>ffs\<close> gives the number of the lowest bit that is set, counted from 1,
  and 0 for the empty word.
\<close>

definition sigmask :: "nat \<Rightarrow> u32" where
  [kern_defs]: "sigmask m = push_bit (m - 1) 1"

definition ffs :: "u32 \<Rightarrow> nat" where
  [kern_defs]: "ffs w = (case find (bit w) [0..<32] of None \<Rightarrow> 0 | Some i \<Rightarrow> Suc i)"

datatype saprop = SA_KILL | SA_CORE | SA_STOP | SA_TTYSTOP | SA_IGNORE | SA_CONT

definition sigprop_table :: "saprop list list" where
  [kern_defs]: "sigprop_table =
    [[], [SA_KILL], [SA_KILL], [SA_KILL, SA_CORE], [SA_KILL, SA_CORE], [SA_KILL, SA_CORE], [SA_KILL, SA_CORE], [SA_KILL, SA_CORE],
     [SA_KILL, SA_CORE], [SA_KILL], [SA_KILL, SA_CORE], [SA_KILL, SA_CORE], [SA_KILL, SA_CORE], [SA_KILL], [SA_KILL], [SA_KILL],
     [SA_IGNORE], [SA_STOP], [SA_STOP, SA_TTYSTOP], [SA_IGNORE, SA_CONT], [SA_IGNORE], [SA_STOP, SA_TTYSTOP], [SA_STOP, SA_TTYSTOP],
     [SA_IGNORE], [SA_KILL], [SA_KILL], [SA_KILL], [SA_KILL], [SA_IGNORE], [SA_IGNORE], [SA_KILL], [SA_KILL], []]"

definition sigprop :: "nat \<Rightarrow> saprop \<Rightarrow> bool" where
  [kern_defs]: "sigprop n a \<longleftrightarrow> a \<in> set (sigprop_table ! n)"

definition contsigmask :: u32 where [kern_defs]: "contsigmask = sigmask SIGCONT"

definition stopsigmask :: u32 where
  [kern_defs]: "stopsigmask = sigmask SIGSTOP OR sigmask SIGTSTP OR sigmask SIGTTIN OR sigmask SIGTTOU"

definition sigcantmask :: u32 where [kern_defs]: "sigcantmask = sigmask SIGKILL OR sigmask SIGSTOP"

section \<open>State\<close>

text \<open>
  A handler is the address of a function of the user, or \<open>SIG_DFL\<close> or \<open>SIG_IGN\<close>. \<open>SIG_CATCH\<close> and \<open>SIG_HOLD\<close> are used inside
  \<open>psignal\<close> only. The flags words are sets of their bits.
\<close>

abbreviation SIG_DFL :: u32 where "SIG_DFL \<equiv> 0"
abbreviation SIG_IGN :: u32 where "SIG_IGN \<equiv> 1"
abbreviation SIG_CATCH :: u32 where "SIG_CATCH \<equiv> 2"
abbreviation SIG_HOLD :: u32 where "SIG_HOLD \<equiv> 3"

datatype sasflag = SAS_OLDMASK | SAS_ALTSTACK

datatype saflag = SA_ONSTACK | SA_RESTART | SA_NOCLDSTOP | SA_DISABLE

record sigaltstack_s =
  ss_base :: u32
  ss_size :: int
  ss_flags :: "saflag set"

record sigacts =
  ps_sigact :: "nat \<Rightarrow> u32"
  ps_catchmask :: "nat \<Rightarrow> u32"
  ps_sigonstack :: u32
  ps_sigintr :: u32
  ps_oldmask :: u32
  ps_flags :: "sasflag set"
  ps_sigstk :: sigaltstack_s
  ps_sig :: nat
  ps_code :: u32

text \<open>The part of a process structure that belongs to signals.\<close>

record sigproc =
  p_siglist :: u32
  p_sigmask :: u32
  p_sigignore :: u32
  p_sigcatch :: u32
  p_xstat :: nat
  p_sigacts :: sigacts

record sigaction_s =
  sa_handler :: u32
  sa_mask :: u32
  sa_flags :: "saflag set"

text \<open>What \<open>sendsig\<close> puts on the stack of the user, apart from the registers.\<close>

record sigframe =
  sf_signum :: nat
  sf_code :: u32
  sf_handler :: u32
  sf_onalt :: bool
  sc_onstack :: bool
  sc_mask :: u32

text \<open>
  The fields \<open>p_stat\<close> and \<open>p_flag\<close> of a process are those of \<open>sch\<close>; the tree gives its number, parent, group, session and real user.
  \<open>sast\<close> is the request for a trap before the return to user mode that \<^verbatim>\<open>signotify\<close> makes; \<open>sframes\<close> are the frames sent, in order.
\<close>

record sigsys =
  sch :: ssys
  tree :: pgsys
  sgp :: "nat \<Rightarrow> sigproc"
  sast :: bool
  sframes :: "(nat \<times> sigframe) list"

abbreviation sproc :: "sigsys \<Rightarrow> nat \<Rightarrow> proc" where "sproc g p \<equiv> sprocs (sch g) p"

definition upd_sig :: "nat \<Rightarrow> (sigproc \<Rightarrow> sigproc) \<Rightarrow> sigsys \<Rightarrow> sigsys" where
  [kern_defs]: "upd_sig p f g = g\<lparr>sgp := (sgp g)(p := f (sgp g p))\<rparr>"

definition upd_sch :: "nat \<Rightarrow> (proc \<Rightarrow> proc) \<Rightarrow> sigsys \<Rightarrow> sigsys" where
  [kern_defs]: "upd_sch p f g = g\<lparr>sch := supd p f (sch g)\<rparr>"

definition post :: "nat \<Rightarrow> u32 \<Rightarrow> sigsys \<Rightarrow> sigsys" where
  [kern_defs]: "post p m = upd_sig p (\<lambda>q. q\<lparr>p_siglist := p_siglist q OR m\<rparr>)"

definition clear :: "nat \<Rightarrow> u32 \<Rightarrow> sigsys \<Rightarrow> sigsys" where
  [kern_defs]: "clear p m = upd_sig p (\<lambda>q. q\<lparr>p_siglist := p_siglist q AND NOT m\<rparr>)"

text \<open>A step of the scheduler inside a step of the signal code.\<close>

definition on_sch :: "(ssys \<Rightarrow> (sfault + ssys) option) \<Rightarrow> sigsys \<Rightarrow> (sfault + sigsys) option" where
  [kern_defs]: "on_sch f g = map_option (map_sum id (\<lambda>t. g\<lparr>sch := t\<rparr>)) (f (sch g))"

definition jobc_of :: "sigsys \<Rightarrow> nat \<Rightarrow> int option" where
  [kern_defs]: "jobc_of g p = do { r \<leftarrow> pprocs (tree g) p; G \<leftarrow> pgrps (tree g) (pp_pgrp r); Some (pg_jobc G) }"

definition parent_of :: "sigsys \<Rightarrow> nat \<Rightarrow> nat option" where
  [kern_defs]: "parent_of g p = do { r \<leftarrow> pprocs (tree g) p; pp_pptr r }"

section \<open>Dispositions and masks\<close>

text \<open>\<open>siginit\<close> goes through all signals.\<close>

definition siginit :: "nat \<Rightarrow> sigsys \<Rightarrow> sigsys" where
  [kern_defs]: "siginit p = upd_sig p (\<lambda>q. q\<lparr>p_sigignore :=
     foldl (\<lambda>w i. if sigprop i SA_IGNORE \<and> i \<noteq> SIGCONT then w OR sigmask i else w) (p_sigignore q) [0..<NSIG]\<rparr>)"

definition setsigvec_acts :: "nat \<Rightarrow> sigaction_s \<Rightarrow> sigacts \<Rightarrow> sigacts" where
  [kern_defs]: "setsigvec_acts signum sa ps =
     (let b = sigmask signum in
      ps\<lparr>ps_sigact := (ps_sigact ps)(signum := sa_handler sa),
         ps_catchmask := (ps_catchmask ps)(signum := sa_mask sa AND NOT sigcantmask),
         ps_sigintr := (if SA_RESTART \<notin> sa_flags sa then ps_sigintr ps OR b else ps_sigintr ps AND NOT b),
         ps_sigonstack := (if SA_ONSTACK \<in> sa_flags sa then ps_sigonstack ps OR b else ps_sigonstack ps AND NOT b)\<rparr>)"

definition setsigvec_proc :: "nat \<Rightarrow> sigaction_s \<Rightarrow> sigproc \<Rightarrow> sigproc" where
  [kern_defs]: "setsigvec_proc signum sa q =
     (let b = sigmask signum; q1 = q\<lparr>p_sigacts := setsigvec_acts signum sa (p_sigacts q)\<rparr> in
      if sa_handler sa = SIG_IGN \<or> sigprop signum SA_IGNORE \<and> sa_handler sa = SIG_DFL
      then q1\<lparr>p_siglist := p_siglist q AND NOT b,
              p_sigignore := (if signum \<noteq> SIGCONT then p_sigignore q OR b else p_sigignore q),
              p_sigcatch := p_sigcatch q AND NOT b\<rparr>
      else q1\<lparr>p_sigignore := p_sigignore q AND NOT b,
              p_sigcatch := (if sa_handler sa = SIG_DFL then p_sigcatch q AND NOT b else p_sigcatch q OR b)\<rparr>)"

definition setsigvec :: "nat \<Rightarrow> nat \<Rightarrow> sigaction_s \<Rightarrow> sigsys \<Rightarrow> sigsys" where
  [kern_defs]: "setsigvec p signum sa g =
     upd_sig p (setsigvec_proc signum sa)
       (if signum = SIGCHLD
        then upd_sch p (\<lambda>r. r\<lparr>p_flag := (if SA_NOCLDSTOP \<in> sa_flags sa then insert P_NOCLDSTOP (p_flag r) else p_flag r - {P_NOCLDSTOP})\<rparr>) g
        else g)"

text \<open>
  \<open>osa\<close> and \<open>nsa\<close> are user pointers: \<open>None\<close> when null, otherwise the result of the copy. The result is the error, or the old
  action when it was asked for.
\<close>

definition sigaction_get :: "nat \<Rightarrow> nat \<Rightarrow> sigsys \<Rightarrow> sigaction_s" where
  [kern_defs]: "sigaction_get p signum g =
     (let ps = p_sigacts (sgp g p); b = sigmask signum in
      \<lparr>sa_handler = ps_sigact ps signum, sa_mask = ps_catchmask ps signum,
       sa_flags = (if ps_sigonstack ps AND b \<noteq> 0 then {SA_ONSTACK} else {}) \<union>
         (if ps_sigintr ps AND b = 0 then {SA_RESTART} else {}) \<union>
         (if P_NOCLDSTOP \<in> p_flag (sproc g p) then {SA_NOCLDSTOP} else {})\<rparr>)"

definition sigaction :: "nat \<Rightarrow> int \<Rightarrow> (errno + sigaction_s) option \<Rightarrow> errno option option \<Rightarrow> sigsys \<Rightarrow> (errno + sigaction_s option) \<times> sigsys" where
  [kern_defs]: "sigaction p signum nsa osa g =
     (if signum \<le> 0 \<or> int NSIG \<le> signum \<or> signum = int SIGKILL \<or> signum = int SIGSTOP then (Inl EINVAL, g)
      else case osa of
        Some (Some e) \<Rightarrow> (Inl e, g)
      | _ \<Rightarrow>
          let old = (if osa = None then None else Some (sigaction_get p (nat signum) g)) in
          (case nsa of
             None \<Rightarrow> (Inr old, g)
           | Some (Inl e) \<Rightarrow> (Inl e, g)
           | Some (Inr sa) \<Rightarrow> (Inr old, setsigvec p (nat signum) sa g)))"

text \<open>\<open>execsigs\<close> resets the caught signals one by one, the lowest first.\<close>

definition execsigs_one :: "nat \<Rightarrow> sigproc \<Rightarrow> sigproc" where
  [kern_defs]: "execsigs_one nc q =
     (let m = sigmask nc; q1 = q\<lparr>p_sigcatch := p_sigcatch q AND NOT m\<rparr>;
          q2 = (if sigprop nc SA_IGNORE
                then q1\<lparr>p_sigignore := (if nc \<noteq> SIGCONT then p_sigignore q1 OR m else p_sigignore q1), p_siglist := p_siglist q1 AND NOT m\<rparr>
                else q1) in
      q2\<lparr>p_sigacts := (p_sigacts q2)\<lparr>ps_sigact := (ps_sigact (p_sigacts q2))(nc := SIG_DFL)\<rparr>\<rparr>)"

lemma sigmask_bit: "bit (sigmask m) n \<longleftrightarrow> n = m - 1 \<and> n < 32"
  by (auto simp: sigmask_def bit_exp_iff)

lemma ffs_cases:
  assumes "w \<noteq> 0"
  obtains i where "ffs w = Suc i" "i < 32" "bit w i" "\<And>j. j < i \<Longrightarrow> \<not> bit w j"
proof (cases "find (bit w) [0..<32]")
  case None
  then have "\<not> bit w i" for i
    by (cases "i < 32") (auto simp: find_None_iff dest: bit_imp_le_length)
  then have "w = 0" by (simp add: bit_eq_iff)
  then show ?thesis using assms by simp
next
  case (Some i)
  then have "i < 32" "bit w i" "\<And>j. j < i \<Longrightarrow> \<not> bit w j" by (auto simp: find_Some_iff)
  then show ?thesis using that Some by (simp add: ffs_def)
qed

lemma unset_less: "w AND m \<noteq> 0 \<Longrightarrow> w AND NOT m < (w :: u32)"
proof -
  assume m: "w AND m \<noteq> 0"
  have "w AND NOT m \<le> w" by (simp add: word_and_le2)
  moreover have "w AND NOT m \<noteq> w"
  proof
    assume "w AND NOT m = w"
    then have "w AND m = (w AND NOT m) AND m" by simp
    also have "\<dots> = 0" by (simp add: and.assoc)
    finally show False using m by simp
  qed
  ultimately show ?thesis by simp
qed

lemma ffs_in: "w \<noteq> 0 \<Longrightarrow> w AND sigmask (ffs w) \<noteq> 0"
proof -
  assume "w \<noteq> 0"
  then obtain i where "ffs w = Suc i" "i < 32" "bit w i" by (rule ffs_cases)
  then have "bit (w AND sigmask (ffs w)) i" by (simp add: bit_and_iff sigmask_bit)
  then show ?thesis by (metis bit_0_eq bot_apply bot_bool_def)
qed

function execsigs_loop :: "sigproc \<Rightarrow> sigproc" where
  "execsigs_loop q = (if p_sigcatch q = 0 then q else execsigs_loop (execsigs_one (ffs (p_sigcatch q)) q))"
  by pat_completeness auto
termination
  by (relation "measure (\<lambda>q. unat (p_sigcatch q))")
    (simp_all add: execsigs_one_def Let_def word_less_nat_alt [symmetric] unset_less ffs_in)

definition execsigs :: "nat \<Rightarrow> sigsys \<Rightarrow> sigsys" where
  [kern_defs]: "execsigs p = upd_sig p (\<lambda>q.
     let q1 = execsigs_loop q in
     q1\<lparr>p_sigacts := (p_sigacts q1)\<lparr>ps_sigstk := \<lparr>ss_base = 0, ss_size = 0, ss_flags = {SA_DISABLE}\<rparr>, ps_flags := {}\<rparr>\<rparr>)"

datatype sighow = SIG_BLOCK | SIG_UNBLOCK | SIG_SETMASK | Bad_how

definition sigprocmask :: "nat \<Rightarrow> sighow \<Rightarrow> u32 \<Rightarrow> sigsys \<Rightarrow> errno option \<times> u32 \<times> sigsys" where
  [kern_defs]: "sigprocmask p how m g =
     (let old = p_sigmask (sgp g p); put = (\<lambda>w. upd_sig p (\<lambda>q. q\<lparr>p_sigmask := w\<rparr>) g) in
      case how of
        SIG_BLOCK \<Rightarrow> (None, old, put (old OR (m AND NOT sigcantmask)))
      | SIG_UNBLOCK \<Rightarrow> (None, old, put (old AND NOT m))
      | SIG_SETMASK \<Rightarrow> (None, old, put (m AND NOT sigcantmask))
      | Bad_how \<Rightarrow> (Some EINVAL, old, g))"

definition sigpending :: "nat \<Rightarrow> sigsys \<Rightarrow> u32" where
  [kern_defs]: "sigpending p g = p_siglist (sgp g p)"

text \<open>\<open>minsigstksz\<close> is the constant \<^verbatim>\<open>MINSIGSTKSZ\<close>.\<close>

definition sigaltstack :: "int \<Rightarrow> nat \<Rightarrow> (errno + sigaltstack_s) option \<Rightarrow> errno option option \<Rightarrow> sigsys \<Rightarrow> (errno + sigaltstack_s option) \<times> sigsys" where
  [kern_defs]: "sigaltstack minsigstksz p nss oss g =
     (let upd = (\<lambda>f. upd_sig p (\<lambda>q. q\<lparr>p_sigacts := f (p_sigacts q)\<rparr>));
          g1 = (if SAS_ALTSTACK \<notin> ps_flags (p_sigacts (sgp g p))
                then upd (\<lambda>ps. ps\<lparr>ps_sigstk := (ps_sigstk ps)\<lparr>ss_flags := insert SA_DISABLE (ss_flags (ps_sigstk ps))\<rparr>\<rparr>) g else g);
          stk = ps_sigstk (p_sigacts (sgp g1 p)) in
      case oss of
        Some (Some e) \<Rightarrow> (Inl e, g1)
      | _ \<Rightarrow>
          let old = (if oss = None then None else Some stk) in
          (case nss of
             None \<Rightarrow> (Inr old, g1)
           | Some (Inl e) \<Rightarrow> (Inl e, g1)
           | Some (Inr ss) \<Rightarrow>
               if SA_DISABLE \<in> ss_flags ss then
                 if SA_ONSTACK \<in> ss_flags stk then (Inl EINVAL, g1)
                 else (Inr old, upd (\<lambda>ps. ps\<lparr>ps_flags := ps_flags ps - {SAS_ALTSTACK}, ps_sigstk := (ps_sigstk ps)\<lparr>ss_flags := ss_flags ss\<rparr>\<rparr>) g1)
               else if ss_size ss < minsigstksz then (Inl ENOMEM, g1)
               else (Inr old, upd (\<lambda>ps. ps\<lparr>ps_flags := insert SAS_ALTSTACK (ps_flags ps), ps_sigstk := ss\<rparr>) g1)))"

text \<open>The signal state of a new process (\<open>fork1\<close> and \<open>vm_fork\<close>) and of one that exits (\<open>exit1\<close>).\<close>

definition fork_sig :: "nat \<Rightarrow> nat \<Rightarrow> sigsys \<Rightarrow> sigsys" where
  [kern_defs]: "fork_sig p1 p2 g = upd_sig p2 (\<lambda>q. (sgp g p1)\<lparr>p_siglist := 0, p_xstat := p_xstat q\<rparr>) g"

definition exit_sig :: "nat \<Rightarrow> sigsys \<Rightarrow> sigsys" where
  [kern_defs]: "exit_sig p g =
     upd_sch p (\<lambda>r. r\<lparr>p_flag := insert P_WEXIT (p_flag r - {P_TRACED, P_PPWAIT})\<rparr>)
       (upd_sig p (\<lambda>q. q\<lparr>p_sigignore := NOT 0, p_siglist := 0\<rparr>) g)"

section \<open>Posting\<close>

definition cansignal :: "sigsys \<Rightarrow> nat \<Rightarrow> nat \<Rightarrow> int \<Rightarrow> bool" where
  [kern_defs]: "cansignal g p q signum =
     (let ruid = (\<lambda>x. map_option pp_ruid (pprocs (tree g) x)); uid = (\<lambda>x. Some (p_uid (sproc g x))) in
      uid p = Some 0 \<or> ruid p = ruid q \<or> uid p = ruid q \<or> ruid p = uid q \<or> uid p = uid q \<or>
      signum = int SIGCONT \<and> session_of (tree g) q = session_of (tree g) p)"

text \<open>The action that \<open>psignal\<close> finds for a signal that is not ignored.\<close>

definition sig_action :: "nat \<Rightarrow> nat \<Rightarrow> sigsys \<Rightarrow> u32" where
  [kern_defs]: "sig_action p signum g =
     (if P_TRACED \<in> p_flag (sproc g p) then SIG_DFL
      else if p_sigmask (sgp g p) AND sigmask signum \<noteq> 0 then SIG_HOLD
      else if p_sigcatch (sgp g p) AND sigmask signum \<noteq> 0 then SIG_CATCH
      else SIG_DFL)"

definition psig_run :: "nat \<Rightarrow> sigsys \<Rightarrow> (sfault + sigsys) option" where
  [kern_defs]: "psig_run p = on_sch (setrunnable p)"

definition psig_runfast :: "nat \<Rightarrow> sigsys \<Rightarrow> (sfault + sigsys) option" where
  [kern_defs]: "psig_runfast p g = psig_run p (if PUSER < p_priority (sproc g p) then upd_sch p (\<lambda>r. r\<lparr>p_priority := PUSER\<rparr>) g else g)"

text \<open>
  \<open>psignal\<close> in the order of the code. \<open>psig_prepare\<close> changes the nice value and the pending signals; \<open>None\<close> is a return. The
  states \<open>SSTOP\<close> and those in which nothing is done but \<^verbatim>\<open>signotify\<close> follow; the state \<open>SSLEEP\<close> contains the call for the parent.
\<close>

definition psig_prepare :: "nat \<Rightarrow> nat \<Rightarrow> u32 \<Rightarrow> sigsys \<Rightarrow> (sfault + bool \<times> sigsys)" where
  [kern_defs]: "psig_prepare p signum action g =
     (let g1 = (if 0 < p_nice (sproc g p) \<and> action = SIG_DFL \<and> sigprop signum SA_KILL \<and> P_TRACED \<notin> p_flag (sproc g p)
                then upd_sch p (\<lambda>r. r\<lparr>p_nice := 0\<rparr>) g else g);
          g2 = (if sigprop signum SA_CONT then clear p stopsigmask g1 else g1);
          stops = sigprop signum SA_STOP;
          jobc = jobc_of g p in
      if stops \<and> sigprop signum SA_TTYSTOP \<and> jobc = None then Inl Null_link
      else if stops \<and> sigprop signum SA_TTYSTOP \<and> jobc = Some 0 \<and> action = SIG_DFL then Inr (False, g2)
      else let g3 = post p (sigmask signum) (if stops then clear p contsigmask g2 else g2) in
        Inr (\<not> (action = SIG_HOLD \<and> (\<not> sigprop signum SA_CONT \<or> p_stat (sproc g p) \<noteq> SSTOP)), g3))"

definition psig_stopped :: "nat \<Rightarrow> nat \<Rightarrow> u32 \<Rightarrow> sigsys \<Rightarrow> (sfault + sigsys) option" where
  [kern_defs]: "psig_stopped p signum action g =
     (let r = sproc g p in
      if P_TRACED \<in> p_flag r then Some (Inr g)
      else if signum = SIGKILL then psig_runfast p g
      else if sigprop signum SA_CONT then
        let g1 = (if action = SIG_DFL then clear p (sigmask signum) g else g) in
        if action = SIG_CATCH then psig_runfast p g1
        else if p_wchan r = None then psig_run p g1
        else Some (Inr (upd_sch p (\<lambda>r. r\<lparr>p_stat := SSLEEP\<rparr>) g1))
      else if sigprop signum SA_STOP then Some (Inr (clear p (sigmask signum) g))
      else if p_wchan r \<noteq> None \<and> P_SINTR \<in> p_flag r then on_sch (unsleep p) g
      else Some (Inr g))"

lemma sigprop_chld: "sigprop SIGCHLD a \<longleftrightarrow> a = SA_IGNORE"
  by (simp add: sigprop_def sigprop_table_def)

function psignal :: "nat \<Rightarrow> nat \<Rightarrow> sigsys \<Rightarrow> (sfault + sigsys) option" where
  "psignal p signum g =
     (if NSIG \<le> signum \<or> signum = 0 then Some (Inl Panic_psignal)
      else if P_TRACED \<notin> p_flag (sproc g p) \<and> p_sigignore (sgp g p) AND sigmask signum \<noteq> 0 then Some (Inr g)
      else let action = sig_action p signum g in
        case psig_prepare p signum action g of
          Inl f \<Rightarrow> Some (Inl f)
        | Inr (False, g1) \<Rightarrow> Some (Inr g1)
        | Inr (True, g1) \<Rightarrow>
            let r = sproc g1 p in
            (case p_stat r of
               SSLEEP \<Rightarrow>
                 if P_SINTR \<notin> p_flag r then Some (Inr g1)
                 else if P_TRACED \<in> p_flag r then psig_run p g1
                 else if sigprop signum SA_CONT \<and> action = SIG_DFL then Some (Inr (clear p (sigmask signum) g1))
                 else if sigprop signum SA_STOP then
                   if action \<noteq> SIG_DFL then psig_runfast p g1
                   else if P_PPWAIT \<in> p_flag r then Some (Inr g1)
                   else
                     let g2 = upd_sig p (\<lambda>q. q\<lparr>p_siglist := p_siglist q AND NOT (sigmask signum), p_xstat := signum\<rparr>) g1 in
                     (case parent_of g p of
                        None \<Rightarrow> Some (Inl Null_link)
                      | Some pp \<Rightarrow>
                          sthen (if P_NOCLDSTOP \<notin> p_flag (sproc g2 pp) then psignal pp SIGCHLD g2 else Some (Inr g2))
                            (on_sch (stop p (of_nat pp))))
                 else psig_runfast p g1
             | SSTOP \<Rightarrow> psig_stopped p signum action g1
             | _ \<Rightarrow> Some (Inr (if scur (sch g1) = Some p then g1\<lparr>sast := True\<rparr> else g1))))"
  by pat_completeness auto
termination
  by (relation "measure (\<lambda>(p, n, g). if sigprop n SA_STOP then 1 else 0)") (auto simp: sigprop_chld)

declare psignal.simps [simp del]

text \<open>
  \<open>killpg1\<close>: whether a process of the list is signalled is decided when the loop comes to it. The result counts the processes.
\<close>

fun killpg_loop :: "(sigsys \<Rightarrow> nat \<Rightarrow> bool) \<Rightarrow> nat \<Rightarrow> nat list \<Rightarrow> nat \<Rightarrow> sigsys \<Rightarrow> (sfault + nat \<times> sigsys) option" where
  "killpg_loop sel signum [] n g = Some (Inr (n, g))"
| "killpg_loop sel signum (p # ps) n g =
     (if sel g p
      then sthen (if signum \<noteq> 0 then psignal p signum g else Some (Inr g)) (killpg_loop sel signum ps (n + 1))
      else killpg_loop sel signum ps n g)"

definition pid_of :: "sigsys \<Rightarrow> nat \<Rightarrow> int" where
  [kern_defs]: "pid_of g p = (case pprocs (tree g) p of None \<Rightarrow> 0 | Some r \<Rightarrow> pp_pid r)"

definition killpg1 :: "nat \<Rightarrow> nat \<Rightarrow> int \<Rightarrow> bool \<Rightarrow> sigsys \<Rightarrow> (sfault + errno option \<times> sigsys) option" where
  [kern_defs]: "killpg1 cp signum pgid all g =
     (let res = (\<lambda>x. sthen x (\<lambda>(n, g'). Some (Inr (if n \<noteq> 0 then None else Some ESRCH, g')))) in
      if all then
        res (killpg_loop (\<lambda>g p. \<not> (pid_of g p \<le> 1 \<or> P_SYSTEM \<in> p_flag (sproc g p) \<or> p = cp \<or> \<not> cansignal g cp p (int signum)))
          signum (allproc (tree g)) 0 g)
      else case (if pgid = 0 then map_option pp_pgrp (pprocs (tree g) cp) else pgfind (tree g) pgid) of
        None \<Rightarrow> if pgid = 0 then Some (Inl Null_link) else Some (Inr (Some ESRCH, g))
      | Some pg \<Rightarrow>
          (case pgrps (tree g) pg of
             None \<Rightarrow> Some (Inl Null_link)
           | Some G \<Rightarrow>
               res (killpg_loop (\<lambda>g p. \<not> (pid_of g p \<le> 1 \<or> P_SYSTEM \<in> p_flag (sproc g p) \<or> p_stat (sproc g p) = SZOMB \<or>
                      \<not> cansignal g cp p (int signum))) signum (pg_members G) 0 g)))"

definition kill :: "nat \<Rightarrow> int \<Rightarrow> int \<Rightarrow> sigsys \<Rightarrow> (sfault + errno option \<times> sigsys) option" where
  [kern_defs]: "kill cp pid signum g =
     (if signum < 0 \<or> int NSIG \<le> signum then Some (Inr (Some EINVAL, g))
      else if 0 < pid then
        (case pfind (tree g) pid of
           None \<Rightarrow> Some (Inr (Some ESRCH, g))
         | Some p \<Rightarrow>
             if \<not> cansignal g cp p signum then Some (Inr (Some EPERM, g))
             else sthen (if signum \<noteq> 0 then psignal p (nat signum) g else Some (Inr g)) (\<lambda>g'. Some (Inr (None, g'))))
      else killpg1 cp (nat signum) (if pid = - 1 then 0 else - pid) (pid = - 1) g)"

fun pgsignal_loop :: "nat \<Rightarrow> bool \<Rightarrow> nat list \<Rightarrow> sigsys \<Rightarrow> (sfault + sigsys) option" where
  "pgsignal_loop signum checkctty [] g = Some (Inr g)"
| "pgsignal_loop signum checkctty (p # ps) g =
     (if \<not> checkctty \<or> P_CONTROLT \<in> p_flag (sproc g p)
      then sthen (psignal p signum g) (pgsignal_loop signum checkctty ps)
      else pgsignal_loop signum checkctty ps g)"

definition pgsignal_s :: "nat option \<Rightarrow> nat \<Rightarrow> bool \<Rightarrow> sigsys \<Rightarrow> (sfault + sigsys) option" where
  [kern_defs]: "pgsignal_s pgrp signum checkctty g =
     (case pgrp of
        None \<Rightarrow> Some (Inr g)
      | Some pg \<Rightarrow>
          (case pgrps (tree g) pg of
             None \<Rightarrow> Some (Inl Null_link)
           | Some G \<Rightarrow> pgsignal_loop signum checkctty (pg_members G) g))"

definition gsignal :: "int \<Rightarrow> nat \<Rightarrow> sigsys \<Rightarrow> (sfault + sigsys) option" where
  [kern_defs]: "gsignal pgid signum g = (if pgid = 0 then Some (Inr g) else pgsignal_s (pgfind (tree g) pgid) signum False g)"

section \<open>Delivery\<close>

text \<open>
  \<open>sendsig\<close> for the running process \<open>p\<close>; \<open>acc\<close> tells whether the stack of the user can be written. When it can not, the process gets an
  illegal instruction signal with its default action.
\<close>

definition sendsig :: "nat \<Rightarrow> u32 \<Rightarrow> nat \<Rightarrow> u32 \<Rightarrow> u32 \<Rightarrow> bool \<Rightarrow> sigsys \<Rightarrow> (sfault + sigsys) option" where
  [kern_defs]: "sendsig p catcher sig msk code acc g =
     (let ps = p_sigacts (sgp g p); oonstack = (SA_ONSTACK \<in> ss_flags (ps_sigstk ps));
          alt = (SAS_ALTSTACK \<in> ps_flags ps \<and> \<not> oonstack \<and> ps_sigonstack ps AND sigmask sig \<noteq> 0);
          g1 = (if alt then upd_sig p (\<lambda>q. q\<lparr>p_sigacts := ps\<lparr>ps_sigstk := (ps_sigstk ps)\<lparr>ss_flags := insert SA_ONSTACK (ss_flags (ps_sigstk ps))\<rparr>\<rparr>\<rparr>) g else g);
          ill = sigmask SIGILL in
      if \<not> acc then
        psignal p SIGILL (upd_sig p (\<lambda>q. q\<lparr>p_sigacts := (p_sigacts q)\<lparr>ps_sigact := (ps_sigact (p_sigacts q))(SIGILL := SIG_DFL)\<rparr>,
          p_sigignore := p_sigignore q AND NOT ill, p_sigcatch := p_sigcatch q AND NOT ill, p_sigmask := p_sigmask q AND NOT ill\<rparr>) g1)
      else Some (Inr (g1\<lparr>sframes := sframes g1 @ [(p, \<lparr>sf_signum = sig, sf_code = code, sf_handler = catcher, sf_onalt = alt,
          sc_onstack = oonstack, sc_mask = msk\<rparr>)]\<rparr>)))"

text \<open>\<open>sigreturn\<close> with the context read from the stack of the user; \<open>None\<close> is an address that can not be read.\<close>

definition sigreturn :: "nat \<Rightarrow> (bool \<times> u32) option \<Rightarrow> sigsys \<Rightarrow> errno option \<times> sigsys" where
  [kern_defs]: "sigreturn p scp g =
     (case scp of
        None \<Rightarrow> (Some EINVAL, g)
      | Some (onstack, msk) \<Rightarrow>
          (None, upd_sig p (\<lambda>q. q\<lparr>p_sigacts := (p_sigacts q)\<lparr>ps_sigstk := (ps_sigstk (p_sigacts q))\<lparr>ss_flags :=
               (let f = ss_flags (ps_sigstk (p_sigacts q)) in if onstack then insert SA_ONSTACK f else f - {SA_ONSTACK})\<rparr>\<rparr>,
             p_sigmask := msk AND NOT (sigmask SIGKILL OR sigmask SIGCONT OR sigmask SIGSTOP)\<rparr>) g))"

definition trapsignal :: "nat \<Rightarrow> nat \<Rightarrow> u32 \<Rightarrow> bool \<Rightarrow> sigsys \<Rightarrow> (sfault + sigsys) option" where
  [kern_defs]: "trapsignal p signum code acc g =
     (let q = sgp g p; m = sigmask signum in
      if P_TRACED \<notin> p_flag (sproc g p) \<and> p_sigcatch q AND m \<noteq> 0 \<and> p_sigmask q AND m = 0 then
        sthen (sendsig p (ps_sigact (p_sigacts q) signum) signum (p_sigmask q) code acc g)
          (\<lambda>g1. Some (Inr (upd_sig p (\<lambda>q. q\<lparr>p_sigmask := p_sigmask q OR (ps_catchmask (p_sigacts q) signum OR m)\<rparr>) g1)))
      else psignal p signum (upd_sig p (\<lambda>q. q\<lparr>p_sigacts := (p_sigacts q)\<lparr>ps_code := code, ps_sig := signum\<rparr>\<rparr>) g))"

text \<open>
  \<open>issignal\<close> of the running process up to its return or to the point where the process stops and another one runs. \<open>Is_stopped\<close> is
  the stop by default action and \<open>Is_traced\<close> the stop for the tracer; \<open>issignal_cont\<close> goes on from there. The body of \<open>trace_req\<close> only
  returns 0, so a traced process stays in its loop for as long as it is traced.
\<close>

datatype isres = Is_none | Is_sig nat | Is_stopped nat | Is_traced nat

definition pendmask :: "nat \<Rightarrow> sigsys \<Rightarrow> u32" where
  [kern_defs]: "pendmask p g =
     (let m = p_siglist (sgp g p) AND NOT (p_sigmask (sgp g p)) in
      if P_PPWAIT \<in> p_flag (sproc g p) then m AND NOT stopsigmask else m)"

text \<open>
  \<open>mi_switch\<close> with the signal that it sends to the running process itself when the limit on CPU time is reached, and the routines that call
  it: the end of \<open>tsleep\<close>, and the end of a time slice before the return to user mode.
\<close>

definition mi_switch_s :: "nat \<Rightarrow> sigsys \<Rightarrow> (sfault + sigsys) option" where
  [kern_defs]: "mi_switch_s p g =
     (case mi_switch_time (snow (sch g)) (sruntime (sch g)) (sproc g p) of
        (q, sig) \<Rightarrow>
          let g1 = upd_sch p (\<lambda>_. q) g in
          sthen (case sig of
              No_sig \<Rightarrow> Some (Inr g1)
            | Sig_kill \<Rightarrow> psignal p SIGKILL g1
            | Sig_xcpu \<Rightarrow> psignal p SIGXCPU g1)
            (on_sch (\<lambda>s. Some (mi_switch_go p sig s))))"

definition sleep_block_s :: "nat \<Rightarrow> sigsys \<Rightarrow> (sfault + sigsys) option" where
  [kern_defs]: "sleep_block_s p g = mi_switch_s p (upd_sch p (\<lambda>r. r\<lparr>p_stat := SSLEEP\<rparr>) g)"

definition tsleep_wait_s :: "nat \<Rightarrow> bool \<Rightarrow> nat \<Rightarrow> sigsys \<Rightarrow> (sfault + sigsys) option" where
  [kern_defs]: "tsleep_wait_s p catch sig g =
     (if \<not> catch then sleep_block_s p g
      else if sig \<noteq> 0 then
        sthen (on_sch (unsleep p) g) (\<lambda>g1. Some (Inr (upd_sch p (\<lambda>r. r\<lparr>p_stat := SRUN\<rparr>) g1)))
      else if p_wchan (sproc g p) = None then Some (Inr g)
      else sleep_block_s p g)"

definition resched_s :: "nat \<Rightarrow> sigsys \<Rightarrow> (sfault + sigsys) option" where
  [kern_defs]: "resched_s p g =
     (let g1 = upd_sch p (\<lambda>r. r\<lparr>p_priority := p_usrpri r\<rparr>) g in
      if sresched (sch g1) then sthen (on_sch (\<lambda>s. Some (setrunqueue p s)) g1) (mi_switch_s p) else Some (Inr g1))"

definition stop_traced :: "nat \<Rightarrow> nat \<Rightarrow> sigsys \<Rightarrow> (sfault + isres \<times> sigsys) option" where
  [kern_defs]: "stop_traced p signum g =
     (case parent_of g p of
        None \<Rightarrow> Some (Inl Null_link)
      | Some pp \<Rightarrow>
          sthen (on_sch (stop p (of_nat pp)) g) (\<lambda>g1.
          sthen (mi_switch_s p g1) (\<lambda>g2. Some (Inr (Is_traced signum, g2)))))"

definition issignal_trace :: "nat \<Rightarrow> nat \<Rightarrow> sigsys \<Rightarrow> (sfault + isres \<times> sigsys) option" where
  [kern_defs]: "issignal_trace p signum g =
     (let g1 = upd_sig p (\<lambda>q. q\<lparr>p_siglist := p_siglist q AND NOT (sigmask signum), p_xstat := signum\<rparr>) g in
      case parent_of g p of
        None \<Rightarrow> Some (Inl Null_link)
      | Some pp \<Rightarrow> sthen (psignal pp SIGCHLD g1) (stop_traced p signum))"

definition issignal_stop :: "nat \<Rightarrow> nat \<Rightarrow> sigsys \<Rightarrow> (sfault + isres \<times> sigsys) option" where
  [kern_defs]: "issignal_stop p signum g =
     (let g1 = upd_sig p (\<lambda>q. q\<lparr>p_xstat := signum\<rparr>) g in
      case parent_of g p of
        None \<Rightarrow> Some (Inl Null_link)
      | Some pp \<Rightarrow>
          sthen (on_sch (stop p (of_nat pp)) g1) (\<lambda>g2.
          sthen (if P_NOCLDSTOP \<notin> p_flag (sproc g2 pp) then psignal pp SIGCHLD g2 else Some (Inr g2)) (\<lambda>g3.
          sthen (mi_switch_s p g3) (\<lambda>g4. Some (Inr (Is_stopped signum, g4))))))"

text \<open>What \<open>issignal\<close> does with the signal it looks at; \<open>None\<close> is to drop it and look again.\<close>

definition issignal_take :: "nat \<Rightarrow> nat \<Rightarrow> sigsys \<Rightarrow> (sfault + isres \<times> sigsys) option option" where
  [kern_defs]: "issignal_take p signum g =
     (let q = sgp g p; fl = p_flag (sproc g p); act = ps_sigact (p_sigacts q) signum in
      if sigmask signum AND p_sigignore q \<noteq> 0 \<and> P_TRACED \<notin> fl then None
      else if P_TRACED \<in> fl \<and> P_PPWAIT \<notin> fl then Some (issignal_trace p signum g)
      else if act = SIG_DFL then
        if pid_of g p \<le> 1 then None
        else if sigprop signum SA_STOP then
          if P_TRACED \<in> fl then None
          else if jobc_of g p = None then Some (Some (Inl Null_link))
          else if jobc_of g p = Some 0 \<and> sigprop signum SA_TTYSTOP then None
          else Some (issignal_stop p signum g)
        else if sigprop signum SA_IGNORE then None
        else Some (Some (Inr (Is_sig signum, g)))
      else if act = SIG_IGN then None
      else Some (Some (Inr (Is_sig signum, g))))"

lemma pendmask_sub: "pendmask p g AND m \<noteq> 0 \<Longrightarrow> p_siglist (sgp g p) AND m \<noteq> 0"
proof
  assume a: "pendmask p g AND m \<noteq> 0" "p_siglist (sgp g p) AND m = 0"
  have "bit (pendmask p g AND m) i \<Longrightarrow> bit (p_siglist (sgp g p) AND m) i" for i
    by (auto simp: pendmask_def Let_def bit_and_iff split: if_splits)
  then show False using a by (auto simp: bit_eq_iff)
qed

lemma clear_siglist [simp]: "p_siglist (sgp (clear p m g) p) = p_siglist (sgp g p) AND NOT m"
  by (simp add: clear_def upd_sig_def)

function issignal :: "nat \<Rightarrow> sigsys \<Rightarrow> (sfault + isres \<times> sigsys) option" where
  "issignal p g =
     (let m = pendmask p g; signum = ffs m in
      if m = 0 then Some (Inr (Is_none, g))
      else case issignal_take p signum g of
        Some r \<Rightarrow> r
      | None \<Rightarrow> issignal p (clear p (sigmask signum) g))"
  by pat_completeness auto
termination
  by (relation "measure (\<lambda>(p, g). unat (p_siglist (sgp g p)))")
    (simp_all add: word_less_nat_alt [symmetric] unset_less pendmask_sub ffs_in)

declare issignal.simps [simp del]

definition issignal_cont :: "nat \<Rightarrow> isres \<Rightarrow> sigsys \<Rightarrow> (sfault + isres \<times> sigsys) option" where
  [kern_defs]: "issignal_cont p r g =
     (case r of
        Is_stopped n \<Rightarrow> issignal p (clear p (sigmask n) g)
      | Is_traced n \<Rightarrow>
          if P_TRACED \<in> p_flag (sproc g p) then stop_traced p n g
          else let x = p_xstat (sgp g p) in issignal p (if x = 0 then g else post p (sigmask x) g)
      | _ \<Rightarrow> Some (Inr (r, g)))"

definition cursig :: "nat \<Rightarrow> sigsys \<Rightarrow> (sfault + isres \<times> sigsys) option" where
  [kern_defs]: "cursig p g =
     (let l = p_siglist (sgp g p) in
      if l = 0 \<or> P_TRACED \<notin> p_flag (sproc g p) \<and> l AND NOT (p_sigmask (sgp g p)) = 0 then Some (Inr (Is_none, g))
      else issignal p g)"

text \<open>
  \<open>sigexit\<close> ends the process; the value is the exit status that \<open>exit1\<close> gets. \<open>core\<close> tells whether the core file was written.
\<close>

datatype pres = Delivered | Exits nat | Stops isres

definition sigexit :: "nat \<Rightarrow> nat \<Rightarrow> bool \<Rightarrow> sigsys \<Rightarrow> pres \<times> sigsys" where
  [kern_defs]: "sigexit p signum core g =
     (if sigprop signum SA_CORE
      then (Exits (if core then signum + 128 else signum), upd_sig p (\<lambda>q. q\<lparr>p_sigacts := (p_sigacts q)\<lparr>ps_sig := signum\<rparr>\<rparr>) g)
      else (Exits signum, g))"

definition postsig :: "nat \<Rightarrow> nat \<Rightarrow> bool \<Rightarrow> bool \<Rightarrow> sigsys \<Rightarrow> (sfault + pres \<times> sigsys) option" where
  [kern_defs]: "postsig p signum acc core g =
     (if signum = 0 then Some (Inl Panic_postsig)
      else
        let m = sigmask signum; g1 = clear p m g; q = sgp g1 p; ps = p_sigacts q; action = ps_sigact ps signum in
        if action = SIG_DFL then Some (Inr (sigexit p signum core g1))
        else if action = SIG_IGN \<or> p_sigmask q AND m \<noteq> 0 then Some (Inl Panic_postsig)
        else
          let returnmask = (if SAS_OLDMASK \<in> ps_flags ps then ps_oldmask ps else p_sigmask q);
              code = (if ps_sig ps \<noteq> signum then 0 else ps_code ps);
              ps1 = ps\<lparr>ps_flags := ps_flags ps - {SAS_OLDMASK}\<rparr>;
              ps2 = (if ps_sig ps \<noteq> signum then ps1 else ps1\<lparr>ps_code := 0, ps_sig := 0\<rparr>) in
          sthen (sendsig p action signum returnmask code acc
              (upd_sig p (\<lambda>q. q\<lparr>p_sigmask := p_sigmask q OR (ps_catchmask ps signum OR m), p_sigacts := ps2\<rparr>) g1))
            (\<lambda>g2. Some (Inr (Delivered, g2))))"

text \<open>The loop before the return to user mode, \<^verbatim>\<open>while (i = CURSIG(p)) postsig(i)\<close>, up to its end, an exit or a stop.\<close>

partial_function (option) deliver :: "nat \<Rightarrow> bool \<Rightarrow> bool \<Rightarrow> sigsys \<Rightarrow> (sfault + pres \<times> sigsys) option" where
  "deliver p acc core g =
     (case cursig p g of
        None \<Rightarrow> None
      | Some (Inl f) \<Rightarrow> Some (Inl f)
      | Some (Inr (r, g1)) \<Rightarrow>
          (case r of
             Is_none \<Rightarrow> Some (Inr (Delivered, g1))
           | Is_sig n \<Rightarrow>
               (case postsig p n acc core g1 of
                  None \<Rightarrow> None
                | Some (Inl f) \<Rightarrow> Some (Inl f)
                | Some (Inr (x, g2)) \<Rightarrow> if x = Delivered then deliver p acc core g2 else Some (Inr (x, g2)))
           | _ \<Rightarrow> Some (Inr (Stops r, g1))))"

declare deliver.simps [code]

text \<open>
  \<open>tsleep\<close> with its first \<^verbatim>\<open>CURSIG\<close>: the process is on the sleep queue while \<open>issignal\<close> runs. The result is that of \<open>CURSIG\<close>; when the
  process stops there, the rest of \<open>tsleep\<close> runs after it is continued.
\<close>

definition tsleep_sig :: "nat \<Rightarrow> u32 \<Rightarrow> nat \<Rightarrow> bool \<Rightarrow> int \<Rightarrow> sigsys \<Rightarrow> (sfault + isres \<times> sigsys) option" where
  [kern_defs]: "tsleep_sig p ident priority catch timo g =
     sthen (on_sch (\<lambda>s. Some (tsleep_enter p ident priority timo s)) g) (\<lambda>g1.
       if \<not> catch then sthen (tsleep_wait_s p False 0 g1) (\<lambda>g2. Some (Inr (Is_none, g2)))
       else sthen (cursig p (upd_sch p (\<lambda>r. r\<lparr>p_flag := insert P_SINTR (p_flag r)\<rparr>) g1)) (\<lambda>(r, g2).
         case r of
           Is_none \<Rightarrow> sthen (tsleep_wait_s p True 0 g2) (\<lambda>g3. Some (Inr (r, g3)))
         | Is_sig n \<Rightarrow> sthen (tsleep_wait_s p True n g2) (\<lambda>g3. Some (Inr (r, g3)))
         | _ \<Rightarrow> Some (Inr (r, g2))))"

text \<open>
  The end of \<open>tsleep\<close> with its second \<^verbatim>\<open>CURSIG\<close>; \<open>sig\<close> is the signal that the first one returned. The result is \<open>None\<close> when the process
  stops there.
\<close>

definition tsleep_sig_resume :: "nat \<Rightarrow> bool \<Rightarrow> int \<Rightarrow> nat \<Rightarrow> sigsys \<Rightarrow> (sfault + tres option \<times> sigsys) option" where
  [kern_defs]: "tsleep_sig_resume p catch timo sig g =
     (let intr = (\<lambda>n. ps_sigintr (p_sigacts (sgp g p)) AND sigmask n \<noteq> 0) in
      case tsleep_resume p catch timo sig 0 intr (sch g) of
        (res, s1) \<Rightarrow>
          if res = Tfail EWOULDBLOCK \<or> \<not> catch \<or> sig \<noteq> 0 then Some (Inr (Some res, g\<lparr>sch := s1\<rparr>))
          else sthen (cursig p (g\<lparr>sch := s1\<rparr>)) (\<lambda>(r, g2).
            Some (Inr (case r of
                Is_none \<Rightarrow> Some Awake
              | Is_sig n \<Rightarrow> Some (Tfail (if intr n then EINTR else ERESTART))
              | _ \<Rightarrow> None, g2))))"

text \<open>\<open>sigsuspend\<close> up to its sleep on the address \<open>chan\<close> of the signal actions.\<close>

definition sigsuspend :: "nat \<Rightarrow> u32 \<Rightarrow> u32 \<Rightarrow> sigsys \<Rightarrow> (sfault + isres \<times> sigsys) option" where
  [kern_defs]: "sigsuspend p msk chan g =
     tsleep_sig p chan 40 True 0 (upd_sig p (\<lambda>q. q\<lparr>p_sigacts := (p_sigacts q)\<lparr>ps_oldmask := p_sigmask q,
         ps_flags := insert SAS_OLDMASK (ps_flags (p_sigacts q))\<rparr>, p_sigmask := msk AND NOT sigcantmask\<rparr>) g)"

end
