(* ===== verification/Schedcur.thy ===== *)
theory Schedcur
  imports Sched
begin

text \<open>
  The sleep and run queue operations do not look at \<^verbatim>\<open>curproc\<close>: what they do is the same whichever process runs. A process that is about
  to leave the processor (it has stopped itself or is on a sleep queue already) can so be treated as if it had left.
\<close>

abbreviation with_scur :: "nat option \<Rightarrow> ssys \<Rightarrow> ssys" where "with_scur x s \<equiv> s\<lparr>scur := x\<rparr>"

lemma scur_simps [simp]:
  "deref (with_scur x s) q = deref s q" "assign q v (with_scur x s) = with_scur x (assign q v s)" "on_runq (with_scur x s) p = on_runq s p"
  "supd p f (with_scur x s) = with_scur x (supd p f s)" "sq_unlink q p c (with_scur x s) = with_scur x (sq_unlink q p c s)"
  "setrunqueue p (with_scur x s) = map_sum id (with_scur x) (setrunqueue p s)" "updatepri_s p (with_scur x s) = with_scur x (updatepri_s p s)"
proof -
  show as: "assign q v (with_scur x s) = with_scur x (assign q v s)" for q v s by (cases q) simp_all
  show su: "supd p f (with_scur x s) = with_scur x (supd p f s)" for p f s by (simp add: supd_def)
  show "sq_unlink q p c (with_scur x s) = with_scur x (sq_unlink q p c s)" by (simp add: sq_unlink_def as su Let_def supd_def)
  show "updatepri_s p (with_scur x s) = with_scur x (updatepri_s p s)" by (simp add: updatepri_s_def split: prod.split)
  show "deref (with_scur x s) q = deref s q" by (cases q) simp_all
  show rq: "on_runq (with_scur x s) p = on_runq s p" for p by (simp add: on_runq_def)
  show "setrunqueue p (with_scur x s) = map_sum id (with_scur x) (setrunqueue p s)" by (simp add: setrunqueue_def rq Let_def)
qed

lemma wakeup_run_cur: "wakeup_run p (with_scur x s) = map_sum id (with_scur x) (wakeup_run p s)"
  by (simp add: wakeup_run_def Let_def)

lemma wakeup_from_cur:
  assumes "wakeup_from c q s = Some y"
  shows "wakeup_from c q (with_scur x s) = Some (map_sum id (with_scur x) y)"
proof (rule wakeup_from.raw_induct [where P = "\<lambda>c q s y. wakeup_from c q (with_scur x s) = Some (map_sum id (with_scur x) y)"])
  show "wakeup_from c q s = Some y" by (rule assms)
next
  fix wk c q s y
  assume ih: "\<And>c q s y. wk c q s = Some y \<Longrightarrow> wakeup_from c q (with_scur x s) = Some (map_sum id (with_scur x) y)"
    and b: "(case deref s q of
        None \<Rightarrow> Some (Inr s)
      | Some p \<Rightarrow>
          if on_runq s p \<or> p_stat (sprocs s p) \<noteq> SSLEEP \<and> p_stat (sprocs s p) \<noteq> SSTOP then Some (Inl Panic_wakeup)
          else if p_wchan (sprocs s p) = Some c then
            if p_stat (sprocs s p) = SSLEEP then
              (case wakeup_run p (sq_unlink q p c s) of
                 Inl f \<Rightarrow> Some (Inl f)
               | Inr s1 \<Rightarrow>
                   if P_INMEM \<in> p_flag (sprocs s1 p)
                   then wk c (Sq_head (lookup c)) (s1\<lparr>sresched := True\<rparr>)
                   else Option.bind (wk (proc0 s1) (Sq_head (lookup (proc0 s1))) s1)
                     (\<lambda>r. case r of Inl f \<Rightarrow> Some (Inl f) | Inr s2 \<Rightarrow> wk c (Sq_head (lookup c)) s2))
            else wk c q (sq_unlink q p c s)
          else wk c (P_forw p) s) = Some y"
  show "wakeup_from c q (with_scur x s) = Some (map_sum id (with_scur x) y)"
  proof (cases "deref s q")
    case None
    then show ?thesis using b by (subst wakeup_from.simps) auto
  next
    case (Some p)
    define bad where bad: "bad = (on_runq s p \<or> p_stat (sprocs s p) \<noteq> SSLEEP \<and> p_stat (sprocs s p) \<noteq> SSTOP)"
    note w = wakeup_from.simps [of c q "with_scur x s", simplified Some scur_simps option.case, simplified, folded bad]
    note b' = b [unfolded Some option.case, folded bad]
    show ?thesis
    proof (cases "bad \<or> p_wchan (sprocs s p) \<noteq> Some c \<or> p_stat (sprocs s p) \<noteq> SSLEEP")
      case True
      then show ?thesis using b' ih unfolding w by (auto split: if_splits)
    next
      case False
      show ?thesis
      proof (cases "wakeup_run p (sq_unlink q p c s)")
        case (Inl f)
        then have "y = Inl f" using False b' by simp
        then show ?thesis using False Inl unfolding w by (simp add: wakeup_run_cur)
      next
        case (Inr s1)
        show ?thesis
        proof (cases "P_INMEM \<in> p_flag (sprocs s1 p)")
          case True
          have cm: "(with_scur x s1)\<lparr>sresched := True\<rparr> = with_scur x (s1\<lparr>sresched := True\<rparr>)" by simp
          show ?thesis using True False Inr b' ih [of c "Sq_head (lookup c)" "s1\<lparr>sresched := True\<rparr>" y] unfolding w by (simp add: wakeup_run_cur cm)
        next
          case no: False
          then obtain z where z: "wk (proc0 s1) (Sq_head (lookup (proc0 s1))) s1 = Some z"
            "(case z of Inl f \<Rightarrow> Some (Inl f) | Inr s2 \<Rightarrow> wk c (Sq_head (lookup c)) s2) = Some y" using False Inr b' by (auto simp: bind_eq_Some_conv)
          then show ?thesis using False Inr no ih [OF z(1)] ih unfolding w by (cases z) (auto simp: wakeup_run_cur)
        qed
      qed
    qed
  qed
qed


lemma wakeup_cur: "wakeup c s = Some y \<Longrightarrow> wakeup c (with_scur x s) = Some (map_sum id (with_scur x) y)"
  unfolding wakeup_def by (rule wakeup_from_cur)

lemma sq_find_cur:
  assumes "sq_find p h s = Some y"
  shows "sq_find p h (with_scur x s) = Some y"
proof (rule sq_find.raw_induct [where P = "\<lambda>p h s y. sq_find p h (with_scur x s) = Some y", OF _ assms])
  fix sf p h s y
  assume "\<And>p h s y. sf p h s = Some y \<Longrightarrow> sq_find p h (with_scur x s) = Some y"
    "(case deref s h of None \<Rightarrow> Some (Inl Null_link) | Some r \<Rightarrow> if r = p then Some (Inr h) else sf p (P_forw r) s) = Some y"
  then show "sq_find p h (with_scur x s) = Some y" by (subst sq_find.simps) (auto split: option.splits if_splits)
qed

lemma unsleep_cur:
  assumes "unsleep p s = Some y"
  shows "unsleep p (with_scur x s) = Some (map_sum id (with_scur x) y)"
proof (cases "p_wchan (sprocs s p)")
  case (Some c)
  then obtain z where "sq_find p (Sq_head (lookup c)) s = Some z" "y = map_sum id (\<lambda>hp. sq_unlink hp p c s) z"
    using assms by (auto simp: unsleep_def)
  then show ?thesis using Some sq_find_cur [of p "Sq_head (lookup c)" s z x] by (cases z) (auto simp: unsleep_def)
qed (use assms in \<open>auto simp: unsleep_def\<close>)

lemma setrunnable_run_cur:
  assumes "setrunnable_run p s = Some y"
  shows "setrunnable_run p (with_scur x s) = Some (map_sum id (with_scur x) y)"
proof -
  define s2 where s2: "s2 = supd p (\<lambda>r. r\<lparr>p_stat := SRUN\<rparr>) s"
  define z where z: "z = (if P_INMEM \<in> p_flag (sprocs s2 p) then setrunqueue p s2 else Inr s2)"
  have e: "setrunnable_run p s = sthen (Some z) (\<lambda>s3. let s4 = supd p (\<lambda>r. r\<lparr>p_slptime := 0\<rparr>) (updatepri_s p s3) in
      if P_INMEM \<notin> p_flag (sprocs s2 p) then wakeup (proc0 s4) s4
      else Some (Inr (s4\<lparr>sresched := sresched s4 \<or> p_priority (sprocs s4 p) < scurpri s4\<rparr>)))"
    by (simp add: setrunnable_run_def s2 z Let_def)
  have e': "setrunnable_run p (with_scur x s) = sthen (Some (map_sum id (with_scur x) z)) (\<lambda>s3. let s4 = supd p (\<lambda>r. r\<lparr>p_slptime := 0\<rparr>) (updatepri_s p s3) in
      if P_INMEM \<notin> p_flag (sprocs s2 p) then wakeup (proc0 s4) s4
      else Some (Inr (s4\<lparr>sresched := sresched s4 \<or> p_priority (sprocs s4 p) < scurpri s4\<rparr>)))"
    by (simp add: setrunnable_run_def s2 z Let_def)
  show ?thesis
  proof (cases z)
    case (Inr s3)
    then show ?thesis using assms wakeup_cur unfolding e e' by (auto simp: sthen_def Let_def split: if_splits)
  qed (use assms in \<open>auto simp: e e' sthen_def\<close>)
qed

lemma setrunnable_cur:
  assumes "setrunnable p s = Some y"
  shows "setrunnable p (with_scur x s) = Some (map_sum id (with_scur x) y)"
proof -
  have un: "sthen (unsleep p (with_scur x s)) (setrunnable_run p) = Some (map_sum id (with_scur x) y)"
    if un: "sthen (unsleep p s) (setrunnable_run p) = Some y"
  proof -
    obtain z where z: "unsleep p s = Some z" using un by (cases "unsleep p s") (auto simp: sthen_def)
    show ?thesis using un unsleep_cur [OF z, of x] setrunnable_run_cur by (cases z) (auto simp: sthen_def z)
  qed
  show ?thesis using assms un setrunnable_run_cur [of p s y x] unfolding setrunnable_def
    by (cases "p_stat (sprocs s p)") (auto simp: sthen_def)
qed

end
