(* ===== verification/Schedsys.thy ===== *)
theory Schedsys
  imports Schedcur
begin

text \<open>
  The scheduler as a whole: \<open>mi_switch\<close> with the signal for the limit on CPU time, the routines that give up the processor, swapping,
  \<open>schedcpu\<close>, sequences of all these calls, and timeouts.
\<close>

section \<open>Leaving the processor\<close>

lemma sched_nice: "sched_ok s \<Longrightarrow> sched_ok (supd p (\<lambda>r. r\<lparr>p_nice := k\<rparr>) s)"
  by (rule sched_supd) (use sched_usrpri [of s p] in auto)

lemma sched_pri:
  assumes "sched_ok s" "p_stat (sprocs s p) \<noteq> SRUN" "n < 128"
  shows "sched_ok (supd p (\<lambda>r. r\<lparr>p_priority := n\<rparr>) s)"
proof -
  let ?s = "supd p (\<lambda>r. r\<lparr>p_priority := n\<rparr>) s"
  obtain Q where q: "sleep_rep s Q" "\<forall>x. proc_ok s x" "\<And>p. scur s = Some p \<Longrightarrow> p_stat (sprocs s p) = SRUN \<and> P_INMEM \<in> p_flag (sprocs s p)"
    using assms(1) by (rule sched_okE) blast
  have "proc_ok ?s p" using q(2) [rule_format, of p] assms(2,3) by (simp add: proc_ok_def Let_def)
  then have "\<forall>x. proc_ok ?s x" by (rule procs_change [OF q(2), rotated 3]) simp_all
  moreover have "sleep_rep ?s Q" using q(1) sleep_rep_cong [of ?s s Q] by simp
  ultimately show ?thesis by (intro sched_okI) (use q(3) in auto)
qed

text \<open>
  The effect of a signal on a process, seen without a running process. \<open>wakes_not\<close> says that the signal does not end a sleep.
\<close>

definition wakes_not :: "bool \<times> sig_effect \<Rightarrow> bool" where
  "wakes_not e \<longleftrightarrow> snd e = Sig_pends \<or> snd e = Sig_unsleeps"

lemma psignal_runfast_ok:
  assumes "sched_ok s" "p_stat (sprocs s p) = SSTOP \<or> p_stat (sprocs s p) = SSLEEP"
  shows "\<exists>s'. psignal_runfast p s = Some (Inr s') \<and> sched_ok s' \<and> spares p s s' \<and> p_flag (sprocs s' p) = p_flag (sprocs s p) \<and> p_wchan (sprocs s' p) = None"
proof -
  let ?f = "\<lambda>r. r\<lparr>p_priority := PUSER\<rparr>"
  let ?s = "if PUSER < p_priority (sprocs s p) then supd p ?f s else s"
  have "sched_ok ?s" "p_stat (sprocs ?s p) = SSTOP \<or> p_stat (sprocs ?s p) = SSLEEP" using assms sched_pri [OF assms(1), of p PUSER] by auto
  then obtain s' where "setrunnable p ?s = Some (Inr s')" "sched_ok s'" "made_run (sprocs ?s p) (sprocs s' p)" "spares p ?s s'"
    using setrunnable_ok by blast
  then show ?thesis unfolding psignal_runfast_def by (auto simp: made_run_def spares_def split: if_splits)
qed

lemma psignal_effect_ok:
  assumes "sched_ok s"
  shows "\<exists>s'. psignal_effect e p s = Some (Inr s') \<and> sched_ok s' \<and> spares p s s' \<and> p_flag (sprocs s' p) = p_flag (sprocs s p) \<and>
    (p_wchan (sprocs s' p) = p_wchan (sprocs s p) \<or> p_wchan (sprocs s' p) = None) \<and>
    (wakes_not e \<and> p_stat (sprocs s p) \<noteq> SSTOP \<longrightarrow> (\<exists>k. s' = supd p (\<lambda>r. r\<lparr>p_nice := k\<rparr>) s))"
proof -
  define k where "k = (if fst e then 0 else p_nice (sprocs s p))"
  define s1 where s1: "s1 = (if fst e then supd p (\<lambda>r. r\<lparr>p_nice := 0\<rparr>) s else s)"
  have s1k: "s1 = supd p (\<lambda>r. r\<lparr>p_nice := k\<rparr>) s" by (simp add: s1 k_def supd_def)
  have ok: "sched_ok s1" unfolding s1k by (rule sched_nice [OF assms])
  have same: "spares p s s1" "p_flag (sprocs s1 p) = p_flag (sprocs s p)" "p_wchan (sprocs s1 p) = p_wchan (sprocs s p)" "p_stat (sprocs s1 p) = p_stat (sprocs s p)"
    by (simp_all add: s1k spares_def)
  have tr: "spares p s s'" if "spares p s1 s'" for s' using that unfolding s1k by (auto simp: spares_def)
  note st = assms same tr
  consider (stay) "psignal_effect e p s = Some (Inr s1)"
    | (un) "psignal_effect e p s = unsleep p s1" "p_stat (sprocs s p) = SSTOP"
    | (run) "psignal_effect e p s = setrunnable p s1" "p_stat (sprocs s p) = SSTOP \<or> p_stat (sprocs s p) = SSLEEP" "\<not> wakes_not e"
    | (fast) "psignal_effect e p s = psignal_runfast p s1" "p_stat (sprocs s p) = SSTOP \<or> p_stat (sprocs s p) = SSLEEP" "\<not> wakes_not e"
    unfolding psignal_effect_def s1 [symmetric] Let_def same(4) wakes_not_def
    by (cases "snd e"; cases "p_stat (sprocs s p)") simp_all
  then show ?thesis
  proof cases
    case stay
    then show ?thesis using ok same s1k by auto
  next
    case un
    then obtain t where "unsleep p s1 = Some (Inr t)" "sched_ok t" "same_rest s1 t" "sprocs t = (sprocs s1)(p := (sprocs s1 p)\<lparr>p_wchan := None\<rparr>)"
      using unsleep_stopped [OF ok, of p] same(4) by auto
    then show ?thesis using un same tr [of t] by (auto simp: same_rest_def spares_def)
  next
    case run
    then obtain t where "setrunnable p s1 = Some (Inr t)" "sched_ok t" "made_run (sprocs s1 p) (sprocs t p)" "spares p s1 t"
      using setrunnable_ok [OF ok, of p] same(4) by auto
    then show ?thesis using run same tr [of t] by (auto simp: made_run_def)
  next
    case fast
    then obtain t where "psignal_runfast p s1 = Some (Inr t)" "sched_ok t" "spares p s1 t" "p_flag (sprocs t p) = p_flag (sprocs s1 p)" "p_wchan (sprocs t p) = None"
      using psignal_runfast_ok [OF ok, of p] same(4) by auto
    then show ?thesis using fast same tr [of t] by auto
  qed
qed

lemma psignal_effect_cur:
  assumes "psignal_effect e p s = Some y"
  shows "psignal_effect e p (with_scur x s) = Some (map_sum id (with_scur x) y)"
proof -
  have "psignal_runfast p (with_scur x t) = Some (map_sum id (with_scur x) z)" if "psignal_runfast p t = Some z" for t z
    using that setrunnable_cur [of p _ z x] unfolding psignal_runfast_def by (auto split: if_splits)
  then show ?thesis using assms setrunnable_cur [of p _ y x] unsleep_cur [of p _ y x] unfolding psignal_effect_def Let_def
    by (auto split: sig_effect.splits if_splits)
qed

text \<open>\<open>in_limit\<close>: the process gets no signal for its CPU time when it leaves the processor.\<close>

definition in_limit :: "ssys \<Rightarrow> proc \<Rightarrow> bool" where
  "in_limit s r \<longleftrightarrow> snd (mi_switch_time (snow s) (sruntime s) r) = No_sig"

lemma mi_switch_ok:
  assumes "sched_ok (with_scur None s)" "scur s = Some p"
  shows "\<exists>s'. mi_switch e p s = Some (Inr s') \<and> sched_ok s' \<and> scallq s' = scallq s \<and> proc0 s' = proc0 s \<and>
    (\<forall>x. x \<noteq> p \<longrightarrow> sprocs s' x = sprocs s x \<or> woken (sprocs s x) (sprocs s' x)) \<and> p_flag (sprocs s' p) = p_flag (sprocs s p) \<and>
    (p_wchan (sprocs s' p) = p_wchan (sprocs s p) \<or> p_wchan (sprocs s' p) = None) \<and>
    (in_limit s (sprocs s p) \<or> wakes_not e \<and> p_stat (sprocs s p) \<noteq> SSTOP \<longrightarrow> (\<forall>x. x \<noteq> p \<longrightarrow> sprocs s' x = sprocs s x) \<and>
       p_stat (sprocs s' p) = p_stat (sprocs s p) \<and> p_wchan (sprocs s' p) = p_wchan (sprocs s p))"
proof -
  obtain q sig where q: "mi_switch_time (snow s) (sruntime s) (sprocs s p) = (q, sig)" by fastforce
  note k = mi_switch_time_keeps [where tv = "snow s" and rt = "sruntime s" and r = "sprocs s p", unfolded q fst_conv]
  let ?s1 = "supd p (\<lambda>_. q) s"
  have ok1: "sched_ok (with_scur None ?s1)"
    using sched_supd [OF assms(1), of "\<lambda>_. q" p] k sched_usrpri [OF assms(1), of p] by simp
  define r where r: "r = (if sig = No_sig then Some (Inr ?s1) else psignal_effect e p ?s1)"
  obtain h where h: "psignal_effect e p (with_scur None ?s1) = Some (Inr h)" "sched_ok h" "spares p (with_scur None ?s1) h" "p_flag (sprocs h p) = p_flag q"
    "p_wchan (sprocs h p) = p_wchan q \<or> p_wchan (sprocs h p) = None"
    "wakes_not e \<and> p_stat q \<noteq> SSTOP \<longrightarrow> (\<exists>k. h = supd p (\<lambda>r. r\<lparr>p_nice := k\<rparr>) (with_scur None ?s1))"
    using psignal_effect_ok [OF ok1, of e p] by auto
  have cur: "with_scur (Some p) (with_scur None ?s1) = ?s1" using assms(2) by (simp add: supd_def)
  have eff: "psignal_effect e p ?s1 = Some (Inr (with_scur (Some p) h))" using psignal_effect_cur [OF h(1), of "Some p"] cur by simp
  define s2 where s2: "s2 = (if sig = No_sig then ?s1 else with_scur (Some p) h)"
  have m: "mi_switch e p s = Some (mi_switch_go p sig s2)" using eff q by (simp add: mi_switch_def sthen_def s2)
  have hn: "scur h = None" using h(3) by (simp add: spares_def)
  then have "with_scur None h = h" by simp
  then have ok2: "sched_ok (with_scur None s2)" using ok1 h(2) by (simp add: s2)
  have p2: "scallq s2 = scallq s" "proc0 s2 = proc0 s" "\<forall>x. x \<noteq> p \<longrightarrow> sprocs s2 x = sprocs s x \<or> woken (sprocs s x) (sprocs s2 x)"
    "p_flag (sprocs s2 p) = p_flag (sprocs s p)" "p_wchan (sprocs s2 p) = p_wchan (sprocs s p) \<or> p_wchan (sprocs s2 p) = None"
    using h(3-5) k by (auto simp: s2 spares_def)
  have still: "(\<forall>x. x \<noteq> p \<longrightarrow> sprocs s2 x = sprocs s x) \<and> p_stat (sprocs s2 p) = p_stat (sprocs s p) \<and> p_wchan (sprocs s2 p) = p_wchan (sprocs s p)"
    if "in_limit s (sprocs s p) \<or> wakes_not e \<and> p_stat (sprocs s p) \<noteq> SSTOP"
    using that h(6) k q by (auto simp: s2 in_limit_def)
  obtain s' where "mi_switch_go p sig s2 = Inr s'" "sched_ok s'" "scallq s' = scallq s2" "proc0 s' = proc0 s2" "\<forall>x. x \<noteq> p \<longrightarrow> sprocs s' x = sprocs s2 x"
    "p_stat (sprocs s' p) = p_stat (sprocs s2 p)" "p_wchan (sprocs s' p) = p_wchan (sprocs s2 p)" "p_flag (sprocs s' p) = p_flag (sprocs s2 p)"
    using mi_switch_go_ok [OF ok2, of p sig] by blast
  then show ?thesis using m p2 still by auto
qed

lemma in_limit_cong: "p_rtime r' = p_rtime r \<Longrightarrow> rlim_cpu_cur r' = rlim_cpu_cur r \<Longrightarrow> rlim_cpu_max r' = rlim_cpu_max r \<Longrightarrow>
    snow s' = snow s \<Longrightarrow> sruntime s' = sruntime s \<Longrightarrow> in_limit s' r' = in_limit s r"
  by (simp add: in_limit_def mi_switch_time_def Let_def split_beta)

text \<open>The running process goes to sleep.\<close>

lemma enter_ok:
  assumes "sched_ok s" "scur s = Some p" "p_wchan (f (sprocs s p)) = Some ident"
  shows "\<exists>Q. sleep_rep (sq_insert p ident (supd p f s)) Q" "qs (sq_insert p ident (supd p f s)) = qs s"
    "scur (sq_insert p ident (supd p f s)) = scur s" "scallq (sq_insert p ident (supd p f s)) = scallq s"
    "sprocs (sq_insert p ident (supd p f s)) = (sprocs s)(p := f (sprocs s p))" "\<not> on_runq s p" "p_stat (sprocs s p) = SRUN"
    "p_wchan (sprocs s p) = None" "proc0 (sq_insert p ident (supd p f s)) = proc0 s"
    "snow (sq_insert p ident (supd p f s)) = snow s" "sruntime (sq_insert p ident (supd p f s)) = sruntime s"
proof -
  obtain Q where q: "sleep_rep s Q" "\<forall>x. proc_ok s x" "\<And>p. scur s = Some p \<Longrightarrow> p_stat (sprocs s p) = SRUN \<and> P_INMEM \<in> p_flag (sprocs s p)"
    using assms(1) by (rule sched_okE) blast
  show w: "p_wchan (sprocs s p) = None" using q(2) [rule_format, of p] assms(2) by (simp add: proc_ok_def Let_def)
  show "\<exists>Q. sleep_rep (sq_insert p ident (supd p f s)) Q" using insert_rep [OF q(1) w, of f ident] assms(3) by blast
  show "\<not> on_runq s p" using proc_ok_off [of s p] q(2) assms(2) by blast
  show "p_stat (sprocs s p) = SRUN" using q(3) assms(2) by blast
qed (simp_all add: sq_insert_def Let_def)

lemma leave_cpu:
  assumes "sched_ok s" "scur s = Some p" "qs u = qs s" "scur u = scur s" "\<And>x. x \<noteq> p \<Longrightarrow> sprocs u x = sprocs s x"
    "p_stat (sprocs u p) = SSLEEP \<and> p_wchan (sprocs u p) \<noteq> None \<or> p_stat (sprocs u p) = SSTOP"
    "p_priority (sprocs u p) < 128" "p_usrpri (sprocs u p) < 128"
  shows "\<forall>x. proc_ok (u\<lparr>scur := None\<rparr>) x"
proof -
  have q: "\<forall>x. proc_ok s x" using assms(1) by (auto simp: sched_ok_def)
  have "count_list (qs s i) p = 0" for i using q [rule_format, of p] assms(2) by (simp add: proc_ok_def Let_def)
  then have "proc_ok (u\<lparr>scur := None\<rparr>) p" using assms(3,6-8) by (auto simp: proc_ok_def Let_def)
  then show ?thesis by (rule procs_change [OF q, rotated 3]) (use assms(2-5) in auto)
qed

lemma left_ok:
  assumes "sched_ok s" "scur s = Some p" "qs u = qs s" "scur u = scur s" "\<And>x. x \<noteq> p \<Longrightarrow> sprocs u x = sprocs s x" "sleep_rep u Q"
    "p_stat (sprocs u p) = SSLEEP \<and> p_wchan (sprocs u p) \<noteq> None \<or> p_stat (sprocs u p) = SSTOP"
    "p_priority (sprocs u p) < 128" "p_usrpri (sprocs u p) < 128"
  shows "sched_ok (with_scur None u)"
proof (rule sched_okI)
  show "sleep_rep (with_scur None u) Q" using assms(6) sleep_rep_cong [of "with_scur None u" u Q] by simp
  show "\<forall>x. proc_ok (with_scur None u) x" by (rule leave_cpu [OF assms(1-5)]) (use assms(7-9) in auto)
qed simp

lemma sleep_block_ok:
  assumes "sched_ok s" "scur s = Some p" "qs u = qs s" "scur u = scur s" "sprocs u = (sprocs s)(p := r)" "sleep_rep u Q"
    "p_wchan r \<noteq> None" "p_priority r < 128" "p_usrpri r < 128"
  shows "\<exists>s'. sleep_block e p u = Some (Inr s') \<and> sched_ok s' \<and> scallq s' = scallq u \<and> proc0 s' = proc0 u \<and>
    (in_limit u r \<or> wakes_not e \<longrightarrow> p_stat (sprocs s' p) = SSLEEP \<and> p_wchan (sprocs s' p) = p_wchan r)"
proof -
  let ?u = "supd p (\<lambda>r. r\<lparr>p_stat := SSLEEP\<rparr>) u"
  have "sleep_rep ?u Q" using assms(6) sleep_rep_cong [of ?u u Q] by simp
  then have ok: "sched_ok (with_scur None ?u)" by (intro left_ok [OF assms(1,2)]) (use assms in auto)
  have "in_limit ?u (sprocs ?u p) = in_limit u r" by (rule in_limit_cong) (simp_all add: assms(5))
  then show ?thesis using mi_switch_ok [OF ok, of p e] assms(2,4,5) by (auto simp: sleep_block_def)
qed

lemma tsleep_enter_ok:
  assumes "sched_ok s" "scur s = Some p" "ident \<noteq> 0" "timo \<noteq> 0 \<Longrightarrow> timeout endtsleep_fn p timo (scallq s) = Some q"
  shows "\<exists>s1 Q. tsleep_enter p ident priority timo s = Inr s1 \<and> sleep_rep s1 Q \<and> qs s1 = qs s \<and> scur s1 = scur s \<and> proc0 s1 = proc0 s \<and>
    snow s1 = snow s \<and> sruntime s1 = sruntime s \<and> scallq s1 = (if timo = 0 then scallq s else q) \<and>
    sprocs s1 = (sprocs s)(p := (sprocs s p)\<lparr>p_wchan := Some ident, p_slptime := 0, p_priority := priority mod 256\<rparr>)"
proof -
  let ?f = "\<lambda>r. r\<lparr>p_wchan := Some ident, p_slptime := 0, p_priority := priority mod 256\<rparr>"
  let ?s1 = "sq_insert p ident (supd p ?f s)"
  have "p_wchan (?f (sprocs s p)) = Some ident" by simp
  note e = enter_ok [where f = ?f, OF assms(1,2) this]
  obtain Q where q: "sleep_rep ?s1 Q" using e(1) by blast
  have "tsleep_enter p ident priority timo s = Inr (if timo = 0 then ?s1 else ?s1\<lparr>scallq := q\<rparr>)"
    using assms(3,4) e(4,6,7) by (simp add: tsleep_enter_def Let_def)
  moreover have "sleep_rep (?s1\<lparr>scallq := q\<rparr>) Q" using q sleep_rep_cong [of "?s1\<lparr>scallq := q\<rparr>" ?s1 Q] by simp
  ultimately show ?thesis using q e(2-5,9-11) by (intro exI [of _ "if timo = 0 then ?s1 else ?s1\<lparr>scallq := q\<rparr>"] exI [of _ Q]) simp
qed

lemma tsleep_ok:
  assumes "sched_ok s" "scur s = Some p" "ident \<noteq> 0" "timo \<noteq> 0 \<Longrightarrow> timeout endtsleep_fn p timo (scallq s) = Some q" "priority mod 256 < 128"
  shows "\<exists>s'. tsleep e p ident priority catch timo sig s = Some (Inr s') \<and> sched_ok s' \<and>
    scallq s' = (if timo = 0 then scallq s else q) \<and> proc0 s' = proc0 s \<and>
    (catch \<and> sig \<noteq> 0 \<longrightarrow> scur s' = Some p \<and> p_stat (sprocs s' p) = SRUN \<and> p_wchan (sprocs s' p) = None \<and>
       (\<forall>x. x \<noteq> p \<longrightarrow> sprocs s' x = sprocs s x) \<and> p_flag (sprocs s' p) = insert P_SINTR (p_flag (sprocs s p))) \<and>
    (\<not> (catch \<and> sig \<noteq> 0) \<and> (in_limit s (sprocs s p) \<or> wakes_not e) \<longrightarrow> p_stat (sprocs s' p) = SSLEEP \<and> p_wchan (sprocs s' p) = Some ident)"
proof -
  let ?r = "(sprocs s p)\<lparr>p_wchan := Some ident, p_slptime := 0, p_priority := priority mod 256\<rparr>"
  obtain s1 Q where s1: "tsleep_enter p ident priority timo s = Inr s1" "sleep_rep s1 Q" "qs s1 = qs s" "scur s1 = scur s" "proc0 s1 = proc0 s" "snow s1 = snow s" "sruntime s1 = sruntime s"
    "scallq s1 = (if timo = 0 then scallq s else q)" "sprocs s1 = (sprocs s)(p := ?r)"
    using tsleep_enter_ok [OF assms(1-4)] by blast
  let ?g = "\<lambda>r. r\<lparr>p_flag := insert P_SINTR (p_flag r)\<rparr>"
  define u where u: "u = (if catch then supd p ?g s1 else s1)"
  define r where r: "r = (if catch then ?g ?r else ?r)"
  have up: "sleep_rep u Q" "qs u = qs s" "scur u = scur s" "scallq u = scallq s1" "proc0 u = proc0 s" "sprocs u = (sprocs s)(p := r)"
    "in_limit u r = in_limit s (sprocs s p)"
    using s1 sleep_rep_cong [of "supd p ?g s1" s1 Q] in_limit_cong [of r "sprocs s p" u s] by (simp_all add: u r)
  have t: "tsleep e p ident priority catch timo sig s = tsleep_wait e p catch sig u" by (simp add: tsleep_def sthen_def s1(1) u)
  have rp: "p_wchan r = Some ident" "p_priority r < 128" "p_usrpri r < 128" "p_stat r = p_stat (sprocs s p)"
    "P_INMEM \<in> p_flag r \<longleftrightarrow> P_INMEM \<in> p_flag (sprocs s p)" "p_flag r = (if catch then insert P_SINTR (p_flag (sprocs s p)) else p_flag (sprocs s p))"
    using assms(5) sched_usrpri [OF assms(1), of p] by (simp_all add: r)
  show ?thesis
  proof (cases "catch \<and> sig \<noteq> 0")
    case False
    then have "tsleep_wait e p catch sig u = sleep_block e p u" using up(6) rp(1) by (auto simp: tsleep_wait_def)
    moreover obtain s' where "sleep_block e p u = Some (Inr s')" "sched_ok s'" "scallq s' = scallq u" "proc0 s' = proc0 u"
      "in_limit u r \<or> wakes_not e \<longrightarrow> p_stat (sprocs s' p) = SSLEEP \<and> p_wchan (sprocs s' p) = p_wchan r"
      using sleep_block_ok [OF assms(1,2) up(2,3,6,1) _ rp(2,3), of e] rp(1) by auto
    ultimately show ?thesis using False t s1(8) up(4,5,7) rp(1) by auto
  next
    case True
    have q: "\<forall>x. proc_ok s x" "p_stat (sprocs s p) = SRUN" "P_INMEM \<in> p_flag (sprocs s p)" "p_wchan (sprocs s p) = None"
      using assms(1,2) enter_ok(8) [OF assms(1,2), of "\<lambda>_. r" ident] rp(1) by (auto simp: sched_ok_def)
    obtain t Q' where un: "unsleep p u = Some (Inr t)" "sleep_rep t Q'"
      "if p_wchan (sprocs u p) = None then t = u else \<exists>q c. p_wchan (sprocs u p) = Some c \<and> t = sq_unlink q p c u"
      using unsleep_rep [OF up(1)] by blast
    then have tp: "same_rest u t" "qs t = qs u" "sprocs t = (sprocs s)(p := r\<lparr>p_wchan := None\<rparr>)"
      using rp(1) up(6) unlink_same [where s = u] by auto
    let ?s' = "supd p (\<lambda>r. r\<lparr>p_stat := SRUN\<rparr>) t"
    have f: "sprocs ?s' = (sprocs s)(p := r\<lparr>p_wchan := None, p_stat := SRUN\<rparr>)" "qs ?s' = qs s" "scur ?s' = Some p" "scallq ?s' = scallq s1" "proc0 ?s' = proc0 s"
      using tp up assms(2) by (simp_all add: same_rest_def)
    have "sleep_rep ?s' Q'" using un(2) sleep_rep_cong [of ?s' t Q'] by simp
    moreover have "proc_ok ?s' p" using q(1) [rule_format, of p] rp(2,3) assms(2) f by (simp add: proc_ok_def Let_def)
    then have "\<forall>x. proc_ok ?s' x" by (rule procs_change [OF q(1), rotated 3]) (use f assms(2) in auto)
    ultimately have "sched_ok ?s'" by (intro sched_okI) (use f rp(5) q(3) in auto)
    moreover have "tsleep_wait e p catch sig u = Some (Inr ?s')" using True un(1) by (simp add: tsleep_wait_def sthen_def)
    ultimately show ?thesis using True t f s1(8) rp(6) by auto
  qed
qed

lemma sleep_call_ok:
  assumes "sched_ok s" "scur s = Some p" "ident \<noteq> 0" "priority \<le> 22"
  shows "\<exists>s'. sleep e p ident priority s = Some (Inr s') \<and> sched_ok s' \<and> scallq s' = scallq s"
proof -
  let ?f = "\<lambda>r. r\<lparr>p_wchan := Some ident, p_slptime := 0, p_priority := priority\<rparr>"
  let ?u = "sq_insert p ident (supd p ?f s)"
  have "p_wchan (?f (sprocs s p)) = Some ident" by simp
  note en = enter_ok [where f = ?f, OF assms(1,2) this]
  obtain Q where "sleep_rep ?u Q" using en(1) by blast
  from sleep_block_ok [OF assms(1,2) en(2,3,5) this, of e] obtain s' where "sleep_block e p ?u = Some (Inr s')" "sched_ok s'" "scallq s' = scallq ?u"
    using sched_usrpri [OF assms(1), of p] assms(4) by auto
  then show ?thesis using assms(3,4) en(4,6,7) by (auto simp: sleep_def)
qed

lemma stop_procs:
  assumes "\<forall>x. proc_ok s x" "p_stat (sprocs s p) = SSLEEP \<or> scur s = Some p"
    "t = supd p (\<lambda>r. r\<lparr>p_stat := SSTOP, p_flag := p_flag r - {P_WAITED}\<rparr>) s"
  shows "\<forall>x. proc_ok t x"
proof -
  have "proc_ok t p" using assms(1) [rule_format, of p] assms(2,3) by (auto simp: proc_ok_def Let_def)
  then show ?thesis by (rule procs_change [OF assms(1), rotated 3]) (use assms(3) in auto)
qed

text \<open>Stopping a sleeping process, and the running process stopping itself.\<close>

lemma stop_ok:
  assumes "sched_ok s" "p_stat (sprocs s p) = SSLEEP"
  shows "\<exists>s'. stop p parent s = Some (Inr s') \<and> sched_ok s' \<and> scallq s' = scallq s \<and>
    wk_rel {parent, proc0 s} (supd p (\<lambda>r. r\<lparr>p_stat := SSTOP, p_flag := p_flag r - {P_WAITED}\<rparr>) s) s'"
proof -
  obtain Q where q: "sleep_rep s Q" "\<forall>x. proc_ok s x" "\<And>p. scur s = Some p \<Longrightarrow> p_stat (sprocs s p) = SRUN \<and> P_INMEM \<in> p_flag (sprocs s p)"
    using assms(1) by (rule sched_okE) blast
  let ?t = "supd p (\<lambda>r. r\<lparr>p_stat := SSTOP, p_flag := p_flag r - {P_WAITED}\<rparr>) s"
  have "sleep_rep ?t Q" using q(1) sleep_rep_cong [of ?t s Q] by simp
  moreover have "\<forall>x. proc_ok ?t x" by (rule stop_procs [OF q(2) _ refl]) (use assms(2) in simp)
  ultimately have "sched_ok ?t" by (intro sched_okI) (use q(3) assms(2) in auto)
  from wakeup_sched [OF this, of parent] obtain s' where "wakeup parent ?t = Some (Inr s')" "sched_ok s'" "wk_rel {parent, proc0 s} ?t s'" by auto
  then show ?thesis using wk_rel_cur(3) [of "{parent, proc0 s}" ?t s'] by (simp add: stop_def)
qed

lemma stop_self_ok:
  assumes "sched_ok s" "scur s = Some p"
  shows "\<exists>s'. stop_self e p parent s = Some (Inr s') \<and> sched_ok s' \<and> scallq s' = scallq s"
proof -
  obtain Q where q: "sleep_rep s Q" "\<forall>x. proc_ok s x" "\<And>p. scur s = Some p \<Longrightarrow> p_stat (sprocs s p) = SRUN \<and> P_INMEM \<in> p_flag (sprocs s p)"
    using assms(1) by (rule sched_okE) blast
  let ?t = "supd p (\<lambda>r. r\<lparr>p_stat := SSTOP, p_flag := p_flag r - {P_WAITED}\<rparr>) s"
  have "sleep_rep ?t Q" using q(1) sleep_rep_cong [of ?t s Q] by simp
  moreover have "\<forall>x. proc_ok ?t x" by (rule stop_procs [OF q(2) _ refl]) (use assms(2) in simp)
  ultimately obtain u Q' where u: "wakeup parent ?t = Some (Inr u)" "sleep_rep u Q'" "\<forall>x. proc_ok u x" "wk_rel {parent, proc0 ?t} ?t u"
    using wakeup_queues_ok [of ?t Q parent] by blast
  have "p_wchan (sprocs s p) = None" using proc_ok_wchan [OF q(2) [rule_format, of p]] q(3) assms(2) by simp
  then have up: "sprocs u p = sprocs ?t p" "scur u = Some p" "scallq u = scallq s" using wk_rel_cur [OF u(4)] assms(2) by simp_all
  have "proc_ok (u\<lparr>scur := None\<rparr>) p" using u(3) [rule_format, of p] up by (simp add: proc_ok_def Let_def)
  then have "\<forall>x. proc_ok (u\<lparr>scur := None\<rparr>) x" by (rule procs_change [OF u(3), rotated 3]) (use up in auto)
  moreover have "sleep_rep (with_scur None u) Q'" using u(2) sleep_rep_cong [of "with_scur None u" u Q'] by simp
  ultimately have "sched_ok (with_scur None u)" by (intro sched_okI) auto
  from mi_switch_ok [OF this, of p e] show ?thesis using u(1) up by (auto simp: stop_self_def stop_def sthen_def)
qed

lemma continue_ok:
  assumes "sched_ok s" "p_stat (sprocs s p) = SSTOP"
  shows "\<exists>s'. continue_p p s = Some (Inr s') \<and> sched_ok s' \<and> scallq s' = scallq s"
proof (cases "p_wchan (sprocs s p) = None")
  case True
  then show ?thesis using setrunnable_ok [OF assms(1), of p] assms(2) by (auto simp: continue_p_def spares_def)
next
  case False
  obtain Q where q: "sleep_rep s Q" "\<forall>x. proc_ok s x" "\<And>p. scur s = Some p \<Longrightarrow> p_stat (sprocs s p) = SRUN \<and> P_INMEM \<in> p_flag (sprocs s p)"
    using assms(1) by (rule sched_okE) blast
  let ?t = "supd p (\<lambda>r. r\<lparr>p_stat := SSLEEP\<rparr>) s"
  have "sleep_rep ?t Q" using q(1) sleep_rep_cong [of ?t s Q] by simp
  moreover have "proc_ok ?t p" using q(2) [rule_format, of p] assms(2) False by (simp add: proc_ok_def Let_def)
  then have "\<forall>x. proc_ok ?t x" by (rule procs_change [OF q(2), rotated 3]) simp_all
  ultimately have "sched_ok ?t" by (intro sched_okI) (use q(3) assms(2) in auto)
  then show ?thesis using False by (auto simp: continue_p_def)
qed

lemma resched_user_ok:
  assumes "sched_ok s" "scur s = Some p"
  shows "\<exists>s'. resched_user e p s = Some (Inr s') \<and> sched_ok s' \<and> scallq s' = scallq s"
proof -
  obtain Q where q: "sleep_rep s Q" "\<forall>x. proc_ok s x" "\<And>p. scur s = Some p \<Longrightarrow> p_stat (sprocs s p) = SRUN \<and> P_INMEM \<in> p_flag (sprocs s p)"
    using assms(1) by (rule sched_okE) blast
  let ?s1 = "supd p (\<lambda>r. r\<lparr>p_priority := p_usrpri r\<rparr>) s"
  have s1: "sleep_rep ?s1 Q" using q(1) sleep_rep_cong [of ?s1 s Q] by simp
  have p1: "proc_ok ?s1 p" using q(2) [rule_format, of p] assms(2) by (auto simp: proc_ok_def Let_def)
  have o1: "\<forall>x. proc_ok ?s1 x" by (rule procs_change [OF q(2) _ _ _ p1]) simp_all
  show ?thesis
  proof (cases "sresched ?s1")
    case False
    have "sched_ok ?s1" by (rule sched_okI [OF s1 o1]) (use q(3) in auto)
    then show ?thesis using False by (simp add: resched_user_def)
  next
    case True
    let ?i = "p_usrpri (sprocs s p) div 4"
    let ?s2 = "?s1\<lparr>qs := (qs s)(?i := qs s ?i @ [p])\<rparr>"
    have "\<not> on_runq ?s1 p" using proc_ok_off [OF p1] assms(2) by simp
    then have "setrunqueue p ?s1 = Inr ?s2" by (simp add: setrunqueue_def Let_def)
    moreover have "sleep_rep (with_scur None ?s2) Q" using s1 sleep_rep_cong [of "with_scur None ?s2" ?s1 Q] by simp
    moreover have "proc_ok (?s2\<lparr>scur := None\<rparr>) p" using p1 q(3) assms(2) by (simp add: proc_ok_def Let_def)
    then have "\<forall>x. proc_ok (?s2\<lparr>scur := None\<rparr>) x" by (rule procs_change [OF o1, rotated 3]) (use assms(2) in auto)
    ultimately have "setrunqueue p ?s1 = Inr ?s2" "sched_ok (with_scur None ?s2)" using sched_okI [of "with_scur None ?s2" Q] by simp_all
    then show ?thesis using True mi_switch_ok [of ?s2 p e] assms(2) by (auto simp: resched_user_def sthen_def)
  qed
qed

text \<open>Swapping: \<open>p\<close> is not the running process.\<close>

lemma count_remove1: "count_list (remove1 p xs) x = (if x = p then count_list xs x - 1 else count_list xs x)"
  by (induction xs) auto

lemma swapout_ok:
  assumes "sched_ok s" "scur s \<noteq> Some p" "P_INMEM \<in> p_flag (sprocs s p)"
  shows "\<exists>s'. swapout p s = Inr s' \<and> sched_ok s' \<and> scallq s' = scallq s"
proof -
  obtain Q where q: "sleep_rep s Q" "\<forall>x. proc_ok s x" "\<And>p. scur s = Some p \<Longrightarrow> p_stat (sprocs s p) = SRUN \<and> P_INMEM \<in> p_flag (sprocs s p)"
    using assms(1) by (rule sched_okE) blast
  let ?r = "(sprocs s p)\<lparr>p_flag := p_flag (sprocs s p) - {P_INMEM}, p_swtime := 0\<rparr>" and ?i = "p_priority (sprocs s p) div 4"
  let ?run = "p_stat (sprocs s p) = SRUN"
  let ?s' = "s\<lparr>sprocs := (sprocs s)(p := ?r), qs := (if ?run then (qs s)(?i := remove1 p (qs s ?i)) else qs s)\<rparr>"
  have c: "count_list (qs s i) p = (if ?run \<and> i = ?i then 1 else 0)" for i
    using q(2) [rule_format, of p] assms(2,3) by (simp add: proc_ok_def Let_def)
  then have "?run \<Longrightarrow> qs s ?i \<noteq> []" by (metis count_list.simps(1) zero_neq_one)
  then have op: "swapout p s = Inr ?s'" by (simp add: swapout_def remrq_def supd_def Let_def)
  have "proc_ok ?s' p" using q(2) [rule_format, of p] assms(2) c by (simp add: proc_ok_def Let_def count_remove1)
  then have "\<forall>x. proc_ok ?s' x" by (rule procs_change [OF q(2), rotated 3]) (simp_all add: count_remove1)
  moreover have "sleep_rep ?s' Q" using q(1) sleep_rep_cong [of ?s' s Q] by simp
  ultimately have "sched_ok ?s'" by (intro sched_okI) (use q(3) assms(2) in auto)
  then show ?thesis using op by simp
qed

lemma swapin_ok:
  assumes "sched_ok s" "scur s \<noteq> Some p" "P_INMEM \<notin> p_flag (sprocs s p)"
  shows "\<exists>s'. swapin p s = Inr s' \<and> sched_ok s' \<and> scallq s' = scallq s"
proof -
  obtain Q where q: "sleep_rep s Q" "\<forall>x. proc_ok s x" "\<And>p. scur s = Some p \<Longrightarrow> p_stat (sprocs s p) = SRUN \<and> P_INMEM \<in> p_flag (sprocs s p)"
    using assms(1) by (rule sched_okE) blast
  let ?r = "(sprocs s p)\<lparr>p_flag := insert P_INMEM (p_flag (sprocs s p)), p_swtime := 0\<rparr>" and ?i = "p_priority (sprocs s p) div 4"
  let ?s' = "s\<lparr>sprocs := (sprocs s)(p := ?r), qs := (if p_stat (sprocs s p) = SRUN then (qs s)(?i := qs s ?i @ [p]) else qs s)\<rparr>"
  have c: "count_list (qs s i) p = 0" for i using q(2) [rule_format, of p] assms(3) by (simp add: proc_ok_def Let_def)
  then have "\<not> on_runq s p" by (simp add: on_runq_count)
  then have op: "swapin p s = Inr ?s'" by (simp add: swapin_def setrunqueue_def supd_def Let_def)
  have "proc_ok ?s' p" using q(2) [rule_format, of p] assms(2) c by (simp add: proc_ok_def Let_def)
  then have "\<forall>x. proc_ok ?s' x" by (rule procs_change [OF q(2), rotated 3]) simp_all
  moreover have "sleep_rep ?s' Q" using q(1) sleep_rep_cong [of ?s' s Q] by simp
  ultimately have "sched_ok ?s'" by (intro sched_okI) (use q(3) assms(2) in auto)
  then show ?thesis using op by simp
qed

text \<open>The recomputation of priorities moves a process to the queue of its new priority.\<close>

lemma schedcpu_proc_keeps:
  assumes "schedcpu_proc rate lf c cur r = (q, b, m)"
  shows "p_stat q = p_stat r \<and> p_flag q = p_flag r \<and> p_wchan q = p_wchan r \<and> (p_usrpri r < 128 \<longrightarrow> p_usrpri q < 128) \<and>
    (p_priority q = p_priority r \<or> p_priority q = p_usrpri q) \<and> (m \<longrightarrow> \<not> cur \<and> p_stat r = SRUN \<and> P_INMEM \<in> p_flag r) \<and>
    (\<not> m \<longrightarrow> cur \<or> p_stat r \<noteq> SRUN \<or> P_INMEM \<notin> p_flag r \<or> p_priority q div 4 = p_priority r div 4)"
proof -
  define a where a: "a = schedcpu_age r"
  have ap: "p_stat a = p_stat r" "p_flag a = p_flag r" "p_wchan a = p_wchan r" "p_priority a = p_priority r" "p_usrpri a = p_usrpri r"
    by (simp_all add: a schedcpu_age_def Let_def)
  show ?thesis
  proof (cases "1 < p_slptime a")
    case True
    then have "q = a" "\<not> m" using assms by (simp_all add: schedcpu_proc_def a [symmetric])
    then show ?thesis using ap by simp
  next
    case False
    obtain pct e where p1: "schedcpu_proc rate lf c cur r =
        (let (p2, resched) = resetpriority c (a\<lparr>p_pctcpu := pct, p_cpticks := 0, p_estcpu := e\<rparr>) in
         if PUSER \<le> p_priority p2
         then (p2\<lparr>p_priority := p_usrpri p2\<rparr>, resched,
               \<not> cur \<and> p_stat p2 = SRUN \<and> P_INMEM \<in> p_flag p2 \<and> p_priority p2 div 4 \<noteq> p_usrpri p2 div 4)
         else (p2, resched, False))"
      using False by (simp add: schedcpu_proc_def a [symmetric] Let_def)
    let ?p1 = "a\<lparr>p_pctcpu := pct, p_cpticks := 0, p_estcpu := e\<rparr>"
    have "p_usrpri (fst (resetpriority c ?p1)) < 128" by (rule le_less_trans [OF resetpriority_bound]) simp
    then obtain u v where v: "resetpriority c ?p1 = (?p1\<lparr>p_usrpri := u\<rparr>, v)" "u < 128"
      using resetpriority_only [of c ?p1] by (metis prod.collapse)
    have eq: "(if PUSER \<le> p_priority a
        then (?p1\<lparr>p_usrpri := u, p_priority := u\<rparr>, v, \<not> cur \<and> p_stat a = SRUN \<and> P_INMEM \<in> p_flag a \<and> p_priority a div 4 \<noteq> u div 4)
        else (?p1\<lparr>p_usrpri := u\<rparr>, v, False)) = (q, b, m)" using trans [OF p1 [symmetric] assms] unfolding v(1) by (simp cong: if_cong split del: if_split)
    show ?thesis
    proof (cases "PUSER \<le> p_priority a")
      case True
      then have "q = ?p1\<lparr>p_usrpri := u, p_priority := u\<rparr>" "m \<longleftrightarrow> \<not> cur \<and> p_stat a = SRUN \<and> P_INMEM \<in> p_flag a \<and> p_priority a div 4 \<noteq> u div 4"
        using eq by simp_all
      then show ?thesis using v(2) ap by auto
    next
      case False
      then have "q = ?p1\<lparr>p_usrpri := u\<rparr>" "\<not> m" using eq by simp_all
      then show ?thesis using v(2) ap by auto
    qed
  qed
qed

lemma schedcpu_one_ok:
  assumes "sched_ok s"
  shows "\<exists>s'. schedcpu_one rate p s = Inr s' \<and> sched_ok s' \<and> scallq s' = scallq s"
proof -
  obtain Q where q: "sleep_rep s Q" "\<forall>x. proc_ok s x" "\<And>p. scur s = Some p \<Longrightarrow> p_stat (sprocs s p) = SRUN \<and> P_INMEM \<in> p_flag (sprocs s p)"
    using assms by (rule sched_okE) blast
  obtain r b m where e: "schedcpu_proc rate (loadfactor (loadav s)) (scurpri s) (scur s = Some p) (sprocs s p) = (r, b, m)"
    by (metis prod_cases3)
  note k = schedcpu_proc_keeps [OF e]
  let ?i = "p_priority (sprocs s p) div 4" and ?j = "p_priority r div 4"
  let ?b = "sresched s \<or> b"
  define Q1 where Q1: "Q1 = (qs s)(?i := remove1 p (qs s ?i))"
  define s' where s': "s' = s\<lparr>sprocs := (sprocs s)(p := r), sresched := ?b, qs := (if m then Q1(?j := Q1 ?j @ [p]) else qs s)\<rparr>"
  have c: "count_list (qs s i) p = (if p_stat (sprocs s p) = SRUN \<and> P_INMEM \<in> p_flag (sprocs s p) \<and> scur s \<noteq> Some p \<and> i = ?i then 1 else 0)" for i
    using q(2) [rule_format, of p] by (simp add: proc_ok_def Let_def)
  have "schedcpu_one rate p s = Inr s'"
  proof (cases m)
    case True
    then have ne: "count_list (qs s ?i) p = 1" using c k by simp
    then have "qs s ?i \<noteq> []" by auto
    moreover have "\<not> on_runq (s\<lparr>qs := Q1\<rparr>) p" using c by (auto simp: on_runq_count Q1 count_remove1)
    then have "\<not> on_runq (supd p (\<lambda>_. r) (s\<lparr>qs := Q1, sresched := ?b\<rparr>)) p" by (simp add: on_runq_def)
    ultimately show ?thesis using True e
      by (simp add: schedcpu_one_def remrq_def setrunqueue_def Let_def s' Q1 [symmetric] supd_def)
  qed (simp add: schedcpu_one_def e s' supd_def)
  moreover have "proc_ok s' p"
    using q(2) [rule_format, of p] k c by (auto simp: s' Q1 proc_ok_def Let_def count_remove1)
  then have "\<forall>x. proc_ok s' x" by (rule procs_change [OF q(2), rotated 3]) (auto simp: s' Q1 count_remove1)
  moreover have "sleep_rep s' Q" using q(1) sleep_rep_cong [of s' s Q] k by (simp add: s')
  ultimately have "schedcpu_one rate p s = Inr s'" "sched_ok s'" using sched_okI [of s' Q] q(3) k by (auto simp: s')
  then show ?thesis by (simp add: s')
qed

lemma schedcpu_all_ok: "sched_ok s \<Longrightarrow> \<exists>s'. schedcpu_all rate ps s = Inr s' \<and> sched_ok s' \<and> scallq s' = scallq s"
proof (induction ps arbitrary: s)
  case (Cons p ps)
  obtain s1 where s1: "schedcpu_one rate p s = Inr s1" "sched_ok s1" "scallq s1 = scallq s" using schedcpu_one_ok [OF Cons.prems] by blast
  then show ?case using Cons.IH [OF s1(2)] by auto
qed simp

lemma sched_scallq: "sched_ok (s\<lparr>scallq := q\<rparr>) = sched_ok s"
  by (simp add: sched_ok_def proc_ok_def sleep_rep_def)

lemma schedcpu_ok:
  assumes "sched_ok s" "timeout schedcpu_fn 0 rate (scallq s) = Some q"
  shows "\<exists>s'. schedcpu rate lbolt ps bcln s = Some (Inr s') \<and> sched_ok s' \<and> scallq s' = q"
proof -
  from wakeup_sched [OF assms(1), of lbolt] obtain s1 where s1: "wakeup lbolt s = Some (Inr s1)" "sched_ok s1" "scallq s1 = scallq s"
    using wk_rel_cur(3) by blast
  obtain s2 where s2: "schedcpu_all rate ps s1 = Inr s2" "sched_ok s2" "scallq s2 = scallq s"
    using schedcpu_all_ok [OF s1(2)] s1(3) by metis
  obtain s3 where s3: "(case bcln of None \<Rightarrow> Some (Inr s2) | Some pageproc \<Rightarrow> wakeup pageproc s2) = Some (Inr s3)"
    "sched_ok s3" "scallq s3 = scallq s"
  proof (cases bcln)
    case (Some c)
    from wakeup_sched [OF s2(2), of c] obtain s3 where "wakeup c s2 = Some (Inr s3)" "sched_ok s3" "scallq s3 = scallq s2"
      using wk_rel_cur(3) by blast
    then show ?thesis using that s2 Some by simp
  qed (use that s2 in auto)
  show ?thesis unfolding schedcpu_def s1(1) sthen_def by (simp add: s2(1) s3 assms(2) sched_scallq)
qed

section \<open>Sequences of calls\<close>

text \<open>
  The calls that the rest of the kernel makes, each as a step of the running process, of an interrupt or of another
  process. The steps that need a running process, or a process in a certain state, do nothing where the code does not make
  them. A step that gives up the processor carries what the signal for the limit on CPU time does, if it is sent then. \<open>Sc_idle\<close> is the idle
  loop, which looks for a process again.
\<close>

datatype sch_call =
    Sc_tsleep "bool \<times> sig_effect" u32 nat bool int nat
  | Sc_resume bool int nat nat "nat \<Rightarrow> bool"
  | Sc_sleep "bool \<times> sig_effect" u32 nat
  | Sc_wakeup u32
  | Sc_endtsleep nat
  | Sc_setrunnable nat
  | Sc_stop nat u32
  | Sc_stop_self "bool \<times> sig_effect" u32
  | Sc_continue nat
  | Sc_unsleep nat
  | Sc_user "bool \<times> sig_effect"
  | Sc_swapout nat
  | Sc_swapin nat
  | Sc_schedcpu int u32 "nat list" "u32 option"
  | Sc_idle

definition by_cur :: "(nat \<Rightarrow> (sfault + ssys) option) \<Rightarrow> ssys \<Rightarrow> (sfault + ssys) option" where
  "by_cur f s = (case scur s of None \<Rightarrow> Some (Inr s) | Some p \<Rightarrow> f p)"

definition only_if :: "bool \<Rightarrow> (sfault + ssys) option \<Rightarrow> ssys \<Rightarrow> (sfault + ssys) option" where
  "only_if b r s = (if b then r else Some (Inr s))"

fun sch_do :: "sch_call \<Rightarrow> ssys \<Rightarrow> (sfault + ssys) option" where
  "sch_do (Sc_tsleep e ident pri catch timo sig) s = by_cur (\<lambda>p. tsleep e p ident pri catch timo sig s) s"
| "sch_do (Sc_resume catch timo sig sig2 intr) s = by_cur (\<lambda>p. Some (Inr (snd (tsleep_resume p catch timo sig sig2 intr s)))) s"
| "sch_do (Sc_sleep e ident pri) s = by_cur (\<lambda>p. sleep e p ident pri s) s"
| "sch_do (Sc_wakeup ident) s = wakeup ident s"
| "sch_do (Sc_endtsleep p) s = endtsleep p s"
| "sch_do (Sc_setrunnable p) s = only_if (p_stat (sprocs s p) \<in> {SSTOP, SSLEEP, SIDL}) (setrunnable p s) s"
| "sch_do (Sc_stop p parent) s = only_if (p_stat (sprocs s p) = SSLEEP) (stop p parent s) s"
| "sch_do (Sc_stop_self e parent) s = by_cur (\<lambda>p. stop_self e p parent s) s"
| "sch_do (Sc_continue p) s = only_if (p_stat (sprocs s p) = SSTOP) (continue_p p s) s"
| "sch_do (Sc_unsleep p) s = only_if (p_stat (sprocs s p) = SSTOP) (unsleep p s) s"
| "sch_do (Sc_user e) s = by_cur (\<lambda>p. resched_user e p s) s"
| "sch_do (Sc_swapout p) s = only_if (scur s \<noteq> Some p \<and> P_INMEM \<in> p_flag (sprocs s p)) (Some (swapout p s)) s"
| "sch_do (Sc_swapin p) s = only_if (scur s \<noteq> Some p \<and> P_INMEM \<notin> p_flag (sprocs s p)) (Some (swapin p s)) s"
| "sch_do (Sc_schedcpu rate lbolt ps bcln) s = schedcpu rate lbolt ps bcln s"
| "sch_do Sc_idle s = only_if (scur s = None) (Some (cpu_switch s)) s"

text \<open>\<open>Inl None\<close> is a call that does not return.\<close>

definition sch_step :: "sch_call \<Rightarrow> ssys \<Rightarrow> sfault option + ssys" where
  "sch_step c s = (case sch_do c s of None \<Rightarrow> Inl None | Some (Inl f) \<Rightarrow> Inl (Some f) | Some (Inr s') \<Rightarrow> Inr s')"

fun sch_allowed :: "sch_call \<Rightarrow> bool" where
  "sch_allowed (Sc_tsleep e ident pri catch timo sig) \<longleftrightarrow> ident \<noteq> 0 \<and> pri mod 256 < 128"
| "sch_allowed (Sc_sleep e ident pri) \<longleftrightarrow> ident \<noteq> 0 \<and> pri \<le> 22"
| "sch_allowed _ \<longleftrightarrow> True"

lemma resume_ok:
  assumes "sched_ok s"
  shows "sched_ok (snd (tsleep_resume p catch timo sig sig2 intr s))"
    "length (callfree (scallq s)) \<le> length (callfree (scallq (snd (tsleep_resume p catch timo sig sig2 intr s))))"
proof -
  let ?f1 = "\<lambda>r. r\<lparr>p_flag := p_flag r - {P_SINTR}\<rparr>" and ?f2 = "\<lambda>r. r\<lparr>p_flag := p_flag r - {P_TIMEOUT}\<rparr>"
  define s1 where s1: "s1 = supd p ?f1 (s\<lparr>scurpri := p_usrpri (sprocs s p)\<rparr>)"
  have irr: "sched_ok (t\<lparr>scurpri := n\<rparr>) = sched_ok t" "sched_ok (t\<lparr>scallq := q\<rparr>) = sched_ok t" for t n q
    by (simp_all add: sched_ok_def proc_ok_def sleep_rep_def)
  have ok1: "sched_ok s1" unfolding s1 by (rule sched_supd) (use assms irr(1) sched_usrpri [OF assms, of p] in auto)
  have ok2: "sched_ok (supd p ?f2 s1)" by (rule sched_supd [OF ok1]) (use sched_usrpri [OF ok1, of p] in auto)
  have u: "length (callfree q) \<le> length (callfree (untimeout a b q))" for a b q by (auto simp: untimeout_def split: prod.splits option.splits)
  have x: "snd (tsleep_resume p catch timo sig sig2 intr s) = (if P_TIMEOUT \<in> p_flag (sprocs s1 p) then supd p ?f2 s1
      else if timo \<noteq> 0 then s1\<lparr>scallq := untimeout endtsleep_fn p (scallq s1)\<rparr> else s1)"
    unfolding tsleep_resume_def s1 [symmetric] Let_def by (simp only: if_distrib [of snd] snd_conv if_cancel)
  then show "sched_ok (snd (tsleep_resume p catch timo sig sig2 intr s))" using ok1 ok2 irr(2) by simp
  show "length (callfree (scallq s)) \<le> length (callfree (scallq (snd (tsleep_resume p catch timo sig sig2 intr s))))"
    unfolding x using u by (simp add: s1)
qed

lemma timeout_room: "callfree q \<noteq> [] \<Longrightarrow> \<exists>q'. timeout f a n q = Some q' \<and> length (callfree q) = Suc (length (callfree q'))"
  by (cases "callfree q") (simp_all add: timeout_def)

lemma sch_do_ok:
  assumes "sched_ok s" "Suc n \<le> length (callfree (scallq s))" "sch_allowed c"
  shows "\<exists>s'. sch_do c s = Some (Inr s') \<and> sched_ok s' \<and> n \<le> length (callfree (scallq s'))"
proof (cases c)
  case (Sc_tsleep e ident pri catch timo sig)
  obtain q where q: "timeout endtsleep_fn p timo (scallq s) = Some q" "n \<le> length (callfree q)" if "scur s = Some p" for p
  proof (cases "scur s")
    case (Some p)
    then show ?thesis using that timeout_room [of "scallq s" endtsleep_fn p timo] assms(2) by fastforce
  qed (use that in auto)
  show ?thesis
  proof (cases "scur s")
    case (Some p)
    from tsleep_ok [OF assms(1) Some, of ident timo q pri e catch sig] q [OF Some] show ?thesis
      using assms(2,3) Sc_tsleep Some by (auto simp: by_cur_def split: if_splits)
  qed (use assms Sc_tsleep in \<open>simp add: by_cur_def\<close>)
next
  case (Sc_resume catch timo sig sig2 intr)
  then show ?thesis using resume_ok [OF assms(1), of _ catch timo sig sig2 intr] assms
    by (cases "scur s") (auto simp: by_cur_def intro: order_trans [OF Suc_leD])
next
  case (Sc_wakeup ident)
  then show ?thesis using wakeup_sched [OF assms(1), of ident] assms(2) by (auto dest: wk_rel_cur(3))
next
  case (Sc_endtsleep p)
  then show ?thesis using endtsleep_ok [OF assms(1), of p] assms(2) by (auto simp: spares_def)
next
  case (Sc_setrunnable p)
  then show ?thesis using setrunnable_ok [OF assms(1), of p] assms by (auto simp: spares_def only_if_def)
next
  case (Sc_unsleep p)
  then show ?thesis using unsleep_stopped [OF assms(1), of p] assms by (auto simp: same_rest_def only_if_def)
next
  case (Sc_sleep e ident pri)
  then show ?thesis using sleep_call_ok [OF assms(1), of _ ident pri e] assms by (cases "scur s") (auto simp: by_cur_def intro: Suc_leD)
next
  case (Sc_stop p parent)
  then show ?thesis using stop_ok [OF assms(1), of p parent] assms by (auto simp: only_if_def)
next
  case (Sc_stop_self e parent)
  then show ?thesis using stop_self_ok [OF assms(1), of _ e parent] assms by (cases "scur s") (auto simp: by_cur_def intro: Suc_leD)
next
  case (Sc_continue p)
  then show ?thesis using continue_ok [OF assms(1), of p] assms by (auto simp: only_if_def)
next
  case (Sc_user e)
  then show ?thesis using resched_user_ok [OF assms(1), of _ e] assms by (cases "scur s") (auto simp: by_cur_def)
next
  case (Sc_swapout p)
  then show ?thesis using swapout_ok [OF assms(1), of p] assms by (auto simp: only_if_def)
next
  case (Sc_swapin p)
  then show ?thesis using swapin_ok [OF assms(1), of p] assms by (auto simp: only_if_def)
next
  case (Sc_schedcpu rate lbolt ps bcln)
  obtain q where "timeout schedcpu_fn 0 rate (scallq s) = Some q" "n \<le> length (callfree q)"
    using timeout_room [of "scallq s" schedcpu_fn 0 rate] assms(2) by fastforce
  then show ?thesis using schedcpu_ok [OF assms(1), of rate q lbolt ps bcln] Sc_schedcpu by auto
next
  case Sc_idle
  show ?thesis
  proof (cases "scur s = None")
    case True
    then have "s\<lparr>scur := None\<rparr> = s" by simp
    then obtain s' where "cpu_switch s = Inr s'" "sched_ok s'" "scallq s' = scallq s"
      using cpu_switch_ok [of s] assms(1) unfolding sched_ok_def by metis
    then show ?thesis using Sc_idle True assms(2) by (auto simp: only_if_def)
  qed (use Sc_idle assms in \<open>auto simp: only_if_def\<close>)
qed

interpretation scc: safe_calls sch_step "\<lambda>n s. sched_ok s \<and> n \<le> length (callfree (scallq s))" sch_allowed
proof (unfold_locales, goal_cases)
  case (1 n s c)
  then show ?case using sch_do_ok [of s n c] by (auto simp: sch_step_def)
qed

section \<open>Timeouts\<close>

text \<open>
  The clock as the sleep code sees it: a tick of \<open>hardclock\<close> on the callout queue, and \<open>softclock\<close> with the calls of
  \<open>endtsleep\<close> that it makes, for a queue that holds only timeouts of sleeping processes. (\<open>endtsleep\<close> itself makes no calls
  of \<open>timeout\<close>.)
\<close>

definition tick_s :: "ssys \<Rightarrow> ssys" where
  "tick_s s = s\<lparr>scallq := (scallq s)\<lparr>calltodo := snd (hardclock_queue (calltodo (scallq s)))\<rparr>\<rparr>"

fun run_timeouts :: "(nat \<times> nat) list \<Rightarrow> ssys \<Rightarrow> (sfault + ssys) option" where
  "run_timeouts [] s = Some (Inr s)"
| "run_timeouts ((f, p) # cs) s = sthen (endtsleep p s) (run_timeouts cs)"

definition softclock_s :: "ssys \<Rightarrow> (sfault + ssys) option" where
  "softclock_s s =
     (case softclock (length (calltodo (scallq s))) (\<lambda>_ _. []) (scallq s) of
        None \<Rightarrow> None
      | Some (cs, q) \<Rightarrow> run_timeouts cs (s\<lparr>scallq := q\<rparr>))"

lemma ticks_s: "(tick_s ^^ m) s = s\<lparr>scallq := (scallq s)\<lparr>calltodo := ((\<lambda>cs. snd (hardclock_queue cs)) ^^ m) (calltodo (scallq s))\<rparr>\<rparr>"
  by (induction m) (simp_all add: tick_s_def)

text \<open>Timeouts of other processes leave a process alone that waits for something else than \<^verbatim>\<open>proc0\<close>.\<close>

lemma run_timeouts_ok:
  "sched_ok s \<Longrightarrow> \<exists>s'. run_timeouts cs s = Some (Inr s') \<and> sched_ok s' \<and> scallq s' = scallq s \<and> proc0 s' = proc0 s \<and>
     (p_wchan (sprocs s p) \<noteq> Some (proc0 s) \<longrightarrow>
        (if p \<in> snd ` set cs \<and> p_wchan (sprocs s p) \<noteq> None
         then P_TIMEOUT \<in> p_flag (sprocs s' p) \<and> p_wchan (sprocs s' p) = None \<and>
           p_stat (sprocs s' p) = (if p_stat (sprocs s p) = SSLEEP then SRUN else SSTOP)
         else sprocs s' p = sprocs s p))"
proof (induction cs arbitrary: s)
  case (Cons c cs)
  obtain f x where c: "c = (f, x)" by (cases c)
  obtain s1 where s1: "endtsleep x s = Some (Inr s1)" "sched_ok s1" "spares x s s1"
    "if p_wchan (sprocs s x) = None then s1 = s
     else P_TIMEOUT \<in> p_flag (sprocs s1 x) \<and> p_wchan (sprocs s1 x) = None \<and>
       p_stat (sprocs s1 x) = (if p_stat (sprocs s x) = SSLEEP then SRUN else SSTOP)" using endtsleep_ok [OF Cons.prems, of x] by blast
  from Cons.IH [OF s1(2)] obtain s' where s': "run_timeouts cs s1 = Some (Inr s')" "sched_ok s'" "scallq s' = scallq s1" "proc0 s' = proc0 s1"
    "p_wchan (sprocs s1 p) \<noteq> Some (proc0 s1) \<longrightarrow>
      (if p \<in> snd ` set cs \<and> p_wchan (sprocs s1 p) \<noteq> None
       then P_TIMEOUT \<in> p_flag (sprocs s' p) \<and> p_wchan (sprocs s' p) = None \<and>
         p_stat (sprocs s' p) = (if p_stat (sprocs s1 p) = SSLEEP then SRUN else SSTOP)
       else sprocs s' p = sprocs s1 p)" by blast
  have pr: "proc0 s1 = proc0 s" "scallq s1 = scallq s" using s1(3) by (simp_all add: spares_def)
  have "if p \<in> snd ` set (c # cs) \<and> p_wchan (sprocs s p) \<noteq> None
      then P_TIMEOUT \<in> p_flag (sprocs s' p) \<and> p_wchan (sprocs s' p) = None \<and>
        p_stat (sprocs s' p) = (if p_stat (sprocs s p) = SSLEEP then SRUN else SSTOP)
      else sprocs s' p = sprocs s p" if n: "p_wchan (sprocs s p) \<noteq> Some (proc0 s)"
  proof (cases "x = p")
    case True
    show ?thesis
    proof (cases "p_wchan (sprocs s p) = None")
      case True
      then show ?thesis using s1(4) s'(5) \<open>x = p\<close> by auto
    next
      case False
      then show ?thesis using s1(4) s'(5) \<open>x = p\<close> c by auto
    qed
  next
    case False
    then have "sprocs s1 p = sprocs s p" using s1(3) n by (auto simp: spares_def)
    then show ?thesis using s'(5) n pr False c by auto
  qed
  then show ?case using s1(1) s' pr c by (auto simp: sthen_def)
qed simp

lemma softclock_s_ok:
  assumes "sched_ok s" "cq_ok (calltodo (scallq s))"
  shows "\<exists>q. softclock_s s = run_timeouts (keys (overdue (calltodo (scallq s)))) (s\<lparr>scallq := q\<rparr>)"
proof -
  have "length (overdue (calltodo (scallq s))) \<le> length (calltodo (scallq s))" by (rule length_takeWhile_le)
  from softclock_runs [OF assms(2) _ this, of "\<lambda>_ _. []"] show ?thesis by (auto simp: softclock_s_def rearms_def)
qed

section \<open>Properties\<close>

text \<open>
  A state for the examples: 1 runs, 5 is on a run queue; 2, 3 and the stopped 4 wait on one channel, 6 on another with the
  same queue; 3 is swapped out, and 7 is the swapper.
\<close>

definition wt :: "pstat \<Rightarrow> bool \<Rightarrow> u32 option \<Rightarrow> proc" where
  "wt st inmem c = proc_v\<lparr>p_stat := st, p_flag := (if inmem then {P_INMEM} else {}), p_wchan := c\<rparr>"

definition ssys_v :: ssys where
  "ssys_v = \<lparr>sprocs = (\<lambda>p. if p = 1 \<or> p = 5 then wt SRUN True None
        else if p = 2 then wt SSLEEP True (Some 0x1000) else if p = 3 then wt SSLEEP False (Some 0x1000)
        else if p = 4 then wt SSTOP True (Some 0x1000) else if p = 6 then wt SSLEEP True (Some 0x9000)
        else if p = 7 then wt SSLEEP True (Some 0x500) else wt SZOMB False None),
     sqhead = (\<lambda>i. if i = 16 then Some 2 else if i = 5 then Some 7 else None),
     sqtailp = (\<lambda>i. if i = 16 then P_forw 4 else if i = 5 then P_forw 7 else Sq_head i),
     sfwd = (\<lambda>p. if p = 2 then Some 6 else if p = 6 then Some 3 else if p = 3 then Some 4 else None),
     qs = (\<lambda>i. if i = 12 then [5] else []), scur = Some 1, scurpri = 50, sresched = False, loadav = 2048, proc0 = 0x500,
     scallq = \<lparr>calltodo = [\<lparr>c_addr = 1, c_func = 1, c_arg = 2, c_time = 2\<rparr>], callfree = [4, 5]\<rparr>,
     snow = \<lparr>tv_sec = 100, tv_usec = 0\<rparr>, sruntime = \<lparr>tv_sec = 99, tv_usec = 0\<rparr>\<rparr>"

lemma lookup_v: "lookup 0x1000 = 16" "lookup 0x9000 = 16" "lookup 0x500 = 5"
  by (simp_all add: lookup_def)

lemma ssys_v_ok: "sched_ok ssys_v"
proof (rule sched_okI)
  show "sleep_rep ssys_v (\<lambda>i. if i = 16 then [2, 6, 3, 4] else if i = 5 then [7] else [])"
    by (auto simp: sleep_rep_def ssys_v_def wt_def proc_v_def lookup_v split: if_splits)
  show "\<forall>x. proc_ok ssys_v x" by (auto simp: proc_ok_def ssys_v_def wt_def proc_v_def Let_def)
  show "\<And>p. scur ssys_v = Some p \<Longrightarrow> p_stat (sprocs ssys_v p) = SRUN \<and> P_INMEM \<in> p_flag (sprocs ssys_v p)"
    by (auto simp: ssys_v_def wt_def)
qed

lemma queued:
  assumes "sched_ok s" "p_stat (sprocs s p) = SRUN" "P_INMEM \<in> p_flag (sprocs s p)" "scur s \<noteq> Some p"
  shows "count_list (qs s i) p = (if i = p_priority (sprocs s p) div 4 then 1 else 0)"
  using assms by (auto simp: sched_ok_def proc_ok_def Let_def)

lemma queued_in:
  assumes "sched_ok s" "p_stat (sprocs s p) = SRUN" "P_INMEM \<in> p_flag (sprocs s p)" "scur s \<noteq> Some p"
  shows "p \<in> set (qs s (p_priority (sprocs s p) div 4))"
  using queued [OF assms, of "p_priority (sprocs s p) div 4"] by (metis count_list_0_iff zero_neq_one)

text \<open>C26. \<open>wakeup\<close> always returns and never panics. Every process that waits on the channel stops waiting; one that was asleep
  becomes runnable and, if it is in memory, is on the run queue of its priority, one that was stopped stays stopped. Nobody
  else is touched, except that processes waiting for \<^verbatim>\<open>proc0\<close> may be woken to bring others into memory.\<close>

theorem wakeup_exact:
  assumes "sched_ok s"
  shows "\<exists>s'. wakeup ident s = Some (Inr s') \<and> sched_ok s' \<and>
    (\<forall>p. case p_wchan (sprocs s p) of
       None \<Rightarrow> sprocs s' p = sprocs s p
     | Some c \<Rightarrow>
         if c = ident
         then p_wchan (sprocs s' p) = None \<and>
           (if p_stat (sprocs s p) = SSLEEP
            then p_stat (sprocs s' p) = SRUN \<and>
              (P_INMEM \<in> p_flag (sprocs s p) \<longrightarrow> p \<in> set (qs s' (p_priority (sprocs s p) div 4)))
            else p_stat (sprocs s' p) = SSTOP)
         else c \<noteq> proc0 s \<longrightarrow> sprocs s' p = sprocs s p)"
proof -
  obtain s' where s': "wakeup ident s = Some (Inr s')" "sched_ok s'" "wk_rel {ident, proc0 s} s s'" "\<forall>p. p_wchan (sprocs s' p) \<noteq> Some ident"
    using wakeup_sched [OF assms] by blast
  have w: "woken (sprocs s p) (sprocs s' p)" "scur s' \<noteq> Some p" if "p_wchan (sprocs s p) = Some ident" for p
    using s'(3,4) that sched_waits [OF assms, of p] wk_rel_cur(1) [OF s'(3)] unfolding wk_rel_def by (metis, simp)
  have "p_wchan (sprocs s' p) = None \<and> (if p_stat (sprocs s p) = SSLEEP
      then p_stat (sprocs s' p) = SRUN \<and> (P_INMEM \<in> p_flag (sprocs s p) \<longrightarrow> p \<in> set (qs s' (p_priority (sprocs s p) div 4)))
      else p_stat (sprocs s' p) = SSTOP)" if "p_wchan (sprocs s p) = Some ident" for p
    using w [OF that] that sched_waits [OF assms, of p] queued_in [OF s'(2), of p] by (auto simp: woken_def made_run_def)
  moreover have "sprocs s' p = sprocs s p" if "p_wchan (sprocs s p) = Some c" "c \<noteq> ident" "c \<noteq> proc0 s" for p c
    using s'(3) that unfolding wk_rel_def by (metis insertE option.inject singletonD)
  ultimately show ?thesis
    using s'(1,2) wk_rel_cur(2) [OF s'(3)] by (intro exI [of _ s']) (simp split: option.split)
qed

theorem wakeup_exact_witness:
  "\<exists>s'. wakeup 0x1000 ssys_v = Some (Inr s') \<and> p_stat (sprocs s' 2) = SRUN \<and> 2 \<in> set (qs s' 12) \<and>
     p_stat (sprocs s' 4) = SSTOP \<and> p_wchan (sprocs s' 4) = None \<and> p_stat (sprocs s' 6) = SSLEEP"
proof -
  obtain s' where s': "wakeup 0x1000 ssys_v = Some (Inr s')" "\<And>p. case p_wchan (sprocs ssys_v p) of
       None \<Rightarrow> sprocs s' p = sprocs ssys_v p
     | Some c \<Rightarrow>
         if c = 0x1000
         then p_wchan (sprocs s' p) = None \<and>
           (if p_stat (sprocs ssys_v p) = SSLEEP
            then p_stat (sprocs s' p) = SRUN \<and>
              (P_INMEM \<in> p_flag (sprocs ssys_v p) \<longrightarrow> p \<in> set (qs s' (p_priority (sprocs ssys_v p) div 4)))
            else p_stat (sprocs s' p) = SSTOP)
         else c \<noteq> proc0 ssys_v \<longrightarrow> sprocs s' p = sprocs ssys_v p"
    using wakeup_exact [OF ssys_v_ok, of "0x1000"] by blast
  then show ?thesis using s'(2) [of 2] s'(2) [of 4] s'(2) [of 6] by (simp add: ssys_v_def wt_def proc_v_def)
qed



lemma timeout_ticks:
  assumes "cq_ok (calltodo q0)" "timeout f a n q0 = Some q"
  shows "cq_ok (((\<lambda>cs. snd (hardclock_queue cs)) ^^ m) (calltodo q))"
    "set (entries (((\<lambda>cs. snd (hardclock_queue cs)) ^^ m) (calltodo q))) =
     insert ((f, a), max 1 n - int m) ((\<lambda>(x, d). (x, d - int m)) ` set (entries (calltodo q0)))"
proof -
  note t = timeout_events [OF assms]
  have e: "mset (entries (calltodo q)) = add_mset ((f, a), max 1 n) (mset (entries (calltodo q0)))" using inserts_mset t(2) by blast
  note k = co.ticks_events [OF t(1), of m]
  show "cq_ok (((\<lambda>cs. snd (hardclock_queue cs)) ^^ m) (calltodo q))" using k by blast
  have "set_mset (mset (entries (((\<lambda>cs. snd (hardclock_queue cs)) ^^ m) (calltodo q)))) =
      (\<lambda>(x, d). (x, d - int m)) ` set_mset (mset (entries (calltodo q)))" using k by (metis set_image_mset)
  then show "set (entries (((\<lambda>cs. snd (hardclock_queue cs)) ^^ m) (calltodo q))) =
     insert ((f, a), max 1 n - int m) ((\<lambda>(x, d). (x, d - int m)) ` set (entries (calltodo q0)))" unfolding e by simp
qed

lemma entries_keys: "fst ` set (entries cs) = set (keys cs)"
  unfolding entries_def by (metis length_dues keys_simps(3) map_fst_zip set_map)

lemma due_then:
  assumes "cq_ok (calltodo q0)" "timeout f p n q0 = Some q" "1 \<le> n" "\<forall>k\<in>set (keys (calltodo q0)). snd k \<noteq> p"
  shows "p \<in> snd ` set (keys (overdue (((\<lambda>cs. snd (hardclock_queue cs)) ^^ m) (calltodo q)))) \<longleftrightarrow> n \<le> int m"
proof -
  note t = timeout_ticks [OF assms(1,2), of m]
  have "snd (fst e) \<noteq> p" if "e \<in> set (entries (calltodo q0))" for e
    using assms(4) entries_keys [of "calltodo q0"] that by (metis imageI)
  then have "p \<in> snd ` fst ` {e \<in> insert ((f, p), max 1 n - int m) ((\<lambda>(x, d). (x, d - int m)) ` set (entries (calltodo q0))). snd e \<le> 0}
      \<longleftrightarrow> n \<le> int m" using assms(3) by (fastforce simp: max_def image_iff)
  then show ?thesis unfolding overdue_entries [OF t(1)] by (simp add: t(2))
qed

text \<open>C27. A sleep with a timeout ends. A process that calls \<open>tsleep\<close> with a timeout of \<open>timo\<close> ticks and is not woken by anything
  else (nor by the signal for its CPU time as it goes to sleep) is still asleep when \<open>softclock\<close> runs after fewer than \<open>timo\<close>
  ticks; after \<open>timo\<close> ticks \<open>softclock\<close> makes it runnable and puts it on its run queue, and when it runs \<open>tsleep\<close> returns \<^verbatim>\<open>EWOULDBLOCK\<close>. (The callout queue holds timeouts of sleeping
  processes only, and none of this process; the channel is not that of the swapper.)\<close>

theorem tsleep_times_out:
  assumes "sched_ok s" "scur s = Some p" "ident \<noteq> 0" "ident \<noteq> proc0 s" "priority mod 256 < 128" "1 \<le> timo"
    "callq_ok (scallq s)" "callfree (scallq s) \<noteq> []" "\<forall>k\<in>set (keys (calltodo (scallq s))). fst k = endtsleep_fn \<and> snd k \<noteq> p"
    "in_limit s (sprocs s p) \<or> wakes_not e"
  shows "\<exists>s1. tsleep e p ident priority catch timo 0 s = Some (Inr s1) \<and>
    (\<forall>m. int m < timo \<longrightarrow> (\<exists>s2. softclock_s ((tick_s ^^ m) s1) = Some (Inr s2) \<and> p_stat (sprocs s2 p) = SSLEEP)) \<and>
    (\<exists>s2. softclock_s ((tick_s ^^ nat timo) s1) = Some (Inr s2) \<and> sched_ok s2 \<and> p_stat (sprocs s2 p) = SRUN \<and>
       fst (tsleep_resume p catch timo 0 sig2 intr s2) = Tfail EWOULDBLOCK)"
proof -
  let ?T = "\<lambda>m. (\<lambda>cs. snd (hardclock_queue cs)) ^^ m"
  obtain q where q: "timeout endtsleep_fn p timo (scallq s) = Some q" using timeout_room [OF assms(8)] by blast
  obtain s1 where s1: "tsleep e p ident priority catch timo 0 s = Some (Inr s1)" "sched_ok s1" "scallq s1 = q"
    "p_stat (sprocs s1 p) = SSLEEP" "p_wchan (sprocs s1 p) = Some ident" "proc0 s1 = proc0 s"
    using tsleep_ok [OF assms(1-3) q assms(5), of e catch 0] assms(6,10) by auto
  have cq: "cq_ok (calltodo (scallq s))" using assms(7) by (simp add: callq_ok_def)
  have pr: "p_wchan (sprocs s1 p) \<noteq> Some (proc0 s1)" using assms(4) s1(5,6) by simp
  have run: "\<exists>s2. softclock_s ((tick_s ^^ m) s1) = Some (Inr s2) \<and> sched_ok s2 \<and>
      (if timo \<le> int m then P_TIMEOUT \<in> p_flag (sprocs s2 p) \<and> p_stat (sprocs s2 p) = SRUN else p_stat (sprocs s2 p) = SSLEEP)" for m
  proof -
    let ?s = "(tick_s ^^ m) s1"
    have e: "?s = s1\<lparr>scallq := q\<lparr>calltodo := ?T m (calltodo q)\<rparr>\<rparr>" by (simp add: ticks_s s1(3))
    have "sched_ok ?s" "cq_ok (calltodo (scallq ?s))" using s1(2) timeout_ticks(1) [OF cq q] by (simp_all add: e sched_scallq)
    from softclock_s_ok [OF this] obtain q' where q': "softclock_s ?s = run_timeouts (keys (overdue (calltodo (scallq ?s)))) (?s\<lparr>scallq := q'\<rparr>)"
      by blast
    moreover have "p \<in> snd ` set (keys (overdue (calltodo (scallq ?s)))) \<longleftrightarrow> timo \<le> int m"
      using due_then [OF cq q assms(6)] assms(9) by (simp add: e)
    moreover have "sched_ok (?s\<lparr>scallq := q'\<rparr>)" "sprocs (?s\<lparr>scallq := q'\<rparr>) = sprocs s1" "proc0 (?s\<lparr>scallq := q'\<rparr>) = proc0 s1"
      using s1(2) by (simp_all add: e sched_scallq)
    ultimately show ?thesis
      using run_timeouts_ok [of "?s\<lparr>scallq := q'\<rparr>" "keys (overdue (calltodo (scallq ?s)))" p] pr s1(4,5) by (auto split: if_splits)
  qed
  have "\<exists>s2. softclock_s ((tick_s ^^ m) s1) = Some (Inr s2) \<and> p_stat (sprocs s2 p) = SSLEEP" if "int m < timo" for m
    using run [of m] that by auto
  moreover obtain s2 where s2: "softclock_s ((tick_s ^^ nat timo) s1) = Some (Inr s2)" "sched_ok s2" "P_TIMEOUT \<in> p_flag (sprocs s2 p)"
    "p_stat (sprocs s2 p) = SRUN" using run [of "nat timo"] assms(6) by auto
  moreover have "fst (tsleep_resume p catch timo 0 sig2 intr s2) = Tfail EWOULDBLOCK"
    using s2(3) by (simp add: tsleep_resume_def Let_def)
  ultimately show ?thesis using s1(1) by blast
qed

theorem tsleep_times_out_witness:
  "\<exists>s1. tsleep (True, Sig_runs) 1 0x9000 25 True 3 0 ssys_v = Some (Inr s1) \<and>
    (\<exists>s2. softclock_s ((tick_s ^^ 2) s1) = Some (Inr s2) \<and> p_stat (sprocs s2 1) = SSLEEP) \<and>
    (\<exists>s2. softclock_s ((tick_s ^^ 3) s1) = Some (Inr s2) \<and> p_stat (sprocs s2 1) = SRUN)"
proof -
  have c: "scur ssys_v = Some 1" "(0x9000 :: u32) \<noteq> 0" "0x9000 \<noteq> proc0 ssys_v" "25 mod 256 < (128 :: nat)" "1 \<le> (3 :: int)"
    "callq_ok (scallq ssys_v)" "callfree (scallq ssys_v) \<noteq> []"
    "\<forall>k\<in>set (keys (calltodo (scallq ssys_v))). fst k = endtsleep_fn \<and> snd k \<noteq> 1"
    "in_limit ssys_v (sprocs ssys_v 1) \<or> wakes_not (True, Sig_runs)"
    by (simp_all add: ssys_v_def callq_ok_def in_limit_def mi_switch_time_def wt_def proc_v_def timerclear_def Let_def)
  have "int 2 < 3" by simp
  with tsleep_times_out [OF ssys_v_ok c, of True] show ?thesis by (metis nat_numeral)
qed

end
