(* ===== verification/Sigok.thy ===== *)
theory Sigok
  imports Signals Schedsys
begin

text \<open>
  The invariant of the signal state and its proof for every operation of the theory \<open>Signals\<close>: the dispositions agree with the masks that
  \<open>psignal\<close> reads, \<^verbatim>\<open>SIGKILL\<close> and \<^verbatim>\<open>SIGSTOP\<close> keep their default action and are never blocked, and the queues of the scheduler stay
  intact.
\<close>

section \<open>Bits\<close>

lemma and_sigmask [simp]:
  assumes "0 < n" "n \<le> 32"
  shows "w AND sigmask n = 0 \<longleftrightarrow> \<not> bit w (n - 1)" "sigmask n AND w = 0 \<longleftrightarrow> \<not> bit w (n - 1)"
proof -
  show "w AND sigmask n = 0 \<longleftrightarrow> \<not> bit w (n - 1)" using assms
    by (auto simp: bit_eq_iff [of "w AND sigmask n" 0] bit_and_iff sigmask_bit dest!: spec [of _ "n - 1"])
  then show "sigmask n AND w = 0 \<longleftrightarrow> \<not> bit w (n - 1)" by (simp add: and.commute)
qed

lemma not_sigmask_bit: "bit (NOT (sigmask m)) n \<longleftrightarrow> n < 32 \<and> n \<noteq> m - 1"
  by (auto simp: bit_not_iff sigmask_bit)

lemma bit_u32: "bit (w :: u32) n \<Longrightarrow> n < 32"
  using bit_imp_le_length [of w n] by simp

lemmas sig_bits = bit_and_iff bit_or_iff bit_not_iff sigmask_bit

lemma cant_bit: "bit sigcantmask n \<longleftrightarrow> n = 8 \<or> n = 16"
  by (auto simp: sigcantmask_def sig_bits)

lemma stop_bit: "bit stopsigmask n \<longleftrightarrow> n = 16 \<or> n = 17 \<or> n = 20 \<or> n = 21"
  by (auto simp: stopsigmask_def sig_bits)

lemma cont_bit: "bit contsigmask n \<longleftrightarrow> n = 18"
  by (auto simp: contsigmask_def sig_bits)

lemma sigprop_stop: "0 < n \<Longrightarrow> n < 32 \<Longrightarrow> sigprop n SA_STOP \<longleftrightarrow> bit stopsigmask (n - 1)"
proof -
  assume n: "0 < n" "n < 32"
  have "\<forall>n\<in>{1..<32}. sigprop n SA_STOP \<longleftrightarrow> n - 1 = 16 \<or> n - 1 = 17 \<or> n - 1 = 20 \<or> n - 1 = 21"
    by (simp add: atLeastLessThan_upt upt_conv_Cons sigprop_def sigprop_table_def)
  then show ?thesis using n by (simp add: stop_bit)
qed

lemma sigprop_cont: "0 < n \<Longrightarrow> n < 32 \<Longrightarrow> sigprop n SA_CONT \<longleftrightarrow> n = SIGCONT"
proof -
  assume n: "0 < n" "n < 32"
  have "\<forall>n\<in>{1..<32}. sigprop n SA_CONT \<longleftrightarrow> n = 19"
    by (simp add: atLeastLessThan_upt upt_conv_Cons sigprop_def sigprop_table_def)
  then show ?thesis using n by simp
qed

section \<open>The signal state of a process\<close>

text \<open>
  \<open>ignorable\<close> is the disposition that \<open>setsigvec\<close> turns into a bit of \<^verbatim>\<open>p_sigignore\<close>.
\<close>

definition ignorable :: "sigacts \<Rightarrow> nat \<Rightarrow> bool" where
  "ignorable ps n \<longleftrightarrow> n \<noteq> SIGCONT \<and> (ps_sigact ps n = SIG_IGN \<or> ps_sigact ps n = SIG_DFL \<and> sigprop n SA_IGNORE)"

definition caught :: "sigacts \<Rightarrow> nat \<Rightarrow> bool" where
  "caught ps n \<longleftrightarrow> ps_sigact ps n \<noteq> SIG_DFL \<and> ps_sigact ps n \<noteq> SIG_IGN"

definition unblockable :: "u32 \<Rightarrow> bool" where
  "unblockable w \<longleftrightarrow> \<not> bit w (SIGKILL - 1) \<and> \<not> bit w (SIGSTOP - 1)"

definition sigproc_ok :: "sigproc \<Rightarrow> bool" where
  "sigproc_ok q \<longleftrightarrow>
     \<not> bit (p_siglist q) 31 \<and> \<not> bit (p_sigcatch q) 31 \<and> \<not> bit (p_sigignore q) 31 \<and>
     ps_sigact (p_sigacts q) SIGKILL = SIG_DFL \<and> ps_sigact (p_sigacts q) SIGSTOP = SIG_DFL \<and>
     unblockable (p_sigmask q) \<and> unblockable (ps_oldmask (p_sigacts q)) \<and> (\<forall>n. unblockable (ps_catchmask (p_sigacts q) n)) \<and>
     (\<forall>i<31. (bit (p_sigcatch q) i \<longleftrightarrow> caught (p_sigacts q) (Suc i)) \<and> (bit (p_sigignore q) i \<longleftrightarrow> ignorable (p_sigacts q) (Suc i)))"

lemma sigproc_okD:
  assumes "sigproc_ok q"
  shows "\<not> bit (p_siglist q) 31" "ps_sigact (p_sigacts q) SIGKILL = SIG_DFL" "ps_sigact (p_sigacts q) SIGSTOP = SIG_DFL"
    "unblockable (p_sigmask q)" "unblockable (ps_oldmask (p_sigacts q))" "unblockable (ps_catchmask (p_sigacts q) n)"
    "0 < n \<Longrightarrow> n < 32 \<Longrightarrow> bit (p_sigcatch q) (n - 1) \<longleftrightarrow> caught (p_sigacts q) n"
    "0 < n \<Longrightarrow> n < 32 \<Longrightarrow> bit (p_sigignore q) (n - 1) \<longleftrightarrow> ignorable (p_sigacts q) n"
  using assms unfolding sigproc_ok_def by (auto simp: less_Suc_eq_le [symmetric] dest!: spec [of _ "n - 1"])

lemma unblockable_ops [simp]:
  "unblockable (w AND NOT sigcantmask)" "unblockable w \<Longrightarrow> unblockable v \<Longrightarrow> unblockable (w OR v)"
  "unblockable w \<Longrightarrow> unblockable (w AND v)" "unblockable w \<Longrightarrow> unblockable (v AND w)"
  "unblockable (sigmask n) \<longleftrightarrow> n \<noteq> SIGKILL \<and> n \<noteq> SIGSTOP"
  by (auto simp: unblockable_def sig_bits cant_bit)

lemma setsigvec_proc_ok:
  assumes "sigproc_ok q" "0 < n" "n < 32" "n \<noteq> SIGKILL" "n \<noteq> SIGSTOP"
  shows "sigproc_ok (setsigvec_proc n sa q)"
proof -
  have q: "bit (p_sigcatch q) i \<longleftrightarrow> caught (p_sigacts q) (Suc i)" "bit (p_sigignore q) i \<longleftrightarrow> ignorable (p_sigacts q) (Suc i)" if "i < 31" for i
    using assms(1) that by (auto simp: sigproc_ok_def)
  have other: "caught (setsigvec_acts n sa ps) m = (if m = n then sa_handler sa \<noteq> SIG_DFL \<and> sa_handler sa \<noteq> SIG_IGN else caught ps m)"
    "ignorable (setsigvec_acts n sa ps) m = (if m = n then n \<noteq> SIGCONT \<and> (sa_handler sa = SIG_IGN \<or> sa_handler sa = SIG_DFL \<and> sigprop n SA_IGNORE) else ignorable ps m)" for ps m
    by (auto simp: caught_def ignorable_def setsigvec_acts_def Let_def)
  have nc: "\<not> bit (p_sigignore q) 18" using q(2) [of 18] by (simp add: ignorable_def)
  have "bit (p_sigcatch (setsigvec_proc n sa q)) i \<longleftrightarrow> caught (p_sigacts (setsigvec_proc n sa q)) (Suc i)" if "i < 31" for i
    using q(1) [OF that] that assms(2) by (auto simp: setsigvec_proc_def Let_def other sig_bits)
  moreover have "bit (p_sigignore (setsigvec_proc n sa q)) i \<longleftrightarrow> ignorable (p_sigacts (setsigvec_proc n sa q)) (Suc i)" if "i < 31" for i
    using q(2) [OF that] nc that assms(2) by (auto simp: setsigvec_proc_def Let_def other sig_bits)
  ultimately show ?thesis
    using assms unfolding sigproc_ok_def by (auto simp: setsigvec_proc_def setsigvec_acts_def Let_def sig_bits)
qed

lemma execsigs_one_ok:
  assumes "sigproc_ok q" "p_sigcatch q \<noteq> 0"
  shows "sigproc_ok (execsigs_one (ffs (p_sigcatch q)) q)"
proof -
  obtain i where i: "ffs (p_sigcatch q) = Suc i" "i < 32" "bit (p_sigcatch q) i" using assms(2) by (rule ffs_cases)
  then have "i < 31" using assms(1) by (cases "i = 31") (auto simp: sigproc_ok_def)
  have q: "bit (p_sigcatch q) j \<longleftrightarrow> caught (p_sigacts q) (Suc j)" "bit (p_sigignore q) j \<longleftrightarrow> ignorable (p_sigacts q) (Suc j)" if "j < 31" for j
    using assms(1) that by (auto simp: sigproc_ok_def)
  let ?q = "execsigs_one (Suc i) q"
  have a: "ps_sigact (p_sigacts ?q) = (ps_sigact (p_sigacts q))(Suc i := SIG_DFL)"
    "p_sigcatch ?q = p_sigcatch q AND NOT (sigmask (Suc i))"
    "p_sigignore ?q = (if sigprop (Suc i) SA_IGNORE \<and> Suc i \<noteq> SIGCONT then p_sigignore q OR sigmask (Suc i) else p_sigignore q)"
    "p_siglist ?q = (if sigprop (Suc i) SA_IGNORE then p_siglist q AND NOT (sigmask (Suc i)) else p_siglist q)"
    "p_sigmask ?q = p_sigmask q" "ps_oldmask (p_sigacts ?q) = ps_oldmask (p_sigacts q)" "ps_catchmask (p_sigacts ?q) = ps_catchmask (p_sigacts q)"
    by (simp_all add: execsigs_one_def Let_def)
  have "\<not> bit (p_sigignore q) i" using q(1,2) [OF \<open>i < 31\<close>] i(3) by (auto simp: caught_def ignorable_def)
  then have "bit (p_sigignore ?q) j \<longleftrightarrow> ignorable (p_sigacts ?q) (Suc j)" if "j < 31" for j
    using q(2) [OF that] that by (auto simp: a ignorable_def sig_bits)
  moreover have "bit (p_sigcatch ?q) j \<longleftrightarrow> caught (p_sigacts ?q) (Suc j)" if "j < 31" for j
    using q(1) [OF that] that by (auto simp: a caught_def sig_bits)
  moreover have "\<not> bit (p_sigignore ?q) 31" using assms(1) \<open>i < 31\<close> by (simp add: a(3) sigproc_ok_def sig_bits)
  ultimately show ?thesis
    using assms(1) \<open>i < 31\<close> unfolding sigproc_ok_def i(1) by (auto simp: a(1,2,4-7) sig_bits)
qed

lemma execsigs_loop_ok: "sigproc_ok q \<Longrightarrow> sigproc_ok (execsigs_loop q) \<and> p_sigcatch (execsigs_loop q) = 0"
proof (induction q rule: execsigs_loop.induct)
  case (1 q)
  then show ?case using execsigs_one_ok [of q] by (subst (1 2) execsigs_loop.simps) auto
qed

section \<open>What a signal leaves alone\<close>

lemma on_sch_ok: "f (sch g) = Some (Inr s') \<Longrightarrow> on_sch f g = Some (Inr (g\<lparr>sch := s'\<rparr>))"
  by (simp add: on_sch_def)

text \<open>
  \<open>sig_frame\<close>: posting a signal changes no disposition and no mask, moves no process to another place in the tree, and ends waits but starts
  none.
\<close>

definition proc_frame :: "proc \<Rightarrow> proc \<Rightarrow> bool" where
  "proc_frame r r' \<longleftrightarrow> p_flag r' \<subseteq> p_flag r \<and> p_flag r - {P_WAITED} \<subseteq> p_flag r' \<and> (p_wchan r' = p_wchan r \<or> p_wchan r' = None)"

definition disp_frame :: "sigproc \<Rightarrow> sigproc \<Rightarrow> bool" where
  "disp_frame q q' \<longleftrightarrow> p_sigmask q' = p_sigmask q \<and> p_sigignore q' = p_sigignore q \<and> p_sigcatch q' = p_sigcatch q \<and>
     p_sigacts q' = p_sigacts q \<and> (bit (p_siglist q') 31 \<longrightarrow> bit (p_siglist q) 31)"

definition sig_frame :: "sigsys \<Rightarrow> sigsys \<Rightarrow> bool" where
  "sig_frame g g' \<longleftrightarrow> tree g' = tree g \<and> sframes g' = sframes g \<and> proc0 (sch g') = proc0 (sch g) \<and> scur (sch g') = scur (sch g) \<and>
     scallq (sch g') = scallq (sch g) \<and> (\<forall>x. disp_frame (sgp g x) (sgp g' x) \<and> proc_frame (sproc g x) (sproc g' x))"

lemma frames_refl [simp]: "proc_frame r r" "disp_frame q q" "sig_frame g g"
  by (auto simp: proc_frame_def disp_frame_def sig_frame_def)

lemma proc_frame_trans: "proc_frame r r1 \<Longrightarrow> proc_frame r1 r2 \<Longrightarrow> proc_frame r r2"
  by (auto simp: proc_frame_def)

lemma disp_frame_trans: "disp_frame q q1 \<Longrightarrow> disp_frame q1 q2 \<Longrightarrow> disp_frame q q2"
  by (simp add: disp_frame_def)

lemma sig_frame_trans: "sig_frame g g1 \<Longrightarrow> sig_frame g1 g2 \<Longrightarrow> sig_frame g g2"
  unfolding sig_frame_def by (elim conjE, intro conjI allI) (simp | blast intro: proc_frame_trans disp_frame_trans)+

lemma sig_frame_sch:
  assumes "proc0 s = proc0 (sch g)" "scur s = scur (sch g)" "scallq s = scallq (sch g)" "\<And>x. proc_frame (sproc g x) (sprocs s x)"
  shows "sig_frame g (g\<lparr>sch := s\<rparr>)"
  using assms by (simp add: sig_frame_def)

lemma sig_frame_sig: "disp_frame (sgp g p) (f (sgp g p)) \<Longrightarrow> sig_frame g (upd_sig p f g)"
  by (simp add: sig_frame_def upd_sig_def)

lemma sig_frame_upd: "proc_frame (sproc g p) (f (sproc g p)) \<Longrightarrow> sig_frame g (upd_sch p f g)"
  by (simp add: sig_frame_def upd_sch_def)

lemma sig_frame_bits [simp]:
  "sig_frame g (clear p m g)" "\<not> bit m 31 \<Longrightarrow> sig_frame g (post p m g)"
  unfolding clear_def post_def by (rule sig_frame_sig; simp add: disp_frame_def bit_and_iff bit_or_iff)+

lemma made_run_frame: "made_run r r' \<Longrightarrow> proc_frame r r'"
  by (simp add: made_run_def proc_frame_def)

lemma woken_frame: "woken r r' \<Longrightarrow> proc_frame r r'"
  by (auto simp: woken_def proc_frame_def made_run_def split: if_splits)

lemma wk_rel_frame: "wk_rel I s s' \<Longrightarrow> proc_frame (sprocs s x) (sprocs s' x)"
  unfolding wk_rel_def by (metis frames_refl(1) woken_frame)

section \<open>Running, stopping and continuing\<close>

text \<open>
  The links of the tree that the signal code follows, and the processes that sleep interruptibly: they are not process 0 and do not wait
  for the swapper.
\<close>

definition slinks_ok :: "pgsys \<Rightarrow> bool" where
  "slinks_ok t \<longleftrightarrow> (\<forall>p r. pprocs t p = Some r \<longrightarrow> pgrps t (pp_pgrp r) \<noteq> None \<and>
     (pp_pid r \<noteq> 0 \<longrightarrow> (\<exists>q. pp_pptr r = Some q \<and> q \<noteq> p \<and> pprocs t q \<noteq> None)))"

definition sintr_ok :: "sigsys \<Rightarrow> bool" where
  "sintr_ok g \<longleftrightarrow> (\<forall>p. P_SINTR \<in> p_flag (sproc g p) \<longrightarrow>
     p_wchan (sproc g p) \<noteq> Some (proc0 (sch g)) \<and> (\<exists>r. pprocs (tree g) p = Some r \<and> pp_pid r \<noteq> 0))"

lemma sintr_ok_frame: "sig_frame g g' \<Longrightarrow> sintr_ok g \<Longrightarrow> sintr_ok g'"
  unfolding sig_frame_def sintr_ok_def proc_frame_def by (metis option.distinct(1) subsetD)

lemma jobc_ex: "slinks_ok (tree g) \<Longrightarrow> pprocs (tree g) p \<noteq> None \<Longrightarrow> jobc_of g p \<noteq> None"
  by (fastforce simp: slinks_ok_def jobc_of_def)

lemma parent_ex:
  assumes "slinks_ok (tree g)" "pprocs (tree g) p = Some r" "pp_pid r \<noteq> 0"
  obtains q where "parent_of g p = Some q" "q \<noteq> p" "pprocs (tree g) q \<noteq> None"
  using assms that unfolding slinks_ok_def parent_of_def by fastforce

text \<open>The process \<open>p\<close> has become runnable and nothing else has changed, except for processes that wait for the swapper.\<close>

definition readied :: "nat \<Rightarrow> sigsys \<Rightarrow> sigsys \<Rightarrow> bool" where
  "readied p g g' \<longleftrightarrow> sched_ok (sch g') \<and> sig_frame g g' \<and> spares p (sch g) (sch g') \<and> sgp g' = sgp g \<and>
     p_stat (sproc g' p) = SRUN \<and> p_wchan (sproc g' p) = None"

lemma psig_run_ok:
  assumes "sched_ok (sch g)" "p_stat (sproc g p) = SSTOP \<or> p_stat (sproc g p) = SSLEEP"
  shows "\<exists>g'. psig_run p g = Some (Inr g') \<and> readied p g g'"
proof -
  obtain s' where s': "setrunnable p (sch g) = Some (Inr s')" "sched_ok s'" "made_run (sproc g p) (sprocs s' p)" "spares p (sch g) s'"
    using setrunnable_ok [OF assms(1), of p] assms(2) by blast
  have "proc_frame (sproc g x) (sprocs s' x)" for x
  proof (cases "x = p")
    case False
    then have "sprocs s' x = sproc g x \<or> woken (sproc g x) (sprocs s' x)" using s'(4) by (simp add: spares_def)
    then show ?thesis using woken_frame by auto
  qed (use s'(3) made_run_frame in simp)
  then have "sig_frame g (g\<lparr>sch := s'\<rparr>)" using s'(4) by (intro sig_frame_sch) (simp_all add: spares_def)
  then show ?thesis using s' by (simp add: psig_run_def on_sch_ok readied_def made_run_def)
qed

lemma psig_runfast_ok:
  assumes "sched_ok (sch g)" "p_stat (sproc g p) = SSTOP \<or> p_stat (sproc g p) = SSLEEP"
  shows "\<exists>g'. psig_runfast p g = Some (Inr g') \<and> readied p g g'"
proof -
  let ?f = "\<lambda>r. r\<lparr>p_priority := PUSER\<rparr>"
  define h where h: "h = (if PUSER < p_priority (sproc g p) then upd_sch p ?f g else g)"
  have "sched_ok (sch h)" "p_stat (sproc h p) = SSTOP \<or> p_stat (sproc h p) = SSLEEP"
    using assms sched_pri [OF assms(1), of p PUSER] by (auto simp: h upd_sch_def)
  then obtain g' where g': "psig_run p h = Some (Inr g')" "readied p h g'" using psig_run_ok by blast
  have "sig_frame g h" using sig_frame_upd [of g p ?f] by (simp add: h proc_frame_def)
  moreover have "spares p (sch g) (sch g')" using g'(2) by (auto simp: readied_def spares_def h upd_sch_def split: if_splits)
  moreover have "sgp h = sgp g" by (simp add: h upd_sch_def)
  ultimately have "readied p g g'" using g'(2) sig_frame_trans [of g h g'] by (simp add: readied_def)
  then show ?thesis using g'(1) by (simp add: psig_runfast_def h)
qed

text \<open>What \<open>psig_prepare\<close> does to the pending signals.\<close>

definition orphan_stop :: "nat \<Rightarrow> nat \<Rightarrow> u32 \<Rightarrow> sigsys \<Rightarrow> bool" where
  "orphan_stop p n a g \<longleftrightarrow> sigprop n SA_STOP \<and> sigprop n SA_TTYSTOP \<and> jobc_of g p = Some 0 \<and> a = SIG_DFL"

definition posted :: "nat \<Rightarrow> u32 \<Rightarrow> u32" where
  "posted n l = (l AND NOT ((if sigprop n SA_CONT then stopsigmask else 0) OR (if sigprop n SA_STOP then contsigmask else 0))) OR sigmask n"

lemma posted_bit: "bit (posted n l) i \<longleftrightarrow> i = n - 1 \<and> i < 32 \<or>
    bit l i \<and> \<not> (sigprop n SA_CONT \<and> bit stopsigmask i) \<and> \<not> (sigprop n SA_STOP \<and> bit contsigmask i)"
  using bit_u32 [of l i] by (auto simp: posted_def sig_bits)

lemma psig_prepare_ok:
  assumes "jobc_of g p \<noteq> None"
  shows "\<exists>b g1 k. psig_prepare p n a g = Inr (b, g1) \<and> sch g1 = supd p (\<lambda>r. r\<lparr>p_nice := k\<rparr>) (sch g) \<and> tree g1 = tree g \<and>
    sframes g1 = sframes g \<and>
    (if orphan_stop p n a g then \<not> b \<and> p_siglist (sgp g1 p) = (if sigprop n SA_CONT then p_siglist (sgp g p) AND NOT stopsigmask else p_siglist (sgp g p))
     else (b \<longleftrightarrow> \<not> (a = SIG_HOLD \<and> (\<not> sigprop n SA_CONT \<or> p_stat (sproc g p) \<noteq> SSTOP))) \<and> p_siglist (sgp g1 p) = posted n (p_siglist (sgp g p))) \<and>
    sgp g1 = (sgp g)(p := (sgp g p)\<lparr>p_siglist := p_siglist (sgp g1 p)\<rparr>)"
proof -
  define k where k: "k = (if 0 < p_nice (sproc g p) \<and> a = SIG_DFL \<and> sigprop n SA_KILL \<and> P_TRACED \<notin> p_flag (sproc g p) then 0 else p_nice (sproc g p))"
  define g1 where g1: "g1 = g\<lparr>sch := supd p (\<lambda>r. r\<lparr>p_nice := k\<rparr>) (sch g)\<rparr>"
  have e1: "(if 0 < p_nice (sproc g p) \<and> a = SIG_DFL \<and> sigprop n SA_KILL \<and> P_TRACED \<notin> p_flag (sproc g p)
      then upd_sch p (\<lambda>r. r\<lparr>p_nice := 0\<rparr>) g else g) = g1" by (simp add: g1 k upd_sch_def supd_def)
  show ?thesis
  proof (cases "orphan_stop p n a g")
    case True
    let ?g = "if sigprop n SA_CONT then clear p stopsigmask g1 else g1"
    have "psig_prepare p n a g = Inr (False, ?g)"
      using True assms unfolding psig_prepare_def e1 by (simp add: orphan_stop_def Let_def)
    moreover have "sgp ?g = (sgp g)(p := (sgp g p)\<lparr>p_siglist := p_siglist (sgp ?g p)\<rparr>)" by (simp add: g1 clear_def upd_sig_def)
    moreover have "sch ?g = supd p (\<lambda>r. r\<lparr>p_nice := k\<rparr>) (sch g)" "tree ?g = tree g" "sframes ?g = sframes g"
      by (simp_all add: g1 clear_def upd_sig_def)
    ultimately show ?thesis using True by (intro exI [of _ False] exI [of _ ?g] exI [of _ k]) (simp add: g1)
  next
    case False
    let ?c = "if sigprop n SA_CONT then clear p stopsigmask g1 else g1"
    let ?g = "post p (sigmask n) (if sigprop n SA_STOP then clear p contsigmask ?c else ?c)"
    let ?b = "\<not> (a = SIG_HOLD \<and> (\<not> sigprop n SA_CONT \<or> p_stat (sproc g p) \<noteq> SSTOP))"
    have "psig_prepare p n a g = Inr (?b, ?g)"
      using False assms unfolding psig_prepare_def e1 by (auto simp: orphan_stop_def Let_def)
    moreover have "p_siglist (sgp ?g p) = posted n (p_siglist (sgp g p))"
      by (auto simp: g1 post_def clear_def upd_sig_def posted_def and.assoc)
    moreover have "sgp ?g = (sgp g)(p := (sgp g p)\<lparr>p_siglist := p_siglist (sgp ?g p)\<rparr>)"
      by (auto simp: g1 post_def clear_def upd_sig_def)
    moreover have "sch ?g = supd p (\<lambda>r. r\<lparr>p_nice := k\<rparr>) (sch g)" "tree ?g = tree g" "sframes ?g = sframes g"
      by (auto simp: g1 post_def clear_def upd_sig_def)
    ultimately show ?thesis using False by (intro exI [of _ ?b] exI [of _ ?g] exI [of _ k]) simp
  qed
qed

section \<open>No signal is missed\<close>

text \<open>
  A process that sleeps interruptibly, or is stopped in such a sleep, has no signal that \<open>issignal\<close> would look at: it would sleep on
  with a signal to be delivered.
\<close>

definition alert :: "sigsys \<Rightarrow> nat \<Rightarrow> bool" where
  "alert g p \<longleftrightarrow> (P_SINTR \<in> p_flag (sproc g p) \<and> P_TRACED \<notin> p_flag (sproc g p) \<and> p_wchan (sproc g p) \<noteq> None \<longrightarrow> pendmask p g = 0)"

lemma pendmask_bit: "bit (pendmask p g) i \<longleftrightarrow> bit (p_siglist (sgp g p)) i \<and> \<not> bit (p_sigmask (sgp g p)) i \<and>
    \<not> (P_PPWAIT \<in> p_flag (sproc g p) \<and> bit stopsigmask i)"
  using bit_u32 [of "p_siglist (sgp g p)" i] by (auto simp: pendmask_def Let_def sig_bits)

lemma pendmask0: "pendmask p g = 0 \<longleftrightarrow> (\<forall>i. bit (p_siglist (sgp g p)) i \<longrightarrow> bit (p_sigmask (sgp g p)) i \<or>
    P_PPWAIT \<in> p_flag (sproc g p) \<and> bit stopsigmask i)"
  by (auto simp: bit_eq_iff [of "pendmask p g" 0] pendmask_bit dest: bit_u32)

lemma proc_frame_flag: "proc_frame r r' \<Longrightarrow> f \<noteq> P_WAITED \<Longrightarrow> f \<in> p_flag r' \<longleftrightarrow> f \<in> p_flag r"
  by (auto simp: proc_frame_def)

lemma alert_step:
  assumes "sig_frame g g'" "alert g x"
    "\<And>i. p_wchan (sproc g' x) \<noteq> None \<Longrightarrow> P_SINTR \<in> p_flag (sproc g x) \<Longrightarrow> P_TRACED \<notin> p_flag (sproc g x) \<Longrightarrow>
       bit (p_siglist (sgp g' x)) i \<Longrightarrow>
       bit (p_siglist (sgp g x)) i \<or> bit (p_sigmask (sgp g x)) i \<or> P_PPWAIT \<in> p_flag (sproc g x) \<and> bit stopsigmask i"
  shows "alert g' x"
proof -
  have f: "proc_frame (sproc g x) (sproc g' x)" "p_sigmask (sgp g' x) = p_sigmask (sgp g x)"
    using assms(1) by (auto simp: sig_frame_def disp_frame_def)
  note fl = proc_frame_flag [OF f(1)]
  have "p_wchan (sproc g x) \<noteq> None" if "p_wchan (sproc g' x) \<noteq> None" using f(1) that by (auto simp: proc_frame_def)
  then show ?thesis using assms(2,3) unfolding alert_def pendmask0 by (auto simp: fl f(2))
qed

lemma alert_same: "sig_frame g g' \<Longrightarrow> sgp g' x = sgp g x \<Longrightarrow> alert g x \<Longrightarrow> alert g' x"
  by (rule alert_step) auto

text \<open>
  \<open>settled\<close>: what the second half of \<open>psignal\<close>, after the signal \<open>n\<close> has been posted, leaves behind for \<open>p\<close>: it does not wait any more, or
  the signal is gone, or nothing is to be done about it now.
\<close>

definition settled :: "nat \<Rightarrow> nat \<Rightarrow> u32 \<Rightarrow> sigsys \<Rightarrow> sigsys \<Rightarrow> bool" where
  "settled p n a g g' \<longleftrightarrow> sched_ok (sch g') \<and> sig_frame g g' \<and> (\<forall>i. bit (p_siglist (sgp g' p)) i \<longrightarrow> bit (p_siglist (sgp g p)) i) \<and>
     (p_wchan (sproc g' p) = None \<or> P_SINTR \<notin> p_flag (sproc g p) \<or> P_TRACED \<in> p_flag (sproc g p) \<or>
      \<not> bit (p_siglist (sgp g' p)) (n - 1) \<or> a = SIG_HOLD \<or> P_PPWAIT \<in> p_flag (sproc g p) \<and> bit stopsigmask (n - 1))"

lemma readied_settled: "readied p g g' \<Longrightarrow> settled p n a g g'"
  by (simp add: readied_def settled_def)

lemma spares_refl: "spares p s s" "sprocs t = (sprocs s)(p := r) \<Longrightarrow> proc0 t = proc0 s \<Longrightarrow> scur t = scur s \<Longrightarrow> scallq t = scallq s \<Longrightarrow>
    snow t = snow s \<Longrightarrow> sruntime t = sruntime s \<Longrightarrow> spares p s t"
  by (simp_all add: spares_def)

lemma clear_simps [simp]: "sch (clear p m g) = sch g" "tree (clear p m g) = tree g" "x \<noteq> p \<Longrightarrow> sgp (clear p m g) x = sgp g x"
  by (simp_all add: clear_def upd_sig_def)

lemma clear_run:
  assumes "readied p (clear p m g) g'"
  shows "settled p n a g g'" "spares p (sch g) (sch g')" "\<forall>x. x \<noteq> p \<longrightarrow> sgp g' x = sgp g x"
  using assms sig_frame_trans [of g "clear p m g" g'] by (auto simp: readied_def settled_def bit_and_iff)

lemma psig_stopped_ok:
  assumes "sched_ok (sch g)" "p_stat (sproc g p) = SSTOP" "0 < n" "n < 32" "a = SIG_DFL \<or> a = SIG_CATCH \<or> a = SIG_HOLD"
  shows "\<exists>g'. psig_stopped p n a g = Some (Inr g') \<and> settled p n a g g' \<and> spares p (sch g) (sch g') \<and> (\<forall>x. x \<noteq> p \<longrightarrow> sgp g' x = sgp g x)"
proof -
  note run = psig_run_ok [OF assms(1)] psig_runfast_ok [OF assms(1)]
  have readiedD: "settled p n a g g' \<and> spares p (sch g) (sch g') \<and> (\<forall>x. x \<noteq> p \<longrightarrow> sgp g' x = sgp g x)" if "readied p g g'" for g'
    using that readied_settled by (simp add: readied_def)
  consider (traced) "P_TRACED \<in> p_flag (sproc g p)" | (kill) "P_TRACED \<notin> p_flag (sproc g p)" "n = SIGKILL"
    | (cont) "P_TRACED \<notin> p_flag (sproc g p)" "n \<noteq> SIGKILL" "sigprop n SA_CONT"
    | (stop) "P_TRACED \<notin> p_flag (sproc g p)" "n \<noteq> SIGKILL" "\<not> sigprop n SA_CONT" "sigprop n SA_STOP"
    | (other) "P_TRACED \<notin> p_flag (sproc g p)" "n \<noteq> SIGKILL" "\<not> sigprop n SA_CONT" "\<not> sigprop n SA_STOP" by blast
  then show ?thesis
  proof cases
    case traced
    then show ?thesis using assms(1) by (auto simp: psig_stopped_def Let_def settled_def spares_refl)
  next
    case kill
    then show ?thesis using run(2) [of p] assms(2) readiedD by (auto simp: psig_stopped_def Let_def)
  next
    case cont
    let ?m = "if a = SIG_DFL then sigmask n else 0"
    have e: "(if a = SIG_DFL then clear p (sigmask n) g else g) = clear p ?m g"
      by (simp add: clear_def upd_sig_def)
    have c: "sched_ok (sch (clear p ?m g))" "p_stat (sproc (clear p ?m g) p) = SSTOP \<or> p_stat (sproc (clear p ?m g) p) = SSLEEP"
      using assms by simp_all
    show ?thesis
    proof (cases "a = SIG_CATCH \<or> p_wchan (sproc g p) = None")
      case True
      then show ?thesis using psig_run_ok [OF c] psig_runfast_ok [OF c] clear_run cont unfolding psig_stopped_def e by (auto simp: Let_def)
    next
      case False
      let ?f = "\<lambda>r. r\<lparr>p_stat := SSLEEP\<rparr>"
      let ?g = "upd_sch p ?f (clear p ?m g)"
      obtain s' where "continue_p p (sch g) = Some (Inr s')" "sched_ok s'" using continue_ok [OF assms(1,2)] by blast
      then have "sched_ok (sch ?g)" using False by (auto simp: continue_p_def upd_sch_def)
      moreover have "sig_frame g ?g" by (rule sig_frame_trans [OF _ sig_frame_upd]) (simp_all add: proc_frame_def)
      moreover have "spares p (sch g) (sch ?g)" by (simp add: upd_sch_def spares_def)
      moreover have "a = SIG_HOLD \<or> \<not> bit (p_siglist (sgp ?g p)) (n - 1)"
        using assms(3-5) False by (auto simp: upd_sch_def bit_and_iff bit_not_iff sigmask_bit)
      ultimately show ?thesis using False cont unfolding psig_stopped_def e settled_def
        by (intro exI [of _ ?g]) (auto simp: Let_def upd_sch_def bit_and_iff)
    qed
  next
    case stop
    let ?g = "clear p (sigmask n) g"
    have "\<not> bit (p_siglist (sgp ?g p)) (n - 1)" using assms(3,4) by (auto simp: sig_bits)
    then show ?thesis using stop assms(1) by (auto simp: psig_stopped_def Let_def settled_def spares_refl bit_and_iff)
  next
    case other
    show ?thesis
    proof (cases "p_wchan (sproc g p) \<noteq> None \<and> P_SINTR \<in> p_flag (sproc g p)")
      case True
      obtain t where t: "unsleep p (sch g) = Some (Inr t)" "sched_ok t" "same_rest (sch g) t" "sprocs t = (sprocs (sch g))(p := (sproc g p)\<lparr>p_wchan := None\<rparr>)"
        using unsleep_stopped [OF assms(1,2)] by blast
      then have "sig_frame g (g\<lparr>sch := t\<rparr>)" by (intro sig_frame_sch) (auto simp: same_rest_def proc_frame_def)
      moreover have "spares p (sch g) t" using t(3,4) by (intro spares_refl(2)) (simp_all add: same_rest_def)
      ultimately show ?thesis using True other t by (auto simp: psig_stopped_def Let_def settled_def on_sch_ok)
    next
      case False
      then show ?thesis using other assms(1) by (auto simp: psig_stopped_def Let_def settled_def spares_refl)
    qed
  qed
qed

text \<open>The conclusion for a whole call of \<open>psignal\<close>.\<close>

definition psig_ok :: "nat \<Rightarrow> nat \<Rightarrow> sigsys \<Rightarrow> sigsys \<Rightarrow> bool" where
  "psig_ok p n g g' \<longleftrightarrow> sched_ok (sch g') \<and> sig_frame g g' \<and> (\<forall>x. alert g x \<longrightarrow> alert g' x) \<and>
     (\<not> sigprop n SA_STOP \<longrightarrow> spares p (sch g) (sch g') \<and> (\<forall>x. x \<noteq> p \<longrightarrow> sgp g' x = sgp g x))"

lemma sig_action_cases: "sig_action p n g = SIG_DFL \<or> sig_action p n g = SIG_CATCH \<or> sig_action p n g = SIG_HOLD"
  by (simp add: sig_action_def)

lemma sig_action_hold: "0 < n \<Longrightarrow> n < 32 \<Longrightarrow> sig_action p n g = SIG_HOLD \<Longrightarrow> bit (p_sigmask (sgp g p)) (n - 1)"
  by (auto simp: sig_action_def split: if_splits)

lemma settled_alert:
  assumes "settled p n (sig_action p n g) g1 g'" "sig_frame g g1" "p_siglist (sgp g1 p) = posted n (p_siglist (sgp g p))"
    "alert g p" "0 < n" "n < 32"
  shows "alert g' p"
proof (rule alert_step [OF _ assms(4)])
  show "sig_frame g g'" using assms(1,2) sig_frame_trans by (auto simp: settled_def)
  fix i
  have fl: "f \<in> p_flag (sproc g1 p) \<longleftrightarrow> f \<in> p_flag (sproc g p)" if "f \<noteq> P_WAITED" for f
    using assms(2) proc_frame_flag that by (simp add: sig_frame_def)
  assume a: "p_wchan (sproc g' p) \<noteq> None" "P_SINTR \<in> p_flag (sproc g p)" "P_TRACED \<notin> p_flag (sproc g p)" "bit (p_siglist (sgp g' p)) i"
  then have "bit (posted n (p_siglist (sgp g p))) i" using assms(1,3) by (auto simp: settled_def)
  moreover have "bit (p_sigmask (sgp g p)) i \<or> P_PPWAIT \<in> p_flag (sproc g p) \<and> bit stopsigmask i" if "i = n - 1"
    using assms(1) a that sig_action_hold [OF assms(5,6)] fl by (auto simp: settled_def)
  ultimately show "bit (p_siglist (sgp g p)) i \<or> bit (p_sigmask (sgp g p)) i \<or> P_PPWAIT \<in> p_flag (sproc g p) \<and> bit stopsigmask i"
    by (auto simp: posted_bit)
qed

text \<open>The part of \<open>psignal\<close> that depends on the state of the process.\<close>

definition psig_act :: "nat \<Rightarrow> nat \<Rightarrow> u32 \<Rightarrow> nat option \<Rightarrow> sigsys \<Rightarrow> (sfault + sigsys) option" where
  "psig_act p n a parent g1 =
     (let r = sproc g1 p in
      case p_stat r of
        SSLEEP \<Rightarrow>
          if P_SINTR \<notin> p_flag r then Some (Inr g1)
          else if P_TRACED \<in> p_flag r then psig_run p g1
          else if sigprop n SA_CONT \<and> a = SIG_DFL then Some (Inr (clear p (sigmask n) g1))
          else if sigprop n SA_STOP then
            if a \<noteq> SIG_DFL then psig_runfast p g1
            else if P_PPWAIT \<in> p_flag r then Some (Inr g1)
            else
              let g2 = upd_sig p (\<lambda>q. q\<lparr>p_siglist := p_siglist q AND NOT (sigmask n), p_xstat := n\<rparr>) g1 in
              (case parent of
                 None \<Rightarrow> Some (Inl Null_link)
               | Some pp \<Rightarrow>
                   sthen (if P_NOCLDSTOP \<notin> p_flag (sproc g2 pp) then psignal pp SIGCHLD g2 else Some (Inr g2))
                     (on_sch (stop p (of_nat pp))))
          else psig_runfast p g1
      | SSTOP \<Rightarrow> psig_stopped p n a g1
      | _ \<Rightarrow> Some (Inr (if scur (sch g1) = Some p then g1\<lparr>sast := True\<rparr> else g1)))"

lemma psignal_go:
  assumes "0 < n" "n < 32" "\<not> (P_TRACED \<notin> p_flag (sproc g p) \<and> p_sigignore (sgp g p) AND sigmask n \<noteq> 0)"
    "psig_prepare p n (sig_action p n g) g = Inr (b, g1)"
  shows "psignal p n g = (if b then psig_act p n (sig_action p n g) (parent_of g p) g1 else Some (Inr g1))"
proof -
  have n: "\<not> (NSIG \<le> n \<or> n = 0)" using assms(1,2) by simp
  show ?thesis unfolding psignal.simps [of p n g] if_not_P [OF n] if_not_P [OF assms(3)] Let_def assms(4) sum.case prod.case psig_act_def
    by (cases b) (simp_all only: bool.case if_True if_False)
qed

text \<open>The stop of a sleeping process: its parent gets a signal first.\<close>

lemma stop_frame:
  assumes "sched_ok (sch g)" "p_stat (sproc g p) = SSLEEP"
  shows "\<exists>g'. on_sch (stop p c) g = Some (Inr g') \<and> sched_ok (sch g') \<and> sig_frame g g' \<and> sgp g' = sgp g"
proof -
  let ?t = "supd p (\<lambda>r. r\<lparr>p_stat := SSTOP, p_flag := p_flag r - {P_WAITED}\<rparr>) (sch g)"
  obtain s where s: "stop p c (sch g) = Some (Inr s)" "sched_ok s" "scallq s = scallq (sch g)" "wk_rel {c, proc0 (sch g)} ?t s"
    using stop_ok [OF assms] by blast
  have "proc_frame (sproc g x) (sprocs ?t x)" for x by (auto simp: proc_frame_def)
  then have "proc_frame (sproc g x) (sprocs s x)" for x using wk_rel_frame [OF s(4)] proc_frame_trans by blast
  moreover have "proc0 s = proc0 (sch g)" "scur s = scur (sch g)" using s(4) by (auto simp: wk_rel_def same_rest_def)
  ultimately have "sig_frame g (g\<lparr>sch := s\<rparr>)" using s(3) by (intro sig_frame_sch)
  then show ?thesis using s(1,2) by (simp add: on_sch_ok)
qed

lemma psignal_stops:
  assumes "psignal p n g = (let g2 = upd_sig p (\<lambda>q. q\<lparr>p_siglist := p_siglist q AND NOT (sigmask n), p_xstat := n\<rparr>) g1 in
      (case parent_of g p of
         None \<Rightarrow> Some (Inl Null_link)
       | Some pp \<Rightarrow>
           sthen (if P_NOCLDSTOP \<notin> p_flag (sproc g2 pp) then psignal pp SIGCHLD g2 else Some (Inr g2)) (on_sch (stop p (of_nat pp)))))"
    "sched_ok (sch g1)" "p_stat (sproc g1 p) = SSLEEP" "P_SINTR \<in> p_flag (sproc g1 p)" "sigprop n SA_STOP" "sig_frame g g1"
    "\<And>x. x \<noteq> p \<Longrightarrow> sgp g1 x = sgp g x" "p_siglist (sgp g1 p) = posted n (p_siglist (sgp g p))"
    "0 < n" "n < 32" "sintr_ok g" "slinks_ok (tree g)"
    "\<And>pp g2. sigprop n SA_STOP \<Longrightarrow> parent_of g p = Some pp \<Longrightarrow> pprocs (tree g2) pp \<noteq> None \<Longrightarrow> sched_ok (sch g2) \<Longrightarrow> sig_frame g g2 \<Longrightarrow>
       \<exists>g'. psignal pp SIGCHLD g2 = Some (Inr g') \<and> psig_ok pp SIGCHLD g2 g'"
  shows "\<exists>g'. psignal p n g = Some (Inr g') \<and> psig_ok p n g g'"
proof -
  let ?f = "\<lambda>q. q\<lparr>p_siglist := p_siglist q AND NOT (sigmask n), p_xstat := n\<rparr>"
  define g2 where g2: "g2 = upd_sig p ?f g1"
  have s2: "sch g2 = sch g1" "tree g2 = tree g" using assms(6) by (simp_all add: g2 upd_sig_def sig_frame_def)
  have "sintr_ok g1" using sintr_ok_frame [OF assms(6,11)] .
  then obtain r where r: "p_wchan (sproc g1 p) \<noteq> Some (proc0 (sch g1))" "pprocs (tree g) p = Some r" "pp_pid r \<noteq> 0"
    using assms(4,6) by (auto simp: sintr_ok_def sig_frame_def)
  obtain pp where pp: "parent_of g p = Some pp" "pp \<noteq> p" "pprocs (tree g) pp \<noteq> None" using parent_ex [OF assms(12) r(2,3)] .
  have "sig_frame g1 g2" unfolding g2 by (rule sig_frame_sig) (simp add: disp_frame_def bit_and_iff)
  then have f2: "sig_frame g g2" using assms(6) sig_frame_trans by blast
  have a2: "alert g2 x" if al: "alert g x" for x
  proof (cases "x = p")
    case True
    have "bit (p_siglist (sgp g p)) i" if "bit (p_siglist (sgp g2 p)) i" for i
      using that assms(8) by (auto simp: g2 upd_sig_def sig_bits posted_bit)
    then show ?thesis using alert_step [OF f2 al] True by blast
  qed (use alert_same [OF f2 _ al] assms(7) in \<open>simp add: g2 upd_sig_def\<close>)
  obtain g3 where g3: "(if P_NOCLDSTOP \<notin> p_flag (sproc g2 pp) then psignal pp SIGCHLD g2 else Some (Inr g2)) = Some (Inr g3)" "psig_ok pp SIGCHLD g2 g3"
  proof (cases "P_NOCLDSTOP \<notin> p_flag (sproc g2 pp)")
    case True
    then show ?thesis using that assms(13) [OF assms(5) pp(1) _ _ f2] assms(2) s2 pp(3) by auto
  next
    case False
    then show ?thesis using that [of g2] assms(2) s2 by (simp add: psig_ok_def spares_refl)
  qed
  have "sproc g3 p = sproc g1 p" using g3(2) pp(2) r(1) s2 by (simp add: psig_ok_def spares_def sigprop_chld)
  then obtain g4 where g4: "on_sch (stop p (of_nat pp)) g3 = Some (Inr g4)" "sched_ok (sch g4)" "sig_frame g3 g4" "sgp g4 = sgp g3"
    using stop_frame [of g3 p "of_nat pp"] g3(2) assms(3) unfolding psig_ok_def by auto
  have "sig_frame g g4" using f2 g3(2) g4(3) sig_frame_trans unfolding psig_ok_def by blast
  moreover have "alert g4 x" if "alert g x" for x using alert_same [OF g4(3)] g3(2) a2 [OF that] g4(4) by (simp add: psig_ok_def)
  moreover have "psignal p n g = Some (Inr g4)" unfolding assms(1) g2 [symmetric] Let_def pp(1) option.case g3(1) sthen_def by (simp add: g4(1))
  ultimately show ?thesis using g4(2) assms(5) by (simp add: psig_ok_def)
qed

lemma psignal_body:
  assumes "sched_ok (sch g)" "0 < n" "n < 32" "sintr_ok g" "slinks_ok (tree g)" "pprocs (tree g) p \<noteq> None"
    "\<And>pp g2. sigprop n SA_STOP \<Longrightarrow> parent_of g p = Some pp \<Longrightarrow> pprocs (tree g2) pp \<noteq> None \<Longrightarrow> sched_ok (sch g2) \<Longrightarrow> sig_frame g g2 \<Longrightarrow>
       \<exists>g'. psignal pp SIGCHLD g2 = Some (Inr g') \<and> psig_ok pp SIGCHLD g2 g'"
  shows "\<exists>g'. psignal p n g = Some (Inr g') \<and> psig_ok p n g g'"
proof (cases "P_TRACED \<notin> p_flag (sproc g p) \<and> p_sigignore (sgp g p) AND sigmask n \<noteq> 0")
  case True
  then have "psignal p n g = Some (Inr g)" using assms(2,3) by (simp add: psignal.simps)
  then show ?thesis using assms(1) by (simp add: psig_ok_def spares_refl)
next
  case go: False
  let ?a = "sig_action p n g"
  obtain b g1 k where g1: "psig_prepare p n ?a g = Inr (b, g1)" "sch g1 = supd p (\<lambda>r. r\<lparr>p_nice := k\<rparr>) (sch g)" "tree g1 = tree g" "sframes g1 = sframes g"
    "if orphan_stop p n ?a g then \<not> b \<and> p_siglist (sgp g1 p) = (if sigprop n SA_CONT then p_siglist (sgp g p) AND NOT stopsigmask else p_siglist (sgp g p))
     else (b \<longleftrightarrow> \<not> (?a = SIG_HOLD \<and> (\<not> sigprop n SA_CONT \<or> p_stat (sproc g p) \<noteq> SSTOP))) \<and> p_siglist (sgp g1 p) = posted n (p_siglist (sgp g p))"
    "sgp g1 = (sgp g)(p := (sgp g p)\<lparr>p_siglist := p_siglist (sgp g1 p)\<rparr>)"
    using psig_prepare_ok [OF jobc_ex [OF assms(5,6)], of n ?a] by blast
  have s1: "sched_ok (sch g1)" unfolding g1(2) by (rule sched_supd) (use assms(1) sched_usrpri [OF assms(1), of p] in auto)
  have b31: "bit (p_siglist (sgp g p)) 31" if "bit (p_siglist (sgp g1 p)) 31"
    using that g1(5) assms(2,3) by (auto simp: posted_bit bit_and_iff split: if_splits)
  have f1: "sig_frame g g1" unfolding sig_frame_def
  proof (intro conjI allI)
    fix x
    show "disp_frame (sgp g x) (sgp g1 x)" using b31 by (subst g1(6)) (auto simp: disp_frame_def)
  qed (simp_all add: g1(2-4) proc_frame_def)
  have p1: "p_stat (sproc g1 p) = p_stat (sproc g p)" "p_flag (sproc g1 p) = p_flag (sproc g p)" "p_wchan (sproc g1 p) = p_wchan (sproc g p)"
    "spares p (sch g) (sch g1)" by (simp_all add: g1(2) spares_def)
  have o1: "sgp g1 x = sgp g x" if "x \<noteq> p" for x using that by (subst g1(6)) simp
  have fin: "psig_ok p n g g'" if st: "settled p n ?a g1 g'" and po: "p_siglist (sgp g1 p) = posted n (p_siglist (sgp g p))"
      and sp: "spares p (sch g1) (sch g')" and ot: "\<forall>x. x \<noteq> p \<longrightarrow> sgp g' x = sgp g1 x" for g'
  proof -
    have fr: "sig_frame g g'" using st f1 sig_frame_trans by (auto simp: settled_def)
    have "alert g' x" if "alert g x" for x
    proof (cases "x = p")
      case True
      then show ?thesis using settled_alert [OF st f1 po _ assms(2,3)] that by simp
    next
      case False
      then show ?thesis using alert_same [OF fr _ that] ot o1 by simp
    qed
    moreover have "spares p (sch g) (sch g')" using sp by (auto simp: spares_def g1(2))
    ultimately show ?thesis using st fr ot o1 by (simp add: psig_ok_def settled_def)
  qed
  note ps = psignal_go [OF assms(2,3) go g1(1), unfolded psig_act_def]
  show ?thesis
  proof (cases b)
    case False
    have "alert g1 x" if "alert g x" for x
    proof (cases "x = p")
      case True
      have "bit (p_siglist (sgp g p)) i \<or> bit (p_sigmask (sgp g p)) i" if "bit (p_siglist (sgp g1 p)) i" for i
        using g1(5) False that sig_action_hold [OF assms(2,3), of p g] by (auto simp: posted_bit bit_and_iff split: if_splits)
      then show ?thesis using alert_step [OF f1] that True by blast
    qed (use alert_same [OF f1] o1 that in simp)
    then show ?thesis using False ps s1 f1 p1(4) o1 by (simp add: psig_ok_def)
  next
    case b: True
    then have po: "p_siglist (sgp g1 p) = posted n (p_siglist (sgp g p))" and no: "\<not> orphan_stop p n ?a g" using g1(5) by (auto split: if_splits)
    have stay: ?thesis if "psignal p n g = Some (Inr g')" "settled p n ?a g1 g'" "sch g' = sch g1" "\<forall>x. x \<noteq> p \<longrightarrow> sgp g' x = sgp g1 x" for g'
      using fin [OF that(2) po] that by (auto simp: spares_refl)
    have runs: ?thesis if rc: "psignal p n g = psig_run p g1 \<or> psignal p n g = psig_runfast p g1" "p_stat (sproc g1 p) = SSLEEP \<or> p_stat (sproc g1 p) = SSTOP"
    proof -
      obtain g' where "psignal p n g = Some (Inr g')" "readied p g1 g'" using rc psig_run_ok [OF s1, of p] psig_runfast_ok [OF s1, of p] by auto
      then show ?thesis using fin [OF readied_settled po] by (auto simp: readied_def)
    qed
    have idle: ?thesis if st: "p_stat (sproc g1 p) \<noteq> SSLEEP" "p_stat (sproc g1 p) \<noteq> SSTOP"
    proof (rule stay)
      show "psignal p n g = Some (Inr (if scur (sch g1) = Some p then g1\<lparr>sast := True\<rparr> else g1))"
        using st unfolding ps Let_def by (cases "p_stat (sproc g1 p)") (simp_all add: b)
      show "settled p n ?a g1 (if scur (sch g1) = Some p then g1\<lparr>sast := True\<rparr> else g1)"
        using s1 st sched_waits [OF s1, of p] by (auto simp: settled_def sig_frame_def)
    qed simp_all
    show ?thesis
    proof (cases "p_stat (sproc g1 p)")
      case SSTOP
      then obtain g' where "psig_stopped p n ?a g1 = Some (Inr g')" "settled p n ?a g1 g'" "spares p (sch g1) (sch g')" "\<forall>x. x \<noteq> p \<longrightarrow> sgp g' x = sgp g1 x"
        using psig_stopped_ok [OF s1 _ assms(2,3) sig_action_cases] by blast
      then show ?thesis using fin [OF _ po] b SSTOP ps by (simp add: Let_def)
    next
      case SSLEEP
      consider (off) "P_SINTR \<notin> p_flag (sproc g1 p)" | (run) "psignal p n g = psig_run p g1 \<or> psignal p n g = psig_runfast p g1"
        | (cont) "psignal p n g = Some (Inr (clear p (sigmask n) g1))"
        | (vfork) "P_PPWAIT \<in> p_flag (sproc g1 p)" "sigprop n SA_STOP" "psignal p n g = Some (Inr g1)"
        | (stop) "P_SINTR \<in> p_flag (sproc g1 p)" "sigprop n SA_STOP"
          "psignal p n g = (let g2 = upd_sig p (\<lambda>q. q\<lparr>p_siglist := p_siglist q AND NOT (sigmask n), p_xstat := n\<rparr>) g1 in
             (case parent_of g p of
                None \<Rightarrow> Some (Inl Null_link)
              | Some pp \<Rightarrow>
                  sthen (if P_NOCLDSTOP \<notin> p_flag (sproc g2 pp) then psignal pp SIGCHLD g2 else Some (Inr g2)) (on_sch (stop p (of_nat pp)))))"
        using ps SSLEEP b by (simp add: Let_def split: if_splits)
      then show ?thesis
      proof cases
        case off
        then show ?thesis using ps SSLEEP b s1 by (intro stay [of g1]) (auto simp: settled_def Let_def)
      next
        case run
        then show ?thesis by (rule runs) (simp add: SSLEEP)
      next
        case cont
        have "\<not> bit (p_siglist (sgp (clear p (sigmask n) g1) p)) (n - 1)" using assms(2,3) by (auto simp: sig_bits)
        then show ?thesis using cont s1 by (intro stay [OF cont]) (auto simp: settled_def bit_and_iff)
      next
        case vfork
        then show ?thesis using s1 sigprop_stop [OF assms(2,3)] by (intro stay [of g1]) (auto simp: settled_def)
      next
        case stop
        show ?thesis by (rule psignal_stops [OF stop(3) s1 SSLEEP stop(1,2) f1 o1 po assms(2-5)]) (assumption | rule assms(7))+
      qed
    qed (use idle in simp_all)
  qed
qed

text \<open>Posting a signal does not fail, keeps the queues, and no sleeping process misses it.\<close>

lemma psignal_ok:
  assumes "sched_ok (sch g)" "0 < n" "n < 32" "sintr_ok g" "slinks_ok (tree g)" "pprocs (tree g) p \<noteq> None"
  shows "\<exists>g'. psignal p n g = Some (Inr g') \<and> psig_ok p n g g'"
proof (rule psignal_body [OF assms])
  fix pp g2
  assume a: "pprocs (tree g2) pp \<noteq> None" "sched_ok (sch g2)" "sig_frame g g2"
  have b: "sintr_ok g2" "slinks_ok (tree g2)" using a(3) sintr_ok_frame assms(4,5) by (auto simp: sig_frame_def)
  show "\<exists>g'. psignal pp SIGCHLD g2 = Some (Inr g') \<and> psig_ok pp SIGCHLD g2 g'"
    by (rule psignal_body [OF a(2) _ _ b a(1)]) (simp_all add: sigprop_chld)
qed

section \<open>Signals while the running process leaves\<close>

definition with_cur :: "nat option \<Rightarrow> sigsys \<Rightarrow> sigsys" where
  "with_cur x g = g\<lparr>sch := with_scur x (sch g)\<rparr>"

lemma with_cur_simps [simp]:
  "sprocs (sch (with_cur x g)) = sprocs (sch g)" "sgp (with_cur x g) = sgp g" "tree (with_cur x g) = tree g" "sframes (with_cur x g) = sframes g"
  "scur (sch (with_cur x g)) = x" "jobc_of (with_cur x g) = jobc_of g" "parent_of (with_cur x g) = parent_of g"
  "upd_sig p f (with_cur x g) = with_cur x (upd_sig p f g)" "upd_sch p f' (with_cur x g) = with_cur x (upd_sch p f' g)"
  "clear p m (with_cur x g) = with_cur x (clear p m g)" "post p m (with_cur x g) = with_cur x (post p m g)"
  "sig_action p n (with_cur x g) = sig_action p n g" "with_cur y (with_cur x g) = with_cur y g"
  by (simp_all add: with_cur_def fun_eq_iff jobc_of_def parent_of_def upd_sig_def upd_sch_def clear_def post_def sig_action_def)

lemma with_cur_id: "scur (sch g) = x \<Longrightarrow> with_cur x g = g"
  by (auto simp: with_cur_def)

lemma on_sch_cur:
  assumes "\<And>s y. f s = Some y \<Longrightarrow> f (with_scur x s) = Some (map_sum id (with_scur x) y)" "on_sch f g = Some y"
  shows "on_sch f (with_cur x g) = Some (map_sum id (with_cur x) y)"
proof -
  obtain z where z: "f (sch g) = Some z" "y = map_sum id (\<lambda>t. g\<lparr>sch := t\<rparr>) z" using assms(2) by (auto simp: on_sch_def)
  show ?thesis using assms(1) [OF z(1)] z(2) by (cases z) (simp_all add: on_sch_def with_cur_def)
qed

lemma psig_run_cur:
  "psig_run p g = Some y \<Longrightarrow> psig_run p (with_cur x g) = Some (map_sum id (with_cur x) y)"
  "psig_runfast p g = Some y \<Longrightarrow> psig_runfast p (with_cur x g) = Some (map_sum id (with_cur x) y)"
proof -
  show r: "psig_run p (with_cur x g) = Some (map_sum id (with_cur x) y)" if "psig_run p g = Some y" for g y
    using that unfolding psig_run_def by (rule on_sch_cur [rotated]) (rule setrunnable_cur)
  show "psig_runfast p (with_cur x g) = Some (map_sum id (with_cur x) y)" if "psig_runfast p g = Some y"
    using that r unfolding psig_runfast_def by (auto split: if_splits)
qed

lemma psig_stopped_cur:
  assumes "psig_stopped p n a g = Some y"
  shows "psig_stopped p n a (with_cur x g) = Some (map_sum id (with_cur x) y)"
proof -
  have "on_sch (unsleep p) (with_cur x g) = Some (map_sum id (with_cur x) y)" if "on_sch (unsleep p) g = Some y"
    using that by (rule on_sch_cur [rotated]) (rule unsleep_cur)
  then show ?thesis using assms psig_run_cur [of p _ _ x] unfolding psig_stopped_def Let_def by (auto split: if_splits)
qed

lemma psig_prepare_cur: "psig_prepare p n a (with_cur x g) = map_sum id (map_prod id (with_cur x)) (psig_prepare p n a g)"
  by (simp add: psig_prepare_def Let_def)

text \<open>A request for a trap is only made for the running process.\<close>

abbreviation with_cur_ast :: "nat option \<Rightarrow> bool \<Rightarrow> sigsys \<Rightarrow> sigsys" where
  "with_cur_ast x b g \<equiv> (with_cur x g)\<lparr>sast := b\<rparr>"

lemma with_cur_ast_id: "with_cur_ast x (sast g) g = with_cur x g"
  by (simp add: with_cur_def)

lemma psignal_cur_ast:
  assumes "psignal p n g = Some y" "\<not> sigprop n SA_STOP"
  shows "\<exists>F. psignal p n (with_cur x g) = Some (map_sum id (\<lambda>h. with_cur_ast x (F h) h) y) \<and> ((scur (sch g) = Some p) = (x = Some p) \<longrightarrow> F = sast)"
proof (cases "NSIG \<le> n \<or> n = 0 \<or> P_TRACED \<notin> p_flag (sproc g p) \<and> p_sigignore (sgp g p) AND sigmask n \<noteq> 0")
  case True
  then have "psignal p n (with_cur x g) = Some (map_sum id (with_cur x) y)"
    using assms(1) by (subst (asm) psignal.simps, subst psignal.simps) (auto split: if_splits)
  then show ?thesis by (intro exI [of _ sast]) (simp add: with_cur_ast_id)
next
  case False
  let ?a = "sig_action p n g"
  show ?thesis
  proof (cases "psig_prepare p n ?a g")
    case (Inl f)
    then have "psignal p n (with_cur x g) = Some (map_sum id (with_cur x) y)"
      using False assms(1) by (subst (asm) psignal.simps, subst psignal.simps) (auto simp: psig_prepare_cur Let_def)
    then show ?thesis by (intro exI [of _ sast]) (simp add: with_cur_ast_id)
  next
    case (Inr z)
    obtain b g1 where z: "z = (b, g1)" by (cases z)
    have sc: "scur (sch g1) = scur (sch g)"
      using Inr z by (auto simp: psig_prepare_def Let_def clear_def post_def upd_sig_def upd_sch_def split: if_splits)
    have n: "0 < n" "n < 32" using False by auto
    have e: "psignal p n g = (if b then psig_act p n ?a (parent_of g p) g1 else Some (Inr g1))"
      "psignal p n (with_cur x g) = (if b then psig_act p n ?a (parent_of g p) (with_cur x g1) else Some (Inr (with_cur x g1)))"
    proof -
      have ng: "\<not> (P_TRACED \<notin> p_flag (sproc g p) \<and> p_sigignore (sgp g p) AND sigmask n \<noteq> 0)" using False by blast
      show "psignal p n g = (if b then psig_act p n ?a (parent_of g p) g1 else Some (Inr g1))" using psignal_go [OF n ng] Inr z by simp
      have "psig_prepare p n ?a (with_cur x g) = Inr (b, with_cur x g1)" using Inr z by (simp add: psig_prepare_cur)
      then show "psignal p n (with_cur x g) = (if b then psig_act p n ?a (parent_of g p) (with_cur x g1) else Some (Inr (with_cur x g1)))"
        using psignal_go [OF n, of "with_cur x g" p b "with_cur x g1", unfolded with_cur_simps, OF ng] by simp
    qed
    have act: "psig_act p n ?a pp (with_cur x g1) = Some (map_sum id (with_cur x) y)"
      if "psig_act p n ?a pp g1 = Some y" "p_stat (sproc g1 p) = SSLEEP \<or> p_stat (sproc g1 p) = SSTOP" for pp
      using that psig_stopped_cur [of p n ?a g1 y x] psig_run_cur [of p g1 y x] assms(2)
      by (auto simp: psig_act_def Let_def split: if_splits)
    have ast: "psig_act p n ?a pp (with_cur z g1) = Some (Inr (with_cur_ast z (z = Some p \<or> sast g1) g1))"
      if "\<not> (p_stat (sproc g1 p) = SSLEEP \<or> p_stat (sproc g1 p) = SSTOP)" for pp z
      using that by (cases "p_stat (sproc g1 p)") (auto simp: psig_act_def Let_def with_cur_def)
    show ?thesis
    proof (cases "b \<and> \<not> (p_stat (sproc g1 p) = SSLEEP \<or> p_stat (sproc g1 p) = SSTOP)")
      case True
      let ?F = "\<lambda>h. if (scur (sch g) = Some p) = (x = Some p) then sast h else x = Some p \<or> sast g1"
      have y: "y = Inr (with_cur_ast (scur (sch g)) (scur (sch g) = Some p \<or> sast g1) g1)"
        using True e(1) assms(1) ast [of _ "scur (sch g)"] sc with_cur_id [of g1] by auto
      have "psignal p n (with_cur x g) = Some (map_sum id (\<lambda>h. with_cur_ast x (?F h) h) y)"
        using True e(2) ast [of _ x] by (auto simp: y with_cur_def)
      then show ?thesis by (intro exI [of _ ?F]) auto
    next
      case no: False
      have "psignal p n (with_cur x g) = Some (map_sum id (with_cur x) y)" using assms(1) e act no by (auto split: if_splits)
      then show ?thesis by (intro exI [of _ sast]) (simp add: with_cur_ast_id)
    qed
  qed
qed

lemma psignal_cur:
  assumes "psignal p n g = Some y" "\<not> sigprop n SA_STOP" "(scur (sch g) = Some p) = (x = Some p)"
  shows "psignal p n (with_cur x g) = Some (map_sum id (with_cur x) y)"
  using psignal_cur_ast [OF assms(1,2), of x] assms(3) by (auto simp: with_cur_ast_id)

section \<open>Looking for a signal\<close>

text \<open>A pending signal that \<open>issignal\<close> drops for a process that is not traced.\<close>

definition droppable :: "nat \<Rightarrow> sigsys \<Rightarrow> nat \<Rightarrow> bool" where
  "droppable p g n \<longleftrightarrow> (let act = ps_sigact (p_sigacts (sgp g p)) n in
     act = SIG_IGN \<or> act = SIG_DFL \<and> (pid_of g p \<le> 1 \<or> sigprop n SA_IGNORE \<or> sigprop n SA_STOP \<and> sigprop n SA_TTYSTOP \<and> jobc_of g p = Some 0))"

text \<open>\<open>issignal\<close> without its loop: the lowest signal that is pending, not blocked and not to be dropped.\<close>

definition issignal_ref :: "nat \<Rightarrow> sigsys \<Rightarrow> (sfault + isres \<times> sigsys) option" where
  "issignal_ref p g =
     (case find (\<lambda>n. bit (pendmask p g) (n - 1) \<and> \<not> droppable p g n) [1..<32] of
        None \<Rightarrow> Some (Inr (Is_none, clear p (pendmask p g) g))
      | Some n \<Rightarrow>
          let g' = clear p (pendmask p g AND mask (n - 1)) g in
          if sigprop n SA_STOP \<and> ps_sigact (p_sigacts (sgp g p)) n = SIG_DFL then issignal_stop p n g' else Some (Inr (Is_sig n, g')))"

lemma sigprop_excl: "0 < n \<Longrightarrow> n < 32 \<Longrightarrow> sigprop n SA_STOP \<Longrightarrow> \<not> sigprop n SA_IGNORE"
proof -
  assume n: "0 < n" "n < 32" "sigprop n SA_STOP"
  have "\<forall>n\<in>{1..<32}. sigprop n SA_STOP \<longrightarrow> \<not> sigprop n SA_IGNORE"
    by (simp add: atLeastLessThan_upt upt_conv_Cons sigprop_def sigprop_table_def)
  then show ?thesis using n by simp
qed

text \<open>What one look at the signal \<open>n\<close> does.\<close>

lemma issignal_take_cases:
  assumes "sigproc_ok (sgp g p)" "P_TRACED \<notin> p_flag (sproc g p)" "jobc_of g p \<noteq> None" "0 < n" "n < 32"
  shows "issignal_take p n g = (if droppable p g n then None
    else Some (if sigprop n SA_STOP \<and> ps_sigact (p_sigacts (sgp g p)) n = SIG_DFL then issignal_stop p n g else Some (Inr (Is_sig n, g))))"
proof -
  have "sigmask n AND p_sigignore (sgp g p) \<noteq> 0 \<longleftrightarrow> ignorable (p_sigacts (sgp g p)) n"
    using sigproc_okD(8) [OF assms(1,4,5)] assms(4,5) by simp
  then show ?thesis
    using assms(2,3) sigprop_excl [OF assms(4,5)] sigprop_cont [OF assms(4,5)]
    unfolding issignal_take_def Let_def droppable_def ignorable_def by auto
qed

lemma clear_clear [simp]: "clear p m (clear p m' g) = clear p (m' OR m) g" "clear p 0 g = g"
  by (simp_all add: clear_def upd_sig_def and.assoc)

lemma clear_keeps [simp]:
  "droppable p (clear q m g) = droppable p g" "pid_of (clear q m g) = pid_of g" "jobc_of (clear q m g) = jobc_of g" "parent_of (clear q m g) = parent_of g"
  "p_sigacts (sgp (clear q m g) p) = p_sigacts (sgp g p)" "p_sigmask (sgp (clear q m g) p) = p_sigmask (sgp g p)"
  by (auto simp: fun_eq_iff droppable_def pid_of_def jobc_of_def parent_of_def clear_def upd_sig_def)

lemma pendmask_clear: "pendmask p (clear p m g) = pendmask p g AND NOT m"
  by (rule bit_eqI) (auto simp: pendmask_bit bit_and_iff bit_not_iff)

lemma sigproc_ok_clear: "sigproc_ok (sgp g x) \<Longrightarrow> sigproc_ok (sgp (clear p m g) x)"
  by (auto simp: sigproc_ok_def clear_def upd_sig_def bit_and_iff)

lemma find_first:
  assumes "P n" "n \<in> set (upt a b)" "\<And>j. j < n \<Longrightarrow> j \<in> set (upt a b) \<Longrightarrow> \<not> P j"
  shows "find P (upt a b) = Some n"
  using assms by (auto simp: find_Some_iff intro!: exI [of _ "n - a"])

lemma issignal_drop_step:
  assumes "droppable p g n" "bit (pendmask p g) (n - 1)" "0 < n" "n < 32" "\<And>j. j < n - 1 \<Longrightarrow> \<not> bit (pendmask p g) j"
  shows "issignal_ref p (clear p (sigmask n) g) = issignal_ref p g"
proof -
  let ?m = "pendmask p g" and ?m' = "pendmask p g AND NOT (sigmask n)"
  let ?P = "\<lambda>k. bit ?m (k - 1) \<and> \<not> droppable p g k"
  have "bit ?m' (k - 1) \<and> \<not> droppable p g k \<longleftrightarrow> ?P k" if "k \<in> set [1..<32]" for k
    using that assms(1,3) bit_u32 by (cases "k = n") (auto simp: bit_and_iff not_sigmask_bit)
  then have fd: "find (\<lambda>k. bit ?m' (k - 1) \<and> \<not> droppable p g k) [1..<32] = find ?P [1..<32]" by (intro find_cong refl)
  have all: "sigmask n OR ?m' = ?m"
    by (rule bit_eqI) (use assms(2,3) in \<open>auto simp: sig_bits\<close>)
  have low: "sigmask n OR (?m' AND mask (k - 1)) = ?m AND mask (k - 1)" if "find ?P [1..<32] = Some k" for k
  proof (rule bit_eqI)
    fix i
    have k: "?P k" "0 < k" using that by (auto simp: find_Some_iff)
    then have "n \<noteq> k" "\<not> k - 1 < n - 1" using assms(1) assms(5) [of "k - 1"] by auto
    then have "n < k" using k(2) by linarith
    then show "bit (sigmask n OR (?m' AND mask (k - 1))) i \<longleftrightarrow> bit (?m AND mask (k - 1)) i"
      using assms(2,3) by (auto simp: sig_bits bit_mask_iff)
  qed
  show ?thesis
  proof (cases "find ?P [1..<32]")
    case None
    show ?thesis unfolding issignal_ref_def pendmask_clear clear_keeps clear_clear fd None option.case all ..
  next
    case (Some k)
    show ?thesis unfolding issignal_ref_def pendmask_clear clear_keeps clear_clear fd Some option.case low [OF Some] ..
  qed
qed

lemma issignal_ref_ok:
  assumes "sigproc_ok (sgp g p)" "P_TRACED \<notin> p_flag (sproc g p)" "jobc_of g p \<noteq> None"
  shows "issignal p g = issignal_ref p g"
  using assms
proof (induction p g rule: issignal.induct)
  case (1 p g)
  show ?case
  proof (cases "pendmask p g = 0")
    case True
    then have "find (\<lambda>n. bit (pendmask p g) (n - 1) \<and> \<not> droppable p g n) [1..<32] = None" by (simp add: find_None_iff)
    then show ?thesis using True by (simp add: issignal.simps issignal_ref_def)
  next
    case False
    then obtain i where i: "ffs (pendmask p g) = Suc i" "i < 32" "bit (pendmask p g) i" "\<And>j. j < i \<Longrightarrow> \<not> bit (pendmask p g) j"
      by (rule ffs_cases) blast
    have "i \<noteq> 31" using i(3) sigproc_okD(1) [OF 1(2)] by (auto simp: pendmask_bit)
    then have n: "0 < Suc i" "Suc i < 32" using i(2) by auto
    note take = issignal_take_cases [OF 1(2-4) n]
    show ?thesis
    proof (cases "droppable p g (Suc i)")
      case True
      then have "issignal p g = issignal p (clear p (sigmask (Suc i)) g)" using False i(1) take by (subst issignal.simps) simp
      also have "\<dots> = issignal_ref p (clear p (sigmask (Suc i)) g)"
        using 1(1) [OF refl refl False] take True i(1) sigproc_ok_clear [OF 1(2)] 1(3,4) by simp
      also have "\<dots> = issignal_ref p g" by (rule issignal_drop_step) (use True i n in simp_all)
      finally show ?thesis .
    next
      case keep: False
      have "find (\<lambda>n. bit (pendmask p g) (n - 1) \<and> \<not> droppable p g n) [1..<32] = Some (Suc i)"
        by (rule find_first) (use i(3,4) keep n in auto)
      moreover have "pendmask p g AND mask i = 0" by (rule bit_eqI) (use i(4) in \<open>auto simp: bit_and_iff bit_mask_iff\<close>)
      ultimately show ?thesis using False i(1) take keep by (subst issignal.simps) (simp add: issignal_ref_def)
    qed
  qed
qed

lemma cursig_issignal:
  assumes "P_TRACED \<notin> p_flag (sproc g p)"
  shows "cursig p g = issignal p g"
proof (cases "p_siglist (sgp g p) AND NOT (p_sigmask (sgp g p)) = 0")
  case True
  then have "pendmask p g = 0" by (simp add: pendmask_def Let_def)
  then show ?thesis using True assms by (simp add: cursig_def issignal.simps Let_def)
qed (use assms in \<open>auto simp: cursig_def Let_def\<close>)

section \<open>The running process stops\<close>

abbreviation stopped_rec :: "proc \<Rightarrow> proc" where "stopped_rec r \<equiv> r\<lparr>p_stat := SSTOP, p_flag := p_flag r - {P_WAITED}\<rparr>"

lemma sig_frame_cur: "sig_frame g g' \<Longrightarrow> sig_frame (with_cur x g) (with_cur x g')"
  by (simp add: sig_frame_def with_cur_def)

lemma alert_cur [simp]: "alert (with_cur x g) p = alert g p"
  by (simp add: alert_def pendmask_def)

text \<open>The parts of \<open>issignal_stop\<close> up to the switch, seen without a running process.\<close>

lemma stop_notify:
  assumes "scur (sch g) = Some p" "sched_ok (with_scur None (supd p stopped_rec (sch g)))" "sintr_ok g" "slinks_ok (tree g)"
    "pprocs (tree g) p = Some r" "pp_pid r \<noteq> 0"
  shows "\<exists>pp h. parent_of g p = Some pp \<and>
    sthen (on_sch (stop p (of_nat pp)) (upd_sig p (\<lambda>q. q\<lparr>p_xstat := n\<rparr>) g)) (\<lambda>g2.
      if P_NOCLDSTOP \<notin> p_flag (sproc g2 pp) then psignal pp SIGCHLD g2 else Some (Inr g2)) = Some (Inr (with_cur (Some p) h)) \<and>
    sched_ok (sch h) \<and> scur (sch h) = None \<and> sig_frame g (with_cur (Some p) h) \<and> (\<forall>x. alert g x \<longrightarrow> alert h x) \<and>
    sgp h p = (sgp g p)\<lparr>p_xstat := n\<rparr> \<and> snow (sch h) = snow (sch g) \<and> sruntime (sch h) = sruntime (sch g) \<and>
    (p_wchan (sproc g p) \<noteq> Some (of_nat pp) \<longrightarrow> p_wchan (sproc g p) \<noteq> Some (proc0 (sch g)) \<longrightarrow> sproc h p = stopped_rec (sproc g p))"
proof -
  obtain pp where pp: "parent_of g p = Some pp" "pp \<noteq> p" "pprocs (tree g) pp \<noteq> None" using parent_ex [OF assms(4-6)] .
  let ?g1 = "upd_sig p (\<lambda>q. q\<lparr>p_xstat := n\<rparr>) g" and ?t = "supd p stopped_rec (sch g)"
  obtain u where u: "wakeup (of_nat pp) (with_scur None ?t) = Some (Inr u)" "sched_ok u" "wk_rel {of_nat pp, proc0 (sch g)} (with_scur None ?t) u"
    using wakeup_sched [OF assms(2), of "of_nat pp"] by auto
  have "with_scur (Some p) (with_scur None ?t) = ?t" using assms(1) by (simp add: supd_def)
  then have st: "stop p (of_nat pp) (sch g) = Some (Inr (with_scur (Some p) u))" using wakeup_cur [OF u(1), of "Some p"] by (simp add: stop_def)
  let ?h2 = "?g1\<lparr>sch := u\<rparr>"
  have g2: "on_sch (stop p (of_nat pp)) ?g1 = Some (Inr (with_cur (Some p) ?h2))" using st by (simp add: on_sch_def upd_sig_def with_cur_def)
  have un: "scur u = None" "proc0 u = proc0 (sch g)" "scallq u = scallq (sch g)" "snow u = snow (sch g)" "sruntime u = sruntime (sch g)" using u(3) by (auto simp: wk_rel_def same_rest_def)
  have "proc_frame (sproc g x) (sprocs ?t x)" for x by (auto simp: proc_frame_def)
  moreover have "proc_frame (sprocs ?t x) (sprocs u x)" for x using wk_rel_frame [OF u(3), of x] by simp
  ultimately have "proc_frame (sproc g x) (sprocs u x)" for x by (rule proc_frame_trans)
  then have f2: "sig_frame g (with_cur (Some p) ?h2)" using un assms(1) by (simp add: sig_frame_def with_cur_def upd_sig_def disp_frame_def)
  then have i2: "sintr_ok ?h2" "slinks_ok (tree ?h2)" "pprocs (tree ?h2) pp \<noteq> None"
    using sintr_ok_frame [OF f2 assms(3)] assms(4) pp(3) by (simp_all add: sintr_ok_def with_cur_def upd_sig_def)
  have a2: "alert ?h2 x" if "alert g x" for x
  proof -
    have "alert (with_cur (Some p) ?h2) x" by (rule alert_step [OF f2 that]) (auto simp: upd_sig_def split: if_splits)
    then show ?thesis by simp
  qed
  have pu: "p_wchan (sproc g p) \<noteq> Some (of_nat pp) \<Longrightarrow> p_wchan (sproc g p) \<noteq> Some (proc0 (sch g)) \<Longrightarrow> sprocs u p = stopped_rec (sproc g p)"
  proof -
    have c: "sprocs u p = stopped_rec (sproc g p) \<or> (\<exists>c\<in>{of_nat pp, proc0 (sch g)}. p_wchan (sproc g p) = Some c \<and> woken (stopped_rec (sproc g p)) (sprocs u p))"
      using u(3) unfolding wk_rel_def by (auto dest!: spec [of _ p])
    then show "sprocs u p = stopped_rec (sproc g p)" if "p_wchan (sproc g p) \<noteq> Some (of_nat pp)" "p_wchan (sproc g p) \<noteq> Some (proc0 (sch g))"
      using that by auto
  qed
  obtain h where h: "(if P_NOCLDSTOP \<notin> p_flag (sproc ?h2 pp) then psignal pp SIGCHLD ?h2 else Some (Inr ?h2)) = Some (Inr h)" "psig_ok pp SIGCHLD ?h2 h"
  proof (cases "P_NOCLDSTOP \<notin> p_flag (sproc ?h2 pp)")
    case True
    then show ?thesis using that psignal_ok [of ?h2 SIGCHLD pp] u(2) i2 by auto
  next
    case False
    then show ?thesis using that [of ?h2] u(2) by (simp add: psig_ok_def spares_refl)
  qed
  have "(if P_NOCLDSTOP \<notin> p_flag (sproc (with_cur (Some p) ?h2) pp) then psignal pp SIGCHLD (with_cur (Some p) ?h2) else Some (Inr (with_cur (Some p) ?h2))) =
      Some (Inr (with_cur (Some p) h))"
    using h(1) psignal_cur [of pp SIGCHLD ?h2 "Inr h" "Some p"] pp(2) un(1) by (auto simp: sigprop_chld split: if_splits)
  then have run: "sthen (on_sch (stop p (of_nat pp)) ?g1) (\<lambda>g2.
      if P_NOCLDSTOP \<notin> p_flag (sproc g2 pp) then psignal pp SIGCHLD g2 else Some (Inr g2)) = Some (Inr (with_cur (Some p) h))"
    unfolding g2 sthen_def by simp
  have hp: "sig_frame ?h2 h" "spares pp u (sch h)" "sgp h p = (sgp g p)\<lparr>p_xstat := n\<rparr>" "sched_ok (sch h)" "\<forall>x. alert ?h2 x \<longrightarrow> alert h x"
    using h(2) pp(2) by (simp_all add: psig_ok_def sigprop_chld upd_sig_def)
  have fr: "sig_frame g (with_cur (Some p) h)" using sig_frame_trans [OF f2 sig_frame_cur [OF hp(1)]] .
  have "p_wchan (sprocs u p) \<noteq> Some (proc0 u) \<Longrightarrow> sproc h p = sprocs u p" using hp(2) pp(2) by (simp add: spares_def)
  then have "sproc h p = stopped_rec (sproc g p)" if "p_wchan (sproc g p) \<noteq> Some (of_nat pp)" "p_wchan (sproc g p) \<noteq> Some (proc0 (sch g))"
    using pu [OF that] un(2) that(2) by simp
  moreover have "scur (sch h) = None" "snow (sch h) = snow (sch g)" "sruntime (sch h) = sruntime (sch g)"
    using hp(2) un(1,4,5) by (simp_all add: spares_def)
  ultimately show ?thesis using pp(1) run hp(3-5) fr a2 by blast
qed

text \<open>The switch, with the signal for the CPU time of the process that leaves.\<close>

lemma mi_switch_s_ok:
  assumes "sched_ok (with_scur None (sch g))" "scur (sch g) = Some p" "sintr_ok g" "slinks_ok (tree g)" "pprocs (tree g) p \<noteq> None"
  shows "\<exists>g'. mi_switch_s p g = Some (Inr g') \<and> sched_ok (sch g') \<and> sig_frame g (with_cur (Some p) g') \<and> (\<forall>x. alert g x \<longrightarrow> alert g' x) \<and>
    (in_limit (sch g) (sproc g p) \<longrightarrow> sgp g' = sgp g \<and> p_stat (sproc g' p) = p_stat (sproc g p) \<and> p_wchan (sproc g' p) = p_wchan (sproc g p))"
proof -
  obtain q sig where q: "mi_switch_time (snow (sch g)) (sruntime (sch g)) (sproc g p) = (q, sig)" by fastforce
  note k = mi_switch_time_keeps [where tv = "snow (sch g)" and rt = "sruntime (sch g)" and r = "sproc g p", unfolded q fst_conv]
  define g1 where g1: "g1 = upd_sch p (\<lambda>_. q) g"
  have f1: "sig_frame g g1" unfolding g1 by (rule sig_frame_upd) (simp add: proc_frame_def k)
  have ok1: "sched_ok (sch (with_cur None g1))" using sched_supd [OF assms(1), of "\<lambda>_. q" p] k sched_usrpri [OF assms(1), of p]
    by (simp add: g1 with_cur_def upd_sch_def)
  have a1: "alert g1 x" if "alert g x" for x by (rule alert_same [OF f1 _ that]) (simp add: g1 upd_sch_def)
  define n where "n = (if sig = Sig_kill then SIGKILL else SIGXCPU)"
  have n: "0 < n" "n < 32" "\<not> sigprop n SA_STOP" by (simp_all add: n_def sigprop_def sigprop_table_def)
  have f0: "sig_frame (with_cur None g) (with_cur None g1)" by (rule sig_frame_cur [OF f1])
  have "sintr_ok (with_cur None g)" using assms(3) by (simp add: sintr_ok_def with_cur_def)
  then have "sintr_ok (with_cur None g1)" by (rule sintr_ok_frame [OF f0])
  then obtain h where h: "psignal p n (with_cur None g1) = Some (Inr h)" "psig_ok p n (with_cur None g1) h"
    using psignal_ok [OF ok1 n(1,2)] assms(4,5) f1 by (auto simp: sig_frame_def)
  have c1: "with_cur (Some p) (with_cur None g1) = g1" using assms(2) by (simp add: with_cur_id g1 upd_sch_def)
  obtain b where b: "psignal p n g1 = Some (Inr (with_cur_ast (Some p) b h))"
    using psignal_cur_ast [OF h(1) n(3), of "Some p"] c1 by auto
  define g2 where g2: "g2 = (if sig = No_sig then g1 else with_cur_ast (Some p) b h)"
  have run: "mi_switch_s p g = on_sch (\<lambda>s. Some (mi_switch_go p sig s)) g2"
    using b q by (cases sig) (simp_all add: mi_switch_s_def sthen_def g1 [symmetric] g2 n_def)
  have "sig_frame g1 (with_cur (Some p) h)" using sig_frame_cur [of "with_cur None g1" h "Some p"] h(2) c1 by (simp add: psig_ok_def)
  then have f2: "sig_frame g g2" using sig_frame_trans [OF f1, of g2] f1 by (simp add: g2 sig_frame_def with_cur_def)
  have "scur (sch h) = None" using h(2) by (simp add: psig_ok_def sig_frame_def)
  then have "with_scur None (sch h) = sch h" by simp
  then have ok2: "sched_ok (with_scur None (sch g2))" using ok1 h(2) by (simp add: g2 with_cur_def psig_ok_def)
  have "alert (with_cur_ast (Some p) b h) x = alert h x" for x by (simp add: alert_def pendmask_def)
  moreover have "alert h x" if "alert g x" for x using h(2) a1 [OF that] by (simp add: psig_ok_def)
  ultimately have a2: "alert g2 x" if "alert g x" for x using a1 that by (simp add: g2)
  obtain s' where s': "mi_switch_go p sig (sch g2) = Inr s'" "sched_ok s'" "scallq s' = scallq (sch g2)" "proc0 s' = proc0 (sch g2)"
    "\<forall>x. x \<noteq> p \<longrightarrow> sprocs s' x = sproc g2 x" "p_stat (sprocs s' p) = p_stat (sproc g2 p)" "p_wchan (sprocs s' p) = p_wchan (sproc g2 p)"
    "p_flag (sprocs s' p) = p_flag (sproc g2 p)" using mi_switch_go_ok [OF ok2, of p sig] by blast
  let ?g' = "g2\<lparr>sch := s'\<rparr>"
  have same: "proc_frame (sproc g2 x) (sprocs s' x)" "p_flag (sprocs s' x) = p_flag (sproc g2 x)" "p_wchan (sprocs s' x) = p_wchan (sproc g2 x)" for x
    using s'(5,7,8) by (cases "x = p"; simp add: proc_frame_def)+
  have "scur (sch g2) = Some p" using f2 assms(2) by (simp add: sig_frame_def)
  then have "sig_frame g2 (with_cur (Some p) ?g')" using s'(3,4) same(1) by (simp add: sig_frame_def with_cur_def)
  then have "sig_frame g (with_cur (Some p) ?g')" using f2 sig_frame_trans by blast
  moreover have "alert ?g' x = alert g2 x" for x using same by (simp add: alert_def pendmask_def)
  moreover have "sgp g2 = sgp g" "p_stat (sproc g2 p) = p_stat (sproc g p)" "p_wchan (sproc g2 p) = p_wchan (sproc g p)" if "in_limit (sch g) (sproc g p)"
    using that q k by (simp_all add: in_limit_def g2 g1 upd_sch_def)
  moreover have "mi_switch_s p g = Some (Inr ?g')" using run s'(1) by (simp add: on_sch_def)
  ultimately show ?thesis using a2 s'(2,6,7) by (intro exI [of _ ?g']) auto
qed

text \<open>
  What the theory \<open>Sched\<close> takes as an argument is what \<open>psignal\<close> does: \<open>mi_switch\<close> with the signal code does to the scheduler what \<open>mi_switch\<close>
  does for some effect \<open>e\<close>.
\<close>

lemma on_sch_effect:
  assumes "sch g1 = supd p (\<lambda>r. r\<lparr>p_nice := 0\<rparr>) (sch g) \<and> a \<or> sch g1 = sch g \<and> \<not> a" "g1\<lparr>sch := sch g\<rparr> = g2"
  shows "Some (Inr g1) = on_sch (psignal_effect (a, Sig_pends) p) g2"
    "p_stat (sproc g p) = SSTOP \<or> p_stat (sproc g p) = SSLEEP \<Longrightarrow> psig_run p g1 = on_sch (psignal_effect (a, Sig_runs) p) g2"
    "p_stat (sproc g p) = SSTOP \<or> p_stat (sproc g p) = SSLEEP \<Longrightarrow> psig_runfast p g1 = on_sch (psignal_effect (a, Sig_runs_fast) p) g2"
    "p_stat (sproc g p) = SSTOP \<Longrightarrow> on_sch (unsleep p) g1 = on_sch (psignal_effect (a, Sig_unsleeps) p) g2"
proof -
  define s1 where s1: "s1 = (if a then supd p (\<lambda>r. r\<lparr>p_nice := 0\<rparr>) (sch g) else sch g)"
  have g1: "sch g1 = s1" "sch g2 = sch g" "g1\<lparr>sch := t\<rparr> = g2\<lparr>sch := t\<rparr>" for t using assms by (auto simp: s1)
  have "g1 = g1\<lparr>sch := s1\<rparr>" using g1(1) by simp
  then have g1s: "g1 = g2\<lparr>sch := s1\<rparr>" using g1(3) by simp
  have st: "p_stat (sprocs s1 p) = p_stat (sproc g p)" by (simp add: s1)
  note d = psignal_effect_def on_sch_def Let_def g1(2) s1 [symmetric] st
  show "Some (Inr g1) = on_sch (psignal_effect (a, Sig_pends) p) g2" by (simp add: d) (simp add: g1s)
  show "psig_run p g1 = on_sch (psignal_effect (a, Sig_runs) p) g2" if "p_stat (sproc g p) = SSTOP \<or> p_stat (sproc g p) = SSLEEP"
    using that by (simp add: d psig_run_def) (simp add: g1s)
  show "on_sch (unsleep p) g1 = on_sch (psignal_effect (a, Sig_unsleeps) p) g2" if "p_stat (sproc g p) = SSTOP"
    using that by (simp add: d) (simp add: g1s)
  show "psig_runfast p g1 = on_sch (psignal_effect (a, Sig_runs_fast) p) g2" if "p_stat (sproc g p) = SSTOP \<or> p_stat (sproc g p) = SSLEEP"
    using that by (simp add: d psig_runfast_def psig_run_def psignal_runfast_def) (simp add: g1s upd_sch_def)
qed

lemma psignal_is_effect:
  assumes "n = SIGKILL \<or> n = SIGXCPU"
  shows "\<exists>e g2. psignal p n g = on_sch (psignal_effect e p) g2 \<and> sch g2 = sch g"
proof (cases "P_TRACED \<notin> p_flag (sproc g p) \<and> p_sigignore (sgp g p) AND sigmask n \<noteq> 0")
  case True
  then have "psignal p n g = Some (Inr g)" using assms by (subst psignal.simps) auto
  then show ?thesis by (intro exI [of _ "(False, Sig_pends)"] exI [of _ g]) (simp add: on_sch_def psignal_effect_def)
next
  case False
  have n: "0 < n" "n < 32" "\<not> sigprop n SA_STOP" "\<not> sigprop n SA_CONT" using assms by (auto simp: sigprop_def sigprop_table_def)
  let ?a = "sig_action p n g"
  define a where "a \<longleftrightarrow> 0 < p_nice (sproc g p) \<and> ?a = SIG_DFL \<and> sigprop n SA_KILL \<and> P_TRACED \<notin> p_flag (sproc g p)"
  define g1 where g1: "g1 = post p (sigmask n) (if a then upd_sch p (\<lambda>r. r\<lparr>p_nice := 0\<rparr>) g else g)"
  have pr: "psig_prepare p n ?a g = Inr (?a \<noteq> SIG_HOLD, g1)" using n by (auto simp: psig_prepare_def Let_def g1 a_def)
  note go = psignal_go [OF n(1,2) False pr]
  have s1: "sch g1 = supd p (\<lambda>r. r\<lparr>p_nice := 0\<rparr>) (sch g) \<and> a \<or> sch g1 = sch g \<and> \<not> a" by (simp add: g1 post_def upd_sig_def upd_sch_def)
  then have st: "p_stat (sproc g1 p) = p_stat (sproc g p)" "scur (sch g1) = scur (sch g)" by auto
  note eff = on_sch_effect [OF s1 refl]
  have ast: "Some (Inr (g1\<lparr>sast := b\<rparr>)) = on_sch (psignal_effect (a, Sig_pends) p) (g1\<lparr>sast := b, sch := sch g\<rparr>)" for b
    by (rule on_sch_effect(1) [where g = g]) (use s1 in auto)
  consider "psignal p n g = Some (Inr g1)" | "psignal p n g = Some (Inr (g1\<lparr>sast := True\<rparr>))"
    | "psignal p n g = psig_run p g1" "p_stat (sproc g p) = SSTOP \<or> p_stat (sproc g p) = SSLEEP"
    | "psignal p n g = psig_runfast p g1" "p_stat (sproc g p) = SSTOP \<or> p_stat (sproc g p) = SSLEEP"
    | "psignal p n g = on_sch (unsleep p) g1" "p_stat (sproc g p) = SSTOP"
    using go n(3,4) unfolding psig_act_def psig_stopped_def Let_def st
    by (cases "p_stat (sproc g p)") (auto split: if_split_asm)
  then show ?thesis using eff ast [of True] by cases (force intro: exI [of _ "g1\<lparr>sch := sch g\<rparr>"] exI [of _ "g1\<lparr>sast := True, sch := sch g\<rparr>"])+
qed

lemma mi_switch_s_refines:
  "\<exists>e g2. mi_switch_s p g = on_sch (mi_switch e p) g2 \<and> sch g2 = sch g"
proof -
  obtain q sig where q: "mi_switch_time (snow (sch g)) (sruntime (sch g)) (sproc g p) = (q, sig)" by fastforce
  let ?g1 = "upd_sch p (\<lambda>_. q) g"
  obtain e g2 where e: "(case sig of No_sig \<Rightarrow> Some (Inr ?g1) | Sig_kill \<Rightarrow> psignal p SIGKILL ?g1 | Sig_xcpu \<Rightarrow> psignal p SIGXCPU ?g1) =
      on_sch (\<lambda>s. if sig = No_sig then Some (Inr s) else psignal_effect e p s) g2" "sch g2 = sch ?g1"
  proof (cases "sig = No_sig")
    case True
    then show ?thesis using that [of _ ?g1] by (simp add: on_sch_def)
  next
    case False
    then show ?thesis using that psignal_is_effect [of SIGKILL p ?g1] psignal_is_effect [of SIGXCPU p ?g1]
      by (cases sig) (auto simp: on_sch_def)
  qed
  have s1: "sch ?g1 = supd p (\<lambda>_. q) (sch g)" by (simp add: upd_sch_def)
  show ?thesis
  proof (intro exI conjI)
    show "mi_switch_s p g = on_sch (mi_switch e p) (g2\<lparr>sch := sch g\<rparr>)"
      unfolding mi_switch_s_def mi_switch_def q prod.case Let_def e(1)
      using e(2) s1 q by (auto simp: on_sch_def sthen_def split: option.splits sum.splits)
  qed simp
qed

lemma issignal_stop_ok:
  assumes "scur (sch g) = Some p" "sched_ok (with_scur None (supd p stopped_rec (sch g)))" "sintr_ok g" "slinks_ok (tree g)"
    "pprocs (tree g) p = Some r" "pp_pid r \<noteq> 0"
  shows "\<exists>pp g'. parent_of g p = Some pp \<and> issignal_stop p n g = Some (Inr (Is_stopped n, g')) \<and> sched_ok (sch g') \<and>
    sig_frame g (with_cur (Some p) g') \<and> (\<forall>x. alert g x \<longrightarrow> alert g' x) \<and>
    (p_wchan (sproc g p) \<noteq> Some (of_nat pp) \<longrightarrow> p_wchan (sproc g p) \<noteq> Some (proc0 (sch g)) \<longrightarrow> in_limit (sch g) (sproc g p) \<longrightarrow>
       sgp g' p = (sgp g p)\<lparr>p_xstat := n\<rparr> \<and> p_stat (sproc g' p) = SSTOP \<and> p_wchan (sproc g' p) = p_wchan (sproc g p))"
proof -
  obtain pp h where h: "parent_of g p = Some pp"
    "sthen (on_sch (stop p (of_nat pp)) (upd_sig p (\<lambda>q. q\<lparr>p_xstat := n\<rparr>) g)) (\<lambda>g2.
      if P_NOCLDSTOP \<notin> p_flag (sproc g2 pp) then psignal pp SIGCHLD g2 else Some (Inr g2)) = Some (Inr (with_cur (Some p) h))"
    "sched_ok (sch h)" "scur (sch h) = None" "sig_frame g (with_cur (Some p) h)" "\<forall>x. alert g x \<longrightarrow> alert h x"
    "sgp h p = (sgp g p)\<lparr>p_xstat := n\<rparr>" "snow (sch h) = snow (sch g)" "sruntime (sch h) = sruntime (sch g)"
    "p_wchan (sproc g p) \<noteq> Some (of_nat pp) \<longrightarrow> p_wchan (sproc g p) \<noteq> Some (proc0 (sch g)) \<longrightarrow> sproc h p = stopped_rec (sproc g p)"
    using stop_notify [OF assms, of n] by blast
  let ?h = "with_cur (Some p) h"
  have "with_scur None (sch h) = sch h" using h(4) by simp
  then have ok: "sched_ok (with_scur None (sch ?h))" using h(3) by (simp add: with_cur_def)
  have i: "sintr_ok ?h" "slinks_ok (tree ?h)" "pprocs (tree ?h) p \<noteq> None" using sintr_ok_frame [OF h(5) assms(3)] h(5) assms(4,5) by (auto simp: sig_frame_def)
  obtain g' where g': "mi_switch_s p ?h = Some (Inr g')" "sched_ok (sch g')" "sig_frame ?h (with_cur (Some p) g')" "\<forall>x. alert ?h x \<longrightarrow> alert g' x"
    "in_limit (sch ?h) (sproc ?h p) \<longrightarrow> sgp g' = sgp ?h \<and> p_stat (sproc g' p) = p_stat (sproc ?h p) \<and> p_wchan (sproc g' p) = p_wchan (sproc ?h p)"
    using mi_switch_s_ok [OF ok _ i] by auto
  have "issignal_stop p n g = Some (Inr (Is_stopped n, g'))"
    using h(2) g'(1) unfolding issignal_stop_def Let_def h(1) option.case by (auto simp: sthen_def split: option.splits sum.splits)
  moreover have "in_limit (sch ?h) (stopped_rec (sproc g p)) = in_limit (sch g) (sproc g p)"
    by (rule in_limit_cong) (simp_all add: with_cur_def h(8,9))
  ultimately show ?thesis using h(1,5-7,10) g'(2-5) sig_frame_trans [OF h(5) g'(3)] by (intro exI [of _ pp] exI [of _ g']) auto
qed

end
