(* ===== verification/Sigsys.thy ===== *)
theory Sigsys
  imports Sigok
begin

text \<open>
  Signals in operation: the invariant of the whole signal state, the delivery loop before the return to user mode, sleeping,
  stopping, continuing and killing.
\<close>

section \<open>The invariant\<close>

text \<open>
  No process is traced: the body of \<open>ptrace\<close> has been deleted from \<^verbatim>\<open>sys_process.c\<close>, and nothing else sets \<^verbatim>\<open>P_TRACED\<close>. The signal state of
  a process is well-formed until the process exits.
\<close>

definition sig_wf :: "sigsys \<Rightarrow> bool" where
  "sig_wf g \<longleftrightarrow> sintr_ok g \<and> slinks_ok (tree g) \<and> (\<forall>x. P_TRACED \<notin> p_flag (sproc g x)) \<and>
     (\<forall>x. P_WEXIT \<notin> p_flag (sproc g x) \<longrightarrow> sigproc_ok (sgp g x))"

definition sig_inv :: "sigsys \<Rightarrow> bool" where
  "sig_inv g \<longleftrightarrow> sched_ok (sch g) \<and> sig_wf g"

lemma sig_invD:
  assumes "sig_inv g"
  shows "sched_ok (sch g)" "sintr_ok g" "slinks_ok (tree g)" "P_TRACED \<notin> p_flag (sproc g x)" "P_WEXIT \<notin> p_flag (sproc g x) \<Longrightarrow> sigproc_ok (sgp g x)"
    "sig_wf g"
  using assms by (auto simp: sig_inv_def sig_wf_def)

lemma sigproc_ok_frame: "disp_frame q q' \<Longrightarrow> sigproc_ok q \<Longrightarrow> sigproc_ok q'"
  by (simp add: disp_frame_def sigproc_ok_def)

lemma sig_wf_frame:
  assumes "sig_wf g" "sig_frame g (with_cur x g')"
  shows "sig_wf g'"
proof -
  have f: "tree g' = tree g" "proc_frame (sproc g y) (sproc g' y)" "disp_frame (sgp g y) (sgp g' y)" for y
    using assms(2) by (auto simp: sig_frame_def with_cur_def)
  have "sintr_ok (with_cur x g')" using sintr_ok_frame [OF assms(2)] assms(1) by (simp add: sig_wf_def)
  then have "sintr_ok g'" by (simp add: sintr_ok_def with_cur_def)
  then show ?thesis using assms(1) proc_frame_flag [OF f(2)] sigproc_ok_frame [OF f(3)] f(1) by (simp add: sig_wf_def)
qed

lemma sig_inv_frame: "sig_inv g \<Longrightarrow> sig_frame g (with_cur x g') \<Longrightarrow> sched_ok (sch g') \<Longrightarrow> sig_inv g'"
  using sig_wf_frame by (auto simp: sig_inv_def)

lemma sig_inv_frame': "sig_inv g \<Longrightarrow> sig_frame g g' \<Longrightarrow> sched_ok (sch g') \<Longrightarrow> sig_inv g'"
  using sig_inv_frame [of g "scur (sch g')" g'] by (simp add: with_cur_id)

lemma sig_wf_upd:
  assumes "sig_wf g" "sigproc_ok (sgp g p) \<Longrightarrow> sigproc_ok (f (sgp g p))"
  shows "sig_wf (upd_sig p f g)"
  using assms by (auto simp: sig_wf_def upd_sig_def sintr_ok_def)

lemma sig_inv_upd: "sig_inv g \<Longrightarrow> (sigproc_ok (sgp g p) \<Longrightarrow> sigproc_ok (f (sgp g p))) \<Longrightarrow> sig_inv (upd_sig p f g)"
  using sig_wf_upd [of g p f] by (simp add: sig_inv_def upd_sig_def)

text \<open>A step of the scheduler that keeps flags and starts no interruptible wait.\<close>

lemma sig_wf_sch:
  assumes "sig_wf g" "proc0 s = proc0 (sch g)" "\<And>x. P_TRACED \<in> p_flag (sprocs s x) \<longleftrightarrow> P_TRACED \<in> p_flag (sproc g x)"
    "\<And>x. P_WEXIT \<in> p_flag (sprocs s x) \<longleftrightarrow> P_WEXIT \<in> p_flag (sproc g x)"
    "\<And>x. P_SINTR \<in> p_flag (sprocs s x) \<Longrightarrow> P_SINTR \<in> p_flag (sproc g x) \<and> (p_wchan (sprocs s x) = p_wchan (sproc g x) \<or> p_wchan (sprocs s x) = None) \<or>
       p_wchan (sprocs s x) \<noteq> Some (proc0 s) \<and> (\<exists>r. pprocs (tree g) x = Some r \<and> pp_pid r \<noteq> 0)"
  shows "sig_wf (g\<lparr>sch := s\<rparr>)"
proof -
  have "sintr_ok (g\<lparr>sch := s\<rparr>)" unfolding sintr_ok_def
  proof (intro allI impI)
    fix x
    assume "P_SINTR \<in> p_flag (sproc (g\<lparr>sch := s\<rparr>) x)"
    then show "p_wchan (sproc (g\<lparr>sch := s\<rparr>) x) \<noteq> Some (proc0 (sch (g\<lparr>sch := s\<rparr>))) \<and> (\<exists>r. pprocs (tree (g\<lparr>sch := s\<rparr>)) x = Some r \<and> pp_pid r \<noteq> 0)"
      using assms(1,2) assms(5) [of x] by (auto simp: sig_wf_def sintr_ok_def)
  qed
  then show ?thesis using assms(1,3,4) by (simp add: sig_wf_def)
qed

lemma psignal_inv:
  assumes "sig_inv g" "0 < n" "n < 32" "pprocs (tree g) p \<noteq> None"
  shows "\<exists>g'. psignal p n g = Some (Inr g') \<and> psig_ok p n g g' \<and> sig_inv g'"
proof -
  note i = sig_invD [OF assms(1)]
  obtain g' where "psignal p n g = Some (Inr g')" "psig_ok p n g g'" using psignal_ok [OF i(1) assms(2,3) i(2,3) assms(4)] by blast
  then show ?thesis using sig_inv_frame' [OF assms(1)] by (auto simp: psig_ok_def)
qed

section \<open>The running process\<close>

text \<open>The running process is in the tree and has not begun to exit.\<close>

definition runs :: "sigsys \<Rightarrow> nat \<Rightarrow> bool" where
  "runs g p \<longleftrightarrow> scur (sch g) = Some p \<and> pprocs (tree g) p \<noteq> None \<and> P_WEXIT \<notin> p_flag (sproc g p)"

lemma runs_frame: "runs g p \<Longrightarrow> sig_frame g g' \<Longrightarrow> runs g' p"
  using proc_frame_flag [of "sproc g p" "sproc g' p" P_WEXIT] by (auto simp: runs_def sig_frame_def)

lemma cur_stopped:
  assumes "sched_ok s" "scur s = Some p"
  shows "sched_ok (with_scur None (supd p stopped_rec s))"
proof -
  obtain Q where q: "sleep_rep s Q" "\<forall>x. proc_ok s x" using assms(1) by (rule sched_okE) blast
  let ?u = "supd p stopped_rec s"
  have "\<forall>x. proc_ok (?u\<lparr>scur := None\<rparr>) x" by (rule leave_cpu [OF assms]) (use sched_usrpri [OF assms(1), of p] in auto)
  moreover have "sleep_rep (with_scur None ?u) Q" using q(1) sleep_rep_cong [of "with_scur None ?u" s Q] by simp
  ultimately show ?thesis by (intro sched_okI) auto
qed

text \<open>
  What \<open>CURSIG\<close> may return: \<open>took\<close> are the signals that were dropped on the way, and \<open>lowest\<close> says that a signal is the first that is not
  dropped.
\<close>

definition lowest :: "nat \<Rightarrow> sigsys \<Rightarrow> nat \<Rightarrow> bool" where
  "lowest p g n \<longleftrightarrow> (\<forall>k. 0 < k \<and> k < n \<and> bit (pendmask p g) (k - 1) \<longrightarrow> droppable p g k)"

definition to_post :: "nat \<Rightarrow> nat \<Rightarrow> sigsys \<Rightarrow> bool" where
  "to_post p n g \<longleftrightarrow> 0 < n \<and> n < 32 \<and> bit (pendmask p g) (n - 1) \<and> \<not> droppable p g n \<and>
     \<not> (sigprop n SA_STOP \<and> ps_sigact (p_sigacts (sgp g p)) n = SIG_DFL)"

lemma issignal_ref_cases:
  obtains (none) took where "issignal_ref p g = Some (Inr (Is_none, clear p took g))" "pendmask p (clear p took g) = 0" "lowest p g 32"
  | (sig) took n where "issignal_ref p g = Some (Inr (Is_sig n, clear p took g))" "to_post p n (clear p took g)" "lowest p g n"
      "\<And>i. bit took i \<Longrightarrow> i < n - 1"
  | (stop) took n where "issignal_ref p g = issignal_stop p n (clear p took g)" "0 < n" "n < 32" "sigprop n SA_STOP" "1 < pid_of g p"
      "bit (pendmask p (clear p took g)) (n - 1)" "lowest p g n" "\<And>i. bit took i \<Longrightarrow> i < n - 1"
proof (cases "find (\<lambda>n. bit (pendmask p g) (n - 1) \<and> \<not> droppable p g n) [1..<32]")
  case None
  then have "lowest p g 32" by (auto simp: lowest_def find_None_iff)
  then show ?thesis using None by (intro none [of "pendmask p g"]) (simp_all add: issignal_ref_def pendmask_clear)
next
  case (Some n)
  let ?took = "pendmask p g AND mask (n - 1)"
  have n: "bit (pendmask p g) (n - 1)" "\<not> droppable p g n" "0 < n" "n < 32" using Some by (auto simp: find_Some_iff)
  have "lowest p g n"
  proof -
    obtain i where i: "i < 31" "n = [1..<32] ! i" "\<forall>j<i. \<not> (bit (pendmask p g) ([1..<32] ! j - 1) \<and> \<not> droppable p g ([1..<32] ! j))"
      using Some by (auto simp: find_Some_iff)
    show ?thesis unfolding lowest_def
    proof (intro allI impI)
      fix k
      assume k: "0 < k \<and> k < n \<and> bit (pendmask p g) (k - 1)"
      then have "k - 1 < i" "[1..<32] ! (k - 1) = k" using i(1,2) by (auto simp: nth_upt)
      then show "droppable p g k" using i(3) [rule_format, of "k - 1"] k by simp
    qed
  qed
  have tk: "i < n - 1" if "bit ?took i" for i using that by (simp add: bit_and_iff bit_mask_iff)
  have pm: "bit (pendmask p (clear p ?took g)) i \<longleftrightarrow> bit (pendmask p g) i \<and> \<not> i < n - 1" for i
    using bit_u32 [of "pendmask p g" i] by (auto simp: pendmask_clear bit_and_iff bit_or_iff bit_not_iff bit_mask_iff)
  show ?thesis
  proof (cases "sigprop n SA_STOP \<and> ps_sigact (p_sigacts (sgp g p)) n = SIG_DFL")
    case True
    then have "1 < pid_of g p" using n(2) by (auto simp: droppable_def Let_def)
    then show ?thesis using Some True n pm tk \<open>lowest p g n\<close> by (intro stop [of n ?took]) (simp_all add: issignal_ref_def Let_def)
  next
    case False
    then show ?thesis using Some n pm tk \<open>lowest p g n\<close> by (intro sig [of n ?took]) (auto simp: issignal_ref_def Let_def to_post_def)
  qed
qed

text \<open>
  The result of \<open>CURSIG\<close> for the running process, which may be on a sleep queue already. \<open>left_at\<close> describes the state after a stop
  of a process within its CPU time.
\<close>

definition left_at :: "nat \<Rightarrow> nat \<Rightarrow> u32 \<Rightarrow> sigsys \<Rightarrow> sigsys \<Rightarrow> bool" where
  "left_at p n took g g' \<longleftrightarrow> sig_frame g (with_cur (Some p) g') \<and>
     (\<forall>pp. parent_of g p = Some pp \<longrightarrow> p_wchan (sproc g p) \<noteq> Some (of_nat pp) \<longrightarrow> p_wchan (sproc g p) \<noteq> Some (proc0 (sch g)) \<longrightarrow>
        in_limit (sch g) (sproc g p) \<longrightarrow>
        p_stat (sproc g' p) = SSTOP \<and> p_siglist (sgp g' p) = p_siglist (sgp g p) AND NOT took \<and> p_wchan (sproc g' p) = p_wchan (sproc g p))"

lemma left_at_callq: "left_at p n took g g' \<Longrightarrow> scallq (sch g') = scallq (sch g)"
  by (simp add: left_at_def sig_frame_def with_cur_def)

lemma cursig_wf:
  assumes "sig_wf g" "runs g p" "sched_ok (with_scur None (supd p stopped_rec (sch g)))"
  obtains (none) took where "cursig p g = Some (Inr (Is_none, clear p took g))" "pendmask p (clear p took g) = 0" "sig_wf (clear p took g)" "lowest p g 32"
  | (sig) took n where "cursig p g = Some (Inr (Is_sig n, clear p took g))" "to_post p n (clear p took g)" "sig_wf (clear p took g)"
      "lowest p g n" "\<And>i. bit took i \<Longrightarrow> i < n - 1"
  | (stop) n took g' where "cursig p g = Some (Inr (Is_stopped n, g'))" "0 < n" "n < 32" "sigprop n SA_STOP" "sig_inv g'" "lowest p g n"
      "left_at p n took g g'" "\<And>i. bit took i \<Longrightarrow> i < n - 1"
proof -
  have i: "slinks_ok (tree g)" "P_TRACED \<notin> p_flag (sproc g p)" using assms(1) by (auto simp: sig_wf_def)
  have ne: "pprocs (tree g) p \<noteq> None" "scur (sch g) = Some p" "sigproc_ok (sgp g p)" using assms(1,2) by (auto simp: runs_def sig_wf_def)
  have c: "cursig p g = issignal_ref p g"
    using cursig_issignal [OF i(2)] issignal_ref_ok [OF ne(3) i(2) jobc_ex [OF i(1) ne(1)]] by simp
  have inv: "sig_wf (clear p took g)" for took using sig_wf_frame [OF assms(1), of "scur (sch g)" "clear p took g"] by (simp add: with_cur_id)
  show ?thesis
  proof (rule issignal_ref_cases [of p g])
    fix took
    assume "issignal_ref p g = Some (Inr (Is_none, clear p took g))" "pendmask p (clear p took g) = 0" "lowest p g 32"
    then show thesis using none c inv by simp
  next
    fix took n
    assume "issignal_ref p g = Some (Inr (Is_sig n, clear p took g))" "to_post p n (clear p took g)" "lowest p g n"
      "\<And>i. bit took i \<Longrightarrow> i < n - 1"
    then show thesis using sig [of n took] c inv by simp
  next
    fix took n
    let ?g = "clear p took g"
    assume n: "issignal_ref p g = issignal_stop p n ?g" "0 < n" "n < 32" "sigprop n SA_STOP" "1 < pid_of g p" "lowest p g n" "\<And>i. bit took i \<Longrightarrow> i < n - 1"
    obtain r where r: "pprocs (tree ?g) p = Some r" "pp_pid r \<noteq> 0" using ne(1) n(5) by (auto simp: pid_of_def)
    obtain pp g' where g': "parent_of ?g p = Some pp" "issignal_stop p n ?g = Some (Inr (Is_stopped n, g'))" "sched_ok (sch g')"
      "sig_frame ?g (with_cur (Some p) g')"
      "p_wchan (sproc ?g p) \<noteq> Some (of_nat pp) \<longrightarrow> p_wchan (sproc ?g p) \<noteq> Some (proc0 (sch ?g)) \<longrightarrow> in_limit (sch ?g) (sproc ?g p) \<longrightarrow>
         sgp g' p = (sgp ?g p)\<lparr>p_xstat := n\<rparr> \<and> p_stat (sproc g' p) = SSTOP \<and> p_wchan (sproc g' p) = p_wchan (sproc ?g p)"
      using issignal_stop_ok [OF _ _ _ _ r, of n] assms(3) ne(2) inv [of took] by (auto simp: sig_wf_def)
    have "left_at p n took g g'"
      using g'(1,5) sig_frame_trans [OF _ g'(4), of g] by (auto simp: left_at_def parent_of_def)
    then show thesis using stop [of n g' took] n c sig_wf_frame [OF inv g'(4)] g'(2,3) by (simp add: sig_inv_def)
  qed
qed

lemma cursig_ok:
  assumes "sig_inv g" "runs g p"
  obtains (none) took where "cursig p g = Some (Inr (Is_none, clear p took g))" "pendmask p (clear p took g) = 0" "sig_inv (clear p took g)" "lowest p g 32"
  | (sig) took n where "cursig p g = Some (Inr (Is_sig n, clear p took g))" "to_post p n (clear p took g)" "sig_inv (clear p took g)"
      "lowest p g n" "\<And>i. bit took i \<Longrightarrow> i < n - 1"
  | (stop) n took g' where "cursig p g = Some (Inr (Is_stopped n, g'))" "0 < n" "n < 32" "sigprop n SA_STOP" "sig_inv g'" "lowest p g n"
      "left_at p n took g g'"
proof -
  have s: "sched_ok (with_scur None (supd p stopped_rec (sch g)))" using cur_stopped [OF sig_invD(1) [OF assms(1)]] assms(2) by (simp add: runs_def)
  show ?thesis
    by (rule cursig_wf [OF sig_invD(6) [OF assms(1)] assms(2) s])
      (use none sig stop sig_invD(1) [OF assms(1)] in \<open>auto simp: sig_inv_def\<close>)
qed

section \<open>Delivery\<close>

text \<open>Posting a signal to a running process.\<close>

lemma psignal_running:
  assumes "sched_ok (sch g)" "slinks_ok (tree g)" "runs g p" "0 < n" "n < 32" "\<not> sigprop n SA_STOP" "\<not> sigprop n SA_CONT"
    "P_TRACED \<in> p_flag (sproc g p) \<or> \<not> bit (p_sigignore (sgp g p)) (n - 1)"
  shows "\<exists>g' k. psignal p n g = Some (Inr g') \<and> sch g' = supd p (\<lambda>r. r\<lparr>p_nice := k\<rparr>) (sch g) \<and> tree g' = tree g \<and> sframes g' = sframes g \<and>
    sgp g' = (sgp g)(p := (sgp g p)\<lparr>p_siglist := p_siglist (sgp g p) OR sigmask n\<rparr>)"
proof -
  let ?a = "sig_action p n g"
  have st: "p_stat (sproc g p) = SRUN" "scur (sch g) = Some p" "pprocs (tree g) p \<noteq> None"
    using assms(1,3) by (auto simp: runs_def sched_ok_def)
  obtain b g1 k where g1: "psig_prepare p n ?a g = Inr (b, g1)" "sch g1 = supd p (\<lambda>r. r\<lparr>p_nice := k\<rparr>) (sch g)" "tree g1 = tree g" "sframes g1 = sframes g"
    "if orphan_stop p n ?a g then \<not> b \<and> p_siglist (sgp g1 p) = (if sigprop n SA_CONT then p_siglist (sgp g p) AND NOT stopsigmask else p_siglist (sgp g p))
     else (b \<longleftrightarrow> \<not> (?a = SIG_HOLD \<and> (\<not> sigprop n SA_CONT \<or> p_stat (sproc g p) \<noteq> SSTOP))) \<and> p_siglist (sgp g1 p) = posted n (p_siglist (sgp g p))"
    "sgp g1 = (sgp g)(p := (sgp g p)\<lparr>p_siglist := p_siglist (sgp g1 p)\<rparr>)"
    using psig_prepare_ok [OF jobc_ex [OF assms(2) st(3)], of n ?a] by blast
  have l: "p_siglist (sgp g1 p) = p_siglist (sgp g p) OR sigmask n" using g1(5) assms(6,7) by (simp add: orphan_stop_def posted_def)
  have "\<not> (P_TRACED \<notin> p_flag (sproc g p) \<and> p_sigignore (sgp g p) AND sigmask n \<noteq> 0)" using assms(4,5,8) by auto
  from psignal_go [OF assms(4,5) this g1(1)] have "psignal p n g = Some (Inr (if b then g1\<lparr>sast := True\<rparr> else g1))"
    using st g1(2) by (simp add: psig_act_def Let_def)
  then show ?thesis using g1(2-4,6) l by (intro exI [of _ "if b then g1\<lparr>sast := True\<rparr> else g1"] exI [of _ k]) auto
qed

lemma reset_ill_ok:
  assumes "sigproc_ok q"
  shows "sigproc_ok (q\<lparr>p_sigacts := (p_sigacts q)\<lparr>ps_sigact := (ps_sigact (p_sigacts q))(SIGILL := SIG_DFL)\<rparr>,
    p_sigignore := p_sigignore q AND NOT (sigmask SIGILL), p_sigcatch := p_sigcatch q AND NOT (sigmask SIGILL),
    p_sigmask := p_sigmask q AND NOT (sigmask SIGILL)\<rparr>)"
proof -
  have "\<not> sigprop SIGILL SA_IGNORE" by (simp add: sigprop_def sigprop_table_def)
  then show ?thesis using assms by (auto simp: sigproc_ok_def ignorable_def caught_def sig_bits)
qed

text \<open>\<open>sendsig\<close> changes the pending and the caught signals only when the stack of the user is bad.\<close>

lemma sendsig_ok:
  assumes "sig_inv g" "runs g p"
  shows "\<exists>g'. sendsig p h n m c acc g = Some (Inr g') \<and> sig_inv g' \<and> runs g' p \<and> scallq (sch g') = scallq (sch g) \<and>
    p_siglist (sgp g' p) = (if acc then p_siglist (sgp g p) else p_siglist (sgp g p) OR sigmask SIGILL) \<and>
    p_sigcatch (sgp g' p) = (if acc then p_sigcatch (sgp g p) else p_sigcatch (sgp g p) AND NOT (sigmask SIGILL)) \<and>
    p_sigmask (sgp g' p) = (if acc then p_sigmask (sgp g p) else p_sigmask (sgp g p) AND NOT (sigmask SIGILL)) \<and> tree g' = tree g"
proof -
  let ?ps = "p_sigacts (sgp g p)"
  define alt where alt: "alt \<longleftrightarrow> SAS_ALTSTACK \<in> ps_flags ?ps \<and> SA_ONSTACK \<notin> ss_flags (ps_sigstk ?ps) \<and> ps_sigonstack ?ps AND sigmask n \<noteq> 0"
  define g1 where g1: "g1 = (if alt then upd_sig p (\<lambda>q. q\<lparr>p_sigacts := ?ps\<lparr>ps_sigstk := (ps_sigstk ?ps)\<lparr>ss_flags := insert SA_ONSTACK (ss_flags (ps_sigstk ?ps))\<rparr>\<rparr>\<rparr>) g else g)"
  have i1: "sig_inv g1" unfolding g1 using assms(1)
    by (auto intro!: sig_inv_upd simp: sigproc_ok_def caught_def ignorable_def)
  have same: "sch g1 = sch g" "tree g1 = tree g" "p_siglist (sgp g1 p) = p_siglist (sgp g p)" "p_sigcatch (sgp g1 p) = p_sigcatch (sgp g p)"
    "p_sigmask (sgp g1 p) = p_sigmask (sgp g p)" by (simp_all add: g1 upd_sig_def)
  have r1: "runs g1 p" using assms(2) same by (simp add: runs_def)
  show ?thesis
  proof (cases acc)
    case True
    let ?g = "g1\<lparr>sframes := sframes g1 @ [(p, \<lparr>sf_signum = n, sf_code = c, sf_handler = h, sf_onalt = alt,
        sc_onstack = SA_ONSTACK \<in> ss_flags (ps_sigstk ?ps), sc_mask = m\<rparr>)]\<rparr>"
    have "sendsig p h n m c acc g = Some (Inr ?g)" using True unfolding sendsig_def Let_def alt [symmetric] g1 [symmetric] by simp
    moreover have "sig_inv ?g" "runs ?g p" using i1 r1 by (simp_all add: sig_inv_def sig_wf_def sintr_ok_def runs_def)
    ultimately show ?thesis using True same by (intro exI [of _ ?g]) simp
  next
    case False
    let ?f = "\<lambda>q. q\<lparr>p_sigacts := (p_sigacts q)\<lparr>ps_sigact := (ps_sigact (p_sigacts q))(SIGILL := SIG_DFL)\<rparr>,
      p_sigignore := p_sigignore q AND NOT (sigmask SIGILL), p_sigcatch := p_sigcatch q AND NOT (sigmask SIGILL), p_sigmask := p_sigmask q AND NOT (sigmask SIGILL)\<rparr>"
    let ?g2 = "upd_sig p ?f g1"
    have e: "sendsig p h n m c acc g = psignal p SIGILL ?g2" using False unfolding sendsig_def Let_def alt [symmetric] g1 [symmetric] by simp
    have i2: "sig_inv ?g2" using i1 by (rule sig_inv_upd) (rule reset_ill_ok)
    have r2: "runs ?g2 p" using r1 by (simp add: runs_def upd_sig_def)
    have "\<not> sigprop SIGILL SA_STOP" "\<not> sigprop SIGILL SA_CONT" by (simp_all add: sigprop_def sigprop_table_def)
    then obtain g' k where g': "psignal p SIGILL ?g2 = Some (Inr g')" "sch g' = supd p (\<lambda>r. r\<lparr>p_nice := k\<rparr>) (sch ?g2)" "tree g' = tree ?g2"
      "sgp g' = (sgp ?g2)(p := (sgp ?g2 p)\<lparr>p_siglist := p_siglist (sgp ?g2 p) OR sigmask SIGILL\<rparr>)"
      using psignal_running [OF sig_invD(1,3) [OF i2] r2, of SIGILL] by (auto simp: upd_sig_def sig_bits)
    have "\<exists>g3. psignal p SIGILL ?g2 = Some (Inr g3) \<and> psig_ok p SIGILL ?g2 g3 \<and> sig_inv g3" using psignal_inv [OF i2, of SIGILL p] r2 by (auto simp: runs_def)
    then have "sig_inv g'" using g'(1) by auto
    moreover have "runs g' p" "scallq (sch g') = scallq (sch g)" using r2 g'(2,3) same by (simp_all add: runs_def upd_sig_def)
    ultimately show ?thesis using e g' False same by (intro exI [of _ g']) (simp add: upd_sig_def)
  qed
qed

text \<open>A measure for the delivery loop: a bad stack posts \<^verbatim>\<open>SIGILL\<close> again, but with its default action.\<close>

definition dmeasure :: "sigproc \<Rightarrow> nat" where
  "dmeasure q = 3 * card {i. i \<noteq> 3 \<and> bit (p_siglist q) i} + (if bit (p_sigcatch q) 3 then 2 else 0) + (if bit (p_siglist q) 3 then 1 else 0)"

lemma finite_bits: "finite {i. P i \<and> bit (w :: u32) i}"
  by (rule finite_subset [of _ "{..<32}"]) (auto dest: bit_u32)

lemma dmeasure_mono:
  assumes "\<And>i. bit (p_siglist q') i \<Longrightarrow> bit (p_siglist q) i" "p_sigcatch q' = p_sigcatch q"
  shows "dmeasure q' \<le> dmeasure q"
proof -
  have "card {i. i \<noteq> 3 \<and> bit (p_siglist q') i} \<le> card {i. i \<noteq> 3 \<and> bit (p_siglist q) i}"
    by (rule card_mono [OF finite_bits]) (use assms(1) in auto)
  then show ?thesis using assms by (auto simp: dmeasure_def)
qed

lemma dmeasure_less:
  assumes "bit (p_siglist q) i" "bit (p_sigcatch q) i" "\<And>j. bit (p_siglist q') j \<Longrightarrow> j \<noteq> i \<and> bit (p_siglist q) j \<or> j = 3 \<and> \<not> bit (p_sigcatch q') 3"
    "\<And>j. bit (p_sigcatch q') j \<Longrightarrow> bit (p_sigcatch q) j"
  shows "dmeasure q' < dmeasure q"
proof -
  let ?A = "{j. j \<noteq> 3 \<and> bit (p_siglist q) j}" and ?B = "{j. j \<noteq> 3 \<and> bit (p_siglist q') j}"
  have "?B \<subseteq> ?A - {i}" using assms(3) by blast
  then have "card ?B \<le> card (?A - {i})" by (rule card_mono [rotated]) (simp add: finite_bits)
  moreover have "card (?A - {i}) = (if i = 3 then card ?A else card ?A - 1)" using assms(1) finite_bits by (auto simp: card_Diff_singleton)
  moreover have "i \<noteq> 3 \<Longrightarrow> 0 < card ?A" using assms(1) finite_bits [of "\<lambda>j. j \<noteq> 3"] by (auto simp: card_gt_0_iff)
  moreover have "bit (p_siglist q') 3 \<Longrightarrow> i = 3 \<Longrightarrow> \<not> bit (p_sigcatch q') 3" using assms(3) by blast
  ultimately show ?thesis using assms(1,2,4) by (cases "i = 3") (auto simp: dmeasure_def)
qed

lemma sigexit_inv:
  assumes "sig_inv g" "sigexit p n core g = (x, g')"
  shows "sig_inv g'" "\<exists>k. x = Exits k" "scallq (sch g') = scallq (sch g)"
proof -
  have "sig_inv (upd_sig p (\<lambda>q. q\<lparr>p_sigacts := (p_sigacts q)\<lparr>ps_sig := n\<rparr>\<rparr>) g)"
    using assms(1) by (rule sig_inv_upd) (simp add: sigproc_ok_def caught_def ignorable_def)
  then show "sig_inv g'" "\<exists>k. x = Exits k" using assms by (auto simp: sigexit_def split: if_splits)
  show "scallq (sch g') = scallq (sch g)" using assms(2) by (auto simp: sigexit_def upd_sig_def split: if_splits)
qed

lemma postsig_ok:
  assumes "sig_inv g" "runs g p" "to_post p n g"
  shows "\<exists>x g'. postsig p n acc core g = Some (Inr (x, g')) \<and> sig_inv g' \<and> scallq (sch g') = scallq (sch g) \<and>
    (if ps_sigact (p_sigacts (sgp g p)) n = SIG_DFL then \<exists>k. x = Exits k
     else x = Delivered \<and> runs g' p \<and> tree g' = tree g \<and> dmeasure (sgp g' p) < dmeasure (sgp g p) \<and>
       (\<forall>i. bit (p_siglist (sgp g p)) i \<longrightarrow> i \<noteq> n - 1 \<longrightarrow> bit (p_siglist (sgp g' p)) i))"
proof -
  let ?g1 = "clear p (sigmask n) g" and ?act = "ps_sigact (p_sigacts (sgp g p)) n"
  have n: "0 < n" "n < 32" "bit (p_siglist (sgp g p)) (n - 1)" "\<not> bit (p_sigmask (sgp g p)) (n - 1)" "?act \<noteq> SIG_IGN"
    using assms(3) by (auto simp: to_post_def pendmask_bit droppable_def Let_def)
  have ok: "sigproc_ok (sgp g p)" using sig_invD(5) [OF assms(1)] assms(2) by (simp add: runs_def)
  have i1: "sig_inv ?g1" using sig_inv_frame' [OF assms(1), of ?g1] sig_invD(1) [OF assms(1)] by simp
  have q1: "p_sigacts (sgp ?g1 p) = p_sigacts (sgp g p)" "p_sigmask (sgp ?g1 p) = p_sigmask (sgp g p)" by simp_all
  show ?thesis
  proof (cases "?act = SIG_DFL")
    case True
    obtain x g' where x: "sigexit p n core ?g1 = (x, g')" by fastforce
    then have "postsig p n acc core g = Some (Inr (x, g'))" using True n(1) by (simp add: postsig_def Let_def)
    then show ?thesis using True sigexit_inv [OF i1 x] by auto
  next
    case False
    let ?ps = "p_sigacts (sgp g p)"
    define ps2 where "ps2 = (if ps_sig ?ps \<noteq> n then ?ps\<lparr>ps_flags := ps_flags ?ps - {SAS_OLDMASK}\<rparr>
      else ?ps\<lparr>ps_flags := ps_flags ?ps - {SAS_OLDMASK}, ps_code := 0, ps_sig := 0\<rparr>)"
    define rm where "rm = (if SAS_OLDMASK \<in> ps_flags ?ps then ps_oldmask ?ps else p_sigmask (sgp g p))"
    define code where "code = (if ps_sig ?ps \<noteq> n then 0 else ps_code ?ps)"
    let ?f = "\<lambda>q. q\<lparr>p_sigmask := p_sigmask q OR (ps_catchmask ?ps n OR sigmask n), p_sigacts := ps2\<rparr>"
    let ?g2 = "upd_sig p ?f ?g1"
    have ct: "caught ?ps n" using False n(5) by (simp add: caught_def)
    then have nk: "n \<noteq> SIGKILL" "n \<noteq> SIGSTOP" using sigproc_okD(2,3) [OF ok] by (auto simp: caught_def)
    have p2: "ps_sigact ps2 = ps_sigact ?ps" "ps_catchmask ps2 = ps_catchmask ?ps" "ps_oldmask ps2 = ps_oldmask ?ps" by (simp_all add: ps2_def)
    have "sig_inv ?g2" using i1
      by (rule sig_inv_upd) (use nk sigproc_okD(6) [OF ok, of n] in \<open>auto simp: sigproc_ok_def caught_def ignorable_def p2\<close>)
    moreover have "runs ?g2 p" using assms(2) by (simp add: runs_def upd_sig_def)
    ultimately obtain g' where g': "sendsig p ?act n rm code acc ?g2 = Some (Inr g')" "sig_inv g'" "runs g' p" "tree g' = tree ?g2"
      "p_siglist (sgp g' p) = (if acc then p_siglist (sgp ?g2 p) else p_siglist (sgp ?g2 p) OR sigmask SIGILL)"
      "p_sigcatch (sgp g' p) = (if acc then p_sigcatch (sgp ?g2 p) else p_sigcatch (sgp ?g2 p) AND NOT (sigmask SIGILL))"
      "scallq (sch g') = scallq (sch ?g2)"
      using sendsig_ok [of ?g2 p ?act n rm code acc] by blast
    have c: "n \<noteq> 0" "\<not> (?act = SIG_IGN \<or> p_sigmask (sgp g p) AND sigmask n \<noteq> 0)" using n by auto
    have "postsig p n acc core g = sthen (sendsig p ?act n rm code acc ?g2) (\<lambda>g2. Some (Inr (Delivered, g2)))"
      unfolding postsig_def Let_def q1 if_not_P [OF c(1)] if_not_P [OF False] if_not_P [OF c(2)] ps2_def rm_def code_def ..
    then have "postsig p n acc core g = Some (Inr (Delivered, g'))" using g'(1) by (simp add: sthen_def)
    moreover have bits: "bit (p_siglist (sgp g' p)) j \<longleftrightarrow> j \<noteq> n - 1 \<and> bit (p_siglist (sgp g p)) j \<or> j = 3 \<and> \<not> acc"
      "bit (p_sigcatch (sgp g' p)) j \<longleftrightarrow> bit (p_sigcatch (sgp g p)) j \<and> (acc \<or> j \<noteq> 3)" for j
      using bit_u32 [of "p_siglist (sgp g p)" j] bit_u32 [of "p_sigcatch (sgp g p)" j] unfolding g'(5,6)
      by (auto simp: clear_def upd_sig_def sig_bits)
    moreover have "bit (p_sigcatch (sgp g p)) (n - 1)" using sigproc_okD(7) [OF ok n(1,2)] ct by simp
    then have "dmeasure (sgp g' p) < dmeasure (sgp g p)" using n(3) bits by (intro dmeasure_less) auto
    ultimately show ?thesis using False g'(2-4,7) by (auto simp: upd_sig_def)
  qed
qed

text \<open>The delivery loop returns.\<close>

lemma deliver_ok:
  assumes "sig_inv g" "runs g p"
  shows "\<exists>x g'. deliver p acc core g = Some (Inr (x, g')) \<and> sig_inv g' \<and> scallq (sch g') = scallq (sch g) \<and>
    (x = Delivered \<longrightarrow> pendmask p g' = 0) \<and> (bit (p_siglist (sgp g p)) (SIGKILL - 1) \<longrightarrow> 1 < pid_of g p \<longrightarrow> (\<exists>k. x = Exits k))"
  using assms
proof (induction "dmeasure (sgp g p)" arbitrary: g rule: less_induct)
  case less
  have ok: "sigproc_ok (sgp g p)" using sig_invD(5) [OF less(2)] less(3) by (simp add: runs_def)
  have kill: "\<not> lowest p g n" if "bit (p_siglist (sgp g p)) 8" "1 < pid_of g p" "9 < n" for n
  proof -
    have "bit (pendmask p g) 8" using that(1) sigproc_okD(4) [OF ok] by (auto simp: pendmask_bit unblockable_def stop_bit)
    moreover have "\<not> droppable p g 9" using that(2) sigproc_okD(2) [OF ok] by (simp add: droppable_def sigprop_def sigprop_table_def)
    ultimately show ?thesis using that(3) unfolding lowest_def by (auto intro!: exI [of _ 9])
  qed
  show ?case
  proof (rule cursig_ok [OF less(2,3)])
    fix took
    assume c: "cursig p g = Some (Inr (Is_none, clear p took g))" "pendmask p (clear p took g) = 0" "sig_inv (clear p took g)" "lowest p g 32"
    then have "deliver p acc core g = Some (Inr (Delivered, clear p took g))" by (subst deliver.simps) simp
    then show ?thesis using c kill [of 32] by auto
  next
    fix n took g'
    assume c: "cursig p g = Some (Inr (Is_stopped n, g'))" "0 < n" "n < 32" "sigprop n SA_STOP" "sig_inv g'" "lowest p g n" "left_at p n took g g'"
    then have "deliver p acc core g = Some (Inr (Stops (Is_stopped n), g'))" by (subst deliver.simps) simp
    moreover have "scallq (sch g') = scallq (sch g)" using c(7) by (rule left_at_callq)
    moreover have "9 < n" using sigprop_stop [OF c(2,3)] c(4) by (auto simp: stop_bit)
    ultimately show ?thesis using c kill [of n] by auto
  next
    fix took n
    let ?g = "clear p took g"
    assume c: "cursig p g = Some (Inr (Is_sig n, ?g))" "to_post p n ?g" "sig_inv ?g" "lowest p g n" "\<And>i. bit took i \<Longrightarrow> i < n - 1"
    have r: "runs ?g p" using less(3) by (simp add: runs_def)
    obtain x g' where x: "postsig p n acc core ?g = Some (Inr (x, g'))" "sig_inv g'" "scallq (sch g') = scallq (sch g)"
      "if ps_sigact (p_sigacts (sgp ?g p)) n = SIG_DFL then \<exists>k. x = Exits k
       else x = Delivered \<and> runs g' p \<and> tree g' = tree ?g \<and> dmeasure (sgp g' p) < dmeasure (sgp ?g p) \<and>
         (\<forall>i. bit (p_siglist (sgp ?g p)) i \<longrightarrow> i \<noteq> n - 1 \<longrightarrow> bit (p_siglist (sgp g' p)) i)"
      using postsig_ok [OF c(3) r c(2), of acc core] by auto
    show ?thesis
    proof (cases "ps_sigact (p_sigacts (sgp ?g p)) n = SIG_DFL")
      case True
      then obtain k where "x = Exits k" using x(4) by auto
      then have "deliver p acc core g = Some (Inr (x, g'))" using c(1) x(1) by (subst deliver.simps) simp
      then show ?thesis using x(2,3) \<open>x = Exits k\<close> by auto
    next
      case False
      then have d: "x = Delivered" "runs g' p" "tree g' = tree g" "dmeasure (sgp g' p) < dmeasure (sgp ?g p)"
        "\<forall>i. bit (p_siglist (sgp ?g p)) i \<longrightarrow> i \<noteq> n - 1 \<longrightarrow> bit (p_siglist (sgp g' p)) i" using x(4) by simp_all
      have "dmeasure (sgp ?g p) \<le> dmeasure (sgp g p)" by (rule dmeasure_mono) (auto simp: clear_def upd_sig_def bit_and_iff)
      then have "dmeasure (sgp g' p) < dmeasure (sgp g p)" using d(4) by simp
      then obtain y h where y: "deliver p acc core g' = Some (Inr (y, h))" "sig_inv h" "scallq (sch h) = scallq (sch g')" "y = Delivered \<longrightarrow> pendmask p h = 0"
        "bit (p_siglist (sgp g' p)) (SIGKILL - 1) \<longrightarrow> 1 < pid_of g' p \<longrightarrow> (\<exists>k. y = Exits k)" using less(1) [OF _ x(2) d(2)] by blast
      have "deliver p acc core g = Some (Inr (y, h))" using c(1) x(1) d(1) y(1) by (subst deliver.simps) simp
      moreover have "bit (p_siglist (sgp g' p)) 8" "1 < pid_of g' p" if kl: "bit (p_siglist (sgp g p)) 8" "1 < pid_of g p"
      proof -
        have "n \<le> 9" using kill [OF kl, of n] c(4) by (meson not_less)
        moreover have "n \<noteq> 9" using False sigproc_okD(2) [OF ok] by auto
        ultimately have "n - 1 \<noteq> 8" "\<not> bit took 8" using c(5) [of 8] by fastforce+
        then show "bit (p_siglist (sgp g' p)) 8" using d(5) [rule_format, of 8] kl(1) by (simp add: bit_and_iff bit_not_iff)
        show "1 < pid_of g' p" using kl(2) d(3) by (simp add: pid_of_def)
      qed
      ultimately show ?thesis using y x(3) by auto
    qed
  qed
qed

section \<open>Sleeping\<close>

text \<open>The process on its sleep queue, before it has given up the processor.\<close>

definition sleeper :: "bool \<Rightarrow> nat \<Rightarrow> ssys \<Rightarrow> ssys" where
  "sleeper catch p s = (if catch then supd p (\<lambda>r. r\<lparr>p_flag := insert P_SINTR (p_flag r)\<rparr>) s else s)"

abbreviation asleep_rec :: "proc \<Rightarrow> proc" where "asleep_rec r \<equiv> r\<lparr>p_stat := SSLEEP\<rparr>"

lemma tsleep_queued:
  assumes "sig_inv g" "runs g p" "ident \<noteq> 0" "ident \<noteq> proc0 (sch g)" "pid_of g p \<noteq> 0" "priority mod 256 < 128"
    "timo \<noteq> 0 \<Longrightarrow> timeout endtsleep_fn p timo (scallq (sch g)) = Some q"
  shows "\<exists>s1. tsleep_enter p ident priority timo (sch g) = Inr s1 \<and>
    (let u = sleeper catch p s1 in
     scur u = Some p \<and> sig_wf (g\<lparr>sch := u\<rparr>) \<and> sched_ok (with_scur None (supd p stopped_rec u)) \<and> sched_ok (with_scur None (supd p asleep_rec u)) \<and>
     p_wchan (sprocs u p) = Some ident \<and> proc0 u = proc0 (sch g) \<and>
     p_flag (sprocs u p) = (if catch then insert P_SINTR (p_flag (sproc g p)) else p_flag (sproc g p)) \<and>
     scallq u = (if timo = 0 then scallq (sch g) else q) \<and> in_limit u (sprocs u p) = in_limit (sch g) (sproc g p))"
proof -
  let ?s = "sch g" and ?r = "(sproc g p)\<lparr>p_wchan := Some ident, p_slptime := 0, p_priority := priority mod 256\<rparr>"
  have cur: "scur ?s = Some p" using assms(2) by (simp add: runs_def)
  note i = sig_invD [OF assms(1)]
  obtain s1 Q where s1: "tsleep_enter p ident priority timo ?s = Inr s1" "sleep_rep s1 Q" "qs s1 = qs ?s" "scur s1 = scur ?s" "proc0 s1 = proc0 ?s"
    "snow s1 = snow ?s" "sruntime s1 = sruntime ?s" "scallq s1 = (if timo = 0 then scallq ?s else q)" "sprocs s1 = (sprocs ?s)(p := ?r)"
    using tsleep_enter_ok [OF i(1) cur assms(3,7)] by blast
  let ?u = "sleeper catch p s1"
  have pri: "priority mod 256 < 128" "p_usrpri (sproc g p) < 128" using assms(6) sched_usrpri [OF i(1), of p] by simp_all
  have left: "sched_ok (with_scur None (supd p f ?u))"
    if "p_stat (f (sprocs ?u p)) = SSLEEP \<or> p_stat (f (sprocs ?u p)) = SSTOP" "p_wchan (f (sprocs ?u p)) = Some ident" "p_priority (f (sprocs ?u p)) = priority mod 256"
      "p_usrpri (f (sprocs ?u p)) = p_usrpri (sproc g p)" for f
  proof (rule left_ok [OF i(1) cur])
    show "sleep_rep (supd p f ?u) Q" using s1(2,9) sleep_rep_cong [of "supd p f ?u" s1 Q] that(2) by (simp add: sleeper_def)
  qed (use s1(3,4,9) that pri in \<open>auto simp: sleeper_def\<close>)
  have "sched_ok (with_scur None (supd p stopped_rec ?u))" "sched_ok (with_scur None (supd p asleep_rec ?u))"
    by (rule left; simp add: s1(9) sleeper_def)+
  moreover obtain r where "pprocs (tree g) p = Some r" "pp_pid r \<noteq> 0" using assms(2,5) by (auto simp: runs_def pid_of_def)
  then have "sig_wf (g\<lparr>sch := ?u\<rparr>)" by (intro sig_wf_sch [OF i(6)]) (use s1(5,9) assms(4) in \<open>auto simp: sleeper_def split: if_splits\<close>)
  moreover have "in_limit ?u (sprocs ?u p) = in_limit ?s (sproc g p)" by (rule in_limit_cong) (simp_all add: sleeper_def s1(6,7,9))
  ultimately show ?thesis using s1 cur by (intro exI [of _ s1]) (simp add: Let_def sleeper_def)
qed

text \<open>The process goes to sleep, or takes itself off the queue because \<open>CURSIG\<close> has found a signal.\<close>

lemma sleep_block_s_ok:
  assumes "sig_wf g" "runs g p" "sched_ok (with_scur None (supd p asleep_rec (sch g)))"
  shows "\<exists>g'. sleep_block_s p g = Some (Inr g') \<and> sig_inv g' \<and> scallq (sch g') = scallq (sch g) \<and> proc_frame (sproc g p) (sproc g' p) \<and>
    (alert g p \<longrightarrow> alert g' p) \<and>
    (in_limit (sch g) (sproc g p) \<longrightarrow> p_stat (sproc g' p) = SSLEEP \<and> p_wchan (sproc g' p) = p_wchan (sproc g p))"
proof -
  let ?h = "upd_sch p asleep_rec g"
  have f: "sig_frame g ?h" by (rule sig_frame_upd) (simp add: proc_frame_def)
  have w: "sig_wf ?h" using sig_wf_frame [OF assms(1), of "scur (sch ?h)" ?h] f by (simp add: with_cur_id)
  have c: "sched_ok (with_scur None (sch ?h))" "scur (sch ?h) = Some p" "pprocs (tree ?h) p \<noteq> None" using assms(2,3) by (simp_all add: upd_sch_def runs_def)
  obtain g' where g': "mi_switch_s p ?h = Some (Inr g')" "sched_ok (sch g')" "sig_frame ?h (with_cur (Some p) g')" "\<forall>x. alert ?h x \<longrightarrow> alert g' x"
    "in_limit (sch ?h) (sproc ?h p) \<longrightarrow> sgp g' = sgp ?h \<and> p_stat (sproc g' p) = p_stat (sproc ?h p) \<and> p_wchan (sproc g' p) = p_wchan (sproc ?h p)"
    using mi_switch_s_ok [OF c(1,2) _ _ c(3)] w by (auto simp: sig_wf_def)
  have "sig_inv g'" using sig_wf_frame [OF w g'(3)] g'(2) by (simp add: sig_inv_def)
  moreover have "in_limit (sch ?h) (sproc ?h p) = in_limit (sch g) (sproc g p)" by (rule in_limit_cong) (simp_all add: upd_sch_def)
  moreover have "alert ?h p" if "alert g p" by (rule alert_same [OF f _ that]) (simp add: upd_sch_def)
  moreover have "proc_frame (sproc g p) (sproc g' p)" "scallq (sch g') = scallq (sch g)"
    using sig_frame_trans [OF f g'(3)] by (simp_all add: sig_frame_def with_cur_def)
  ultimately show ?thesis using g' by (intro exI [of _ g']) (simp add: sleep_block_s_def upd_sch_def)
qed

lemma tsleep_found:
  assumes "sig_inv g" "runs g p" "ident \<noteq> 0" "ident \<noteq> proc0 (sch g)" "pid_of g p \<noteq> 0" "priority mod 256 < 128"
    "timo \<noteq> 0 \<Longrightarrow> timeout endtsleep_fn p timo (scallq (sch g)) = Some q" "tsleep_enter p ident priority timo (sch g) = Inr s1" "sig \<noteq> 0"
  shows "\<exists>g'. tsleep_wait_s p True sig (g\<lparr>sch := sleeper True p s1\<rparr>) = Some (Inr g') \<and> sig_inv g' \<and>
    scallq (sch g') = (if timo = 0 then scallq (sch g) else q)"
proof -
  fix e
  have cur: "scur (sch g) = Some p" using assms(2) by (simp add: runs_def)
  obtain s' where s': "tsleep e p ident priority True timo sig (sch g) = Some (Inr s')" "sched_ok s'" "proc0 s' = proc0 (sch g)"
    "scallq s' = (if timo = 0 then scallq (sch g) else q)" "\<forall>x. x \<noteq> p \<longrightarrow> sprocs s' x = sproc g x" "p_wchan (sprocs s' p) = None"
    "p_flag (sprocs s' p) = insert P_SINTR (p_flag (sproc g p))"
    using tsleep_ok [OF sig_invD(1) [OF assms(1)] cur assms(3,7,6), of e True sig] assms(9) by auto
  obtain r where r: "pprocs (tree g) p = Some r" "pp_pid r \<noteq> 0" using assms(2,5) by (auto simp: runs_def pid_of_def)
  have "sig_wf (g\<lparr>sch := s'\<rparr>)"
  proof (rule sig_wf_sch [OF sig_invD(6) [OF assms(1)] s'(3)])
    fix x
    show "P_TRACED \<in> p_flag (sprocs s' x) \<longleftrightarrow> P_TRACED \<in> p_flag (sproc g x)" using s'(5,7) by (cases "x = p") auto
    show "P_WEXIT \<in> p_flag (sprocs s' x) \<longleftrightarrow> P_WEXIT \<in> p_flag (sproc g x)" using s'(5,7) by (cases "x = p") auto
    show "P_SINTR \<in> p_flag (sproc g x) \<and> (p_wchan (sprocs s' x) = p_wchan (sproc g x) \<or> p_wchan (sprocs s' x) = None) \<or>
       p_wchan (sprocs s' x) \<noteq> Some (proc0 s') \<and> (\<exists>r. pprocs (tree g) x = Some r \<and> pp_pid r \<noteq> 0)" if "P_SINTR \<in> p_flag (sprocs s' x)"
      using that s'(5,6) r by (cases "x = p") auto
  qed
  moreover have "tsleep_wait e p True sig (sleeper True p s1) = Some (Inr s')" using s'(1) assms(8) by (simp add: tsleep_def sthen_def sleeper_def)
  then have "tsleep_wait_s p True sig (g\<lparr>sch := sleeper True p s1\<rparr>) = Some (Inr (g\<lparr>sch := s'\<rparr>))"
    using assms(9) by (auto simp: tsleep_wait_def tsleep_wait_s_def on_sch_def sthen_def upd_sch_def split: option.splits sum.splits)
  ultimately show ?thesis using s'(2,4) by (simp add: sig_inv_def)
qed

lemma tsleep_sig_ok:
  assumes "sig_inv g" "runs g p" "ident \<noteq> 0" "ident \<noteq> proc0 (sch g)" "pid_of g p \<noteq> 0" "priority mod 256 < 128"
    "timo \<noteq> 0 \<Longrightarrow> timeout endtsleep_fn p timo (scallq (sch g)) = Some q"
  shows "\<exists>r g'. tsleep_sig p ident priority catch timo g = Some (Inr (r, g')) \<and> sig_inv g' \<and>
    scallq (sch g') = (if timo = 0 then scallq (sch g) else q) \<and>
    (catch \<longrightarrow> r = Is_none \<longrightarrow> P_SINTR \<in> p_flag (sproc g' p) \<and> alert g' p \<and>
       (in_limit (sch g) (sproc g p) \<longrightarrow> p_stat (sproc g' p) = SSLEEP \<and> p_wchan (sproc g' p) = Some ident))"
proof -
  obtain s1 where s1: "tsleep_enter p ident priority timo (sch g) = Inr s1" and
    u: "let u = sleeper catch p s1 in
     scur u = Some p \<and> sig_wf (g\<lparr>sch := u\<rparr>) \<and> sched_ok (with_scur None (supd p stopped_rec u)) \<and> sched_ok (with_scur None (supd p asleep_rec u)) \<and>
     p_wchan (sprocs u p) = Some ident \<and> proc0 u = proc0 (sch g) \<and>
     p_flag (sprocs u p) = (if catch then insert P_SINTR (p_flag (sproc g p)) else p_flag (sproc g p)) \<and>
     scallq u = (if timo = 0 then scallq (sch g) else q) \<and> in_limit u (sprocs u p) = in_limit (sch g) (sproc g p)"
    using tsleep_queued [OF assms, where catch = catch] by blast
  define u where u_def: "u = sleeper catch p s1"
  note u = u [unfolded Let_def, folded u_def]
  let ?g = "g\<lparr>sch := u\<rparr>"
  have r: "runs ?g p" using assms(2) u by (simp add: runs_def)
  have ent: "tsleep_sig p ident priority catch timo g =
      (if \<not> catch then sthen (tsleep_wait_s p False 0 ?g) (\<lambda>g2. Some (Inr (Is_none, g2)))
       else sthen (cursig p ?g) (\<lambda>(r, g2).
         case r of
           Is_none \<Rightarrow> sthen (tsleep_wait_s p True 0 g2) (\<lambda>g3. Some (Inr (r, g3)))
         | Is_sig n \<Rightarrow> sthen (tsleep_wait_s p True n g2) (\<lambda>g3. Some (Inr (r, g3)))
         | _ \<Rightarrow> Some (Inr (r, g2))))"
    using s1 by (simp add: tsleep_sig_def on_sch_def sthen_def upd_sch_def u_def sleeper_def)
  show ?thesis
  proof (cases catch)
    case False
    obtain g' where "sleep_block_s p ?g = Some (Inr g')" "sig_inv g'" "scallq (sch g') = scallq u" using sleep_block_s_ok [of ?g p] u r by auto
    then show ?thesis using False u unfolding ent by (simp add: tsleep_wait_s_def sthen_def)
  next
    case True
    have cs: "sched_ok (with_scur None (supd p stopped_rec (sch ?g)))" using u by simp
    show ?thesis
    proof (rule cursig_wf [OF _ r cs])
      show "sig_wf ?g" using u by simp
    next
      fix took
      let ?c = "clear p took ?g"
      assume c: "cursig p ?g = Some (Inr (Is_none, ?c))" "pendmask p ?c = 0" "sig_wf ?c"
      have "runs ?c p" using r by (simp add: runs_def)
      then obtain g' where g': "sleep_block_s p ?c = Some (Inr g')" "sig_inv g'" "scallq (sch g') = scallq u" "proc_frame (sprocs u p) (sproc g' p)"
        "alert ?c p \<longrightarrow> alert g' p" "in_limit u (sprocs u p) \<longrightarrow> p_stat (sproc g' p) = SSLEEP \<and> p_wchan (sproc g' p) = p_wchan (sprocs u p)"
        using sleep_block_s_ok [OF c(3), of p] u by auto
      have "alert ?c p" using c(2) by (simp add: alert_def)
      moreover have "P_SINTR \<in> p_flag (sproc g' p)" using proc_frame_flag [OF g'(4), of P_SINTR] u True by simp
      ultimately show ?thesis using True c(1) g' u unfolding ent by (simp add: sthen_def tsleep_wait_s_def)
    next
      fix took n
      let ?c = "clear p took g"
      assume c: "cursig p ?g = Some (Inr (Is_sig n, clear p took ?g))" "to_post p n (clear p took ?g)"
      have i: "sig_inv ?c" "runs ?c p" using sig_inv_frame' [OF assms(1), of ?c] sig_invD(1) [OF assms(1)] assms(2) by (simp_all add: runs_def)
      have e: "clear p took ?g = ?c\<lparr>sch := sleeper True p s1\<rparr>" using True by (simp add: clear_def upd_sig_def u_def)
      have pid: "pid_of ?c p \<noteq> 0" using assms(5) by (simp add: pid_of_def)
      obtain g' where "tsleep_wait_s p True n (clear p took ?g) = Some (Inr g')" "sig_inv g'" "scallq (sch g') = (if timo = 0 then scallq (sch g) else q)"
        using tsleep_found [OF i assms(3) _ pid assms(6), of timo q s1 n] assms(4,7) s1 c(2) unfolding e by (auto simp: to_post_def)
      then show ?thesis using True c(1) unfolding ent by (simp add: sthen_def)
    next
      fix n took g'
      assume "cursig p ?g = Some (Inr (Is_stopped n, g'))" "sig_inv g'" "left_at p n took ?g g'"
      then show ?thesis using True u unfolding ent by (auto simp: sthen_def left_at_def sig_frame_def with_cur_def)
    qed
  qed
qed

section \<open>Stopping, continuing and killing\<close>

text \<open>The first half of \<open>psignal\<close> for a signal that is neither ignored nor discarded.\<close>

lemma psignal_posts:
  assumes "sig_inv g" "0 < n" "n < 32" "pprocs (tree g) p \<noteq> None" "\<not> bit (p_sigignore (sgp g p)) (n - 1)" "\<not> sigprop n SA_STOP"
    "sig_action p n g \<noteq> SIG_HOLD \<or> sigprop n SA_CONT \<and> p_stat (sproc g p) = SSTOP"
  shows "\<exists>g1 k. psignal p n g = psig_act p n (sig_action p n g) (parent_of g p) g1 \<and> sch g1 = supd p (\<lambda>r. r\<lparr>p_nice := k\<rparr>) (sch g) \<and>
    tree g1 = tree g \<and> sched_ok (sch g1) \<and> sgp g1 = (sgp g)(p := (sgp g p)\<lparr>p_siglist := posted n (p_siglist (sgp g p))\<rparr>)"
proof -
  let ?a = "sig_action p n g"
  obtain b g1 k where g1: "psig_prepare p n ?a g = Inr (b, g1)" "sch g1 = supd p (\<lambda>r. r\<lparr>p_nice := k\<rparr>) (sch g)" "tree g1 = tree g" "sframes g1 = sframes g"
    "if orphan_stop p n ?a g then \<not> b \<and> p_siglist (sgp g1 p) = (if sigprop n SA_CONT then p_siglist (sgp g p) AND NOT stopsigmask else p_siglist (sgp g p))
     else (b \<longleftrightarrow> \<not> (?a = SIG_HOLD \<and> (\<not> sigprop n SA_CONT \<or> p_stat (sproc g p) \<noteq> SSTOP))) \<and> p_siglist (sgp g1 p) = posted n (p_siglist (sgp g p))"
    "sgp g1 = (sgp g)(p := (sgp g p)\<lparr>p_siglist := p_siglist (sgp g1 p)\<rparr>)"
    using psig_prepare_ok [OF jobc_ex [OF sig_invD(3) [OF assms(1)] assms(4)], of n ?a] by blast
  have "\<not> (P_TRACED \<notin> p_flag (sproc g p) \<and> p_sigignore (sgp g p) AND sigmask n \<noteq> 0)" using assms(2,3,5) by auto
  note go = psignal_go [OF assms(2,3) this g1(1)]
  have "\<not> orphan_stop p n ?a g" using assms(6) by (simp add: orphan_stop_def)
  then have b: "b" "p_siglist (sgp g1 p) = posted n (p_siglist (sgp g p))" using g1(5) assms(7) by auto
  then show ?thesis using go g1(2,3,6) sched_nice [OF sig_invD(1) [OF assms(1)], of p k] by (intro exI [of _ g1] exI [of _ k]) simp
qed

lemma readied_inv: "sig_inv g \<Longrightarrow> psignal p n g = Some (Inr g') \<Longrightarrow> 0 < n \<Longrightarrow> n < 32 \<Longrightarrow> pprocs (tree g) p \<noteq> None \<Longrightarrow> sig_inv g' \<and> sig_frame g g'"
  using psignal_inv [of g n p] by (auto simp: psig_ok_def)

lemma psignal_cont:
  assumes "sig_inv g" "pprocs (tree g) p \<noteq> None" "P_WEXIT \<notin> p_flag (sproc g p)" "p_stat (sproc g p) = SSTOP"
  shows "\<exists>g'. psignal p SIGCONT g = Some (Inr g') \<and> sig_inv g' \<and> sig_frame g g' \<and>
    p_siglist (sgp g' p) = (if sig_action p SIGCONT g = SIG_DFL then posted SIGCONT (p_siglist (sgp g p)) AND NOT (sigmask SIGCONT)
      else posted SIGCONT (p_siglist (sgp g p))) \<and>
    (if sig_action p SIGCONT g = SIG_CATCH \<or> p_wchan (sproc g p) = None then p_stat (sproc g' p) = SRUN
     else p_stat (sproc g' p) = SSLEEP \<and> p_wchan (sproc g' p) = p_wchan (sproc g p))"
proof -
  let ?a = "sig_action p SIGCONT g"
  have ok: "sigproc_ok (sgp g p)" using sig_invD(5) [OF assms(1,3)] .
  have ig: "\<not> bit (p_sigignore (sgp g p)) (SIGCONT - 1)" using sigproc_okD(8) [OF ok, of SIGCONT] by (simp add: ignorable_def)
  have pr: "\<not> sigprop SIGCONT SA_STOP" "sigprop SIGCONT SA_CONT" by (simp_all add: sigprop_def sigprop_table_def)
  have tr: "P_TRACED \<notin> p_flag (sproc g p)" using sig_invD(4) [OF assms(1)] .
  obtain g1 k where g1: "psignal p SIGCONT g = psig_act p SIGCONT ?a (parent_of g p) g1" "sch g1 = supd p (\<lambda>r. r\<lparr>p_nice := k\<rparr>) (sch g)"
    "tree g1 = tree g" "sched_ok (sch g1)" "sgp g1 = (sgp g)(p := (sgp g p)\<lparr>p_siglist := posted SIGCONT (p_siglist (sgp g p))\<rparr>)"
    using psignal_posts [OF assms(1) _ _ assms(2) ig pr(1)] pr(2) assms(4) by auto
  define g2 where g2: "g2 = (if ?a = SIG_DFL then clear p (sigmask SIGCONT) g1 else g1)"
  have s2: "sched_ok (sch g2)" "p_stat (sproc g2 p) = SSTOP \<or> p_stat (sproc g2 p) = SSLEEP" using g1(2,4) assms(4) by (simp_all add: g2)
  have l2: "p_siglist (sgp g2 p) = (if ?a = SIG_DFL then posted SIGCONT (p_siglist (sgp g p)) AND NOT (sigmask SIGCONT) else posted SIGCONT (p_siglist (sgp g p)))"
    by (simp add: g2 g1(5))
  have e: "psignal p SIGCONT g = (if ?a = SIG_CATCH then psig_runfast p g2 else if p_wchan (sproc g p) = None then psig_run p g2
      else Some (Inr (upd_sch p (\<lambda>r. r\<lparr>p_stat := SSLEEP\<rparr>) g2)))"
    using g1(1,2) assms(4) tr pr by (simp add: psig_act_def psig_stopped_def Let_def g2)
  show ?thesis
  proof (cases "?a = SIG_CATCH \<or> p_wchan (sproc g p) = None")
    case True
    then have "\<exists>g'. psignal p SIGCONT g = Some (Inr g') \<and> readied p g2 g'"
      using psig_run_ok [OF s2] psig_runfast_ok [OF s2] unfolding e by (cases "?a = SIG_CATCH") auto
    then obtain g' where "psignal p SIGCONT g = Some (Inr g')" "readied p g2 g'" by blast
    then show ?thesis using readied_inv [OF assms(1) _ _ _ assms(2)] True l2 by (auto simp: readied_def)
  next
    case False
    let ?g = "upd_sch p (\<lambda>r. r\<lparr>p_stat := SSLEEP\<rparr>) g2"
    have "psignal p SIGCONT g = Some (Inr ?g)" unfolding e using False by auto
    moreover have "sch g2 = sch g1" "p_siglist (sgp ?g p) = p_siglist (sgp g2 p)" by (simp_all add: g2 upd_sch_def)
    ultimately show ?thesis using readied_inv [OF assms(1) _ _ _ assms(2), of SIGCONT ?g] False l2 g1(2) by (simp add: upd_sch_def)
  qed
qed

text \<open>A signal that kills or is caught makes a process run that is asleep interruptibly; \<^verbatim>\<open>SIGKILL\<close> also one that is stopped.\<close>

lemma psignal_wakes:
  assumes "sig_inv g" "pprocs (tree g) p \<noteq> None" "P_WEXIT \<notin> p_flag (sproc g p)" "0 < n" "n < 32" "\<not> bit (p_sigignore (sgp g p)) (n - 1)"
    "\<not> bit (p_sigmask (sgp g p)) (n - 1)" "\<not> sigprop n SA_STOP" "\<not> sigprop n SA_CONT"
    "p_stat (sproc g p) = SSLEEP \<and> P_SINTR \<in> p_flag (sproc g p) \<or> p_stat (sproc g p) = SSTOP \<and> n = SIGKILL"
  shows "\<exists>g'. psignal p n g = Some (Inr g') \<and> sig_inv g' \<and> sig_frame g g' \<and> p_stat (sproc g' p) = SRUN \<and>
    sgp g' = (sgp g)(p := (sgp g p)\<lparr>p_siglist := p_siglist (sgp g p) OR sigmask n\<rparr>)"
proof -
  let ?a = "sig_action p n g"
  have tr: "P_TRACED \<notin> p_flag (sproc g p)" using sig_invD(4) [OF assms(1)] .
  then have a: "?a \<noteq> SIG_HOLD" using assms(4,5,7) by (simp add: sig_action_def)
  obtain g1 k where g1: "psignal p n g = psig_act p n ?a (parent_of g p) g1" "sch g1 = supd p (\<lambda>r. r\<lparr>p_nice := k\<rparr>) (sch g)"
    "tree g1 = tree g" "sched_ok (sch g1)" "sgp g1 = (sgp g)(p := (sgp g p)\<lparr>p_siglist := posted n (p_siglist (sgp g p))\<rparr>)"
    using psignal_posts [OF assms(1,4,5,2,6,8)] a by auto
  have po: "posted n l = l OR sigmask n" for l using assms(8,9) by (simp add: posted_def)
  have "psignal p n g = psig_runfast p g1" using g1(1,2) assms(8-10) tr by (auto simp: psig_act_def psig_stopped_def Let_def)
  moreover obtain g' where "psig_runfast p g1 = Some (Inr g')" "readied p g1 g'"
    using psig_runfast_ok [OF g1(4), of p] g1(2) assms(10) by auto
  ultimately show ?thesis using readied_inv [OF assms(1) _ assms(4,5,2)] g1(5) po by (auto simp: readied_def)
qed

end
