(* ===== verification/Sigcall.thy ===== *)
theory Sigcall
  imports Sigsys
begin

text \<open>
  Sequences of signal calls, and the properties of the signal code.
\<close>

section \<open>Sequences of calls\<close>

text \<open>
  The calls that change the signal state, made by the running process, by an interrupt or by another part of the kernel. A call of the
  running process does nothing when no process runs, or when the process has begun to exit.
\<close>

datatype sig_call =
    Sg_psignal nat nat
  | Sg_kill int int
  | Sg_sigaction int "(errno + sigaction_s) option" "errno option option"
  | Sg_sigprocmask sighow u32
  | Sg_sigaltstack int "(errno + sigaltstack_s) option" "errno option option"
  | Sg_sigreturn "(bool \<times> u32) option"
  | Sg_exec
  | Sg_exit
  | Sg_trap nat u32 bool
  | Sg_deliver bool bool
  | Sg_cont isres
  | Sg_tsleep u32 nat bool int
  | Sg_resume bool int nat
  | Sg_sigsuspend u32 u32
  | Sg_wakeup u32
  | Sg_timeout nat
  | Sg_user
  | Sg_idle

definition by_run :: "(nat \<Rightarrow> (sfault + sigsys) option) \<Rightarrow> sigsys \<Rightarrow> (sfault + sigsys) option" where
  "by_run f g = (case scur (sch g) of
     None \<Rightarrow> Some (Inr g)
   | Some p \<Rightarrow> if pprocs (tree g) p \<noteq> None \<and> P_WEXIT \<notin> p_flag (sproc g p) then f p else Some (Inr g))"

definition state_of :: "(sfault + 'a \<times> sigsys) option \<Rightarrow> (sfault + sigsys) option" where
  "state_of = map_option (map_sum id snd)"

fun sig_do :: "sig_call \<Rightarrow> sigsys \<Rightarrow> (sfault + sigsys) option" where
  "sig_do (Sg_psignal p n) g = (if pprocs (tree g) p \<noteq> None then psignal p n g else Some (Inr g))"
| "sig_do (Sg_kill pid n) g = by_run (\<lambda>p. state_of (kill p pid n g)) g"
| "sig_do (Sg_sigaction n nsa osa) g = by_run (\<lambda>p. Some (Inr (snd (sigaction p n nsa osa g)))) g"
| "sig_do (Sg_sigprocmask how m) g = by_run (\<lambda>p. Some (Inr (snd (snd (sigprocmask p how m g))))) g"
| "sig_do (Sg_sigaltstack sz nss oss) g = by_run (\<lambda>p. Some (Inr (snd (sigaltstack sz p nss oss g)))) g"
| "sig_do (Sg_sigreturn c) g = by_run (\<lambda>p. Some (Inr (snd (sigreturn p c g)))) g"
| "sig_do Sg_exec g = by_run (\<lambda>p. Some (Inr (execsigs p g))) g"
| "sig_do Sg_exit g = by_run (\<lambda>p. Some (Inr (exit_sig p g))) g"
| "sig_do (Sg_trap n c acc) g = by_run (\<lambda>p. trapsignal p n c acc g) g"
| "sig_do (Sg_deliver acc core) g = by_run (\<lambda>p. state_of (deliver p acc core g)) g"
| "sig_do (Sg_cont r) g = by_run (\<lambda>p. state_of (issignal_cont p r g)) g"
| "sig_do (Sg_tsleep c pri catch timo) g = by_run (\<lambda>p. if c = proc0 (sch g) \<or> pid_of g p = 0 then Some (Inr g) else state_of (tsleep_sig p c pri catch timo g)) g"
| "sig_do (Sg_resume catch timo sig) g = by_run (\<lambda>p. state_of (tsleep_sig_resume p catch timo sig g)) g"
| "sig_do (Sg_sigsuspend m c) g = by_run (\<lambda>p. if c = proc0 (sch g) \<or> pid_of g p = 0 then Some (Inr g) else state_of (sigsuspend p m c g)) g"
| "sig_do (Sg_wakeup c) g = on_sch (wakeup c) g"
| "sig_do (Sg_timeout p) g = on_sch (endtsleep p) g"
| "sig_do Sg_user g = by_run (\<lambda>p. resched_s p g) g"
| "sig_do Sg_idle g = (if scur (sch g) = None then on_sch (\<lambda>s. Some (cpu_switch s)) g else Some (Inr g))"

definition sig_step :: "sig_call \<Rightarrow> sigsys \<Rightarrow> sfault option + sigsys" where
  "sig_step c g = (case sig_do c g of None \<Rightarrow> Inl None | Some (Inl f) \<Rightarrow> Inl (Some f) | Some (Inr g') \<Rightarrow> Inr g')"

fun sig_allowed :: "sig_call \<Rightarrow> bool" where
  "sig_allowed (Sg_psignal p n) \<longleftrightarrow> 0 < n \<and> n < 32"
| "sig_allowed (Sg_trap n c acc) \<longleftrightarrow> 0 < n \<and> n < 32"
| "sig_allowed (Sg_cont r) \<longleftrightarrow> (\<forall>n. r \<noteq> Is_traced n)"
| "sig_allowed (Sg_tsleep c pri catch timo) \<longleftrightarrow> c \<noteq> 0 \<and> pri mod 256 < 128"
| "sig_allowed (Sg_sigsuspend m c) \<longleftrightarrow> c \<noteq> 0"
| "sig_allowed _ \<longleftrightarrow> True"

text \<open>The invariant with room for \<open>n\<close> more timeouts.\<close>

definition sig_room :: "nat \<Rightarrow> sigsys \<Rightarrow> bool" where
  "sig_room n g \<longleftrightarrow> sig_inv g \<and> n \<le> length (callfree (scallq (sch g)))"

lemma sig_room_frame: "sig_room n g \<Longrightarrow> sig_frame g g' \<Longrightarrow> sched_ok (sch g') \<Longrightarrow> sig_room n g'"
  using sig_inv_frame' [of g g'] by (auto simp: sig_room_def sig_frame_def)

lemma sig_room_upd: "sig_room n g \<Longrightarrow> (sigproc_ok (sgp g p) \<Longrightarrow> sigproc_ok (f (sgp g p))) \<Longrightarrow> sig_room n (upd_sig p f g)"
  using sig_inv_upd [of g p f] by (simp add: sig_room_def upd_sig_def)

text \<open>A change of flags that no queue depends on.\<close>

lemma sig_room_flags:
  assumes "sig_room n g" "\<And>r. f r = r\<lparr>p_flag := h (p_flag r)\<rparr>" "\<And>F. P_INMEM \<in> h F \<longleftrightarrow> P_INMEM \<in> F" "\<And>F. P_TRACED \<in> h F \<longrightarrow> P_TRACED \<in> F"
    "\<And>F. P_SINTR \<in> h F \<longrightarrow> P_SINTR \<in> F" "\<And>F. P_WEXIT \<notin> h F \<Longrightarrow> P_WEXIT \<notin> F"
  shows "sig_room n (upd_sch p f g)"
proof -
  have i: "sig_inv g" using assms(1) by (simp add: sig_room_def)
  have "sched_ok (supd p f (sch g))" by (rule sched_supd) (use sig_invD(1) [OF i] sched_usrpri [OF sig_invD(1) [OF i], of p] assms(2,3) in simp_all)
  moreover have "sig_wf (upd_sch p f g)" using sig_invD(6) [OF i] assms(2,4-6) unfolding sig_wf_def sintr_ok_def
    by (simp add: upd_sch_def) blast
  ultimately show ?thesis using assms(1) by (simp add: sig_room_def sig_inv_def upd_sch_def)
qed

lemma psignal_room:
  "sig_room n g \<Longrightarrow> 0 < m \<Longrightarrow> m < 32 \<Longrightarrow> pprocs (tree g) p \<noteq> None \<Longrightarrow> \<exists>g'. psignal p m g = Some (Inr g') \<and> sig_room n g'"
  using psignal_inv [of g m p] sig_room_frame [of n g] by (auto simp: sig_room_def psig_ok_def sig_inv_def)

lemma killpg_loop_room:
  assumes "m < 32" "\<And>g p. sel g p \<Longrightarrow> 1 < pid_of g p"
  shows "sig_room n g \<Longrightarrow> \<exists>k' g'. killpg_loop sel m ps k g = Some (Inr (k', g')) \<and> sig_room n g'"
proof (induction ps arbitrary: k g)
  case (Cons p ps)
  show ?case
  proof (cases "sel g p")
    case True
    then have "pprocs (tree g) p \<noteq> None" using assms(2) [OF True] by (auto simp: pid_of_def split: option.splits)
    then obtain g1 where g1: "(if m \<noteq> 0 then psignal p m g else Some (Inr g)) = Some (Inr g1)" "sig_room n g1"
      using psignal_room [OF Cons.prems, of m p] assms(1) Cons.prems by (cases "m = 0") auto
    then show ?thesis using True Cons.IH [OF g1(2)] unfolding killpg_loop.simps g1(1) by (simp add: sthen_def)
  qed (use Cons in simp)
qed simp

lemma killpg1_room:
  assumes "sig_room n g" "m < 32" "pprocs (tree g) cp \<noteq> None"
  shows "\<exists>e g'. killpg1 cp m pgid all g = Some (Inr (e, g')) \<and> sig_room n g'"
proof -
  define res :: "(sfault + nat \<times> sigsys) option \<Rightarrow> (sfault + errno option \<times> sigsys) option"
    where "res = (\<lambda>x. sthen x (\<lambda>(n, g'). Some (Inr (if n \<noteq> 0 then None else Some ESRCH, g'))))"
  have loop: "\<exists>e g'. res (killpg_loop (\<lambda>g p. \<not> (pid_of g p \<le> 1 \<or> P g p)) m ps 0 g) = Some (Inr (e, g')) \<and> sig_room n g'" for P ps
  proof -
    obtain k' g' where "killpg_loop (\<lambda>g p. \<not> (pid_of g p \<le> 1 \<or> P g p)) m ps 0 g = Some (Inr (k', g'))" "sig_room n g'"
      using killpg_loop_room [OF assms(2) _ assms(1), of "\<lambda>g p. \<not> (pid_of g p \<le> 1 \<or> P g p)" ps 0] by auto
    then show ?thesis by (simp add: res_def sthen_def)
  qed
  obtain r where r: "pprocs (tree g) cp = Some r" using assms(3) by blast
  have gr: "pgrps (tree g) (pp_pgrp r) \<noteq> None" using sig_invD(3) [of g] assms(1) r by (auto simp: sig_room_def slinks_ok_def)
  consider (all) "all" | (none) "\<not> all" "pgid \<noteq> 0" "pgfind (tree g) pgid = None"
    | (grp) pg G where "\<not> all" "(if pgid = 0 then map_option pp_pgrp (pprocs (tree g) cp) else pgfind (tree g) pgid) = Some pg" "pgrps (tree g) pg = Some G"
    using r gr by (cases "pgid = 0"; cases "pgfind (tree g) pgid") (auto simp: pgfind_def find_Some_iff)
  then show ?thesis
  proof cases
    case all
    then show ?thesis unfolding killpg1_def Let_def res_def [symmetric] if_P [OF all] by (intro loop)
  next
    case none
    then show ?thesis using assms(1) by (simp add: killpg1_def)
  next
    case grp
    show ?thesis unfolding killpg1_def Let_def res_def [symmetric] if_not_P [OF grp(1)] grp(2) option.case grp(3) by (intro loop)
  qed
qed

lemma kill_room:
  assumes "sig_room n g" "pprocs (tree g) cp \<noteq> None"
  shows "\<exists>e g'. kill cp pid m g = Some (Inr (e, g')) \<and> sig_room n g'"
proof (cases "m < 0 \<or> int NSIG \<le> m")
  case True
  then show ?thesis using assms(1) by (simp add: kill_def)
next
  case m: False
  show ?thesis
  proof (cases "0 < pid")
    case False
    have "nat m < 32" using m by auto
    then show ?thesis using False m killpg1_room [OF assms(1) _ assms(2), of "nat m"] by (simp add: kill_def del: split_paired_Ex)
  next
    case True
    show ?thesis
    proof (cases "pfind (tree g) pid")
      case None
      then show ?thesis using True m assms(1) by (simp add: kill_def)
    next
      case (Some p)
      then have "pprocs (tree g) p \<noteq> None" by (auto simp: pfind_def find_Some_iff)
      then have "\<exists>g'. (if m \<noteq> 0 then psignal p (nat m) g else Some (Inr g)) = Some (Inr g') \<and> sig_room n g'"
        using psignal_room [OF assms(1), of "nat m" p] m assms(1) by (cases "m = 0") auto
      then show ?thesis using True m Some assms(1) by (auto simp: kill_def sthen_def)
    qed
  qed
qed

lemma sig_room_mono: "sig_room n g \<Longrightarrow> m \<le> n \<Longrightarrow> sig_room m g"
  by (simp add: sig_room_def)

lemma by_run_ok:
  assumes "sig_room (Suc n) g" "\<And>p. runs g p \<Longrightarrow> \<exists>g'. f p = Some (Inr g') \<and> sig_room n g'"
  shows "\<exists>g'. by_run f g = Some (Inr g') \<and> sig_room n g'"
  using assms sig_room_mono [OF assms(1), of n] by (auto simp: by_run_def runs_def split: option.splits)

lemma state_of_ok: "\<exists>x g'. r = Some (Inr (x, g')) \<and> P g' \<Longrightarrow> \<exists>g'. state_of r = Some (Inr g') \<and> P g'"
  by (auto simp: state_of_def)

text \<open>The calls that change dispositions and masks.\<close>

lemma sigaction_room:
  assumes "sig_room n g"
  shows "sig_room n (snd (sigaction p m nsa osa g))"
proof (cases "\<exists>sa. snd (sigaction p m nsa osa g) = setsigvec p (nat m) sa g \<and> 0 < nat m \<and> nat m < NSIG \<and> nat m \<noteq> SIGKILL \<and> nat m \<noteq> SIGSTOP")
  case True
  then obtain sa where sa: "snd (sigaction p m nsa osa g) = setsigvec p (nat m) sa g" "0 < nat m" "nat m < NSIG" "nat m \<noteq> SIGKILL" "nat m \<noteq> SIGSTOP" by blast
  let ?f = "\<lambda>r. r\<lparr>p_flag := (if SA_NOCLDSTOP \<in> sa_flags sa then insert P_NOCLDSTOP (p_flag r) else p_flag r - {P_NOCLDSTOP})\<rparr>"
  have "sig_room n (upd_sch p ?f g)"
    by (rule sig_room_flags [OF assms, where h = "\<lambda>F. if SA_NOCLDSTOP \<in> sa_flags sa then insert P_NOCLDSTOP F else F - {P_NOCLDSTOP}"]) (auto split: if_splits)
  then have "sig_room n (if nat m = SIGCHLD then upd_sch p ?f g else g)" using assms by simp
  then show ?thesis unfolding sa(1) setsigvec_def by (rule sig_room_upd) (rule setsigvec_proc_ok, use sa in auto)
next
  case False
  then have "snd (sigaction p m nsa osa g) = g"
    by (auto simp: sigaction_def Let_def nat_eq_iff split: option.splits sum.splits if_splits)
  then show ?thesis using assms by simp
qed

lemma sigproc_ok_mask: "sigproc_ok q \<Longrightarrow> unblockable m \<Longrightarrow> sigproc_ok (q\<lparr>p_sigmask := m\<rparr>)"
  by (simp add: sigproc_ok_def)

lemma sigprocmask_room: "sig_room n g \<Longrightarrow> sig_room n (snd (snd (sigprocmask p how m g)))"
  using sigproc_okD(4) [of "sgp g p"] by (cases how) (auto simp: sigprocmask_def Let_def intro!: sig_room_upd sigproc_ok_mask)

lemma sigproc_ok_stk:
  assumes "sigproc_ok q"
  shows "sigproc_ok (q\<lparr>p_sigacts := (p_sigacts q)\<lparr>ps_sigstk := k, ps_flags := f\<rparr>\<rparr>)"
    "sigproc_ok (q\<lparr>p_sigacts := (p_sigacts q)\<lparr>ps_flags := f, ps_sigstk := k\<rparr>\<rparr>)"
    "sigproc_ok (q\<lparr>p_sigacts := (p_sigacts q)\<lparr>ps_sigstk := k\<rparr>\<rparr>)"
    "sigproc_ok (q\<lparr>p_sigacts := (p_sigacts q)\<lparr>ps_code := c, ps_sig := n\<rparr>\<rparr>)"
  using assms by (simp_all add: sigproc_ok_def caught_def ignorable_def)

lemma sigaltstack_room: "sig_room n g \<Longrightarrow> sig_room n (snd (sigaltstack sz p nss oss g))"
  by (auto simp: sigaltstack_def Let_def sigproc_ok_stk intro!: sig_room_upd split: option.splits sum.splits)

lemma sigreturn_room: "sig_room n g \<Longrightarrow> sig_room n (snd (sigreturn p c g))"
  by (auto simp: sigreturn_def Let_def sigproc_ok_def caught_def ignorable_def unblockable_def sig_bits intro!: sig_room_upd split: option.splits prod.splits)

lemma execsigs_room:
  assumes "sig_room n g"
  shows "sig_room n (execsigs p g)"
proof -
  have "sigproc_ok (q1\<lparr>p_sigacts := (p_sigacts q1)\<lparr>ps_sigstk := k, ps_flags := {}\<rparr>\<rparr>)" if "sigproc_ok q" "q1 = execsigs_loop q" for q q1 k
    using sigproc_ok_stk(1) [of q1] execsigs_loop_ok [OF that(1)] that(2) by blast
  then show ?thesis unfolding execsigs_def Let_def by (intro sig_room_upd [OF assms]) blast
qed

lemma exit_sig_room:
  assumes "sig_room n g"
  shows "sig_room n (exit_sig p g)"
proof -
  let ?f = "\<lambda>r. r\<lparr>p_flag := insert P_WEXIT (p_flag r - {P_TRACED, P_PPWAIT})\<rparr>"
  have i: "sig_room n (upd_sch p ?f g)"
    by (rule sig_room_flags [OF assms, where h = "\<lambda>F. insert P_WEXIT (F - {P_TRACED, P_PPWAIT})"]) auto
  have "exit_sig p g = upd_sig p (\<lambda>q. q\<lparr>p_sigignore := NOT 0, p_siglist := 0\<rparr>) (upd_sch p ?f g)" by (simp add: exit_sig_def upd_sig_def upd_sch_def)
  then show ?thesis using i by (auto simp: sig_room_def sig_inv_def sig_wf_def sintr_ok_def upd_sig_def upd_sch_def)
qed

text \<open>The calls that post, deliver and wait.\<close>

lemma cursig_room:
  assumes "sig_room n g" "runs g p"
  shows "\<exists>r g'. cursig p g = Some (Inr (r, g')) \<and> sig_room n g'"
proof -
  have i: "sig_inv g" "n \<le> length (callfree (scallq (sch g)))" using assms(1) by (simp_all add: sig_room_def)
  show ?thesis
  proof (rule cursig_ok [OF i(1) assms(2)])
    fix m took g'
    assume "cursig p g = Some (Inr (Is_stopped m, g'))" "sig_inv g'" "left_at p m took g g'"
    then show ?thesis using i(2) left_at_callq [of p m took g g'] by (simp add: sig_room_def)
  qed (use i(2) in \<open>simp_all add: sig_room_def\<close>)
qed

lemma trapsignal_room:
  assumes "sig_room n g" "runs g p" "0 < m" "m < 32"
  shows "\<exists>g'. trapsignal p m c acc g = Some (Inr g') \<and> sig_room n g'"
proof (cases "P_TRACED \<notin> p_flag (sproc g p) \<and> p_sigcatch (sgp g p) AND sigmask m \<noteq> 0 \<and> p_sigmask (sgp g p) AND sigmask m = 0")
  case True
  have i: "sig_inv g" using assms(1) by (simp add: sig_room_def)
  let ?h = "ps_sigact (p_sigacts (sgp g p)) m" and ?f = "\<lambda>q. q\<lparr>p_sigmask := p_sigmask q OR (ps_catchmask (p_sigacts q) m OR sigmask m)\<rparr>"
  have ok: "sigproc_ok (sgp g p)" using sig_invD(5) [OF i] assms(2) by (simp add: runs_def)
  have "caught (p_sigacts (sgp g p)) m" using True sigproc_okD(7) [OF ok assms(3,4)] assms(3,4) by simp
  then have k: "m \<noteq> SIGKILL" "m \<noteq> SIGSTOP" using sigproc_okD(2,3) [OF ok] by (auto simp: caught_def)
  obtain g' where g': "sendsig p ?h m (p_sigmask (sgp g p)) c acc g = Some (Inr g')" "sig_inv g'" "scallq (sch g') = scallq (sch g)"
    using sendsig_ok [OF i assms(2), of ?h m "p_sigmask (sgp g p)" c acc] by blast
  have "sig_room n (upd_sig p ?f g')"
    by (rule sig_room_upd) (use g'(2,3) assms(1) k sigproc_okD(4,6) [of "sgp g' p"] in \<open>auto simp: sig_room_def intro!: sigproc_ok_mask\<close>)
  moreover have "trapsignal p m c acc g = Some (Inr (upd_sig p ?f g'))"
    unfolding trapsignal_def Let_def if_P [OF True] g'(1) by (simp add: sthen_def)
  ultimately show ?thesis by blast
next
  case False
  let ?g = "upd_sig p (\<lambda>q. q\<lparr>p_sigacts := (p_sigacts q)\<lparr>ps_code := c, ps_sig := m\<rparr>\<rparr>) g"
  have "sig_room n ?g" using assms(1) by (rule sig_room_upd) (rule sigproc_ok_stk)
  moreover have "pprocs (tree ?g) p \<noteq> None" using assms(2) by (simp add: runs_def upd_sig_def)
  ultimately show ?thesis unfolding trapsignal_def Let_def if_not_P [OF False] using psignal_room [OF _ assms(3,4)] by blast
qed

lemma deliver_room: "sig_room n g \<Longrightarrow> runs g p \<Longrightarrow> \<exists>x g'. deliver p acc core g = Some (Inr (x, g')) \<and> sig_room n g'"
  using deliver_ok [of g p acc core] by (auto simp: sig_room_def)

lemma issignal_room:
  assumes "sig_room n g" "runs g p"
  shows "\<exists>r g'. issignal p g = Some (Inr (r, g')) \<and> sig_room n g'"
  using cursig_room [OF assms] cursig_issignal [of g p] sig_invD(4) [of g p] assms(1) by (simp add: sig_room_def)

lemma issignal_cont_room:
  assumes "sig_room n g" "runs g p" "\<And>m. r \<noteq> Is_traced m"
  shows "\<exists>r' g'. issignal_cont p r g = Some (Inr (r', g')) \<and> sig_room n g'"
proof (cases r)
  case (Is_stopped m)
  have "sig_room n (clear p (sigmask m) g)" "runs (clear p (sigmask m) g) p"
    using sig_room_frame [OF assms(1), of "clear p (sigmask m) g"] assms(1,2) by (simp_all add: sig_room_def sig_inv_def runs_def)
  then show ?thesis using issignal_room Is_stopped by (simp add: issignal_cont_def)
qed (use assms in \<open>auto simp: issignal_cont_def\<close>)

lemma tsleep_sig_room:
  assumes "sig_room (Suc n) g" "runs g p" "ident \<noteq> 0" "ident \<noteq> proc0 (sch g)" "pid_of g p \<noteq> 0" "priority mod 256 < 128"
  shows "\<exists>r g'. tsleep_sig p ident priority catch timo g = Some (Inr (r, g')) \<and> sig_room n g'"
proof -
  have i: "sig_inv g" "Suc n \<le> length (callfree (scallq (sch g)))" using assms(1) by (simp_all add: sig_room_def)
  then obtain q where q: "timeout endtsleep_fn p timo (scallq (sch g)) = Some q" "n \<le> length (callfree q)"
    using timeout_room [of "scallq (sch g)" endtsleep_fn p timo] by fastforce
  then obtain r g' where "tsleep_sig p ident priority catch timo g = Some (Inr (r, g'))" "sig_inv g'"
    "scallq (sch g') = (if timo = 0 then scallq (sch g) else q)" using tsleep_sig_ok [OF i(1) assms(2-6), of timo q catch] by blast
  then show ?thesis using i(2) q(2) by (auto simp: sig_room_def)
qed

lemma sigsuspend_room:
  assumes "sig_room (Suc n) g" "runs g p" "c \<noteq> 0" "c \<noteq> proc0 (sch g)" "pid_of g p \<noteq> 0"
  shows "\<exists>r g'. sigsuspend p m c g = Some (Inr (r, g')) \<and> sig_room n g'"
proof -
  let ?f = "\<lambda>q. q\<lparr>p_sigacts := (p_sigacts q)\<lparr>ps_oldmask := p_sigmask q, ps_flags := insert SAS_OLDMASK (ps_flags (p_sigacts q))\<rparr>,
    p_sigmask := m AND NOT sigcantmask\<rparr>"
  have "sig_room (Suc n) (upd_sig p ?f g)" using assms(1) by (rule sig_room_upd) (simp add: sigproc_ok_def caught_def ignorable_def)
  moreover have "runs (upd_sig p ?f g) p" using assms(2) by (simp add: runs_def upd_sig_def)
  ultimately show ?thesis unfolding sigsuspend_def
    by (rule tsleep_sig_room) (use assms(3-5) in \<open>simp_all add: upd_sig_def pid_of_def\<close>)
qed

text \<open>Steps of the scheduler.\<close>

lemma sig_room_sch:
  assumes "sig_room n g" "sched_ok s" "m \<le> length (callfree (scallq s))" "proc0 s = proc0 (sch g)"
    "\<And>x f. f \<in> {P_TRACED, P_WEXIT} \<Longrightarrow> f \<in> p_flag (sprocs s x) \<longleftrightarrow> f \<in> p_flag (sproc g x)"
    "\<And>x. P_SINTR \<in> p_flag (sprocs s x) \<Longrightarrow> P_SINTR \<in> p_flag (sproc g x)"
    "\<And>x. p_wchan (sprocs s x) = p_wchan (sproc g x) \<or> p_wchan (sprocs s x) = None"
  shows "sig_room m (g\<lparr>sch := s\<rparr>)"
proof -
  have "sig_wf (g\<lparr>sch := s\<rparr>)" by (rule sig_wf_sch) (use assms in \<open>auto simp: sig_room_def sig_inv_def\<close>)
  then show ?thesis using assms(2,3) by (simp add: sig_room_def sig_inv_def)
qed

lemma tsleep_resume_state:
  "sprocs (snd (tsleep_resume p catch timo sig sig2 intr s)) x = (if x = p then (sprocs s p)\<lparr>p_flag := p_flag (sprocs s p) - {P_SINTR, P_TIMEOUT}\<rparr> else sprocs s x)"
  "scur (snd (tsleep_resume p catch timo sig sig2 intr s)) = scur s" "proc0 (snd (tsleep_resume p catch timo sig sig2 intr s)) = proc0 s"
  by (auto simp: tsleep_resume_def Let_def supd_def intro!: proc.equality)

lemma sig_roomD: "sig_room n g \<Longrightarrow> sched_ok (sch g)" "sig_room n g \<Longrightarrow> n \<le> length (callfree (scallq (sch g)))"
  by (simp_all add: sig_room_def sig_inv_def)

lemma tsleep_sig_resume_room:
  assumes "sig_room n g" "runs g p"
  shows "\<exists>r g'. tsleep_sig_resume p catch timo sig g = Some (Inr (r, g')) \<and> sig_room n g'"
proof -
  let ?intr = "\<lambda>m. ps_sigintr (p_sigacts (sgp g p)) AND sigmask m \<noteq> 0"
  obtain res s1 where s1: "tsleep_resume p catch timo sig 0 ?intr (sch g) = (res, s1)" by fastforce
  note st = tsleep_resume_state [of p catch timo sig 0 ?intr "sch g", unfolded s1 snd_conv]
  note i = sig_roomD [OF assms(1)]
  have rm: "sig_room n (g\<lparr>sch := s1\<rparr>)"
    by (rule sig_room_sch [OF assms(1)]) (use resume_ok [OF i(1), of p catch timo sig 0 ?intr] s1 i(2) st in \<open>auto split: if_splits\<close>)
  have "runs (g\<lparr>sch := s1\<rparr>) p" using assms(2) st by (simp add: runs_def)
  then obtain r g2 where c: "cursig p (g\<lparr>sch := s1\<rparr>) = Some (Inr (r, g2))" "sig_room n g2" using cursig_room [OF rm] by blast
  show ?thesis
  proof (cases "res = Tfail EWOULDBLOCK \<or> \<not> catch \<or> sig \<noteq> 0")
    case True
    then show ?thesis unfolding tsleep_sig_resume_def Let_def s1 prod.case using rm by simp
  next
    case False
    show ?thesis unfolding tsleep_sig_resume_def Let_def s1 prod.case if_not_P [OF False] c(1) using c(2) by (simp add: sthen_def)
  qed
qed

lemma wakeup_room:
  assumes "sig_room n g"
  shows "\<exists>g'. on_sch (wakeup c) g = Some (Inr g') \<and> sig_room n g'"
proof -
  note i = sig_roomD [OF assms]
  obtain s' where s': "wakeup c (sch g) = Some (Inr s')" "sched_ok s'" "wk_rel {c, proc0 (sch g)} (sch g) s'" using wakeup_sched [OF i(1)] by blast
  have f: "proc_frame (sproc g x) (sprocs s' x)" for x by (rule wk_rel_frame [OF s'(3)])
  have "sig_room n (g\<lparr>sch := s'\<rparr>)"
  proof (rule sig_room_sch [OF assms s'(2)])
    show "n \<le> length (callfree (scallq s'))" "proc0 s' = proc0 (sch g)" using s'(3) i(2) wk_rel_cur(3) [OF s'(3)] by (auto simp: wk_rel_def same_rest_def)
  qed (use f in \<open>auto simp: proc_frame_def\<close>)
  then show ?thesis using s'(1) by (simp add: on_sch_def)
qed

lemma endtsleep_room:
  assumes "sig_room n g"
  shows "\<exists>g'. on_sch (endtsleep p) g = Some (Inr g') \<and> sig_room n g'"
proof -
  note i = sig_roomD [OF assms]
  obtain s' where s': "endtsleep p (sch g) = Some (Inr s')" "sched_ok s'" "spares p (sch g) s'"
    "if p_wchan (sproc g p) = None then s' = sch g else P_TIMEOUT \<in> p_flag (sprocs s' p) \<and> p_wchan (sprocs s' p) = None \<and>
       p_stat (sprocs s' p) = (if p_stat (sproc g p) = SSLEEP then SRUN else SSTOP)"
    "\<forall>f. f \<noteq> P_TIMEOUT \<longrightarrow> (f \<in> p_flag (sprocs s' p) \<longleftrightarrow> f \<in> p_flag (sproc g p))" using endtsleep_ok [OF i(1), of p] by blast
  have f: "x \<noteq> p \<Longrightarrow> proc_frame (sproc g x) (sprocs s' x)" for x using s'(3) woken_frame unfolding spares_def by (metis frames_refl(1))
  have "sig_room n (g\<lparr>sch := s'\<rparr>)"
  proof (rule sig_room_sch [OF assms s'(2)])
    show "n \<le> length (callfree (scallq s'))" "proc0 s' = proc0 (sch g)" using s'(3) i(2) by (simp_all add: spares_def)
    fix x
    show "fl \<in> p_flag (sprocs s' x) \<longleftrightarrow> fl \<in> p_flag (sproc g x)" if "fl \<in> {P_TRACED, P_WEXIT}" for fl
      using that s'(5) proc_frame_flag [OF f, of x fl] by (cases "x = p") auto
    show "P_SINTR \<in> p_flag (sproc g x)" if "P_SINTR \<in> p_flag (sprocs s' x)"
      using that s'(5) proc_frame_flag [OF f, of x P_SINTR] by (cases "x = p") auto
    show "p_wchan (sprocs s' x) = p_wchan (sproc g x) \<or> p_wchan (sprocs s' x) = None"
      using s'(4) f [of x] by (cases "x = p") (auto simp: proc_frame_def split: if_splits)
  qed
  then show ?thesis using s'(1) by (simp add: on_sch_def)
qed

lemma resched_room:
  assumes "sig_room n g" "runs g p"
  shows "\<exists>g'. resched_s p g = Some (Inr g') \<and> sig_room n g'"
proof -
  note i = sig_roomD [OF assms(1)]
  have cur: "scur (sch g) = Some p" "pprocs (tree g) p \<noteq> None" using assms(2) by (simp_all add: runs_def)
  obtain Q where q: "sleep_rep (sch g) Q" "\<forall>x. proc_ok (sch g) x"
    "\<And>p. scur (sch g) = Some p \<Longrightarrow> p_stat (sproc g p) = SRUN \<and> P_INMEM \<in> p_flag (sproc g p)" using i(1) by (rule sched_okE) blast
  let ?f = "\<lambda>r. r\<lparr>p_priority := p_usrpri r\<rparr>"
  define g1 where g1: "g1 = upd_sch p ?f g"
  have f1: "sig_frame g g1" unfolding g1 by (rule sig_frame_upd) (simp add: proc_frame_def)
  have r1: "sleep_rep (sch g1) Q" using q(1) sleep_rep_cong [of "sch g1" "sch g" Q] by (simp add: g1 upd_sch_def)
  have p1: "proc_ok (sch g1) p" using q(2) [rule_format, of p] cur(1) by (auto simp: g1 upd_sch_def proc_ok_def Let_def)
  have o1: "\<forall>x. proc_ok (sch g1) x" by (rule procs_change [OF q(2) _ _ _ p1]) (simp_all add: g1 upd_sch_def)
  have ok1: "sched_ok (sch g1)" by (rule sched_okI [OF r1 o1]) (use q(3) in \<open>auto simp: g1 upd_sch_def\<close>)
  show ?thesis
  proof (cases "sresched (sch g1)")
    case False
    then show ?thesis using sig_room_frame [OF assms(1) f1 ok1] by (simp add: resched_s_def g1 [symmetric])
  next
    case True
    let ?i = "p_priority (sproc g1 p) div 4"
    let ?s2 = "(sch g1)\<lparr>qs := (qs (sch g1))(?i := qs (sch g1) ?i @ [p])\<rparr>"
    let ?g2 = "g1\<lparr>sch := ?s2\<rparr>"
    have c1: "scur (sch g1) = Some p" using cur(1) by (simp add: g1 upd_sch_def)
    have "\<not> on_runq (sch g1) p" using proc_ok_off [OF p1] c1 by simp
    then have e: "resched_s p g = mi_switch_s p ?g2" using True by (simp add: resched_s_def g1 [symmetric] setrunqueue_def on_sch_def sthen_def Let_def)
    have "proc_ok (with_scur None ?s2) p" using p1 q(3) [OF cur(1)] c1 by (simp add: proc_ok_def Let_def g1 upd_sch_def)
    then have "\<forall>x. proc_ok (with_scur None ?s2) x" by (rule procs_change [OF o1, rotated 3]) (use c1 in auto)
    moreover have "sleep_rep (with_scur None ?s2) Q" using r1 sleep_rep_cong [of "with_scur None ?s2" "sch g1" Q] by simp
    ultimately have ok2: "sched_ok (with_scur None (sch ?g2))" by (intro sched_okI) auto
    have f2: "sig_frame g ?g2" using f1 by (simp add: sig_frame_def)
    have w: "sig_wf ?g2" using sig_wf_frame [of g "Some p" ?g2] assms(1) f2 c1 with_cur_id [of ?g2 "Some p"] by (simp add: sig_room_def sig_inv_def)
    obtain g' where g': "mi_switch_s p ?g2 = Some (Inr g')" "sched_ok (sch g')" "sig_frame ?g2 (with_cur (Some p) g')"
      using mi_switch_s_ok [OF ok2, of p] c1 w cur(2) f1 by (auto simp: sig_wf_def sig_frame_def)
    have "sig_wf g'" using sig_wf_frame [OF w g'(3)] .
    moreover have "scallq (sch g') = scallq (sch g)" using g'(3) f2 by (simp add: sig_frame_def with_cur_def)
    ultimately show ?thesis using e g'(1,2) i(2) by (simp add: sig_room_def sig_inv_def)
  qed
qed

lemma idle_room:
  assumes "sig_room n g" "scur (sch g) = None"
  shows "\<exists>g'. on_sch (\<lambda>s. Some (cpu_switch s)) g = Some (Inr g') \<and> sig_room n g'"
proof -
  note i = sig_roomD [OF assms(1)]
  have "(sch g)\<lparr>scur := None\<rparr> = sch g" using assms(2) by simp
  then obtain s' where "cpu_switch (sch g) = Inr s'" "sched_ok s'" "sprocs s' = sprocs (sch g)" "scallq s' = scallq (sch g)" "proc0 s' = proc0 (sch g)"
    using cpu_switch_ok [of "sch g"] i(1) unfolding sched_ok_def by metis
  then show ?thesis
    using sig_room_sch [OF assms(1), of s' n] i(2) by (simp add: on_sch_def)
qed

lemma sig_do_ok:
  assumes "sig_room (Suc n) g" "sig_allowed c"
  shows "\<exists>g'. sig_do c g = Some (Inr g') \<and> sig_room n g'"
proof -
  note r = sig_room_mono [OF assms(1), of n, simplified]
  note run = by_run_ok [OF assms(1)] and st = state_of_ok
  have tr: "runs g p \<Longrightarrow> pprocs (tree g) p \<noteq> None" for p by (simp add: runs_def)
  show ?thesis
  proof (cases c)
    case (Sg_psignal p m)
    then show ?thesis using psignal_room [OF r, of m p] assms r by auto
  next
    case Sg_kill
    then show ?thesis using r tr by (auto intro!: run st kill_room)
  next
    case (Sg_sigaction m nsa osa)
    then show ?thesis using sigaction_room [OF r] by (auto intro!: run)
  next
    case Sg_sigprocmask
    then show ?thesis using sigprocmask_room [OF r] by (auto intro!: run)
  next
    case Sg_sigaltstack
    then show ?thesis using sigaltstack_room [OF r] by (auto intro!: run)
  next
    case Sg_sigreturn
    then show ?thesis using sigreturn_room [OF r] by (auto intro!: run)
  next
    case Sg_exec
    then show ?thesis using execsigs_room [OF r] by (auto intro!: run)
  next
    case Sg_exit
    then show ?thesis using exit_sig_room [OF r] by (auto intro!: run)
  next
    case Sg_trap
    then show ?thesis using r assms(2) by (auto intro!: run trapsignal_room)
  next
    case Sg_deliver
    then show ?thesis using r by (auto intro!: run st deliver_room)
  next
    case Sg_cont
    then show ?thesis using r assms(2) by (auto intro!: run st issignal_cont_room)
  next
    case Sg_tsleep
    then show ?thesis using assms r by (auto intro!: run st tsleep_sig_room)
  next
    case Sg_resume
    then show ?thesis using r by (auto intro!: run st tsleep_sig_resume_room)
  next
    case Sg_sigsuspend
    then show ?thesis using assms r by (auto intro!: run st sigsuspend_room)
  next
    case Sg_wakeup
    then show ?thesis using wakeup_room [OF r] by simp
  next
    case Sg_timeout
    then show ?thesis using endtsleep_room [OF r] by simp
  next
    case Sg_user
    then show ?thesis using resched_room [OF r] by (auto intro!: run simp: runs_def)
  next
    case Sg_idle
    then show ?thesis using idle_room [OF r] r by simp
  qed
qed

interpretation sgc: safe_calls sig_step sig_room sig_allowed
proof (unfold_locales, goal_cases)
  case (1 n g c)
  then show ?case using sig_do_ok [of n g c] by (auto simp: sig_step_def)
qed

end
