(* ===== verification/Sigprop.thy ===== *)
theory Sigprop
  imports Sigcall
begin

text \<open>
  The properties of the signal code: well-formed dispositions, no missed signals, the certainty of \<^verbatim>\<open>SIGKILL\<close>, stop and continue, and round
  trips. The concrete states of the examples use the process tree \<open>run4\<close>, which the calls of the theory \<open>Pgrpsys\<close> build.
\<close>

section \<open>The interface to the process tree\<close>

text \<open>Every process tree that the calls of the theory \<open>Pgrpsys\<close> build has the links that the signal code follows.\<close>

lemma rooted_parent: "rooted s p \<Longrightarrow> pprocs s p = Some r \<Longrightarrow> pp_pptr r = Some q \<Longrightarrow> q \<noteq> p \<and> pprocs s q \<noteq> None"
proof (induction arbitrary: r q rule: rooted.induct)
  case (up p r' q')
  then show ?case by (metis option.distinct(1) option.inject rooted.cases)
qed auto

lemma reach_slinks:
  assumes "pg_reach maxproc t" "maxproc \<le> 14950"
  shows "slinks_ok t"
proof -
  have ok: "links_ok t" "tree_ok t" using reach_ok [OF assms] by (simp_all add: pg_ok_def)
  show ?thesis unfolding slinks_ok_def
  proof (intro allI impI)
    fix p r
    assume r: "pprocs t p = Some r"
    then have "rooted t p" "pp_pptr r = None \<longleftrightarrow> pp_pid r = 0" using ok(2) by (auto simp: tree_ok_def)
    then show "pgrps t (pp_pgrp r) \<noteq> None \<and> (pp_pid r \<noteq> 0 \<longrightarrow> (\<exists>q. pp_pptr r = Some q \<and> q \<noteq> p \<and> pprocs t q \<noteq> None))"
      using ok(1) r rooted_parent [OF _ r] by (fastforce simp: links_ok_def)
  qed
qed

section \<open>States for the examples\<close>

text \<open>
  The processes are those of \<open>run4\<close>: process 3 is a child of process 2. In \<open>sig_v\<close> all actions are the default ones, process 2 runs
  and process 3 is asleep and can be interrupted; in \<open>sig_v3\<close> process 3 runs (in \<open>sched_back3\<close> at the end of its sleep), and in \<open>sig_v4\<close> it is stopped. The signal state \<open>sigproc_c\<close>
  has a handler for \<^verbatim>\<open>SIGUSR1\<close>.
\<close>

definition acts_v :: sigacts where
  "acts_v = \<lparr>ps_sigact = (\<lambda>_. SIG_DFL), ps_catchmask = (\<lambda>_. 0), ps_sigonstack = 0, ps_sigintr = 0, ps_oldmask = 0, ps_flags = {},
     ps_sigstk = \<lparr>ss_base = 0, ss_size = 0, ss_flags = {}\<rparr>, ps_sig = 0, ps_code = 0\<rparr>"

definition sigproc_v :: sigproc where
  "sigproc_v = \<lparr>p_siglist = 0, p_sigmask = 0, p_sigignore = 0x18488000, p_sigcatch = 0, p_xstat = 0, p_sigacts = acts_v\<rparr>"

definition sigproc_c :: sigproc where
  "sigproc_c = setsigvec_proc SIGUSR1 \<lparr>sa_handler = 0x2000, sa_mask = sigmask SIGHUP, sa_flags = {SA_ONSTACK}\<rparr> sigproc_v"

definition sched_v :: "nat \<Rightarrow> (nat \<Rightarrow> proc) \<Rightarrow> nat list \<Rightarrow> nat list \<Rightarrow> ssys" where
  "sched_v cur procs asleep ready = \<lparr>sprocs = procs,
     sqhead = (\<lambda>i. if i = 16 \<and> asleep \<noteq> [] then Some (hd asleep) else None), sqtailp = (\<lambda>i. if i = 16 \<and> asleep \<noteq> [] then P_forw (last asleep) else Sq_head i),
     sfwd = (\<lambda>_. None), qs = (\<lambda>i. if i = 12 then ready else []), scur = Some cur, scurpri = 50, sresched = False, loadav = 2048, proc0 = 0x500,
     scallq = \<lparr>calltodo = [], callfree = [1, 2, 3, 4]\<rparr>,
     snow = \<lparr>tv_sec = 100, tv_usec = 0\<rparr>, sruntime = \<lparr>tv_sec = 99, tv_usec = 0\<rparr>\<rparr>"

definition sig_w :: "ssys \<Rightarrow> sigproc \<Rightarrow> sigsys" where
  "sig_w s q = \<lparr>sch = s, tree = run4, sgp = (\<lambda>_. q), sast = False, sframes = []\<rparr>"

definition sched_sleep :: ssys where
  "sched_sleep = sched_v 2 (\<lambda>p. if p = 1 \<or> p = 2 then wt SRUN True None
       else if p = 3 then (wt SSLEEP True (Some 0x1000))\<lparr>p_flag := {P_INMEM, P_SINTR}\<rparr> else wt SZOMB False None) [3] [1]"

definition sched_run3 :: ssys where
  "sched_run3 = sched_v 3 (\<lambda>p. if p = 1 \<or> p = 2 \<or> p = 3 then wt SRUN True None else wt SZOMB False None) [] [1, 2]"

definition sched_stop3 :: ssys where
  "sched_stop3 = sched_v 2 (\<lambda>p. if p = 1 \<or> p = 2 then wt SRUN True None else if p = 3 then wt SSTOP True None else wt SZOMB False None) [] [1]"

definition sched_back3 :: ssys where
  "sched_back3 = sched_v 3 (\<lambda>p. if p = 1 \<or> p = 2 then wt SRUN True None
       else if p = 3 then (wt SRUN True None)\<lparr>p_flag := {P_INMEM, P_SINTR}\<rparr> else wt SZOMB False None) [] [1, 2]"

abbreviation sig_v :: sigsys where "sig_v \<equiv> sig_w sched_sleep sigproc_v"
abbreviation sig_v3 :: sigsys where "sig_v3 \<equiv> sig_w sched_run3 sigproc_v"
abbreviation sig_v4 :: sigsys where "sig_v4 \<equiv> sig_w sched_stop3 sigproc_v"

lemma sigproc_v_init:
  "foldl (\<lambda>w i. if sigprop i SA_IGNORE \<and> i \<noteq> SIGCONT then w OR sigmask i else w) 0 [0..<NSIG] = p_sigignore sigproc_v"
  by (simp add: sigproc_v_def upt_conv_Cons sigprop_def sigprop_table_def sigmask_def)

lemma all_signals: "(\<forall>i<31. P i) \<longleftrightarrow> (\<forall>i\<in>set [0..<31]. P (i::nat))"
  by auto

lemma sigproc_v_ok: "sigproc_ok sigproc_v"
  unfolding sigproc_ok_def all_signals
  by (simp add: sigproc_v_def acts_v_def upt_conv_Cons caught_def ignorable_def unblockable_def sigprop_def sigprop_table_def)

lemma run4_vals: "map_option pp_pid (pprocs run4 2) = Some 2" "map_option pp_pid (pprocs run4 3) = Some 3" "Option.bind (pprocs run4 3) pp_pptr = Some 2"
  "Option.bind (pprocs run4 3) (\<lambda>r. map_option pg_jobc (pgrps run4 (pp_pgrp r))) = Some 1"
  unfolding run_defs by (simp_all add: run_simps)

lemma run4_procs:
  assumes "tree g = run4"
  shows "pprocs (tree g) 2 \<noteq> None" "pprocs (tree g) 3 \<noteq> None" "parent_of g 3 = Some 2" "pid_of g 2 = 2" "pid_of g 3 = 3" "jobc_of g 3 = Some 1"
  using run4_vals assms by (auto simp: parent_of_def pid_of_def jobc_of_def bind_eq_Some_conv)

lemma sched_v_ok:
  assumes "\<forall>p. proc_ok (sched_v c r a q) p" "p_stat (r c) = SRUN" "P_INMEM \<in> p_flag (r c)" "a = [] \<or> (\<exists>x. a = [x])"
    "\<And>p. p \<in> set a \<longleftrightarrow> p_wchan (r p) = Some 0x1000" "\<And>p. p_wchan (r p) = None \<or> p_wchan (r p) = Some 0x1000"
  shows "sched_ok (sched_v c r a q)"
proof (rule sched_okI)
  have w: "p_wchan (r p) = Some k \<longleftrightarrow> p \<in> set a \<and> k = 0x1000" for p k using assms(5,6) [of p] by auto
  show "sleep_rep (sched_v c r a q) (\<lambda>i. if i = 16 then a else [])"
    using assms(4) by (auto simp: sleep_rep_def sched_v_def w lookup_v(1))
qed (use assms in \<open>auto simp: sched_v_def\<close>)

lemma sigproc_c_ok: "sigproc_ok sigproc_c"
  unfolding sigproc_c_def by (rule setsigvec_proc_ok) (simp_all add: sigproc_v_ok)

lemma sigproc_c_vals: "p_siglist sigproc_c = 0" "p_sigmask sigproc_c = 0" "bit (p_sigcatch sigproc_c) (SIGUSR1 - 1)" "ps_sigact (p_sigacts sigproc_c) SIGCONT = SIG_DFL"
  "ps_sigintr (p_sigacts sigproc_c) = sigmask SIGUSR1" "ps_flags (p_sigacts sigproc_c) = {}"
  by (simp_all add: sigproc_c_def sigproc_v_def acts_v_def setsigvec_proc_def setsigvec_acts_def Let_def sigmask_bit bit_or_iff sigprop_def sigprop_table_def)

lemma sig_w_simps [simp]: "sch (sig_w s q) = s" "tree (sig_w s q) = run4" "sgp (sig_w s q) x = q" "sframes (sig_w s q) = []"
  by (simp_all add: sig_w_def)

lemma sig_w_inv:
  assumes "sched_ok s" "sigproc_ok q" "\<And>x. P_TRACED \<notin> p_flag (sprocs s x)" "\<And>x. P_SINTR \<in> p_flag (sprocs s x) \<Longrightarrow> x = 3 \<and> p_wchan (sprocs s x) \<noteq> Some (proc0 s)"
  shows "sig_inv (sig_w s q)"
proof -
  have "slinks_ok run4" using reach_slinks [OF run_reach(3)] by simp
  moreover obtain r where r: "pprocs run4 3 = Some r" "pp_pid r \<noteq> 0" using run4_vals(2) by auto
  have "\<forall>x. P_SINTR \<in> p_flag (sprocs s x) \<longrightarrow> p_wchan (sprocs s x) \<noteq> Some (proc0 s) \<and> (\<exists>r. pprocs run4 x = Some r \<and> pp_pid r \<noteq> 0)"
    using assms(4) r by blast
  ultimately show ?thesis using assms(1-3) by (simp add: sig_inv_def sig_wf_def sintr_ok_def)
qed

lemmas sched_w_defs = sched_sleep_def sched_run3_def sched_stop3_def sched_back3_def

lemma sched_w_ok: "sched_ok sched_sleep" "sched_ok sched_run3" "sched_ok sched_stop3" "sched_ok sched_back3"
  unfolding sched_w_defs by (rule sched_v_ok; auto simp: proc_ok_def sched_v_def wt_def proc_v_def Let_def split: if_splits)+

lemma sched_w_vals:
  "scur sched_sleep = Some 2" "proc0 sched_sleep = 0x500" "scallq sched_sleep = \<lparr>calltodo = [], callfree = [1, 2, 3, 4]\<rparr>"
  "p_flag (sprocs sched_sleep 2) = {P_INMEM}" "p_flag (sprocs sched_sleep 3) = {P_INMEM, P_SINTR}" "p_stat (sprocs sched_sleep 3) = SSLEEP"
  "p_wchan (sprocs sched_sleep 3) = Some 0x1000"
  "scur sched_run3 = Some 3" "proc0 sched_run3 = 0x500" "scallq sched_run3 = \<lparr>calltodo = [], callfree = [1, 2, 3, 4]\<rparr>" "p_flag (sprocs sched_run3 3) = {P_INMEM}"
  "p_stat (sprocs sched_stop3 3) = SSTOP" "p_wchan (sprocs sched_stop3 3) = None" "p_flag (sprocs sched_stop3 3) = {P_INMEM}" "scur sched_stop3 = Some 2"
  "scur sched_back3 = Some 3" "p_flag (sprocs sched_back3 3) = {P_INMEM, P_SINTR}"
  by (simp_all add: sched_w_defs sched_v_def wt_def)

lemma sig_w_ok:
  assumes "sigproc_ok q"
  shows "sig_inv (sig_w sched_sleep q)" "sig_inv (sig_w sched_run3 q)" "sig_inv (sig_w sched_stop3 q)" "runs (sig_w sched_sleep q) 2" "runs (sig_w sched_run3 q) 3"
    "sig_inv (sig_w sched_back3 q)" "runs (sig_w sched_back3 q) 3"
proof -
  show "sig_inv (sig_w sched_sleep q)" by (rule sig_w_inv [OF sched_w_ok(1) assms]) (auto simp: sched_w_defs sched_v_def wt_def split: if_splits)
  show "sig_inv (sig_w sched_run3 q)" by (rule sig_w_inv [OF sched_w_ok(2) assms]) (auto simp: sched_w_defs sched_v_def wt_def split: if_splits)
  show "sig_inv (sig_w sched_stop3 q)" by (rule sig_w_inv [OF sched_w_ok(3) assms]) (auto simp: sched_w_defs sched_v_def wt_def split: if_splits)
  show "sig_inv (sig_w sched_back3 q)" by (rule sig_w_inv [OF sched_w_ok(4) assms]) (auto simp: sched_w_defs sched_v_def wt_def split: if_splits)
  show "runs (sig_w sched_sleep q) 2" "runs (sig_w sched_run3 q) 3" "runs (sig_w sched_back3 q) 3" using run4_vals(1,2) sched_w_vals by (auto simp: runs_def)
qed

lemma sig_v_ok: "sig_room 4 sig_v"
  using sig_w_ok(1) [OF sigproc_v_ok] sched_w_vals by (simp add: sig_room_def)

lemmas run4_w = run4_procs [OF sig_w_simps(2)]
lemmas sig_w_vals = sched_w_vals run4_w

section \<open>Sequences of calls\<close>

text \<open>C7. No sequence of signal calls, sleeps, wakeups and switches that is not longer than the list of free callouts panics or follows a bad
  link. After it, the two words of caught and of ignored signals of every process that has not begun to exit agree with its table of
  actions, and \<^verbatim>\<open>SIGKILL\<close> and \<^verbatim>\<open>SIGSTOP\<close> have their default actions and are not blocked.\<close>

theorem sig_calls_safe:
  assumes "sig_room (length cs) g" "\<forall>c\<in>set cs. sig_allowed c"
  shows "\<exists>g'. run_calls sig_step cs g = Inr g' \<and> sched_ok (sch g') \<and>
    (\<forall>p n. P_WEXIT \<notin> p_flag (sproc g' p) \<longrightarrow> 0 < n \<longrightarrow> n < NSIG \<longrightarrow>
       (let q = sgp g' p; act = ps_sigact (p_sigacts q) n in
        (bit (p_sigcatch q) (n - 1) \<longleftrightarrow> act \<noteq> SIG_DFL \<and> act \<noteq> SIG_IGN) \<and>
        (bit (p_sigignore q) (n - 1) \<longleftrightarrow> n \<noteq> SIGCONT \<and> (act = SIG_IGN \<or> act = SIG_DFL \<and> sigprop n SA_IGNORE)) \<and>
        (n = SIGKILL \<or> n = SIGSTOP \<longrightarrow> act = SIG_DFL \<and> \<not> bit (p_sigmask q) (n - 1))))"
proof -
  obtain g' where g': "run_calls sig_step cs g = Inr g'" "sig_inv g'" using sgc.run_safe [of cs 0 g] assms by (auto simp: sig_room_def)
  moreover note ok = sigproc_okD [OF sig_invD(5) [OF g'(2)]]
  ultimately show ?thesis using sig_invD(1) [OF g'(2)] ok(2-4,7,8)
    by (intro exI [of _ g']) (auto simp: Let_def caught_def ignorable_def unblockable_def)
qed

theorem sig_calls_safe_witness:
  "\<exists>g'. run_calls sig_step [Sg_kill 3 30, Sg_sigaction 9 (Some (Inr \<lparr>sa_handler = 0x2000, sa_mask = NOT 0, sa_flags = {}\<rparr>)) None,
     Sg_sigprocmask SIG_SETMASK (NOT 0), Sg_deliver True False] sig_v = Inr g' \<and> sched_ok (sch g')"
proof -
  let ?cs = "[Sg_kill 3 30, Sg_sigaction 9 (Some (Inr \<lparr>sa_handler = 0x2000, sa_mask = NOT 0, sa_flags = {}\<rparr>)) None,
     Sg_sigprocmask SIG_SETMASK (NOT 0), Sg_deliver True False]"
  have "sig_room (length ?cs) sig_v" "\<forall>c\<in>set ?cs. sig_allowed c" using sig_v_ok by (simp_all add: eval_nat_numeral)
  from sig_calls_safe [OF this] show ?thesis by blast
qed

section \<open>Signals and sleep\<close>

lemma posting_keeps_alert:
  "sig_inv g \<Longrightarrow> alert g p \<Longrightarrow> \<forall>(q, n)\<in>set ns. 0 < n \<and> n < 32 \<Longrightarrow>
    \<exists>g'. run_calls sig_step (map (\<lambda>(q, n). Sg_psignal q n) ns) g = Inr g' \<and> alert g' p \<and> sig_frame g g'"
proof (induction ns arbitrary: g)
  case (Cons x ns)
  obtain q n where x: "x = (q, n)" by fastforce
  obtain g1 where g1: "sig_step (Sg_psignal q n) g = Inr g1" "sig_inv g1" "alert g1 p" "sig_frame g g1"
    using Cons.prems psignal_inv [OF Cons.prems(1), of n q] x by (cases "pprocs (tree g) q = None") (auto simp: sig_step_def psig_ok_def)
  show ?case using Cons.IH [OF g1(2,3)] Cons.prems(3) g1(1,4) x by (auto intro: sig_frame_trans)
qed simp

lemma tsleep_no_signal:
  assumes "tsleep_sig p ident priority True timo g = Some (Inr (r, g1))" "p_siglist (sgp g p) = 0"
  shows "r = Is_none"
proof -
  have c: "cursig p h = Some (Inr (Is_none, h))" if "sgp h = sgp g" for h using that assms(2) by (simp add: cursig_def)
  show ?thesis
  proof (cases "tsleep_enter p ident priority timo (sch g)")
    case (Inr s1)
    then show ?thesis using assms(1) c [of "g\<lparr>sch := supd p (\<lambda>r. r\<lparr>p_flag := insert P_SINTR (p_flag r)\<rparr>) s1\<rparr>"]
      by (auto simp: tsleep_sig_def sthen_def on_sch_def upd_sch_def split: option.splits sum.splits)
  qed (use assms(1) in \<open>simp add: tsleep_sig_def sthen_def on_sch_def\<close>)
qed

text \<open>C3. A process that a call of \<open>tsleep\<close> with \<^verbatim>\<open>PCATCH\<close> has just put to sleep without stopping in it misses no signal: after any calls of
  \<open>psignal\<close> for it or for others, and nothing else, it either no longer waits, or no signal that is not blocked is pending for it.\<close>

theorem sleep_misses_no_signal:
  assumes "sig_inv g" "runs g p" "ident \<noteq> 0" "ident \<noteq> proc0 (sch g)" "pid_of g p \<noteq> 0" "priority mod 256 < 128" "callfree (scallq (sch g)) \<noteq> []"
    and sleeps: "tsleep_sig p ident priority True timo g = Some (Inr (Is_none, g1))" and "\<forall>(q, n)\<in>set ns. 0 < n \<and> n < 32"
  shows "\<exists>g2. run_calls sig_step (map (\<lambda>(q, n). Sg_psignal q n) ns) g1 = Inr g2 \<and> (p_wchan (sproc g2 p) \<noteq> None \<longrightarrow> pendmask p g2 = 0)"
proof -
  obtain q where "timeout endtsleep_fn p timo (scallq (sch g)) = Some q" using timeout_room [OF assms(7)] by blast
  then have g1: "sig_inv g1" "P_SINTR \<in> p_flag (sproc g1 p)" "alert g1 p" using tsleep_sig_ok [OF assms(1-6), of timo q True] sleeps by auto
  obtain g2 where g2: "run_calls sig_step (map (\<lambda>(q, n). Sg_psignal q n) ns) g1 = Inr g2" "alert g2 p" "sig_frame g1 g2"
    using posting_keeps_alert [OF g1(1,3) assms(9)] by blast
  then have "proc_frame (sproc g1 p) (sproc g2 p)" by (simp add: sig_frame_def)
  then show ?thesis using g2(1,2) g1(2) sig_invD(4) [OF g1(1), of p] proc_frame_flag by (auto simp: alert_def)
qed

theorem sleep_misses_no_signal_witness:
  "\<exists>g1 g2. tsleep_sig 2 0x1000 0x119 True 5 sig_v = Some (Inr (Is_none, g1)) \<and>
     run_calls sig_step [Sg_psignal 2 30, Sg_psignal 3 17] g1 = Inr g2 \<and> (p_wchan (sproc g2 2) \<noteq> None \<longrightarrow> pendmask 2 g2 = 0)"
proof -
  note v = sig_w_vals and i = sig_w_ok [OF sigproc_v_ok]
  obtain r g1 where g1: "tsleep_sig 2 0x1000 0x119 True 5 sig_v = Some (Inr (r, g1))"
    using tsleep_sig_room [OF _ i(4), of 0 "0x1000" "0x119" True 5] sig_room_mono [OF sig_v_ok, of 1] v by auto
  have r: "r = Is_none" using tsleep_no_signal [OF g1] by (simp add: sigproc_v_def)
  have "\<exists>g2. run_calls sig_step (map (\<lambda>(q, n). Sg_psignal q n) [(2, 30), (3, 17)]) g1 = Inr g2 \<and> (p_wchan (sproc g2 2) \<noteq> None \<longrightarrow> pendmask 2 g2 = 0)"
    by (rule sleep_misses_no_signal [OF i(1,4) _ _ _ _ _ g1 [unfolded r]]) (use v in simp_all)
  then show ?thesis using g1 r by auto
qed

lemma find_lowest:
  assumes "0 < n" "n < 32" "bit (pendmask p g) (n - 1)" "\<not> droppable p g n" "lowest p g n"
  shows "find (\<lambda>n. bit (pendmask p g) (n - 1) \<and> \<not> droppable p g n) [1..<32] = Some n"
  unfolding find_Some_iff
proof (intro exI [of _ "n - 1"] conjI allI impI)
  fix j
  assume "j < n - 1"
  then have "[1..<32] ! j = Suc j" "Suc j < n" using assms(2) by (simp_all add: nth_upt)
  then show "\<not> (bit (pendmask p g) ([1..<32] ! j - 1) \<and> \<not> droppable p g ([1..<32] ! j))" using assms(5) unfolding lowest_def by (metis zero_less_Suc)
qed (use assms in \<open>simp_all add: nth_upt\<close>)

lemma cursig_ref:
  assumes "sig_wf g" "pprocs (tree g) p \<noteq> None" "P_WEXIT \<notin> p_flag (sproc g p)"
  shows "cursig p g = issignal_ref p g"
proof -
  have "slinks_ok (tree g)" "P_TRACED \<notin> p_flag (sproc g p)" "sigproc_ok (sgp g p)" using assms by (auto simp: sig_wf_def)
  then show ?thesis using cursig_issignal issignal_ref_ok jobc_ex assms(2) by metis
qed

lemma droppable_sch: "droppable p (g\<lparr>sch := s\<rparr>) n = droppable p g n"
  by (simp add: droppable_def Let_def pid_of_def jobc_of_def)

text \<open>The end of \<open>tsleep\<close> when a signal waits that is to be delivered.\<close>

lemma tsleep_resume_signal:
  assumes "sig_inv g" "runs g p" "P_TIMEOUT \<notin> p_flag (sproc g p)" "to_post p n g" "lowest p g n"
  shows "\<exists>g'. tsleep_sig_resume p True timo 0 g =
    Some (Inr (Some (Tfail (if bit (ps_sigintr (p_sigacts (sgp g p))) (n - 1) then EINTR else ERESTART)), g'))"
proof -
  let ?intr = "\<lambda>m. ps_sigintr (p_sigacts (sgp g p)) AND sigmask m \<noteq> 0"
  obtain res s1 where s1: "tsleep_resume p True timo 0 0 ?intr (sch g) = (res, s1)" by fastforce
  note st = tsleep_resume_state [of p True timo 0 0 ?intr "sch g", unfolded s1 snd_conv]
  have res: "res = Awake" using s1 assms(3) by (simp add: tsleep_resume_def Let_def split: if_splits)
  let ?g = "g\<lparr>sch := s1\<rparr>"
  have "sig_room 0 ?g" by (rule sig_room_sch) (use assms(1) sig_invD(1) [OF assms(1)] resume_ok(1) [OF sig_invD(1) [OF assms(1)], of p True timo 0 0 ?intr] s1 st
      in \<open>auto simp: sig_room_def split: if_splits\<close>)
  then have i: "sig_wf ?g" "runs ?g p" using assms(2) st by (simp_all add: sig_room_def sig_inv_def runs_def)
  have pm: "pendmask p ?g = pendmask p g" using st by (simp add: pendmask_def)
  have n: "0 < n" "n < 32" "bit (pendmask p g) (n - 1)" "\<not> droppable p g n" "\<not> (sigprop n SA_STOP \<and> ps_sigact (p_sigacts (sgp g p)) n = SIG_DFL)"
    using assms(4) by (auto simp: to_post_def)
  have "find (\<lambda>n. bit (pendmask p ?g) (n - 1) \<and> \<not> droppable p ?g n) [1..<32] = Some n"
    using find_lowest [OF n(1-4) assms(5)] unfolding pm droppable_sch .
  then have "\<exists>g'. cursig p ?g = Some (Inr (Is_sig n, g'))" using cursig_ref [OF i(1), of p] i(2) n(5) by (auto simp: runs_def issignal_ref_def Let_def)
  then show ?thesis using s1 res n(1,2) by (auto simp: tsleep_sig_resume_def Let_def sthen_def)
qed

text \<open>C32. A caught signal that is not blocked, for a process asleep interruptibly makes it runnable, and its \<open>tsleep\<close> then returns \<^verbatim>\<open>EINTR\<close>, or \<^verbatim>\<open>ERESTART\<close> when
  system calls are to be restarted after the signal.\<close>

theorem caught_signal_interrupts_sleep:
  assumes "sig_inv g" "pprocs (tree g) p \<noteq> None" "P_WEXIT \<notin> p_flag (sproc g p)" "p_stat (sproc g p) = SSLEEP" "P_SINTR \<in> p_flag (sproc g p)"
    "P_TIMEOUT \<notin> p_flag (sproc g p)" "pendmask p g = 0" "0 < n" "n < NSIG" "\<not> sigprop n SA_STOP" "n \<noteq> SIGCONT"
    "bit (p_sigcatch (sgp g p)) (n - 1)" "\<not> bit (p_sigmask (sgp g p)) (n - 1)"
  shows "\<exists>g1. psignal p n g = Some (Inr g1) \<and> p_stat (sproc g1 p) = SRUN \<and>
    (\<forall>g2 timo. sig_inv g2 \<longrightarrow> runs g2 p \<longrightarrow> tree g2 = tree g1 \<longrightarrow> sgp g2 p = sgp g1 p \<longrightarrow> p_flag (sproc g2 p) = p_flag (sproc g1 p) \<longrightarrow>
       (\<exists>g3. tsleep_sig_resume p True timo 0 g2 =
          Some (Inr (Some (Tfail (if bit (ps_sigintr (p_sigacts (sgp g p))) (n - 1) then EINTR else ERESTART)), g3))))"
proof -
  have ok: "sigproc_ok (sgp g p)" using sig_invD(5) [OF assms(1,3)] .
  have ct: "caught (p_sigacts (sgp g p)) n" using sigproc_okD(7) [OF ok assms(8,9)] assms(12) by simp
  then have "\<not> bit (p_sigignore (sgp g p)) (n - 1)" using sigproc_okD(8) [OF ok assms(8,9)] by (auto simp: ignorable_def caught_def)
  then obtain g1 where g1: "psignal p n g = Some (Inr g1)" "sig_frame g g1" "p_stat (sproc g1 p) = SRUN"
    "sgp g1 = (sgp g)(p := (sgp g p)\<lparr>p_siglist := p_siglist (sgp g p) OR sigmask n\<rparr>)"
    using psignal_wakes [OF assms(1-3,8,9) _ assms(13,10)] sigprop_cont [OF assms(8,9)] assms(4,5,11) by auto
  have f: "proc_frame (sproc g p) (sproc g1 p)" using g1(2) by (simp add: sig_frame_def)
  have "\<exists>g3. tsleep_sig_resume p True timo 0 g2 = Some (Inr (Some (Tfail (if bit (ps_sigintr (p_sigacts (sgp g p))) (n - 1) then EINTR else ERESTART)), g3))"
    if h: "sig_inv g2" "runs g2 p" "tree g2 = tree g1" "sgp g2 p = sgp g1 p" "p_flag (sproc g2 p) = p_flag (sproc g1 p)" for g2 timo
  proof -
    have "P_PPWAIT \<in> p_flag (sproc g2 p) \<longleftrightarrow> P_PPWAIT \<in> p_flag (sproc g p)" using h(5) proc_frame_flag [OF f] by simp
    then have pm: "bit (pendmask p g2) i \<longleftrightarrow> i = n - 1" for i
      using h(4) g1(4) assms(7,8-10,13) sigprop_stop [OF assms(8,9)] by (auto simp: pendmask0 pendmask_bit sig_bits)
    have s: "p_sigacts (sgp g2 p) = p_sigacts (sgp g p)" using h(4) g1(4) by simp
    have "to_post p n g2" using ct assms(8-10) pm by (auto simp: to_post_def droppable_def Let_def caught_def s)
    moreover have "lowest p g2 n" using pm by (auto simp: lowest_def)
    moreover have "P_TIMEOUT \<notin> p_flag (sproc g2 p)" using f h(5) assms(6) by (auto simp: proc_frame_def)
    ultimately show ?thesis using tsleep_resume_signal [OF h(1,2)] s by metis
  qed
  then show ?thesis using g1(1,3) by blast
qed

theorem caught_signal_interrupts_sleep_witness:
  "\<exists>g1 g3. psignal 3 SIGUSR1 (sig_w sched_sleep sigproc_c) = Some (Inr g1) \<and> p_stat (sproc g1 3) = SRUN \<and>
     tsleep_sig_resume 3 True 0 0 (sig_w sched_back3 (sgp g1 3)) = Some (Inr (Some (Tfail EINTR), g3))"
proof -
  note i = sig_w_ok [OF sigproc_c_ok]
  have pr: "\<not> sigprop SIGUSR1 SA_STOP" by (simp add: sigprop_def sigprop_table_def)
  obtain g1 where g1: "psignal 3 SIGUSR1 (sig_w sched_sleep sigproc_c) = Some (Inr g1)" "p_stat (sproc g1 3) = SRUN"
    "\<And>g2 timo. sig_inv g2 \<Longrightarrow> runs g2 3 \<Longrightarrow> tree g2 = tree g1 \<Longrightarrow> sgp g2 3 = sgp g1 3 \<Longrightarrow> p_flag (sproc g2 3) = p_flag (sproc g1 3) \<Longrightarrow>
       \<exists>g3. tsleep_sig_resume 3 True timo 0 g2 = Some (Inr (Some (Tfail EINTR), g3))"
    using caught_signal_interrupts_sleep [OF i(1), of 3 SIGUSR1] sig_w_vals sigproc_c_vals pr by (auto simp: pendmask_def sigmask_bit)
  have "sig_inv g1 \<and> sig_frame (sig_w sched_sleep sigproc_c) g1" using readied_inv [OF i(1) g1(1)] run4_w by simp
  then have f: "tree g1 = run4" "p_flag (sproc g1 3) = {P_INMEM, P_SINTR}" "sigproc_ok (sgp g1 3)"
    using sig_w_vals(5) sig_invD(5) [of g1 3] by (auto simp: sig_frame_def proc_frame_def dest!: spec [of _ 3])
  have "\<exists>g3. tsleep_sig_resume 3 True 0 0 (sig_w sched_back3 (sgp g1 3)) = Some (Inr (Some (Tfail EINTR), g3))"
    by (rule g1(3)) (use f sig_w_vals sig_w_ok(6,7) [OF f(3)] in simp_all)
  then show ?thesis using g1(1,2) by blast
qed



section \<open>Posting\<close>

text \<open>C10. \<^verbatim>\<open>SIGKILL\<close> makes a process (other than \<^verbatim>\<open>init\<close> and those already exiting) runnable that is stopped or asleep interruptibly, and when the process then comes to the return to user mode
  with the signal pending, whatever else is pending, caught or blocked, the delivery loop ends and the process exits.\<close>

theorem sigkill_ends_process:
  assumes "sig_inv g" "pprocs (tree g) p \<noteq> None" "P_WEXIT \<notin> p_flag (sproc g p)" "1 < pid_of g p"
    "p_stat (sproc g p) = SSTOP \<or> p_stat (sproc g p) = SSLEEP \<and> P_SINTR \<in> p_flag (sproc g p)"
  shows "\<exists>g1. psignal p SIGKILL g = Some (Inr g1) \<and> p_stat (sproc g1 p) = SRUN \<and> bit (p_siglist (sgp g1 p)) (SIGKILL - 1) \<and>
    (\<forall>g2 acc core. sig_inv g2 \<longrightarrow> runs g2 p \<longrightarrow> tree g2 = tree g1 \<longrightarrow> bit (p_siglist (sgp g2 p)) (SIGKILL - 1) \<longrightarrow>
       (\<exists>k g3. deliver p acc core g2 = Some (Inr (Exits k, g3))))"
proof -
  have ok: "sigproc_ok (sgp g p)" using sig_invD(5) [OF assms(1,3)] .
  have pr: "\<not> sigprop SIGKILL SA_STOP" "\<not> sigprop SIGKILL SA_CONT" "\<not> sigprop SIGKILL SA_IGNORE" by (simp_all add: sigprop_def sigprop_table_def)
  have "\<not> bit (p_sigignore (sgp g p)) (SIGKILL - 1)" "\<not> bit (p_sigmask (sgp g p)) (SIGKILL - 1)"
    using sigproc_okD(8) [OF ok, of SIGKILL] sigproc_okD(2,4) [OF ok] pr(3) by (auto simp: ignorable_def unblockable_def)
  then obtain g1 where g1: "psignal p SIGKILL g = Some (Inr g1)" "sig_frame g g1" "p_stat (sproc g1 p) = SRUN"
    "sgp g1 = (sgp g)(p := (sgp g p)\<lparr>p_siglist := p_siglist (sgp g p) OR sigmask SIGKILL\<rparr>)"
    using psignal_wakes [OF assms(1-3) _ _ _ _ pr(1,2)] assms(5) by auto
  have "\<exists>k g3. deliver p acc core g2 = Some (Inr (Exits k, g3))"
    if "sig_inv g2" "runs g2 p" "tree g2 = tree g1" "bit (p_siglist (sgp g2 p)) (SIGKILL - 1)" for g2 acc core
  proof -
    have "1 < pid_of g2 p" using that(3) g1(2) assms(4) by (simp add: pid_of_def sig_frame_def)
    then show ?thesis using deliver_ok [OF that(1,2), of acc core] that(4) by auto
  qed
  then show ?thesis using g1 by (auto simp: sig_bits)
qed

theorem sigkill_ends_process_witness:
  "\<exists>g1 k g3. psignal 3 SIGKILL sig_v = Some (Inr g1) \<and> p_stat (sproc g1 3) = SRUN \<and>
     deliver 3 True False (sig_w sched_run3 (sigproc_v\<lparr>p_siglist := sigmask SIGKILL\<rparr>)) = Some (Inr (Exits k, g3))"
proof -
  let ?g = "sig_w sched_run3 (sigproc_v\<lparr>p_siglist := sigmask SIGKILL\<rparr>)"
  have ok: "sigproc_ok (sigproc_v\<lparr>p_siglist := sigmask SIGKILL\<rparr>)" using sigproc_v_ok by (simp add: sigproc_ok_def sigmask_bit)
  obtain g1 where g1: "psignal 3 SIGKILL sig_v = Some (Inr g1)" "p_stat (sproc g1 3) = SRUN"
    "\<forall>g2 acc core. sig_inv g2 \<longrightarrow> runs g2 3 \<longrightarrow> tree g2 = tree g1 \<longrightarrow> bit (p_siglist (sgp g2 3)) (SIGKILL - 1) \<longrightarrow>
       (\<exists>k g3. deliver 3 acc core g2 = Some (Inr (Exits k, g3)))"
    using sigkill_ends_process [OF sig_w_ok(1) [OF sigproc_v_ok], of 3] sig_w_vals by auto
  moreover have "tree ?g = tree g1" using readied_inv [OF sig_w_ok(1) [OF sigproc_v_ok] g1(1)] run4_w by (simp add: sig_frame_def)
  moreover have "bit (p_siglist (sgp ?g 3)) (SIGKILL - 1)" by (simp add: sigmask_bit)
  ultimately show ?thesis using sig_w_ok(2,5) [OF ok] by blast
qed

text \<open>C33. \<^verbatim>\<open>SIGCONT\<close> for a stopped process removes all pending stop signals, stays pending itself only when it is caught or blocked, and makes
  the process run, or sleep again on the channel it waited for.\<close>

theorem sigcont_resumes:
  assumes "sig_inv g" "pprocs (tree g) p \<noteq> None" "P_WEXIT \<notin> p_flag (sproc g p)" "p_stat (sproc g p) = SSTOP"
  shows "\<exists>g'. psignal p SIGCONT g = Some (Inr g') \<and> sig_inv g' \<and>
    (\<forall>n\<in>{SIGSTOP, SIGTSTP, SIGTTIN, SIGTTOU}. \<not> bit (p_siglist (sgp g' p)) (n - 1)) \<and>
    (bit (p_siglist (sgp g' p)) (SIGCONT - 1) \<longleftrightarrow>
       ps_sigact (p_sigacts (sgp g p)) SIGCONT \<noteq> SIG_DFL \<and> ps_sigact (p_sigacts (sgp g p)) SIGCONT \<noteq> SIG_IGN \<or> bit (p_sigmask (sgp g p)) (SIGCONT - 1)) \<and>
    (p_wchan (sproc g p) = None \<longrightarrow> p_stat (sproc g' p) = SRUN) \<and>
    (p_wchan (sproc g p) \<noteq> None \<longrightarrow> p_stat (sproc g' p) = SRUN \<or> p_stat (sproc g' p) = SSLEEP \<and> p_wchan (sproc g' p) = p_wchan (sproc g p))"
proof -
  let ?a = "sig_action p SIGCONT g"
  have ok: "sigproc_ok (sgp g p)" using sig_invD(5) [OF assms(1,3)] .
  have a: "?a = SIG_DFL \<longleftrightarrow> \<not> (caught (p_sigacts (sgp g p)) SIGCONT \<or> bit (p_sigmask (sgp g p)) (SIGCONT - 1))"
    using sigproc_okD(7) [OF ok, of SIGCONT] sig_invD(4) [OF assms(1), of p] by (auto simp: sig_action_def)
  have pr: "sigprop SIGCONT SA_CONT" "\<not> sigprop SIGCONT SA_STOP" by (simp_all add: sigprop_def sigprop_table_def)
  obtain g' where g': "psignal p SIGCONT g = Some (Inr g')" "sig_inv g'"
    "p_siglist (sgp g' p) = (if ?a = SIG_DFL then posted SIGCONT (p_siglist (sgp g p)) AND NOT (sigmask SIGCONT) else posted SIGCONT (p_siglist (sgp g p)))"
    "if ?a = SIG_CATCH \<or> p_wchan (sproc g p) = None then p_stat (sproc g' p) = SRUN
     else p_stat (sproc g' p) = SSLEEP \<and> p_wchan (sproc g' p) = p_wchan (sproc g p)"
    using psignal_cont [OF assms] by blast
  have l: "bit (p_siglist (sgp g' p)) i \<longleftrightarrow> (i = 18 \<and> ?a \<noteq> SIG_DFL \<or> i \<noteq> 18 \<and> bit (p_siglist (sgp g p)) i \<and> \<not> bit stopsigmask i)" for i
    unfolding g'(3) using pr bit_u32 [of "p_siglist (sgp g p)" i] by (auto simp: posted_bit sig_bits stop_bit)
  show ?thesis using g'(1,2,4) l a by (intro exI [of _ g']) (auto simp: stop_bit caught_def split: if_splits)
qed

theorem sigcont_resumes_witness:
  "\<exists>g'. psignal 3 SIGCONT sig_v4 = Some (Inr g') \<and> p_stat (sproc g' 3) = SRUN \<and> \<not> bit (p_siglist (sgp g' 3)) (SIGCONT - 1)"
proof -
  have "\<not> bit (p_sigmask sigproc_v) (SIGCONT - 1)" "ps_sigact (p_sigacts sigproc_v) SIGCONT = SIG_DFL" by (simp_all add: sigproc_v_def acts_v_def)
  then show ?thesis using sigcont_resumes [OF sig_w_ok(3) [OF sigproc_v_ok], of 3] sig_w_vals by auto
qed

lemma killpg_loop_spares:
  assumes "m < 32" "\<not> sigprop m SA_STOP" "\<And>g p. sel g p \<Longrightarrow> 1 < pid_of g p"
    "\<And>g'. sig_frame g g' \<Longrightarrow> \<not> sel g' x"
  shows "sig_inv g \<Longrightarrow> \<exists>k' g'. killpg_loop sel m ps k g = Some (Inr (k', g')) \<and> sig_inv g' \<and> sig_frame g g' \<and> sgp g' x = sgp g x"
  using assms(4)
proof (induction ps arbitrary: k g)
  case (Cons p ps)
  show ?case
  proof (cases "sel g p")
    case True
    then have p: "pprocs (tree g) p \<noteq> None" "x \<noteq> p" using assms(3) [OF True] Cons.prems(2) [of g] by (auto simp: pid_of_def split: option.splits)
    obtain g1 where g1: "(if m \<noteq> 0 then psignal p m g else Some (Inr g)) = Some (Inr g1)" "sig_inv g1" "sig_frame g g1" "sgp g1 x = sgp g x"
      using psignal_inv [OF Cons.prems(1) _ assms(1) p(1)] Cons.prems(1) p(2) assms(2) by (cases "m = 0") (auto simp: psig_ok_def)
    have "\<And>g'. sig_frame g1 g' \<Longrightarrow> \<not> sel g' x" using Cons.prems(2) sig_frame_trans [OF g1(3)] by blast
    from Cons.IH [OF g1(2) this, of "Suc k"] show ?thesis using True g1(3,4) unfolding killpg_loop.simps g1(1)
      by (auto simp: sthen_def intro: sig_frame_trans)
  qed (use Cons in simp)
qed simp

text \<open>\<open>kill\<close> with the process number -1 never changes the signal state of the caller, of process 0 or \<^verbatim>\<open>init\<close>, or of a system process, for
  signals that do not stop processes.\<close>

theorem kill_all_spares:
  assumes "sig_inv g" "0 \<le> m" "m < int NSIG" "\<not> sigprop (nat m) SA_STOP" "x = cp \<or> pid_of g x \<le> 1 \<or> P_SYSTEM \<in> p_flag (sproc g x)"
  shows "\<exists>e g'. kill cp (- 1) m g = Some (Inr (e, g')) \<and> sig_inv g' \<and> sgp g' x = sgp g x"
proof -
  let ?sel = "\<lambda>g p. \<not> (pid_of g p \<le> 1 \<or> P_SYSTEM \<in> p_flag (sproc g p) \<or> p = cp \<or> \<not> cansignal g cp p (int (nat m)))"
  have "\<not> ?sel g' x" if "sig_frame g g'" for g'
    using assms(5) that proc_frame_flag [of "sproc g x" "sproc g' x" P_SYSTEM] by (auto simp: sig_frame_def pid_of_def)
  then obtain k g' where k: "killpg_loop ?sel (nat m) (allproc (tree g)) 0 g = Some (Inr (k, g'))" "sig_inv g'" "sgp g' x = sgp g x"
    using killpg_loop_spares [of "nat m" ?sel g x "allproc (tree g)" 0] assms(1-4) by fastforce
  have "kill cp (- 1) m g = Some (Inr (if k \<noteq> 0 then None else Some ESRCH, g'))"
    using k(1) assms(2,3) by (simp add: kill_def killpg1_def sthen_def)
  then show ?thesis using k(2,3) by blast
qed

theorem kill_all_spares_witness:
  "\<exists>e g'. kill 2 (- 1) 9 sig_v = Some (Inr (e, g')) \<and> sgp g' 2 = sigproc_v"
  using kill_all_spares [OF sig_w_ok(1) [OF sigproc_v_ok], of 9 2 2] by (auto simp: sigprop_def sigprop_table_def)

section \<open>Delivery and dispositions\<close>

text \<open>C34. The loop of \<open>issignal\<close> gives the same result as a search for the lowest signal that is pending, not blocked and not to be dropped:
  signals below it are removed, and none above it is touched.\<close>

theorem issignal_lowest_first:
  assumes "sigproc_ok (sgp g p)" "P_TRACED \<notin> p_flag (sproc g p)" "jobc_of g p \<noteq> None"
  shows "issignal p g = issignal_ref p g"
  using issignal_ref_ok [OF assms] .

theorem issignal_lowest_first_witness:
  "\<exists>g'. issignal 3 (sig_w sched_run3 (sigproc_c\<lparr>p_siglist := sigmask SIGCHLD OR sigmask SIGUSR1\<rparr>)) = Some (Inr (Is_sig SIGUSR1, g'))"
proof -
  let ?q = "sigproc_c\<lparr>p_siglist := sigmask SIGCHLD OR sigmask SIGUSR1\<rparr>"
  let ?g = "sig_w sched_run3 ?q"
  have ok: "sigproc_ok ?q" using sigproc_c_ok by (simp add: sigproc_ok_def sig_bits)
  have pm: "pendmask 3 ?g = sigmask SIGCHLD OR sigmask SIGUSR1" using sigproc_c_vals sig_w_vals by (simp add: pendmask_def)
  have act: "ps_sigact (p_sigacts ?q) SIGCHLD = SIG_DFL" "ps_sigact (p_sigacts ?q) SIGUSR1 = 0x2000"
    by (simp_all add: sigproc_c_def sigproc_v_def acts_v_def setsigvec_proc_def setsigvec_acts_def Let_def)
  have pr: "sigprop SIGCHLD SA_IGNORE" "\<not> sigprop SIGUSR1 SA_STOP" by (simp_all add: sigprop_def sigprop_table_def)
  have "k = SIGCHLD" if "0 < k" "k < SIGUSR1" "bit (sigmask SIGCHLD OR sigmask SIGUSR1) (k - 1)" for k using that by (auto simp: sig_bits)
  moreover have "droppable 3 ?g SIGCHLD" using pr(1) act(1) by (simp add: droppable_def)
  ultimately have "lowest 3 ?g SIGUSR1" unfolding lowest_def pm by blast
  then have "find (\<lambda>n. bit (pendmask 3 ?g) (n - 1) \<and> \<not> droppable 3 ?g n) [1..<32] = Some SIGUSR1"
    by (intro find_lowest) (use pm pr act in \<open>auto simp: sig_bits droppable_def Let_def\<close>)
  then have "\<exists>g'. issignal_ref 3 ?g = Some (Inr (Is_sig SIGUSR1, g'))" using pr by (simp add: issignal_ref_def Let_def)
  moreover have "issignal 3 ?g = issignal_ref 3 ?g" by (rule issignal_lowest_first) (use ok sig_w_vals in simp_all)
  ultimately show ?thesis by simp
qed

lemma setsigvec_get:
  assumes "0 < n" "n < 32" "0 < k" "k < 32"
  shows "sa_handler (sigaction_get p k (setsigvec p n sa g)) = (if k = n then sa_handler sa else sa_handler (sigaction_get p k g))" (is ?h)
    "sa_mask (sigaction_get p k (setsigvec p n sa g)) = (if k = n then sa_mask sa AND NOT sigcantmask else sa_mask (sigaction_get p k g))" (is ?m)
    "f \<in> sa_flags (sigaction_get p k (setsigvec p n sa g)) \<longleftrightarrow>
      (case f of SA_DISABLE \<Rightarrow> False
       | SA_NOCLDSTOP \<Rightarrow> if n = SIGCHLD then f \<in> sa_flags sa else f \<in> sa_flags (sigaction_get p k g)
       | _ \<Rightarrow> if k = n then f \<in> sa_flags sa else f \<in> sa_flags (sigaction_get p k g))" (is ?f)
proof -
  let ?g = "setsigvec p n sa g" and ?ps = "p_sigacts (sgp g p)"
  have acts: "p_sigacts (sgp ?g p) = setsigvec_acts n sa ?ps" by (simp add: setsigvec_def upd_sig_def setsigvec_proc_def Let_def upd_sch_def)
  have fl: "P_NOCLDSTOP \<in> p_flag (sproc ?g p) \<longleftrightarrow> (if n = SIGCHLD then SA_NOCLDSTOP \<in> sa_flags sa else P_NOCLDSTOP \<in> p_flag (sproc g p))"
    by (simp add: setsigvec_def upd_sig_def upd_sch_def supd_def)
  have ne: "k - 1 = n - 1 \<longleftrightarrow> k = n" "k - 1 < 32" "n - 1 < 32" using assms by auto
  have on: "bit (ps_sigonstack (setsigvec_acts n sa ?ps)) (k - 1) \<longleftrightarrow> (if k = n then SA_ONSTACK \<in> sa_flags sa else bit (ps_sigonstack ?ps) (k - 1))"
    using assms ne by (simp add: setsigvec_acts_def Let_def sig_bits)
  have it: "bit (ps_sigintr (setsigvec_acts n sa ?ps)) (k - 1) \<longleftrightarrow> (if k = n then SA_RESTART \<notin> sa_flags sa else bit (ps_sigintr ?ps) (k - 1))"
    using assms ne by (simp add: setsigvec_acts_def Let_def sig_bits)
  show ?h ?m unfolding sigaction_get_def Let_def acts by (simp_all add: setsigvec_acts_def Let_def)
  show ?f using on it fl assms unfolding sigaction_get_def Let_def acts by (cases f) simp_all
qed

text \<open>C36. What \<open>sigaction\<close> has set it gives back: the handler, the mask without \<^verbatim>\<open>SIGKILL\<close> and \<^verbatim>\<open>SIGSTOP\<close>, and the flags for the stack and the
  restart of system calls; other signals are not affected, except that \<^verbatim>\<open>SA_NOCLDSTOP\<close> of \<^verbatim>\<open>SIGCHLD\<close> shows for all of them.\<close>

theorem sigaction_roundtrip:
  assumes "0 < n" "n < NSIG" "n \<noteq> SIGKILL" "n \<noteq> SIGSTOP"
  shows "\<exists>g' old. sigaction p (int n) (Some (Inr sa)) None g = (Inr None, g') \<and> sigaction p (int n) None (Some None) g' = (Inr (Some old), g') \<and>
    sa_handler old = sa_handler sa \<and> sa_mask old = sa_mask sa AND NOT sigcantmask \<and>
    sa_flags old \<inter> {SA_ONSTACK, SA_RESTART} = sa_flags sa \<inter> {SA_ONSTACK, SA_RESTART} \<and>
    (n = SIGCHLD \<longrightarrow> (SA_NOCLDSTOP \<in> sa_flags old \<longleftrightarrow> SA_NOCLDSTOP \<in> sa_flags sa)) \<and>
    (\<forall>k. 0 < k \<longrightarrow> k < NSIG \<longrightarrow> k \<noteq> n \<longrightarrow> n \<noteq> SIGCHLD \<longrightarrow> sigaction_get p k g' = sigaction_get p k g)"
proof -
  let ?g = "setsigvec p n sa g"
  have s: "sigaction p (int n) (Some (Inr sa)) None g = (Inr None, ?g)" "sigaction p (int n) None (Some None) ?g = (Inr (Some (sigaction_get p n ?g)), ?g)"
    using assms by (auto simp: sigaction_def)
  have old: "sa_handler (sigaction_get p n ?g) = sa_handler sa" "sa_mask (sigaction_get p n ?g) = sa_mask sa AND NOT sigcantmask"
    using setsigvec_get(1,2) [OF assms(1,2) assms(1,2), of p sa g] by simp_all
  have flg: "n = SIGCHLD \<Longrightarrow> SA_NOCLDSTOP \<in> sa_flags (sigaction_get p n ?g) \<longleftrightarrow> SA_NOCLDSTOP \<in> sa_flags sa"
    using setsigvec_get(3) [OF assms(1,2) assms(1,2), of SA_NOCLDSTOP p sa g] by simp
  have oth: "sigaction_get p k ?g = sigaction_get p k g" if "0 < k" "k < 32" "k \<noteq> n" "n \<noteq> SIGCHLD" for k
  proof (rule sigaction_s.equality)
    have "f \<in> sa_flags (sigaction_get p k ?g) \<longleftrightarrow> f \<in> sa_flags (sigaction_get p k g)" for f
      using setsigvec_get(3) [OF assms(1,2) that(1,2), of f p sa g] that(3,4) by (cases f) (simp_all add: sigaction_get_def Let_def)
    then show "sa_flags (sigaction_get p k ?g) = sa_flags (sigaction_get p k g)" by blast
  qed (use setsigvec_get(1,2) [OF assms(1,2) that(1,2), of p sa g] that(3) in simp_all)
  have "SA_ONSTACK \<in> sa_flags (sigaction_get p n ?g) \<longleftrightarrow> SA_ONSTACK \<in> sa_flags sa" "SA_RESTART \<in> sa_flags (sigaction_get p n ?g) \<longleftrightarrow> SA_RESTART \<in> sa_flags sa"
    using setsigvec_get(3) [OF assms(1,2) assms(1,2), of SA_ONSTACK p sa g] setsigvec_get(3) [OF assms(1,2) assms(1,2), of SA_RESTART p sa g] by simp_all
  then have "sa_flags (sigaction_get p n ?g) \<inter> {SA_ONSTACK, SA_RESTART} = sa_flags sa \<inter> {SA_ONSTACK, SA_RESTART}" by blast
  then show ?thesis using s old flg oth by (intro exI [of _ ?g] exI [of _ "sigaction_get p n ?g"]) simp
qed

theorem sigaction_roundtrip_witness:
  "\<exists>g' old. sigaction 3 30 (Some (Inr \<lparr>sa_handler = 0x2000, sa_mask = NOT 0, sa_flags = {SA_RESTART}\<rparr>)) None sig_v3 = (Inr None, g') \<and>
     sigaction 3 30 None (Some None) g' = (Inr (Some old), g') \<and> sa_handler old = 0x2000 \<and> sa_mask old = NOT 0 AND NOT sigcantmask \<and> SA_RESTART \<in> sa_flags old"
  using sigaction_roundtrip [of 30 3 "\<lparr>sa_handler = 0x2000, sa_mask = NOT 0, sa_flags = {SA_RESTART}\<rparr>" sig_v3] by auto

lemma sendsig_frame:
  "\<exists>g1 fr. sendsig p h n m c True g = Some (Inr g1) \<and> sframes g1 = sframes g @ [(p, fr)] \<and> sf_signum fr = n \<and> sf_handler fr = h \<and> sc_mask fr = m \<and>
     (sc_onstack fr \<longleftrightarrow> SA_ONSTACK \<in> ss_flags (ps_sigstk (p_sigacts (sgp g p)))) \<and> p_sigmask (sgp g1 p) = p_sigmask (sgp g p) \<and>
     p_siglist (sgp g1 p) = p_siglist (sgp g p) \<and> ps_flags (p_sigacts (sgp g1 p)) = ps_flags (p_sigacts (sgp g p)) \<and>
     ps_sigact (p_sigacts (sgp g1 p)) = ps_sigact (p_sigacts (sgp g p))"
  by (simp add: sendsig_def Let_def upd_sig_def del: and_sigmask)

lemma postsig_caught:
  assumes "n \<noteq> 0" "ps_sigact (p_sigacts (sgp g p)) n \<noteq> SIG_DFL" "ps_sigact (p_sigacts (sgp g p)) n \<noteq> SIG_IGN" "p_sigmask (sgp g p) AND sigmask n = 0"
  shows "\<exists>code h. postsig p n acc core g = sthen (sendsig p (ps_sigact (p_sigacts (sgp g p)) n) n
      (if SAS_OLDMASK \<in> ps_flags (p_sigacts (sgp g p)) then ps_oldmask (p_sigacts (sgp g p)) else p_sigmask (sgp g p)) code acc h) (\<lambda>g2. Some (Inr (Delivered, g2))) \<and>
    sframes h = sframes g \<and> p_sigmask (sgp h p) = p_sigmask (sgp g p) OR (ps_catchmask (p_sigacts (sgp g p)) n OR sigmask n) \<and>
    p_siglist (sgp h p) = p_siglist (sgp g p) AND NOT (sigmask n) \<and> ps_flags (p_sigacts (sgp h p)) = ps_flags (p_sigacts (sgp g p)) - {SAS_OLDMASK} \<and>
    ps_sigact (p_sigacts (sgp h p)) = ps_sigact (p_sigacts (sgp g p)) \<and> ps_sigstk (p_sigacts (sgp h p)) = ps_sigstk (p_sigacts (sgp g p))"
proof -
  let ?ps = "p_sigacts (sgp g p)" and ?g1 = "clear p (sigmask n) g"
  define ps2 where "ps2 = (if ps_sig ?ps \<noteq> n then ?ps\<lparr>ps_flags := ps_flags ?ps - {SAS_OLDMASK}\<rparr>
      else ?ps\<lparr>ps_flags := ps_flags ?ps - {SAS_OLDMASK}, ps_code := 0, ps_sig := 0\<rparr>)"
  define code where "code = (if ps_sig ?ps \<noteq> n then 0 else ps_code ?ps)"
  let ?h = "upd_sig p (\<lambda>q. q\<lparr>p_sigmask := p_sigmask q OR (ps_catchmask ?ps n OR sigmask n), p_sigacts := ps2\<rparr>) ?g1"
  have q1: "p_sigacts (sgp ?g1 p) = ?ps" "p_sigmask (sgp ?g1 p) = p_sigmask (sgp g p)" by simp_all
  have c: "\<not> (ps_sigact ?ps n = SIG_IGN \<or> p_sigmask (sgp g p) AND sigmask n \<noteq> 0)" using assms(3,4) by blast
  have "postsig p n acc core g = sthen (sendsig p (ps_sigact ?ps n) n (if SAS_OLDMASK \<in> ps_flags ?ps then ps_oldmask ?ps else p_sigmask (sgp g p)) code acc ?h)
      (\<lambda>g2. Some (Inr (Delivered, g2)))"
    unfolding postsig_def Let_def q1 if_not_P [OF assms(1)] if_not_P [OF assms(2)] if_not_P [OF c] ps2_def code_def ..
  then show ?thesis by (intro exI [of _ code] exI [of _ ?h]) (simp add: upd_sig_def ps2_def clear_def)
qed

text \<open>C35. \<open>postsig\<close> for a caught signal sends a frame for the handler and blocks the signal; \<open>sigreturn\<close> with that frame restores the mask of
  before, which is the one saved by \<open>sigsuspend\<close> when there is one, but for \<^verbatim>\<open>SIGCONT\<close>, which it always unblocks; it also restores the use
  of the signal stack.\<close>

theorem handler_mask_roundtrip:
  assumes "sigproc_ok (sgp g p)" "0 < n" "n < NSIG" "bit (p_sigcatch (sgp g p)) (n - 1)" "\<not> bit (p_sigmask (sgp g p)) (n - 1)"
  shows "\<exists>g1 fr. postsig p n True core g = Some (Inr (Delivered, g1)) \<and> sframes g1 = sframes g @ [(p, fr)] \<and>
    sf_signum fr = n \<and> sf_handler fr = ps_sigact (p_sigacts (sgp g p)) n \<and>
    bit (p_sigmask (sgp g1 p)) (n - 1) \<and> \<not> bit (p_siglist (sgp g1 p)) (n - 1) \<and>
    (let g2 = snd (sigreturn p (Some (sc_onstack fr, sc_mask fr)) g1); ps = p_sigacts (sgp g p) in
     p_sigmask (sgp g2 p) = (if SAS_OLDMASK \<in> ps_flags ps then ps_oldmask ps else p_sigmask (sgp g p)) AND NOT (sigmask SIGCONT) \<and>
     SAS_OLDMASK \<notin> ps_flags (p_sigacts (sgp g2 p)) \<and>
     (SA_ONSTACK \<in> ss_flags (ps_sigstk (p_sigacts (sgp g2 p))) \<longleftrightarrow> SA_ONSTACK \<in> ss_flags (ps_sigstk ps)) \<and>
     (\<forall>k. ps_sigact (p_sigacts (sgp g2 p)) k = ps_sigact ps k))"
proof -
  let ?ps = "p_sigacts (sgp g p)"
  let ?act = "ps_sigact ?ps n" and ?rm = "if SAS_OLDMASK \<in> ps_flags ?ps then ps_oldmask ?ps else p_sigmask (sgp g p)"
  have ct: "?act \<noteq> SIG_DFL" "?act \<noteq> SIG_IGN" using sigproc_okD(7) [OF assms(1-3)] assms(4) by (auto simp: caught_def)
  have m: "unblockable ?rm" using sigproc_okD(4,5) [OF assms(1)] by simp
  have "p_sigmask (sgp g p) AND sigmask n = 0" using assms(2,3,5) by simp
  from postsig_caught [OF _ ct this, of True core] assms(2)
  obtain code h where h: "postsig p n True core g = sthen (sendsig p ?act n ?rm code True h) (\<lambda>g2. Some (Inr (Delivered, g2)))" "sframes h = sframes g"
    "p_sigmask (sgp h p) = p_sigmask (sgp g p) OR (ps_catchmask ?ps n OR sigmask n)" "p_siglist (sgp h p) = p_siglist (sgp g p) AND NOT (sigmask n)"
    "ps_flags (p_sigacts (sgp h p)) = ps_flags ?ps - {SAS_OLDMASK}" "ps_sigact (p_sigacts (sgp h p)) = ps_sigact ?ps" "ps_sigstk (p_sigacts (sgp h p)) = ps_sigstk ?ps"
    by blast
  obtain g1 fr where g1: "sendsig p ?act n ?rm code True h = Some (Inr g1)" "sframes g1 = sframes h @ [(p, fr)]" "sf_signum fr = n" "sf_handler fr = ?act" "sc_mask fr = ?rm"
    "sc_onstack fr \<longleftrightarrow> SA_ONSTACK \<in> ss_flags (ps_sigstk (p_sigacts (sgp h p)))" "p_sigmask (sgp g1 p) = p_sigmask (sgp h p)"
    "p_siglist (sgp g1 p) = p_siglist (sgp h p)" "ps_flags (p_sigacts (sgp g1 p)) = ps_flags (p_sigacts (sgp h p))"
    "ps_sigact (p_sigacts (sgp g1 p)) = ps_sigact (p_sigacts (sgp h p))" using sendsig_frame [of p ?act n ?rm code h] by blast
  have "?rm AND NOT (sigmask SIGKILL OR sigmask SIGCONT OR sigmask SIGSTOP) = ?rm AND NOT (sigmask SIGCONT)"
    by (rule bit_eqI) (use m in \<open>auto simp: sig_bits unblockable_def\<close>)
  moreover have "n - 1 < 32" using assms(3) by simp
  ultimately show ?thesis using g1 h
    by (intro exI [of _ g1] exI [of _ fr]) (simp add: sigreturn_def Let_def upd_sig_def sig_bits sthen_def)
qed

theorem handler_mask_roundtrip_witness:
  "\<exists>g1 fr. postsig 3 SIGUSR1 True False (sig_w sched_run3 (sigproc_c\<lparr>p_siglist := sigmask SIGUSR1, p_sigmask := sigmask SIGCONT OR sigmask SIGHUP\<rparr>)) = Some (Inr (Delivered, g1)) \<and>
     sframes g1 = [(3, fr)] \<and> p_sigmask (sgp (snd (sigreturn 3 (Some (sc_onstack fr, sc_mask fr)) g1)) 3) = sigmask SIGHUP"
proof -
  let ?q = "sigproc_c\<lparr>p_siglist := sigmask SIGUSR1, p_sigmask := sigmask SIGCONT OR sigmask SIGHUP\<rparr>"
  have "sigproc_ok ?q" using sigproc_c_ok by (simp add: sigproc_ok_def sigmask_bit)
  moreover have "(sigmask SIGCONT OR sigmask SIGHUP) AND NOT (sigmask SIGCONT) = sigmask SIGHUP" by (simp add: sigmask_def)
  ultimately show ?thesis using handler_mask_roundtrip [of "sig_w sched_run3 ?q" 3 SIGUSR1 False] sigproc_c_vals
    by (auto simp: Let_def sig_bits)
qed

end
