(* ===== verification/Cred.thy ===== *)
theory Cred
  imports Prelude
begin

text \<open>
  Credentials, \<^verbatim>\<open>kern/kern_prot.c\<close> with \<^verbatim>\<open>include/ucred.h\<close>. Processes and open files share counted credential structures; a call that changes
  an identity first makes the structure private with \<open>crcopy\<close>. The identities of a process that are not shared are in its \<^verbatim>\<open>pcred\<close>. The
  counts of processes per user, which \<open>setuid\<close> also changes, are in the theory \<open>Pgrp\<close>.
\<close>

section \<open>State\<close>

abbreviation NGROUPS :: nat where "NGROUPS \<equiv> 16"

record ucred =
  cr_ref :: u16
  cr_uid :: u32
  cr_ngroups :: nat
  cr_groups :: "u32 list"

text \<open>\<open>p_sugid\<close> and \<open>p_asu\<close> are the bits \<^verbatim>\<open>P_SUGID\<close> of \<^verbatim>\<open>p_flag\<close> and \<^verbatim>\<open>ASU\<close> of \<^verbatim>\<open>p_acflag\<close>.\<close>

record pcred =
  pc_ucred :: nat
  p_ruid :: u32
  p_svuid :: u32
  p_rgid :: u32
  p_svgid :: u32
  p_sugid :: bool
  p_asu :: bool

text \<open>Structures by address, processes, and the credentials of open files. \<open>None\<close> in the operations is an access to freed memory.\<close>

record credsys =
  ucreds :: "nat \<rightharpoonup> ucred"
  pcreds :: "nat \<rightharpoonup> pcred"
  fcreds :: "nat \<rightharpoonup> nat"

definition upd_ucred :: "nat \<Rightarrow> (ucred \<Rightarrow> ucred) \<Rightarrow> credsys \<Rightarrow> credsys option" where
  [kern_defs]: "upd_ucred a f s = (case ucreds s a of None \<Rightarrow> None | Some c \<Rightarrow> Some (s\<lparr>ucreds := (ucreds s)(a \<mapsto> f c)\<rparr>))"

definition upd_pcred :: "nat \<Rightarrow> (pcred \<Rightarrow> pcred) \<Rightarrow> credsys \<Rightarrow> credsys" where
  [kern_defs]: "upd_pcred p f s = s\<lparr>pcreds := (pcreds s)(p := map_option f (pcreds s p))\<rparr>"

section \<open>Counted structures\<close>

definition crget :: "nat \<Rightarrow> credsys \<Rightarrow> credsys" where
  [kern_defs]: "crget a s = s\<lparr>ucreds := (ucreds s)(a \<mapsto> \<lparr>cr_ref = 1, cr_uid = 0, cr_ngroups = 0, cr_groups = replicate NGROUPS 0\<rparr>)\<rparr>"

definition crhold :: "nat \<Rightarrow> credsys \<Rightarrow> credsys option" where
  [kern_defs]: "crhold a = upd_ucred a (\<lambda>c. c\<lparr>cr_ref := cr_ref c + 1\<rparr>)"

definition crfree :: "nat \<Rightarrow> credsys \<Rightarrow> credsys option" where
  [kern_defs]: "crfree a s =
     (case ucreds s a of
        None \<Rightarrow> None
      | Some c \<Rightarrow> Some (s\<lparr>ucreds := (ucreds s)(a := (if cr_ref c - 1 = 0 then None else Some (c\<lparr>cr_ref := cr_ref c - 1\<rparr>)))\<rparr>))"

text \<open>\<open>crcopy\<close> and \<open>crdup\<close> with the address of the new structure; the result is the address of the copy.\<close>

definition crdup :: "nat \<Rightarrow> nat \<Rightarrow> credsys \<Rightarrow> (nat \<times> credsys) option" where
  [kern_defs]: "crdup new a s =
     (case ucreds s a of None \<Rightarrow> None | Some c \<Rightarrow> Some (new, (crget new s)\<lparr>ucreds := (ucreds (crget new s))(new \<mapsto> c\<lparr>cr_ref := 1\<rparr>)\<rparr>))"

definition crcopy :: "nat \<Rightarrow> nat \<Rightarrow> credsys \<Rightarrow> (nat \<times> credsys) option" where
  [kern_defs]: "crcopy new a s =
     (case ucreds s a of
        None \<Rightarrow> None
      | Some c \<Rightarrow>
          if cr_ref c = 1 then Some (a, s)
          else
            let s1 = (crget new s)\<lparr>ucreds := (ucreds (crget new s))(new \<mapsto> c)\<rparr> in
            (case crfree a s1 of
               None \<Rightarrow> None
             | Some s2 \<Rightarrow> (case upd_ucred new (\<lambda>c. c\<lparr>cr_ref := 1\<rparr>) s2 of None \<Rightarrow> None | Some s3 \<Rightarrow> Some (new, s3))))"

section \<open>Tests\<close>

definition groupmember :: "u32 \<Rightarrow> ucred \<Rightarrow> bool" where
  [kern_defs]: "groupmember gid c \<longleftrightarrow> gid \<in> set (take (cr_ngroups c) (cr_groups c))"

text \<open>\<open>suser\<close> for the credentials of a process, with the mark that it leaves in the accounting flags.\<close>

definition suser :: "nat \<Rightarrow> credsys \<Rightarrow> (errno option \<times> credsys) option" where
  [kern_defs]: "suser p s =
     (case pcreds s p of
        None \<Rightarrow> None
      | Some pc \<Rightarrow>
          (case ucreds s (pc_ucred pc) of
             None \<Rightarrow> None
           | Some c \<Rightarrow> Some (if cr_uid c = 0 then (None, upd_pcred p (\<lambda>pc. pc\<lparr>p_asu := True\<rparr>) s) else (Some EPERM, s))))"

section \<open>System calls\<close>

text \<open>The common form of the calls that set an identity: the test \<open>free\<close> or the super-user, a private copy, and the two assignments.\<close>

definition set_ids :: "nat \<Rightarrow> bool \<Rightarrow> nat \<Rightarrow> (ucred \<Rightarrow> ucred) \<Rightarrow> (pcred \<Rightarrow> pcred) \<Rightarrow> credsys \<Rightarrow> (errno option \<times> credsys) option" where
  [kern_defs]: "set_ids new free p fc fp s =
     (case (if free then Some (None, s) else suser p s) of
        None \<Rightarrow> None
      | Some (Some e, s1) \<Rightarrow> Some (Some e, s1)
      | Some (None, s1) \<Rightarrow>
          (case pcreds s1 p of
             None \<Rightarrow> None
           | Some pc \<Rightarrow>
               (case crcopy new (pc_ucred pc) s1 of
                  None \<Rightarrow> None
                | Some (a, s2) \<Rightarrow>
                    (case upd_ucred a fc s2 of
                       None \<Rightarrow> None
                     | Some s3 \<Rightarrow> Some (None, upd_pcred p (\<lambda>pc. (fp pc)\<lparr>pc_ucred := a, p_sugid := True\<rparr>) s3)))))"

definition on_pcred :: "nat \<Rightarrow> (pcred \<Rightarrow> (errno option \<times> credsys) option) \<Rightarrow> credsys \<Rightarrow> (errno option \<times> credsys) option" where
  [kern_defs]: "on_pcred p f s = (case pcreds s p of None \<Rightarrow> None | Some pc \<Rightarrow> f pc)"

definition setuid :: "nat \<Rightarrow> nat \<Rightarrow> u32 \<Rightarrow> credsys \<Rightarrow> (errno option \<times> credsys) option" where
  [kern_defs]: "setuid new p uid s = on_pcred p (\<lambda>pc.
     set_ids new (uid = p_ruid pc) p (\<lambda>c. c\<lparr>cr_uid := uid\<rparr>) (\<lambda>pc. pc\<lparr>p_ruid := uid, p_svuid := uid\<rparr>) s) s"

definition seteuid :: "nat \<Rightarrow> nat \<Rightarrow> u32 \<Rightarrow> credsys \<Rightarrow> (errno option \<times> credsys) option" where
  [kern_defs]: "seteuid new p euid s = on_pcred p (\<lambda>pc.
     set_ids new (euid = p_ruid pc \<or> euid = p_svuid pc) p (\<lambda>c. c\<lparr>cr_uid := euid\<rparr>) id s) s"

definition setgid :: "nat \<Rightarrow> nat \<Rightarrow> u32 \<Rightarrow> credsys \<Rightarrow> (errno option \<times> credsys) option" where
  [kern_defs]: "setgid new p gid s = on_pcred p (\<lambda>pc.
     set_ids new (gid = p_rgid pc) p (\<lambda>c. c\<lparr>cr_groups := (cr_groups c)[0 := gid]\<rparr>) (\<lambda>pc. pc\<lparr>p_rgid := gid, p_svgid := gid\<rparr>) s) s"

definition setegid :: "nat \<Rightarrow> nat \<Rightarrow> u32 \<Rightarrow> credsys \<Rightarrow> (errno option \<times> credsys) option" where
  [kern_defs]: "setegid new p egid s = on_pcred p (\<lambda>pc.
     set_ids new (egid = p_rgid pc \<or> egid = p_svgid pc) p (\<lambda>c. c\<lparr>cr_groups := (cr_groups c)[0 := egid]\<rparr>) id s) s"

text \<open>\<open>setgroups\<close>; \<open>got\<close> are the words that \<open>copyin\<close> has copied, fewer than asked for when it fails with \<open>err\<close>.\<close>

definition setgroups :: "nat \<Rightarrow> nat \<Rightarrow> nat \<Rightarrow> u32 list \<Rightarrow> errno option \<Rightarrow> credsys \<Rightarrow> (errno option \<times> credsys) option" where
  [kern_defs]: "setgroups new p ngrp got err s =
     (case suser p s of
        None \<Rightarrow> None
      | Some (Some e, s1) \<Rightarrow> Some (Some e, s1)
      | Some (None, s1) \<Rightarrow>
          if ngrp < 1 \<or> NGROUPS < ngrp then Some (Some EINVAL, s1)
          else on_pcred p (\<lambda>pc.
            case crcopy new (pc_ucred pc) s1 of
              None \<Rightarrow> None
            | Some (a, s2) \<Rightarrow>
                (case upd_ucred a (\<lambda>c. c\<lparr>cr_groups := take ngrp got @ drop (length (take ngrp got)) (cr_groups c)\<rparr>) s2 of
                   None \<Rightarrow> None
                 | Some s3 \<Rightarrow>
                     if err \<noteq> None then Some (err, upd_pcred p (\<lambda>pc. pc\<lparr>pc_ucred := a\<rparr>) s3)
                     else
                       (case upd_ucred a (\<lambda>c. c\<lparr>cr_ngroups := ngrp\<rparr>) s3 of
                          None \<Rightarrow> None
                        | Some s4 \<Rightarrow> Some (None, upd_pcred p (\<lambda>pc. pc\<lparr>pc_ucred := a, p_sugid := True\<rparr>) s4)))) s1)"

text \<open>The older calls; -1 leaves an identity as it is.\<close>

definition setreuid :: "nat \<Rightarrow> nat \<Rightarrow> u32 \<Rightarrow> u32 \<Rightarrow> credsys \<Rightarrow> (errno option \<times> credsys) option" where
  [kern_defs]: "setreuid new p ruid euid s =
     (if ruid \<noteq> -1 \<and> ruid = euid then setuid new p ruid s
      else on_pcred p (\<lambda>pc.
        if ruid \<noteq> -1 \<and> ruid \<noteq> p_ruid pc \<and> ruid \<noteq> p_svuid pc then Some (Some EPERM, s)
        else if euid = -1 then Some (None, s)
        else seteuid new p euid s) s)"

definition setregid :: "nat \<Rightarrow> nat \<Rightarrow> u32 \<Rightarrow> u32 \<Rightarrow> credsys \<Rightarrow> (errno option \<times> credsys) option" where
  [kern_defs]: "setregid new p rgid egid s =
     (if rgid \<noteq> -1 \<and> rgid = egid then setgid new p rgid s
      else on_pcred p (\<lambda>pc.
        if rgid \<noteq> -1 \<and> rgid \<noteq> p_rgid pc \<and> rgid \<noteq> p_svgid pc then Some (Some EPERM, s)
        else if egid = -1 then Some (None, s)
        else setegid new p egid s) s)"

text \<open>\<open>getgroups\<close> with room for \<open>ngrp\<close> groups: the number and the groups copied out.\<close>

definition getgroups :: "nat \<Rightarrow> nat \<Rightarrow> credsys \<Rightarrow> (errno + nat \<times> u32 list) option" where
  [kern_defs]: "getgroups p ngrp s =
     (case pcreds s p of
        None \<Rightarrow> None
      | Some pc \<Rightarrow>
          (case ucreds s (pc_ucred pc) of
             None \<Rightarrow> None
           | Some c \<Rightarrow> Some (if ngrp = 0 then Inr (cr_ngroups c, []) else if ngrp < cr_ngroups c then Inl EINVAL
               else Inr (cr_ngroups c, take (cr_ngroups c) (cr_groups c)))))"

section \<open>Other holders\<close>

text \<open>\<open>fork1\<close>, the end of \<open>wait1\<close>, \<open>falloc\<close> and \<open>ffree\<close>, as far as they touch credentials.\<close>

definition fork_cred :: "nat \<Rightarrow> nat \<Rightarrow> credsys \<Rightarrow> credsys option" where
  [kern_defs]: "fork_cred p1 p2 s =
     (case pcreds s p1 of
        None \<Rightarrow> None
      | Some pc \<Rightarrow> crhold (pc_ucred pc) (s\<lparr>pcreds := (pcreds s)(p2 \<mapsto> pc\<lparr>p_sugid := False, p_asu := False\<rparr>)\<rparr>))"

definition wait_cred :: "nat \<Rightarrow> credsys \<Rightarrow> credsys option" where
  [kern_defs]: "wait_cred p s = (case pcreds s p of None \<Rightarrow> None | Some pc \<Rightarrow> map_option (\<lambda>s1. s1\<lparr>pcreds := (pcreds s1)(p := None)\<rparr>) (crfree (pc_ucred pc) s))"

definition falloc_cred :: "nat \<Rightarrow> nat \<Rightarrow> credsys \<Rightarrow> credsys option" where
  [kern_defs]: "falloc_cred p f s =
     (case pcreds s p of None \<Rightarrow> None | Some pc \<Rightarrow> crhold (pc_ucred pc) (s\<lparr>fcreds := (fcreds s)(f \<mapsto> pc_ucred pc)\<rparr>))"

definition ffree_cred :: "nat \<Rightarrow> credsys \<Rightarrow> credsys option" where
  [kern_defs]: "ffree_cred f s = (case fcreds s f of None \<Rightarrow> None | Some a \<Rightarrow> map_option (\<lambda>s1. s1\<lparr>fcreds := (fcreds s1)(f := None)\<rparr>) (crfree a s))"

section \<open>Counts\<close>

text \<open>The number of references to a structure, from processes and from files.\<close>

definition cnt :: "(nat \<rightharpoonup> nat) \<Rightarrow> nat \<Rightarrow> nat" where
  "cnt m a = card {x. m x = Some a}"

definition cred_of :: "credsys \<Rightarrow> nat \<rightharpoonup> nat" where
  "cred_of s = (\<lambda>p. map_option pc_ucred (pcreds s p))"

definition refs :: "credsys \<Rightarrow> nat \<Rightarrow> nat" where
  "refs s a = cnt (cred_of s) a + cnt (fcreds s) a"

definition ucred_ok :: "nat \<Rightarrow> ucred option \<Rightarrow> bool" where
  "ucred_ok n x \<longleftrightarrow> (case x of None \<Rightarrow> n = 0 | Some c \<Rightarrow> 0 < n \<and> unat (cr_ref c) = n \<and> length (cr_groups c) = NGROUPS \<and> cr_ngroups c \<le> NGROUPS)"

definition cred_ok :: "credsys \<Rightarrow> bool" where
  "cred_ok s \<longleftrightarrow> finite (dom (pcreds s)) \<and> finite (dom (fcreds s)) \<and> (\<forall>a. ucred_ok (refs s a) (ucreds s a))"

definition holders :: "credsys \<Rightarrow> nat" where
  "holders s = card (dom (pcreds s)) + card (dom (fcreds s))"

lemma cnt_upd:
  assumes "finite (dom m)"
  shows "cnt (m(p := v)) b + (if m p = Some b then 1 else 0) = cnt m b + (if v = Some b then 1 else 0)"
proof -
  let ?r = "{x. x \<noteq> p \<and> m x = Some b}"
  have f: "finite ?r" by (rule finite_subset [OF _ assms]) auto
  have "{x. m x = Some b} = (if m p = Some b then insert p ?r else ?r)" "{x. (m(p := v)) x = Some b} = (if v = Some b then insert p ?r else ?r)" by auto
  then show ?thesis using f by (simp add: cnt_def)
qed

lemma cnt_le: "finite (dom m) \<Longrightarrow> cnt m b \<le> card (dom m)"
  unfolding cnt_def by (rule card_mono) auto

lemma cred_of_dom [simp]: "dom (cred_of s) = dom (pcreds s)"
  by (auto simp: cred_of_def)

lemma cred_of_upd: "cred_of (s\<lparr>pcreds := (pcreds s)(p := x)\<rparr>) = (cred_of s)(p := map_option pc_ucred x)"
  by (auto simp: cred_of_def)

lemma refs_le: "cred_ok s \<Longrightarrow> refs s a \<le> holders s"
  using cnt_le [of "cred_of s" a] cnt_le [of "fcreds s" a] by (simp add: cred_ok_def refs_def holders_def)

lemma cred_held:
  assumes "cred_ok s" "cred_of s p = Some a \<or> fcreds s f = Some a"
  obtains c where "ucreds s a = Some c" "unat (cr_ref c) = refs s a" "length (cr_groups c) = NGROUPS" "cr_ngroups c \<le> NGROUPS"
proof -
  have f: "finite (dom (cred_of s))" "finite (dom (fcreds s))" using assms(1) by (simp_all add: cred_ok_def)
  have "0 < refs s a" using assms(2)
  proof
    assume "cred_of s p = Some a"
    then show ?thesis using cnt_upd [OF f(1), of p None a] by (simp add: refs_def)
  next
    assume "fcreds s f = Some a"
    then show ?thesis using cnt_upd [OF f(2), of f None a] by (simp add: refs_def)
  qed
  then show ?thesis using assms(1) that by (auto simp: cred_ok_def ucred_ok_def dest!: spec [of _ a] split: option.splits)
qed

lemma ref_dec: "unat (r :: u16) = n \<Longrightarrow> 0 < n \<Longrightarrow> unat (r - 1) = n - 1"
  by (metis One_nat_def less_numeral_extra(3) unat_0 unat_minus_one)

lemma ref_inc: "unat (r :: u16) = n \<Longrightarrow> Suc n < 65536 \<Longrightarrow> unat (r + 1) = Suc n"
  by (subst unat_add_lem [THEN iffD1]) simp_all

lemma ref_one: "unat (r :: u16) = n \<Longrightarrow> r - 1 = 0 \<longleftrightarrow> n = 1"
  by (metis eq_iff_diff_eq_0 unat_1 unsigned_word_eqI)

text \<open>A reference more, a reference less.\<close>

lemma crhold_ok:
  assumes "cred_ok s" "holders s < 65535" "cred_of s p = Some a" "t = s\<lparr>pcreds := P, fcreds := F\<rparr>" "finite (dom P)" "finite (dom F)"
    "\<And>b. refs t b = (if b = a then Suc (refs s b) else refs s b)"
  shows "\<exists>s' c. crhold a t = Some s' \<and> cred_ok s' \<and> pcreds s' = P \<and> fcreds s' = F \<and> ucreds s a = Some c \<and> ucreds s' = (ucreds s)(a \<mapsto> c\<lparr>cr_ref := cr_ref c + 1\<rparr>)"
proof -
  obtain c where c: "ucreds s a = Some c" "unat (cr_ref c) = refs s a" "length (cr_groups c) = NGROUPS" "cr_ngroups c \<le> NGROUPS" using cred_held [OF assms(1)] assms(3) by metis
  let ?s = "t\<lparr>ucreds := (ucreds t)(a \<mapsto> c\<lparr>cr_ref := cr_ref c + 1\<rparr>)\<rparr>"
  have "Suc (refs s a) < 65536" using refs_le [OF assms(1), of a] assms(2) by simp
  then have u: "unat (cr_ref c + 1) = Suc (refs s a)" using ref_inc [OF c(2)] by simp
  have "refs ?s b = refs t b" for b by (simp add: refs_def cred_of_def)
  then have "cred_ok ?s" using assms(1,4-7) u c(3,4) by (auto simp: cred_ok_def ucred_ok_def)
  then show ?thesis using c(1) assms(4) by (auto simp: crhold_def upd_ucred_def)
qed

lemma crfree_ok:
  assumes "cred_ok s" "cred_of s p = Some a \<or> fcreds s f = Some a" "finite (dom P)" "finite (dom F)"
    "\<And>b. refs (s\<lparr>pcreds := P, fcreds := F\<rparr>) b = (if b = a then refs s b - 1 else refs s b)"
  shows "\<exists>s' c. crfree a s = Some s' \<and> cred_ok (s'\<lparr>pcreds := P, fcreds := F\<rparr>) \<and> pcreds s' = pcreds s \<and> fcreds s' = fcreds s \<and> ucreds s a = Some c \<and>
    ucreds s' = (ucreds s)(a := (if refs s a = 1 then None else Some (c\<lparr>cr_ref := cr_ref c - 1\<rparr>)))"
proof -
  obtain c where c: "ucreds s a = Some c" "unat (cr_ref c) = refs s a" "length (cr_groups c) = NGROUPS" "cr_ngroups c \<le> NGROUPS" using cred_held [OF assms(1,2)] by blast
  have pos: "0 < refs s a" using assms(1) c(1) by (auto simp: cred_ok_def ucred_ok_def dest!: spec [of _ a])
  let ?s = "s\<lparr>ucreds := (ucreds s)(a := (if refs s a = 1 then None else Some (c\<lparr>cr_ref := cr_ref c - 1\<rparr>)))\<rparr>"
  have "crfree a s = Some ?s" using c(1) ref_one [OF c(2)] by (simp add: crfree_def)
  moreover have r: "refs (?s\<lparr>pcreds := P, fcreds := F\<rparr>) b = (if b = a then refs s b - 1 else refs s b)" for b
    using assms(5) [of b] by (simp add: refs_def cred_of_def)
  have "cred_ok (?s\<lparr>pcreds := P, fcreds := F\<rparr>)" unfolding cred_ok_def r using assms(1,3,4) c(3,4) pos ref_dec [OF c(2) pos]
    by (auto simp: cred_ok_def ucred_ok_def)
  ultimately show ?thesis using c(1) by auto
qed

text \<open>
  A private copy for a process, changed by \<open>fc\<close>. The structure at the old address stays for its other holders.
\<close>

definition view :: "credsys \<Rightarrow> nat \<Rightarrow> (pcred \<times> ucred) option" where
  "view s p = (case pcreds s p of None \<Rightarrow> None | Some pc \<Rightarrow> map_option (\<lambda>c. (pc\<lparr>pc_ucred := 0\<rparr>, c\<lparr>cr_ref := 0\<rparr>)) (ucreds s (pc_ucred pc)))"

definition fview :: "credsys \<Rightarrow> nat \<Rightarrow> ucred option" where
  "fview s f = (case fcreds s f of None \<Rightarrow> None | Some a \<Rightarrow> map_option (\<lambda>c. c\<lparr>cr_ref := 0\<rparr>) (ucreds s a))"

definition others_same :: "nat \<Rightarrow> credsys \<Rightarrow> credsys \<Rightarrow> bool" where
  "others_same p s s' \<longleftrightarrow> (\<forall>q. q \<noteq> p \<longrightarrow> view s' q = view s q) \<and> (\<forall>f. fview s' f = fview s f) \<and> fcreds s' = fcreds s \<and> dom (pcreds s') = dom (pcreds s)"

lemma upd_pcred_dom [simp]: "dom (pcreds (upd_pcred p f s)) = dom (pcreds s)"
  by (auto simp: upd_pcred_def split: if_splits)

lemma two_refs:
  assumes "cred_ok s" "cred_of s p = Some a" "cred_of s q = Some a \<and> q \<noteq> p \<or> fcreds s f = Some a"
  shows "2 \<le> refs s a"
proof -
  have f: "finite (dom (cred_of s))" "finite (dom (fcreds s))" using assms(1) by (simp_all add: cred_ok_def)
  have 1: "1 \<le> cnt (cred_of s) a" using cnt_upd [OF f(1), of p None a] assms(2) by simp
  show ?thesis using assms(3)
  proof
    assume q: "cred_of s q = Some a \<and> q \<noteq> p"
    have "1 \<le> cnt ((cred_of s)(p := None)) a" using cnt_upd [of "(cred_of s)(p := None)" q None a] f(1) q by simp
    then show ?thesis using cnt_upd [OF f(1), of p None a] assms(2) by (simp add: refs_def)
  next
    assume "fcreds s f = Some a"
    then show ?thesis using cnt_upd [OF f(2), of f None a] 1 by (simp add: refs_def)
  qed
qed

lemma crcopy_shared:
  assumes "ucreds s a = Some c" "cr_ref c \<noteq> 1" "ucreds s new = None" "cr_ref c - 1 \<noteq> 0"
  shows "crcopy new a s = Some (new, s\<lparr>ucreds := (ucreds s)(a \<mapsto> c\<lparr>cr_ref := cr_ref c - 1\<rparr>, new \<mapsto> c\<lparr>cr_ref := 1\<rparr>)\<rparr>)"
  using assms by (auto simp: crcopy_def crget_def Let_def crfree_def upd_ucred_def fun_upd_twist)

lemma private_copy:
  assumes ok: "cred_ok s" and pc: "pcreds s p = Some pc" and new: "ucreds s new = None"
    and fc: "\<And>c. length (cr_groups c) = NGROUPS \<Longrightarrow> cr_ngroups c \<le> NGROUPS \<Longrightarrow> length (cr_groups (fc c)) = NGROUPS \<and> cr_ngroups (fc c) \<le> NGROUPS \<and> cr_ref (fc c) = cr_ref c"
    and fp: "\<And>pc a. pc_ucred (fp a pc) = a"
  obtains a s2 s3 c where "crcopy new (pc_ucred pc) s = Some (a, s2)" "upd_ucred a fc s2 = Some s3" "pcreds s2 = pcreds s" "pcreds s3 = pcreds s"
    "cred_ok (upd_pcred p (fp a) s3)" "others_same p s (upd_pcred p (fp a) s3)" "ucreds s (pc_ucred pc) = Some c"
    "ucreds (upd_pcred p (fp a) s3) a = Some (fc (c\<lparr>cr_ref := 1\<rparr>))"
proof -
  let ?o = "pc_ucred pc"
  have co: "cred_of s p = Some ?o" using pc by (simp add: cred_of_def)
  obtain c where c: "ucreds s ?o = Some c" "unat (cr_ref c) = refs s ?o" "length (cr_groups c) = NGROUPS" "cr_ngroups c \<le> NGROUPS" using cred_held [OF ok] co by metis
  have pos: "0 < refs s ?o" using ok c(1) by (auto simp: cred_ok_def ucred_ok_def dest!: spec [of _ ?o])
  have fin: "finite (dom (cred_of s))" "finite (dom (fcreds s))" using ok by (simp_all add: cred_ok_def)
  have ne: "new \<noteq> ?o" using new c(1) by auto
  have refnew: "refs s new = 0" using ok new by (auto simp: cred_ok_def ucred_ok_def dest!: spec [of _ new])
  have one: "cr_ref c = 1 \<longleftrightarrow> refs s ?o = 1" using c(2) by (metis unat_1 unsigned_word_eqI)
  define a where "a = (if cr_ref c = 1 then ?o else new)"
  define U where "U = (if cr_ref c = 1 then ucreds s else (ucreds s)(?o \<mapsto> c\<lparr>cr_ref := cr_ref c - 1\<rparr>, new \<mapsto> c\<lparr>cr_ref := 1\<rparr>))"
  have cp: "crcopy new ?o s = Some (a, s\<lparr>ucreds := U\<rparr>)"
    using c(1) crcopy_shared [OF c(1) _ new] ref_one [OF c(2)] one by (auto simp: crcopy_def a_def U_def)
  have Ua: "U a = Some (c\<lparr>cr_ref := 1\<rparr>)" using c(1) by (auto simp: U_def a_def)
  let ?s3 = "s\<lparr>ucreds := U(a \<mapsto> fc (c\<lparr>cr_ref := 1\<rparr>))\<rparr>"
  let ?s = "upd_pcred p (fp a) ?s3"
  have up: "upd_ucred a fc (s\<lparr>ucreds := U\<rparr>) = Some ?s3" using Ua by (simp add: upd_ucred_def)
  have cof: "cred_of ?s = (cred_of s)(p := Some a)" using pc fp by (auto simp: cred_of_def upd_pcred_def)
  have rf: "refs ?s b + (if ?o = b then 1 else 0) = refs s b + (if a = b then 1 else 0)" for b
    using cnt_upd [OF fin(1), of p "Some a" b] co cof by (simp add: refs_def upd_pcred_def)
  have "ucred_ok (refs ?s b) (ucreds ?s b)" for b
  proof -
    have okb: "ucred_ok (refs s b) (ucreds s b)" using ok by (simp add: cred_ok_def)
    consider "b = a" | "b \<noteq> a" "b = ?o" | "b \<noteq> a" "b \<noteq> ?o" by blast
    then show ?thesis
    proof cases
      case 1
      have "refs ?s a = 1" using rf [of a] refnew one ne by (auto simp: a_def split: if_splits)
      then show ?thesis using 1 fc [of "c\<lparr>cr_ref := 1\<rparr>"] c(3,4) by (simp add: ucred_ok_def upd_pcred_def)
    next
      case 2
      then have "cr_ref c \<noteq> 1" "U ?o = Some (c\<lparr>cr_ref := cr_ref c - 1\<rparr>)" using ne by (auto simp: a_def U_def split: if_splits)
      moreover have "refs ?s ?o = refs s ?o - 1" using rf [of ?o] 2 by simp
      ultimately show ?thesis using 2 c(3,4) ref_dec [OF c(2) pos] one pos by (simp add: ucred_ok_def upd_pcred_def)
    next
      case 3
      then show ?thesis using rf [of b] okb by (auto simp: upd_pcred_def U_def a_def split: if_splits)
    qed
  qed
  then have oks: "cred_ok ?s" using ok by (simp add: cred_ok_def) (simp add: upd_pcred_def)
  have nota: "b \<noteq> a" if h: "cred_of s q = Some b \<and> q \<noteq> p \<or> fcreds s f = Some b" for b q f
  proof
    assume b: "b = a"
    show False
    proof (cases "cr_ref c = 1")
      case True
      then show False using two_refs [OF ok co, of q f] h b one by (simp add: a_def)
    next
      case False
      then show False using cred_held [OF ok, of q a f] h b new by (metis a_def option.distinct(1))
    qed
  qed
  have keep: "map_option (\<lambda>c. c\<lparr>cr_ref := 0\<rparr>) (ucreds ?s b) = map_option (\<lambda>c. c\<lparr>cr_ref := 0\<rparr>) (ucreds s b)" if "b \<noteq> a" for b
    using that c(1) by (auto simp: upd_pcred_def U_def a_def)
  have "view ?s q = view s q" if q: "q \<noteq> p" for q
  proof (cases "pcreds s q")
    case (Some qc)
    then have "pc_ucred qc \<noteq> a" using nota [of q "pc_ucred qc"] q by (simp add: cred_of_def)
    from keep [OF this] show ?thesis using Some q by (cases "ucreds ?s (pc_ucred qc)"; cases "ucreds s (pc_ucred qc)") (auto simp: view_def upd_pcred_def)
  qed (use q in \<open>simp add: view_def upd_pcred_def\<close>)
  moreover have "fview ?s f = fview s f" for f
  proof (cases "fcreds s f")
    case (Some b)
    then have "b \<noteq> a" using nota [of p b f] by simp
    from keep [OF this] show ?thesis using Some by (simp add: fview_def upd_pcred_def)
  qed (simp add: fview_def upd_pcred_def)
  ultimately have "others_same p s ?s" by (simp add: others_same_def) (simp add: upd_pcred_def)
  then show thesis by (intro that [OF cp up _ _ oks _ c(1)]) (simp_all add: upd_pcred_def)
qed

section \<open>The calls keep the counts\<close>

text \<open>The credentials that a process has.\<close>

lemma cred_ex:
  assumes "cred_ok s" "pcreds s p = Some pc"
  obtains c where "ucreds s (pc_ucred pc) = Some c" "length (cr_groups c) = NGROUPS" "cr_ngroups c \<le> NGROUPS"
  using cred_held [OF assms(1), of p "pc_ucred pc"] assms(2) by (auto simp: cred_of_def)

lemma asu_keeps:
  assumes "cred_ok s"
  shows "cred_ok (upd_pcred p (\<lambda>pc. pc\<lparr>p_asu := True\<rparr>) s)" "others_same p s (upd_pcred p (\<lambda>pc. pc\<lparr>p_asu := True\<rparr>) s)"
proof -
  let ?s = "upd_pcred p (\<lambda>pc. pc\<lparr>p_asu := True\<rparr>) s"
  have "cred_of ?s = cred_of s" by (auto simp: cred_of_def upd_pcred_def fun_eq_iff map_option.compositionality comp_def)
  moreover have "fcreds ?s = fcreds s" by (simp add: upd_pcred_def)
  ultimately have "refs ?s b = refs s b" for b by (simp add: refs_def)
  then show "cred_ok ?s" using assms by (simp add: cred_ok_def) (simp add: upd_pcred_def)
  have u: "ucreds ?s = ucreds s" "fcreds ?s = fcreds s" "q \<noteq> p \<Longrightarrow> pcreds ?s q = pcreds s q" for q by (simp_all add: upd_pcred_def)
  then show "others_same p s ?s" by (simp add: others_same_def view_def fview_def split: option.split)
qed

lemma others_same_trans: "others_same p s s1 \<Longrightarrow> others_same p s1 s2 \<Longrightarrow> others_same p s s2"
  by (simp add: others_same_def)

lemma set_ids_ok:
  assumes ok: "cred_ok s" and pc: "pcreds s p = Some pc" and c: "ucreds s (pc_ucred pc) = Some c" and new: "ucreds s new = None"
    and fc: "\<And>c. length (cr_groups c) = NGROUPS \<Longrightarrow> cr_ngroups c \<le> NGROUPS \<Longrightarrow> length (cr_groups (fc c)) = NGROUPS \<and> cr_ngroups (fc c) \<le> NGROUPS"
    and fr: "\<And>c r. fc (c\<lparr>cr_ref := r\<rparr>) = (fc c)\<lparr>cr_ref := r\<rparr>" and fr': "\<And>c. cr_ref (fc c) = cr_ref c"
  shows "\<exists>e s'. set_ids new free p fc fp s = Some (e, s') \<and> cred_ok s' \<and> others_same p s s' \<and>
    (if free \<or> cr_uid c = 0 then e = None \<and> view s' p = Some ((fp (if free then pc else pc\<lparr>p_asu := True\<rparr>))\<lparr>pc_ucred := 0, p_sugid := True\<rparr>, (fc c)\<lparr>cr_ref := 0\<rparr>)
     else e = Some EPERM \<and> s' = s)"
proof (cases "free \<or> cr_uid c = 0")
  case False
  then have "set_ids new free p fc fp s = Some (Some EPERM, s)" using pc c by (simp add: set_ids_def suser_def)
  then show ?thesis using False ok by (auto simp: others_same_def)
next
  case True
  define s1 where "s1 = (if free then s else upd_pcred p (\<lambda>pc. pc\<lparr>p_asu := True\<rparr>) s)"
  define pc1 where "pc1 = (if free then pc else pc\<lparr>p_asu := True\<rparr>)"
  have first: "(if free then Some (None, s) else suser p s) = Some (None, s1)" using True pc c by (auto simp: suser_def s1_def)
  have s1: "cred_ok s1" "others_same p s s1" "pcreds s1 p = Some pc1" "ucreds s1 = ucreds s" "pc_ucred pc1 = pc_ucred pc"
    using ok asu_keeps [OF ok, of p] pc by (auto simp: s1_def pc1_def others_same_def upd_pcred_def)
  let ?fp = "\<lambda>a pc. (fp pc)\<lparr>pc_ucred := a, p_sugid := True\<rparr>"
  have new1: "ucreds s1 new = None" using s1(4) new by simp
  obtain a s2 s3 c' where a: "crcopy new (pc_ucred pc1) s1 = Some (a, s2)" "upd_ucred a fc s2 = Some s3" "pcreds s2 = pcreds s1" "pcreds s3 = pcreds s1"
    "cred_ok (upd_pcred p (?fp a) s3)" "others_same p s1 (upd_pcred p (?fp a) s3)" "ucreds s1 (pc_ucred pc1) = Some c'"
    "ucreds (upd_pcred p (?fp a) s3) a = Some (fc (c'\<lparr>cr_ref := 1\<rparr>))"
    by (rule private_copy [OF s1(1,3) new1, of fc ?fp]) (use fc fr' in auto)
  have c': "c' = c" using a(7) s1(4,5) c by simp
  have "set_ids new free p fc fp s = Some (None, upd_pcred p (?fp a) s3)"
    unfolding set_ids_def first using s1(3) a(1,2) by simp
  moreover have "view (upd_pcred p (?fp a) s3) p = Some ((fp pc1)\<lparr>pc_ucred := 0, p_sugid := True\<rparr>, (fc c)\<lparr>cr_ref := 0\<rparr>)"
    using a(4,8) s1(3) fr c' by (simp add: view_def upd_pcred_def)
  ultimately show ?thesis using True a(5) others_same_trans [OF s1(2) a(6)] by (auto simp: pc1_def)
qed

text \<open>The user and group identities that a process has or can return to.\<close>

definition uids :: "credsys \<Rightarrow> nat \<Rightarrow> u32 set" where
  "uids s p = (case view s p of None \<Rightarrow> {} | Some (pc, c) \<Rightarrow> {p_ruid pc, p_svuid pc, cr_uid c})"

definition gids :: "credsys \<Rightarrow> nat \<Rightarrow> u32 set" where
  "gids s p = (case view s p of None \<Rightarrow> {} | Some (pc, c) \<Rightarrow> {p_rgid pc, p_svgid pc, cr_groups c ! 0})"

definition in_groups :: "credsys \<Rightarrow> nat \<Rightarrow> u32 \<Rightarrow> bool" where
  "in_groups s p g = (case view s p of None \<Rightarrow> False | Some (pc, c) \<Rightarrow> groupmember g c)"

text \<open>What every identity call of a process does: it returns, keeps the counts, affects nobody else, and gives an ordinary process no new identity.\<close>

definition id_call :: "nat \<Rightarrow> credsys \<Rightarrow> (errno option \<times> credsys) option \<Rightarrow> bool" where
  "id_call p s r \<longleftrightarrow> (\<exists>e s'. r = Some (e, s') \<and> cred_ok s' \<and> others_same p s s' \<and>
     (0 \<notin> uids s p \<longrightarrow> uids s' p \<subseteq> uids s p \<and> gids s' p \<subseteq> gids s p \<and> (\<forall>g. in_groups s' p g \<longrightarrow> in_groups s p g \<or> g \<in> gids s p)))"

lemma id_call_none: "cred_ok s \<Longrightarrow> id_call p s (Some (e, s))"
  by (simp add: id_call_def others_same_def)

lemma ids_of:
  assumes "pcreds s p = Some pc" "ucreds s (pc_ucred pc) = Some c"
  shows "uids s p = {p_ruid pc, p_svuid pc, cr_uid c}" "gids s p = {p_rgid pc, p_svgid pc, cr_groups c ! 0}" "in_groups s p g = groupmember g c"
  using assms by (simp_all add: uids_def gids_def in_groups_def view_def groupmember_def)

lemma set_ids_call:
  assumes "cred_ok s" "pcreds s p = Some pc" "ucreds s (pc_ucred pc) = Some c" "ucreds s new = None"
    "\<And>c. length (cr_groups c) = NGROUPS \<Longrightarrow> cr_ngroups c \<le> NGROUPS \<Longrightarrow> length (cr_groups (fc c)) = NGROUPS \<and> cr_ngroups (fc c) \<le> NGROUPS"
    "\<And>c r. fc (c\<lparr>cr_ref := r\<rparr>) = (fc c)\<lparr>cr_ref := r\<rparr>" "\<And>c. cr_ref (fc c) = cr_ref c"
    "free \<Longrightarrow> {p_ruid (fp pc), p_svuid (fp pc), cr_uid (fc c)} \<subseteq> uids s p \<and> {p_rgid (fp pc), p_svgid (fp pc), cr_groups (fc c) ! 0} \<subseteq> gids s p \<and>
       (\<forall>g. groupmember g (fc c) \<longrightarrow> groupmember g c \<or> g \<in> gids s p)"
  shows "id_call p s (set_ids new free p fc fp s)"
proof -
  obtain e s' where s': "set_ids new free p fc fp s = Some (e, s')" "cred_ok s'" "others_same p s s'"
    "if free \<or> cr_uid c = 0 then e = None \<and> view s' p = Some ((fp (if free then pc else pc\<lparr>p_asu := True\<rparr>))\<lparr>pc_ucred := 0, p_sugid := True\<rparr>, (fc c)\<lparr>cr_ref := 0\<rparr>)
     else e = Some EPERM \<and> s' = s" using set_ids_ok [OF assms(1-7), of free fp] by blast
  note i = ids_of [OF assms(2,3)]
  have "uids s' p \<subseteq> uids s p \<and> gids s' p \<subseteq> gids s p \<and> (\<forall>g. in_groups s' p g \<longrightarrow> in_groups s p g \<or> g \<in> gids s p)" if "0 \<notin> uids s p"
  proof (cases free)
    case True
    then have "view s' p = Some ((fp pc)\<lparr>pc_ucred := 0, p_sugid := True\<rparr>, (fc c)\<lparr>cr_ref := 0\<rparr>)" using s'(4) by simp
    then have "uids s' p = {p_ruid (fp pc), p_svuid (fp pc), cr_uid (fc c)}" "gids s' p = {p_rgid (fp pc), p_svgid (fp pc), cr_groups (fc c) ! 0}"
      "in_groups s' p g = groupmember g (fc c)" for g by (simp_all add: uids_def gids_def in_groups_def groupmember_def)
    then show ?thesis using assms(8) [OF True] i(3) by simp
  next
    case False
    then show ?thesis using s'(4) that i(1) by auto
  qed
  then show ?thesis using s' by (simp add: id_call_def)
qed

lemma member_first: "groupmember g (c\<lparr>cr_groups := (cr_groups c)[0 := x]\<rparr>) \<Longrightarrow> groupmember g c \<or> g = x"
  using set_update_subset_insert [of "take (cr_ngroups c) (cr_groups c)" 0 x] by (auto simp: groupmember_def take_update_swap)

lemma set_calls_ok:
  assumes "cred_ok s" "pcreds s p = Some pc" "ucreds s new = None"
  shows setuid_ok: "id_call p s (setuid new p uid s)"
    and seteuid_ok: "id_call p s (seteuid new p uid s)"
    and setgid_ok: "id_call p s (setgid new p gid s)"
    and setegid_ok: "id_call p s (setegid new p gid s)"
proof -
  obtain c where c: "ucreds s (pc_ucred pc) = Some c" "length (cr_groups c) = NGROUPS" "cr_ngroups c \<le> NGROUPS" using cred_ex [OF assms(1,2)] by blast
  note i = ids_of [OF assms(2) c(1)] and e = on_pcred_def assms(2) option.case
  show "id_call p s (setuid new p uid s)" unfolding setuid_def e
    by (rule set_ids_call [OF assms(1,2) c(1) assms(3)]) (use i c in \<open>auto simp: groupmember_def\<close>)
  show "id_call p s (seteuid new p uid s)" unfolding seteuid_def e
    by (rule set_ids_call [OF assms(1,2) c(1) assms(3)]) (use i c in \<open>auto simp: groupmember_def\<close>)
  show "id_call p s (setgid new p gid s)" unfolding setgid_def e
    by (rule set_ids_call [OF assms(1,2) c(1) assms(3)]) (use i c in \<open>auto dest!: member_first\<close>)
  show "id_call p s (setegid new p gid s)" unfolding setegid_def e
    by (rule set_ids_call [OF assms(1,2) c(1) assms(3)]) (use i c in \<open>auto dest!: member_first\<close>)
qed

lemma upd_ucred_comp: "upd_ucred a (\<lambda>c. f2 (f1 c)) s = (case upd_ucred a f1 s of None \<Rightarrow> None | Some s1 \<Rightarrow> upd_ucred a f2 s1)"
  by (simp add: upd_ucred_def split: option.split)

lemma setgroups_ok:
  assumes "cred_ok s" "pcreds s p = Some pc" "ucreds s new = None"
  shows "id_call p s (setgroups new p ngrp got err s)"
proof -
  obtain c where c: "ucreds s (pc_ucred pc) = Some c" using cred_ex [OF assms(1,2)] by blast
  note i = ids_of(1) [OF assms(2) c]
  show ?thesis
  proof (cases "cr_uid c = 0")
    case False
    then have "setgroups new p ngrp got err s = Some (Some EPERM, s)" using assms(2) c by (simp add: setgroups_def suser_def)
    then show ?thesis using id_call_none [OF assms(1)] by simp
  next
    case root: True
    let ?s1 = "upd_pcred p (\<lambda>pc. pc\<lparr>p_asu := True\<rparr>) s" and ?pc = "pc\<lparr>p_asu := True\<rparr>"
    have su: "suser p s = Some (None, ?s1)" using assms(2) c root by (simp add: suser_def)
    have s1: "cred_ok ?s1" "others_same p s ?s1" "pcreds ?s1 p = Some ?pc" "ucreds ?s1 new = None"
      using asu_keeps [OF assms(1), of p] assms(2,3) by (simp_all add: upd_pcred_def)
    have ret: "id_call p s r" if "r = Some (e, s')" "cred_ok s'" "others_same p ?s1 s'" for r e s'
      using that others_same_trans [OF s1(2) that(3)] i root by (auto simp: id_call_def)
    show ?thesis
    proof (cases "ngrp < 1 \<or> NGROUPS < ngrp")
      case True
      then have "setgroups new p ngrp got err s = Some (Some EINVAL, ?s1)" using su by (simp add: setgroups_def)
      then show ?thesis using ret s1(1) by (simp add: others_same_def)
    next
      case False
      let ?f1 = "\<lambda>c. c\<lparr>cr_groups := take ngrp got @ drop (length (take ngrp got)) (cr_groups c)\<rparr>" and ?f2 = "\<lambda>c. c\<lparr>cr_ngroups := ngrp\<rparr>"
      have e: "setgroups new p ngrp got err s = (case crcopy new (pc_ucred ?pc) ?s1 of
              None \<Rightarrow> None
            | Some (a, s2) \<Rightarrow>
                (case upd_ucred a ?f1 s2 of
                   None \<Rightarrow> None
                 | Some s3 \<Rightarrow>
                     if err \<noteq> None then Some (err, upd_pcred p (\<lambda>pc. pc\<lparr>pc_ucred := a\<rparr>) s3)
                     else (case upd_ucred a ?f2 s3 of
                          None \<Rightarrow> None
                        | Some s4 \<Rightarrow> Some (None, upd_pcred p (\<lambda>pc. pc\<lparr>pc_ucred := a, p_sugid := True\<rparr>) s4))))"
        unfolding setgroups_def su option.case prod.case if_not_P [OF False] on_pcred_def s1(3) ..
      show ?thesis
      proof (cases "err = None")
        case True
        let ?fp = "\<lambda>a pc. pc\<lparr>pc_ucred := a, p_sugid := True\<rparr>"
        obtain a s2 s3 where a: "crcopy new (pc_ucred ?pc) ?s1 = Some (a, s2)" "upd_ucred a (\<lambda>c. ?f2 (?f1 c)) s2 = Some s3"
          "cred_ok (upd_pcred p (?fp a) s3)" "others_same p ?s1 (upd_pcred p (?fp a) s3)"
          by (rule private_copy [OF s1(1,3,4), of "\<lambda>c. ?f2 (?f1 c)" ?fp]) (use False in auto)
        then have "setgroups new p ngrp got err s = Some (None, upd_pcred p (?fp a) s3)"
          unfolding e upd_ucred_comp [of a ?f2 ?f1] using True by (auto split: option.splits)
        then show ?thesis using ret a(3,4) by blast
      next
        case err: False
        let ?fp = "\<lambda>a pc. pc\<lparr>pc_ucred := a\<rparr>"
        obtain a s2 s3 where a: "crcopy new (pc_ucred ?pc) ?s1 = Some (a, s2)" "upd_ucred a ?f1 s2 = Some s3"
          "cred_ok (upd_pcred p (?fp a) s3)" "others_same p ?s1 (upd_pcred p (?fp a) s3)"
          by (rule private_copy [OF s1(1,3,4), of ?f1 ?fp]) (use False in auto)
        then have "setgroups new p ngrp got err s = Some (err, upd_pcred p (?fp a) s3)" unfolding e using err by simp
        then show ?thesis using ret a(3,4) by blast
      qed
    qed
  qed
qed

lemma setre_ok:
  assumes "cred_ok s" "pcreds s p = Some pc" "ucreds s new = None"
  shows setreuid_ok: "id_call p s (setreuid new p ruid euid s)" and setregid_ok: "id_call p s (setregid new p rgid egid s)"
  using set_calls_ok [OF assms] id_call_none [OF assms(1)] assms(2) by (simp_all add: setreuid_def setregid_def on_pcred_def)

lemma refs_split:
  assumes "cred_ok s"
  shows "refs (s\<lparr>pcreds := (pcreds s)(p := x)\<rparr>) b + (if cred_of s p = Some b then 1 else 0) = refs s b + (if map_option pc_ucred x = Some b then 1 else 0)"
    "refs (s\<lparr>fcreds := (fcreds s)(f := y)\<rparr>) b + (if fcreds s f = Some b then 1 else 0) = refs s b + (if y = Some b then 1 else 0)"
proof -
  have f: "finite (dom (cred_of s))" "finite (dom (fcreds s))" using assms by (simp_all add: cred_ok_def)
  show "refs (s\<lparr>pcreds := (pcreds s)(p := x)\<rparr>) b + (if cred_of s p = Some b then 1 else 0) = refs s b + (if map_option pc_ucred x = Some b then 1 else 0)"
    using cnt_upd [OF f(1), of p "map_option pc_ucred x" b] by (simp add: refs_def cred_of_upd)
  show "refs (s\<lparr>fcreds := (fcreds s)(f := y)\<rparr>) b + (if fcreds s f = Some b then 1 else 0) = refs s b + (if y = Some b then 1 else 0)"
    using cnt_upd [OF f(2), of f y b] by (simp add: refs_def cred_of_def)
qed

text \<open>The views do not depend on the counts.\<close>

definition bare :: "credsys \<Rightarrow> nat \<Rightarrow> ucred option" where
  "bare s a = map_option (\<lambda>c. c\<lparr>cr_ref := 0\<rparr>) (ucreds s a)"

lemma view_bare: "view s p = (case pcreds s p of None \<Rightarrow> None | Some pc \<Rightarrow> map_option (\<lambda>c. (pc\<lparr>pc_ucred := 0\<rparr>, c)) (bare s (pc_ucred pc)))"
  by (simp add: view_def bare_def option.map_comp comp_def split: option.split)

lemma view_cong: "pcreds s' q = pcreds s q \<Longrightarrow> (\<And>a. cred_of s q = Some a \<Longrightarrow> bare s' a = bare s a) \<Longrightarrow> view s' q = view s q"
  by (auto simp: view_bare cred_of_def split: option.split)

lemma fork_cred_ok:
  assumes "cred_ok s" "holders s < 65535" "pcreds s p1 = Some pc" "pcreds s p2 = None"
  shows "\<exists>s'. fork_cred p1 p2 s = Some s' \<and> cred_ok s' \<and> holders s' = Suc (holders s) \<and> (\<forall>q. q \<noteq> p2 \<longrightarrow> view s' q = view s q) \<and>
    uids s' p2 = uids s p1 \<and> dom (pcreds s') = insert p2 (dom (pcreds s))"
proof -
  let ?P = "(pcreds s)(p2 \<mapsto> pc\<lparr>p_sugid := False, p_asu := False\<rparr>)" and ?a = "pc_ucred pc"
  have fin: "finite (dom (pcreds s))" "finite (dom (fcreds s))" using assms(1) by (simp_all add: cred_ok_def)
  have c1: "cred_of s p1 = Some ?a" "cred_of s p2 = None" using assms(3,4) by (simp_all add: cred_of_def)
  have r: "refs (s\<lparr>pcreds := ?P, fcreds := fcreds s\<rparr>) b = (if b = ?a then Suc (refs s b) else refs s b)" for b
    using refs_split(1) [OF assms(1), of p2 "Some (pc\<lparr>p_sugid := False, p_asu := False\<rparr>)" b] c1(2) by simp
  obtain s' c where s': "crhold ?a (s\<lparr>pcreds := ?P, fcreds := fcreds s\<rparr>) = Some s'" "cred_ok s'" "pcreds s' = ?P" "fcreds s' = fcreds s" "ucreds s ?a = Some c"
    "ucreds s' = (ucreds s)(?a \<mapsto> c\<lparr>cr_ref := cr_ref c + 1\<rparr>)"
    using crhold_ok [OF assms(1,2) c1(1) refl _ _ r] fin by fastforce
  have "s\<lparr>pcreds := ?P, fcreds := fcreds s\<rparr> = s\<lparr>pcreds := ?P\<rparr>" by simp
  then have "fork_cred p1 p2 s = Some s'" using assms(3) s'(1) by (simp add: fork_cred_def)
  moreover have b: "bare s' a = bare s a" for a using s'(5,6) by (simp add: bare_def)
  then have "view s' q = view s q" if "q \<noteq> p2" for q using that s'(3) by (intro view_cong) simp_all
  moreover have "uids s' p2 = uids s p1" using assms(3) s'(3,5) b by (simp add: uids_def view_bare) (simp add: bare_def)
  moreover have "holders s' = Suc (holders s)" using s'(3,4) fin assms(4) by (simp add: holders_def card_insert_if domIff)
  ultimately show ?thesis using s'(2,3) by auto
qed

lemma falloc_cred_ok:
  assumes "cred_ok s" "holders s < 65535" "pcreds s p = Some pc" "fcreds s f = None"
  shows "\<exists>s'. falloc_cred p f s = Some s' \<and> cred_ok s' \<and> holders s' = Suc (holders s) \<and> (\<forall>q. view s' q = view s q) \<and> pcreds s' = pcreds s"
proof -
  let ?a = "pc_ucred pc" and ?F = "(fcreds s)(f \<mapsto> pc_ucred pc)"
  have fin: "finite (dom (pcreds s))" "finite (dom (fcreds s))" using assms(1) by (simp_all add: cred_ok_def)
  have c1: "cred_of s p = Some ?a" using assms(3) by (simp add: cred_of_def)
  have r: "refs (s\<lparr>pcreds := pcreds s, fcreds := ?F\<rparr>) b = (if b = ?a then Suc (refs s b) else refs s b)" for b
    using refs_split(2) [OF assms(1), of f "Some ?a" b] assms(4) by simp
  obtain s' c where s': "crhold ?a (s\<lparr>pcreds := pcreds s, fcreds := ?F\<rparr>) = Some s'" "cred_ok s'" "pcreds s' = pcreds s" "fcreds s' = ?F" "ucreds s ?a = Some c"
    "ucreds s' = (ucreds s)(?a \<mapsto> c\<lparr>cr_ref := cr_ref c + 1\<rparr>)"
    using crhold_ok [OF assms(1,2) c1 refl _ _ r] fin by fastforce
  have "falloc_cred p f s = Some s'" using assms(3) s'(1) by (simp add: falloc_cred_def)
  moreover have "bare s' a = bare s a" for a using s'(5,6) by (simp add: bare_def)
  then have "view s' q = view s q" for q using s'(3) by (intro view_cong) simp_all
  moreover have "holders s' = Suc (holders s)" using s'(3,4) fin assms(4) by (simp add: holders_def card_insert_if domIff)
  ultimately show ?thesis using s'(2,3) by auto
qed

text \<open>Giving up a reference: the structure is kept for every other holder.\<close>

lemma bare_freed:
  assumes "cred_ok s" "ucreds s a = Some c" "ucreds s' = (ucreds s)(a := (if refs s a = 1 then None else Some (c\<lparr>cr_ref := cr_ref c - 1\<rparr>)))"
    "cred_of s q = Some b" "a = b \<Longrightarrow> 2 \<le> refs s b"
  shows "bare s' b = bare s b"
  using assms by (auto simp: bare_def)

lemma wait_cred_ok:
  assumes "cred_ok s" "pcreds s p = Some pc"
  shows "\<exists>s'. wait_cred p s = Some s' \<and> cred_ok s' \<and> holders s' \<le> holders s \<and> (\<forall>q. q \<noteq> p \<longrightarrow> view s' q = view s q) \<and> dom (pcreds s') = dom (pcreds s) - {p}"
proof -
  let ?P = "(pcreds s)(p := None)" and ?a = "pc_ucred pc"
  have fin: "finite (dom (pcreds s))" "finite (dom (fcreds s))" using assms(1) by (simp_all add: cred_ok_def)
  have c1: "cred_of s p = Some ?a" using assms(2) by (simp add: cred_of_def)
  have r: "refs (s\<lparr>pcreds := ?P, fcreds := fcreds s\<rparr>) b = (if b = ?a then refs s b - 1 else refs s b)" for b
    using refs_split(1) [OF assms(1), of p None b] c1 by (auto split: if_splits)
  obtain s1 c where s1: "crfree ?a s = Some s1" "cred_ok (s1\<lparr>pcreds := ?P, fcreds := fcreds s\<rparr>)" "pcreds s1 = pcreds s" "fcreds s1 = fcreds s" "ucreds s ?a = Some c"
    "ucreds s1 = (ucreds s)(?a := (if refs s ?a = 1 then None else Some (c\<lparr>cr_ref := cr_ref c - 1\<rparr>)))"
    using crfree_ok [OF assms(1) disjI1 [OF c1] _ _ r] fin by fastforce
  let ?s = "s1\<lparr>pcreds := ?P\<rparr>"
  have eq: "s1\<lparr>pcreds := ?P, fcreds := fcreds s\<rparr> = ?s" using s1(4) by simp
  have "view ?s q = view s q" if q: "q \<noteq> p" for q
  proof (rule view_cong)
    fix b
    assume b: "cred_of s q = Some b"
    have "?a = b \<Longrightarrow> 2 \<le> refs s b" using two_refs [OF assms(1) c1, of q] q b by auto
    then show "bare ?s b = bare s b" using bare_freed [OF assms(1) s1(5) _ b, of ?s] s1(6) by simp
  qed (use q in simp)
  moreover have "wait_cred p s = Some ?s" using assms(2) s1(1,3) by (simp add: wait_cred_def)
  moreover have "holders ?s \<le> holders s" using fin s1(4) by (simp add: holders_def card_mono)
  ultimately show ?thesis using s1(2) unfolding eq by auto
qed

lemma ffree_cred_ok:
  assumes "cred_ok s" "fcreds s f = Some a"
  shows "\<exists>s'. ffree_cred f s = Some s' \<and> cred_ok s' \<and> holders s' \<le> holders s \<and> (\<forall>q. view s' q = view s q) \<and> pcreds s' = pcreds s"
proof -
  let ?F = "(fcreds s)(f := None)"
  have fin: "finite (dom (pcreds s))" "finite (dom (fcreds s))" using assms(1) by (simp_all add: cred_ok_def)
  have r: "refs (s\<lparr>pcreds := pcreds s, fcreds := ?F\<rparr>) b = (if b = a then refs s b - 1 else refs s b)" for b
    using refs_split(2) [OF assms(1), of f None b] assms(2) by (auto split: if_splits)
  obtain s1 c where s1: "crfree a s = Some s1" "cred_ok (s1\<lparr>pcreds := pcreds s, fcreds := ?F\<rparr>)" "pcreds s1 = pcreds s" "fcreds s1 = fcreds s" "ucreds s a = Some c"
    "ucreds s1 = (ucreds s)(a := (if refs s a = 1 then None else Some (c\<lparr>cr_ref := cr_ref c - 1\<rparr>)))"
    using crfree_ok [OF assms(1) disjI2 [OF assms(2)] _ _ r] fin by fastforce
  let ?s = "s1\<lparr>fcreds := ?F\<rparr>"
  have eq: "s1\<lparr>pcreds := pcreds s, fcreds := ?F\<rparr> = ?s" using s1(3) by simp
  have "view ?s q = view s q" for q
  proof (rule view_cong)
    fix b
    assume b: "cred_of s q = Some b"
    then show "bare ?s b = bare s b" using bare_freed [OF assms(1) s1(5), of ?s q b] s1(6) two_refs [OF assms(1) b, of q f] assms(2) by simp
  qed (use s1(3) in simp)
  moreover have "ffree_cred f s = Some ?s" using assms(2) s1(1,4) by (simp add: ffree_cred_def)
  moreover have "holders ?s \<le> holders s" using fin s1(3) by (simp add: holders_def card_mono)
  ultimately show ?thesis using s1(2,3) unfolding eq by auto
qed

section \<open>Sequences of calls\<close>

text \<open>Calls of processes that exist, with new structures at unused addresses; other calls do nothing here.\<close>

datatype cred_call =
    Cr_setuid nat nat u32 | Cr_seteuid nat nat u32 | Cr_setgid nat nat u32 | Cr_setegid nat nat u32
  | Cr_setgroups nat nat nat "u32 list" "errno option" | Cr_setreuid nat nat u32 u32 | Cr_setregid nat nat u32 u32
  | Cr_fork nat nat | Cr_wait nat | Cr_falloc nat nat | Cr_ffree nat

definition by_proc :: "nat \<Rightarrow> nat \<Rightarrow> (errno option \<times> credsys) option \<Rightarrow> credsys \<Rightarrow> credsys option" where
  "by_proc new p r s = (if pcreds s p \<noteq> None \<and> ucreds s new = None then map_option snd r else Some s)"

fun cred_do :: "cred_call \<Rightarrow> credsys \<Rightarrow> credsys option" where
  "cred_do (Cr_setuid new p uid) s = by_proc new p (setuid new p uid s) s"
| "cred_do (Cr_seteuid new p uid) s = by_proc new p (seteuid new p uid s) s"
| "cred_do (Cr_setgid new p gid) s = by_proc new p (setgid new p gid s) s"
| "cred_do (Cr_setegid new p gid) s = by_proc new p (setegid new p gid s) s"
| "cred_do (Cr_setgroups new p ngrp got err) s = by_proc new p (setgroups new p ngrp got err s) s"
| "cred_do (Cr_setreuid new p ruid euid) s = by_proc new p (setreuid new p ruid euid s) s"
| "cred_do (Cr_setregid new p rgid egid) s = by_proc new p (setregid new p rgid egid s) s"
| "cred_do (Cr_fork p1 p2) s = (if pcreds s p1 \<noteq> None \<and> pcreds s p2 = None then fork_cred p1 p2 s else Some s)"
| "cred_do (Cr_wait p) s = (if pcreds s p \<noteq> None then wait_cred p s else Some s)"
| "cred_do (Cr_falloc p f) s = (if pcreds s p \<noteq> None \<and> fcreds s f = None then falloc_cred p f s else Some s)"
| "cred_do (Cr_ffree f) s = (if fcreds s f \<noteq> None then ffree_cred f s else Some s)"

definition cred_step :: "cred_call \<Rightarrow> credsys \<Rightarrow> unit + credsys" where
  "cred_step c s = (case cred_do c s of None \<Rightarrow> Inl () | Some s' \<Rightarrow> Inr s')"

text \<open>The invariant with room for \<open>n\<close> more holders; the counts are 16 bits wide.\<close>

definition cred_room :: "nat \<Rightarrow> credsys \<Rightarrow> bool" where
  "cred_room n s \<longleftrightarrow> cred_ok s \<and> holders s + n < 65536"

text \<open>A process that stays, with no more identities than before unless it has one of the super-user.\<close>

definition no_gain :: "nat \<Rightarrow> credsys \<Rightarrow> credsys \<Rightarrow> bool" where
  "no_gain p s s' \<longleftrightarrow> p \<in> dom (pcreds s) \<longrightarrow> p \<in> dom (pcreds s') \<and>
     (0 \<notin> uids s p \<longrightarrow> uids s' p \<subseteq> uids s p \<and> gids s' p \<subseteq> gids s p \<and> (\<forall>g. in_groups s' p g \<longrightarrow> in_groups s p g \<or> g \<in> gids s p))"

lemma no_gain_view: "view s' p = view s p \<Longrightarrow> (p \<in> dom (pcreds s) \<Longrightarrow> p \<in> dom (pcreds s')) \<Longrightarrow> no_gain p s s'"
  by (simp add: no_gain_def uids_def gids_def in_groups_def)

lemma by_proc_ok:
  assumes "cred_room (Suc n) s" "\<And>pc. pcreds s p = Some pc \<Longrightarrow> ucreds s new = None \<Longrightarrow> id_call p s r"
  shows "\<exists>s'. by_proc new p r s = Some s' \<and> cred_room n s' \<and> (\<forall>q. no_gain q s s')"
proof (cases "pcreds s p \<noteq> None \<and> ucreds s new = None")
  case True
  then obtain e s' where s': "r = Some (e, s')" "cred_ok s'" "others_same p s s'"
    "0 \<notin> uids s p \<longrightarrow> uids s' p \<subseteq> uids s p \<and> gids s' p \<subseteq> gids s p \<and> (\<forall>g. in_groups s' p g \<longrightarrow> in_groups s p g \<or> g \<in> gids s p)"
    using assms(2) by (auto simp: id_call_def)
  then have "no_gain q s s'" for q using no_gain_view [of s' q s] by (cases "q = p") (auto simp: others_same_def no_gain_def)
  moreover have "holders s' = holders s" using s'(3) by (simp add: holders_def others_same_def)
  ultimately show ?thesis using True s'(1,2) assms(1) by (auto simp: by_proc_def cred_room_def)
qed (use assms(1) in \<open>auto simp: by_proc_def cred_room_def no_gain_def\<close>)

lemma cred_do_ok:
  assumes "cred_room (Suc n) s"
  shows "\<exists>s'. cred_do c s = Some s' \<and> cred_room n s' \<and> (\<forall>q. c \<noteq> Cr_wait q \<longrightarrow> no_gain q s s')"
proof -
  have ok: "cred_ok s" "holders s < 65535" "cred_room n s" using assms by (simp_all add: cred_room_def)
  have same: "no_gain q s s" for q by (simp add: no_gain_def)
  note p = by_proc_ok [OF assms]
  show ?thesis
  proof (cases c)
    case (Cr_fork p1 p2)
    show ?thesis
    proof (cases "pcreds s p1 \<noteq> None \<and> pcreds s p2 = None")
      case True
      then obtain pc s' where s': "fork_cred p1 p2 s = Some s'" "cred_ok s'" "holders s' = Suc (holders s)" "\<forall>q. q \<noteq> p2 \<longrightarrow> view s' q = view s q"
        "dom (pcreds s') = insert p2 (dom (pcreds s))" using fork_cred_ok [OF ok(1,2)] by blast
      have "no_gain q s s'" for q using s'(4,5) True no_gain_view [of s' q s] by (cases "q = p2") (auto simp: no_gain_def)
      then show ?thesis using Cr_fork True s'(1-3) assms by (auto simp: cred_room_def)
    qed (use Cr_fork ok same in auto)
  next
    case (Cr_wait p)
    show ?thesis
    proof (cases "pcreds s p")
      case (Some pc)
      then obtain s' where s': "wait_cred p s = Some s'" "cred_ok s'" "holders s' \<le> holders s" "\<forall>q. q \<noteq> p \<longrightarrow> view s' q = view s q"
        "dom (pcreds s') = dom (pcreds s) - {p}" using wait_cred_ok [OF ok(1)] by blast
      have "no_gain q s s'" if "q \<noteq> p" for q using s'(4,5) that no_gain_view [of s' q s] by auto
      then show ?thesis using Cr_wait Some s'(1-3) assms by (auto simp: cred_room_def)
    qed (use Cr_wait ok same in auto)
  next
    case (Cr_falloc p f)
    show ?thesis
    proof (cases "pcreds s p \<noteq> None \<and> fcreds s f = None")
      case True
      then obtain s' where s': "falloc_cred p f s = Some s'" "cred_ok s'" "holders s' = Suc (holders s)" "\<forall>q. view s' q = view s q" "pcreds s' = pcreds s"
        using falloc_cred_ok [OF ok(1,2)] by blast
      then show ?thesis using Cr_falloc True no_gain_view assms by (auto simp: cred_room_def)
    qed (use Cr_falloc ok same in auto)
  next
    case (Cr_ffree f)
    show ?thesis
    proof (cases "fcreds s f")
      case (Some a)
      then obtain s' where s': "ffree_cred f s = Some s'" "cred_ok s'" "holders s' \<le> holders s" "\<forall>q. view s' q = view s q" "pcreds s' = pcreds s"
        using ffree_cred_ok [OF ok(1)] by blast
      then show ?thesis using Cr_ffree Some no_gain_view assms by (auto simp: cred_room_def)
    qed (use Cr_ffree ok same in auto)
  qed (use p setuid_ok [OF ok(1)] seteuid_ok [OF ok(1)] setgid_ok [OF ok(1)] setegid_ok [OF ok(1)] setgroups_ok [OF ok(1)] setreuid_ok [OF ok(1)] setregid_ok [OF ok(1)]
      in \<open>fastforce\<close>)+
qed

interpretation crc: safe_calls cred_step cred_room "\<lambda>_. True"
proof (unfold_locales, goal_cases)
  case (1 n s c)
  then show ?case using cred_do_ok [of n s c] by (auto simp: cred_step_def)
qed

section \<open>Properties\<close>

text \<open>
  Examples start with process 1 of the user 100, whose structure is shared with the open file 5, and process 2 of the super-user.
\<close>

definition pcred_v :: "nat \<Rightarrow> u32 \<Rightarrow> pcred" where
  "pcred_v a u = \<lparr>pc_ucred = a, p_ruid = u, p_svuid = u, p_rgid = u, p_svgid = u, p_sugid = False, p_asu = False\<rparr>"

definition ucred_v :: "u16 \<Rightarrow> u32 \<Rightarrow> ucred" where
  "ucred_v r u = \<lparr>cr_ref = r, cr_uid = u, cr_ngroups = 2, cr_groups = u # 7 # replicate 14 0\<rparr>"

definition cred_v :: credsys where
  "cred_v = \<lparr>ucreds = [10 \<mapsto> ucred_v 2 100, 20 \<mapsto> ucred_v 1 0], pcreds = [1 \<mapsto> pcred_v 10 100, 2 \<mapsto> pcred_v 20 0], fcreds = [5 \<mapsto> 10]\<rparr>"

lemma cred_v_ok: "cred_room 100 cred_v" "uids cred_v 1 = {100}" "pcreds cred_v 1 = Some (pcred_v 10 100)" "ucreds cred_v 30 = None"
proof -
  have "{x. cred_of cred_v x = Some a} = (if a = 10 then {1} else if a = 20 then {2} else {})" "{f. fcreds cred_v f = Some a} = (if a = 10 then {5} else {})" for a
    by (auto simp: cred_of_def cred_v_def pcred_v_def split: if_splits)
  then have r: "refs cred_v a = (if a = 10 then 2 else if a = 20 then 1 else 0)" for a by (simp add: refs_def cnt_def)
  have d: "dom (pcreds cred_v) = {1, 2}" "dom (fcreds cred_v) = {5}" by (auto simp: cred_v_def)
  have "ucred_ok (refs cred_v a) (ucreds cred_v a)" for a unfolding r by (simp add: ucred_ok_def cred_v_def ucred_v_def)
  then show "cred_room 100 cred_v" by (simp add: cred_room_def cred_ok_def holders_def d)
  show "uids cred_v 1 = {100}" "pcreds cred_v 1 = Some (pcred_v 10 100)" "ucreds cred_v 30 = None"
    by (simp_all add: uids_def view_def cred_v_def ucred_v_def pcred_v_def)
qed

text \<open>C37. In a sequence of identity calls, forks, waits, and allocations and releases of open files, such that the processes and open files at
  its start and the number of the calls are together below 65536 (so that no 16-bit count wraps), no freed structure is used, and afterwards
  the count of every structure is the number of processes and open files that refer to it; a structure that nobody refers to is freed.\<close>

theorem cred_counts_exact:
  assumes "cred_room (length cs) s"
  shows "\<exists>s'. run_calls cred_step cs s = Inr s' \<and>
    (\<forall>a. case ucreds s' a of None \<Rightarrow> refs s' a = 0 | Some c \<Rightarrow> unat (cr_ref c) = refs s' a \<and> 0 < refs s' a)"
proof -
  obtain s' where "run_calls cred_step cs s = Inr s'" "cred_ok s'" using crc.run_safe [of cs 0 s] assms by (auto simp: cred_room_def)
  moreover have "case ucreds s' a of None \<Rightarrow> refs s' a = 0 | Some c \<Rightarrow> unat (cr_ref c) = refs s' a \<and> 0 < refs s' a" for a
    using \<open>cred_ok s'\<close> by (cases "ucreds s' a") (auto simp: cred_ok_def ucred_ok_def dest!: spec [of _ a])
  ultimately show ?thesis by blast
qed

theorem cred_counts_exact_witness:
  "\<exists>s'. run_calls cred_step [Cr_fork 1 3, Cr_setuid 30 3 100, Cr_seteuid 31 2 5, Cr_ffree 5, Cr_wait 1] cred_v = Inr s' \<and>
    (\<forall>a. case ucreds s' a of None \<Rightarrow> refs s' a = 0 | Some c \<Rightarrow> unat (cr_ref c) = refs s' a \<and> 0 < refs s' a)"
  by (rule cred_counts_exact) (use cred_v_ok(1) in \<open>simp add: cred_room_def\<close>)

text \<open>C38. A call that sets identities returns, and changes what it sets for the calling process only: no other process and no open file sees
  another user, group or group list afterwards, although the structures are shared.\<close>

theorem set_ids_private:
  assumes "cred_ok s" "pcreds s p = Some pc" "ucreds s new = None"
    "r \<in> {setuid new p uid s, seteuid new p uid s, setgid new p gid s, setegid new p gid s, setgroups new p ngrp got err s,
      setreuid new p uid uid2 s, setregid new p gid gid2 s}"
  shows "\<exists>e s'. r = Some (e, s') \<and> (\<forall>q. q \<noteq> p \<longrightarrow> view s' q = view s q) \<and> (\<forall>f. fview s' f = fview s f)"
proof -
  have "id_call p s r" using assms(4) set_calls_ok [OF assms(1-3)] setgroups_ok [OF assms(1-3)] setre_ok [OF assms(1-3)] by auto
  then show ?thesis by (auto simp: id_call_def others_same_def)
qed

theorem set_ids_private_witness:
  "\<exists>e s'. setuid 30 1 100 cred_v = Some (e, s') \<and> (\<forall>q. q \<noteq> 1 \<longrightarrow> view s' q = view cred_v q) \<and> (\<forall>f. fview s' f = fview cred_v f)"
  by (rule set_ids_private [OF _ cred_v_ok(3,4), where uid = 100]) (use cred_v_ok(1) in \<open>simp_all add: cred_room_def\<close>)

text \<open>C2. A process that has the super-user neither as its real, nor its saved, nor its effective user gets no user or group identity that it did
  not have in a sequence of the seven identity calls, forks, waits, and allocations and releases of open files, made by it and other processes
  while it exists, as long as the processes and open files at the start and the number of the calls are together below 65536. (From there on
  the 16-bit count of a structure can wrap, and a structure that is freed while in use can come to hold another identity.)\<close>

theorem no_new_identities:
  assumes "cred_room (length cs) s" "p \<in> dom (pcreds s)" "0 \<notin> uids s p" "\<forall>c\<in>set cs. c \<noteq> Cr_wait p"
  shows "\<exists>s'. run_calls cred_step cs s = Inr s' \<and> p \<in> dom (pcreds s') \<and> uids s' p \<subseteq> uids s p \<and> gids s' p \<subseteq> gids s p \<and>
    (\<forall>g. in_groups s' p g \<longrightarrow> in_groups s p g \<or> g \<in> gids s p)"
  using assms
proof (induction cs arbitrary: s)
  case (Cons c cs)
  have "cred_room (Suc (length cs)) s" using Cons.prems(1) by simp
  from cred_do_ok [OF this, of c] obtain s1 where s1: "cred_do c s = Some s1" "cred_room (length cs) s1" "no_gain p s s1" using Cons.prems(4) by auto
  then have g: "p \<in> dom (pcreds s1)" "uids s1 p \<subseteq> uids s p" "gids s1 p \<subseteq> gids s p" "\<forall>g. in_groups s1 p g \<longrightarrow> in_groups s p g \<or> g \<in> gids s p"
    using Cons.prems(2,3) by (simp_all add: no_gain_def)
  have n: "0 \<notin> uids s1 p" "\<forall>c\<in>set cs. c \<noteq> Cr_wait p" using g(2) Cons.prems(3,4) by auto
  obtain s' where s': "run_calls cred_step cs s1 = Inr s'" "p \<in> dom (pcreds s')" "uids s' p \<subseteq> uids s1 p" "gids s' p \<subseteq> gids s1 p"
    "\<forall>g. in_groups s' p g \<longrightarrow> in_groups s1 p g \<or> g \<in> gids s1 p" using Cons.IH [OF s1(2) g(1) n] by blast
  have "cred_step c s = Inr s1" using s1(1) by (simp add: cred_step_def)
  then show ?case using s' g by (intro exI [of _ s']) auto
qed simp

theorem no_new_identities_witness:
  "\<exists>s'. run_calls cred_step [Cr_seteuid 30 1 0, Cr_setgid 31 1 0, Cr_fork 1 3, Cr_setuid 32 2 100] cred_v = Inr s' \<and> uids s' 1 \<subseteq> {100}"
proof -
  let ?cs = "[Cr_seteuid 30 1 0, Cr_setgid 31 1 0, Cr_fork 1 3, Cr_setuid 32 2 100]"
  have "cred_room (length ?cs) cred_v" "1 \<in> dom (pcreds cred_v)" "0 \<notin> uids cred_v 1" "\<forall>c\<in>set ?cs. c \<noteq> Cr_wait 1"
    using cred_v_ok by (auto simp: cred_room_def)
  from no_new_identities [OF this] show ?thesis using cred_v_ok(2) by auto
qed

end
