(* ===== verification/Lockmgr.thy ===== *)
theory Lockmgr
  imports Prelude
begin

text \<open>
  The lock manager, \<^verbatim>\<open>kern/kern_lock.c\<close> with \<^verbatim>\<open>include/sys/lock.h\<close> and the simple locks of \<^verbatim>\<open>include/i386/param.h\<close>. The lock keeps its share
  count and request bits in the word of its own simple lock. A request that has to wait is modelled up to its sleep, with the rest of it
  as a function of the result of \<open>tsleep\<close>; the theorems show that no request comes to that point.
\<close>

section \<open>State\<close>

abbreviation LK_NSHARE_MASK :: u32 where "LK_NSHARE_MASK \<equiv> 0xff"
abbreviation LK_WANT_UPGRADE :: u32 where "LK_WANT_UPGRADE \<equiv> 0x100"
abbreviation LK_WANT_EXCL :: u32 where "LK_WANT_EXCL \<equiv> 0x200"
abbreviation LK_HAVE_EXCL :: u32 where "LK_HAVE_EXCL \<equiv> 0x400"
abbreviation LK_SHARE_NONZERO :: u32 where "LK_SHARE_NONZERO \<equiv> 0x800"
abbreviation LK_WAITDRAIN :: u32 where "LK_WAITDRAIN \<equiv> 0x1000"
abbreviation LK_DRAINING :: u32 where "LK_DRAINING \<equiv> 0xdead0000"
abbreviation LK_DRAINED :: u32 where "LK_DRAINED \<equiv> 0xbeef0000"
abbreviation LK_TYPE_MASK :: u32 where "LK_TYPE_MASK \<equiv> 0xf"
abbreviation LK_SHARED :: u32 where "LK_SHARED \<equiv> 1"
abbreviation LK_EXCLUSIVE :: u32 where "LK_EXCLUSIVE \<equiv> 2"
abbreviation LK_UPGRADE :: u32 where "LK_UPGRADE \<equiv> 3"
abbreviation LK_EXCLUPGRADE :: u32 where "LK_EXCLUPGRADE \<equiv> 4"
abbreviation LK_DOWNGRADE :: u32 where "LK_DOWNGRADE \<equiv> 5"
abbreviation LK_RELEASE :: u32 where "LK_RELEASE \<equiv> 6"
abbreviation LK_DRAIN :: u32 where "LK_DRAIN \<equiv> 7"
abbreviation LK_REENABLE :: u32 where "LK_REENABLE \<equiv> 8"
abbreviation LK_EXTFLG_MASK :: u32 where "LK_EXTFLG_MASK \<equiv> 0xfff0"
abbreviation LK_NOWAIT :: u32 where "LK_NOWAIT \<equiv> 0x10"
abbreviation LK_SLEEPFAIL :: u32 where "LK_SLEEPFAIL \<equiv> 0x20"
abbreviation LK_CANRECURSE :: u32 where "LK_CANRECURSE \<equiv> 0x40"
abbreviation LK_INTERLOCK :: u32 where "LK_INTERLOCK \<equiv> 0x1000000"
abbreviation LK_KERNPROC :: int where "LK_KERNPROC \<equiv> -2"
abbreviation LK_NOPROC :: int where "LK_NOPROC \<equiv> -1"

datatype lkpanic =
    Using_decommissioned | Non_release_on_draining | Not_holding_exclusive | Upgrade_exclusive | Nonzero_exclusive_count
  | Locking_against_myself | Not_holder_unlocking | Draining_against_myself | Unknown_locktype

datatype lkwake = Wake_lock | Wake_flags

text \<open>\<open>lk_wakes\<close> are the calls of \<open>wakeup\<close>, in order.\<close>

record klock =
  lock_data :: u32
  lk_flags :: "16 word"
  lk_prio :: nat
  lk_timo :: "16 word"
  lk_waitcount :: "16 word"
  lk_exclusivecount :: u32
  lk_lockholder :: int
  lk_wakes :: "lkwake list"

text \<open>Where a request waits, and the outcome of a call.\<close>

datatype lkwait = W_shared | W_excl | W_want_excl | W_upgrade | W_drain

datatype lkres = Lk_done "errno option" | Lk_sleeps lkwait

type_synonym lkout = "lkpanic + lkres \<times> klock"

section \<open>Simple locks\<close>

definition simple_lock_init :: "klock \<Rightarrow> klock" where
  [kern_defs]: "simple_lock_init lk = lk\<lparr>lock_data := 0\<rparr>"

definition simple_lock :: "klock \<Rightarrow> klock" where
  [kern_defs]: "simple_lock lk = lk\<lparr>lock_data := 1\<rparr>"

definition simple_unlock :: "klock \<Rightarrow> klock" where
  [kern_defs]: "simple_unlock lk = lk\<lparr>lock_data := 0\<rparr>"

section \<open>The lock manager\<close>

definition lockinit :: "nat \<Rightarrow> nat \<Rightarrow> u32 \<Rightarrow> klock" where
  [kern_defs]: "lockinit prio timo flags = simple_lock_init
     \<lparr>lock_data = 0, lk_flags = ucast (flags AND LK_EXTFLG_MASK), lk_prio = prio mod 256, lk_timo = of_nat timo, lk_waitcount = 0,
      lk_exclusivecount = 0, lk_lockholder = LK_NOPROC, lk_wakes = []\<rparr>"

definition has :: "u32 \<Rightarrow> klock \<Rightarrow> bool" where
  [kern_defs]: "has m lk \<longleftrightarrow> lock_data lk AND m \<noteq> 0"

definition set_bits :: "u32 \<Rightarrow> klock \<Rightarrow> klock" where
  [kern_defs]: "set_bits m lk = lk\<lparr>lock_data := lock_data lk OR m\<rparr>"

definition clear_bits :: "u32 \<Rightarrow> klock \<Rightarrow> klock" where
  [kern_defs]: "clear_bits m lk = lk\<lparr>lock_data := lock_data lk AND NOT m\<rparr>"

definition lk_busy :: "klock \<Rightarrow> bool" where
  [kern_defs]: "lk_busy lk \<longleftrightarrow> has (LK_HAVE_EXCL OR LK_WANT_EXCL OR LK_WANT_UPGRADE) lk"

definition lockstatus :: "klock \<Rightarrow> u32 \<times> klock" where
  [kern_defs]: "lockstatus lk =
     (let lk1 = simple_lock lk in
      (if lk_exclusivecount lk1 \<noteq> 0 then LK_EXCLUSIVE else if has LK_SHARE_NONZERO lk1 then LK_SHARED else 0, simple_unlock lk1))"

definition wake_waiters :: "klock \<Rightarrow> klock" where
  [kern_defs]: "wake_waiters lk = (if lk_waitcount lk \<noteq> 0 then lk\<lparr>lk_wakes := lk_wakes lk @ [Wake_lock]\<rparr> else lk)"

text \<open>The end of \<open>lockmgr\<close>.\<close>

definition lk_finish :: "errno option \<Rightarrow> klock \<Rightarrow> lkout" where
  [kern_defs]: "lk_finish e lk =
     (let lk1 = (if ucast (lk_flags lk) AND LK_WAITDRAIN \<noteq> 0 \<and> \<not> lk_busy lk \<and> \<not> has LK_SHARE_NONZERO lk \<and> lk_waitcount lk = 0
                 then lk\<lparr>lk_flags := lk_flags lk AND NOT (ucast LK_WAITDRAIN), lk_wakes := lk_wakes lk @ [Wake_flags]\<rparr> else lk) in
      Inr (Lk_done e, simple_unlock lk1))"

text \<open>The macro \<^verbatim>\<open>ACQUIRE\<close> up to its sleep, and from the return of \<open>tsleep\<close> on; \<open>k\<close> is what follows it.\<close>

definition acquire :: "lkwait \<Rightarrow> (klock \<Rightarrow> bool) \<Rightarrow> (errno option \<Rightarrow> klock \<Rightarrow> lkout) \<Rightarrow> klock \<Rightarrow> lkout" where
  [kern_defs]: "acquire w wanted k lk =
     (if wanted lk then Inr (Lk_sleeps w, simple_unlock (lk\<lparr>lk_waitcount := lk_waitcount lk + 1\<rparr>)) else k None lk)"

definition acquire_resume :: "lkwait \<Rightarrow> (klock \<Rightarrow> bool) \<Rightarrow> u32 \<Rightarrow> errno option \<Rightarrow> (errno option \<Rightarrow> klock \<Rightarrow> lkout) \<Rightarrow> klock \<Rightarrow> lkout" where
  [kern_defs]: "acquire_resume w wanted extflags e k lk =
     (let lk1 = (simple_lock lk)\<lparr>lk_waitcount := lk_waitcount lk - 1\<rparr> in
      if e \<noteq> None then k e lk1
      else if extflags AND LK_SLEEPFAIL \<noteq> 0 then k (Some ENOLCK) lk1
      else acquire w wanted k lk1)"

definition share_add :: "u32 \<Rightarrow> klock \<Rightarrow> klock" where
  [kern_defs]: "share_add n lk = lk\<lparr>lock_data := lock_data lk + n\<rparr>"

definition share_drop :: "klock \<Rightarrow> klock" where
  [kern_defs]: "share_drop lk =
     (let lk1 = lk\<lparr>lock_data := lock_data lk - 1\<rparr> in if has LK_NSHARE_MASK lk1 then lk1 else clear_bits LK_SHARE_NONZERO lk1)"

definition shared_granted :: "errno option \<Rightarrow> klock \<Rightarrow> lkout" where
  [kern_defs]: "shared_granted e lk = (if e \<noteq> None then lk_finish e lk else lk_finish None (set_bits LK_SHARE_NONZERO (share_add 1 lk)))"

definition take_excl :: "int \<Rightarrow> klock \<Rightarrow> lkout" where
  [kern_defs]: "take_excl pid lk =
     (let lk1 = (set_bits LK_HAVE_EXCL lk)\<lparr>lk_lockholder := pid\<rparr> in
      if lk_exclusivecount lk1 \<noteq> 0 then Inl Nonzero_exclusive_count else lk_finish None (lk1\<lparr>lk_exclusivecount := 1\<rparr>))"

definition upgrade_granted :: "int \<Rightarrow> errno option \<Rightarrow> klock \<Rightarrow> lkout" where
  [kern_defs]: "upgrade_granted pid e lk =
     (let lk1 = clear_bits LK_WANT_UPGRADE lk in if e \<noteq> None then lk_finish e lk1 else take_excl pid lk1)"

definition want_excl_granted :: "int \<Rightarrow> errno option \<Rightarrow> klock \<Rightarrow> lkout" where
  [kern_defs]: "want_excl_granted pid e lk =
     (let lk1 = clear_bits LK_WANT_EXCL lk in if e \<noteq> None then lk_finish e lk1 else take_excl pid lk1)"

definition excl_granted :: "int \<Rightarrow> errno option \<Rightarrow> klock \<Rightarrow> lkout" where
  [kern_defs]: "excl_granted pid e lk =
     (if e \<noteq> None then lk_finish e lk
      else acquire W_want_excl (\<lambda>lk. has LK_SHARE_NONZERO lk \<or> has LK_WANT_UPGRADE lk) (want_excl_granted pid) (set_bits LK_WANT_EXCL lk))"

definition lk_downgrade :: "int \<Rightarrow> klock \<Rightarrow> lkout" where
  [kern_defs]: "lk_downgrade pid lk =
     (if lk_lockholder lk \<noteq> pid \<or> lk_exclusivecount lk = 0 then Inl Not_holding_exclusive
      else lk_finish None (wake_waiters
        ((clear_bits LK_HAVE_EXCL (share_add (lk_exclusivecount lk) lk))\<lparr>lk_exclusivecount := 0, lk_lockholder := LK_NOPROC\<rparr>)))"

definition lk_shared :: "int \<Rightarrow> u32 \<Rightarrow> klock \<Rightarrow> lkout" where
  [kern_defs]: "lk_shared pid extflags lk =
     (if lk_lockholder lk \<noteq> pid then
        if extflags AND LK_NOWAIT \<noteq> 0 \<and> lk_busy lk then lk_finish (Some EBUSY) lk
        else acquire W_shared lk_busy shared_granted lk
      else lk_downgrade pid (set_bits LK_SHARE_NONZERO (share_add 1 lk)))"

definition lk_exclusive :: "int \<Rightarrow> u32 \<Rightarrow> klock \<Rightarrow> lkout" where
  [kern_defs]: "lk_exclusive pid extflags lk =
     (if lk_lockholder lk = pid \<and> pid \<noteq> LK_KERNPROC then
        if extflags AND LK_CANRECURSE = 0 then Inl Locking_against_myself
        else lk_finish None (lk\<lparr>lk_exclusivecount := lk_exclusivecount lk + 1\<rparr>)
      else if extflags AND LK_NOWAIT \<noteq> 0 \<and> (lk_busy lk \<or> has LK_SHARE_NONZERO lk) then lk_finish (Some EBUSY) lk
      else acquire W_excl (has (LK_HAVE_EXCL OR LK_WANT_EXCL)) (excl_granted pid) lk)"

definition lk_upgrade :: "int \<Rightarrow> u32 \<Rightarrow> klock \<Rightarrow> lkout" where
  [kern_defs]: "lk_upgrade pid extflags lk =
     (if lk_lockholder lk = pid \<or> \<not> has LK_NSHARE_MASK lk then Inl Upgrade_exclusive
      else
        let lk1 = share_drop lk in
        if extflags AND LK_NOWAIT \<noteq> 0 \<and> (has LK_WANT_UPGRADE lk1 \<or> 1 < lock_data lk1 AND LK_NSHARE_MASK) then lk_finish (Some EBUSY) lk1
        else if \<not> has LK_WANT_UPGRADE lk1 then
          acquire W_upgrade (has LK_NSHARE_MASK) (upgrade_granted pid) (set_bits LK_WANT_UPGRADE lk1)
        else lk_exclusive pid extflags (if \<not> has LK_NSHARE_MASK lk1 then wake_waiters lk1 else lk1))"

definition lk_exclupgrade :: "int \<Rightarrow> u32 \<Rightarrow> klock \<Rightarrow> lkout" where
  [kern_defs]: "lk_exclupgrade pid extflags lk =
     (if has LK_WANT_UPGRADE lk then lk_finish (Some EBUSY) (share_drop lk) else lk_upgrade pid extflags lk)"

definition lk_release :: "int \<Rightarrow> klock \<Rightarrow> lkout" where
  [kern_defs]: "lk_release pid lk =
     (if lk_exclusivecount lk \<noteq> 0 then
        if pid \<noteq> lk_lockholder lk then Inl Not_holder_unlocking
        else
          let lk1 = lk\<lparr>lk_exclusivecount := lk_exclusivecount lk - 1\<rparr> in
          lk_finish None (wake_waiters (if lk_exclusivecount lk1 = 0 then (clear_bits LK_HAVE_EXCL lk1)\<lparr>lk_lockholder := LK_NOPROC\<rparr> else lk1))
      else lk_finish None (wake_waiters (if has LK_SHARE_NONZERO lk then share_drop lk else lk)))"

definition drain_waits :: "klock \<Rightarrow> bool" where
  [kern_defs]: "drain_waits lk \<longleftrightarrow> lk_busy lk \<or> has LK_SHARE_NONZERO lk \<or> lk_waitcount lk \<noteq> 0"

text \<open>The flags are 16 bits wide, so the assignment keeps only the low half of \<^verbatim>\<open>LK_DRAINING | LK_HAVE_EXCL\<close>.\<close>

definition drain_loop :: "int \<Rightarrow> klock \<Rightarrow> lkout" where
  [kern_defs]: "drain_loop pid lk =
     (if drain_waits lk then Inr (Lk_sleeps W_drain, simple_unlock (lk\<lparr>lk_flags := lk_flags lk OR ucast LK_WAITDRAIN\<rparr>))
      else lk_finish None (lk\<lparr>lk_flags := lk_flags lk OR ucast (LK_DRAINING OR LK_HAVE_EXCL), lk_lockholder := pid, lk_exclusivecount := 1\<rparr>))"

definition lk_drain :: "int \<Rightarrow> u32 \<Rightarrow> klock \<Rightarrow> lkout" where
  [kern_defs]: "lk_drain pid extflags lk =
     (if lk_lockholder lk = pid then Inl Draining_against_myself
      else if extflags AND LK_NOWAIT \<noteq> 0 \<and> drain_waits lk then lk_finish (Some EBUSY) lk
      else drain_loop pid lk)"

text \<open>The checks under \<^verbatim>\<open>DIAGNOSTIC\<close> on a lock that is being drained or has been.\<close>

definition drain_check :: "int \<Rightarrow> u32 \<Rightarrow> klock \<Rightarrow> lkpanic + klock" where
  [kern_defs]: "drain_check pid flags lk =
     (if ucast (lk_flags lk) AND (LK_DRAINING OR LK_DRAINED) \<noteq> 0 then
        if ucast (lk_flags lk) AND LK_DRAINED \<noteq> 0 then Inl Using_decommissioned
        else if flags AND LK_TYPE_MASK \<noteq> LK_RELEASE \<or> lk_lockholder lk \<noteq> pid then Inl Non_release_on_draining
        else
          let lk1 = lk\<lparr>lk_flags := ucast (ucast (lk_flags lk) AND NOT LK_DRAINING)\<rparr> in
          Inr (if flags AND LK_REENABLE = 0 then lk1\<lparr>lk_flags := ucast (ucast (lk_flags lk1) OR LK_DRAINED)\<rparr> else lk1)
      else Inr lk)"

definition lk_pid :: "int option \<Rightarrow> int" where
  [kern_defs]: "lk_pid p = (case p of None \<Rightarrow> LK_KERNPROC | Some pid \<Rightarrow> pid)"

definition lockmgr :: "u32 \<Rightarrow> int option \<Rightarrow> klock \<Rightarrow> lkout" where
  [kern_defs]: "lockmgr flags p lk =
     (let pid = lk_pid p; lk0 = simple_lock lk; extflags = (flags OR ucast (lk_flags lk0)) AND LK_EXTFLG_MASK; t = flags AND LK_TYPE_MASK in
      case drain_check pid flags lk0 of
        Inl f \<Rightarrow> Inl f
      | Inr lk1 \<Rightarrow>
          if t = LK_SHARED then lk_shared pid extflags lk1
          else if t = LK_DOWNGRADE then lk_downgrade pid lk1
          else if t = LK_EXCLUPGRADE then lk_exclupgrade pid extflags lk1
          else if t = LK_UPGRADE then lk_upgrade pid extflags lk1
          else if t = LK_EXCLUSIVE then lk_exclusive pid extflags lk1
          else if t = LK_RELEASE then lk_release pid lk1
          else if t = LK_DRAIN then lk_drain pid extflags lk1
          else Inl Unknown_locktype)"

text \<open>The rest of a call after its sleep; \<open>e\<close> is the result of \<open>tsleep\<close>.\<close>

definition lockmgr_resume :: "lkwait \<Rightarrow> u32 \<Rightarrow> int option \<Rightarrow> errno option \<Rightarrow> klock \<Rightarrow> lkout" where
  [kern_defs]: "lockmgr_resume w extflags p e lk =
     (let pid = lk_pid p in
      case w of
        W_shared \<Rightarrow> acquire_resume W_shared lk_busy extflags e shared_granted lk
      | W_excl \<Rightarrow> acquire_resume W_excl (has (LK_HAVE_EXCL OR LK_WANT_EXCL)) extflags e (excl_granted pid) lk
      | W_want_excl \<Rightarrow> acquire_resume W_want_excl (\<lambda>lk. has LK_SHARE_NONZERO lk \<or> has LK_WANT_UPGRADE lk) extflags e (want_excl_granted pid) lk
      | W_upgrade \<Rightarrow> acquire_resume W_upgrade (has LK_NSHARE_MASK) extflags e (upgrade_granted pid) lk
      | W_drain \<Rightarrow>
          if e \<noteq> None then Inr (Lk_done e, lk)
          else if extflags AND LK_SLEEPFAIL \<noteq> 0 then Inr (Lk_done (Some ENOLCK), lk)
          else drain_loop pid (simple_lock lk))"

section \<open>What the lock manager does\<close>

text \<open>
  Between calls the word of the simple lock is 0 and nobody waits. The reference \<open>lockmgr_ref\<close> knows only the holder of the lock and the
  number of its exclusive holds.
\<close>

definition lk_idle :: "klock \<Rightarrow> bool" where
  "lk_idle lk \<longleftrightarrow> lock_data lk = 0 \<and> lk_waitcount lk = 0 \<and> ucast (lk_flags lk) AND LK_WAITDRAIN = 0"

definition hold :: "int \<Rightarrow> u32 \<Rightarrow> klock \<Rightarrow> klock" where
  "hold pid n lk = lk\<lparr>lk_lockholder := pid, lk_exclusivecount := n\<rparr>"

definition lockmgr_ref :: "u32 \<Rightarrow> int option \<Rightarrow> klock \<Rightarrow> lkpanic + klock" where
  "lockmgr_ref flags p lk =
     (let t = flags AND LK_TYPE_MASK; pid = lk_pid p; mine = (lk_lockholder lk = pid); n = lk_exclusivecount lk;
          recurse = ((flags OR ucast (lk_flags lk)) AND LK_CANRECURSE \<noteq> 0);
          grab = (if n = 0 then Inr (hold pid 1 lk) else Inl Nonzero_exclusive_count);
          drop = (if n = 0 then Inl Not_holding_exclusive else Inr (hold LK_NOPROC 0 lk)) in
      if t = LK_SHARED then if mine then drop else Inr lk
      else if t = LK_EXCLUSIVE then
        if mine \<and> pid \<noteq> LK_KERNPROC then if recurse then Inr (hold pid (n + 1) lk) else Inl Locking_against_myself else grab
      else if t = LK_UPGRADE \<or> t = LK_EXCLUPGRADE then if mine then Inl Upgrade_exclusive else grab
      else if t = LK_DOWNGRADE then if mine then drop else Inl Not_holding_exclusive
      else if t = LK_RELEASE then
        if n = 0 then Inr lk else if \<not> mine then Inl Not_holder_unlocking
        else Inr (if n = 1 then hold LK_NOPROC 0 lk else hold pid (n - 1) lk)
      else if t = LK_DRAIN then
        if mine then Inl Draining_against_myself else Inr ((hold pid 1 lk)\<lparr>lk_flags := lk_flags lk OR ucast LK_HAVE_EXCL\<rparr>)
      else Inl Unknown_locktype)"

lemma low_half: "(ucast (w :: 16 word) :: u32) AND (LK_DRAINING OR LK_DRAINED) = 0"
proof (rule bit_eqI)
  fix n
  have "\<not> bit (LK_DRAINING OR LK_DRAINED) n" if "n < 16" using that by (simp add: less_Suc_eq numeral_eq_Suc) (elim disjE; simp)
  moreover have "bit w n \<Longrightarrow> n < 16" using bit_imp_le_length [of w n] by simp
  ultimately show "bit (ucast w AND (LK_DRAINING OR LK_DRAINED) :: u32) n = bit 0 n" by (auto simp: bit_and_iff bit_ucast_iff)
qed

lemma drain_check_off [simp]: "drain_check pid flags lk = Inr lk"
  by (simp only: drain_check_def low_half simp_thms if_False)

lemma recurse_bit: "(x AND LK_EXTFLG_MASK) AND LK_CANRECURSE = x AND LK_CANRECURSE"
  by (simp add: and.assoc)

lemma idle_flags: "lk_idle lk \<Longrightarrow> lk_idle (hold pid n lk)" "lk_idle lk \<Longrightarrow> lk_idle (lk\<lparr>lk_flags := lk_flags lk OR ucast LK_HAVE_EXCL\<rparr>)"
proof -
  show "lk_idle lk \<Longrightarrow> lk_idle (hold pid n lk)" by (simp add: lk_idle_def hold_def)
  have "ucast (w OR 0x400) AND LK_WAITDRAIN = ucast w AND LK_WAITDRAIN" for w :: "16 word"
    by (simp add: unsigned_or_eq bit.conj_disj_distrib2)
  then show "lk_idle lk \<Longrightarrow> lk_idle (lk\<lparr>lk_flags := lk_flags lk OR ucast LK_HAVE_EXCL\<rparr>)" by (simp add: lk_idle_def)
qed

lemma draining_truncated: "(ucast (LK_DRAINING OR LK_HAVE_EXCL) :: 16 word) = ucast LK_HAVE_EXCL"
proof -
  have "(0xdead0400 :: 16 word) = 0x400" unfolding word_uint_eq_iff by simp
  then show ?thesis by simp
qed

lemma idle_wait: "ucast (lk_flags lk) AND LK_WAITDRAIN = 0 \<Longrightarrow> ucast (lk_flags lk OR 0x400) AND LK_WAITDRAIN = 0"
  by (simp add: unsigned_or_eq bit.conj_disj_distrib2)

lemma lockmgr_parts:
  assumes "lk_idle lk"
  shows "lk_shared pid x (simple_lock lk) = map_sum id (Pair (Lk_done None))
      (if lk_lockholder lk = pid then if lk_exclusivecount lk = 0 then Inl Not_holding_exclusive else Inr (hold LK_NOPROC 0 lk) else Inr lk)"
    "lk_exclusive pid x (simple_lock lk) = map_sum id (Pair (Lk_done None))
      (if lk_lockholder lk = pid \<and> pid \<noteq> LK_KERNPROC then if x AND LK_CANRECURSE = 0 then Inl Locking_against_myself else Inr (hold pid (lk_exclusivecount lk + 1) lk)
       else if lk_exclusivecount lk = 0 then Inr (hold pid 1 lk) else Inl Nonzero_exclusive_count)"
    "lk_upgrade pid x (simple_lock lk) = map_sum id (Pair (Lk_done None))
      (if lk_lockholder lk = pid then Inl Upgrade_exclusive else if lk_exclusivecount lk = 0 then Inr (hold pid 1 lk) else Inl Nonzero_exclusive_count)"
    "lk_exclupgrade pid x (simple_lock lk) = lk_upgrade pid x (simple_lock lk)"
    "lk_downgrade pid (simple_lock lk) = map_sum id (Pair (Lk_done None))
      (if lk_lockholder lk \<noteq> pid \<or> lk_exclusivecount lk = 0 then Inl Not_holding_exclusive else Inr (hold LK_NOPROC 0 lk))"
    "lk_release pid (simple_lock lk) = map_sum id (Pair (Lk_done None))
      (if lk_exclusivecount lk = 0 then Inr lk else if lk_lockholder lk \<noteq> pid then Inl Not_holder_unlocking
       else Inr (if lk_exclusivecount lk = 1 then hold LK_NOPROC 0 lk else hold pid (lk_exclusivecount lk - 1) lk))"
    "lk_drain pid x (simple_lock lk) = map_sum id (Pair (Lk_done None))
      (if lk_lockholder lk = pid then Inl Draining_against_myself else Inr ((hold pid 1 lk)\<lparr>lk_flags := lk_flags lk OR ucast LK_HAVE_EXCL\<rparr>))"
  using assms idle_wait [of lk] unfolding lk_drain_def drain_loop_def draining_truncated by (auto simp: lk_idle_def kern_defs hold_def Let_def)

text \<open>C39. No call of \<open>lockmgr\<close> waits or reports that the lock is busy: on a lock that is idle it does exactly what the reference does, which
  knows only the exclusive holder, and leaves the lock idle or panics. In particular a shared lock is granted to everybody but the holder
  and leaves no trace, because the word that counts shared locks is the word of the simple lock, which every call sets to 1 at its start
  and to 0 at its end.\<close>

theorem lockmgr_exact:
  assumes "lk_idle lk"
  shows "lockmgr flags p lk = map_sum id (Pair (Lk_done None)) (lockmgr_ref flags p lk) \<and>
    (\<forall>lk'. lockmgr_ref flags p lk = Inr lk' \<longrightarrow> lk_idle lk')"
proof -
  have fl: "lk_flags (simple_lock lk) = lk_flags lk" by (simp add: simple_lock_def)
  have "lockmgr flags p lk = map_sum id (Pair (Lk_done None)) (lockmgr_ref flags p lk)"
    unfolding lockmgr_def lockmgr_ref_def Let_def drain_check_off sum.case lockmgr_parts [OF assms] recurse_bit fl by auto
  moreover have "lk_idle lk'" if "lockmgr_ref flags p lk = Inr lk'" for lk'
    using that assms idle_flags(1) [OF assms] idle_flags(2) [OF idle_flags(1) [OF assms]]
    by (auto simp: lockmgr_ref_def Let_def hold_def split: if_splits)
  ultimately show ?thesis by blast
qed

theorem lockmgr_exact_witness:
  "lockmgr LK_EXCLUSIVE (Some 7) (lockinit 20 0 0) = Inr (Lk_done None, hold 7 1 (lockinit 20 0 0))"
proof -
  have "lk_idle (lockinit 20 0 0)" by (simp add: lk_idle_def lockinit_def simple_lock_init_def)
  then show ?thesis using lockmgr_exact [of "lockinit 20 0 0" LK_EXCLUSIVE "Some 7"]
    by (simp add: lockmgr_ref_def Let_def lk_pid_def lockinit_def simple_lock_init_def)
qed

text \<open>C40. Locks do not exclude each other: while one process holds a lock exclusively, every other process gets it shared at once, and a
  third one that drains it becomes its holder; a second exclusive request panics.\<close>

theorem lockmgr_excludes_nobody:
  assumes "lk_idle lk" "lk_lockholder lk = a" "lk_exclusivecount lk \<noteq> 0" "a \<noteq> b"
  shows "lockmgr LK_SHARED (Some b) lk = Inr (Lk_done None, lk) \<and>
    (\<exists>lk'. lockmgr LK_DRAIN (Some b) lk = Inr (Lk_done None, lk') \<and> lk_lockholder lk' = b) \<and>
    lockmgr LK_EXCLUSIVE (Some b) lk = Inl Nonzero_exclusive_count"
  using lockmgr_parts [OF assms(1)] assms(2-4) by (auto simp: lockmgr_def Let_def lk_pid_def hold_def)

theorem lockmgr_excludes_nobody_witness:
  "\<exists>lk. lockmgr LK_EXCLUSIVE (Some 7) (lockinit 20 0 0) = Inr (Lk_done None, lk) \<and> lockmgr LK_SHARED (Some 8) lk = Inr (Lk_done None, lk)"
proof -
  let ?lk = "hold 7 1 (lockinit 20 0 0)"
  have i: "lk_idle (lockinit 20 0 0)" by (simp add: lk_idle_def lockinit_def simple_lock_init_def)
  have "lockmgr LK_EXCLUSIVE (Some 7) (lockinit 20 0 0) = Inr (Lk_done None, ?lk)"
    using lockmgr_parts(2) [OF i] by (simp add: lockmgr_def Let_def lk_pid_def lockinit_def simple_lock_init_def)
  moreover have "lockmgr LK_SHARED (Some 8) ?lk = Inr (Lk_done None, ?lk)"
    using lockmgr_excludes_nobody [OF idle_flags(1) [OF i, of 7 1], of 7 8] by (simp add: hold_def)
  ultimately show ?thesis by blast
qed

text \<open>The release of a mount point after a failed unmount panics: \<^verbatim>\<open>LK_REENABLE\<close> is inside the mask of the request type.\<close>

lemma release_reenable_panics: "lockmgr (LK_RELEASE OR LK_INTERLOCK OR LK_REENABLE) p lk = Inl Unknown_locktype"
  by (simp add: lockmgr_def Let_def)

end
