(* ===== verification/Spec2Isabelle.thy ===== *)
theory Spec2Isabelle
  imports Rlist Disksort Bpfdev Timesys Lockf Sigprop Cred Lockmgr
begin

text \<open>
  A verification library for the kernel of 386BSD (\<^verbatim>\<open>src/usr/src/kernel\<close>). The theories translate routines of the kernel
  from C, one definition per routine, and prove what the rest of the kernel relies on. All paths below are under
  \<^verbatim>\<open>src/usr/src/kernel\<close>.

  \<^bold>\<open>The parts of the kernel and how they interact.\<close> A process enters the kernel by a system call. The calls on time read and set
  the clock that the clock interrupt advances, and arm timers in the callout queue; the callout queue also ends sleeps that have a
  timeout. A process that has to wait goes to a sleep queue and is put back to a run queue by \<open>wakeup\<close>; the switch takes the best
  process from the run queues, in the order of priorities that the statistics clock and \<open>schedcpu\<close> compute. Processes are made by
  \<open>fork1\<close> with a fresh number, belong to groups and sessions, and are collected by \<open>wait1\<close> after \<open>exit1\<close>. Signals go from
  process to process along this tree, wake, stop and continue processes, and are delivered before the return to user mode. Files are reached by
  descriptors that share counted structures; record locks on files belong to processes and make them sleep. The swap code takes its
  space from resource lists, disk drivers sort their requests, and network interfaces hand each packet to the packet filter, which
  decides what a capture device queues for its reader. What a process may do depends on its credentials, which it shares with the files
  it has opened; maps and mount points are locked by the lock manager.

  \<^bold>\<open>Theories.\<close>
  \<^item> \<open>Prelude\<close>: widths of the machine integers, C arithmetic on signed values with \<open>wrap32\<close>, error numbers, sequencing of fallible
    steps, shared lemmas, and the locale \<open>safe_calls\<close>: when every single call that is allowed returns and keeps an invariant, every
    sequence of allowed calls does.
  \<^item> \<open>Rlist\<close>: \<^verbatim>\<open>kern/subr/rlist.c\<close>. A resource list is a list of extents of 32-bit words; its meaning is the set of free units.
    Release adds and allocation removes exactly the region, both keep the list ordered and coalesced, and the panics are exact. Locale
    \<open>extent_pool\<close>, interpreted as \<open>rl\<close>.
  \<^item> \<open>Disksort\<close>: \<^verbatim>\<open>kern/subr/disksort.c\<close>. Insertion keeps two ascending sweeps and loses no request. Locale \<open>request_queue\<close>,
    interpreted as \<open>dq\<close>.
  \<^item> \<open>Bpf\<close>: \<^verbatim>\<open>kern/net/bpf_filter.c\<close>. The interpreter has the program counter, accumulator, index and scratch memory of the code
    and is run with fuel; a validated program with forward jumps ends within as many steps as it has instructions, so that number is
    enough fuel. Faults other than an access outside the packet cannot occur in such a program.
  \<^item> \<open>Bpfdev\<close>: \<^verbatim>\<open>kern/net/bpf.c\<close>. A descriptor with its three buffer slots over a heap of byte buffers refines a queue of packets.
    Locale \<open>capture_device\<close>, interpreted as \<open>bd\<close>.
  \<^item> \<open>Timeval\<close>, \<open>Timesys\<close>: \<^verbatim>\<open>kern/kern_time.c\<close>. Interval timers fire without drift, a correction by \<open>adjtime\<close> of up to 2000 seconds is applied exactly,
    \<open>realitexpire\<close> ends and finds the next multiple of the interval; its loop is a partial function with a proof that it returns.
  \<^item> \<open>Clock\<close>: \<^verbatim>\<open>kern/kern_clock.c\<close>. The callout queue of differences is a calendar of events with the ticks until each is due. Locale
    \<open>calendar\<close>, interpreted as \<open>co\<close>.
  \<^item> \<open>Proc\<close>, \<open>Sched\<close>, \<open>Schedcur\<close>, \<open>Schedsys\<close>: \<^verbatim>\<open>kern/kern_synch.c\<close>, with the run queues of \<^verbatim>\<open>kern/i386/locore.s\<close>, the user-mode return of
    \<^verbatim>\<open>kern/i386/trap.c\<close> and swapping in \<^verbatim>\<open>kern/vm/vm_glue.c\<close>. The pointer structure of the sleep queues is part of the state; the
    invariant \<open>sched_ok\<close> says that each process is on exactly the queue its state names. \<open>mi_switch\<close> may send a signal to the process that
    leaves the processor when it has used up its CPU time; what that does to the queues is an argument in \<open>Sched\<close>, and in \<open>Signals\<close> it is
    \<open>psignal\<close> itself (\<open>mi_switch_s\<close>; \<open>Sigok\<close> shows that it is one of the effects that \<open>Sched\<close> allows). \<open>Schedcur\<close> shows that waking does not
    depend on who runs. \<open>Schedsys\<close>: every sequence of calls that is not longer than the list of free callouts returns and keeps the
    invariant (\<open>safe_calls\<close>, interpreted as \<open>scc\<close>); \<open>wakeup\<close> is exact; a sleep with a timeout ends.
  \<^item> \<open>Pid\<close>: the number search of \<^verbatim>\<open>kern/kern_fork.c\<close>, a loop with a jump back, proved to end with a fresh number for tables of up to
    14950 processes, half of the numbers above 100, since each process takes at most two numbers.
  \<^item> \<open>Pgrp\<close>, \<open>Pgrpinv\<close>, \<open>Pgrpsys\<close>: \<^verbatim>\<open>kern/kern_proc.c\<close> and the parts of \<^verbatim>\<open>kern_fork.c\<close>, \<^verbatim>\<open>kern_exit.c\<close> and \<^verbatim>\<open>kern_prot.c\<close> that change the
    process tree, groups and sessions, with the calls of \<^verbatim>\<open>kern/tty.c\<close> that give a session its terminal, set the foreground group and close
    the terminal. \<open>pg_step\<close> is the relation of all these calls and \<open>pg_reach\<close> the states reached from the state after the start of \<^verbatim>\<open>init\<close>;
    in all of them the job control counters are exact, no call panics but the exit of \<^verbatim>\<open>init\<close>, and the counts agree.
  \<^item> \<open>Signals\<close>: the definitions for \<^verbatim>\<open>kern/kern_sig.c\<close>, with \<open>sendsig\<close> and \<open>sigreturn\<close> of \<^verbatim>\<open>kern/i386/machdep.c\<close> and the places in \<open>tsleep\<close>,
    \<open>fork1\<close>, \<open>exit1\<close> and \<open>trap\<close> where signals are looked at. The state joins the scheduler of \<open>Sched\<close> and the process tree of \<open>Pgrp\<close> with
    the signal words and actions of each process. \<open>Sigok\<close>: \<open>psignal\<close> returns, keeps the scheduler consistent and lets no interruptible
    sleeper miss a signal; \<open>issignal\<close> equals a search without a loop.
    \<open>Sigsys\<close>: the invariant \<open>sig_inv\<close>; the delivery loop is a partial function with a proof that it returns; stopping, continuing and
    killing. \<open>Sigcall\<close>: every sequence of signal and scheduling calls is safe (\<open>safe_calls\<close>, interpreted as \<open>sgc\<close>). \<open>Sigprop\<close>: the
    properties, and that every process tree in \<open>pg_reach\<close> has the links that the signal code follows.
  \<^item> \<open>Cred\<close>: the identities of \<^verbatim>\<open>kern/kern_prot.c\<close>. Counted credential structures are shared by processes and open files; the counts are
    exact in every sequence of calls (\<open>safe_calls\<close>, interpreted as \<open>crc\<close>) and an ordinary process gets no new identity, as long as the
    holders and the calls together are fewer than 65536, since a count has 16 bits; a call changes credentials for its caller only.
  \<^item> \<open>Lockmgr\<close>: \<^verbatim>\<open>kern/kern_lock.c\<close> with the simple locks of \<^verbatim>\<open>include/i386/param.h\<close>, which use the same word. The lock manager is shown
    equal to a reference without shared locks and without waiting.
  \<^item> \<open>Descrip\<close>: \<^verbatim>\<open>kern/kern_descrip.c\<close>. The count of every open file is the number of descriptors that name it, over all sequences of
    calls of all processes with arguments for which the code is safe and counts that fit into a short (\<open>safe_calls\<close>, interpreted as
    \<open>fdc\<close>).
  \<^item> \<open>Lockf\<close>: \<^verbatim>\<open>ufs/ufs_lockf.c\<close>. The lock list refines the map from bytes to the locks of the owners; conflicting locks are never
    held together when lengths are not negative and ranges end before the largest offset, where \<open>lf_end + 1\<close> wraps (\<open>safe_calls\<close>,
    interpreted as \<open>lkc\<close>).

  \<^bold>\<open>Conventions.\<close> A panic, a null pointer or an access outside an array is a value of the left side of a sum. A loop that could run
  forever is a partial function into \<open>option\<close>, and the theorems say that it returns. Addresses that \<^verbatim>\<open>malloc\<close> would return, the results
  of \<^verbatim>\<open>copyin\<close> and \<^verbatim>\<open>copyout\<close>, and the times an interrupt comes are arguments. Interrupt priority levels are not part of the state: a
  routine that runs at \<^verbatim>\<open>splhigh\<close> is one step. In the process tree each system call is one step, also \<open>fork1\<close>, which may sleep for memory
  between the choice of the number and the linking of the child, and \<open>exit1\<close>, which may sleep while it closes files and drains its terminal
  before it adjusts the counters (and, with kernel tracing, after that): what other processes do during these sleeps is not covered.

  \<^bold>\<open>Not modelled.\<close> Memory (\<^verbatim>\<open>kern_malloc.c\<close>, \<^verbatim>\<open>kern/vm\<close>), the mbuf, socket and protocol layers, the file system switch and the file
  systems, terminals apart from their sessions, program loading, tracing and accounting, core files and the signal calls for older programs, and the drivers, which
  consist mostly of accesses to devices or calls of each other; the commands and libraries outside the kernel; and compilers, tools and other vendored programs.
\<close>

end
